(* ===== verification/Prelude.thy ===== *)
theory Prelude imports Main "HOL-Library.Word" "HOL-Library.Log_Nat" begin

text \<open>
  What every theory of the development shares: the ways a Lua C function can fail, the
  sequencing of fallible steps, C's signed arithmetic with its overflow written out, and the
  generic facts about words, bytes and lists that the component theories use.
\<close>

unbundle bit_operations_syntax

named_theorems errsimps \<open>unfolding rules of fallible steps\<close>

section \<open>Machine types\<close>

type_synonym byte = "8 word"
type_synonym u32 = "32 word"
type_synonym u64 = "64 word"

text \<open>
  A C \<open>int\<close> is a HOL integer in the range of 32 bits. Unsigned C integers wrap and are words;
  signed C integers do not wrap (overflow is undefined behaviour), so they are unbounded integers
  and every operation that can leave the range goes through \<open>c_int\<close> (below).
\<close>

abbreviation INT_MIN :: int where "INT_MIN \<equiv> - 2147483648"
abbreviation INT_MAX :: int where "INT_MAX \<equiv> 2147483647"
abbreviation LLONG_MIN :: int where "LLONG_MIN \<equiv> - 9223372036854775808"
abbreviation LLONG_MAX :: int where "LLONG_MAX \<equiv> 9223372036854775807"

definition in_int32 :: "int \<Rightarrow> bool" where
  "in_int32 i \<longleftrightarrow> INT_MIN \<le> i \<and> i \<le> INT_MAX"

definition in_int64 :: "int \<Rightarrow> bool" where
  "in_int64 i \<longleftrightarrow> LLONG_MIN \<le> i \<and> i \<le> LLONG_MAX"

section \<open>Failing computations\<close>

text \<open>
  \<open>ArgError n msg\<close> is what \<open>luaL_argerror\<close> raises for argument \<open>n\<close>, \<open>TypeError n tname\<close> what
  \<open>luaL_typeerror\<close> raises, \<open>RunError msg\<close> what \<open>luaL_error\<close> and \<open>luaG_runerror\<close> raise.
  \<open>Undefined why\<close> is not an error of the program: it marks an execution whose behaviour the C++
  standard leaves undefined (a signed overflow, a shift by the width or more, a conversion of an
  out-of-range double), so that a theorem can say exactly when the code stays clear of it.
\<close>

datatype lua_error =
    ArgError nat string
  | TypeError nat string
  | RunError string
  | Undefined string

definition bindE :: "'e + 'a \<Rightarrow> ('a \<Rightarrow> 'e + 'b) \<Rightarrow> 'e + 'b" where
  "bindE m f = (case m of Inl e \<Rightarrow> Inl e | Inr x \<Rightarrow> f x)"

lemma bindE_simps [simp]:
  "bindE (Inl e) f = Inl e"
  "bindE (Inr x) f = f x"
  by (simp_all add: bindE_def)

lemma bindE_cong [fundef_cong]:
  "m = m' \<Longrightarrow> (\<And>x. m' = Inr x \<Longrightarrow> f x = f' x) \<Longrightarrow> bindE m f = bindE m' f'"
  by (simp add: bindE_def split: sum.splits)

lemma bindE_eq_Inr_iff: "bindE m f = Inr y \<longleftrightarrow> (\<exists>x. m = Inr x \<and> f x = Inr y)"
  by (cases m) simp_all

lemma bindE_eq_Inl_iff:
  "bindE m f = Inl e \<longleftrightarrow> m = Inl e \<or> (\<exists>x. m = Inr x \<and> f x = Inl e)"
  by (cases m) simp_all

definition guardE :: "bool \<Rightarrow> 'e \<Rightarrow> 'e + unit" where
  "guardE b e = (if b then Inr () else Inl e)"

lemma guardE_simps [simp]:
  "guardE True e = Inr ()"
  "guardE False e = Inl e"
  "guardE b e = Inr u \<longleftrightarrow> b"
  "guardE b e = Inl e' \<longleftrightarrow> \<not> b \<and> e' = e"
  by (auto simp: guardE_def)

text \<open>The result of a signed C operation whose exact value is \<open>i\<close>.\<close>

definition c_int :: "int \<Rightarrow> lua_error + int" where
  "c_int i = (if in_int32 i then Inr i else Inl (Undefined ''signed overflow''))"

definition c_int64 :: "int \<Rightarrow> lua_error + int" where
  "c_int64 i = (if in_int64 i then Inr i else Inl (Undefined ''signed overflow''))"

lemma c_int_Inr [simp]: "c_int i = Inr j \<longleftrightarrow> in_int32 i \<and> j = i"
  by (auto simp: c_int_def)

lemma c_int64_Inr [simp]: "c_int64 i = Inr j \<longleftrightarrow> in_int64 i \<and> j = i"
  by (auto simp: c_int64_def)

lemma c_int_ok: "in_int32 i \<Longrightarrow> c_int i = Inr i"
  by simp

lemma c_int64_ok: "in_int64 i \<Longrightarrow> c_int64 i = Inr i"
  by simp

section \<open>Words\<close>

lemma neg_le_uint [simp]: "n \<le> 0 \<Longrightarrow> n \<le> uint (w :: 'a::len word)"
  by (rule order_trans [of _ 0]) simp_all

lemma sint64_range [simp]: "in_int64 (sint (w :: 64 word))"
  using sint_ge [of w] sint_lt [of w] by (simp add: in_int64_def)

lemma sint32_range [simp]: "in_int32 (sint (w :: 32 word))"
  using sint_ge [of w] sint_lt [of w] by (simp add: in_int32_def)

lemma sint64_of_int:
  assumes "in_int64 i"
  shows "sint (word_of_int i :: 64 word) = i"
proof -
  have "signed_take_bit 63 i = i"
    using assms by (simp add: signed_take_bit_int_eq_self_iff in_int64_def)
  then show ?thesis by (simp add: signed_of_int)
qed

lemma sint32_of_int:
  assumes "in_int32 i"
  shows "sint (word_of_int i :: 32 word) = i"
proof -
  have "signed_take_bit 31 i = i"
    using assms by (simp add: signed_take_bit_int_eq_self_iff in_int32_def)
  then show ?thesis by (simp add: signed_of_int)
qed

section \<open>Search in a list\<close>

lemma find_append: "find P (xs @ ys) = (case find P xs of Some x \<Rightarrow> Some x | None \<Rightarrow> find P ys)"
  by (induction xs) auto

section \<open>Decimal numerals\<close>

text \<open>\<open>%d\<close> of a natural number.\<close>

function digits_rev :: "nat \<Rightarrow> string" where
  "digits_rev n = char_of (48 + n mod 10) # (if n < 10 then [] else digits_rev (n div 10))"
  by pat_completeness auto

termination by (relation "measure id") auto

declare digits_rev.simps [simp del]

definition show_nat :: "nat \<Rightarrow> string" where
  "show_nat n = rev (digits_rev n)"

end
