(* ===== verification/Number.thy ===== *)
theory Number imports Prelude begin

text \<open>
  Lua numbers. A \<open>double\<close> is its IEEE 754 bit pattern, so the conversions, comparisons and hashes
  of the code (\<open>VM/src/lnumutils.h\<close>, \<open>cast_num\<close>, \<open>hashnum\<close>) are functions on 64-bit words that
  compute. Only what the modelled code uses is here: the conversion of an integer to the nearest
  double, truncation back, equality and order.
\<close>

type_synonym double = "64 word"

section \<open>Fields of a double\<close>

definition d_neg :: "double \<Rightarrow> bool" where
  "d_neg d \<longleftrightarrow> 2 ^ 63 \<le> unat d"

definition d_exp :: "double \<Rightarrow> nat" where
  "d_exp d = unat d div 2 ^ 52 mod 2 ^ 11"

definition d_frac :: "double \<Rightarrow> nat" where
  "d_frac d = unat d mod 2 ^ 52"

definition d_isnan :: "double \<Rightarrow> bool" where
  "d_isnan d \<longleftrightarrow> d_exp d = 2047 \<and> d_frac d \<noteq> 0"

definition d_finite :: "double \<Rightarrow> bool" where
  "d_finite d \<longleftrightarrow> d_exp d \<noteq> 2047"

text \<open>The significand, with the implicit leading bit of a normal number.\<close>

definition d_mant :: "double \<Rightarrow> nat" where
  "d_mant d = (if d_exp d = 0 then d_frac d else 2 ^ 52 + d_frac d)"

text \<open>The integer part of a finite double: C's conversion rounds towards zero.\<close>

definition d_trunc_abs :: "double \<Rightarrow> nat" where
  "d_trunc_abs d =
     (let e = max 1 (d_exp d)
      in if 1075 \<le> e then d_mant d * 2 ^ (e - 1075) else d_mant d div 2 ^ (1075 - e))"

definition d_trunc :: "double \<Rightarrow> int" where
  "d_trunc d = (if d_neg d then - int (d_trunc_abs d) else int (d_trunc_abs d))"

section \<open>Integer to double\<close>

text \<open>
  \<open>cast_num(n)\<close>: the double nearest to \<open>n\<close>, ties to the even significand. The significand
  \<open>q - 2 ^ 52\<close> is added to the shifted exponent, so a carry out of the significand moves into the
  exponent as it does in the hardware.
\<close>

definition d_of_nat :: "nat \<Rightarrow> nat" where
  "d_of_nat a =
     (if a = 0 then 0
      else let l = floorlog 2 a - 1
           in if l \<le> 52 then (l + 1023) * 2 ^ 52 + (a * 2 ^ (52 - l) - 2 ^ 52)
              else let s = l - 52; q = a div 2 ^ s; r = a mod 2 ^ s; h = 2 ^ (s - 1);
                       q' = (if h < r \<or> r = h \<and> odd q then q + 1 else q)
                   in (l + 1023) * 2 ^ 52 + (q' - 2 ^ 52))"

definition d_of_int :: "int \<Rightarrow> double" where
  "d_of_int n =
     (if n < 0 then of_nat (2 ^ 63 + d_of_nat (nat (- n))) else of_nat (d_of_nat (nat n)))"

section \<open>Comparisons and conversions of the code\<close>

definition luai_numisnan :: "double \<Rightarrow> bool" where
  "luai_numisnan a \<longleftrightarrow> d_isnan a"

definition d_iszero :: "double \<Rightarrow> bool" where
  "d_iszero a \<longleftrightarrow> unat a mod 2 ^ 63 = 0"

definition luai_numeq :: "double \<Rightarrow> double \<Rightarrow> bool" where
  "luai_numeq a b \<longleftrightarrow>
     \<not> d_isnan a \<and> \<not> d_isnan b \<and> (a = b \<or> d_iszero a \<and> d_iszero b)"

text \<open>The order key of a non-NaN double: sign and magnitude read as an integer.\<close>

definition d_key :: "double \<Rightarrow> int" where
  "d_key a = (if d_neg a then - int (unat a mod 2 ^ 63) else int (unat a mod 2 ^ 63))"

definition luai_numlt :: "double \<Rightarrow> double \<Rightarrow> bool" where
  "luai_numlt a b \<longleftrightarrow> \<not> d_isnan a \<and> \<not> d_isnan b \<and> d_key a < d_key b"

definition luai_numle :: "double \<Rightarrow> double \<Rightarrow> bool" where
  "luai_numle a b \<longleftrightarrow> \<not> d_isnan a \<and> \<not> d_isnan b \<and> d_key a \<le> d_key b"

text \<open>
  \<open>luai_num2int\<close>, \<open>luai_num2long\<close> and \<open>luai_num2unsigned\<close>: casts of a double to \<open>int\<close>, \<open>int64_t\<close> and,
  through \<open>long long\<close>, to \<open>unsigned\<close>. A cast whose truncated value does not fit is undefined in C++,
  which the result \<open>None\<close> says.
\<close>

definition luai_num2int :: "double \<Rightarrow> int option" where
  "luai_num2int d = (if d_finite d \<and> in_int32 (d_trunc d) then Some (d_trunc d) else None)"

definition luai_num2long :: "double \<Rightarrow> int option" where
  "luai_num2long d = (if d_finite d \<and> in_int64 (d_trunc d) then Some (d_trunc d) else None)"

definition luai_num2unsigned :: "double \<Rightarrow> u32 option" where
  "luai_num2unsigned d = map_option word_of_int (luai_num2long d)"

section \<open>Facts\<close>

lemma d_of_nat_bits:
  assumes "0 < a" and "a < 2 ^ 53"
  obtains l where "l \<le> 52" and "2 ^ l \<le> a" and "a < 2 ^ Suc l"
    and "d_of_nat a = (l + 1023) * 2 ^ 52 + (a * 2 ^ (52 - l) - 2 ^ 52)"
    and "2 ^ 52 \<le> a * 2 ^ (52 - l)" and "a * 2 ^ (52 - l) < 2 ^ 53"
proof -
  define l where "l = floorlog 2 a - 1"
  have pos: "0 < floorlog 2 a" using assms by (simp add: floorlog_def)
  from floorlog_bounds [of a 2] assms pos have b: "2 ^ l \<le> a" "a < 2 ^ Suc l"
    by (simp_all add: l_def)
  from b assms have "2 ^ l < (2 :: nat) ^ 53" by linarith
  then have "l < 53" by (rule power_less_imp_less_exp [rotated]) simp
  then have l: "l \<le> 52" by simp
  have e: "(2 :: nat) ^ 52 = 2 ^ l * 2 ^ (52 - l)" using l by (simp flip: power_add)
  have e': "(2 :: nat) ^ 53 = 2 ^ Suc l * 2 ^ (52 - l)" using l by (simp flip: power_add)
  have "d_of_nat a = (l + 1023) * 2 ^ 52 + (a * 2 ^ (52 - l) - 2 ^ 52)"
    using assms l unfolding d_of_nat_def Let_def l_def [symmetric] by (simp only: if_True if_False) simp
  moreover have "2 ^ 52 \<le> a * 2 ^ (52 - l)" unfolding e using b by simp
  moreover have "a * 2 ^ (52 - l) < 2 ^ 53" unfolding e' using b by simp
  ultimately show thesis using that l b by blast
qed

lemma d_of_nat_fields:
  assumes "0 < a" and "a < 2 ^ 53"
  obtains l where "l \<le> 52" and "d_of_nat a < 2 ^ 63"
    and "d_of_nat a div 2 ^ 52 = l + 1023"
    and "d_of_nat a mod 2 ^ 52 = a * 2 ^ (52 - l) - 2 ^ 52"
    and "2 ^ 52 \<le> a * 2 ^ (52 - l)"
proof -
  obtain l where l: "l \<le> 52" and d: "d_of_nat a = (l + 1023) * 2 ^ 52 + (a * 2 ^ (52 - l) - 2 ^ 52)"
    and lo: "2 ^ 52 \<le> a * 2 ^ (52 - l)" and hi: "a * 2 ^ (52 - l) < 2 ^ 53"
    using d_of_nat_bits [OF assms] by blast
  have f: "a * 2 ^ (52 - l) - 2 ^ 52 < 2 ^ 52" using lo hi by simp
  have div: "d_of_nat a div 2 ^ 52 = l + 1023" and md: "d_of_nat a mod 2 ^ 52 = a * 2 ^ (52 - l) - 2 ^ 52"
    using f unfolding d
    by (simp_all only: div_mult_self3 mod_mult_self3 div_less mod_less power_not_zero
        numeral_neq_zero not_False_eq_True add_0_right)
  have "d_of_nat a < 2 ^ 63" using f l unfolding d by simp
  with that l div md lo show thesis by blast
qed

lemma d_fields_of_nat:
  assumes "n < 2 ^ 63"
  shows "d_neg (of_nat (2 ^ 63 + n))" "\<not> d_neg (of_nat n)"
    "d_exp (of_nat (2 ^ 63 + n)) = n div 2 ^ 52" "d_exp (of_nat n) = n div 2 ^ 52"
    "d_frac (of_nat (2 ^ 63 + n)) = n mod 2 ^ 52" "d_frac (of_nat n) = n mod 2 ^ 52"
proof -
  have u: "unat (of_nat (2 ^ 63 + n) :: double) = 2 ^ 63 + n"
    "unat (of_nat n :: double) = n"
    using assms by (simp_all add: unat_of_nat del: of_nat_add of_nat_numeral of_nat_power)
  have q: "n div 2 ^ 52 < 2 ^ 11" using assms by (simp add: div_less_iff_less_mult)
  have p: "(2 :: nat) ^ 63 = 2 ^ 11 * 2 ^ 52" by simp
  have e: "(2 ^ 63 + n) div 2 ^ 52 = 2 ^ 11 + n div 2 ^ 52" "(2 ^ 63 + n) mod 2 ^ 52 = n mod 2 ^ 52"
    unfolding p by (simp_all only: div_mult_self3 mod_mult_self3 power_not_zero zero_neq_numeral
        not_False_eq_True numeral_neq_zero)
  show "d_neg (of_nat (2 ^ 63 + n))" "\<not> d_neg (of_nat n)"
    "d_exp (of_nat (2 ^ 63 + n)) = n div 2 ^ 52" "d_exp (of_nat n) = n div 2 ^ 52"
    "d_frac (of_nat (2 ^ 63 + n)) = n mod 2 ^ 52" "d_frac (of_nat n) = n mod 2 ^ 52"
    unfolding d_neg_def d_exp_def d_frac_def u e using assms q by (simp_all del: power_numeral)
qed

lemma d_trunc_abs_of_nat:
  assumes "n < 2 ^ 53" and "d_exp d = d_of_nat n div 2 ^ 52" and "d_frac d = d_of_nat n mod 2 ^ 52"
  shows "d_trunc_abs d = n \<and> d_finite d"
proof (cases "n = 0")
  case True
  then show ?thesis using assms(2,3)
    by (simp add: d_trunc_abs_def d_mant_def d_of_nat_def d_finite_def)
next
  case False
  then obtain l where l: "l \<le> 52" and e: "d_exp d = l + 1023"
    and f: "d_frac d = n * 2 ^ (52 - l) - 2 ^ 52" and lo: "2 ^ 52 \<le> n * 2 ^ (52 - l)"
    using d_of_nat_fields [of n] assms by (metis neq0_conv)
  have m: "d_mant d = n * 2 ^ (52 - l)" using e f lo by (simp add: d_mant_def)
  show ?thesis
  proof (cases "l = 52")
    case True
    then show ?thesis using e m by (simp add: d_trunc_abs_def d_finite_def)
  next
    case False
    then have "1075 - (l + 1023) = 52 - l" and "l + 1023 < 1075" using l by simp_all
    then show ?thesis using e m by (simp add: d_trunc_abs_def d_finite_def)
  qed
qed

lemma d_of_nat_less: "n < 2 ^ 53 \<Longrightarrow> d_of_nat n < 2 ^ 63"
  by (cases "n = 0") (auto simp: d_of_nat_def [of 0] elim: d_of_nat_fields)

lemma d_of_int_exact:
  assumes "\<bar>n\<bar> < 2 ^ 53"
  shows "d_finite (d_of_int n)" and "d_trunc (d_of_int n) = n"
proof -
  define a where "a = nat \<bar>n\<bar>"
  have a: "a < 2 ^ 53" using assms by (simp add: a_def)
  note lt = d_of_nat_less [OF a]
  have "d_finite (d_of_int n) \<and> d_trunc (d_of_int n) = n"
  proof (cases "n < 0")
    case True
    then have an: "nat (- n) = a" and "n = - int a" by (simp_all add: a_def)
    have "d_trunc_abs (of_nat (2 ^ 63 + d_of_nat a)) = a \<and> d_finite (of_nat (2 ^ 63 + d_of_nat a))"
      using d_trunc_abs_of_nat [OF a] d_fields_of_nat [OF lt] by blast
    then show ?thesis using True an \<open>n = - int a\<close> d_fields_of_nat(1) [OF lt]
      unfolding d_of_int_def d_trunc_def by (simp only: if_True)
  next
    case False
    then have an: "nat n = a" and "n = int a" by (simp_all add: a_def)
    have "d_trunc_abs (of_nat (d_of_nat a)) = a \<and> d_finite (of_nat (d_of_nat a))"
      using d_trunc_abs_of_nat [OF a] d_fields_of_nat [OF lt] by blast
    then show ?thesis using False an \<open>n = int a\<close> d_fields_of_nat(2) [OF lt]
      unfolding d_of_int_def d_trunc_def by (simp only: if_False)
  qed
  then show "d_finite (d_of_int n)" and "d_trunc (d_of_int n) = n" by simp_all
qed

lemma in_int32_abs: "in_int32 n \<Longrightarrow> \<bar>n\<bar> < 2 ^ 53"
  by (simp add: in_int32_def abs_less_iff)

lemma in_int32_int64: "in_int32 n \<Longrightarrow> in_int64 n"
  by (simp add: in_int32_def in_int64_def)

lemma luai_num2int_of_int: "in_int32 n \<Longrightarrow> luai_num2int (d_of_int n) = Some n"
  using d_of_int_exact [OF in_int32_abs, of n] by (simp add: luai_num2int_def)

lemma luai_num2unsigned_of_u32: "luai_num2unsigned (d_of_int (uint (w :: u32))) = Some w"
proof -
  have "uint w < 2 ^ 32" "0 \<le> uint w" using uint_lt2p [of w] by simp_all
  then have "\<bar>uint w\<bar> < 2 ^ 53" "in_int64 (uint w)" by (simp_all add: in_int64_def)
  then show ?thesis
    by (simp add: luai_num2unsigned_def luai_num2long_def d_of_int_exact)
qed

lemma luai_num2unsigned_of_int: "in_int32 n \<Longrightarrow> luai_num2unsigned (d_of_int n) = Some (word_of_int n)"
  using d_of_int_exact [OF in_int32_abs, of n]
  by (simp add: luai_num2unsigned_def luai_num2long_def in_int32_int64)

end
