(* ===== verification/Value.thy ===== *)
theory Value imports Number begin

text \<open>
  Lua values and the argument access of C functions. A library function of the VM is a function of
  its argument list (\<open>lua_gettop\<close> values, index 1 first) to the list of values it pushes. The
  checks are those of \<open>VM/src/laux.cpp\<close> over the accessors of \<open>VM/src/lapi.cpp\<close>.
\<close>

section \<open>Values\<close>

text \<open>
  \<open>TString\<close> holds the bytes: strings are interned, so the pointer comparison of the code is
  equality of contents. \<open>TGc k a\<close> is the collectable object of kind \<open>k\<close> at address \<open>a\<close>.
\<close>

datatype lua_gctype =
    LUA_TTABLE | LUA_TFUNCTION | LUA_TUSERDATA | LUA_TTHREAD | LUA_TBUFFER | LUA_TCLASS | LUA_TOBJECT

datatype TValue =
    TNil
  | TBoolean bool
  | TLightUserdata u64 int
  | TNumber double
  | TInteger u64
  | TVector u32 u32 u32
  | TString "byte list"
  | TGc lua_gctype nat

section \<open>Conversions between numbers and strings\<close>

text \<open>
  A number argument may be given as a string and a string argument as a number. The conversions
  rest on \<open>strtod\<close> and on the number printer; they are parameters of the model.
\<close>

record numconv =
  luaO_str2d :: "byte list \<Rightarrow> double option"
  luai_num2str :: "double \<Rightarrow> byte list"

text \<open>A conversion that takes no string for a number, for concrete examples.\<close>

definition no_conv :: numconv where
  "no_conv = \<lparr>luaO_str2d = (\<lambda>_. None), luai_num2str = (\<lambda>_. [])\<rparr>"

definition luaV_tonumber :: "numconv \<Rightarrow> TValue \<Rightarrow> double option" where
  "luaV_tonumber cv v =
     (case v of TNumber d \<Rightarrow> Some d | TString s \<Rightarrow> luaO_str2d cv s | _ \<Rightarrow> None)"

section \<open>Argument access\<close>

definition arg :: "TValue list \<Rightarrow> nat \<Rightarrow> TValue option" where
  "arg args i = (if 1 \<le> i \<and> i \<le> length args then Some (args ! (i - 1)) else None)"

definition lua_isnoneornil :: "TValue list \<Rightarrow> nat \<Rightarrow> bool" where
  "lua_isnoneornil args i \<longleftrightarrow> arg args i = None \<or> arg args i = Some TNil"

definition luaL_checknumber :: "numconv \<Rightarrow> TValue list \<Rightarrow> nat \<Rightarrow> lua_error + double" where
  "luaL_checknumber cv args n =
     (case Option.bind (arg args n) (luaV_tonumber cv) of
        Some d \<Rightarrow> Inr d | None \<Rightarrow> Inl (TypeError n ''number''))"

definition luaL_checkinteger :: "numconv \<Rightarrow> TValue list \<Rightarrow> nat \<Rightarrow> lua_error + int" where
  "luaL_checkinteger cv args n =
     bindE (luaL_checknumber cv args n) (\<lambda>d.
       case luai_num2int d of Some i \<Rightarrow> Inr i | None \<Rightarrow> Inl (Undefined ''double to int''))"

definition luaL_checkunsigned :: "numconv \<Rightarrow> TValue list \<Rightarrow> nat \<Rightarrow> lua_error + u32" where
  "luaL_checkunsigned cv args n =
     bindE (luaL_checknumber cv args n) (\<lambda>d.
       case luai_num2unsigned d of Some u \<Rightarrow> Inr u | None \<Rightarrow> Inl (Undefined ''double to long long''))"

text \<open>An \<open>int64_t\<close> argument is kept as its 64 bits; \<open>sint\<close> reads it.\<close>

definition luaL_checkinteger64 :: "TValue list \<Rightarrow> nat \<Rightarrow> lua_error + u64" where
  "luaL_checkinteger64 args n =
     (case arg args n of Some (TInteger w) \<Rightarrow> Inr w | _ \<Rightarrow> Inl (TypeError n ''integer''))"

definition luaL_optinteger :: "numconv \<Rightarrow> TValue list \<Rightarrow> nat \<Rightarrow> int \<Rightarrow> lua_error + int" where
  "luaL_optinteger cv args n def =
     (if lua_isnoneornil args n then Inr def else luaL_checkinteger cv args n)"

definition luaL_optinteger64 :: "TValue list \<Rightarrow> nat \<Rightarrow> u64 \<Rightarrow> lua_error + u64" where
  "luaL_optinteger64 args n def =
     (if lua_isnoneornil args n then Inr def else luaL_checkinteger64 args n)"

definition luaL_checklstring :: "numconv \<Rightarrow> TValue list \<Rightarrow> nat \<Rightarrow> lua_error + byte list" where
  "luaL_checklstring cv args n =
     (case arg args n of
        Some (TString s) \<Rightarrow> Inr s
      | Some (TNumber d) \<Rightarrow> Inr (luai_num2str cv d)
      | _ \<Rightarrow> Inl (TypeError n ''string''))"

text \<open>Pushing results.\<close>

definition lua_pushinteger :: "int \<Rightarrow> TValue" where
  "lua_pushinteger n = TNumber (d_of_int n)"

definition lua_pushunsigned :: "u32 \<Rightarrow> TValue" where
  "lua_pushunsigned u = TNumber (d_of_int (uint u))"

definition lua_pushinteger64 :: "u64 \<Rightarrow> TValue" where
  "lua_pushinteger64 w = TInteger w"

text \<open>\<open>luaL_checkstack\<close> above the arguments; \<open>LUAI_MAXCSTACK\<close> is the limit of a C function's stack.\<close>

abbreviation LUAI_MAXCSTACK :: nat where "LUAI_MAXCSTACK \<equiv> 8000"

definition luaL_checkstack :: "nat \<Rightarrow> nat \<Rightarrow> string \<Rightarrow> lua_error + unit" where
  "luaL_checkstack used space mes =
     guardE (\<not> (space > LUAI_MAXCSTACK \<or> used + space > LUAI_MAXCSTACK))
       (RunError (''stack overflow ('' @ mes @ '')''))"

definition l_isfalse :: "TValue \<Rightarrow> bool" where
  "l_isfalse v \<longleftrightarrow> v = TNil \<or> v = TBoolean False"

section \<open>Access rules\<close>

lemma arg_simps [simp]:
  "arg (x # xs) (Suc 0) = Some x"
  "arg (x # y # xs) 2 = Some y"
  "arg (x # y # z # xs) 3 = Some z"
  "arg (x # y # z # w # xs) 4 = Some w"
  "arg (x # y # z # w # v # xs) 5 = Some v"
  "arg [x] 2 = None"
  "arg [x, y] 3 = None"
  "arg [x, y, z] 4 = None"
  "arg [x, y, z, w] 5 = None"
  "arg [] i = None"
  by (simp_all add: arg_def numeral_eq_Suc)

lemma isnoneornil_simps [simp]:
  "arg args n = Some (TNumber d) \<Longrightarrow> \<not> lua_isnoneornil args n"
  "arg args n = Some (TInteger w) \<Longrightarrow> \<not> lua_isnoneornil args n"
  "arg args n = Some (lua_pushinteger i) \<Longrightarrow> \<not> lua_isnoneornil args n"
  "arg args n = None \<Longrightarrow> lua_isnoneornil args n"
  by (simp_all add: lua_isnoneornil_def lua_pushinteger_def)

lemma checkinteger_pushinteger [simp]:
  "arg args n = Some (lua_pushinteger i) \<Longrightarrow> in_int32 i \<Longrightarrow> luaL_checkinteger cv args n = Inr i"
  by (simp add: luaL_checkinteger_def luaL_checknumber_def luaV_tonumber_def lua_pushinteger_def
      luai_num2int_of_int)

lemma checkunsigned_pushinteger [simp]:
  "arg args n = Some (lua_pushinteger i) \<Longrightarrow> in_int32 i \<Longrightarrow>
     luaL_checkunsigned cv args n = Inr (word_of_int i)"
  by (simp add: luaL_checkunsigned_def luaL_checknumber_def luaV_tonumber_def lua_pushinteger_def
      luai_num2unsigned_of_int)

lemma checkunsigned_pushunsigned [simp]:
  "arg args n = Some (lua_pushunsigned u) \<Longrightarrow> luaL_checkunsigned cv args n = Inr u"
  by (simp add: luaL_checkunsigned_def luaL_checknumber_def luaV_tonumber_def lua_pushunsigned_def
      luai_num2unsigned_of_u32)

lemma checkinteger64_simps [simp]:
  "arg args n = Some (TInteger w) \<Longrightarrow> luaL_checkinteger64 args n = Inr w"
  "arg args n = Some (lua_pushinteger64 w) \<Longrightarrow> luaL_checkinteger64 args n = Inr w"
  by (simp_all add: luaL_checkinteger64_def lua_pushinteger64_def)

lemma optinteger_simps [simp]:
  "arg args n = Some (lua_pushinteger i) \<Longrightarrow> in_int32 i \<Longrightarrow> luaL_optinteger cv args n j = Inr i"
  "arg args n = None \<Longrightarrow> luaL_optinteger cv args n j = Inr j"
  by (simp_all add: luaL_optinteger_def)

lemma optinteger64_simps [simp]:
  "arg args n = Some (TInteger w) \<Longrightarrow> luaL_optinteger64 args n j = Inr w"
  "arg args n = None \<Longrightarrow> luaL_optinteger64 args n j = Inr j"
  by (simp_all add: luaL_optinteger64_def)

lemma checklstring_simps [simp]:
  "arg args n = Some (TString s) \<Longrightarrow> luaL_checklstring cv args n = Inr s"
  by (simp add: luaL_checklstring_def)

lemma pushunsigned_inject [simp]: "lua_pushunsigned u = lua_pushunsigned v \<longleftrightarrow> u = v"
  unfolding lua_pushunsigned_def TValue.inject
  by (metis luai_num2unsigned_of_u32 option.inject)

end
