(* ===== verification/Bit32.thy ===== *)
theory Bit32 imports Value begin

text \<open>
  The \<open>bit32\<close> library (\<open>VM/src/lbitlib.cpp\<close>): every function of the table \<open>bitlib\<close>, on 32-bit
  words. Shift amounts, fields and widths are C \<open>int\<close>s: negations and sums of them go through
  \<open>c_int\<close>, and a shift by 32 or more through \<open>shl32\<close>/\<open>shr32\<close>, which are \<open>Undefined\<close> there.
\<close>

section \<open>The C shifts\<close>

definition shl32 :: "u32 \<Rightarrow> int \<Rightarrow> lua_error + u32" where
  "shl32 r i = (if 0 \<le> i \<and> i < 32 then Inr (push_bit (nat i) r) else Inl (Undefined ''shift''))"

definition shr32 :: "u32 \<Rightarrow> int \<Rightarrow> lua_error + u32" where
  "shr32 r i = (if 0 \<le> i \<and> i < 32 then Inr (drop_bit (nat i) r) else Inl (Undefined ''shift''))"

text \<open>\<open>mask(n)\<close>: \<open>n\<close> ones, as \<open>~((ALLONES << 1) << (n - 1))\<close>.\<close>

definition mask32 :: "int \<Rightarrow> lua_error + u32" where
  "mask32 n = bindE (shl32 (push_bit 1 (NOT 0)) (n - 1)) (\<lambda>m. Inr (NOT m))"

section \<open>The functions\<close>

text \<open>The loops over all arguments.\<close>

fun unsigned_loop :: "(u32 \<Rightarrow> u32 \<Rightarrow> u32) \<Rightarrow> numconv \<Rightarrow> TValue list \<Rightarrow> nat list \<Rightarrow> u32 \<Rightarrow> lua_error + u32" where
  "unsigned_loop f cv args [] r = Inr r"
| "unsigned_loop f cv args (i # is) r =
     bindE (luaL_checkunsigned cv args i) (\<lambda>x. unsigned_loop f cv args is (f r x))"

definition andaux :: "numconv \<Rightarrow> TValue list \<Rightarrow> lua_error + u32" where
  "andaux cv args = unsigned_loop (\<lambda>r x. r AND x) cv args [1..<length args + 1] (NOT 0)"

definition b_and :: "numconv \<Rightarrow> TValue list \<Rightarrow> lua_error + TValue list" where
  "b_and cv args = bindE (andaux cv args) (\<lambda>r. Inr [lua_pushunsigned r])"

definition b_test :: "numconv \<Rightarrow> TValue list \<Rightarrow> lua_error + TValue list" where
  "b_test cv args = bindE (andaux cv args) (\<lambda>r. Inr [TBoolean (r \<noteq> 0)])"

definition b_or :: "numconv \<Rightarrow> TValue list \<Rightarrow> lua_error + TValue list" where
  "b_or cv args =
     bindE (unsigned_loop (\<lambda>r x. r OR x) cv args [1..<length args + 1] 0) (\<lambda>r. Inr [lua_pushunsigned r])"

definition b_xor :: "numconv \<Rightarrow> TValue list \<Rightarrow> lua_error + TValue list" where
  "b_xor cv args =
     bindE (unsigned_loop (\<lambda>r x. r XOR x) cv args [1..<length args + 1] 0) (\<lambda>r. Inr [lua_pushunsigned r])"

definition b_not :: "numconv \<Rightarrow> TValue list \<Rightarrow> lua_error + TValue list" where
  "b_not cv args = bindE (luaL_checkunsigned cv args 1) (\<lambda>r. Inr [lua_pushunsigned (NOT r)])"

definition b_shift :: "u32 \<Rightarrow> int \<Rightarrow> lua_error + TValue list" where
  "b_shift r i =
     (if i < 0 then
        bindE (c_int (- i)) (\<lambda>i.
        bindE (if i \<ge> 32 then Inr 0 else shr32 r i) (\<lambda>r. Inr [lua_pushunsigned r]))
      else
        bindE (if i \<ge> 32 then Inr 0 else shl32 r i) (\<lambda>r. Inr [lua_pushunsigned r]))"

definition b_lshift :: "numconv \<Rightarrow> TValue list \<Rightarrow> lua_error + TValue list" where
  "b_lshift cv args =
     bindE (luaL_checkunsigned cv args 1) (\<lambda>r.
     bindE (luaL_checkinteger cv args 2) (\<lambda>i. b_shift r i))"

definition b_rshift :: "numconv \<Rightarrow> TValue list \<Rightarrow> lua_error + TValue list" where
  "b_rshift cv args =
     bindE (luaL_checkunsigned cv args 1) (\<lambda>r.
     bindE (luaL_checkinteger cv args 2) (\<lambda>i.
     bindE (c_int (- i)) (\<lambda>i. b_shift r i)))"

definition b_arshift :: "numconv \<Rightarrow> TValue list \<Rightarrow> lua_error + TValue list" where
  "b_arshift cv args =
     bindE (luaL_checkunsigned cv args 1) (\<lambda>r.
     bindE (luaL_checkinteger cv args 2) (\<lambda>i.
     if i < 0 \<or> r AND push_bit 31 1 = 0 then
       bindE (c_int (- i)) (\<lambda>i. b_shift r i)
     else if i \<ge> 32 then Inr [lua_pushunsigned (NOT 0)]
     else
       bindE (shr32 r i) (\<lambda>a.
       bindE (shr32 (NOT 0) i) (\<lambda>b. Inr [lua_pushunsigned (a OR NOT b)]))))"

definition b_rot :: "numconv \<Rightarrow> TValue list \<Rightarrow> int \<Rightarrow> lua_error + TValue list" where
  "b_rot cv args i =
     bindE (luaL_checkunsigned cv args 1) (\<lambda>r.
     let i = i AND 31 in
     if i \<noteq> 0 then
       bindE (shl32 r i) (\<lambda>a. bindE (shr32 r (32 - i)) (\<lambda>b. Inr [lua_pushunsigned (a OR b)]))
     else Inr [lua_pushunsigned r])"

definition b_lrot :: "numconv \<Rightarrow> TValue list \<Rightarrow> lua_error + TValue list" where
  "b_lrot cv args = bindE (luaL_checkinteger cv args 2) (\<lambda>i. b_rot cv args i)"

definition b_rrot :: "numconv \<Rightarrow> TValue list \<Rightarrow> lua_error + TValue list" where
  "b_rrot cv args =
     bindE (luaL_checkinteger cv args 2) (\<lambda>i. bindE (c_int (- i)) (\<lambda>i. b_rot cv args i))"

text \<open>The result is the field and its width.\<close>

definition fieldargs :: "numconv \<Rightarrow> TValue list \<Rightarrow> nat \<Rightarrow> lua_error + (int \<times> int)" where
  "fieldargs cv args farg =
     bindE (luaL_checkinteger cv args farg) (\<lambda>f.
     bindE (luaL_optinteger cv args (farg + 1) 1) (\<lambda>w.
     bindE (guardE (0 \<le> f) (ArgError farg ''field cannot be negative'')) (\<lambda>_.
     bindE (guardE (0 < w) (ArgError (farg + 1) ''width must be positive'')) (\<lambda>_.
     bindE (c_int (f + w)) (\<lambda>s.
     if s > 32 then Inl (RunError ''trying to access non-existent bits'')
     else Inr (f, w))))))"

definition b_extract :: "numconv \<Rightarrow> TValue list \<Rightarrow> lua_error + TValue list" where
  "b_extract cv args =
     bindE (luaL_checkunsigned cv args 1) (\<lambda>r.
     bindE (fieldargs cv args 2) (\<lambda>(f, w).
     bindE (shr32 r f) (\<lambda>a.
     bindE (mask32 w) (\<lambda>m. Inr [lua_pushunsigned (a AND m)]))))"

text \<open>
  In \<open>b_replace\<close> the mask is kept in an \<open>int\<close> and shifted there; the model shifts its 32 bits, which
  is what a shift of a possibly negative \<open>int\<close> does on every two's complement target.
\<close>

definition b_replace :: "numconv \<Rightarrow> TValue list \<Rightarrow> lua_error + TValue list" where
  "b_replace cv args =
     bindE (luaL_checkunsigned cv args 1) (\<lambda>r.
     bindE (luaL_checkunsigned cv args 2) (\<lambda>v.
     bindE (fieldargs cv args 3) (\<lambda>(f, w).
     bindE (mask32 w) (\<lambda>m.
     let v = v AND m in
     bindE (shl32 m f) (\<lambda>mf.
     bindE (shl32 v f) (\<lambda>vf. Inr [lua_pushunsigned ((r AND NOT mf) OR vf)]))))))"

text \<open>The loops of \<open>b_countlz\<close> and \<open>b_countrz\<close>: the first index \<open>i\<close> whose bit is set, else 32.\<close>

function countlz_loop :: "u32 \<Rightarrow> nat \<Rightarrow> nat" where
  "countlz_loop v i =
     (if i < 32 then if v AND push_bit (31 - i) 1 \<noteq> 0 then i else countlz_loop v (i + 1) else 32)"
  by pat_completeness auto
termination
  by (relation "measure (\<lambda>(v, i). 32 - i)") auto

function countrz_loop :: "u32 \<Rightarrow> nat \<Rightarrow> nat" where
  "countrz_loop v i =
     (if i < 32 then if v AND push_bit i 1 \<noteq> 0 then i else countrz_loop v (i + 1) else 32)"
  by pat_completeness auto
termination
  by (relation "measure (\<lambda>(v, i). 32 - i)") auto

definition b_countlz :: "numconv \<Rightarrow> TValue list \<Rightarrow> lua_error + TValue list" where
  "b_countlz cv args =
     bindE (luaL_checkunsigned cv args 1) (\<lambda>v. Inr [lua_pushunsigned (of_nat (countlz_loop v 0))])"

definition b_countrz :: "numconv \<Rightarrow> TValue list \<Rightarrow> lua_error + TValue list" where
  "b_countrz cv args =
     bindE (luaL_checkunsigned cv args 1) (\<lambda>v. Inr [lua_pushunsigned (of_nat (countrz_loop v 0))])"

definition b_swap :: "numconv \<Rightarrow> TValue list \<Rightarrow> lua_error + TValue list" where
  "b_swap cv args =
     bindE (luaL_checkunsigned cv args 1) (\<lambda>n.
     Inr [lua_pushunsigned
       (push_bit 24 n OR (push_bit 8 n AND 0xff0000) OR (drop_bit 8 n AND 0xff00) OR drop_bit 24 n)])"

declare countlz_loop.simps [simp del] countrz_loop.simps [simp del]

section \<open>Lemmas\<close>

lemma in_int32_uminus: "in_int32 i \<Longrightarrow> in_int32 (- i) \<longleftrightarrow> i \<noteq> INT_MIN"
  by (auto simp: in_int32_def)

lemma shl32_ok: "0 \<le> i \<Longrightarrow> i < 32 \<Longrightarrow> shl32 r i = Inr (push_bit (nat i) r)"
  by (simp add: shl32_def)

lemma shr32_ok: "0 \<le> i \<Longrightarrow> i < 32 \<Longrightarrow> shr32 r i = Inr (drop_bit (nat i) r)"
  by (simp add: shr32_def)

lemma mask32_eq:
  assumes "0 < n" and "n \<le> 32"
  shows "mask32 n = Inr (mask (nat n))"
proof -
  have "NOT (push_bit (nat (n - 1)) (push_bit 1 (NOT 0))) = (mask (nat n) :: u32)"
    by (rule bit_eqI) (use assms in \<open>auto simp: bit_simps\<close>)
  then show ?thesis using assms by (simp add: mask32_def shl32_ok)
qed

lemma push_bit_ge32 [simp]: "32 \<le> n \<Longrightarrow> push_bit n (x :: u32) = 0"
  by (rule bit_eqI) (simp add: bit_simps)

lemma drop_bit_ge32 [simp]: "32 \<le> n \<Longrightarrow> drop_bit n (x :: u32) = 0"
  by (rule bit_eqI) (auto simp: bit_simps dest: bit_imp_le_length)

text \<open>\<open>b_shift\<close> shifts left for \<open>0 \<le> i\<close> and right below, with zero for 32 or more.\<close>

definition shift_by :: "int \<Rightarrow> u32 \<Rightarrow> u32" where
  "shift_by i r = (if 0 \<le> i then push_bit (nat i) r else drop_bit (nat (- i)) r)"

lemma b_shift_eq:
  assumes "in_int32 i"
  shows "b_shift r i =
    (if i = INT_MIN then Inl (Undefined ''signed overflow'') else Inr [lua_pushunsigned (shift_by i r)])"
proof (cases "i < 0")
  case True
  then show ?thesis using assms in_int32_uminus [OF assms]
    by (auto simp: b_shift_def c_int_def shift_by_def shr32_def)
next
  case False
  then show ?thesis by (auto simp: b_shift_def shift_by_def shl32_def)
qed

lemma b_shift_neg:
  assumes "in_int32 i"
  shows "bindE (c_int (- i)) (b_shift r) =
    (if i = INT_MIN then Inl (Undefined ''signed overflow'') else Inr [lua_pushunsigned (shift_by (- i) r)])"
  using in_int32_uminus [OF assms] assms
  by (cases "i = INT_MIN") (auto simp: c_int_def b_shift_eq in_int32_def)

lemma and_31_mod: "(i :: int) AND 31 = i mod 32"
proof -
  have "(31 :: int) = mask 5" by (simp add: mask_numeral)
  then show ?thesis by (simp only: take_bit_eq_mask [symmetric] take_bit_eq_mod) simp
qed

lemma rot_or_eq:
  assumes "0 < i" and "i < 32"
  shows "push_bit (nat i) x OR drop_bit (nat (32 - i)) x = word_roti (- i) (x :: u32)"
proof (rule bit_word_eqI)
  fix n assume "n < LENGTH(32)"
  then have n: "n < 32" by simp
  define k where "k = nat i"
  have k: "0 < k" "k < 32" and i: "i = int k" using assms by (simp_all add: k_def)
  show "bit (push_bit (nat i) x OR drop_bit (nat (32 - i)) x) n = bit (word_roti (- i) x) n"
  proof (cases "n < k")
    case True
    have "(int n - i) mod 32 = int n - i + 32"
      using True k i mod_pos_pos_trivial [of "int n - i + 32" 32] by simp
    then have e: "nat ((int n + - i) mod int LENGTH(32)) = 32 - k + n" using True k i by simp
    have "nat (32 - i) = 32 - k" using k i by simp
    then show ?thesis using True n unfolding bit_word_roti_iff e
      by (simp add: bit_simps k_def [symmetric])
  next
    case False
    then have "(int n + - i) mod int LENGTH(32) = int (n - k)"
      using n k i by (simp add: of_nat_diff)
    then have e: "nat ((int n + - i) mod int LENGTH(32)) = n - k" by simp
    have "nat (32 - i) = 32 - k" using k i by simp
    moreover have "\<not> bit x (32 - k + n)" using False k n by (auto dest!: bit_imp_le_length)
    ultimately show ?thesis using False n unfolding bit_word_roti_iff e
      by (simp add: bit_simps k_def [symmetric])
  qed
qed

lemma b_rot_eq:
  "b_rot cv (lua_pushunsigned x # args) i = Inr [lua_pushunsigned (word_roti (- i) x)]"
proof -
  define j where "j = i mod 32"
  have j: "0 \<le> j" "j < 32" by (simp_all add: j_def)
  have "word_roti (- i) x = word_roti (- j) x"
    using word_roti_conv_mod' [of "- i" x] word_roti_conv_mod' [of "- j" x]
    by (simp add: j_def word_size mod_minus_eq)
  then show ?thesis using j rot_or_eq [of j x]
    by (cases "j = 0")
      (simp_all add: b_rot_def and_31_mod Let_def shl32_ok shr32_ok del: word_roti_eq_word_rotr_word_rotl flip: j_def)
qed

lemma b_arshift_lemma:
  assumes "in_int32 i"
  shows "b_arshift cv [lua_pushunsigned x, lua_pushinteger i] =
      (if i = INT_MIN then Inl (Undefined ''signed overflow'')
       else Inr [lua_pushunsigned (if 0 \<le> i then signed_drop_bit (nat i) x else shift_by (- i) x)])"
proof -
  have msb: "(x AND 2147483648 = 0) = (\<not> bit x 31)"
    using bit_iff_and_push_bit_not_eq_0 [of x 31] by simp
  have min: "c_int 2147483648 = Inl (Undefined ''signed overflow'')"
    by (simp add: c_int_def in_int32_def)
  have pos: "signed_drop_bit n x = drop_bit n x" if "\<not> bit x 31" for n
    by (rule bit_word_eqI) (use that in \<open>auto simp: bit_simps dest: bit_imp_le_length\<close>)
  have neg: "signed_drop_bit n x = drop_bit n x OR NOT (drop_bit n (NOT 0))" if "bit x 31" for n
    by (rule bit_word_eqI) (use that in \<open>auto simp: bit_simps dest: bit_imp_le_length\<close>)
  have ones: "signed_drop_bit n x = NOT 0" if "bit x 31" "32 \<le> n" for n
    by (rule bit_word_eqI) (use that in \<open>auto simp: bit_simps dest: bit_imp_le_length\<close>)
  show ?thesis
  proof (cases "i < 0 \<or> \<not> bit x 31")
    case True
    then show ?thesis using assms
      by (auto simp: b_arshift_def msb min b_shift_neg shift_by_def pos)
  next
    case False
    then show ?thesis using assms
      by (auto simp: b_arshift_def msb shr32_def neg ones)
  qed
qed

lemma b_extract_lemma:
  assumes "0 \<le> f" and "0 < w" and "f + w \<le> 32"
  shows "b_extract cv [lua_pushunsigned x, lua_pushinteger f, lua_pushinteger w] =
    Inr [lua_pushunsigned (take_bit (nat w) (drop_bit (nat f) x))]"
proof -
  have r: "in_int32 f" "in_int32 w" "in_int32 (f + w)" using assms by (simp_all add: in_int32_def)
  show ?thesis using assms r
    by (simp add: b_extract_def fieldargs_def c_int_ok shr32_ok mask32_eq take_bit_eq_mask)
qed

text \<open>What \<open>b_replace\<close> leaves: the old bits outside the field, the new value inside.\<close>

definition set_field :: "nat \<Rightarrow> nat \<Rightarrow> u32 \<Rightarrow> u32 \<Rightarrow> u32" where
  "set_field f w v x = (x AND NOT (push_bit f (mask w))) OR push_bit f (take_bit w v)"

lemma bit_set_field:
  "bit (set_field f w v x) n \<longleftrightarrow> n < 32 \<and> (if f \<le> n \<and> n < f + w then bit v (n - f) else bit x n)"
  by (auto simp: set_field_def bit_simps dest: bit_imp_le_length)

lemma b_replace_lemma:
  assumes "0 \<le> f" and "0 < w" and "f + w \<le> 32"
  shows "b_replace cv [lua_pushunsigned x, lua_pushunsigned v, lua_pushinteger f, lua_pushinteger w] =
    Inr [lua_pushunsigned (set_field (nat f) (nat w) v x)]"
proof -
  have r: "in_int32 f" "in_int32 w" "in_int32 (f + w)" using assms by (simp_all add: in_int32_def)
  show ?thesis using assms r
    by (simp add: b_replace_def fieldargs_def c_int_ok shl32_ok mask32_eq Let_def set_field_def
        take_bit_eq_mask)
qed

lemma countrz_loop_eq:
  "i \<le> 32 \<Longrightarrow> (\<forall>m<i. \<not> bit v m) \<Longrightarrow>
     countrz_loop v i \<le> 32 \<and> (\<forall>m<countrz_loop v i. \<not> bit v m) \<and>
     (countrz_loop v i < 32 \<longrightarrow> bit v (countrz_loop v i))"
proof (induction v i rule: countrz_loop.induct)
  case (1 v i)
  have b: "(v AND push_bit i 1 \<noteq> 0) = bit v i" if "i < 32"
    using that by (simp add: push_bit_eq_mult bit_iff_and_push_bit_not_eq_0)
  show ?case
  proof (cases "i < 32 \<and> \<not> bit v i")
    case True
    then have "\<forall>m<i + 1. \<not> bit v m" using 1 by (auto simp: less_Suc_eq)
    then show ?thesis using True b 1 by (simp add: countrz_loop.simps [of v i])
  next
    case False
    then show ?thesis using b 1 by (auto simp: countrz_loop.simps [of v i])
  qed
qed

lemma countlz_loop_eq:
  "i \<le> 32 \<Longrightarrow> (\<forall>m<i. \<not> bit v (31 - m)) \<Longrightarrow>
     countlz_loop v i \<le> 32 \<and> (\<forall>m<countlz_loop v i. \<not> bit v (31 - m)) \<and>
     (countlz_loop v i < 32 \<longrightarrow> bit v (31 - countlz_loop v i))"
proof (induction v i rule: countlz_loop.induct)
  case (1 v i)
  have b: "(v AND push_bit (31 - i) 1 \<noteq> 0) = bit v (31 - i)" if "i < 32"
    using that by (simp add: push_bit_eq_mult bit_iff_and_push_bit_not_eq_0)
  show ?case
  proof (cases "i < 32 \<and> \<not> bit v (31 - i)")
    case True
    then have "\<forall>m<i + 1. \<not> bit v (31 - m)" using 1 by (auto simp: less_Suc_eq)
    then show ?thesis using True b 1 by (simp add: countlz_loop.simps [of v i])
  next
    case False
    then show ?thesis using b 1 by (auto simp: countlz_loop.simps [of v i])
  qed
qed

section \<open>Properties\<close>

text \<open>\<open>bit32.lrotate\<close> by any \<open>k\<close> moves bit \<open>n - k\<close> (modulo 32) to bit \<open>n\<close>, for negative \<open>k\<close> and
  \<open>k\<close> beyond 32 too, and \<open>bit32.rrotate\<close> by the same \<open>k\<close> undoes it.\<close>

theorem bit32_rotate_inverse:
  assumes "in_int32 k" and "k \<noteq> INT_MIN"
  shows "\<exists>y. b_lrot cv [lua_pushunsigned x, lua_pushinteger k] = Inr [lua_pushunsigned y] \<and>
      (\<forall>n<32. bit y n = bit x (nat ((int n - k) mod 32))) \<and>
      b_rrot cv [lua_pushunsigned y, lua_pushinteger k] = Inr [lua_pushunsigned x]"
proof (intro exI conjI)
  let ?y = "word_roti (- k) x"
  show "b_lrot cv [lua_pushunsigned x, lua_pushinteger k] = Inr [lua_pushunsigned ?y]"
    using assms by (simp add: b_lrot_def b_rot_eq)
  show "\<forall>n<32. bit ?y n = bit x (nat ((int n - k) mod 32))"
  proof (intro allI impI)
    fix n :: nat assume "n < 32"
    then show "bit ?y n = bit x (nat ((int n - k) mod 32))"
      unfolding bit_word_roti_iff by (simp add: bit_word_roti_iff)
  qed
  have "word_roti k ?y = x" using word_roti_add [of k "- k" x]
    by (simp only: add.right_inverse word_roti_0)
  then show "b_rrot cv [lua_pushunsigned ?y, lua_pushinteger k] = Inr [lua_pushunsigned x]"
    using assms in_int32_uminus [of k]
    by (simp add: b_rrot_def b_rot_eq c_int_ok del: word_roti_eq_word_rotr_word_rotl)
qed

theorem bit32_rotate_inverse_witness:
  "\<exists>y. b_lrot no_conv [lua_pushunsigned 0x80000001, lua_pushinteger (- 36)] = Inr [lua_pushunsigned y] \<and>
      (\<forall>n<32. bit y n = bit (0x80000001 :: u32) (nat ((int n - - 36) mod 32))) \<and>
      b_rrot no_conv [lua_pushunsigned y, lua_pushinteger (- 36)] = Inr [lua_pushunsigned 0x80000001]"
  by (rule bit32_rotate_inverse) (simp_all add: in_int32_def)

text \<open>The shifts on every 32-bit shift amount: \<open>bit32.lshift\<close> by \<open>i\<close> is a left shift for \<open>0 \<le> i\<close> and
  a logical right shift by \<open>- i\<close> below, zero from 32 on; \<open>bit32.arshift\<close> by \<open>i \<ge> 0\<close> is the arithmetic
  right shift. The one exception is the amount \<open>INT_MIN\<close>, which the code negates: undefined.\<close>

theorem bit32_shift_total:
  assumes "in_int32 i"
  shows "b_lshift cv [lua_pushunsigned x, lua_pushinteger i] =
      (if i = INT_MIN then Inl (Undefined ''signed overflow'') else Inr [lua_pushunsigned (shift_by i x)]) \<and>
    b_rshift cv [lua_pushunsigned x, lua_pushinteger i] =
      (if i = INT_MIN then Inl (Undefined ''signed overflow'') else Inr [lua_pushunsigned (shift_by (- i) x)]) \<and>
    b_arshift cv [lua_pushunsigned x, lua_pushinteger i] =
      (if i = INT_MIN then Inl (Undefined ''signed overflow'')
       else Inr [lua_pushunsigned (if 0 \<le> i then signed_drop_bit (nat i) x else shift_by (- i) x)])"
  using assms
  by (simp add: b_lshift_def b_shift_eq b_rshift_def b_shift_neg b_arshift_lemma)

theorem bit32_shift_total_witness:
  "b_lshift no_conv [lua_pushunsigned 5, lua_pushinteger 33] = Inr [lua_pushunsigned 0] \<and>
   b_lshift no_conv [lua_pushunsigned 5, lua_pushinteger INT_MIN] = Inl (Undefined ''signed overflow'') \<and>
   b_rshift no_conv [lua_pushunsigned 5, lua_pushinteger 1] = Inr [lua_pushunsigned 2] \<and>
   b_arshift no_conv [lua_pushunsigned 0x80000000, lua_pushinteger 31] = Inr [lua_pushunsigned 0xffffffff]"
  by (simp add: bit32_shift_total shift_by_def in_int32_def)

text \<open>\<open>bit32.extract\<close> and \<open>bit32.replace\<close>. For a field inside the 32 bits \<open>replace\<close> writes exactly
  the bits of the field and \<open>extract\<close> reads back the written value; a field reaching past bit 31 is
  refused, unless \<open>f + w\<close> passes \<open>INT_MAX\<close>: then the guard itself overflows.\<close>

theorem bit32_field:
  assumes "in_int32 f" and "in_int32 w" and "0 \<le> f" and "0 < w"
  shows "if f + w \<le> 32 then
       \<exists>y. b_replace cv [lua_pushunsigned x, lua_pushunsigned v, lua_pushinteger f, lua_pushinteger w] =
             Inr [lua_pushunsigned y] \<and>
           b_extract cv [lua_pushunsigned y, lua_pushinteger f, lua_pushinteger w] =
             Inr [lua_pushunsigned (take_bit (nat w) v)] \<and>
           (\<forall>n. int n < f \<or> f + w \<le> int n \<longrightarrow> bit y n = bit x n)
     else b_extract cv [lua_pushunsigned x, lua_pushinteger f, lua_pushinteger w] =
           (if f + w \<le> INT_MAX then Inl (RunError ''trying to access non-existent bits'')
            else Inl (Undefined ''signed overflow''))"
proof (cases "f + w \<le> 32")
  case True
  define y where "y = set_field (nat f) (nat w) v x"
  have "take_bit (nat w) (drop_bit (nat f) y) = take_bit (nat w) v"
    by (rule bit_word_eqI) (use assms True in \<open>auto simp: bit_simps bit_set_field y_def\<close>)
  moreover have "\<forall>n. int n < f \<or> f + w \<le> int n \<longrightarrow> bit y n = bit x n"
    using assms by (auto simp: y_def bit_set_field dest: bit_imp_le_length)
  ultimately show ?thesis
    using assms True by (simp add: b_replace_lemma b_extract_lemma flip: y_def)
next
  case False
  then show ?thesis using assms by (simp add: b_extract_def fieldargs_def c_int_def in_int32_def)
qed

theorem bit32_field_witness:
  "(\<exists>y. b_replace no_conv [lua_pushunsigned 0xffff, lua_pushunsigned 5, lua_pushinteger 4, lua_pushinteger 8] =
       Inr [lua_pushunsigned y] \<and>
     b_extract no_conv [lua_pushunsigned y, lua_pushinteger 4, lua_pushinteger 8] =
       Inr [lua_pushunsigned (take_bit (nat 8) 5)] \<and>
     (\<forall>n. int n < 4 \<or> 4 + 8 \<le> int n \<longrightarrow> bit y n = bit (0xffff :: u32) n)) \<and>
   b_extract no_conv [lua_pushunsigned 1, lua_pushinteger INT_MAX, lua_pushinteger 1] =
     Inl (Undefined ''signed overflow'')"
  using bit32_field [of 4 8 no_conv "0xffff" 5] bit32_field [of INT_MAX 1 no_conv 1]
  by (simp add: in_int32_def)

end
