(* ===== verification/Int64.thy ===== *)
theory Int64 imports Value "HOL-Library.Signed_Division" begin

text \<open>
  The \<open>integer\<close> library (\<open>VM/src/lintlib.cpp\<close>): 64-bit integers with the operations of the table
  \<open>int64lib\<close>. A value is its 64 bits; \<open>sint\<close> reads \<open>int64_t\<close>, \<open>uint\<close> reads \<open>uint64_t\<close>. Arithmetic is
  done on \<open>uint64_t\<close> in the code and wraps; signed division truncates as C does.
\<close>

section \<open>C operations on 64 bits\<close>

definition shl64 :: "u64 \<Rightarrow> int \<Rightarrow> lua_error + u64" where
  "shl64 n i = (if 0 \<le> i \<and> i < 64 then Inr (push_bit (nat i) n) else Inl (Undefined ''shift''))"

definition shr64 :: "u64 \<Rightarrow> int \<Rightarrow> lua_error + u64" where
  "shr64 n i = (if 0 \<le> i \<and> i < 64 then Inr (drop_bit (nat i) n) else Inl (Undefined ''shift''))"

definition sar64 :: "u64 \<Rightarrow> int \<Rightarrow> lua_error + u64" where
  "sar64 n i = (if 0 \<le> i \<and> i < 64 then Inr (signed_drop_bit (nat i) n) else Inl (Undefined ''shift''))"

text \<open>\<open>a / b\<close> and \<open>a % b\<close> on \<open>int64_t\<close>: undefined for a zero divisor and an overflowing quotient.\<close>

definition c_div64 :: "int \<Rightarrow> int \<Rightarrow> lua_error + int" where
  "c_div64 a b = (if b = 0 then Inl (Undefined ''division by zero'') else c_int64 (a sdiv b))"

definition c_rem64 :: "int \<Rightarrow> int \<Rightarrow> lua_error + int" where
  "c_rem64 a b =
     (if b = 0 then Inl (Undefined ''division by zero'')
      else bindE (c_int64 (a sdiv b)) (\<lambda>_. Inr (a smod b)))"

definition mask64 :: "int \<Rightarrow> lua_error + u64" where
  "mask64 w = shr64 (NOT 0) (64 - w)"

definition pushl :: "int \<Rightarrow> TValue list" where
  "pushl i = [lua_pushinteger64 (word_of_int i)]"

abbreviation pushw :: "u64 \<Rightarrow> TValue list" where
  "pushw w \<equiv> [lua_pushinteger64 w]"

text \<open>Functions of one and two integer arguments.\<close>

definition unop64 :: "(u64 \<Rightarrow> lua_error + TValue list) \<Rightarrow> TValue list \<Rightarrow> lua_error + TValue list" where
  "unop64 f args = bindE (luaL_checkinteger64 args 1) f"

definition binop64 :: "(u64 \<Rightarrow> u64 \<Rightarrow> lua_error + TValue list) \<Rightarrow> TValue list \<Rightarrow> lua_error + TValue list" where
  "binop64 f args =
     bindE (luaL_checkinteger64 args 1) (\<lambda>x. bindE (luaL_checkinteger64 args 2) (\<lambda>y. f x y))"

fun integer64_loop :: "(u64 \<Rightarrow> u64 \<Rightarrow> u64) \<Rightarrow> TValue list \<Rightarrow> nat list \<Rightarrow> u64 \<Rightarrow> lua_error + u64" where
  "integer64_loop f args [] r = Inr r"
| "integer64_loop f args (i # is) r =
     bindE (luaL_checkinteger64 args i) (\<lambda>x. integer64_loop f args is (f r x))"

section \<open>Conversions\<close>

definition int64_create :: "numconv \<Rightarrow> TValue list \<Rightarrow> lua_error + TValue list" where
  "int64_create cv args =
     bindE (luaL_checknumber cv args 1) (\<lambda>x.
     if luai_numle (d_of_int LLONG_MIN) x \<and> luai_numlt x (d_of_int (2 ^ 63)) then
       (case luai_num2long x of
          None \<Rightarrow> Inl (Undefined ''double to int64_t'')
        | Some l \<Rightarrow> if luai_numeq (d_of_int l) x then Inr (pushl l) else Inr [TNil])
     else Inr [TNil])"

text \<open>\<open>luaO_str2l\<close> rests on \<open>strtoll\<close>; it is a parameter, applied to the string and the base.\<close>

definition int64_fromstring ::
    "(byte list \<Rightarrow> int \<Rightarrow> u64 option) \<Rightarrow> numconv \<Rightarrow> TValue list \<Rightarrow> lua_error + TValue list" where
  "int64_fromstring luaO_str2l cv args =
     bindE (luaL_checklstring cv args 1) (\<lambda>s.
     bindE (luaL_optinteger cv args 2 10) (\<lambda>base.
     bindE (guardE (2 \<le> base \<and> base \<le> 36) (ArgError 2 ''base out of range'')) (\<lambda>_.
     case luaO_str2l s base of Some r \<Rightarrow> Inr (pushw r) | None \<Rightarrow> Inr [TNil])))"

definition int64_tonumber :: "TValue list \<Rightarrow> lua_error + TValue list" where
  "int64_tonumber = unop64 (\<lambda>x. Inr [TNumber (d_of_int (sint x))])"

section \<open>Arithmetic\<close>

definition int64_neg :: "TValue list \<Rightarrow> lua_error + TValue list" where
  "int64_neg = unop64 (\<lambda>x. Inr (pushw (NOT x + 1)))"

definition int64_add :: "TValue list \<Rightarrow> lua_error + TValue list" where
  "int64_add = binop64 (\<lambda>x y. Inr (pushw (x + y)))"

definition int64_sub :: "TValue list \<Rightarrow> lua_error + TValue list" where
  "int64_sub = binop64 (\<lambda>x y. Inr (pushw (x - y)))"

definition int64_mul :: "TValue list \<Rightarrow> lua_error + TValue list" where
  "int64_mul = binop64 (\<lambda>x y. Inr (pushw (x * y)))"

definition int64_div :: "TValue list \<Rightarrow> lua_error + TValue list" where
  "int64_div = binop64 (\<lambda>x y. let a = sint x; b = sint y in
     if b = 0 then Inl (RunError ''division by zero'')
     else if a = LLONG_MIN \<and> b = -1 then Inl (RunError ''integer overflow'')
     else bindE (c_div64 a b) (\<lambda>q. Inr (pushl q)))"

definition int64_idiv :: "TValue list \<Rightarrow> lua_error + TValue list" where
  "int64_idiv = binop64 (\<lambda>x y. let a = sint x; b = sint y in
     if b = 0 then Inl (RunError ''division by zero'')
     else if a = LLONG_MIN \<and> b = -1 then Inl (RunError ''integer overflow'')
     else
       bindE (c_div64 a b) (\<lambda>result.
       bindE (if result < 0 then c_rem64 a b else Inr 0) (\<lambda>r.
       if r \<noteq> 0 then bindE (c_int64 (result - 1)) (\<lambda>q. Inr (pushl q))
       else Inr (pushl result))))"

definition int64_rem :: "TValue list \<Rightarrow> lua_error + TValue list" where
  "int64_rem = binop64 (\<lambda>x y. let a = sint x; b = sint y in
     if b = 0 then Inl (RunError ''division by zero'')
     else if a = LLONG_MIN \<and> b = -1 then Inr (pushl 0)
     else bindE (c_rem64 a b) (\<lambda>r. Inr (pushl r)))"

definition int64_mod :: "TValue list \<Rightarrow> lua_error + TValue list" where
  "int64_mod = binop64 (\<lambda>x y. let a = sint x; b = sint y in
     if b = 0 then Inl (RunError ''division by zero'')
     else
       bindE (if a \<noteq> LLONG_MIN \<or> b \<noteq> -1 then
                bindE (c_rem64 a b) (\<lambda>remainder.
                if remainder \<noteq> 0 \<and> (a < 0) \<noteq> (b < 0) then c_int64 (remainder + b) else Inr remainder)
              else Inr 0) (\<lambda>remainder. Inr (pushl remainder)))"

definition int64_udiv :: "TValue list \<Rightarrow> lua_error + TValue list" where
  "int64_udiv = binop64 (\<lambda>a b.
     if b = 0 then Inl (RunError ''division by zero'') else Inr (pushw (a div b)))"

definition int64_urem :: "TValue list \<Rightarrow> lua_error + TValue list" where
  "int64_urem = binop64 (\<lambda>a b.
     if b = 0 then Inl (RunError ''division by zero'') else Inr (pushw (a mod b)))"

definition int64_min :: "TValue list \<Rightarrow> lua_error + TValue list" where
  "int64_min args =
     bindE (luaL_checkinteger64 args 1) (\<lambda>tmin.
     bindE (integer64_loop (\<lambda>tmin x. if sint x < sint tmin then x else tmin) args [2..<length args + 1] tmin)
       (\<lambda>tmin. Inr (pushw tmin)))"

definition int64_max :: "TValue list \<Rightarrow> lua_error + TValue list" where
  "int64_max args =
     bindE (luaL_checkinteger64 args 1) (\<lambda>tmax.
     bindE (integer64_loop (\<lambda>tmax x. if sint x > sint tmax then x else tmax) args [2..<length args + 1] tmax)
       (\<lambda>tmax. Inr (pushw tmax)))"

definition int64_clamp :: "TValue list \<Rightarrow> lua_error + TValue list" where
  "int64_clamp args =
     bindE (luaL_checkinteger64 args 1) (\<lambda>a.
     bindE (luaL_checkinteger64 args 2) (\<lambda>mi.
     bindE (luaL_checkinteger64 args 3) (\<lambda>mx.
     bindE (guardE (sint mi \<le> sint mx) (ArgError 3 ''max must be greater than or equal to min'')) (\<lambda>_.
     if sint a < sint mi then Inr (pushw mi)
     else if sint a > sint mx then Inr (pushw mx)
     else Inr (pushw a)))))"

section \<open>Bitwise operations\<close>

definition int64_band :: "TValue list \<Rightarrow> lua_error + TValue list" where
  "int64_band args =
     bindE (integer64_loop (\<lambda>r x. r AND x) args [1..<length args + 1] (NOT 0)) (\<lambda>r. Inr (pushw r))"

definition int64_bor :: "TValue list \<Rightarrow> lua_error + TValue list" where
  "int64_bor args =
     bindE (integer64_loop (\<lambda>r x. r OR x) args [1..<length args + 1] 0) (\<lambda>r. Inr (pushw r))"

definition int64_bnot :: "TValue list \<Rightarrow> lua_error + TValue list" where
  "int64_bnot = unop64 (\<lambda>a. Inr (pushw (NOT a)))"

definition int64_bxor :: "TValue list \<Rightarrow> lua_error + TValue list" where
  "int64_bxor args =
     bindE (integer64_loop (\<lambda>r x. r XOR x) args [1..<length args + 1] 0) (\<lambda>r. Inr (pushw r))"

definition int64_btest :: "TValue list \<Rightarrow> lua_error + TValue list" where
  "int64_btest args =
     bindE (integer64_loop (\<lambda>r x. r AND x) args [1..<length args + 1] (NOT 0))
       (\<lambda>r. Inr [TBoolean (r \<noteq> 0)])"

section \<open>Comparisons\<close>

definition int64_lt :: "TValue list \<Rightarrow> lua_error + TValue list" where
  "int64_lt = binop64 (\<lambda>a b. Inr [TBoolean (sint a < sint b)])"

definition int64_le :: "TValue list \<Rightarrow> lua_error + TValue list" where
  "int64_le = binop64 (\<lambda>a b. Inr [TBoolean (sint a \<le> sint b)])"

definition int64_ult :: "TValue list \<Rightarrow> lua_error + TValue list" where
  "int64_ult = binop64 (\<lambda>a b. Inr [TBoolean (a < b)])"

definition int64_ule :: "TValue list \<Rightarrow> lua_error + TValue list" where
  "int64_ule = binop64 (\<lambda>a b. Inr [TBoolean (a \<le> b)])"

definition int64_gt :: "TValue list \<Rightarrow> lua_error + TValue list" where
  "int64_gt = binop64 (\<lambda>a b. Inr [TBoolean (sint a > sint b)])"

definition int64_ge :: "TValue list \<Rightarrow> lua_error + TValue list" where
  "int64_ge = binop64 (\<lambda>a b. Inr [TBoolean (sint a \<ge> sint b)])"

definition int64_ugt :: "TValue list \<Rightarrow> lua_error + TValue list" where
  "int64_ugt = binop64 (\<lambda>a b. Inr [TBoolean (a > b)])"

definition int64_uge :: "TValue list \<Rightarrow> lua_error + TValue list" where
  "int64_uge = binop64 (\<lambda>a b. Inr [TBoolean (a \<ge> b)])"

section \<open>Shifts, rotations and fields\<close>

definition int64_lshift :: "TValue list \<Rightarrow> lua_error + TValue list" where
  "int64_lshift = binop64 (\<lambda>n iw. let i = sint iw in
     if -63 \<le> i \<and> i \<le> 63 then
       bindE (if i < 0 then shr64 n (- i) else shl64 n i) (\<lambda>r. Inr (pushw r))
     else Inr (pushw 0))"

definition int64_rshift :: "TValue list \<Rightarrow> lua_error + TValue list" where
  "int64_rshift = binop64 (\<lambda>n iw. let i = sint iw in
     if -63 \<le> i \<and> i \<le> 63 then
       bindE (if i < 0 then shl64 n (- i) else shr64 n i) (\<lambda>r. Inr (pushw r))
     else Inr (pushw 0))"

definition int64_arshift :: "TValue list \<Rightarrow> lua_error + TValue list" where
  "int64_arshift = binop64 (\<lambda>n iw. let i = sint iw in
     if -63 \<le> i \<and> i \<le> 63 then
       bindE (if i < 0 then shl64 n (- i) else sar64 n i) (\<lambda>r. Inr (pushw r))
     else if i < -63 then Inr (pushw 0)
     else Inr (pushl (if sint n < 0 then -1 else 0)))"

definition int64_lrotate :: "TValue list \<Rightarrow> lua_error + TValue list" where
  "int64_lrotate = binop64 (\<lambda>n sw. let s = uint (sw mod 64) in
     if s \<noteq> 0 then
       bindE (shl64 n s) (\<lambda>a. bindE (shr64 n (64 - s)) (\<lambda>b. Inr (pushw (a OR b))))
     else Inr (pushw n))"

definition int64_rrotate :: "TValue list \<Rightarrow> lua_error + TValue list" where
  "int64_rrotate = binop64 (\<lambda>n sw. let s = uint (sw mod 64) in
     if s \<noteq> 0 then
       bindE (shr64 n s) (\<lambda>a. bindE (shl64 n (64 - s)) (\<lambda>b. Inr (pushw (a OR b))))
     else Inr (pushw n))"

definition int64_extract :: "TValue list \<Rightarrow> lua_error + TValue list" where
  "int64_extract args =
     bindE (luaL_checkinteger64 args 1) (\<lambda>n.
     bindE (luaL_checkinteger64 args 2) (\<lambda>fw.
     bindE (luaL_optinteger64 args 3 1) (\<lambda>ww.
     let f = sint fw; w = sint ww in
     bindE (guardE (0 \<le> f \<and> f \<le> 63) (ArgError 2 ''field cannot be negative'')) (\<lambda>_.
     bindE (guardE (0 < w) (ArgError 3 ''width must be positive'')) (\<lambda>_.
     bindE (c_int64 (f + w)) (\<lambda>s.
     if s > 64 then Inl (RunError ''trying to access non-existent bits'')
     else
       bindE (shr64 n f) (\<lambda>a. bindE (mask64 w) (\<lambda>m. Inr (pushw (a AND m))))))))))"

definition int64_replace :: "TValue list \<Rightarrow> lua_error + TValue list" where
  "int64_replace args =
     bindE (luaL_checkinteger64 args 1) (\<lambda>n.
     bindE (luaL_checkinteger64 args 2) (\<lambda>r.
     bindE (luaL_checkinteger64 args 3) (\<lambda>fw.
     bindE (luaL_optinteger64 args 4 1) (\<lambda>ww.
     let f = sint fw; w = sint ww in
     bindE (guardE (0 \<le> f \<and> f \<le> 63) (ArgError 3 ''field cannot be negative'')) (\<lambda>_.
     bindE (guardE (0 < w) (ArgError 4 ''width must be positive'')) (\<lambda>_.
     bindE (c_int64 (f + w)) (\<lambda>s.
     if s > 64 then Inl (RunError ''trying to access non-existent bits'')
     else
       bindE (shr64 (NOT 0) (64 - w)) (\<lambda>baseMask.
       bindE (shl64 (r AND baseMask) f) (\<lambda>replacement.
       bindE (shl64 baseMask f) (\<lambda>bf.
       let msk = NOT 0 XOR bf in
       Inr (pushw ((n AND msk) OR replacement))))))))))))"

text \<open>The compiler built-ins count the zeros below the lowest and above the highest set bit.\<close>

definition builtin_ctzll :: "u64 \<Rightarrow> nat" where
  "builtin_ctzll n = length (takeWhile (\<lambda>i. \<not> bit n i) [0..<64])"

definition builtin_clzll :: "u64 \<Rightarrow> nat" where
  "builtin_clzll n = length (takeWhile (\<lambda>i. \<not> bit n (63 - i)) [0..<64])"

definition int64_countrz :: "TValue list \<Rightarrow> lua_error + TValue list" where
  "int64_countrz = unop64 (\<lambda>n. Inr (pushl (if n = 0 then 64 else int (builtin_ctzll n))))"

definition int64_countlz :: "TValue list \<Rightarrow> lua_error + TValue list" where
  "int64_countlz = unop64 (\<lambda>n. Inr (pushl (if n = 0 then 64 else int (builtin_clzll n))))"

definition int64_bswap :: "TValue list \<Rightarrow> lua_error + TValue list" where
  "int64_bswap = unop64 (\<lambda>a. Inr (pushw
     (drop_bit 56 a
      OR drop_bit 40 (a AND 0xFF000000000000)
      OR drop_bit 24 (a AND 0xFF0000000000)
      OR drop_bit 8 (a AND 0xFF00000000)
      OR push_bit 8 (a AND 0xFF000000)
      OR push_bit 24 (a AND 0xFF0000)
      OR push_bit 40 (a AND 0xFF00)
      OR push_bit 56 (a AND 0xFF))))"


section \<open>Division\<close>

lemma abs_sdiv: "b \<noteq> 0 \<Longrightarrow> \<bar>a sdiv b\<bar> = \<bar>a\<bar> div \<bar>b\<bar>" for a b :: int
  by (cases "a = 0") (simp_all add: signed_divide_int_def abs_mult abs_sgn_eq pos_imp_zdiv_nonneg_iff)

lemma sdiv_in_int64:
  assumes a: "in_int64 a" and b: "b \<noteq> 0" and ov: "\<not> (a = LLONG_MIN \<and> b = -1)"
  shows "in_int64 (a sdiv b)"
proof (cases "\<bar>b\<bar> = 1")
  case True
  then have "b = 1 \<or> b = -1" by arith
  then show ?thesis using a ov by (auto simp: in_int64_def)
next
  case False
  show ?thesis
  proof (cases "a = 0")
    case False
    then have "\<bar>a\<bar> div \<bar>b\<bar> < \<bar>a\<bar>" using \<open>\<bar>b\<bar> \<noteq> 1\<close> b by (intro int_div_less_self) auto
    then show ?thesis using a abs_sdiv [OF b, of a] by (simp add: in_int64_def) arith
  qed (simp add: in_int64_def)
qed

lemma smod_eq_0_iff: "a smod b = 0 \<longleftrightarrow> b dvd a" for a b :: int
  by (cases "a = 0") (auto simp: signed_modulo_int_def sgn_0_0 dvd_eq_mod_eq_0 [symmetric])

lemma mod_in_int64: "in_int64 b \<Longrightarrow> b \<noteq> 0 \<Longrightarrow> in_int64 (a mod b)"
  using pos_mod_bound [of b a] pos_mod_sign [of b a] neg_mod_bound [of b a] neg_mod_sign [of b a]
  unfolding in_int64_def by (cases "0 < b") linarith+

lemma floor_mod_of_smod:
  "b \<noteq> 0 \<Longrightarrow> a mod b = (if a smod b \<noteq> 0 \<and> (a < 0) \<noteq> (b < 0) then a smod b + b else a smod b)"
  for a b :: int
  by (auto simp: modulo_int_eq_signed_modulo_int smod_eq_0_iff sgn_if split: if_splits)

lemma sdiv_neg_iff: "b \<noteq> 0 \<Longrightarrow> a sdiv b < 0 \<longleftrightarrow> (a < 0) \<noteq> (b < 0) \<and> \<bar>b\<bar> \<le> \<bar>a\<bar>" for a b :: int
  by (auto simp: signed_divide_int_def sgn_if pos_imp_zdiv_pos_iff not_le pos_imp_zdiv_neg_iff neg_imp_zdiv_neg_iff split: if_splits)

lemma floor_div_of_sdiv:
  "b \<noteq> 0 \<Longrightarrow>
    (if a sdiv b < 0 \<and> a smod b \<noteq> 0 then a sdiv b - 1 else a sdiv b) =
    (if a \<noteq> 0 \<and> \<bar>a\<bar> < \<bar>b\<bar> \<and> (a < 0) \<noteq> (b < 0) then a div b + 1 else a div b)"
  for a b :: int
  using dvd_imp_le_int [of a b]
  by (cases "b dvd a")
    (auto simp: divide_int_eq_signed_divide_int sdiv_neg_iff smod_eq_0_iff sgn_if split: if_splits)

lemma floor_div_small:
  fixes a b :: int
  assumes "a \<noteq> 0" "\<bar>a\<bar> < \<bar>b\<bar>" "(a < 0) \<noteq> (b < 0)"
  shows "a div b = -1"
proof (cases "a < 0")
  case True
  then show ?thesis using assms by (intro int_div_pos_eq [of a b "-1" "a + b"]) auto
next
  case False
  then show ?thesis using assms by (intro int_div_neg_eq [of a b "-1" "a + b"]) auto
qed

lemma c_div64_ok:
  "in_int64 a \<Longrightarrow> b \<noteq> 0 \<Longrightarrow> \<not> (a = LLONG_MIN \<and> b = -1) \<Longrightarrow> c_div64 a b = Inr (a sdiv b)"
  by (simp add: c_div64_def c_int64_ok sdiv_in_int64)

lemma c_rem64_ok:
  "in_int64 a \<Longrightarrow> b \<noteq> 0 \<Longrightarrow> \<not> (a = LLONG_MIN \<and> b = -1) \<Longrightarrow> c_rem64 a b = Inr (a smod b)"
  by (simp add: c_rem64_def c_int64_ok sdiv_in_int64)

lemma binop64_simp [simp]: "binop64 f [TInteger x, TInteger y] = f x y"
  by (simp add: binop64_def)

lemma unop64_simp [simp]: "unop64 f [TInteger x] = f x"
  by (simp add: unop64_def)

lemma int64_div_eq:
  "sint y \<noteq> 0 \<Longrightarrow> \<not> (sint x = LLONG_MIN \<and> sint y = -1) \<Longrightarrow>
    int64_div [TInteger x, TInteger y] = Inr (pushl (sint x sdiv sint y))"
  by (simp add: int64_div_def Let_def c_div64_ok)

lemma int64_rem_eq:
  "sint y \<noteq> 0 \<Longrightarrow> \<not> (sint x = LLONG_MIN \<and> sint y = -1) \<Longrightarrow>
    int64_rem [TInteger x, TInteger y] = Inr (pushl (sint x smod sint y))"
  by (auto simp add: int64_rem_def Let_def c_rem64_ok)

lemma int64_mod_eq:
  assumes y: "sint y \<noteq> 0"
  shows "int64_mod [TInteger x, TInteger y] = Inr (pushl (sint x mod sint y))"
proof (cases "sint x = LLONG_MIN \<and> sint y = -1")
  case True
  then show ?thesis by (simp add: int64_mod_def)
next
  case False
  have "in_int64 (sint x mod sint y)" using y by (simp add: mod_in_int64)
  then show ?thesis using False y
    by (auto simp: int64_mod_def Let_def c_rem64_ok c_int64_ok floor_mod_of_smod [of "sint y" "sint x"])
qed

lemma abs_eq_1_dvd: "\<bar>b\<bar> = 1 \<Longrightarrow> b dvd a" for a b :: int
  by (metis abs_dvd_iff one_dvd)

lemma int64_division_by_zero:
  assumes "sint y = 0"
  shows "int64_div [TInteger x, TInteger y] = Inl (RunError ''division by zero'')"
    and "int64_rem [TInteger x, TInteger y] = Inl (RunError ''division by zero'')"
    and "int64_mod [TInteger x, TInteger y] = Inl (RunError ''division by zero'')"
    and "int64_idiv [TInteger x, TInteger y] = Inl (RunError ''division by zero'')"
  using assms by (simp_all add: int64_div_def int64_rem_def int64_mod_def int64_idiv_def)

lemma int64_division_overflow:
  assumes "sint x = LLONG_MIN" "sint y = -1"
  shows "int64_div [TInteger x, TInteger y] = Inl (RunError ''integer overflow'')"
    and "int64_rem [TInteger x, TInteger y] = Inr (pushl 0)"
    and "int64_idiv [TInteger x, TInteger y] = Inl (RunError ''integer overflow'')"
  using assms by (simp_all add: int64_div_def int64_rem_def int64_idiv_def)

lemmas int64_division_edges = int64_division_by_zero int64_division_overflow

lemma int64_idiv_eq:
  assumes y: "sint y \<noteq> 0" and ov: "\<not> (sint x = LLONG_MIN \<and> sint y = -1)"
  shows "int64_idiv [TInteger x, TInteger y] =
    Inr (pushl (if sint x \<noteq> 0 \<and> \<bar>sint x\<bar> < \<bar>sint y\<bar> \<and> (sint x < 0) \<noteq> (sint y < 0)
                then 0 else sint x div sint y))"
proof -
  let ?q = "sint x sdiv sint y" and ?r = "sint x smod sint y"
  have "in_int64 (?q - 1)" if "?q < 0" "?r \<noteq> 0"
  proof -
    have "\<bar>sint y\<bar> \<noteq> 1" using that
      by (auto simp: smod_eq_0_iff dest!: abs_eq_1_dvd)
    then have "\<bar>sint x\<bar> div \<bar>sint y\<bar> < \<bar>sint x\<bar>" using y that
      by (intro int_div_less_self) auto
    then have "\<bar>?q\<bar> < \<bar>sint x\<bar>" using abs_sdiv [OF y, of "sint x"] by simp
    then show ?thesis using that sint64_range [of x] by (auto simp: in_int64_def)
  qed
  then have "int64_idiv [TInteger x, TInteger y] = Inr (pushl (if ?q < 0 \<and> ?r \<noteq> 0 then ?q - 1 else ?q))"
    using y ov by (simp add: int64_idiv_def Let_def c_div64_ok c_rem64_ok c_int64_ok)
  then show ?thesis using floor_div_small [of "sint x" "sint y"]
    by (simp only: floor_div_of_sdiv [OF y]) simp
qed

text \<open>
  C40. C40. C40. C40. Signed division of the \<open>integer\<close> library. A zero divisor is an error in all four functions and
  the one overflowing quotient an error in \<open>div\<close> and \<open>idiv\<close>. Otherwise \<open>div\<close> and \<open>rem\<close> are the
  truncating pair, \<open>mod\<close> is the remainder of the floored division, and \<open>idiv\<close> is the floored quotient
  except when the dividend is non-zero, smaller in magnitude than the divisor and of the other sign:
  there it is one more than the floored quotient (0, not -1), because the code adjusts only a negative
  truncated quotient.
\<close>

theorem int64_signed_division:
  "let a = sint x; b = sint y;
       dz = Inl (RunError ''division by zero''); ov = Inl (RunError ''integer overflow'');
       over = (a = LLONG_MIN \<and> b = -1);
       short = (a \<noteq> 0 \<and> \<bar>a\<bar> < \<bar>b\<bar> \<and> (a < 0) \<noteq> (b < 0));
       args = [TInteger x, TInteger y]
   in int64_div args = (if b = 0 then dz else if over then ov else Inr (pushl (a sdiv b)))
    \<and> int64_rem args = (if b = 0 then dz else if over then Inr (pushl 0) else Inr (pushl (a smod b)))
    \<and> int64_mod args = (if b = 0 then dz else Inr (pushl (a mod b)))
    \<and> int64_idiv args =
        (if b = 0 then dz else if over then ov else Inr (pushl (a div b + (if short then 1 else 0))))"
  using int64_mod_eq [of y x] floor_div_small [of "sint x" "sint y"]
  by (cases "sint y = 0"; cases "sint x = LLONG_MIN \<and> sint y = -1")
    (auto simp: Let_def int64_division_edges int64_div_eq int64_rem_eq int64_idiv_eq)

section \<open>Fields and bytes\<close>

lemma shr64_ok: "0 \<le> i \<Longrightarrow> i < 64 \<Longrightarrow> shr64 n i = Inr (drop_bit (nat i) n)"
  by (simp add: shr64_def)

lemma shl64_ok: "0 \<le> i \<Longrightarrow> i < 64 \<Longrightarrow> shl64 n i = Inr (push_bit (nat i) n)"
  by (simp add: shl64_def)

lemma drop_bit_ones64: "w \<le> 64 \<Longrightarrow> drop_bit (64 - w) (NOT 0 :: u64) = mask w"
  by (rule bit_word_eqI) (auto simp: bit_simps)

lemma mask64_ok: "0 < w \<Longrightarrow> w \<le> 64 \<Longrightarrow> mask64 w = Inr (mask (nat w))"
  using drop_bit_ones64 [of "nat w"] by (simp add: mask64_def shr64_ok nat_diff_distrib)

definition set_field64 :: "nat \<Rightarrow> nat \<Rightarrow> u64 \<Rightarrow> u64 \<Rightarrow> u64" where
  "set_field64 f w v x = (x AND NOT (push_bit f (mask w))) OR push_bit f (take_bit w v)"

lemma bit_set_field64:
  "bit (set_field64 f w v x) n \<longleftrightarrow> n < 64 \<and> (if f \<le> n \<and> n < f + w then bit v (n - f) else bit x n)"
  by (auto simp: set_field64_def bit_simps dest: bit_imp_le_length)

lemma int64_field_lemma:
  assumes "0 \<le> sint f" "0 < sint w" "sint f + sint w \<le> 64"
  shows "int64_extract [TInteger x, TInteger f, TInteger w] =
      Inr (pushw (take_bit (nat (sint w)) (drop_bit (nat (sint f)) x)))"
    and "int64_replace [TInteger x, TInteger v, TInteger f, TInteger w] =
      Inr (pushw (set_field64 (nat (sint f)) (nat (sint w)) v x))"
proof -
  have s: "in_int64 (sint f + sint w)" using assms by (simp add: in_int64_def)
  show "int64_extract [TInteger x, TInteger f, TInteger w] =
      Inr (pushw (take_bit (nat (sint w)) (drop_bit (nat (sint f)) x)))"
    using assms s by (simp add: int64_extract_def Let_def c_int64_ok shr64_ok mask64_ok take_bit_eq_mask)
  have m: "drop_bit (nat (64 - sint w)) (NOT 0 :: u64) = mask (nat (sint w))"
    using assms drop_bit_ones64 [of "nat (sint w)"] by (simp add: nat_diff_distrib)
  show "int64_replace [TInteger x, TInteger v, TInteger f, TInteger w] =
      Inr (pushw (set_field64 (nat (sint f)) (nat (sint w)) v x))"
    using assms s m
    by (simp add: int64_replace_def Let_def c_int64_ok shr64_ok shl64_ok set_field64_def take_bit_eq_mask)
qed

definition bswap64 :: "u64 \<Rightarrow> u64" where
  "bswap64 a = drop_bit 56 a
      OR drop_bit 40 (a AND 0xFF000000000000)
      OR drop_bit 24 (a AND 0xFF0000000000)
      OR drop_bit 8 (a AND 0xFF00000000)
      OR push_bit 8 (a AND 0xFF000000)
      OR push_bit 24 (a AND 0xFF0000)
      OR push_bit 40 (a AND 0xFF00)
      OR push_bit 56 (a AND 0xFF)"

lemma upt_64: "[0..<64] = [0, 1, 2, 3, 4, 5, 6, 7, 8, 9, 10, 11, 12, 13, 14, 15, 16, 17, 18, 19, 20, 21, 22, 23, 24, 25, 26, 27, 28, 29, 30, 31, 32, 33, 34, 35, 36, 37, 38, 39, 40, 41, 42, 43, 44, 45, 46, 47, 48, 49, 50, 51, 52, 53, 54, 55, 56, 57, 58, 59, 60, 61, 62, 63]"
  by code_simp

lemma bit_bswap64_all:
  "\<forall>n\<in>set [0..<64]. bit (bswap64 a) n = bit a (8 * (7 - n div 8) + n mod 8)"
  unfolding bswap64_def upt_64 by (simp add: bit_simps) (auto simp: numeral_2_eq_2 dest: bit_imp_le_length)

lemma bit_bswap64: "bit (bswap64 a) n \<longleftrightarrow> n < 64 \<and> bit a (8 * (7 - n div 8) + n mod 8)"
  using bit_bswap64_all [of a] by (cases "n < 64") (auto dest: bit_imp_le_length)

lemma bswap64_involutive: "bswap64 (bswap64 a) = a"
proof (rule bit_word_eqI)
  fix n assume "n < LENGTH(64)"
  then have n: "n < 64" by simp
  let ?m = "8 * (7 - n div 8) + n mod 8"
  have "?m div 8 = 7 - n div 8" "?m mod 8 = n mod 8" by simp_all
  moreover have "n div 8 \<le> 7" using n by simp
  ultimately have "8 * (7 - ?m div 8) + ?m mod 8 = n" "?m < 64" by simp_all
  then show "bit (bswap64 (bswap64 a)) n = bit a n" using n by (simp add: bit_bswap64)
qed

text \<open>Fields and byte order of 64-bit integers. For a field inside the 64 bits \<open>integer.replace\<close>
  writes exactly the bits of the field and \<open>integer.extract\<close> reads the written value back; a field
  that reaches past bit 63 is refused, except when \<open>f + w\<close> passes \<open>LLONG_MAX\<close> and the guard itself
  overflows.\<close>

theorem int64_field:
  assumes "0 \<le> sint f" and "sint f \<le> 63" and "0 < sint w"
  shows "if sint f + sint w \<le> 64 then
       \<exists>y. int64_replace [TInteger x, TInteger v, TInteger f, TInteger w] = Inr (pushw y) \<and>
           int64_extract [TInteger y, TInteger f, TInteger w] = Inr (pushw (take_bit (nat (sint w)) v)) \<and>
           (\<forall>n. int n < sint f \<or> sint f + sint w \<le> int n \<longrightarrow> bit y n = bit x n)
     else int64_extract [TInteger x, TInteger f, TInteger w] =
           (if sint f + sint w \<le> LLONG_MAX then Inl (RunError ''trying to access non-existent bits'')
            else Inl (Undefined ''signed overflow''))"
proof (cases "sint f + sint w \<le> 64")
  case True
  define y where "y = set_field64 (nat (sint f)) (nat (sint w)) v x"
  have "take_bit (nat (sint w)) (drop_bit (nat (sint f)) y) = take_bit (nat (sint w)) v"
    by (rule bit_word_eqI) (use assms True in \<open>auto simp: bit_simps bit_set_field64 y_def\<close>)
  moreover have "\<forall>n. int n < sint f \<or> sint f + sint w \<le> int n \<longrightarrow> bit y n = bit x n"
    using assms by (auto simp: y_def bit_set_field64 dest: bit_imp_le_length)
  ultimately show ?thesis
    using assms True by (simp add: int64_field_lemma lua_pushinteger64_def flip: y_def)
next
  case False
  then show ?thesis using assms
    by (simp add: int64_extract_def c_int64_def in_int64_def Let_def)
qed

theorem int64_field_witness:
  "(\<exists>y. int64_replace [TInteger 0xffff, TInteger 5, TInteger 40, TInteger 24] = Inr (pushw y) \<and>
     int64_extract [TInteger y, TInteger 40, TInteger 24] = Inr (pushw (take_bit (nat 24) 5)) \<and>
     (\<forall>n. int n < 40 \<or> 40 + 24 \<le> int n \<longrightarrow> bit y n = bit (0xffff :: u64) n)) \<and>
   int64_extract [TInteger 1, TInteger 1, TInteger 0x7fffffffffffffff] = Inl (Undefined ''signed overflow'')"
  using int64_field [of 40 24 "0xffff" 5] int64_field [of 1 "0x7fffffffffffffff" 1]
  by simp

lemma int64_bswap_eq: "int64_bswap [TInteger x] = Inr (pushw (bswap64 x))"
  by (simp add: int64_bswap_def bswap64_def)

text \<open>The eight bytes, least significant first.\<close>

definition u64_bytes :: "u64 \<Rightarrow> byte list" where
  "u64_bytes w = map (\<lambda>i. ucast (drop_bit (8 * i) w)) [0..<8]"

text \<open>\<open>integer.byteswap\<close> reverses the eight bytes, and so is its own inverse.\<close>

theorem int64_bswap_reverses:
  "\<exists>y. int64_bswap [TInteger x] = Inr (pushw y) \<and> int64_bswap [TInteger y] = Inr (pushw x) \<and>
     u64_bytes y = rev (u64_bytes x)"
proof (intro exI conjI)
  show "int64_bswap [TInteger x] = Inr (pushw (bswap64 x))" by (rule int64_bswap_eq)
  show "int64_bswap [TInteger (bswap64 x)] = Inr (pushw x)"
    by (simp only: int64_bswap_eq bswap64_involutive)
  show "u64_bytes (bswap64 x) = rev (u64_bytes x)"
  proof (rule nth_equalityI)
    fix i assume "i < length (u64_bytes (bswap64 x))"
    then have i: "i < 8" by (simp add: u64_bytes_def)
    have "(ucast (drop_bit (8 * i) (bswap64 x)) :: byte) = ucast (drop_bit (8 * (7 - i)) x)"
      by (rule bit_word_eqI) (use i in \<open>auto simp: bit_bswap64 bit_simps ac_simps\<close>)
    then show "u64_bytes (bswap64 x) ! i = rev (u64_bytes x) ! i"
      using i nth_upt [of 0 "7 - i" 8] by (simp add: u64_bytes_def rev_nth)
  qed (simp add: u64_bytes_def)
qed

end
