(* ===== verification/Buffer.thy ===== *)
theory Buffer imports Value begin

text \<open>
  Buffers: the object (\<open>VM/src/lbuffer.cpp\<close>) and the \<open>buffer\<close> library (\<open>VM/src/lbuflib.cpp\<close>). The heap is
  the list of the buffers allocated so far, a reference is an index into it, so two arguments can name
  the same buffer. Every \<open>memcpy\<close>, \<open>memmove\<close> and \<open>memset\<close> of the code is a \<open>read_bytes\<close> or a
  \<open>write_bytes\<close>, which are \<open>Undefined\<close> outside of the buffer: memory safety is a theorem, not a
  convention. The machine is little endian.
\<close>

section \<open>Memory\<close>

type_synonym heap = "byte list list"

abbreviation out_of_bounds :: lua_error where
  "out_of_bounds \<equiv> Undefined ''out-of-bounds access''"

abbreviation MAX_BUFFER_SIZE :: nat where "MAX_BUFFER_SIZE \<equiv> 1073741824"

definition read_bytes :: "byte list \<Rightarrow> int \<Rightarrow> nat \<Rightarrow> lua_error + byte list" where
  "read_bytes buf off n =
     (if 0 \<le> off \<and> off + int n \<le> int (length buf) then Inr (take n (drop (nat off) buf))
      else Inl out_of_bounds)"

definition splice :: "byte list \<Rightarrow> nat \<Rightarrow> byte list \<Rightarrow> byte list" where
  "splice buf off bs = take off buf @ bs @ drop (off + length bs) buf"

definition write_bytes :: "byte list \<Rightarrow> int \<Rightarrow> byte list \<Rightarrow> lua_error + byte list" where
  "write_bytes buf off bs =
     (if 0 \<le> off \<and> off + int (length bs) \<le> int (length buf) then Inr (splice buf (nat off) bs)
      else Inl out_of_bounds)"

text \<open>The bytes of an unsigned value in memory, and back.\<close>

primrec le_bytes :: "nat \<Rightarrow> nat \<Rightarrow> byte list" where
  "le_bytes 0 v = []"
| "le_bytes (Suc n) v = of_nat v # le_bytes n (v div 256)"

primrec le_nat :: "byte list \<Rightarrow> nat" where
  "le_nat [] = 0"
| "le_nat (b # bs) = unat b + 256 * le_nat bs"

section \<open>Element types\<close>

datatype int_type = int8_t | uint8_t | int16_t | uint16_t | int32_t | uint32_t

fun type_size :: "int_type \<Rightarrow> nat" where
  "type_size int8_t = 1"
| "type_size uint8_t = 1"
| "type_size int16_t = 2"
| "type_size uint16_t = 2"
| "type_size int32_t = 4"
| "type_size uint32_t = 4"

fun type_signed :: "int_type \<Rightarrow> bool" where
  "type_signed int8_t = True"
| "type_signed int16_t = True"
| "type_signed int32_t = True"
| "type_signed _ = False"

text \<open>The value of the \<open>T\<close> whose bits are \<open>n\<close>, and the conversion \<open>T(value)\<close> of an integer.\<close>

definition type_value :: "int_type \<Rightarrow> nat \<Rightarrow> int" where
  "type_value T n =
     (if type_signed T \<and> 2 ^ (8 * type_size T - 1) \<le> n then int n - 2 ^ (8 * type_size T) else int n)"

definition type_cast :: "int_type \<Rightarrow> int \<Rightarrow> nat" where
  "type_cast T v = nat (v mod 2 ^ (8 * type_size T))"

text \<open>
  Floating-point elements: the storage size, the conversion of a double to the bits stored and back.
  For \<open>double\<close> both are the identity. \<open>float(value)\<close> rounds to the nearest single, ties to even.
\<close>

datatype fp_type = fp_float | fp_double

fun fp_size :: "fp_type \<Rightarrow> nat" where
  "fp_size fp_float = 4"
| "fp_size fp_double = 8"

definition round_shift :: "nat \<Rightarrow> nat \<Rightarrow> nat" where
  "round_shift m s =
     (let q = m div 2 ^ s; r = m mod 2 ^ s
      in if 2 ^ s < 2 * r \<or> 2 * r = 2 ^ s \<and> odd q then q + 1 else q)"

definition f32_of_double :: "double \<Rightarrow> nat" where
  "f32_of_double d =
     (let s = (if d_neg d then 2 ^ 31 else 0); e = max 1 (d_exp d)
      in if d_isnan d then s + 0x7FC00000 + d_frac d div 2 ^ 29 mod 2 ^ 22
         else if \<not> d_finite d then s + 0x7F800000
         else if 897 \<le> e then
           s + min 0x7F800000 ((e - 896) * 2 ^ 23 + (round_shift (d_mant d) 29 - 2 ^ 23))
         else s + round_shift (d_mant d) (926 - e))"

definition double_of_f32 :: "nat \<Rightarrow> double" where
  "double_of_f32 n =
     (let s = (if 2 ^ 31 \<le> n then 2 ^ 63 else 0); e = n div 2 ^ 23 mod 2 ^ 8; f = n mod 2 ^ 23
      in of_nat (s +
         (if e = 255 then 2047 * 2 ^ 52 + (if f = 0 then 0 else (f OR 2 ^ 22) * 2 ^ 29)
          else if e = 0 then
            (if f = 0 then 0
             else let l = floorlog 2 f - 1 in (l + 874) * 2 ^ 52 + (f * 2 ^ (52 - l) - 2 ^ 52))
          else (e + 896) * 2 ^ 52 + f * 2 ^ 29)))"

fun fp_store :: "fp_type \<Rightarrow> double \<Rightarrow> nat" where
  "fp_store fp_float d = f32_of_double d"
| "fp_store fp_double d = unat d"

fun fp_load :: "fp_type \<Rightarrow> nat \<Rightarrow> double" where
  "fp_load fp_float n = double_of_f32 n"
| "fp_load fp_double n = of_nat n"

section \<open>The buffer object\<close>

definition luaB_newbuffer :: "heap \<Rightarrow> nat \<Rightarrow> lua_error + nat \<times> heap" where
  "luaB_newbuffer h s =
     (if s > MAX_BUFFER_SIZE then Inl (RunError ''memory allocation error: block too big'')
      else Inr (length h, h @ [replicate s 0]))"

definition luaL_checkbuffer :: "heap \<Rightarrow> TValue list \<Rightarrow> nat \<Rightarrow> lua_error + nat \<times> byte list" where
  "luaL_checkbuffer h args n =
     (case arg args n of
        Some (TGc LUA_TBUFFER a) \<Rightarrow>
          if a < length h then Inr (a, h ! a) else Inl (Undefined ''dangling reference'')
      | _ \<Rightarrow> Inl (TypeError n ''buffer''))"

abbreviation TBuffer :: "nat \<Rightarrow> TValue" where
  "TBuffer a \<equiv> TGc LUA_TBUFFER a"

text \<open>\<open>isoutofbounds(offset, len, accessize)\<close>: the offset is read as \<open>unsigned\<close>, the sum has 64 bits.\<close>

definition isoutofbounds :: "int \<Rightarrow> nat \<Rightarrow> nat \<Rightarrow> bool" where
  "isoutofbounds offset len accessize \<longleftrightarrow> nat (offset mod 2 ^ 32) + accessize > len"

abbreviation access_error :: lua_error where
  "access_error \<equiv> RunError ''buffer access out of bounds''"

section \<open>Library functions\<close>

type_synonym bufop = "heap \<Rightarrow> TValue list \<Rightarrow> lua_error + TValue list \<times> heap"

definition buffer_create :: "numconv \<Rightarrow> bufop" where
  "buffer_create cv h args =
     bindE (luaL_checkinteger cv args 1) (\<lambda>size.
     bindE (guardE (size \<ge> 0) (ArgError 1 ''size'')) (\<lambda>_.
     bindE (luaB_newbuffer h (nat size)) (\<lambda>(a, h).
     Inr ([TBuffer a], h))))"

definition buffer_fromstring :: "numconv \<Rightarrow> bufop" where
  "buffer_fromstring cv h args =
     bindE (luaL_checklstring cv args 1) (\<lambda>val.
     bindE (luaB_newbuffer h (length val)) (\<lambda>(a, h).
     bindE (write_bytes (h ! a) 0 val) (\<lambda>data.
     Inr ([TBuffer a], h[a := data]))))"

definition buffer_tostring :: bufop where
  "buffer_tostring h args =
     bindE (luaL_checkbuffer h args 1) (\<lambda>(a, data). Inr ([TString data], h))"

definition buffer_readinteger :: "int_type \<Rightarrow> numconv \<Rightarrow> bufop" where
  "buffer_readinteger T cv h args =
     bindE (luaL_checkbuffer h args 1) (\<lambda>(a, buf).
     bindE (luaL_checkinteger cv args 2) (\<lambda>offset.
     if isoutofbounds offset (length buf) (type_size T) then Inl access_error
     else
       bindE (read_bytes buf offset (type_size T)) (\<lambda>val.
       Inr ([TNumber (d_of_int (type_value T (le_nat val)))], h))))"

definition buffer_writeinteger :: "int_type \<Rightarrow> numconv \<Rightarrow> bufop" where
  "buffer_writeinteger T cv h args =
     bindE (luaL_checkbuffer h args 1) (\<lambda>(a, buf).
     bindE (luaL_checkinteger cv args 2) (\<lambda>offset.
     bindE (luaL_checkunsigned cv args 3) (\<lambda>u.
     let value = sint u in
     if isoutofbounds offset (length buf) (type_size T) then Inl access_error
     else
       bindE (write_bytes buf offset (le_bytes (type_size T) (type_cast T value))) (\<lambda>buf.
       Inr ([], h[a := buf])))))"

definition buffer_readlong :: "numconv \<Rightarrow> bufop" where
  "buffer_readlong cv h args =
     bindE (luaL_checkbuffer h args 1) (\<lambda>(a, buf).
     bindE (luaL_checkinteger cv args 2) (\<lambda>offset.
     if isoutofbounds offset (length buf) 8 then Inl access_error
     else bindE (read_bytes buf offset 8) (\<lambda>val. Inr ([lua_pushinteger64 (of_nat (le_nat val))], h))))"

definition buffer_writelong :: "numconv \<Rightarrow> bufop" where
  "buffer_writelong cv h args =
     bindE (luaL_checkbuffer h args 1) (\<lambda>(a, buf).
     bindE (luaL_checkinteger cv args 2) (\<lambda>offset.
     bindE (luaL_checkinteger64 args 3) (\<lambda>value.
     if isoutofbounds offset (length buf) 8 then Inl access_error
     else bindE (write_bytes buf offset (le_bytes 8 (unat value))) (\<lambda>buf. Inr ([], h[a := buf])))))"

definition buffer_readfp :: "fp_type \<Rightarrow> numconv \<Rightarrow> bufop" where
  "buffer_readfp T cv h args =
     bindE (luaL_checkbuffer h args 1) (\<lambda>(a, buf).
     bindE (luaL_checkinteger cv args 2) (\<lambda>offset.
     if isoutofbounds offset (length buf) (fp_size T) then Inl access_error
     else
       bindE (read_bytes buf offset (fp_size T)) (\<lambda>val. Inr ([TNumber (fp_load T (le_nat val))], h))))"

definition buffer_writefp :: "fp_type \<Rightarrow> numconv \<Rightarrow> bufop" where
  "buffer_writefp T cv h args =
     bindE (luaL_checkbuffer h args 1) (\<lambda>(a, buf).
     bindE (luaL_checkinteger cv args 2) (\<lambda>offset.
     bindE (luaL_checknumber cv args 3) (\<lambda>value.
     if isoutofbounds offset (length buf) (fp_size T) then Inl access_error
     else
       bindE (write_bytes buf offset (le_bytes (fp_size T) (fp_store T value))) (\<lambda>buf.
       Inr ([], h[a := buf])))))"

definition buffer_readstring :: "numconv \<Rightarrow> bufop" where
  "buffer_readstring cv h args =
     bindE (luaL_checkbuffer h args 1) (\<lambda>(a, buf).
     bindE (luaL_checkinteger cv args 2) (\<lambda>offset.
     bindE (luaL_checkinteger cv args 3) (\<lambda>size.
     bindE (guardE (size \<ge> 0) (ArgError 3 ''size'')) (\<lambda>_.
     if isoutofbounds offset (length buf) (nat size) then Inl access_error
     else bindE (read_bytes buf offset (nat size)) (\<lambda>s. Inr ([TString s], h))))))"

definition buffer_writestring :: "numconv \<Rightarrow> bufop" where
  "buffer_writestring cv h args =
     bindE (luaL_checkbuffer h args 1) (\<lambda>(a, buf).
     bindE (luaL_checkinteger cv args 2) (\<lambda>offset.
     bindE (luaL_checklstring cv args 3) (\<lambda>val.
     bindE (luaL_optinteger cv args 4 (sint (of_nat (length val) :: u32))) (\<lambda>count.
     bindE (guardE (count \<ge> 0) (ArgError 4 ''count'')) (\<lambda>_.
     if nat count > length val then Inl (RunError ''string length overflow'')
     else if isoutofbounds offset (length buf) (nat count) then Inl access_error
     else
       bindE (read_bytes val 0 (nat count)) (\<lambda>src.
       bindE (write_bytes buf offset src) (\<lambda>buf. Inr ([], h[a := buf]))))))))"

definition buffer_len :: bufop where
  "buffer_len h args =
     bindE (luaL_checkbuffer h args 1) (\<lambda>(a, buf).
     Inr ([TNumber (d_of_int (int (length buf) mod 2 ^ 32))], h))"

text \<open>The default size is computed before the argument is looked at.\<close>

definition buffer_copy :: "numconv \<Rightarrow> bufop" where
  "buffer_copy cv h args =
     bindE (luaL_checkbuffer h args 1) (\<lambda>(ta, tbuf).
     bindE (luaL_checkinteger cv args 2) (\<lambda>toffset.
     bindE (luaL_checkbuffer h args 3) (\<lambda>(sa, sbuf).
     bindE (luaL_optinteger cv args 4 0) (\<lambda>soffset.
     bindE (c_int (int (length sbuf) - soffset)) (\<lambda>rest.
     bindE (luaL_optinteger cv args 5 rest) (\<lambda>size.
     if size < 0 then Inl access_error
     else if isoutofbounds soffset (length sbuf) (nat size) then Inl access_error
     else if isoutofbounds toffset (length tbuf) (nat size) then Inl access_error
     else
       bindE (read_bytes sbuf soffset (nat size)) (\<lambda>bs.
       bindE (write_bytes tbuf toffset bs) (\<lambda>tbuf. Inr ([], h[ta := tbuf])))))))))"

definition buffer_fill :: "numconv \<Rightarrow> bufop" where
  "buffer_fill cv h args =
     bindE (luaL_checkbuffer h args 1) (\<lambda>(a, buf).
     bindE (luaL_checkinteger cv args 2) (\<lambda>offset.
     bindE (luaL_checkunsigned cv args 3) (\<lambda>value.
     bindE (c_int (int (length buf) - offset)) (\<lambda>rest.
     bindE (luaL_optinteger cv args 4 rest) (\<lambda>size.
     if size < 0 then Inl access_error
     else if isoutofbounds offset (length buf) (nat size) then Inl access_error
     else
       bindE (write_bytes buf offset (replicate (nat size) (ucast (value AND 0xff)))) (\<lambda>buf.
       Inr ([], h[a := buf])))))))"

text \<open>
  The bit accesses go through a 64-bit temporary. \<open>bit_window\<close> is their common beginning: the
  offset, the guards in the order of the code, and the bytes that hold the field.
\<close>

definition checkbitoffset :: "numconv \<Rightarrow> TValue list \<Rightarrow> lua_error + int" where
  "checkbitoffset cv args =
     bindE (luaL_checknumber cv args 2) (\<lambda>d.
       case luai_num2long d of Some i \<Rightarrow> Inr i | None \<Rightarrow> Inl (Undefined ''double to int64_t''))"

definition bit_window :: "byte list \<Rightarrow> int \<Rightarrow> int \<Rightarrow> lua_error + int \<times> u64 \<times> nat" where
  "bit_window buf bitoffset bitcount =
     (if bitoffset < 0 then Inl access_error
      else if bitcount mod 2 ^ 32 > 32 then Inl (RunError ''bit count is out of range of [0; 32]'')
      else
        bindE (c_int64 (bitoffset + bitcount)) (\<lambda>e.
        if e > int (length buf) * 8 then Inl access_error
        else
          let startbyte = bitoffset div 8; endbyte = (e + 7) div 8; n = nat (endbyte - startbyte) in
          bindE (guardE (n \<le> 8) out_of_bounds) (\<lambda>_.
          bindE (read_bytes buf startbyte n) (\<lambda>bs. Inr (startbyte, of_nat (le_nat bs), n)))))"

definition buffer_readbits :: "numconv \<Rightarrow> bufop" where
  "buffer_readbits cv h args =
     bindE (luaL_checkbuffer h args 1) (\<lambda>(a, buf).
     bindE (checkbitoffset cv args) (\<lambda>bitoffset.
     bindE (luaL_checkinteger cv args 3) (\<lambda>bitcount.
     bindE (bit_window buf bitoffset bitcount) (\<lambda>(startbyte, data, n).
     let subbyteoffset = nat (bitoffset mod 8); msk = push_bit (nat bitcount) 1 - 1 in
     Inr ([lua_pushunsigned (ucast (drop_bit subbyteoffset data AND msk))], h)))))"

definition buffer_writebits :: "numconv \<Rightarrow> bufop" where
  "buffer_writebits cv h args =
     bindE (luaL_checkbuffer h args 1) (\<lambda>(a, buf).
     bindE (checkbitoffset cv args) (\<lambda>bitoffset.
     bindE (luaL_checkinteger cv args 3) (\<lambda>bitcount.
     bindE (luaL_checkunsigned cv args 4) (\<lambda>value.
     bindE (bit_window buf bitoffset bitcount) (\<lambda>(startbyte, data, n).
     let subbyteoffset = nat (bitoffset mod 8);
         msk = push_bit subbyteoffset (push_bit (nat bitcount) 1 - 1);
         data = (data AND NOT msk) OR (push_bit subbyteoffset (ucast value) AND msk)
     in bindE (write_bytes buf startbyte (le_bytes n (unat data))) (\<lambda>buf. Inr ([], h[a := buf])))))))"

text \<open>The table of the library; \<open>FFlag::LuauIntegerLibrary\<close> adds the last two entries.\<close>

definition bufferlib :: "bool \<Rightarrow> numconv \<Rightarrow> (string \<times> bufop) list" where
  "bufferlib LuauIntegerLibrary cv =
     [(''create'', buffer_create cv), (''fromstring'', buffer_fromstring cv), (''tostring'', buffer_tostring),
      (''readi8'', buffer_readinteger int8_t cv), (''readu8'', buffer_readinteger uint8_t cv),
      (''readi16'', buffer_readinteger int16_t cv), (''readu16'', buffer_readinteger uint16_t cv),
      (''readi32'', buffer_readinteger int32_t cv), (''readu32'', buffer_readinteger uint32_t cv),
      (''readf32'', buffer_readfp fp_float cv), (''readf64'', buffer_readfp fp_double cv),
      (''writei8'', buffer_writeinteger int8_t cv), (''writeu8'', buffer_writeinteger uint8_t cv),
      (''writei16'', buffer_writeinteger int16_t cv), (''writeu16'', buffer_writeinteger uint16_t cv),
      (''writei32'', buffer_writeinteger int32_t cv), (''writeu32'', buffer_writeinteger uint32_t cv),
      (''writef32'', buffer_writefp fp_float cv), (''writef64'', buffer_writefp fp_double cv),
      (''readstring'', buffer_readstring cv), (''writestring'', buffer_writestring cv),
      (''len'', buffer_len), (''copy'', buffer_copy cv), (''fill'', buffer_fill cv),
      (''readbits'', buffer_readbits cv), (''writebits'', buffer_writebits cv)] @
     (if LuauIntegerLibrary
      then [(''readinteger'', buffer_readlong cv), (''writeinteger'', buffer_writelong cv)] else [])"

section \<open>Bytes\<close>

lemma length_le_bytes [simp]: "length (le_bytes n v) = n"
  by (induction n arbitrary: v) simp_all

lemma le_nat_le_bytes: "le_nat (le_bytes n v) = v mod 256 ^ n"
proof (induction n arbitrary: v)
  case (Suc n)
  have "unat (of_nat v :: byte) = v mod 256" by (simp add: unat_of_nat)
  then show ?case using Suc by (simp add: mod_mult2_eq)
qed simp

lemma le_nat_less: "le_nat bs < 256 ^ length bs"
proof (induction bs)
  case (Cons b bs)
  have "unat b < 256" using unsigned_less [of b, where 'a = nat] by simp
  then show ?case using Cons by simp
qed simp

lemma le_bytes_le_nat: "le_bytes (length bs) (le_nat bs) = bs"
proof (induction bs)
  case (Cons b bs)
  have b: "unat b < 256" using unsigned_less [of b, where 'a = nat] by simp
  have "(unat b + 256 * le_nat bs) div 256 = le_nat bs" using b by simp
  moreover have "of_nat (unat b + 256 * le_nat bs) = b"
    by (rule word_unat_eq_iff [THEN iffD2]) (use b in \<open>simp add: unat_of_nat del: of_nat_add of_nat_mult\<close>)
  ultimately show ?case using Cons by simp
qed simp

lemma length_splice [simp]: "off + length bs \<le> length buf \<Longrightarrow> length (splice buf off bs) = length buf"
  by (simp add: splice_def)

lemma nth_splice:
  "off + length bs \<le> length buf \<Longrightarrow> i < length buf \<Longrightarrow>
     splice buf off bs ! i = (if off \<le> i \<and> i < off + length bs then bs ! (i - off) else buf ! i)"
  by (auto simp: splice_def nth_append min_def)

lemma take_drop_splice:
  "off + length bs \<le> length buf \<Longrightarrow> take (length bs) (drop off (splice buf off bs)) = bs"
  by (simp add: splice_def)

lemma write_bytes_Inr:
  "write_bytes buf off bs = Inr buf' \<longleftrightarrow>
     0 \<le> off \<and> off + int (length bs) \<le> int (length buf) \<and> buf' = splice buf (nat off) bs"
  by (auto simp: write_bytes_def)

lemma read_bytes_Inr:
  "read_bytes buf off n = Inr bs \<longleftrightarrow>
     0 \<le> off \<and> off + int n \<le> int (length buf) \<and> bs = take n (drop (nat off) buf)"
  by (auto simp: read_bytes_def)

lemma length_write_bytes: "write_bytes buf off bs = Inr buf' \<Longrightarrow> length buf' = length buf"
  by (auto simp: write_bytes_Inr)

lemma length_read_bytes: "read_bytes buf off n = Inr bs \<Longrightarrow> length bs = n"
  by (auto simp: read_bytes_Inr)

lemma read_after_write:
  "write_bytes buf off bs = Inr buf' \<Longrightarrow> read_bytes buf' off (length bs) = Inr bs"
  by (auto simp: write_bytes_Inr read_bytes_Inr take_drop_splice)

section \<open>Element types keep their promise\<close>

text \<open>
  What the library relies on in an element type: a stored element is determined by the \<open>size\<close> bytes
  written for it, and loading them gives the normal form of the value.
\<close>

locale element =
  fixes size :: nat and store :: "'a \<Rightarrow> nat" and load :: "nat \<Rightarrow> 'b" and norm :: "'a \<Rightarrow> 'b"
  assumes load_store: "load (store v mod 256 ^ size) = norm v"
begin

lemma write_then_read:
  assumes "write_bytes buf off (le_bytes size (store v)) = Inr buf'"
  shows "\<exists>bs. read_bytes buf' off size = Inr bs \<and> load (le_nat bs) = norm v"
  using read_after_write [OF assms] by (simp add: le_nat_le_bytes load_store)

end

definition int_norm :: "int_type \<Rightarrow> int \<Rightarrow> int" where
  "int_norm T v =
     (if type_signed T then signed_take_bit (8 * type_size T - 1) v else take_bit (8 * type_size T) v)"

lemma pow256: "(256 :: nat) ^ n = 2 ^ (8 * n)"
  by (simp add: power_mult)

lemma type_cast_less: "type_cast T v < 2 ^ (8 * type_size T)"
  by (simp add: type_cast_def nat_less_iff)

lemma signed_take_bit_cases:
  "signed_take_bit n (k :: int) =
     (if 2 ^ n \<le> take_bit (Suc n) k then take_bit (Suc n) k - 2 ^ Suc n else take_bit (Suc n) k)"
  using take_bit_int_less_exp [of n k] take_bit_nonnegative [of n k]
  by (cases "bit k n") (simp_all add: signed_take_bit_eq_take_bit_minus take_bit_Suc_from_most not_le)

lemma type_value_cast: "type_value T (type_cast T v) = int_norm T v"
proof -
  have s: "0 < 8 * type_size T" by (cases T) simp_all
  have i: "int (type_cast T v) = take_bit (8 * type_size T) v"
    by (simp add: type_cast_def take_bit_eq_mod)
  then have "2 ^ (8 * type_size T - 1) \<le> type_cast T v \<longleftrightarrow>
      2 ^ (8 * type_size T - 1) \<le> take_bit (8 * type_size T) v"
    by (metis of_nat_le_iff of_nat_numeral of_nat_power)
  then show ?thesis using i s
    by (simp add: type_value_def int_norm_def signed_take_bit_cases)
qed

lemma u64_of_nat_mod: "of_nat (unat w mod 18446744073709551616) = (w :: u64)"
  using unsigned_less [of w, where 'a = nat] by simp

interpretation int_element: element "type_size T" "type_cast T" "type_value T" "int_norm T" for T
  by unfold_locales (simp add: pow256 type_cast_less type_value_cast)

interpretation double_element: element "fp_size fp_double" "fp_store fp_double" "fp_load fp_double" id
  by unfold_locales (simp add: u64_of_nat_mod)

interpretation long_element: element 8 unat of_nat "id :: u64 \<Rightarrow> u64"
  by unfold_locales (simp add: u64_of_nat_mod)

section \<open>Bounds\<close>

lemma isoutofbounds_iff:
  assumes "in_int32 offset" and "len \<le> MAX_BUFFER_SIZE"
  shows "isoutofbounds offset len n \<longleftrightarrow> \<not> (0 \<le> offset \<and> offset + int n \<le> int len)"
proof (cases "0 \<le> offset")
  case True
  then have "offset mod 2 ^ 32 = offset" using assms by (simp add: in_int32_def)
  then show ?thesis using True by (simp add: isoutofbounds_def) linarith
next
  case False
  have "offset mod 2 ^ 32 = (offset + 2 ^ 32) mod 2 ^ 32" by simp
  also have "\<dots> = offset + 2 ^ 32" using False assms by (intro mod_pos_pos_trivial) (simp_all add: in_int32_def)
  finally have "offset mod 2 ^ 32 = offset + 2 ^ 32" .
  then show ?thesis using False assms by (simp add: isoutofbounds_def in_int32_def)
qed

lemma checkinteger_int32: "luaL_checkinteger cv args n = Inr i \<Longrightarrow> in_int32 i"
  by (auto simp: luaL_checkinteger_def bindE_eq_Inr_iff luai_num2int_def split: if_splits)

lemma optinteger_int32: "luaL_optinteger cv args n d = Inr i \<Longrightarrow> in_int32 d \<Longrightarrow> in_int32 i"
  by (auto simp: luaL_optinteger_def checkinteger_int32 split: if_splits)

lemma checkbuffer_TBuffer [simp]:
  "arg args n = Some (TBuffer a) \<Longrightarrow> a < length h \<Longrightarrow> luaL_checkbuffer h args n = Inr (a, h ! a)"
  by (simp add: luaL_checkbuffer_def)

lemma checkbuffer_Inr:
  "luaL_checkbuffer h args n = Inr (a, buf) \<Longrightarrow> a < length h \<and> buf = h ! a"
  by (auto simp: luaL_checkbuffer_def split: option.splits TValue.splits lua_gctype.splits if_splits)

text \<open>What an operation on buffer \<open>a\<close> leaves alone: all bytes outside of \<open>n\<close> bytes from \<open>off\<close>.\<close>

definition same_outside :: "heap \<Rightarrow> heap \<Rightarrow> nat \<Rightarrow> int \<Rightarrow> nat \<Rightarrow> bool" where
  "same_outside h h' a off n \<longleftrightarrow>
     map length h' = map length h \<and>
     (\<forall>b<length h. \<forall>i<length (h ! b).
        b \<noteq> a \<or> int i < off \<or> off + int n \<le> int i \<longrightarrow> h' ! b ! i = h ! b ! i)"

lemma same_outside_write:
  assumes "write_bytes (h ! a) off bs = Inr buf" and "a < length h"
  shows "same_outside h (h[a := buf]) a off (length bs)"
proof -
  have "map length (h[a := buf]) = map length h"
    using assms by (simp add: map_update length_write_bytes list_update_same_conv)
  then show ?thesis
    using assms by (auto simp: same_outside_def nth_list_update write_bytes_Inr nth_splice)
qed

section \<open>Properties\<close>

text \<open>\<open>buffer.writeT\<close> and \<open>buffer.readT\<close> for the six integer element types: inside the buffer, a
  read after a write gives the value reduced to the type (two's complement for the signed ones), and
  nothing but the written bytes changes, in any buffer; an access that does not fit is the access error
  for both, for negative offsets too.\<close>

theorem buffer_integer_access:
  assumes "a < length h" and "length (h ! a) \<le> MAX_BUFFER_SIZE" and "in_int32 off"
  shows "if 0 \<le> off \<and> off + int (type_size T) \<le> int (length (h ! a)) then
      \<exists>h'. buffer_writeinteger T cv h [TBuffer a, lua_pushinteger off, lua_pushunsigned v] = Inr ([], h') \<and>
        buffer_readinteger T cv h' [TBuffer a, lua_pushinteger off] =
          Inr ([lua_pushinteger (int_norm T (sint v))], h') \<and>
        same_outside h h' a off (type_size T)
    else
      buffer_writeinteger T cv h [TBuffer a, lua_pushinteger off, lua_pushunsigned v] = Inl access_error \<and>
      buffer_readinteger T cv h [TBuffer a, lua_pushinteger off] = Inl access_error"
proof (cases "0 \<le> off \<and> off + int (type_size T) \<le> int (length (h ! a))")
  case True
  then obtain buf where w: "write_bytes (h ! a) off (le_bytes (type_size T) (type_cast T (sint v))) = Inr buf"
    by (simp add: write_bytes_def)
  obtain bs where r: "read_bytes buf off (type_size T) = Inr bs" "type_value T (le_nat bs) = int_norm T (sint v)"
    using int_element.write_then_read [OF w] by blast
  have ok: "\<not> isoutofbounds off (length (h ! a)) (type_size T)" using True assms by (simp add: isoutofbounds_iff)
  have "same_outside h (h[a := buf]) a off (type_size T)" using same_outside_write [OF w assms(1)] by simp
  then show ?thesis using True assms ok w r length_write_bytes [OF w]
    by (simp add: buffer_writeinteger_def buffer_readinteger_def lua_pushinteger_def [symmetric])
next
  case False
  then show ?thesis using assms
    by (auto simp: buffer_writeinteger_def buffer_readinteger_def isoutofbounds_iff)
qed

theorem buffer_integer_access_witness:
  "\<exists>h'. buffer_writeinteger int16_t no_conv [[1, 2, 3, 4]] [TBuffer 0, lua_pushinteger 1, lua_pushunsigned 0x1FFFE] =
      Inr ([], h') \<and>
    buffer_readinteger int16_t no_conv h' [TBuffer 0, lua_pushinteger 1] = Inr ([lua_pushinteger (- 2)], h') \<and>
    same_outside [[1, 2, 3, 4]] h' 0 1 2"
  using buffer_integer_access [of 0 "[[1, 2, 3, 4]]" 1 int16_t no_conv "0x1FFFE"]
  by (simp add: in_int32_def int_norm_def signed_take_bit_cases take_bit_eq_mod)

section \<open>Memory safety\<close>

definition heap_ok :: "heap \<Rightarrow> bool" where
  "heap_ok h \<longleftrightarrow> (\<forall>buf\<in>set h. length buf \<le> MAX_BUFFER_SIZE)"

text \<open>Every buffer among the values is allocated.\<close>

definition refs_ok :: "heap \<Rightarrow> TValue list \<Rightarrow> bool" where
  "refs_ok h vs \<longleftrightarrow> (\<forall>a. TBuffer a \<in> set vs \<longrightarrow> a < length h)"

definition unsafe :: "lua_error \<Rightarrow> bool" where
  "unsafe e \<longleftrightarrow> e = out_of_bounds \<or> e = Undefined ''dangling reference''"

text \<open>An outcome of a call from heap \<open>h\<close> that keeps the promises of the library.\<close>

definition good_outcome :: "heap \<Rightarrow> lua_error + TValue list \<times> heap \<Rightarrow> bool" where
  "good_outcome h r \<longleftrightarrow>
     (case r of
        Inl e \<Rightarrow> \<not> unsafe e
      | Inr (vs, h') \<Rightarrow> heap_ok h' \<and> refs_ok h' vs \<and> length h \<le> length h' \<and>
          (\<forall>a<length h. length (h' ! a) = length (h ! a)))"

lemma good_outcome_Inl [simp]: "good_outcome h (Inl e) \<longleftrightarrow> \<not> unsafe e"
  by (simp add: good_outcome_def)

lemma unsafe_simps [simp]:
  "\<not> unsafe (ArgError n s)" "\<not> unsafe (TypeError n s)" "\<not> unsafe (RunError s)"
  "\<not> unsafe (Undefined ''signed overflow'')" "\<not> unsafe (Undefined ''double to int'')"
  "\<not> unsafe (Undefined ''double to long long'')" "\<not> unsafe (Undefined ''double to int64_t'')"
  by (simp_all add: unsafe_def)

lemma good_outcome_bind:
  "(\<And>e. m = Inl e \<Longrightarrow> \<not> unsafe e) \<Longrightarrow> (\<And>x. m = Inr x \<Longrightarrow> good_outcome h (f x)) \<Longrightarrow>
     good_outcome h (bindE m f)"
  by (cases m) simp_all

lemma good_outcome_read: "heap_ok h \<Longrightarrow> refs_ok h vs \<Longrightarrow> good_outcome h (Inr (vs, h))"
  by (simp add: good_outcome_def)

lemma refs_ok_simps [simp]:
  "refs_ok h []" "refs_ok h [TNumber d]" "refs_ok h [TInteger i]" "refs_ok h [TString s]"
  "refs_ok h [lua_pushunsigned u]" "refs_ok h [lua_pushinteger64 w]"
  "refs_ok h [TBuffer a] \<longleftrightarrow> a < length h"
  by (auto simp: refs_ok_def lua_pushunsigned_def lua_pushinteger64_def)

lemma good_outcome_write:
  assumes "heap_ok h" and "a < length h" and "length buf = length (h ! a)"
  shows "good_outcome h (Inr ([], h[a := buf]))"
proof -
  have "heap_ok (h[a := buf])"
    using assms set_update_subset_insert [of h a buf] nth_mem [of a h] by (auto simp: heap_ok_def)
  then show ?thesis using assms by (simp add: good_outcome_def nth_list_update)
qed

lemma checks_not_unsafe:
  "luaL_checkinteger cv args n = Inl e \<Longrightarrow> \<not> unsafe e"
  "luaL_optinteger cv args n d = Inl e \<Longrightarrow> \<not> unsafe e"
  "luaL_checknumber cv args n = Inl e \<Longrightarrow> \<not> unsafe e"
  "luaL_checkunsigned cv args n = Inl e \<Longrightarrow> \<not> unsafe e"
  "luaL_checkinteger64 args n = Inl e \<Longrightarrow> \<not> unsafe e"
  "luaL_checklstring cv args n = Inl e \<Longrightarrow> \<not> unsafe e"
  "checkbitoffset cv args = Inl e \<Longrightarrow> \<not> unsafe e"
  "c_int i = Inl e \<Longrightarrow> \<not> unsafe e"
  by (auto simp: luaL_checkinteger_def luaL_optinteger_def luaL_checkunsigned_def luaL_checknumber_def
      luaL_checkinteger64_def luaL_checklstring_def checkbitoffset_def c_int_def bindE_eq_Inl_iff
      split: option.splits TValue.splits if_splits)

lemma checkbuffer_not_unsafe:
  "refs_ok h args \<Longrightarrow> luaL_checkbuffer h args n = Inl e \<Longrightarrow> \<not> unsafe e"
  by (auto simp: luaL_checkbuffer_def refs_ok_def arg_def
      split: option.splits TValue.splits lua_gctype.splits if_splits)
    (metis One_nat_def Suc_pred diff_Suc_less less_le_trans nth_mem not_le linorder_not_less Suc_le_eq)

lemma heap_ok_nth: "heap_ok h \<Longrightarrow> a < length h \<Longrightarrow> length (h ! a) \<le> MAX_BUFFER_SIZE"
  by (simp add: heap_ok_def)

lemma read_in_bounds:
  "\<not> isoutofbounds off (length buf) n \<Longrightarrow> in_int32 off \<Longrightarrow> length buf \<le> MAX_BUFFER_SIZE \<Longrightarrow>
     read_bytes buf off n = Inr (take n (drop (nat off) buf))"
  by (simp add: isoutofbounds_iff read_bytes_def)

lemma write_in_bounds:
  "\<not> isoutofbounds off (length buf) (length bs) \<Longrightarrow> in_int32 off \<Longrightarrow> length buf \<le> MAX_BUFFER_SIZE \<Longrightarrow>
     write_bytes buf off bs = Inr (splice buf (nat off) bs) \<and> nat off + length bs \<le> length buf"
  by (auto simp: isoutofbounds_iff write_bytes_def)

lemmas buffer_access_rules =
  checkbuffer_not_unsafe checks_not_unsafe good_outcome_read good_outcome_write heap_ok_nth
  checkinteger_int32 optinteger_int32 read_in_bounds write_in_bounds


lemma good_outcome_checkbuffer:
  assumes "refs_ok h args" and "\<And>a. a < length h \<Longrightarrow> good_outcome h (f (a, h ! a))"
  shows "good_outcome h (bindE (luaL_checkbuffer h args n) f)"
  using assms checkbuffer_Inr [of h args n]
  by (auto intro!: good_outcome_bind dest: checkbuffer_not_unsafe)

lemma good_outcome_checks:
  assumes "\<And>i. in_int32 i \<Longrightarrow> good_outcome h (f i)"
  shows "good_outcome h (bindE (luaL_checkinteger cv args n) f)"
    and "in_int32 d \<Longrightarrow> good_outcome h (bindE (luaL_optinteger cv args n d) f)"
    and "good_outcome h (bindE (c_int i) f)"
  using assms by (auto intro!: good_outcome_bind dest: checks_not_unsafe checkinteger_int32 optinteger_int32)

lemma good_outcome_values:
  "(\<And>u. good_outcome h (f1 u)) \<Longrightarrow> good_outcome h (bindE (luaL_checkunsigned cv args n) f1)"
  "(\<And>w. good_outcome h (f2 w)) \<Longrightarrow> good_outcome h (bindE (luaL_checkinteger64 args n) f2)"
  "(\<And>d. good_outcome h (f3 d)) \<Longrightarrow> good_outcome h (bindE (luaL_checknumber cv args n) f3)"
  "(\<And>s. good_outcome h (f4 s)) \<Longrightarrow> good_outcome h (bindE (luaL_checklstring cv args n) f4)"
  "(\<And>i. good_outcome h (f5 i)) \<Longrightarrow> good_outcome h (bindE (checkbitoffset cv args) f5)"
  "\<not> unsafe e \<Longrightarrow> (b \<Longrightarrow> good_outcome h (f6 ())) \<Longrightarrow> good_outcome h (bindE (guardE b e) f6)"
  by (auto intro!: good_outcome_bind dest: checks_not_unsafe)

lemma good_outcome_if:
  "(b \<Longrightarrow> good_outcome h x) \<Longrightarrow> (\<not> b \<Longrightarrow> good_outcome h y) \<Longrightarrow> good_outcome h (if b then x else y)"
  by simp

lemma good_outcome_memread:
  assumes "\<not> isoutofbounds off (length buf) n" "in_int32 off" "length buf \<le> MAX_BUFFER_SIZE"
    and "\<And>bs. length bs = n \<Longrightarrow> good_outcome h (f bs)"
  shows "good_outcome h (bindE (read_bytes buf off n) f)"
  using read_in_bounds [OF assms(1-3)] length_read_bytes [of buf off n] assms(4) by simp

lemma good_outcome_memwrite:
  assumes "\<not> isoutofbounds off (length (h ! a)) n" "in_int32 off" "heap_ok h" "a < length h" "length bs = n"
  shows "good_outcome h (bindE (write_bytes (h ! a) off bs) (\<lambda>buf. Inr ([], h[a := buf])))"
  using assms write_in_bounds [of off "h ! a" bs] heap_ok_nth [of h a]
  by (auto intro!: good_outcome_write)

lemma good_outcome_alloc:
  assumes "heap_ok h" "length buf \<le> MAX_BUFFER_SIZE"
  shows "good_outcome h (Inr ([TBuffer (length h)], h @ [buf]))"
  using assms by (auto simp: good_outcome_def heap_ok_def nth_append)

lemmas good_outcome_rules =
  good_outcome_checkbuffer good_outcome_checks good_outcome_values good_outcome_if
  good_outcome_memread good_outcome_memwrite

lemma good_creators:
  assumes "heap_ok h"
  shows "good_outcome h (buffer_create cv h args)" "good_outcome h (buffer_fromstring cv h args)"
  using assms
  by (auto simp: buffer_create_def buffer_fromstring_def luaB_newbuffer_def write_bytes_def nth_append
      splice_def intro!: good_outcome_checks good_outcome_values good_outcome_alloc)

lemma good_readers:
  assumes "heap_ok h" "refs_ok h args"
  shows "good_outcome h (buffer_tostring h args)" "good_outcome h (buffer_len h args)"
    "good_outcome h (buffer_readinteger T cv h args)" "good_outcome h (buffer_readlong cv h args)"
    "good_outcome h (buffer_readfp F cv h args)" "good_outcome h (buffer_readstring cv h args)"
  unfolding buffer_tostring_def buffer_len_def buffer_readinteger_def buffer_readlong_def
    buffer_readfp_def buffer_readstring_def
  using assms by (auto intro!: good_outcome_rules good_outcome_read heap_ok_nth)

lemma good_writers:
  assumes "heap_ok h" "refs_ok h args"
  shows "good_outcome h (buffer_writeinteger T cv h args)" "good_outcome h (buffer_writelong cv h args)"
    "good_outcome h (buffer_writefp F cv h args)"
  unfolding buffer_writeinteger_def buffer_writelong_def buffer_writefp_def Let_def
  using assms by (auto intro!: good_outcome_rules)

lemma in_int32_0 [simp]: "in_int32 0"
  by (simp add: in_int32_def)

lemma good_outcome_c_int:
  "(in_int32 i \<Longrightarrow> good_outcome h (f i)) \<Longrightarrow> good_outcome h (bindE (c_int i) f)"
  by (auto intro!: good_outcome_bind dest: checks_not_unsafe)

lemma good_string_writer:
  assumes "heap_ok h" "refs_ok h args"
  shows "good_outcome h (buffer_writestring cv h args)"
  unfolding buffer_writestring_def
  using assms
  by (auto simp: read_bytes_def intro!: good_outcome_checkbuffer good_outcome_checks good_outcome_values
      good_outcome_if good_outcome_memwrite)

lemma good_movers:
  assumes "heap_ok h" "refs_ok h args"
  shows "good_outcome h (buffer_copy cv h args)" "good_outcome h (buffer_fill cv h args)"
  unfolding buffer_copy_def buffer_fill_def
  using assms
  by (auto intro!: good_outcome_checkbuffer good_outcome_checks(1,2) good_outcome_c_int good_outcome_values
      good_outcome_if good_outcome_memread good_outcome_memwrite heap_ok_nth simp del: if_split)

section \<open>Bit fields\<close>

lemma bit_window_eq:
  assumes "c \<le> 32" and "p + c \<le> 8 * length buf" and "length buf \<le> MAX_BUFFER_SIZE"
    and n: "n = (p + c + 7) div 8 - p div 8"
  shows "bit_window buf (int p) (int c) =
      Inr (int (p div 8), of_nat (le_nat (take n (drop (p div 8) buf))), n)"
    and "p div 8 + n \<le> length buf" and "n \<le> 8" and "p mod 8 + c \<le> 8 * n"
proof -
  show le: "p div 8 + n \<le> length buf" and n8: "n \<le> 8"
    using assms by linarith+
  have "p + c \<le> 8 * ((p + c + 7) div 8)" "p div 8 \<le> (p + c + 7) div 8" "p mod 8 + 8 * (p div 8) = p"
    by (simp_all add: div_le_mono)
  then show "p mod 8 + c \<le> 8 * n" unfolding n diff_mult_distrib2 by linarith
  have i: "in_int64 (int p + int c)" using assms by (simp add: in_int64_def)
  have e: "(int p + int c + 7) div 8 - int p div 8 = int n"
    using n by (simp add: of_nat_diff div_le_mono zdiv_int)
  have q: "int p div 8 = int (p div 8)" by (simp add: zdiv_int)
  have "bit_window buf (int p) (int c) =
      bindE (guardE (nat ((int p + int c + 7) div 8 - int p div 8) \<le> 8) out_of_bounds) (\<lambda>_.
        bindE (read_bytes buf (int p div 8) (nat ((int p + int c + 7) div 8 - int p div 8)))
          (\<lambda>bs. Inr (int p div 8, of_nat (le_nat bs), nat ((int p + int c + 7) div 8 - int p div 8))))"
    using assms i by (simp add: bit_window_def Let_def c_int64_ok)
  then show "bit_window buf (int p) (int c) =
      Inr (int (p div 8), of_nat (le_nat (take n (drop (p div 8) buf))), n)"
    using n8 le unfolding e by (simp add: read_bytes_def q del: of_nat_div)
qed

lemma bit_window_cases:
  assumes "length buf \<le> MAX_BUFFER_SIZE" and "in_int32 bitcount"
  shows "(\<exists>e. bit_window buf bitoffset bitcount = Inl e \<and> \<not> unsafe e) \<or>
    (\<exists>p c. bitoffset = int p \<and> bitcount = int c \<and> c \<le> 32 \<and> p + c \<le> 8 * length buf)"
proof (cases "0 \<le> bitoffset \<and> bitcount mod 2 ^ 32 \<le> 32 \<and> bitoffset + bitcount \<le> int (length buf) * 8")
  case True
  have "0 \<le> bitcount \<and> bitcount \<le> 32"
  proof (cases "0 \<le> bitcount")
    case True
    then have "bitcount mod 2 ^ 32 = bitcount" using assms(2) by (simp add: in_int32_def)
    then show ?thesis using \<open>0 \<le> bitoffset \<and> _\<close> True by simp
  next
    case False
    have "bitcount mod 2 ^ 32 = (bitcount + 2 ^ 32) mod 2 ^ 32" by simp
    also have "\<dots> = bitcount + 2 ^ 32"
      using False assms(2) by (intro mod_pos_pos_trivial) (simp_all add: in_int32_def)
    finally show ?thesis using True assms(2) by (simp add: in_int32_def)
  qed
  then have "bitoffset = int (nat bitoffset) \<and> bitcount = int (nat bitcount) \<and> nat bitcount \<le> 32 \<and>
      nat bitoffset + nat bitcount \<le> 8 * length buf" using True by auto
  then show ?thesis by blast
next
  case False
  then show ?thesis by (auto simp: bit_window_def c_int64_def)
qed

lemma good_bits:
  assumes "heap_ok h" "refs_ok h args"
  shows "good_outcome h (buffer_readbits cv h args)" "good_outcome h (buffer_writebits cv h args)"
proof -
  have w: "good_outcome h (bindE (bit_window (h ! a) bo bc) f)"
    if "a < length h" "in_int32 bc"
      and "\<And>s d n. s + n \<le> length (h ! a) \<Longrightarrow> good_outcome h (f (int s, d, n))" for a bo bc f
  proof -
    have "length (h ! a) \<le> MAX_BUFFER_SIZE" using assms that by (simp add: heap_ok_nth)
    from bit_window_cases [OF this \<open>in_int32 bc\<close>, of bo] show ?thesis
      using bit_window_eq [OF _ _ \<open>length (h ! a) \<le> MAX_BUFFER_SIZE\<close> refl] that(3) by auto
  qed
  show "good_outcome h (buffer_readbits cv h args)"
    unfolding buffer_readbits_def Let_def using assms
    by (auto intro!: good_outcome_checkbuffer good_outcome_checks good_outcome_values w good_outcome_read)
  show "good_outcome h (buffer_writebits cv h args)"
    unfolding buffer_writebits_def Let_def using assms
    by (auto intro!: good_outcome_checkbuffer good_outcome_checks good_outcome_values w
        good_outcome_write simp: write_bytes_def)
qed

text \<open>The bits of a buffer in the order of the bit offsets.\<close>

definition buf_bit :: "byte list \<Rightarrow> nat \<Rightarrow> bool" where
  "buf_bit buf i = bit (buf ! (i div 8)) (i mod 8)"

lemma bit_byte_sum: "bit (unat b + 256 * n) i \<longleftrightarrow> (if i < 8 then bit (b :: byte) i else bit n (i - 8))"
proof -
  let ?k = "unat b + 256 * n"
  have b: "unat b < 256" using unsigned_less [of b, where 'a = nat] by simp
  then have t: "take_bit 8 ?k = unat b" and d: "drop_bit 8 ?k = n"
    by (simp_all add: take_bit_eq_mod drop_bit_eq_div)
  show ?thesis
  proof (cases "i < 8")
    case True
    then have "bit ?k i = bit (take_bit 8 ?k) i" by (simp add: bit_take_bit_iff)
    then show ?thesis unfolding t using True by (simp add: bit_unsigned_iff)
  next
    case False
    then have "bit ?k i = bit (drop_bit 8 ?k) (i - 8)" by (simp add: bit_drop_bit_eq)
    then show ?thesis unfolding d using False by simp
  qed
qed

lemma bit_le_nat: "bit (le_nat bs) i \<longleftrightarrow> i < 8 * length bs \<and> bit (bs ! (i div 8)) (i mod 8)"
proof (induction bs arbitrary: i)
  case (Cons b bs)
  show ?case
  proof (cases "i < 8")
    case False
    then obtain j where "i = j + 8" by (metis add.commute le_Suc_ex not_less)
    then show ?thesis using Cons.IH [of j] by (simp add: bit_byte_sum)
  qed (simp add: bit_byte_sum)
qed simp

lemma bit_word_of_nat: "bit (of_nat n :: 'a::len word) j \<longleftrightarrow> j < LENGTH('a) \<and> bit n j"
  by (metis bit_of_nat_iff_bit bit_word_of_int_iff of_int_of_nat_eq)

lemma bit_le_bytes: "k < n \<Longrightarrow> bit (le_bytes n v ! k) j \<longleftrightarrow> j < 8 \<and> bit v (8 * k + j)"
proof (induction n arbitrary: v k)
  case (Suc n)
  have d: "v div 256 = drop_bit 8 v" by (simp add: drop_bit_eq_div)
  show ?case
  proof (cases k)
    case 0
    then show ?thesis by (simp add: bit_word_of_nat)
  next
    case (Suc m)
    then show ?thesis using Suc.IH [of m "v div 256"] Suc.prems
      by (simp add: d bit_drop_bit_eq ac_simps)
  qed
qed simp

lemma bit_window_data:
  assumes "p div 8 + n \<le> length buf" and "n \<le> 8" and "k + p mod 8 < 8 * n"
  shows "bit (of_nat (le_nat (take n (drop (p div 8) buf))) :: u64) (k + p mod 8) = buf_bit buf (p + k)"
proof -
  have i: "(k + p mod 8) div 8 < n" using assms(3) by linarith
  have "p + k = 8 * (p div 8) + (k + p mod 8)" by simp
  then have "(p + k) div 8 = p div 8 + (k + p mod 8) div 8" "(p + k) mod 8 = (k + p mod 8) mod 8"
    by (metis div_mult_self4 zero_neq_numeral, metis mod_mult_self4)
  moreover have "min (length buf - p div 8) n = n" using assms(1) by simp
  ultimately show ?thesis using assms i by (simp add: bit_word_of_nat bit_le_nat buf_bit_def)
qed

lemma readbits_eq:
  assumes "a < length h" and "length (h ! a) \<le> MAX_BUFFER_SIZE" and "c \<le> 32" and "p + c \<le> 8 * length (h ! a)"
    and p: "p < 2 ^ 53"
  obtains y where "buffer_readbits cv h [TBuffer a, TNumber (d_of_int (int p)), lua_pushinteger (int c)] =
      Inr ([lua_pushunsigned y], h)"
    and "\<And>k. bit y k \<longleftrightarrow> k < c \<and> buf_bit (h ! a) (p + k)"
proof -
  define n where "n = (p + c + 7) div 8 - p div 8"
  note w = bit_window_eq [OF assms(3,4,2) n_def]
  define y :: u32 where "y = ucast (drop_bit (p mod 8) (of_nat (le_nat (take n (drop (p div 8) (h ! a)))) :: u64)
    AND (push_bit c 1 - 1))"
  have o: "checkbitoffset cv [TBuffer a, TNumber (d_of_int (int p)), lua_pushinteger (int c)] = Inr (int p)"
    using p by (simp add: checkbitoffset_def luaL_checknumber_def luaV_tonumber_def luai_num2long_def
        d_of_int_exact in_int64_def)
  have "in_int32 (int c)" using assms by (simp add: in_int32_def)
  then have "buffer_readbits cv h [TBuffer a, TNumber (d_of_int (int p)), lua_pushinteger (int c)] =
      Inr ([lua_pushunsigned y], h)"
    using assms(1) o w(1) by (simp add: buffer_readbits_def y_def Let_def nat_mod_distrib)
  moreover have "bit y k \<longleftrightarrow> k < c \<and> buf_bit (h ! a) (p + k)" for k
  proof (cases "k < c")
    case True
    then show ?thesis using assms(3) w(2-4) bit_window_data [of p n "h ! a" k]
      by (simp add: y_def bit_simps add.commute flip: mask_eq_exp_minus_1)
  next
    case False
    then show ?thesis by (simp add: y_def bit_simps flip: mask_eq_exp_minus_1)
  qed
  ultimately show thesis using that by blast
qed

lemma buf_bit_splice:
  assumes "s + n \<le> length buf" and "i < 8 * length buf" and "n \<le> 8"
  shows "buf_bit (splice buf s (le_bytes n (unat (w :: u64)))) i =
    (if 8 * s \<le> i \<and> i < 8 * (s + n) then bit w (i - 8 * s) else buf_bit buf i)"
proof (cases "8 * s \<le> i \<and> i < 8 * (s + n)")
  case True
  then obtain j where j: "i = 8 * s + j" "j < 8 * n" by (auto simp: le_iff_add)
  then have "i div 8 = s + j div 8" "i mod 8 = j mod 8" "j div 8 < n" by auto
  then show ?thesis using assms j by (simp add: buf_bit_def nth_splice bit_le_bytes bit_unsigned_iff)
next
  case False
  then have "\<not> (s \<le> i div 8 \<and> i div 8 < s + n)" by auto
  then show ?thesis using assms False by (auto simp: buf_bit_def nth_splice)
qed

lemma writebits_eq:
  assumes "a < length h" and "length (h ! a) \<le> MAX_BUFFER_SIZE" and "c \<le> 32" and "p + c \<le> 8 * length (h ! a)"
    and p: "p < 2 ^ 53"
  obtains buf where "buffer_writebits cv h
      [TBuffer a, TNumber (d_of_int (int p)), lua_pushinteger (int c), lua_pushunsigned v] = Inr ([], h[a := buf])"
    and "length buf = length (h ! a)"
    and "\<And>i. i < 8 * length buf \<Longrightarrow>
           buf_bit buf i = (if p \<le> i \<and> i < p + c then bit v (i - p) else buf_bit (h ! a) i)"
proof -
  define n where "n = (p + c + 7) div 8 - p div 8"
  note w = bit_window_eq [OF assms(3,4,2) n_def]
  define d :: u64 where "d = of_nat (le_nat (take n (drop (p div 8) (h ! a))))"
  define e :: u64 where "e = d AND NOT (push_bit (p mod 8) (push_bit c 1 - 1)) OR
      push_bit (p mod 8) (ucast v) AND push_bit (p mod 8) (push_bit c 1 - 1)"
  let ?args = "[TBuffer a, TNumber (d_of_int (int p)), lua_pushinteger (int c), lua_pushunsigned v]"
  let ?buf = "splice (h ! a) (p div 8) (le_bytes n (unat e))"
  have o: "checkbitoffset cv ?args = Inr (int p)"
    using p by (simp add: checkbitoffset_def luaL_checknumber_def luaV_tonumber_def luai_num2long_def
        d_of_int_exact in_int64_def)
  have i: "in_int32 (int c)" using assms by (simp add: in_int32_def)
  have q: "nat (int p mod 8) = p mod 8" "nat (int (p div 8)) = p div 8" by (simp_all add: nat_mod_distrib)
  have wb: "write_bytes (h ! a) (int (p div 8)) (le_bytes n (unat e)) = Inr ?buf"
    using w(2) by (simp add: write_bytes_Inr q del: of_nat_div)
  have "buffer_writebits cv h ?args = Inr ([], h[a := ?buf])"
    using assms(1) o i w(1) wb by (simp add: buffer_writebits_def e_def d_def Let_def q del: of_nat_div)
  moreover have "buf_bit ?buf i = (if p \<le> i \<and> i < p + c then bit v (i - p) else buf_bit (h ! a) i)"
    if "i < 8 * length (h ! a)" for i
  proof (cases "8 * (p div 8) \<le> i \<and> i < 8 * (p div 8 + n)")
    case True
    then obtain j where j: "i = 8 * (p div 8) + j" "j < 8 * n" by (auto simp: le_iff_add)
    have P: "p = 8 * (p div 8) + p mod 8" by simp
    have cond: "(p \<le> i \<and> i < p + c) = (p mod 8 \<le> j \<and> j < p mod 8 + c)" "i - p = j - p mod 8"
      using j P by linarith+
    have D: "bit d j = buf_bit (h ! a) i"
      using j w(2,3) min_absorb2 [of n "length (h ! a) - p div 8"]
      by (simp add: d_def bit_word_of_nat bit_le_nat buf_bit_def)
    have "bit e j = (if p \<le> i \<and> i < p + c then bit v (i - p) else buf_bit (h ! a) i)"
      unfolding cond e_def using j w(3) D
      by (auto simp: bit_simps simp flip: mask_eq_exp_minus_1)
    then show ?thesis using that w(2,3) True j by (simp add: buf_bit_splice)
  next
    case False
    have "8 * (p div 8) + p mod 8 = p" by simp
    then have "8 * (p div 8) \<le> i \<and> i < 8 * (p div 8 + n)" if "p \<le> i \<and> i < p + c"
      using that w(4) unfolding add_mult_distrib2 by linarith
    then have "\<not> (p \<le> i \<and> i < p + c)" using False by blast
    then show ?thesis using that w(2,3) False by (simp only: buf_bit_splice if_False)
  qed
  ultimately show thesis using that [of ?buf] w(2) by simp
qed

section \<open>Properties of the library\<close>

text \<open>\<open>buffer.writebits\<close> and \<open>buffer.readbits\<close> on a field of at most 32 bits inside the buffer: the
  write replaces exactly the bits of the field, whatever its alignment, and the read returns the bits
  written (the low \<open>c\<close> bits of the value). A field that ends beyond the buffer is refused by both.\<close>

theorem buffer_bits_access:
  assumes "a < length h" and "length (h ! a) \<le> MAX_BUFFER_SIZE" and "c \<le> 32" and "p < 2 ^ 53"
  shows "let off = TNumber (d_of_int (int p)); cnt = lua_pushinteger (int c) in
    if p + c \<le> 8 * length (h ! a) then
      \<exists>buf. buffer_writebits cv h [TBuffer a, off, cnt, lua_pushunsigned v] = Inr ([], h[a := buf]) \<and>
        buffer_readbits cv (h[a := buf]) [TBuffer a, off, cnt] =
          Inr ([lua_pushunsigned (take_bit c v)], h[a := buf]) \<and>
        length buf = length (h ! a) \<and>
        (\<forall>i<8 * length buf. buf_bit buf i =
           (if p \<le> i \<and> i < p + c then bit v (i - p) else buf_bit (h ! a) i))
    else
      buffer_writebits cv h [TBuffer a, off, cnt, lua_pushunsigned v] = Inl access_error \<and>
      buffer_readbits cv h [TBuffer a, off, cnt] = Inl access_error"
proof (cases "p + c \<le> 8 * length (h ! a)")
  case True
  obtain buf where w: "buffer_writebits cv h
      [TBuffer a, TNumber (d_of_int (int p)), lua_pushinteger (int c), lua_pushunsigned v] = Inr ([], h[a := buf])"
    and l: "length buf = length (h ! a)"
    and b: "\<And>i. i < 8 * length buf \<Longrightarrow>
           buf_bit buf i = (if p \<le> i \<and> i < p + c then bit v (i - p) else buf_bit (h ! a) i)"
    using writebits_eq [OF assms(1-3) True assms(4)] by blast
  obtain y where r: "buffer_readbits cv (h[a := buf])
      [TBuffer a, TNumber (d_of_int (int p)), lua_pushinteger (int c)] = Inr ([lua_pushunsigned y], h[a := buf])"
    and y: "\<And>k. bit y k \<longleftrightarrow> k < c \<and> buf_bit buf (p + k)"
    using readbits_eq [of a "h[a := buf]" c p cv] assms True l by auto
  have "y = take_bit c v"
    by (rule bit_word_eqI) (use True l in \<open>auto simp: y b bit_take_bit_iff\<close>)
  then show ?thesis using True w r l b by (auto simp: Let_def intro!: exI [of _ buf])
next
  case False
  have "checkbitoffset cv (TBuffer a # TNumber (d_of_int (int p)) # vs) = Inr (int p)" for vs
    using assms(4) by (simp add: checkbitoffset_def luaL_checknumber_def luaV_tonumber_def
        luai_num2long_def d_of_int_exact in_int64_def)
  moreover have "bit_window (h ! a) (int p) (int c) = Inl access_error" "in_int32 (int c)"
    using False assms by (simp_all add: bit_window_def c_int64_def in_int64_def in_int32_def)
  ultimately show ?thesis using False assms(1)
    by (simp add: buffer_writebits_def buffer_readbits_def Let_def)
qed

theorem buffer_bits_access_witness:
  "\<exists>buf. buffer_writebits no_conv [[0, 255, 0]]
      [TBuffer 0, TNumber (d_of_int (int 6)), lua_pushinteger (int 11), lua_pushunsigned 0x155] =
        Inr ([], [[0, 255, 0]][0 := buf]) \<and>
    buffer_readbits no_conv ([[0, 255, 0]][0 := buf])
      [TBuffer 0, TNumber (d_of_int (int 6)), lua_pushinteger (int 11)] =
        Inr ([lua_pushunsigned (take_bit 11 0x155)], [[0, 255, 0]][0 := buf]) \<and>
    length buf = 3"
  using buffer_bits_access [of 0 "[[0, 255, 0]]" 11 6 no_conv "0x155"]
  by (auto simp: Let_def)

text \<open>Heaps and references a program can reach by calls of the library, from no buffer at all.\<close>

inductive buffer_run :: "heap \<Rightarrow> bool" where
  buffer_start: "buffer_run []"
| buffer_call: "buffer_run h \<Longrightarrow> (name, f) \<in> set (bufferlib flag cv) \<Longrightarrow> refs_ok h args \<Longrightarrow>
     f h args = Inr (vs, h') \<Longrightarrow> buffer_run h'"

lemma good_bufferlib:
  assumes "(name, f) \<in> set (bufferlib flag cv)" and "heap_ok h" and "refs_ok h args"
  shows "good_outcome h (f h args)"
  using assms(1) good_creators [OF assms(2)] good_readers [OF assms(2,3)] good_writers [OF assms(2,3)]
    good_string_writer [OF assms(2,3)] good_movers [OF assms(2,3)] good_bits [OF assms(2,3)]
  by (auto simp: bufferlib_def split: if_splits)

lemma buffer_run_heap_ok: "buffer_run h \<Longrightarrow> heap_ok h"
proof (induction rule: buffer_run.induct)
  case (buffer_call h name f flag cv args vs h')
  then show ?case using good_bufferlib [of name f flag cv h args] by (simp add: good_outcome_def)
qed (simp add: heap_ok_def)

text \<open>C11. Memory safety of the \<open>buffer\<close> library: in every heap reachable by its calls, no function of
  the table, on any arguments whose buffers are allocated, copies from or to memory outside of a buffer;
  a call keeps every buffer at its length (at most \<open>MAX_BUFFER_SIZE\<close>) and returns only live buffers.\<close>

theorem buffer_memory_safety:
  assumes "buffer_run h" and "(name, f) \<in> set (bufferlib flag cv)" and "refs_ok h args"
  shows "f h args \<noteq> Inl out_of_bounds \<and> f h args \<noteq> Inl (Undefined ''dangling reference'') \<and>
    (\<forall>vs h'. f h args = Inr (vs, h') \<longrightarrow>
       heap_ok h' \<and> refs_ok h' vs \<and> (\<forall>b<length h. b < length h' \<and> length (h' ! b) = length (h ! b)))"
  using good_bufferlib [OF assms(2) buffer_run_heap_ok [OF assms(1)] assms(3)]
  by (cases "f h args") (auto simp: good_outcome_def unsafe_def)

lemma buffer_run_two: "buffer_run [[0, 0]]"
proof (rule buffer_call [OF buffer_start])
  show "(''create'', buffer_create no_conv) \<in> set (bufferlib False no_conv)" by (simp add: bufferlib_def)
  show "buffer_create no_conv [] [lua_pushinteger 2] = Inr ([TBuffer 0], [[0, 0]])"
    by (simp add: buffer_create_def luaB_newbuffer_def in_int32_def numeral_2_eq_2)
qed (simp add: refs_ok_def lua_pushinteger_def)

theorem buffer_memory_safety_witness:
  "buffer_writelong no_conv [[0, 0]] [TBuffer 0, lua_pushinteger (- 6), TInteger 1] \<noteq> Inl out_of_bounds"
  using buffer_memory_safety [OF buffer_run_two, of "''writeinteger''" "buffer_writelong no_conv" True no_conv
      "[TBuffer 0, lua_pushinteger (- 6), TInteger 1]"]
  by (simp add: bufferlib_def refs_ok_def lua_pushinteger_def)

text \<open>\<open>buffer.copy\<close> is \<open>memmove\<close>: the target range receives the bytes the source range held before
  the call, also when both are overlapping ranges of one buffer, and no other byte changes.\<close>

theorem buffer_copy_memmove:
  assumes "t < length h" and "s < length h" and "heap_ok h" and "in_int32 to" and "in_int32 so" and "in_int32 n"
    and "0 \<le> n" and "0 \<le> so" and "0 \<le> to"
  shows "let r = buffer_copy cv h [TBuffer t, lua_pushinteger to, TBuffer s, lua_pushinteger so, lua_pushinteger n] in
    if so + n \<le> int (length (h ! s)) \<and> to + n \<le> int (length (h ! t)) then
      \<exists>h'. r = Inr ([], h') \<and> same_outside h h' t to (nat n) \<and>
        (\<forall>i<nat n. h' ! t ! (nat to + i) = h ! s ! (nat so + i))
    else r = Inl access_error"
proof -
  have l: "length (h ! t) \<le> MAX_BUFFER_SIZE" "length (h ! s) \<le> MAX_BUFFER_SIZE"
    using assms by (simp_all add: heap_ok_nth)
  then have c: "in_int32 (int (length (h ! s)) - so)" using assms by (simp add: in_int32_def)
  show ?thesis
  proof (cases "so + n \<le> int (length (h ! s)) \<and> to + n \<le> int (length (h ! t))")
    case True
    define bs where "bs = take (nat n) (drop (nat so) (h ! s))"
    have "nat so + nat n \<le> length (h ! s)" using True assms by arith
    then have bs: "length bs = nat n" by (simp add: bs_def)
    have r: "read_bytes (h ! s) so (nat n) = Inr bs" using True assms by (simp add: read_bytes_def bs_def)
    obtain buf where w: "write_bytes (h ! t) to bs = Inr buf" using True assms bs by (simp add: write_bytes_def)
    have "buf ! (nat to + i) = h ! s ! (nat so + i)" if "i < nat n" for i
      using that w bs True assms by (auto simp: write_bytes_Inr nth_splice bs_def)
    then show ?thesis using True assms l c r w same_outside_write [OF w assms(1)] bs
      by (simp add: buffer_copy_def c_int_ok isoutofbounds_iff Let_def)
  next
    case False
    then show ?thesis using assms l c by (auto simp: buffer_copy_def c_int_ok isoutofbounds_iff Let_def)
  qed
qed

theorem buffer_copy_memmove_witness:
  "\<exists>h'. buffer_copy no_conv [[1, 2, 3, 4]]
      [TBuffer 0, lua_pushinteger 1, TBuffer 0, lua_pushinteger 0, lua_pushinteger 3] = Inr ([], h') \<and>
    same_outside [[1, 2, 3, 4]] h' 0 1 3 \<and> h' ! 0 ! 3 = 3"
  using buffer_copy_memmove [of 0 "[[1, 2, 3, 4]]" 0 1 0 3 no_conv]
  by (auto simp: heap_ok_def in_int32_def Let_def dest!: spec [of _ "2 :: nat"])

text \<open>A float element written with \<open>buffer.writef64\<close> is read back bit for bit, and a 64-bit integer
  written with \<open>buffer.writeinteger\<close> is read back unchanged, at every offset where eight bytes fit.\<close>

theorem buffer_eight_byte_roundtrip:
  assumes "a < length h" and "heap_ok h" and "0 \<le> off" and "off + 8 \<le> int (length (h ! a))"
  shows "(\<exists>h'. buffer_writefp fp_double cv h [TBuffer a, lua_pushinteger off, TNumber d] = Inr ([], h') \<and>
      buffer_readfp fp_double cv h' [TBuffer a, lua_pushinteger off] = Inr ([TNumber d], h') \<and>
      same_outside h h' a off 8) \<and>
    (\<exists>h'. buffer_writelong cv h [TBuffer a, lua_pushinteger off, TInteger w] = Inr ([], h') \<and>
      buffer_readlong cv h' [TBuffer a, lua_pushinteger off] = Inr ([TInteger w], h') \<and>
      same_outside h h' a off 8)"
proof -
  have l: "length (h ! a) \<le> MAX_BUFFER_SIZE" using assms by (simp add: heap_ok_nth)
  then have o: "in_int32 off" using assms by (simp add: in_int32_def)
  have ok: "\<not> isoutofbounds off (length (h ! a)) 8" using assms l o by (simp add: isoutofbounds_iff)
  obtain b1 b2 where w: "write_bytes (h ! a) off (le_bytes 8 (unat d)) = Inr b1"
      "write_bytes (h ! a) off (le_bytes 8 (unat w)) = Inr b2"
    using assms by (simp add: write_bytes_def)
  obtain c1 c2 where r: "read_bytes b1 off 8 = Inr c1" "of_nat (le_nat c1) = d"
      "read_bytes b2 off 8 = Inr c2" "of_nat (le_nat c2) = w"
    using long_element.write_then_read [OF w(1)] long_element.write_then_read [OF w(2)] by auto
  note lb = length_write_bytes [OF w(1)] length_write_bytes [OF w(2)]
  show ?thesis
    using assms o ok w r lb same_outside_write [OF w(1) assms(1)] same_outside_write [OF w(2) assms(1)]
    by (simp add: buffer_writefp_def buffer_readfp_def buffer_writelong_def buffer_readlong_def
        luaL_checknumber_def luaV_tonumber_def lua_pushinteger64_def)
qed

theorem buffer_eight_byte_roundtrip_witness:
  "\<exists>h'. buffer_writelong no_conv [[0, 0, 0, 0, 0, 0, 0, 0, 7]] [TBuffer 0, lua_pushinteger 1, TInteger (- 2)] =
      Inr ([], h') \<and>
    buffer_readlong no_conv h' [TBuffer 0, lua_pushinteger 1] = Inr ([TInteger (- 2)], h')"
  using buffer_eight_byte_roundtrip [of 0 "[[0, 0, 0, 0, 0, 0, 0, 0, 7]]" 1 no_conv 0 "- 2"]
  by (auto simp: heap_ok_def)

end
