(* ===== verification/Utf8.thy ===== *)
theory Utf8 imports Value begin

text \<open>
  The \<open>utf8\<close> library (\<open>VM/src/lutf8lib.cpp\<close>). Strings are lists of bytes; the code reads them through
  a pointer that may stop on the terminating zero but not behind it, which \<open>rd\<close> makes explicit.
\<close>

section \<open>Reading a string\<close>

definition rd :: "byte list \<Rightarrow> nat \<Rightarrow> lua_error + byte" where
  "rd s i = (if i < length s then Inr (s ! i) else if i = length s then Inr 0
             else Inl (Undefined ''out-of-bounds access''))"

definition iscont :: "byte \<Rightarrow> bool" where
  "iscont b \<longleftrightarrow> b AND 0xC0 = 0x80"

abbreviation MAXUNICODE :: nat where "MAXUNICODE \<equiv> 0x10FFFF"

definition u_posrelat :: "int \<Rightarrow> nat \<Rightarrow> int" where
  "u_posrelat pos len =
     (if pos \<ge> 0 then pos else if - pos > int len then 0 else int len + pos + 1)"

section \<open>Decoding and encoding\<close>

text \<open>The loop over the continuation bytes: the shifted first byte \<open>c\<close>, their number and their bits.\<close>

function utf8_decode_loop ::
    "byte list \<Rightarrow> nat \<Rightarrow> u32 \<Rightarrow> nat \<Rightarrow> u32 \<Rightarrow> lua_error + (u32 \<times> nat \<times> u32) option" where
  "utf8_decode_loop s o' c count res =
     (if c AND 0x40 \<noteq> 0 then
        bindE (rd s (o' + count + 1)) (\<lambda>cc.
        if cc AND 0xC0 \<noteq> 0x80 then Inr None
        else utf8_decode_loop s o' (push_bit 1 c) (count + 1) (push_bit 6 res OR (ucast cc AND 0x3F)))
      else Inr (Some (c, count, res)))"
  by pat_completeness auto

termination
  by (relation "measure (\<lambda>(s, o', c, count, res). length s - (o' + count))")
    (auto simp: rd_def split: if_splits)

definition utf8_limits :: "u32 list" where
  "utf8_limits = [0xFF, 0x7F, 0x7FF, 0xFFFF]"

text \<open>The code point at offset \<open>o'\<close> and the offset behind it; \<open>None\<close> for an invalid sequence.\<close>

definition utf8_decode :: "byte list \<Rightarrow> nat \<Rightarrow> lua_error + (nat \<times> nat) option" where
  "utf8_decode s o' =
     bindE (rd s o') (\<lambda>b.
     let c = ucast b :: u32 in
     if c < 0x80 then Inr (Some (unat c, o' + 1))
     else
       bindE (utf8_decode_loop s o' c 0 0) (\<lambda>r. case r of
         None \<Rightarrow> Inr None
       | Some (c, count, res) \<Rightarrow>
           bindE (guardE (count * 5 < 32) (Undefined ''shift'')) (\<lambda>_.
           let res = res OR push_bit (count * 5) (c AND 0x7F) in
           if count > 3 \<or> res > of_nat MAXUNICODE \<or> res \<le> utf8_limits ! count then Inr None
           else if res - 0xD800 < 0x800 then Inr None
           else Inr (Some (unat res, o' + count + 1)))))"

function utf8esc_loop :: "u64 \<Rightarrow> u32 \<Rightarrow> byte list \<Rightarrow> byte list" where
  "utf8esc_loop x mfb bs =
     (let bs = ucast (0x80 OR (x AND 0x3f)) # bs; x = drop_bit 6 x; mfb = drop_bit 1 mfb in
      if x > ucast mfb then utf8esc_loop x mfb bs
      else ucast (push_bit 1 (NOT mfb) OR ucast x) # bs)"
  by pat_completeness auto

termination
proof (relation "measure (\<lambda>(x, mfb, bs). unat x)")
  fix x :: u64 and mfb :: u32 and y z
  assume y: "y = drop_bit 6 x" and z: "z = drop_bit 1 mfb" and gt: "ucast z < y"
  then have "0 < unat y" by (metis bot_nat_0.not_eq_extremum unat_eq_zero word_not_simps(1))
  then show "((y, z, bs'), x, mfb, bs) \<in> measure (\<lambda>(x, mfb, bs). unat x)" for bs' bs
    unfolding y by (simp add: drop_bit_eq_div unat_div)
qed simp

declare utf8_decode_loop.simps [simp del] utf8esc_loop.simps [simp del]

definition luaO_utf8esc :: "u64 \<Rightarrow> byte list" where
  "luaO_utf8esc x = (if x < 0x80 then [ucast x] else utf8esc_loop x 0x3f [])"

section \<open>Library functions\<close>

lemma rd_Inr: "rd s i = Inr b \<Longrightarrow> i \<le> length s"
  by (auto simp: rd_def split: if_splits)

lemma utf8_decode_advances:
  assumes "utf8_decode s p = Inr (Some (c, p'))"
  shows "p < p' \<and> p \<le> length s"
proof -
  obtain b where b: "rd s p = Inr b" using assms by (auto simp: utf8_decode_def bindE_eq_Inr_iff)
  have "p < p'"
  proof (cases "(ucast b :: u32) < 0x80")
    case True
    then show ?thesis using assms b by (simp add: utf8_decode_def)
  next
    case False
    then show ?thesis using assms b
      by (cases "utf8_decode_loop s p (ucast b) 0 0")
        (auto simp: utf8_decode_def Let_def bindE_eq_Inr_iff split: option.splits if_splits)
  qed
  then show ?thesis using rd_Inr [OF b] by simp
qed

function utflen_loop :: "byte list \<Rightarrow> int \<Rightarrow> int \<Rightarrow> int \<Rightarrow> lua_error + TValue list" where
  "utflen_loop s posi posj n =
     (if posi \<le> posj then
        bindE (utf8_decode s (nat posi)) (\<lambda>r. case r of
          None \<Rightarrow> Inr [TNil, lua_pushinteger (posi + 1)]
        | Some (_, s1) \<Rightarrow> utflen_loop s (int s1) posj (n + 1))
      else Inr [lua_pushinteger n])"
  by pat_completeness auto

termination
  by (relation "measure (\<lambda>(s, posi, posj, n). nat (int (length s) + 1 - posi))")
    (auto dest!: utf8_decode_advances)

declare utflen_loop.simps [simp del]

definition utflen :: "numconv \<Rightarrow> TValue list \<Rightarrow> lua_error + TValue list" where
  "utflen cv args =
     bindE (luaL_checklstring cv args 1) (\<lambda>s.
     bindE (luaL_optinteger cv args 2 1) (\<lambda>i.
     let posi = u_posrelat i (length s) in
     bindE (luaL_optinteger cv args 3 (-1)) (\<lambda>j.
     let posj = u_posrelat j (length s) in
     bindE (guardE (1 \<le> posi \<and> posi - 1 \<le> int (length s)) (ArgError 2 ''initial position out of string'')) (\<lambda>_.
     bindE (guardE (posj - 1 < int (length s)) (ArgError 3 ''final position out of string'')) (\<lambda>_.
     utflen_loop s (posi - 1) (posj - 1) 0)))))"

function codepoint_loop :: "byte list \<Rightarrow> int \<Rightarrow> int \<Rightarrow> lua_error + TValue list" where
  "codepoint_loop s p se =
     (if p < se then
        bindE (utf8_decode s (nat p)) (\<lambda>r. case r of
          None \<Rightarrow> Inl (RunError ''invalid UTF-8 code'')
        | Some (code, p') \<Rightarrow>
            bindE (codepoint_loop s (int p') se) (\<lambda>vs. Inr (lua_pushinteger (int code) # vs)))
      else Inr [])"
  by pat_completeness auto

termination
  by (relation "measure (\<lambda>(s, p, se). nat (int (length s) + 1 - p))")
    (auto dest!: utf8_decode_advances)

declare codepoint_loop.simps [simp del]

definition codepoint :: "numconv \<Rightarrow> TValue list \<Rightarrow> lua_error + TValue list" where
  "codepoint cv args =
     bindE (luaL_checklstring cv args 1) (\<lambda>s.
     bindE (luaL_optinteger cv args 2 1) (\<lambda>i.
     let posi = u_posrelat i (length s) in
     bindE (luaL_optinteger cv args 3 posi) (\<lambda>j.
     let pose = u_posrelat j (length s) in
     bindE (guardE (posi \<ge> 1) (ArgError 2 ''out of range'')) (\<lambda>_.
     bindE (guardE (pose \<le> int (length s)) (ArgError 3 ''out of range'')) (\<lambda>_.
     if posi > pose then Inr []
     else if pose - posi \<ge> INT_MAX then Inl (RunError ''string slice too long'')
     else
       bindE (luaL_checkstack (length args) (nat (pose - posi + 1)) ''string slice too long'') (\<lambda>_.
       codepoint_loop s (posi - 1) pose))))))"

text \<open>\<open>buff\<close> is filled from its end; the bytes written are the result.\<close>

definition buffutfchar :: "numconv \<Rightarrow> TValue list \<Rightarrow> nat \<Rightarrow> lua_error + byte list" where
  "buffutfchar cv args n =
     bindE (luaL_checkinteger cv args n) (\<lambda>code.
     bindE (guardE (0 \<le> code \<and> code \<le> int MAXUNICODE) (ArgError n ''value out of range'')) (\<lambda>_.
     Inr (luaO_utf8esc (word_of_int code))))"

fun utfchar_loop :: "numconv \<Rightarrow> TValue list \<Rightarrow> nat list \<Rightarrow> byte list \<Rightarrow> lua_error + byte list" where
  "utfchar_loop cv args [] b = Inr b"
| "utfchar_loop cv args (i # is) b =
     bindE (buffutfchar cv args i) (\<lambda>s. utfchar_loop cv args is (b @ s))"

definition utfchar :: "numconv \<Rightarrow> TValue list \<Rightarrow> lua_error + TValue list" where
  "utfchar cv args =
     (if length args = 1 then bindE (buffutfchar cv args 1) (\<lambda>s. Inr [TString s])
      else bindE (utfchar_loop cv args [1..<length args + 1] []) (\<lambda>b. Inr [TString b]))"

text \<open>
  \<open>byteoffset\<close>: the loop back to the beginning of a sequence (\<open>do posi--; while (posi > 0 && iscont(s + posi))\<close>
  and the \<open>while\<close> of \<open>n == 0\<close>), and the one to the next sequence, which the terminating zero stops.
\<close>

fun seq_begin :: "byte list \<Rightarrow> nat \<Rightarrow> lua_error + nat" where
  "seq_begin s 0 = Inr 0"
| "seq_begin s (Suc p) = bindE (rd s (Suc p)) (\<lambda>b. if iscont b then seq_begin s p else Inr (Suc p))"

function skip_cont :: "byte list \<Rightarrow> nat \<Rightarrow> lua_error + nat" where
  "skip_cont s p = bindE (rd s p) (\<lambda>b. if iscont b then skip_cont s (p + 1) else Inr p)"
  by pat_completeness auto

termination
  by (relation "measure (\<lambda>(s, p). length s + 1 - p)") (auto dest!: rd_Inr)

declare skip_cont.simps [simp del]

fun move_back :: "byte list \<Rightarrow> nat \<Rightarrow> nat \<Rightarrow> lua_error + nat \<times> nat" where
  "move_back s 0 posi = Inr (0, posi)"
| "move_back s (Suc n) posi =
     (if posi > 0 then bindE (seq_begin s (posi - 1)) (\<lambda>posi. move_back s n posi)
      else Inr (Suc n, posi))"

fun move_forth :: "byte list \<Rightarrow> nat \<Rightarrow> nat \<Rightarrow> lua_error + nat \<times> nat" where
  "move_forth s 0 posi = Inr (0, posi)"
| "move_forth s (Suc n) posi =
     (if posi < length s then bindE (skip_cont s (posi + 1)) (\<lambda>posi. move_forth s n posi)
      else Inr (Suc n, posi))"

text \<open>The counter of the moves left is kept as its magnitude in both directions.\<close>

definition byteoffset :: "numconv \<Rightarrow> TValue list \<Rightarrow> lua_error + TValue list" where
  "byteoffset cv args =
     bindE (luaL_checklstring cv args 1) (\<lambda>s.
     bindE (luaL_checkinteger cv args 2) (\<lambda>n.
     bindE (luaL_optinteger cv args 3 (if n \<ge> 0 then 1 else int (length s) + 1)) (\<lambda>i.
     let posi = u_posrelat i (length s) in
     bindE (guardE (1 \<le> posi \<and> posi - 1 \<le> int (length s)) (ArgError 3 ''position out of range'')) (\<lambda>_.
     let posi = nat (posi - 1) in
     bindE (if n = 0 then bindE (seq_begin s posi) (\<lambda>posi. Inr (0, posi))
            else
              bindE (rd s posi) (\<lambda>b.
              if iscont b then Inl (RunError ''initial position is a continuation byte'')
              else if n < 0 then move_back s (nat (- n)) posi
              else move_forth s (nat (n - 1)) posi)) (\<lambda>(n, posi).
     if n = 0 then Inr [lua_pushinteger (int posi + 1)] else Inr [TNil])))))"

text \<open>\<open>lua_tointeger\<close> on an argument: 0 when it is not convertible to a number.\<close>

definition lua_tointeger :: "numconv \<Rightarrow> TValue list \<Rightarrow> nat \<Rightarrow> lua_error + int" where
  "lua_tointeger cv args n =
     (case Option.bind (arg args n) (luaV_tonumber cv) of
        None \<Rightarrow> Inr 0
      | Some d \<Rightarrow> (case luai_num2int d of Some i \<Rightarrow> Inr i | None \<Rightarrow> Inl (Undefined ''double to int'')))"

definition iter_aux :: "numconv \<Rightarrow> TValue list \<Rightarrow> lua_error + TValue list" where
  "iter_aux cv args =
     bindE (luaL_checklstring cv args 1) (\<lambda>s.
     bindE (lua_tointeger cv args 2) (\<lambda>i.
     bindE (c_int (i - 1)) (\<lambda>n.
     bindE (if n < 0 then Inr 0
            else if n < int (length s) then bindE (skip_cont s (nat (n + 1))) (\<lambda>p. Inr (int p))
            else Inr n) (\<lambda>n.
     if n \<ge> int (length s) then Inr []
     else
       bindE (utf8_decode s (nat n)) (\<lambda>r. case r of
         None \<Rightarrow> Inl (RunError ''invalid UTF-8 code'')
       | Some (code, next) \<Rightarrow>
           bindE (rd s next) (\<lambda>b.
           if iscont b then Inl (RunError ''invalid UTF-8 code'')
           else Inr [lua_pushinteger (n + 1), lua_pushinteger (int code)]))))))"

text \<open>\<open>utf8.codes\<close> returns the iterator, here the triple's state and initial control value.\<close>

definition iter_codes :: "numconv \<Rightarrow> TValue list \<Rightarrow> lua_error + TValue list" where
  "iter_codes cv args = bindE (luaL_checklstring cv args 1) (\<lambda>s. Inr [TString s, lua_pushinteger 0])"


section \<open>The encoding\<close>

text \<open>Unicode scalar values and their UTF-8 bytes, written out with the ranges of the standard.\<close>

definition is_scalar :: "nat \<Rightarrow> bool" where
  "is_scalar c \<longleftrightarrow> c \<le> 0x10FFFF \<and> \<not> (0xD800 \<le> c \<and> c \<le> 0xDFFF)"

definition utf8_bytes :: "nat \<Rightarrow> nat list" where
  "utf8_bytes c =
     (if c < 0x80 then [c]
      else if c < 0x800 then [192 + c div 64, 128 + c mod 64]
      else if c < 0x10000 then [224 + c div 4096, 128 + c div 64 mod 64, 128 + c mod 64]
      else [240 + c div 262144, 128 + c div 4096 mod 64, 128 + c div 64 mod 64, 128 + c mod 64])"

definition utf8_encode :: "nat \<Rightarrow> byte list" where
  "utf8_encode c = map of_nat (utf8_bytes c)"

lemma all_less_code: "(\<forall>m<n. P m) \<longleftrightarrow> list_all P [0..<n]"
  by (auto simp: list_all_iff)

lemma cont_byte_small: "\<forall>m<64. ucast (0x80 OR of_nat m :: u64) = (of_nat (128 + m) :: byte)"
  unfolding all_less_code by code_simp

lemma cont_byte: "ucast (0x80 OR (of_nat c AND 0x3f) :: u64) = (of_nat (128 + c mod 64) :: byte)"
proof -
  have "of_nat c AND 0x3f = (take_bit 6 (of_nat c) :: u64)" by (simp add: take_bit_eq_mask mask_eq_exp_minus_1)
  also have "\<dots> = of_nat (take_bit 6 c)" by (rule take_bit_of_nat)
  also have "\<dots> = of_nat (c mod 64)" by (simp add: take_bit_eq_mod)
  finally show ?thesis using cont_byte_small [rule_format, of "c mod 64"] by (simp del: of_nat_add)
qed

lemma first_byte:
  "\<forall>m<32. ucast (push_bit 1 (NOT 0x1f :: u32) OR ucast (of_nat m :: u64)) = (of_nat (192 + m) :: byte)"
  "\<forall>m<16. ucast (push_bit 1 (NOT 0xf :: u32) OR ucast (of_nat m :: u64)) = (of_nat (224 + m) :: byte)"
  "\<forall>m<8. ucast (push_bit 1 (NOT 0x7 :: u32) OR ucast (of_nat m :: u64)) = (of_nat (240 + m) :: byte)"
  unfolding all_less_code by code_simp+

lemma drop_bit_of_nat64: "c < 2 ^ 64 \<Longrightarrow> drop_bit 6 (of_nat c :: u64) = of_nat (c div 64)"
  by (rule word_unat_eq_iff [THEN iffD2]) (simp add: unat_of_nat drop_bit_eq_div unat_div)

lemma of_nat64_less: "(c :: nat) < 2 ^ 64 \<Longrightarrow> d < 2 ^ 64 \<Longrightarrow> (of_nat c :: u64) < of_nat d \<longleftrightarrow> c < d"
  by (simp add: word_less_nat_alt unat_of_nat)

lemma luaO_utf8esc_eq:
  assumes "c \<le> MAXUNICODE"
  shows "luaO_utf8esc (of_nat c) = utf8_encode c"
proof -
  have lt: "(of_nat c < (0x80 :: u64)) = (c < 0x80)"
    using of_nat64_less [of c 128] assms by simp
  have step: "utf8esc_loop (of_nat x) (of_nat mfb) bs =
      (if x div 64 > mfb div 2 then utf8esc_loop (of_nat (x div 64)) (of_nat (mfb div 2)) (of_nat (128 + x mod 64) # bs)
       else ucast (push_bit 1 (NOT (of_nat (mfb div 2) :: u32)) OR ucast (of_nat (x div 64) :: u64)) # of_nat (128 + x mod 64) # bs)"
    if "x \<le> MAXUNICODE" "mfb < 64" for x mfb bs
  proof -
    have m: "drop_bit 1 (of_nat mfb :: u32) = of_nat (mfb div 2)"
      using that by (intro word_unat_eq_iff [THEN iffD2]) (simp add: unat_of_nat drop_bit_eq_div unat_div)
    have u: "ucast (of_nat (mfb div 2) :: u32) = (of_nat (mfb div 2) :: u64)"
      using that by (simp add: unsigned_of_nat take_bit_nat_eq_self)
    have d: "drop_bit 6 (of_nat x :: u64) = of_nat (x div 64)" using that by (simp add: drop_bit_of_nat64)
    have g: "((of_nat (mfb div 2) :: u64) < of_nat (x div 64)) = (mfb div 2 < x div 64)"
      using that by (intro of_nat64_less) simp_all
    show ?thesis by (subst utf8esc_loop.simps) (simp only: Let_def m u d g cont_byte)
  qed
  have dd: "c div 64 div 64 = c div 4096" "c div 4096 div 64 = c div 262144"
    by (simp_all flip: div_mult2_eq)
  have hc: "63 div 2 = (31 :: nat)" "31 div 2 = (15 :: nat)" "15 div 2 = (7 :: nat)" by simp_all
  have r: "(31 < c div 64) = (2048 \<le> c)" "(15 < c div 4096) = (65536 \<le> c)" "\<not> 7 < c div 262144"
    using assms by auto
  have x: "c div 64 \<le> MAXUNICODE" "c div 4096 \<le> MAXUNICODE" using assms by auto
  note st = step [of c 63 "[]"] step [of "c div 64" 31] step [of "c div 4096" 15]
  have one: "ucast (of_nat c :: u64) = (of_nat c :: byte)"
    using assms by (simp add: unsigned_of_nat take_bit_nat_eq_self)
  have "2048 \<le> c \<or> c div 64 < 32" "65536 \<le> c \<or> c div 4096 < 16" "c div 262144 < 8" using r by auto
  then have f: "\<not> 2048 \<le> c \<Longrightarrow> ucast (push_bit 1 (NOT (of_nat 31) :: u32) OR ucast (of_nat (c div 64) :: u64)) = (of_nat (192 + c div 64) :: byte)"
    "\<not> 65536 \<le> c \<Longrightarrow> ucast (push_bit 1 (NOT (of_nat 15) :: u32) OR ucast (of_nat (c div 4096) :: u64)) = (of_nat (224 + c div 4096) :: byte)"
    "ucast (push_bit 1 (NOT (of_nat 7) :: u32) OR ucast (of_nat (c div 262144) :: u64)) = (of_nat (240 + c div 262144) :: byte)"
    using first_byte(1) [rule_format, of "c div 64"] first_byte(2) [rule_format, of "c div 4096"]
      first_byte(3) [rule_format, of "c div 262144"] by simp_all
  have loop: "utf8esc_loop (of_nat c) (of_nat 63) [] = utf8_encode c" if "128 \<le> c"
    using that assms st x f
    by (simp only: r dd hc utf8_encode_def utf8_bytes_def list.map if_True if_False not_less flip: not_le
        cong: if_cong) (simp split: if_splits; arith)
  show ?thesis using loop lt one by (simp add: luaO_utf8esc_def utf8_encode_def utf8_bytes_def)
qed


section \<open>The decoder\<close>

lemma unat_byte_in: "n \<le> unat (b :: byte) \<Longrightarrow> unat b \<in> set [n..<256]"
  using unsigned_less [of b, where 'a = nat] unfolding set_upt atLeastLessThan_iff by simp

lemma iscont_bytes: "map (\<lambda>m. iscont (of_nat m)) [0..<256] = map (\<lambda>m. 128 \<le> m \<and> m < 192) [0..<256]"
  by code_simp

lemma iscont_iff: "iscont b \<longleftrightarrow> 128 \<le> unat b \<and> unat b < 192"
proof -
  have "iscont (of_nat (unat b)) = (128 \<le> unat b \<and> unat b < 192)"
    using iscont_bytes unat_byte_in [of 0 b] unfolding map_eq_conv by blast
  then show ?thesis by simp
qed

lemma iscont_0 [simp]: "\<not> iscont 0"
  by (simp add: iscont_def)

text \<open>The number of continuation bytes a first byte announces: its ones from bit 6 down.\<close>

definition lead :: "byte \<Rightarrow> nat" where
  "lead b = length (takeWhile (\<lambda>i. bit b (6 - i)) [0..<7])"

definition lead_of :: "nat \<Rightarrow> nat" where
  "lead_of n = (if n < 192 then 0 else if n < 224 then 1 else if n < 240 then 2 else if n < 248 then 3
     else if n < 252 then 4 else if n < 254 then 5 else if n < 255 then 6 else 7)"

lemma lead_of_bytes: "map (\<lambda>m. lead (of_nat m)) [128..<256] = map lead_of [128..<256]"
  by code_simp

lemma lead_cases:
  assumes "128 \<le> unat b"
  shows "lead b = lead_of (unat b)"
proof -
  have "unat b \<in> set [128..<256]" using assms by (rule unat_byte_in)
  then have "lead (of_nat (unat b)) = lead_of (unat b)" using lead_of_bytes unfolding map_eq_conv by blast
  then show ?thesis by simp
qed

lemma takeWhile_upt_step:
  "i \<le> length (takeWhile P [0..<n]) \<Longrightarrow> i < n \<Longrightarrow> P i \<longleftrightarrow> i < length (takeWhile P [0..<n])"
proof (cases "i < length (takeWhile P [0..<n])")
  case True
  then show ?thesis using nth_length_takeWhile [of P "[0..<n]"] set_takeWhileD [of i P "[0..<n]"]
    by (metis (no_types, lifting) diff_zero le_trans length_takeWhile_le length_upt nth_mem nth_upt plus_nat.add_0
        less_le_trans takeWhile_nth)
next
  case False
  assume "i \<le> length (takeWhile P [0..<n])" "i < n"
  then have "i = length (takeWhile P [0..<n])" "length (takeWhile P [0..<n]) < length [0..<n]" using False by auto
  then show ?thesis using nth_length_takeWhile [of P "[0..<n]"] False by simp
qed

lemma lead_step: "i \<le> lead b \<Longrightarrow> (i \<le> 6 \<and> bit b (6 - i)) \<longleftrightarrow> i < lead b"
  using takeWhile_upt_step [of i "\<lambda>i. bit b (6 - i)" 7] length_takeWhile_le [of "\<lambda>i. bit b (6 - i)" "[0..<7]"]
  unfolding lead_def by (cases "i < 7") auto

lemma bit6_iff: "(w AND 0x40 \<noteq> 0) \<longleftrightarrow> bit (w :: u32) 6"
  by (simp add: bit_iff_and_push_bit_not_eq_0 push_bit_eq_mult)

lemma push_ucast_bit6:
  "(push_bit i (ucast (b :: byte) :: u32) AND 0x40 \<noteq> 0) \<longleftrightarrow> i \<le> 6 \<and> bit b (6 - i)"
  unfolding bit6_iff by (auto simp: bit_simps)

abbreviation add_cont :: "u32 \<Rightarrow> byte \<Rightarrow> u32" where
  "add_cont r b \<equiv> push_bit 6 r OR (ucast b AND 0x3F)"

definition conts :: "byte list \<Rightarrow> nat \<Rightarrow> nat \<Rightarrow> nat \<Rightarrow> byte list" where
  "conts s p i k = map (\<lambda>j. s ! (p + j)) [i + 1..<k + 1]"

definition conts_ok :: "byte list \<Rightarrow> nat \<Rightarrow> nat \<Rightarrow> nat \<Rightarrow> bool" where
  "conts_ok s p i k \<longleftrightarrow> (\<forall>j. i < j \<and> j \<le> k \<longrightarrow> p + j < length s \<and> iscont (s ! (p + j)))"

lemma decode_loop_eq:
  assumes "i \<le> lead b" and "p + i < length s"
  shows "utf8_decode_loop s p (push_bit i (ucast b)) i r =
    Inr (if conts_ok s p i (lead b)
         then Some (push_bit (lead b) (ucast b), lead b, foldl add_cont r (conts s p i (lead b))) else None)"
  using assms
proof (induction "lead b - i" arbitrary: i r)
  case 0
  then have i: "i = lead b" by simp
  then have "\<not> (push_bit i (ucast b :: u32) AND 0x40 \<noteq> 0)" using lead_step [of i b] by (simp add: push_ucast_bit6)
  then show ?case using i by (subst utf8_decode_loop.simps) (simp add: conts_ok_def conts_def)
next
  case (Suc d)
  then have lt: "i < lead b" by simp
  then have w: "push_bit i (ucast b :: u32) AND 0x40 \<noteq> 0" using lead_step [of i b] by (simp add: push_ucast_bit6)
  obtain cc where cc: "rd s (p + i + 1) = Inr cc" using Suc.prems
    by (cases "p + i + 1 < length s") (auto simp: rd_def)
  have ok: "iscont cc \<longleftrightarrow> p + i + 1 < length s \<and> iscont (s ! (p + i + 1))"
    using cc Suc.prems by (auto simp: rd_def split: if_splits)
  have st: "conts_ok s p i (lead b) \<longleftrightarrow> iscont cc \<and> conts_ok s p (i + 1) (lead b)"
  proof -
    have "(i < j \<and> j \<le> lead b) = (j = i + 1 \<or> i + 1 < j \<and> j \<le> lead b)" for j using lt by auto
    then show ?thesis unfolding ok conts_ok_def by (auto simp: ac_simps)
  qed
  show ?case
  proof (cases "iscont cc")
    case False
    then show ?thesis using w cc st by (subst utf8_decode_loop.simps) (simp add: iscont_def)
  next
    case True
    then have "p + (i + 1) < length s" "cc = s ! (p + i + 1)" using ok cc by (auto simp: rd_def)
    then have "utf8_decode_loop s p (push_bit (i + 1) (ucast b)) (i + 1) (add_cont r cc) =
        Inr (if conts_ok s p (i + 1) (lead b) then Some (push_bit (lead b) (ucast b), lead b,
             foldl add_cont (add_cont r cc) (conts s p (i + 1) (lead b))) else None)"
      using Suc.hyps(1) [of "i + 1" "add_cont r cc"] Suc.hyps(2) lt \<open>p + (i + 1) < length s\<close> by simp
    moreover have "conts s p i (lead b) = cc # conts s p (i + 1) (lead b)"
      using lt \<open>cc = _\<close> using upt_conv_Cons [of "i + 1" "lead b + 1"] by (simp add: conts_def)
    ultimately show ?thesis using w cc True st
      by (subst utf8_decode_loop.simps) (simp add: iscont_def push_bit_push_bit add.commute)
  qed
qed

lemma unat_or_disjoint:
  assumes "unat r < 2 ^ n" and "q * 2 ^ n < 2 ^ 32"
  shows "unat (r OR of_nat (q * 2 ^ n) :: u32) = unat r + q * 2 ^ n"
proof -
  have "of_nat (q * 2 ^ n) = (push_bit n (of_nat q) :: u32)" by (simp add: push_bit_eq_mult)
  moreover have "take_bit n r = r" using assms(1)
    by (intro word_unat_eq_iff [THEN iffD2]) (simp add: unsigned_take_bit_eq take_bit_nat_eq_self)
  then have "\<not> bit r m" if "n \<le> m" for m using that by (metis bit_take_bit_iff not_le)
  ultimately have "r OR of_nat (q * 2 ^ n) = r + of_nat (q * 2 ^ n)"
    by (intro disjunctive_add [symmetric]) (auto simp: bit_push_bit_iff)
  moreover have "unat (r + of_nat (q * 2 ^ n)) = unat r + q * 2 ^ n"
  proof -
    define t where "t = unat r"
    then have t: "unat r = t" "r = of_nat t" by simp_all
    have "t + q * 2 ^ n < 2 ^ 32"
    proof (cases "n < 32")
      case True
      then have e: "(2 :: nat) ^ 32 = 2 ^ (32 - n) * 2 ^ n" by (simp flip: power_add)
      then have "q < 2 ^ (32 - n)" using assms(2) unfolding e by simp
      then have "(q + 1) * 2 ^ n \<le> 2 ^ (32 - n) * 2 ^ n" by (intro mult_right_mono) simp_all
      then show ?thesis using assms(1) e t by simp
    next
      case False
      then have "(2 :: nat) ^ 32 \<le> 2 ^ n" by (intro power_increasing) simp_all
      then have "q = 0" using assms(2) by (cases q) auto
      then show ?thesis using t unsigned_less [of r, where 'a = nat] by simp
    qed
    then have "unat (of_nat (t + q * 2 ^ n) :: u32) = t + q * 2 ^ n" by (simp only: unat_of_nat) simp
    moreover have "r + of_nat (q * 2 ^ n) = of_nat (t + q * 2 ^ n)" by (simp add: t(2))
    ultimately show ?thesis using t(1) by (simp only:)
  qed
  ultimately show ?thesis by simp
qed

lemma unat_add_cont:
  assumes "unat r < 2 ^ 26"
  shows "unat (add_cont r b) = unat r * 64 + unat b mod 64"
proof -
  have m: "ucast b AND 0x3F = (of_nat (unat b mod 64) :: u32)"
  proof -
    have "ucast b AND 0x3F = (take_bit 6 (ucast b) :: u32)" by (simp add: take_bit_eq_mask mask_eq_exp_minus_1)
    also have "\<dots> = take_bit 6 (of_nat (unat b))" by simp
    also have "\<dots> = of_nat (take_bit 6 (unat b))" by (rule take_bit_of_nat)
    finally show ?thesis by (simp add: take_bit_eq_mod)
  qed
  have p: "push_bit 6 r = of_nat (unat r * 2 ^ 6)" by (simp add: push_bit_eq_mult)
  have l: "unat (of_nat (unat b mod 64) :: u32) = unat b mod 64" by (simp add: unat_of_nat)
  have "unat (of_nat (unat b mod 64) OR of_nat (unat r * 2 ^ 6) :: u32) =
      unat (of_nat (unat b mod 64) :: u32) + unat r * 2 ^ 6"
    using assms l by (intro unat_or_disjoint) simp_all
  then show ?thesis unfolding m p l by (simp add: or.commute)
qed

text \<open>The bits of the first byte, moved above the continuation bits.\<close>

lemma lead_bits:
  "map (\<lambda>m. push_bit 5 (push_bit 1 (of_nat m) AND 0x7F) :: u32) [192..<224] = map (\<lambda>m. (of_nat m - 192) * 64) [192..<224]"
  "map (\<lambda>m. push_bit 10 (push_bit 2 (of_nat m) AND 0x7F) :: u32) [224..<240] = map (\<lambda>m. (of_nat m - 224) * 4096) [224..<240]"
  "map (\<lambda>m. push_bit 15 (push_bit 3 (of_nat m) AND 0x7F) :: u32) [240..<248] = map (\<lambda>m. (of_nat m - 240) * 262144) [240..<248]"
  by code_simp+

lemma map_upt_eqD: "map f [a..<b] = map g [a..<b] \<Longrightarrow> a \<le> n \<Longrightarrow> n < b \<Longrightarrow> f n = g n"
  by (auto simp: map_eq_conv)

lemma lead_bits_byte:
  "192 \<le> unat b \<Longrightarrow> unat b < 224 \<Longrightarrow> push_bit (1 * 5) (push_bit 1 (ucast b) AND 0x7F) =
     (of_nat ((unat b - (256 - 2 ^ (7 - 1))) * 2 ^ (6 * 1)) :: u32)"
  "224 \<le> unat b \<Longrightarrow> unat b < 240 \<Longrightarrow> push_bit (2 * 5) (push_bit 2 (ucast b) AND 0x7F) =
     (of_nat ((unat b - (256 - 2 ^ (7 - 2))) * 2 ^ (6 * 2)) :: u32)"
  "240 \<le> unat b \<Longrightarrow> unat b < 248 \<Longrightarrow> push_bit (3 * 5) (push_bit 3 (ucast b) AND 0x7F) =
     (of_nat ((unat b - (256 - 2 ^ (7 - 3))) * 2 ^ (6 * 3)) :: u32)"
  using map_upt_eqD [OF lead_bits(1), of "unat b"] map_upt_eqD [OF lead_bits(2), of "unat b"]
    map_upt_eqD [OF lead_bits(3), of "unat b"]
  by (simp_all add: of_nat_diff)

lemma unat_ucast_byte [simp]: "unat (ucast (b :: byte) :: u32) = unat b"
proof -
  have "unat b < 2 ^ 32" using unsigned_less [of b, where 'a = nat] by simp
  then have "unat (of_nat (unat b) :: u32) = unat b"
    by (simp only: unat_of_nat len_bit0 len_num1 mod_less) simp
  then show ?thesis by simp
qed

text \<open>The decoder reads code points of one byte, and of two to four in the ranges of the standard.\<close>

lemma decode_ascii: "p < length s \<Longrightarrow> unat (s ! p) < 128 \<Longrightarrow> utf8_decode s p = Inr (Some (unat (s ! p), p + 1))"
  by (simp add: utf8_decode_def rd_def word_less_nat_alt)

lemma ucast_ge_128: "128 \<le> unat b \<Longrightarrow> \<not> (ucast (b :: byte) :: u32) < 0x80"
  by (simp add: word_less_nat_alt)

text \<open>The value of \<open>k\<close> continuation bytes.\<close>

definition conts_val :: "byte list \<Rightarrow> nat" where
  "conts_val bs = foldl (\<lambda>r b. r * 64 + unat b mod 64) 0 bs"

lemma foldl_add_cont:
  assumes "length bs \<le> 4"
  shows "unat (foldl add_cont 0 bs) = conts_val bs \<and> conts_val bs < 2 ^ (6 * length bs)"
  using assms
proof (induction bs rule: rev_induct)
  case (snoc b bs)
  then have i: "unat (foldl add_cont 0 bs) = conts_val bs" "conts_val bs < 2 ^ (6 * length bs)" by simp_all
  have "(2 :: nat) ^ (6 * length bs) \<le> 2 ^ 18" using snoc.prems by (intro power_increasing) simp_all
  then have "unat (foldl add_cont 0 bs) < 2 ^ 26" using i by simp
  moreover have "conts_val bs * 64 + unat b mod 64 < 2 ^ (6 * length bs) * 64"
    using i(2) mod_less_divisor [of 64 "unat b"] by linarith
  ultimately show ?case using i(1) by (simp add: unat_add_cont conts_val_def power_add)
qed (simp add: conts_val_def)

lemma length_conts [simp]: "length (conts s p 0 k) = k"
  by (simp add: conts_def)

lemma decode_multi:
  assumes p: "p < length s" and b: "128 \<le> unat (s ! p)" and k: "lead (s ! p) = k" "k \<in> {1, 2, 3}"
    and ok: "conts_ok s p 0 k"
  defines "v \<equiv> (unat (s ! p) - (256 - 2 ^ (7 - k))) * 2 ^ (6 * k) + conts_val (conts s p 0 k)"
  shows "utf8_decode s p =
    Inr (if v \<le> [0xFF, 0x7F, 0x7FF, 0xFFFF] ! k \<or> \<not> is_scalar v then None else Some (v, p + k + 1))"
proof -
  define c where "c = conts_val (conts s p 0 k)"
  define res where "res = foldl add_cont 0 (conts s p 0 k)"
  have c: "unat res = c" "c < 2 ^ (6 * k)"
    using foldl_add_cont [of "conts s p 0 k"] k(2) by (auto simp: res_def c_def)
  have lo: "lead_of (unat (s ! p)) = k" using lead_cases [OF b] k by simp
  define q where "q = unat (s ! p) - (256 - 2 ^ (7 - k))"
  have q: "q < 2 ^ (6 - k)" using lo k(2) by (auto simp: q_def lead_of_def split: if_splits)
  have lb: "push_bit (k * 5) (push_bit k (ucast (s ! p)) AND 0x7F) = (of_nat (q * 2 ^ (6 * k)) :: u32)"
  proof -
    consider "k = 1" "192 \<le> unat (s ! p)" "unat (s ! p) < 224" | "k = 2" "224 \<le> unat (s ! p)" "unat (s ! p) < 240"
      | "k = 3" "240 \<le> unat (s ! p)" "unat (s ! p) < 248"
      using lo k(2) by (auto simp: lead_of_def split: if_splits)
    then show ?thesis unfolding q_def by cases (simp_all only: lead_bits_byte)
  qed
  have "q * 2 ^ (6 * k) < 2 ^ (6 - k) * 2 ^ (6 * k)" using q by simp
  also have "\<dots> \<le> 2 ^ 32" using k(2) by auto
  finally have "q * 2 ^ (6 * k) < 2 ^ 32" .
  then have u: "unat (res OR of_nat (q * 2 ^ (6 * k))) = v"
    using unat_or_disjoint [of res "6 * k" q] c unfolding v_def q_def [symmetric] c_def by simp
  define w where "w = res OR of_nat (q * 2 ^ (6 * k))"
  have w: "unat w = v" "w = of_nat v" using u by (simp_all add: w_def flip: u)
  have v32: "v < 2 ^ 32" using unsigned_less [of w, where 'a = nat] w by simp
  have sub: "(w - 0xD800 < 0x800) = (0xD800 \<le> v \<and> v < 0xE000)"
  proof (cases "0xD800 \<le> v")
    case True
    then have "w - 0xD800 = of_nat (v - 0xD800)" by (simp add: w(2) of_nat_diff)
    moreover have "unat (of_nat (v - 0xD800) :: u32) = v - 0xD800"
      using v32 True by (simp add: unat_of_nat del: of_nat_diff)
    ultimately show ?thesis using True by (simp add: word_less_nat_alt) linarith
  next
    case False
    have "w - 0xD800 = of_nat (v + (2 ^ 32 - 0xD800))" by (simp add: w(2))
    moreover have "unat (of_nat (v + (2 ^ 32 - 0xD800)) :: u32) = v + (2 ^ 32 - 0xD800)"
      using v32 False by (simp add: unat_of_nat del: of_nat_add)
    ultimately have "unat (w - 0xD800) = v + (2 ^ 32 - 0xD800)" by (simp only:)
    then show ?thesis using False by (simp add: word_less_nat_alt)
  qed
  have cmp: "(w > of_nat MAXUNICODE) = (v > MAXUNICODE)"
    "(w \<le> utf8_limits ! k) = (v \<le> [0xFF, 0x7F, 0x7FF, 0xFFFF] ! k)"
    using w(1) k(2) by (auto simp: word_less_nat_alt word_le_nat_alt utf8_limits_def)
  have loop: "utf8_decode_loop s p (ucast (s ! p)) 0 0 = Inr (Some (push_bit k (ucast (s ! p)), k, res))"
    using decode_loop_eq [of 0 "s ! p" p s 0] p k ok by (simp add: res_def)
  have r: "rd s p = Inr (s ! p)" using p by (simp add: rd_def)
  have k3: "k * 5 < 32" "\<not> 3 < k" using k(2) by auto
  show ?thesis
    using b unfolding utf8_decode_def r bindE_simps Let_def loop option.case prod.case lb w_def [symmetric]
      cmp sub
    by (simp add: k3 ucast_ge_128 w(1) is_scalar_def)
qed

lemma decode_bad_conts:
  assumes "p < length s" and "128 \<le> unat (s ! p)" and "\<not> conts_ok s p 0 (lead (s ! p))"
  shows "utf8_decode s p = Inr None"
  using assms decode_loop_eq [of 0 "s ! p" p s 0]
  by (simp add: utf8_decode_def rd_def ucast_ge_128 Let_def)

lemma decode_bad_lead:
  assumes "p < length s" and "128 \<le> unat (s ! p)" and "conts_ok s p 0 (lead (s ! p))"
    and "lead (s ! p) = 0 \<or> 3 < lead (s ! p)"
  shows "utf8_decode s p = (if lead (s ! p) = 7 then Inl (Undefined ''shift'') else Inr None)"
proof -
  have loop: "utf8_decode_loop s p (ucast (s ! p)) 0 0 = Inr (Some (push_bit (lead (s ! p)) (ucast (s ! p)),
      lead (s ! p), foldl add_cont 0 (conts s p 0 (lead (s ! p)))))"
    using decode_loop_eq [of 0 "s ! p" p s 0] assms by simp
  have "(ucast (s ! p) AND 0x7F :: u32) \<le> 0x7F" by (rule word_and_le1)
  then have z: "(ucast (s ! p) AND 0x7F :: u32) \<le> 0xFF" by (rule order_trans) simp
  have l: "lead (s ! p) = lead_of (unat (s ! p))" using assms(2) by (rule lead_cases)
  then consider "lead (s ! p) = 0" | "lead (s ! p) = 7"
    | "3 < lead (s ! p)" "lead (s ! p) * 5 < 32" "lead (s ! p) \<noteq> 7"
    using assms(4) by (auto simp: lead_of_def split: if_splits)
  then show ?thesis
  proof cases
    case 1
    then show ?thesis using assms(1,2) loop z
      by (simp add: utf8_decode_def rd_def ucast_ge_128 utf8_limits_def conts_def Let_def)
  next
    case 2
    then show ?thesis using assms(1,2) loop by (simp add: utf8_decode_def rd_def ucast_ge_128)
  next
    case 3
    then show ?thesis using assms(1,2) loop by (simp add: utf8_decode_def rd_def ucast_ge_128 Let_def)
  qed
qed

lemma conts_1_2_3:
  "conts s p 0 1 = [s ! (p + 1)]"
  "conts s p 0 2 = [s ! (p + 1), s ! (p + 2)]"
  "conts s p 0 3 = [s ! (p + 1), s ! (p + 2), s ! (p + 3)]"
  by (simp_all add: conts_def upt_rec numeral_eq_Suc)

lemma conts_ok_Suc:
  "conts_ok s p 0 0"
  "conts_ok s p 0 (Suc k) \<longleftrightarrow> conts_ok s p 0 k \<and> p + Suc k < length s \<and> iscont (s ! (p + Suc k))"
  unfolding conts_ok_def le_Suc_eq by blast+

lemma conts_ok_1_2_3:
  "conts_ok s p 0 1 \<longleftrightarrow> p + 1 < length s \<and> iscont (s ! (p + 1))"
  "conts_ok s p 0 2 \<longleftrightarrow> conts_ok s p 0 1 \<and> p + 2 < length s \<and> iscont (s ! (p + 2))"
  "conts_ok s p 0 3 \<longleftrightarrow> conts_ok s p 0 2 \<and> p + 3 < length s \<and> iscont (s ! (p + 3))"
  using conts_ok_Suc(2) [of s p 0] conts_ok_Suc(2) [of s p 1] conts_ok_Suc(2) [of s p 2]
  by (simp_all add: conts_ok_Suc(1) numeral_2_eq_2 numeral_3_eq_3)

lemma take_drop_nth:
  assumes "p + k < length s"
  shows "take (Suc k) (drop p s) = s ! p # conts s p 0 k"
proof (rule nth_equalityI)
  fix i assume "i < length (take (Suc k) (drop p s))"
  then have "i \<le> k" by simp
  then show "take (Suc k) (drop p s) ! i = (s ! p # conts s p 0 k) ! i"
    using assms by (cases i) (simp_all add: conts_def nth_upt del: upt_Suc)
qed (use assms in simp)

text \<open>The bytes of a scalar value, as numbers, and the value they are decoded to.\<close>

lemma unat_of_nat_byte: "n < 256 \<Longrightarrow> unat (of_nat n :: byte) = n"
  by (simp add: unat_of_nat)

lemma map_of_nat_byte_eq_iff:
  "(\<forall>n\<in>set ns. n < 256) \<Longrightarrow> map of_nat ns = (bs :: byte list) \<longleftrightarrow> ns = map unat bs"
proof
  assume "\<forall>n\<in>set ns. n < 256" "map of_nat ns = bs"
  then show "ns = map unat bs" by (auto simp: unat_of_nat_byte intro!: map_idI [symmetric])
qed (simp add: map_idI)

lemma utf8_bytes_less: "c \<le> MAXUNICODE \<Longrightarrow> \<forall>n\<in>set (utf8_bytes c). n < 256"
  by (auto simp: utf8_bytes_def)

lemma utf8_encode_eq_iff:
  "c \<le> MAXUNICODE \<Longrightarrow> utf8_encode c = bs \<longleftrightarrow> utf8_bytes c = map unat bs"
  unfolding utf8_encode_def by (rule map_of_nat_byte_eq_iff) (rule utf8_bytes_less)

lemma digit_step: "z < 64 \<Longrightarrow> (a * 64 + z) div 64 = a" "z < 64 \<Longrightarrow> (a * 64 + z) mod 64 = z" for a z :: nat
  by simp_all

lemma div_4096: "c div 4096 = c div 64 div 64" "c div 262144 = c div 64 div 64 div 64" for c :: nat
  by (simp_all flip: div_mult2_eq)

lemma utf8_bytes_of_digits:
  "y < 64 \<Longrightarrow> x < 32 \<Longrightarrow> v = x * 64 + y \<Longrightarrow> 0x7F < v \<Longrightarrow> utf8_bytes v = [192 + x, 128 + y]"
  "y < 64 \<Longrightarrow> z < 64 \<Longrightarrow> x < 16 \<Longrightarrow> v = (x * 64 + y) * 64 + z \<Longrightarrow> 0x7FF < v \<Longrightarrow>
     utf8_bytes v = [224 + x, 128 + y, 128 + z]"
  "y < 64 \<Longrightarrow> z < 64 \<Longrightarrow> w < 64 \<Longrightarrow> v = ((x * 64 + y) * 64 + z) * 64 + w \<Longrightarrow> 0xFFFF < v \<Longrightarrow>
     utf8_bytes v = [240 + x, 128 + y, 128 + z, 128 + w]"
  unfolding utf8_bytes_def div_4096 by (simp_all only: digit_step) simp_all

lemma lead_digit:
  "lead_of n = 1 \<Longrightarrow> \<exists>x. n = 192 + x \<and> x < 32"
  "lead_of n = 2 \<Longrightarrow> \<exists>x. n = 224 + x \<and> x < 16"
  "lead_of n = 3 \<Longrightarrow> \<exists>x. n = 240 + x \<and> x < 8"
  by (rule exI [of _ "n - 192"], simp add: lead_of_def split: if_splits)
    (rule exI [of _ "n - 224"], simp add: lead_of_def split: if_splits,
     rule exI [of _ "n - 240"], simp add: lead_of_def split: if_splits)

lemma lead_of_digit:
  "x < 32 \<Longrightarrow> lead_of (192 + x) = 1 \<and> 128 \<le> 192 + x"
  "x < 16 \<Longrightarrow> lead_of (224 + x) = 2 \<and> 128 \<le> 224 + x"
  "x < 8 \<Longrightarrow> lead_of (240 + x) = 3 \<and> 128 \<le> 240 + x"
  by (simp_all add: lead_of_def)

lemma iscont_digit: "iscont b \<Longrightarrow> \<exists>y. unat b = 128 + y \<and> y < 64 \<and> (128 + y) mod 64 = y"
  unfolding iscont_iff by (intro exI [of _ "unat b - 128"]) (auto simp: mod_if)

lemma multi_bytes:
  assumes b: "128 \<le> unat (s ! p)" and k: "lead (s ! p) = k" "k \<in> {1, 2, 3}" and ok: "conts_ok s p 0 k"
  defines "v \<equiv> (unat (s ! p) - (256 - 2 ^ (7 - k))) * 2 ^ (6 * k) + conts_val (conts s p 0 k)"
  assumes v: "[0xFF, 0x7F, 0x7FF, 0xFFFF] ! k < v"
  shows "utf8_bytes v = map unat (s ! p # conts s p 0 k)"
proof -
  have l: "lead_of (unat (s ! p)) = k" using lead_cases [OF b] k by simp
  from k(2) consider "k = 1" | "k = 2" | "k = 3" by blast
  then show ?thesis
  proof cases
    case 1
    obtain x y where d: "unat (s ! p) = 192 + x" "x < 32" "unat (s ! (p + 1)) = 128 + y" "y < 64"
      "(128 + y) mod 64 = y"
      using that l b ok lead_digit(1) [of "unat (s ! p)"] iscont_digit [of "s ! (p + 1)"]
      unfolding 1 conts_ok_1_2_3 by blast
    then have "v = x * 64 + y" unfolding v_def 1 conts_1_2_3 by (simp add: conts_val_def)
    then show ?thesis using v d utf8_bytes_of_digits(1) [of y x v] unfolding 1 conts_1_2_3 by simp
  next
    case 2
    obtain x y z where d: "unat (s ! p) = 224 + x" "x < 16" "unat (s ! (p + 1)) = 128 + y" "y < 64"
      "(128 + y) mod 64 = y" "unat (s ! (p + 2)) = 128 + z" "z < 64" "(128 + z) mod 64 = z"
      using that l ok lead_digit(2) [of "unat (s ! p)"] iscont_digit [of "s ! (p + 1)"]
        iscont_digit [of "s ! (p + 2)"] unfolding 2 conts_ok_1_2_3 by blast
    then have "v = (x * 64 + y) * 64 + z" unfolding v_def 2 conts_1_2_3 by (simp add: conts_val_def)
    then show ?thesis using v d utf8_bytes_of_digits(2) [of y z x v] unfolding 2 conts_1_2_3 by simp
  next
    case 3
    obtain x y z w where d: "unat (s ! p) = 240 + x" "x < 8" "unat (s ! (p + 1)) = 128 + y" "y < 64"
      "(128 + y) mod 64 = y" "unat (s ! (p + 2)) = 128 + z" "z < 64" "(128 + z) mod 64 = z"
      "unat (s ! (p + 3)) = 128 + w" "w < 64" "(128 + w) mod 64 = w"
      using that l ok lead_digit(3) [of "unat (s ! p)"] iscont_digit [of "s ! (p + 1)"]
        iscont_digit [of "s ! (p + 2)"] iscont_digit [of "s ! (p + 3)"]
      unfolding 3 conts_ok_1_2_3 by blast
    then have "v = ((x * 64 + y) * 64 + z) * 64 + w" unfolding v_def 3 conts_1_2_3
      by (simp add: conts_val_def)
    then show ?thesis using v d utf8_bytes_of_digits(3) [of y z w v x] unfolding 3 conts_1_2_3 by simp
  qed
qed

lemma bytes_multi:
  assumes c: "128 \<le> c" "c \<le> MAXUNICODE" and e: "utf8_bytes c = map unat (s ! p # conts s p 0 k)"
    and len: "p + k < length s"
  shows "128 \<le> unat (s ! p) \<and> lead (s ! p) = k \<and> k \<in> {1, 2, 3} \<and> conts_ok s p 0 k \<and>
    [0xFF, 0x7F, 0x7FF, 0xFFFF] ! k < c \<and>
    (unat (s ! p) - (256 - 2 ^ (7 - k))) * 2 ^ (6 * k) + conts_val (conts s p 0 k) = c"
proof -
  have "length (utf8_bytes c) = Suc k" using e by simp
  then have k: "k = (if c < 0x800 then 1 else if c < 0x10000 then 2 else 3)"
    using c by (simp add: utf8_bytes_def split: if_splits)
  have h: "unat (s ! p) = hd (utf8_bytes c)" using e by simp
  have b: "128 \<le> unat (s ! p) \<and> lead_of (unat (s ! p)) = k"
  proof -
    have d: "c < 0x800 \<Longrightarrow> c div 64 < 32" "c < 0x10000 \<Longrightarrow> c div 4096 < 16" "c div 262144 < 8"
      using c by (simp_all add: div_less_iff_less_mult)
    consider "c < 0x800" | "0x800 \<le> c" "c < 0x10000" | "0x10000 \<le> c" by linarith
    then show ?thesis
    proof cases
      case 1
      then have "hd (utf8_bytes c) = 192 + c div 64" "k = 1" using c(1) k by (simp_all add: utf8_bytes_def)
      then show ?thesis using lead_of_digit(1) [OF d(1) [OF 1]] unfolding h by (simp only: simp_thms)
    next
      case 2
      then have "hd (utf8_bytes c) = 224 + c div 4096" "k = 2" using k by (simp_all add: utf8_bytes_def)
      then show ?thesis using lead_of_digit(2) [OF d(2) [OF 2(2)]] unfolding h by (simp only: simp_thms)
    next
      case 3
      then have "hd (utf8_bytes c) = 240 + c div 262144" "k = 3" using k by (simp_all add: utf8_bytes_def)
      then show ?thesis using lead_of_digit(3) [OF d(3)] unfolding h by (simp only: simp_thms)
    qed
  qed
  then have l: "lead (s ! p) = k" using lead_cases by simp
  have m: "(128 + n mod 64) mod 64 = n mod 64" for n :: nat
  proof -
    have "128 + n mod 64 = n mod 64 + 2 * 64" by simp
    then show ?thesis by (simp only: mod_mult_self1 mod_mod_trivial)
  qed
  have "k = 1 \<and> c < 0x800 \<or> k = 2 \<and> 0x800 \<le> c \<and> c < 0x10000 \<or> k = 3 \<and> 0x10000 \<le> c"
    unfolding k by (cases "c < 0x800"; cases "c < 0x10000") simp_all
  then consider "k = 1" "c < 0x800" | "k = 2" "0x800 \<le> c" "c < 0x10000" | "k = 3" "0x10000 \<le> c"
    by blast
  then show ?thesis
  proof cases
    case 1
    then have d: "unat (s ! p) = 192 + c div 64" "unat (s ! (p + 1)) = 128 + c mod 64"
      using e c unfolding 1 conts_1_2_3 by (simp_all add: utf8_bytes_def)
    then show ?thesis using b l 1 len c unfolding 1 conts_1_2_3 conts_ok_1_2_3
      by (simp add: conts_val_def iscont_iff m)
  next
    case 2
    then have d: "unat (s ! p) = 224 + c div 4096" "unat (s ! (p + 1)) = 128 + c div 64 mod 64"
        "unat (s ! (p + 2)) = 128 + c mod 64"
      using e c unfolding 2 conts_1_2_3 by (simp_all add: utf8_bytes_def)
    moreover have "c div 4096 * 4096 + (c div 64 mod 64) * 64 + c mod 64 = c"
      using div_mult_mod_eq [of c 64] div_mult_mod_eq [of "c div 64" 64] unfolding div_4096 by linarith
    ultimately show ?thesis using b l 2 len c unfolding 2 conts_1_2_3 conts_ok_1_2_3
      by (simp add: conts_val_def iscont_iff m algebra_simps)
  next
    case 3
    then have d: "unat (s ! p) = 240 + c div 262144" "unat (s ! (p + 1)) = 128 + c div 4096 mod 64"
        "unat (s ! (p + 2)) = 128 + c div 64 mod 64" "unat (s ! (p + 3)) = 128 + c mod 64"
      using e c unfolding 3 conts_1_2_3 by (simp_all add: utf8_bytes_def)
    moreover have "c div 262144 * 262144 + (c div 4096 mod 64) * 4096 + (c div 64 mod 64) * 64 + c mod 64 = c"
      using div_mult_mod_eq [of c 64] div_mult_mod_eq [of "c div 64" 64] div_mult_mod_eq [of "c div 64 div 64" 64]
      unfolding div_4096 by linarith
    ultimately show ?thesis using b l 3 len c unfolding 3 conts_1_2_3 conts_ok_1_2_3
      by (simp add: conts_val_def iscont_iff m algebra_simps)
  qed
qed

section \<open>Correctness of the decoder\<close>

text \<open>The one input on which the decoder leaves the language: the shift by \<open>7 * 5\<close> bits.\<close>

definition overlong_ff :: "byte list \<Rightarrow> nat \<Rightarrow> bool" where
  "overlong_ff s p \<longleftrightarrow> p < length s \<and> s ! p = 0xFF \<and> conts_ok s p 0 7"

lemma is_scalar_le: "is_scalar c \<Longrightarrow> c \<le> MAXUNICODE"
  by (simp add: is_scalar_def)

lemma utf8_bytes_ascii: "c < 128 \<Longrightarrow> utf8_bytes c = [c]"
  by (simp add: utf8_bytes_def)

lemma utf8_bytes_hd: "128 \<le> c \<Longrightarrow> 128 \<le> hd (utf8_bytes c) \<and> 2 \<le> length (utf8_bytes c)"
  by (simp add: utf8_bytes_def)

lemma utf8_bytes_ne: "utf8_bytes c \<noteq> []"
  by (simp add: utf8_bytes_def)

lemma limits_ge: "k \<in> {1, 2, 3} \<Longrightarrow> 0x7F \<le> [0xFF, 0x7F, 0x7FF, 0xFFFF :: nat] ! k"
  by auto

lemma decode_Some_iff:
  assumes p: "p < length s"
  shows "utf8_decode s p = Inr (Some (c, p')) \<longleftrightarrow>
    is_scalar c \<and> p' = p + length (utf8_bytes c) \<and>
    utf8_bytes c = map unat (take (length (utf8_bytes c)) (drop p s))"
proof (cases "unat (s ! p) < 128")
  case True
  have eq: "utf8_bytes c = map unat (take (length (utf8_bytes c)) (drop p s)) \<longleftrightarrow> c = unat (s ! p)"
  proof
    assume e: "utf8_bytes c = map unat (take (length (utf8_bytes c)) (drop p s))"
    then have "hd (utf8_bytes c) = unat (s ! p)"
      using p utf8_bytes_ne [of c] by (metis hd_drop_conv_nth hd_map hd_take length_greater_0_conv list.map_disc_iff)
    then show "c = unat (s ! p)" using True utf8_bytes_hd [of c] utf8_bytes_ascii [of c] by (cases "c < 128") auto
  next
    assume "c = unat (s ! p)"
    then show "utf8_bytes c = map unat (take (length (utf8_bytes c)) (drop p s))"
      using True p by (simp add: utf8_bytes_ascii take_Suc hd_drop_conv_nth)
  qed
  show ?thesis unfolding eq using decode_ascii [OF p True] True by (auto simp: utf8_bytes_ascii is_scalar_def)
next
  case False
  then have b: "128 \<le> unat (s ! p)" by simp
  define k where "k = lead (s ! p)"
  have imp: "k \<in> {1, 2, 3} \<and> conts_ok s p 0 k \<and> Suc k = length (utf8_bytes c) \<and>
      [0xFF, 0x7F, 0x7FF, 0xFFFF] ! k < c \<and>
      (unat (s ! p) - (256 - 2 ^ (7 - k))) * 2 ^ (6 * k) + conts_val (conts s p 0 k) = c"
    if "is_scalar c" and e: "utf8_bytes c = map unat (take (length (utf8_bytes c)) (drop p s))"
  proof -
    obtain j where j: "length (utf8_bytes c) = Suc j" using utf8_bytes_ne [of c] by (metis length_0_conv not0_implies_Suc)
    have "length (take (Suc j) (drop p s)) = Suc j" using e j by (metis length_map)
    then have l: "p + j < length s" by auto
    then have e': "utf8_bytes c = map unat (s ! p # conts s p 0 j)" using e j take_drop_nth [OF l] by simp
    then have "128 \<le> c" using b utf8_bytes_ascii [of c] by (cases "c < 128") auto
    with bytes_multi [OF _ is_scalar_le [OF that(1)] e' l] show ?thesis unfolding k_def j by auto
  qed
  show ?thesis
  proof (cases "conts_ok s p 0 k \<and> k \<in> {1, 2, 3}")
    case True
    define v where "v = (unat (s ! p) - (256 - 2 ^ (7 - k))) * 2 ^ (6 * k) + conts_val (conts s p 0 k)"
    have dec: "utf8_decode s p =
        Inr (if v \<le> [0xFF, 0x7F, 0x7FF, 0xFFFF] ! k \<or> \<not> is_scalar v then None else Some (v, p + k + 1))"
      using decode_multi [OF p b, of k] True by (simp add: k_def v_def)
    have len: "p + k < length s" using True by (auto simp: conts_ok_def)
    have "utf8_bytes v = map unat (s ! p # conts s p 0 k)" if "[0xFF, 0x7F, 0x7FF, 0xFFFF] ! k < v"
      using multi_bytes [OF b, of k] True that by (simp add: k_def v_def)
    then have "[0xFF, 0x7F, 0x7FF, 0xFFFF] ! k < v \<Longrightarrow> length (utf8_bytes v) = Suc k \<and>
        utf8_bytes v = map unat (take (Suc k) (drop p s))"
      using take_drop_nth [OF len] by simp
    then show ?thesis using dec imp by (auto simp flip: v_def simp del: length_map)
  next
    case False
    then have "utf8_decode s p \<noteq> Inr (Some (c, p'))"
      using decode_bad_conts [OF p b] decode_bad_lead [OF p b] b
      by (cases "conts_ok s p 0 k") (auto simp: k_def lead_cases lead_of_def split: if_splits)
    then show ?thesis using imp False by blast
  qed
qed

lemma decode_Inl_iff:
  assumes p: "p < length s"
  shows "utf8_decode s p = Inl e \<longleftrightarrow> overlong_ff s p \<and> e = Undefined ''shift''"
proof (cases "unat (s ! p) < 128")
  case True
  then show ?thesis using decode_ascii [OF p True] by (auto simp: overlong_ff_def)
next
  case False
  then have b: "128 \<le> unat (s ! p)" by simp
  have ff: "lead (s ! p) = 7 \<longleftrightarrow> s ! p = 0xFF"
  proof -
    have "unat (s ! p) < 256" using unsigned_less [of "s ! p", where 'a = nat] by simp
    then have "lead (s ! p) = 7 \<longleftrightarrow> unat (s ! p) = unat (0xFF :: byte)" using lead_cases [OF b] by (auto simp: lead_of_def)
    then show ?thesis by (simp only: word_unat_eq_iff)
  qed
  have "lead (s ! p) \<in> {1, 2, 3} \<or> lead (s ! p) = 0 \<or> 3 < lead (s ! p)" by auto
  then show ?thesis
    using decode_bad_conts [OF p b] decode_bad_lead [OF p b] decode_multi [OF p b] ff p
    by (cases "conts_ok s p 0 (lead (s ! p))") (auto simp: overlong_ff_def)
qed


section \<open>Texts\<close>

definition utf8_text :: "nat list \<Rightarrow> byte list" where
  "utf8_text cs = concat (map utf8_encode cs)"

lemma utf8_text_simps [simp]:
  "utf8_text [] = []"
  "utf8_text (c # cs) = utf8_encode c @ utf8_text cs"
  by (simp_all add: utf8_text_def)

lemma length_utf8_encode [simp]: "length (utf8_encode c) = length (utf8_bytes c)"
  by (simp add: utf8_encode_def)

lemma decode_Some_encode_iff:
  assumes "p < length s"
  shows "utf8_decode s p = Inr (Some (c, p')) \<longleftrightarrow>
    is_scalar c \<and> p' = p + length (utf8_encode c) \<and> take (length (utf8_encode c)) (drop p s) = utf8_encode c"
proof -
  have "is_scalar c \<Longrightarrow> take (length (utf8_encode c)) (drop p s) = utf8_encode c \<longleftrightarrow>
      utf8_bytes c = map unat (take (length (utf8_bytes c)) (drop p s))"
    using utf8_encode_eq_iff [OF is_scalar_le] by (metis length_utf8_encode)
  then show ?thesis unfolding decode_Some_iff [OF assms] by auto
qed

lemma utf8_encode_ne [simp]: "utf8_encode c \<noteq> []"
  by (simp add: utf8_encode_def utf8_bytes_ne)

lemma utf8_encode_pos: "0 < length (utf8_encode c)"
  using utf8_bytes_ne [of c] by simp

lemma decode_at:
  assumes "drop p s = utf8_encode c @ r" and "is_scalar c"
  shows "p < length s \<and> utf8_decode s p = Inr (Some (c, p + length (utf8_encode c))) \<and>
    drop (p + length (utf8_encode c)) s = r \<and> p + length (utf8_encode c) \<le> length s"
proof -
  have "drop p s \<noteq> []" using assms(1) by simp
  then have "p < length s" by simp
  moreover have "p + length (utf8_encode c) \<le> length s"
    using arg_cong [OF assms(1), of length] \<open>p < length s\<close> by simp
  moreover have "drop (p + length (utf8_encode c)) s = r"
    using assms(1) by (metis add.commute append_eq_conv_conj drop_drop)
  ultimately show ?thesis using assms by (simp add: decode_Some_encode_iff)
qed

text \<open>The loops of \<open>utflen\<close> and \<open>codepoint\<close> up to the end of the string.\<close>

lemma utflen_loop_text:
  "drop p s = utf8_text cs \<Longrightarrow> list_all is_scalar cs \<Longrightarrow> p \<le> length s \<Longrightarrow>
     utflen_loop s (int p) (int (length s) - 1) n = Inr [lua_pushinteger (n + int (length cs))]"
proof (induction cs arbitrary: p n)
  case Nil
  then show ?case by (simp add: utflen_loop.simps [of s "int p"])
next
  case (Cons c cs)
  let ?q = "p + length (utf8_encode c)"
  have d: "p < length s" "utf8_decode s p = Inr (Some (c, ?q))" "drop ?q s = utf8_text cs" "?q \<le> length s"
    using decode_at [of p s c "utf8_text cs"] Cons.prems by simp_all
  then have "utflen_loop s (int ?q) (int (length s) - 1) (n + 1) = Inr [lua_pushinteger (n + 1 + int (length cs))]"
    using Cons.IH [of ?q "n + 1"] Cons.prems d(3) by simp
  then show ?case using d(1,2) by (subst utflen_loop.simps) (simp add: add.assoc)
qed

lemma utflen_loop_only_text:
  assumes "utflen_loop s (int p) (int (length s) - 1) n = Inr [v]" and "p \<le> length s"
  shows "\<exists>cs. list_all is_scalar cs \<and> drop p s = utf8_text cs \<and> v = lua_pushinteger (n + int (length cs))"
  using assms
proof (induction "length s - p" arbitrary: p n rule: less_induct)
  case less
  show ?case
  proof (cases "p < length s")
    case False
    then have "v = lua_pushinteger n" using less.prems(1) by (subst (asm) utflen_loop.simps) simp
    then show ?thesis using less.prems False by (intro exI [of _ "[]"]) simp
  next
    case True
    then obtain c q where d: "utf8_decode s p = Inr (Some (c, q))"
      using less.prems(1) by (subst (asm) utflen_loop.simps) (auto simp: bindE_eq_Inr_iff split: option.splits)
    then have c: "is_scalar c" "q = p + length (utf8_encode c)"
        "take (length (utf8_encode c)) (drop p s) = utf8_encode c"
      using decode_Some_encode_iff [OF True] by simp_all
    then have dp: "drop p s = utf8_encode c @ drop q s" by (metis add.commute append_take_drop_id drop_drop)
    then have q: "q \<le> length s" using decode_at [OF dp c(1)] c(2) by simp
    have rec: "utflen_loop s (int q) (int (length s) - 1) (n + 1) = Inr [v]"
      using less.prems(1) True d by (subst (asm) utflen_loop.simps) simp
    then obtain cs where cs: "list_all is_scalar cs" "drop q s = utf8_text cs"
        "v = lua_pushinteger (n + 1 + int (length cs))"
    proof -
      have "length s - q < length s - p" using c(2) utf8_encode_pos [of c] True by arith
      from less.hyps [OF this rec q] show thesis using that by blast
    qed
    then show ?thesis using dp c by (intro exI [of _ "c # cs"]) (simp add: add.assoc)
  qed
qed

lemma codepoint_loop_text:
  "drop p s = utf8_text cs \<Longrightarrow> list_all is_scalar cs \<Longrightarrow> p \<le> length s \<Longrightarrow>
     codepoint_loop s (int p) (int (length s)) = Inr (map (\<lambda>c. lua_pushinteger (int c)) cs)"
proof (induction cs arbitrary: p)
  case Nil
  then show ?case by (simp add: codepoint_loop.simps [of s "int p"])
next
  case (Cons c cs)
  let ?q = "p + length (utf8_encode c)"
  have d: "p < length s" "utf8_decode s p = Inr (Some (c, ?q))" "drop ?q s = utf8_text cs" "?q \<le> length s"
    using decode_at [of p s c "utf8_text cs"] Cons.prems by simp_all
  then show ?case using Cons.IH [of ?q] Cons.prems d by (subst codepoint_loop.simps) simp
qed

lemma utfchar_loop_text:
  assumes "\<And>i. i \<in> set is \<Longrightarrow> arg args i = Some (lua_pushinteger (int (f i))) \<and> f i \<le> MAXUNICODE"
  shows "utfchar_loop cv args is b = Inr (b @ utf8_text (map f is))"
  using assms
proof (induction "is" arbitrary: b)
  case (Cons i "is")
  then have i: "arg args i = Some (lua_pushinteger (int (f i)))" "f i \<le> MAXUNICODE" by auto
  then have "in_int32 (int (f i))" by (simp add: in_int32_def)
  then have "buffutfchar cv args i = Inr (utf8_encode (f i))"
    using i luaO_utf8esc_eq [OF i(2)] by (simp add: buffutfchar_def)
  then show ?case using Cons by simp
qed simp

lemma utfchar_text:
  assumes "list_all (\<lambda>c. c \<le> MAXUNICODE) cs"
  shows "utfchar cv (map (\<lambda>c. lua_pushinteger (int c)) cs) = Inr [TString (utf8_text cs)]"
proof -
  let ?args = "map (\<lambda>c. lua_pushinteger (int c)) cs"
  have l: "utfchar_loop cv ?args [1..<length cs + 1] [] = Inr (utf8_text (map (\<lambda>i. cs ! (i - 1)) [1..<length cs + 1]))"
    using assms by (subst utfchar_loop_text) (auto simp: arg_def list_all_length)
  have m: "map (\<lambda>i. cs ! (i - 1)) [1..<length cs + 1] = cs" by (rule nth_equalityI) (simp_all del: upt_Suc)
  show ?thesis
  proof (cases "length cs = 1")
    case True
    then obtain c where c: "cs = [c]" by (auto simp: length_Suc_conv)
    then have "utfchar_loop cv ?args [1] [] = Inr (utf8_text cs)" using l by simp
    then show ?thesis using c by (auto simp: utfchar_def bindE_eq_Inr_iff)
  next
    case False
    then show ?thesis using l m by (simp add: utfchar_def del: upt_Suc)
  qed
qed

section \<open>Properties\<close>

text \<open>C10. The decoder recognises exactly what the encoder writes: at an offset inside the string it
  returns the scalar value \<open>c\<close> and the offset behind it if and only if the bytes there are
  \<open>luaO_utf8esc(c)\<close> and \<open>c\<close> is not a surrogate. So overlong forms, surrogates, values beyond 0x10FFFF and
  truncated sequences are refused. Its one undefined behaviour is a 0xFF followed by seven continuation
  bytes, where the first byte is shifted by 35.\<close>

theorem utf8_decode_correct:
  assumes "p < length s"
  shows "(utf8_decode s p = Inr (Some (c, p')) \<longleftrightarrow>
      is_scalar c \<and> p' = p + length (luaO_utf8esc (of_nat c)) \<and> take (p' - p) (drop p s) = luaO_utf8esc (of_nat c)) \<and>
    (utf8_decode s p = Inl e \<longleftrightarrow> overlong_ff s p \<and> e = Undefined ''shift'')"
  using decode_Some_encode_iff [OF assms, of c p'] decode_Inl_iff [OF assms, of e] luaO_utf8esc_eq [of c]
    is_scalar_le [of c] by auto

lemma overlong_ff_example: "overlong_ff [0xFF, 0x80, 0x80, 0x80, 0x80, 0x80, 0x80, 0x80] 0"
proof -
  have "conts_ok [0xFF, 0x80, 0x80, 0x80, 0x80, 0x80, 0x80, 0x80] 0 0
      (Suc (Suc (Suc (Suc (Suc (Suc (Suc 0)))))))"
    by (simp add: conts_ok_Suc iscont_def)
  then show ?thesis by (simp add: overlong_ff_def numeral_eq_Suc)
qed

theorem utf8_decode_correct_witness:
  "utf8_decode [0x41, 0xE2, 0x82, 0xAC] 1 = Inr (Some (0x20AC, 4)) \<and>
   utf8_decode [0xFF, 0x80, 0x80, 0x80, 0x80, 0x80, 0x80, 0x80] 0 = Inl (Undefined ''shift'') \<and>
   utf8_decode [0xC0, 0x80] 0 \<noteq> Inr (Some (0, 2))"
proof (intro conjI)
  show "utf8_decode [0x41, 0xE2, 0x82, 0xAC] 1 = Inr (Some (0x20AC, 4))"
    using utf8_decode_correct [of 1 "[0x41, 0xE2, 0x82, 0xAC]" "0x20AC" 4] luaO_utf8esc_eq [of "0x20AC"]
    by (simp add: is_scalar_def utf8_encode_def utf8_bytes_def)
  show "utf8_decode [0xFF, 0x80, 0x80, 0x80, 0x80, 0x80, 0x80, 0x80] 0 = Inl (Undefined ''shift'')"
    using utf8_decode_correct [of 0 "[0xFF, 0x80, 0x80, 0x80, 0x80, 0x80, 0x80, 0x80]"] overlong_ff_example
    by simp
  show "utf8_decode [0xC0, 0x80] 0 \<noteq> Inr (Some (0, 2))"
    using utf8_decode_correct [of 0 "[0xC0, 0x80]" 0 2] luaO_utf8esc_eq [of 0]
    by (simp add: utf8_encode_def utf8_bytes_def)
qed

text \<open>\<open>utf8.len\<close> validates: it returns a single value exactly for the strings that are the UTF-8
  encoding of a sequence of scalar values, and the value is the length of that sequence.\<close>

theorem utflen_valid:
  "utflen cv [TString s] = Inr [v] \<longleftrightarrow>
     (\<exists>cs. list_all is_scalar cs \<and> s = utf8_text cs \<and> v = lua_pushinteger (int (length cs)))"
proof -
  have "utflen cv [TString s] = utflen_loop s 0 (int (length s) - 1) 0"
    by (simp add: utflen_def u_posrelat_def Let_def luaL_optinteger_def lua_isnoneornil_def arg_def)
  then show ?thesis using utflen_loop_text [of 0 s _ 0] utflen_loop_only_text [of s 0 0 v] by auto
qed

text \<open>\<open>utf8.codepoint\<close> over a whole string gives back the scalar values \<open>utf8.char\<close> was given, as long as
  the results fit the stack of a C function (the check counts bytes, and the three arguments).\<close>

theorem utf8_char_codepoint:
  assumes "list_all is_scalar cs" and "length (utf8_text cs) + 3 \<le> LUAI_MAXCSTACK"
  shows "\<exists>s. utfchar cv (map (\<lambda>c. lua_pushinteger (int c)) cs) = Inr [TString s] \<and>
    codepoint cv [TString s, lua_pushinteger 1, lua_pushinteger (- 1)] =
      Inr (map (\<lambda>c. lua_pushinteger (int c)) cs) \<and>
    utflen cv [TString s] = Inr [lua_pushinteger (int (length cs))]"
proof (intro exI conjI)
  show "utfchar cv (map (\<lambda>c. lua_pushinteger (int c)) cs) = Inr [TString (utf8_text cs)]"
    using assms(1) by (intro utfchar_text) (auto simp: list_all_iff is_scalar_le)
  show "utflen cv [TString (utf8_text cs)] = Inr [lua_pushinteger (int (length cs))]"
    using assms(1) utflen_valid by blast
  let ?s = "utf8_text cs"
  have l: "codepoint_loop ?s 0 (int (length ?s)) = Inr (map (\<lambda>c. lua_pushinteger (int c)) cs)"
    using codepoint_loop_text [of 0 ?s cs] assms(1) by simp
  have e: "?s = [] \<Longrightarrow> cs = []" by (cases cs) auto
  have a: "in_int32 1" "in_int32 (- 1)" by (simp_all add: in_int32_def)
  show "codepoint cv [TString ?s, lua_pushinteger 1, lua_pushinteger (- 1)] =
      Inr (map (\<lambda>c. lua_pushinteger (int c)) cs)"
    using assms(2) l e a
    by (cases "?s = []") (auto simp: codepoint_def u_posrelat_def luaL_checkstack_def Let_def Suc_le_eq)
qed

theorem utf8_char_codepoint_witness:
  "\<exists>s. utfchar no_conv (map (\<lambda>c. lua_pushinteger (int c)) [0x41, 0x20AC, 0x1F600]) = Inr [TString s] \<and>
    codepoint no_conv [TString s, lua_pushinteger 1, lua_pushinteger (- 1)] =
      Inr (map (\<lambda>c. lua_pushinteger (int c)) [0x41, 0x20AC, 0x1F600]) \<and>
    utflen no_conv [TString s] = Inr [lua_pushinteger (int (length [0x41, 0x20AC, 0x1F600 :: nat]))]"
  by (rule utf8_char_codepoint) (simp_all add: is_scalar_def utf8_bytes_def)

end
