(* ===== verification/Hashing.thy ===== *)
theory Hashing imports Value begin

text \<open>
  Raw equality of values and the hashes of table keys: \<open>luaO_rawequalKey\<close> and
  \<open>luaO_log2\<close> (\<open>VM/src/lobject.cpp\<close>), \<open>luaS_hash\<close> (\<open>VM/src/lstring.cpp\<close>) and the hash functions of
  \<open>VM/src/ltable.cpp\<close>, for the build with three float lanes in a vector.
\<close>

section \<open>Equality\<close>

text \<open>Lanes of a vector are \<open>float\<close>s, kept as their 32 bits.\<close>

definition f32_isnan :: "u32 \<Rightarrow> bool" where
  "f32_isnan w \<longleftrightarrow> unat w div 2 ^ 23 mod 2 ^ 8 = 255 \<and> unat w mod 2 ^ 23 \<noteq> 0"

definition f32_eq :: "u32 \<Rightarrow> u32 \<Rightarrow> bool" where
  "f32_eq a b \<longleftrightarrow> \<not> f32_isnan a \<and> \<not> f32_isnan b \<and>
     (a = b \<or> (a = 0 \<or> a = 0x80000000) \<and> (b = 0 \<or> b = 0x80000000))"

definition luaO_rawequalKey :: "TValue \<Rightarrow> TValue \<Rightarrow> bool" where
  "luaO_rawequalKey t1 t2 =
     (case t1 of
        TNil \<Rightarrow> t2 = TNil
      | TNumber a \<Rightarrow> (case t2 of TNumber b \<Rightarrow> luai_numeq a b | _ \<Rightarrow> False)
      | TInteger a \<Rightarrow> t2 = TInteger a
      | TVector a1 a2 a3 \<Rightarrow>
          (case t2 of TVector b1 b2 b3 \<Rightarrow> f32_eq a1 b1 \<and> f32_eq a2 b2 \<and> f32_eq a3 b3 | _ \<Rightarrow> False)
      | TBoolean a \<Rightarrow> t2 = TBoolean a
      | TLightUserdata p a \<Rightarrow> t2 = TLightUserdata p a
      | TString a \<Rightarrow> t2 = TString a
      | TGc k a \<Rightarrow> t2 = TGc k a)"

definition luai_vecisnan :: "u32 \<Rightarrow> u32 \<Rightarrow> u32 \<Rightarrow> bool" where
  "luai_vecisnan a b c \<longleftrightarrow> f32_isnan a \<or> f32_isnan b \<or> f32_isnan c"

section \<open>Logarithms\<close>

definition log_2 :: "int list" where
  "log_2 = [0, 1] @ replicate 2 2 @ replicate 4 3 @ replicate 8 4 @ replicate 16 5 @ replicate 32 6 @
     replicate 64 7 @ replicate 128 8"

function luaO_log2_loop :: "nat \<Rightarrow> int \<Rightarrow> int" where
  "luaO_log2_loop x l = (if x \<ge> 256 then luaO_log2_loop (x div 256) (l + 8) else l + log_2 ! x)"
  by pat_completeness auto

termination
  by (relation "measure (\<lambda>(x, l). x)") auto

declare luaO_log2_loop.simps [simp del]

definition luaO_log2 :: "nat \<Rightarrow> int" where
  "luaO_log2 x = luaO_log2_loop x (-1)"

text \<open>\<open>ceillog2(x)\<close>: the argument of \<open>luaO_log2\<close> is \<open>unsigned\<close>.\<close>

definition ceillog2 :: "int \<Rightarrow> int" where
  "ceillog2 x = luaO_log2 (nat ((x - 1) mod 2 ^ 32)) + 1"

section \<open>Hashes\<close>

definition luaS_mix :: "u32 \<times> u32 \<times> u32 \<Rightarrow> u32 \<times> u32 \<times> u32" where
  "luaS_mix = (\<lambda>(a, b, h).
     let rol = (\<lambda>x s. drop_bit s x OR push_bit (32 - s) x);
         a = a XOR h; a = a - rol h 14;
         b = b XOR a; b = b - rol a 11;
         h = h XOR b; h = h - rol b 25
     in (a, b, h))"

definition block32 :: "byte list \<Rightarrow> u32" where
  "block32 bs = of_nat (unat (bs ! 0) + 256 * unat (bs ! 1) + 65536 * unat (bs ! 2) + 16777216 * unat (bs ! 3))"

function luaS_hash_blocks :: "byte list \<Rightarrow> u32 \<Rightarrow> u32 \<Rightarrow> u32 \<Rightarrow> u32 \<times> byte list" where
  "luaS_hash_blocks str a b h =
     (if length str \<ge> 32 then
        let (a, b, h) = luaS_mix (a + block32 str, b + block32 (drop 4 str), h + block32 (drop 8 str))
        in luaS_hash_blocks (drop 12 str) a b h
      else (h, str))"
  by pat_completeness auto

termination
  by (relation "measure (\<lambda>(str, a, b, h). length str)") auto

declare luaS_hash_blocks.simps [simp del]

definition luaS_hash :: "byte list \<Rightarrow> u32" where
  "luaS_hash str =
     (let (h, rest) = luaS_hash_blocks str 0 0 (of_nat (length str))
      in foldr (\<lambda>c h. h XOR (push_bit 5 h + drop_bit 2 h + ucast c)) rest h)"

definition hashpointer :: "u32 \<Rightarrow> u32" where
  "hashpointer h =
     (let h = h XOR drop_bit 16 h; h = h * 0x85ebca6b;
          h = h XOR drop_bit 13 h; h = h * 0xc2b2ae35
      in h XOR drop_bit 16 h)"

definition murmur64b :: "u32 \<Rightarrow> u32 \<Rightarrow> u32" where
  "murmur64b h1 h2 =
     (let m = 0x5bd1e995;
          h1 = h1 XOR drop_bit 18 h2; h1 = h1 * m;
          h2 = h2 XOR drop_bit 22 h1; h2 = h2 * m;
          h1 = h1 XOR drop_bit 17 h2; h1 = h1 * m;
          h2 = h2 XOR drop_bit 19 h1
      in h2 * m)"

definition hashnum :: "double \<Rightarrow> u32" where
  "hashnum n = murmur64b (ucast n) (ucast (drop_bit 32 n) AND 0x7fffffff)"

definition hashint :: "u64 \<Rightarrow> u32" where
  "hashint n = murmur64b (ucast n) (ucast (drop_bit 32 n))"

definition hashvec :: "u32 \<Rightarrow> u32 \<Rightarrow> u32 \<Rightarrow> u32" where
  "hashvec i0 i1 i2 =
     (let z = (\<lambda>i. if i = 0x80000000 then 0 else i); s = (\<lambda>i. i XOR drop_bit 17 i)
      in (s (z i0) * 73856093) XOR (s (z i1) * 19349663) XOR (s (z i2) * 83492791))"

text \<open>The hash that \<open>mainposition\<close> reduces to a position of the node vector.\<close>

fun key_hash :: "TValue \<Rightarrow> u32" where
  "key_hash (TNumber d) = hashnum d"
| "key_hash (TInteger i) = hashint i"
| "key_hash (TVector a b c) = hashvec a b c"
| "key_hash (TString s) = luaS_hash s"
| "key_hash (TBoolean b) = (if b then 1 else 0)"
| "key_hash (TLightUserdata p t) = hashpointer (ucast p)"
| "key_hash (TGc k a) = hashpointer (of_nat a)"
| "key_hash TNil = hashpointer 0"

section \<open>Facts\<close>

lemma numeq_refl [simp]: "luai_numeq d d \<longleftrightarrow> \<not> d_isnan d"
  by (simp add: luai_numeq_def)

lemma numeq_sym: "luai_numeq a b \<Longrightarrow> luai_numeq b a"
  by (auto simp: luai_numeq_def)

lemma numeq_trans: "luai_numeq a b \<Longrightarrow> luai_numeq b c \<Longrightarrow> luai_numeq a c"
  by (auto simp: luai_numeq_def)

lemma f32_eq_sym: "f32_eq a b \<Longrightarrow> f32_eq b a"
  by (auto simp: f32_eq_def)

lemma f32_eq_trans: "f32_eq a b \<Longrightarrow> f32_eq b c \<Longrightarrow> f32_eq a c"
  by (auto simp: f32_eq_def)

text \<open>Keys that a table accepts.\<close>

fun valid_key :: "TValue \<Rightarrow> bool" where
  "valid_key TNil = False"
| "valid_key (TNumber d) = (\<not> luai_numisnan d)"
| "valid_key (TVector a b c) = (\<not> luai_vecisnan a b c)"
| "valid_key _ = True"

lemma rawequalKey_refl [simp]: "valid_key k \<Longrightarrow> luaO_rawequalKey k k"
  by (cases k) (auto simp: luaO_rawequalKey_def luai_numisnan_def luai_vecisnan_def f32_eq_def)

lemma rawequalKey_sym: "luaO_rawequalKey a b \<Longrightarrow> luaO_rawequalKey b a"
  by (auto simp: luaO_rawequalKey_def numeq_sym f32_eq_sym split: TValue.splits)

lemma rawequalKey_trans: "luaO_rawequalKey a b \<Longrightarrow> luaO_rawequalKey b c \<Longrightarrow> luaO_rawequalKey a c"
  by (cases a) (auto simp: luaO_rawequalKey_def intro: numeq_trans f32_eq_trans split: TValue.splits)

lemma rawequalKey_TNil [simp]: "luaO_rawequalKey TNil k \<longleftrightarrow> k = TNil" "luaO_rawequalKey k TNil \<longleftrightarrow> k = TNil"
  by (auto simp: luaO_rawequalKey_def split: TValue.splits)

lemma rawequalKey_valid: "luaO_rawequalKey a b \<Longrightarrow> a \<noteq> TNil \<Longrightarrow> valid_key a \<and> valid_key b"
  by (auto simp: luaO_rawequalKey_def luai_numeq_def luai_numisnan_def luai_vecisnan_def f32_eq_def
      split: TValue.splits)

lemma d_iszero_cases: "d_iszero a \<Longrightarrow> a = 0 \<or> a = 0x8000000000000000"
proof -
  assume "d_iszero a"
  then have "2 ^ 63 dvd unat a" by (simp add: d_iszero_def mod_eq_0_iff_dvd)
  then obtain q where q: "unat a = 2 ^ 63 * q" by (rule dvdE)
  have "unat a < 2 ^ 64" using unsigned_less [of a, where 'a = nat] by simp
  then have "q = 0 \<or> q = 1" using q by simp linarith
  then have "unat a = unat (0 :: u64) \<or> unat a = unat (0x8000000000000000 :: u64)" using q by auto
  then show ?thesis by (simp only: word_unat_eq_iff)
qed

lemma hashnum_zero: "hashnum 0x8000000000000000 = hashnum 0"
  by code_simp

lemma hashnum_numeq: "luai_numeq a b \<Longrightarrow> hashnum a = hashnum b"
  using d_iszero_cases [of a] d_iszero_cases [of b] hashnum_zero by (auto simp: luai_numeq_def)

text \<open>Raw-equal keys have the same hash: \<open>-0\<close> and \<open>0\<close>, alone and as lanes of a vector, are equal keys
  with different bits, and the hash functions drop exactly that difference.\<close>

theorem rawequal_same_hash:
  assumes "luaO_rawequalKey a b"
  shows "key_hash a = key_hash b"
proof -
  have v: "(if i = 0x80000000 then 0 else i) = (if j = 0x80000000 then 0 else j)" if "f32_eq i j" for i j :: u32
    using that by (auto simp: f32_eq_def)
  have "hashvec a1 a2 a3 = hashvec b1 b2 b3" if "f32_eq a1 b1" "f32_eq a2 b2" "f32_eq a3 b3" for a1 a2 a3 b1 b2 b3
    unfolding hashvec_def Let_def v [OF that(1)] v [OF that(2)] v [OF that(3)] by simp
  then show ?thesis using assms hashnum_numeq
    by (auto simp: luaO_rawequalKey_def split: TValue.splits)
qed

theorem rawequal_same_hash_witness:
  "TNumber 0x8000000000000000 \<noteq> TNumber 0 \<and> key_hash (TNumber 0x8000000000000000) = key_hash (TNumber 0)"
  using rawequal_same_hash [of "TNumber 0x8000000000000000" "TNumber 0"]
  by (simp add: luaO_rawequalKey_def luai_numeq_def d_isnan_def d_exp_def d_frac_def d_iszero_def)

section \<open>Logarithms computed\<close>

lemma log_2_floorlog: "map (\<lambda>x. log_2 ! x) [0..<256] = map (\<lambda>x. int (floorlog 2 x)) [0..<256]"
  by code_simp

lemma log_2_bounds:
  assumes "0 < x" "x < 256"
  shows "\<exists>k. log_2 ! x = int k + 1 \<and> 2 ^ k \<le> x \<and> x < 2 ^ Suc k"
proof -
  have "log_2 ! x = int (floorlog 2 x)"
    using log_2_floorlog assms(2) unfolding map_eq_conv by simp
  moreover have "0 < floorlog 2 x" using assms(1) by (simp add: floorlog_def)
  moreover have "2 ^ (floorlog 2 x - 1) \<le> x" "x < 2 ^ floorlog 2 x" using floorlog_bounds [of x 2] assms(1) by auto
  ultimately show ?thesis by (intro exI [of _ "floorlog 2 x - 1"]) simp
qed

lemma luaO_log2_loop_bounds:
  "0 < x \<Longrightarrow> \<exists>k. luaO_log2_loop x l = l + int k + 1 \<and> 2 ^ k \<le> x \<and> x < 2 ^ Suc k"
proof (induction x l rule: luaO_log2_loop.induct)
  case (1 x l)
  show ?case
  proof (cases "x \<ge> 256")
    case True
    then have "0 < x div 256" by (simp add: div_greater_zero_iff)
    then obtain k where k: "luaO_log2_loop (x div 256) (l + 8) = l + 8 + int k + 1" "2 ^ k \<le> x div 256"
        "x div 256 < 2 ^ Suc k"
      using 1 True by blast
    have "2 ^ (k + 8) \<le> x" using k(2) by (simp add: power_add less_eq_div_iff_mult_less_eq)
    moreover have "x < 2 ^ Suc (k + 8)" using k(3) by (simp add: power_add div_less_iff_less_mult)
    ultimately show ?thesis using k(1) True
      by (intro exI [of _ "k + 8"]) (simp add: luaO_log2_loop.simps [of x l])
  next
    case False
    then show ?thesis using log_2_bounds [of x] 1 by (auto simp: luaO_log2_loop.simps [of x l])
  qed
qed

text \<open>\<open>ceillog2(n)\<close> is the least exponent with \<open>n \<le> 2 ^ k\<close>.\<close>

lemma ceillog2_least:
  assumes "0 < n" and "n < 2 ^ 31"
  obtains k where "ceillog2 (int n) = int k" and "n \<le> 2 ^ k" and "\<And>j. n \<le> 2 ^ j \<Longrightarrow> k \<le> j"
proof (cases "n = 1")
  case True
  then show thesis using that [of 0]
    by (simp add: ceillog2_def luaO_log2_def luaO_log2_loop.simps log_2_def)
next
  case False
  have m: "nat ((int n - 1) mod 2 ^ 32) = n - 1" using assms by simp
  obtain k where k: "luaO_log2_loop (n - 1) (-1) = int k" "2 ^ k \<le> n - 1" "n - 1 < 2 ^ Suc k"
    using luaO_log2_loop_bounds [of "n - 1" "-1"] False assms(1) by auto
  have least: "Suc k \<le> j" if "n \<le> 2 ^ j" for j
  proof (rule ccontr)
    assume "\<not> Suc k \<le> j"
    then have "(2 :: nat) ^ j \<le> 2 ^ k" by (intro power_increasing) simp_all
    then show False using that k(2) assms(1) by linarith
  qed
  have "ceillog2 (int n) = int (Suc k)" unfolding ceillog2_def luaO_log2_def m k(1) by simp
  moreover have "n \<le> 2 ^ Suc k" using k(3) by linarith
  ultimately show thesis using that [of "Suc k"] least by blast
qed

end
