(* ===== verification/LuaTable.thy ===== *)
theory LuaTable imports Hashing begin

text \<open>
  Tables (\<open>VM/src/ltable.cpp\<close>): an array part, a vector of hash nodes chained by relative \<open>next\<close>
  fields with Brent's variation, and the growth policy. Pointers into a table are \<open>slot\<close>s: an array
  element, the value of a node, or \<open>luaO_nilobject\<close>. The collector is not modelled, so keys never
  become dead; allocation does not fail.
\<close>

section \<open>State\<close>

abbreviation MAXBITS :: nat where "MAXBITS \<equiv> 26"
abbreviation MAXSIZE :: nat where "MAXSIZE \<equiv> 67108864"

record LuaNode =
  gval :: TValue
  gkey :: TValue
  gnext :: int

text \<open>
  \<open>lastfree\<close> and \<open>aboundary\<close> share a field of the C struct: positive values are a free position,
  negative ones a cached boundary. \<open>node_dummy\<close> says that \<open>node\<close> points to the shared \<open>luaH_dummynode\<close>.
  \<open>sizearray\<close> is the length of \<open>array\<close>.
\<close>

record LuaTable =
  array :: "TValue list"
  node :: "LuaNode list"
  node_dummy :: bool
  lsizenode :: nat
  lastfree :: int
  tmcache :: byte
  readonly :: bool
  safeenv :: bool
  metatable :: "nat option"

abbreviation aboundary :: "LuaTable \<Rightarrow> int" where "aboundary \<equiv> lastfree"

abbreviation sizearray :: "LuaTable \<Rightarrow> nat" where "sizearray t \<equiv> length (array t)"

definition sizenode :: "LuaTable \<Rightarrow> nat" where
  "sizenode t = 2 ^ lsizenode t"

definition luaH_dummynode :: LuaNode where
  "luaH_dummynode = \<lparr>gval = TNil, gkey = TNil, gnext = 0\<rparr>"

datatype slot = SArray nat | SNode nat | SNilobject

fun slot_val :: "LuaTable \<Rightarrow> slot \<Rightarrow> TValue" where
  "slot_val t (SArray i) = array t ! i"
| "slot_val t (SNode i) = gval (node t ! i)"
| "slot_val t SNilobject = TNil"

text \<open>\<open>setobj2t\<close> through a slot; the caller never writes to \<open>luaO_nilobject\<close>.\<close>

fun slot_put :: "LuaTable \<Rightarrow> slot \<Rightarrow> TValue \<Rightarrow> LuaTable" where
  "slot_put t (SArray i) v = t\<lparr>array := (array t)[i := v]\<rparr>"
| "slot_put t (SNode i) v = t\<lparr>node := (node t)[i := (node t ! i)\<lparr>gval := v\<rparr>]\<rparr>"
| "slot_put t SNilobject v = t"

section \<open>Positions\<close>

definition hashpow2 :: "nat \<Rightarrow> u32 \<Rightarrow> nat" where
  "hashpow2 lsize h = unat (h AND (2 ^ lsize - 1))"

definition mainposition :: "LuaTable \<Rightarrow> TValue \<Rightarrow> nat" where
  "mainposition t key = hashpow2 (lsizenode t) (key_hash key)"

text \<open>
  \<open>(int)d\<close>: on a value that does not fit, the x86-64 instruction gives \<open>INT_MIN\<close>. Every use compares
  the result converted back with \<open>d\<close>, so any other result would do as well.
\<close>

definition num2int :: "double \<Rightarrow> int" where
  "num2int d = (case luai_num2int d of Some i \<Rightarrow> i | None \<Rightarrow> INT_MIN)"

definition arrayindex :: "double \<Rightarrow> int" where
  "arrayindex key = (let i = num2int key in if luai_numeq (d_of_int i) key then i else -1)"

definition in_array :: "LuaTable \<Rightarrow> int \<Rightarrow> bool" where
  "in_array t k \<longleftrightarrow> (k mod 2 ^ 32 - 1) mod 2 ^ 32 < int (sizearray t)"

section \<open>Search\<close>

text \<open>
  The loop along a chain; it visits at most every node once, so the number of nodes is enough fuel.
  \<open>None\<close> is a loop that does not end.
\<close>

fun find_in_chain :: "(TValue \<Rightarrow> bool) \<Rightarrow> LuaNode list \<Rightarrow> nat \<Rightarrow> nat \<Rightarrow> nat option option" where
  "find_in_chain P ns 0 i = None"
| "find_in_chain P ns (Suc fuel) i =
     (if P (gkey (ns ! i)) then Some (Some i)
      else if gnext (ns ! i) = 0 then Some None
      else find_in_chain P ns fuel (nat (int i + gnext (ns ! i))))"

definition node_slot :: "nat option \<Rightarrow> slot" where
  "node_slot r = (case r of Some i \<Rightarrow> SNode i | None \<Rightarrow> SNilobject)"

definition search_chain :: "(TValue \<Rightarrow> bool) \<Rightarrow> LuaTable \<Rightarrow> nat \<Rightarrow> slot option" where
  "search_chain P t n = map_option node_slot (find_in_chain P (node t) (length (node t)) n)"

definition luaH_getnum :: "LuaTable \<Rightarrow> int \<Rightarrow> slot option" where
  "luaH_getnum t key =
     (if in_array t key then Some (SArray (nat (key - 1)))
      else if \<not> node_dummy t then
        let nk = d_of_int key in
        search_chain (\<lambda>k. case k of TNumber d \<Rightarrow> luai_numeq d nk | _ \<Rightarrow> False) t (mainposition t (TNumber nk))
      else Some SNilobject)"

definition luaH_getstr :: "LuaTable \<Rightarrow> byte list \<Rightarrow> slot option" where
  "luaH_getstr t key =
     search_chain (\<lambda>k. case k of TString s \<Rightarrow> s = key | _ \<Rightarrow> False) t (mainposition t (TString key))"

definition luaH_getp :: "LuaTable \<Rightarrow> u64 \<Rightarrow> int \<Rightarrow> slot option" where
  "luaH_getp t key tag =
     search_chain (\<lambda>k. case k of TLightUserdata p g \<Rightarrow> p = key \<and> g = tag | _ \<Rightarrow> False) t
       (mainposition t (TLightUserdata key tag))"

definition luaH_get_generic :: "LuaTable \<Rightarrow> TValue \<Rightarrow> slot option" where
  "luaH_get_generic t key = search_chain (\<lambda>k. luaO_rawequalKey k key) t (mainposition t key)"

definition luaH_get :: "LuaTable \<Rightarrow> TValue \<Rightarrow> slot option" where
  "luaH_get t key =
     (case key of
        TNil \<Rightarrow> Some SNilobject
      | TString s \<Rightarrow> luaH_getstr t s
      | TNumber n \<Rightarrow>
          let k = num2int n in
          if luai_numeq (d_of_int k) n then luaH_getnum t k else luaH_get_generic t key
      | _ \<Rightarrow> luaH_get_generic t key)"

section \<open>Traversal\<close>

definition findindex :: "LuaTable \<Rightarrow> TValue \<Rightarrow> lua_error + int" where
  "findindex t key =
     (if key = TNil then Inr (-1)
      else
        let i = (case key of TNumber d \<Rightarrow> arrayindex d | _ \<Rightarrow> -1) in
        if 0 < i \<and> i \<le> int (sizearray t) then Inr (i - 1)
        else
          (case luaH_get_generic t key of
             Some (SNode n) \<Rightarrow> Inr (int n + int (sizearray t))
           | Some _ \<Rightarrow> Inl (RunError (''invalid key to '' @ [CHR 0x27] @ ''next'' @ [CHR 0x27]))
           | None \<Rightarrow> Inl (Undefined ''endless chain'')))"

text \<open>The two loops of \<open>luaH_next\<close>: the first non-nil entry from a position of the array, of the nodes.\<close>

fun next_array :: "TValue list \<Rightarrow> nat \<Rightarrow> nat \<Rightarrow> (TValue \<times> TValue) option" where
  "next_array a 0 i = None"
| "next_array a (Suc n) i =
     (if a ! i \<noteq> TNil then Some (TNumber (d_of_int (int i + 1)), a ! i) else next_array a n (i + 1))"

fun next_node :: "LuaNode list \<Rightarrow> nat \<Rightarrow> nat \<Rightarrow> (TValue \<times> TValue) option" where
  "next_node ns 0 i = None"
| "next_node ns (Suc n) i =
     (if gval (ns ! i) \<noteq> TNil then Some (gkey (ns ! i), gval (ns ! i)) else next_node ns n (i + 1))"

definition luaH_next :: "LuaTable \<Rightarrow> TValue \<Rightarrow> lua_error + (TValue \<times> TValue) option" where
  "luaH_next t key =
     bindE (findindex t key) (\<lambda>i.
     let i = nat (i + 1) in
     case next_array (array t) (sizearray t - i) i of
       Some r \<Rightarrow> Inr (Some r)
     | None \<Rightarrow> let j = max i (sizearray t) - sizearray t in Inr (next_node (node t) (sizenode t - j) j))"

section \<open>Allocation and resizing\<close>

definition setarrayvector :: "LuaTable \<Rightarrow> nat \<Rightarrow> lua_error + LuaTable" where
  "setarrayvector t sz =
     (if sz > MAXSIZE then Inl (RunError ''table overflow'')
      else Inr (t\<lparr>array := take sz (array t) @ replicate (sz - sizearray t) TNil\<rparr>))"

definition setnodevector :: "LuaTable \<Rightarrow> int \<Rightarrow> lua_error + LuaTable" where
  "setnodevector t sz =
     (if sz = 0 then
        Inr (t\<lparr>node := [luaH_dummynode], node_dummy := True, lsizenode := 0, lastfree := 0\<rparr>)
      else
        let lsize = ceillog2 sz in
        if lsize > int MAXBITS then Inl (RunError ''table overflow'')
        else
          let sz = 2 ^ nat lsize in
          Inr (t\<lparr>node := replicate sz \<lparr>gval = TNil, gkey = TNil, gnext = 0\<rparr>, node_dummy := False,
                 lsizenode := nat lsize, lastfree := int sz\<rparr>))"

definition luaH_new :: "nat \<Rightarrow> nat \<Rightarrow> lua_error + LuaTable" where
  "luaH_new narray nhash =
     (let t = \<lparr>array = [], node = [luaH_dummynode], node_dummy = True, lsizenode = 0, lastfree = 0,
               tmcache = NOT 0, readonly = False, safeenv = False, metatable = None\<rparr>
      in bindE (if narray > 0 then setarrayvector t narray else Inr t) (\<lambda>t.
         if nhash > 0 then setnodevector t (int nhash) else Inr t))"

text \<open>
  Inserting a key can rehash, which resizes the table, which inserts the keys again. The functions of
  that circle take the inserting function as an argument; \<open>newkey\<close> below closes it with fuel.
\<close>

type_synonym inserter = "LuaTable \<Rightarrow> TValue \<Rightarrow> lua_error + LuaTable \<times> slot"

definition arrayornewkey :: "inserter \<Rightarrow> inserter" where
  "arrayornewkey newkey t key =
     (case key of
        TNumber n \<Rightarrow>
          let k = num2int n in
          if luai_numeq (d_of_int k) n \<and> in_array t k then Inr (t, SArray (nat (k - 1))) else newkey t key
      | _ \<Rightarrow> newkey t key)"

text \<open>\<open>setobjt2t(L, insert(key), val)\<close> for a list of keys and values.\<close>

fun reinsert :: "inserter \<Rightarrow> LuaTable \<Rightarrow> (TValue \<times> TValue) list \<Rightarrow> lua_error + LuaTable" where
  "reinsert ins t [] = Inr t"
| "reinsert ins t ((k, v) # kvs) =
     bindE (ins t k) (\<lambda>(t, s). reinsert ins (slot_put t s v) kvs)"

text \<open>
  The non-nil elements of the vanishing slice of the array, in order, and the non-nil nodes from the
  last to the first.
\<close>

definition vanishing :: "TValue list \<Rightarrow> nat \<Rightarrow> (TValue \<times> TValue) list" where
  "vanishing a nasize =
     filter (\<lambda>(k, v). v \<noteq> TNil) (map (\<lambda>i. (TNumber (d_of_int (int i + 1)), a ! i)) [nasize..<length a])"

definition old_nodes :: "LuaNode list \<Rightarrow> (TValue \<times> TValue) list" where
  "old_nodes ns = filter (\<lambda>(k, v). v \<noteq> TNil) (map (\<lambda>n. (gkey n, gval n)) (rev ns))"

definition resize :: "inserter \<Rightarrow> LuaTable \<Rightarrow> nat \<Rightarrow> int \<Rightarrow> lua_error + LuaTable" where
  "resize newkey t nasize nhsize =
     bindE (guardE (\<not> (nasize > MAXSIZE \<or> nhsize > int MAXSIZE)) (RunError ''table overflow'')) (\<lambda>_.
     let olda = array t; nold = node t in
     bindE (if nasize > length olda then setarrayvector t nasize else Inr t) (\<lambda>t.
     bindE (setnodevector t nhsize) (\<lambda>t.
     bindE (if nasize < length olda
            then reinsert newkey (t\<lparr>array := take nasize olda\<rparr>) (vanishing olda nasize)
            else Inr t) (\<lambda>t.
     reinsert (arrayornewkey newkey) t (old_nodes nold)))))"

section \<open>Growth policy\<close>

text \<open>The counts \<open>nums[0..MAXBITS]\<close> are a list; slice \<open>i\<close> counts the keys in \<open>(2 ^ (i - 1), 2 ^ i]\<close>.\<close>

fun computesizes_loop :: "nat \<Rightarrow> nat list \<Rightarrow> nat \<Rightarrow> nat \<Rightarrow> nat \<Rightarrow> nat \<Rightarrow> nat \<Rightarrow> nat \<times> nat" where
  "computesizes_loop 0 nums narray i a na n = (na, n)"
| "computesizes_loop (Suc fuel) nums narray i a na n =
     (let twotoi = 2 ^ i in
      if twotoi div 2 < narray then
        let a' = a + nums ! i;
            (na, n) = (if nums ! i > 0 \<and> a' > twotoi div 2 then (a', twotoi) else (na, n)) in
        if a' = narray then (na, n) else computesizes_loop fuel nums narray (i + 1) a' na n
      else (na, n))"

text \<open>The number of array elements and the size: \<open>2 ^ i div 2 < narray\<close> bounds the rounds.\<close>

definition computesizes :: "nat list \<Rightarrow> nat \<Rightarrow> nat \<times> nat" where
  "computesizes nums narray = computesizes_loop (length nums) nums narray 0 0 0 0"

definition countint :: "double \<Rightarrow> nat list \<Rightarrow> nat list \<times> nat" where
  "countint key nums =
     (let k = arrayindex key in
      if 0 < k \<and> k \<le> int MAXSIZE then
        let i = nat (ceillog2 k) in (nums[i := nums ! i + 1], 1)
      else (nums, 0))"

fun numusearray_loop :: "nat \<Rightarrow> LuaTable \<Rightarrow> nat \<Rightarrow> nat \<Rightarrow> nat list \<Rightarrow> nat \<Rightarrow> nat list \<times> nat" where
  "numusearray_loop 0 t lg i nums ause = (nums, ause)"
| "numusearray_loop (Suc fuel) t lg i nums ause =
     (let ttlg = 2 ^ lg; lim = (if ttlg > sizearray t then sizearray t else ttlg) in
      if ttlg > sizearray t \<and> i > lim then (nums, ause)
      else
        let lc = length (filter (\<lambda>j. array t ! (j - 1) \<noteq> TNil) [i..<lim + 1]) in
        numusearray_loop fuel t (lg + 1) (max i (lim + 1)) (nums[lg := nums ! lg + lc]) (ause + lc))"

definition numusearray :: "LuaTable \<Rightarrow> nat list \<Rightarrow> nat list \<times> nat" where
  "numusearray t nums = numusearray_loop (MAXBITS + 1) t 0 1 nums 0"

fun numusehash_loop :: "LuaNode list \<Rightarrow> nat list \<Rightarrow> nat \<Rightarrow> nat \<Rightarrow> nat list \<times> nat \<times> nat" where
  "numusehash_loop [] nums ause totaluse = (nums, ause, totaluse)"
| "numusehash_loop (n # ns) nums ause totaluse =
     (if gval n \<noteq> TNil then
        let (nums, c) = (case gkey n of TNumber d \<Rightarrow> countint d nums | _ \<Rightarrow> (nums, 0)) in
        numusehash_loop ns nums (ause + c) (totaluse + 1)
      else numusehash_loop ns nums ause totaluse)"

text \<open>The loop runs from the last node to the first.\<close>

definition numusehash :: "LuaTable \<Rightarrow> nat list \<Rightarrow> nat list \<times> nat \<times> nat" where
  "numusehash t nums = numusehash_loop (rev (node t)) nums 0 0"

text \<open>
  \<open>adjustasize\<close> moves on while the next index is the extra key or is present in the table. Each round
  but one uses up a present index, so the array, the nodes and the extra key bound the rounds. The next
  index \<open>size + 1\<close> is computed in \<open>int\<close>, for the test of the extra key first: from \<open>INT_MAX\<close> it overflows.
\<close>

fun adjustasize_loop :: "nat \<Rightarrow> LuaTable \<Rightarrow> bool \<Rightarrow> int \<Rightarrow> nat \<Rightarrow> lua_error + nat" where
  "adjustasize_loop 0 t tbound ekindex sz = Inl (Undefined ''fuel'')"
| "adjustasize_loop (Suc fuel) t tbound ekindex sz =
     bindE (c_int (int sz + 1)) (\<lambda>i.
     if i = ekindex then adjustasize_loop fuel t tbound ekindex (sz + 1)
     else if tbound then
       (case luaH_getnum t i of
          None \<Rightarrow> Inl (Undefined ''endless chain'')
        | Some s \<Rightarrow>
            if slot_val t s \<noteq> TNil then adjustasize_loop fuel t tbound ekindex (sz + 1) else Inr sz)
     else Inr sz)"

definition adjustasize :: "LuaTable \<Rightarrow> nat \<Rightarrow> TValue option \<Rightarrow> lua_error + nat" where
  "adjustasize t sz ek =
     (let tbound = (\<not> node_dummy t \<or> sz < sizearray t);
          ekindex = (case ek of Some (TNumber d) \<Rightarrow> arrayindex d | _ \<Rightarrow> -1)
      in adjustasize_loop (sizearray t + length (node t) + 2) t tbound ekindex sz)"

definition rehash :: "inserter \<Rightarrow> LuaTable \<Rightarrow> TValue \<Rightarrow> lua_error + LuaTable" where
  "rehash newkey t ek =
     (let nums = replicate (MAXBITS + 1) 0;
          (nums, nasize) = numusearray t nums;
          totaluse = nasize;
          (nums, ause, huse) = numusehash t nums;
          nasize = nasize + ause; totaluse = totaluse + huse;
          (nums, c) = (case ek of TNumber d \<Rightarrow> countint d nums | _ \<Rightarrow> (nums, 0));
          nasize = nasize + c; totaluse = totaluse + 1;
          (na, nasize) = computesizes nums nasize;
          nh = int totaluse - int na
      in bindE (adjustasize t nasize (Some ek)) (\<lambda>nadjusted.
         let aextra = nadjusted - nasize in
         if aextra \<noteq> 0 then
           bindE (adjustasize t (nadjusted + aextra) (Some ek)) (\<lambda>nasize.
           resize newkey t nasize (nh - int aextra))
         else resize newkey t nasize nh))"

section \<open>Insertion\<close>

fun getfreepos_loop :: "LuaNode list \<Rightarrow> nat \<Rightarrow> nat \<times> nat option" where
  "getfreepos_loop ns 0 = (0, None)"
| "getfreepos_loop ns (Suc l) = (if gkey (ns ! l) = TNil then (l, Some l) else getfreepos_loop ns l)"

definition getfreepos :: "LuaTable \<Rightarrow> LuaTable \<times> nat option" where
  "getfreepos t =
     (if lastfree t > 0 then
        let (l, n) = getfreepos_loop (node t) (nat (lastfree t)) in (t\<lparr>lastfree := int l\<rparr>, n)
      else (t, None))"

text \<open>The predecessor of \<open>mp\<close> in the chain from \<open>othern\<close>.\<close>

fun chain_pred :: "LuaNode list \<Rightarrow> nat \<Rightarrow> nat \<Rightarrow> nat \<Rightarrow> nat option" where
  "chain_pred ns 0 othern mp = None"
| "chain_pred ns (Suc fuel) othern mp =
     (if int othern + gnext (ns ! othern) = int mp then Some othern
      else chain_pred ns fuel (nat (int othern + gnext (ns ! othern))) mp)"

text \<open>\<open>move_node\<close>: the colliding node \<open>mp\<close> goes to the free node \<open>n\<close>; \<open>link_node\<close>: \<open>n\<close> is chained behind \<open>mp\<close>.\<close>

definition move_node :: "LuaNode list \<Rightarrow> nat \<Rightarrow> nat \<Rightarrow> nat \<Rightarrow> LuaNode list" where
  "move_node ns othern mp n =
     (let ns = ns[othern := (ns ! othern)\<lparr>gnext := int n - int othern\<rparr>];
          ns = ns[n := ns ! mp];
          ns = (if gnext (ns ! mp) \<noteq> 0 then
                  let ns = ns[n := (ns ! n)\<lparr>gnext := gnext (ns ! n) + (int mp - int n)\<rparr>]
                  in ns[mp := (ns ! mp)\<lparr>gnext := 0\<rparr>]
                else ns)
      in ns[mp := (ns ! mp)\<lparr>gval := TNil\<rparr>])"

definition link_node :: "LuaNode list \<Rightarrow> nat \<Rightarrow> nat \<Rightarrow> LuaNode list" where
  "link_node ns mp n =
     (let ns = (if gnext (ns ! mp) \<noteq> 0
                then ns[n := (ns ! n)\<lparr>gnext := int mp + gnext (ns ! mp) - int n\<rparr>] else ns)
      in ns[mp := (ns ! mp)\<lparr>gnext := int n - int mp\<rparr>])"

definition set_node_key :: "LuaTable \<Rightarrow> nat \<Rightarrow> TValue \<Rightarrow> LuaTable \<times> slot" where
  "set_node_key t i key = (t\<lparr>node := (node t)[i := (node t ! i)\<lparr>gkey := key\<rparr>]\<rparr>, SNode i)"

definition newkey_step :: "inserter \<Rightarrow> inserter" where
  "newkey_step newkey t key =
     (if (case key of TNumber d \<Rightarrow> luai_numeq d (d_of_int (int (sizearray t) + 1)) | _ \<Rightarrow> False) then
        bindE (rehash newkey t key) (\<lambda>t. arrayornewkey newkey t key)
      else
        let mp = mainposition t key in
        if gval (node t ! mp) \<noteq> TNil \<or> node_dummy t then
          (case getfreepos t of
             (t, None) \<Rightarrow> bindE (rehash newkey t key) (\<lambda>t. arrayornewkey newkey t key)
           | (t, Some n) \<Rightarrow>
               let othern = mainposition t (gkey (node t ! mp)) in
               if othern \<noteq> mp then
                 (case chain_pred (node t) (length (node t)) othern mp of
                    None \<Rightarrow> Inl (Undefined ''endless chain'')
                  | Some p \<Rightarrow> Inr (set_node_key (t\<lparr>node := move_node (node t) p mp n\<rparr>) mp key))
               else Inr (set_node_key (t\<lparr>node := link_node (node t) mp n\<rparr>) n key))
        else Inr (set_node_key t mp key))"

text \<open>
  A rehash inserts the old keys into a table that has room for them, so inserting never rehashes again
  inside of it (the assertions at the end of \<open>resize\<close>): fuel 2 is enough.
\<close>

fun newkey_fuel :: "nat \<Rightarrow> inserter" where
  "newkey_fuel 0 t key = Inl (Undefined ''nested rehash'')"
| "newkey_fuel (Suc fuel) t key = newkey_step (newkey_fuel fuel) t key"

definition newkey :: inserter where
  "newkey = newkey_fuel 2"

section \<open>The interface of the table\<close>

definition luaH_resizearray :: "LuaTable \<Rightarrow> nat \<Rightarrow> lua_error + LuaTable" where
  "luaH_resizearray t nasize =
     bindE (adjustasize t nasize None) (\<lambda>asize.
     resize newkey t asize (if node_dummy t then 0 else int (sizenode t)))"

definition luaH_resizehash :: "LuaTable \<Rightarrow> int \<Rightarrow> lua_error + LuaTable" where
  "luaH_resizehash t nhsize = resize newkey t (sizearray t) nhsize"

definition luaH_newkey :: inserter where
  "luaH_newkey t key =
     (case key of
        TNil \<Rightarrow> Inl (RunError ''table index is nil'')
      | TNumber d \<Rightarrow> if luai_numisnan d then Inl (RunError ''table index is NaN'') else newkey t key
      | TVector a b c \<Rightarrow>
          if luai_vecisnan a b c then Inl (RunError ''table index contains NaN'') else newkey t key
      | _ \<Rightarrow> newkey t key)"

definition found_or :: "LuaTable \<Rightarrow> slot option \<Rightarrow> (LuaTable \<Rightarrow> lua_error + LuaTable \<times> slot) \<Rightarrow> lua_error + LuaTable \<times> slot" where
  "found_or t p new =
     (case p of
        None \<Rightarrow> Inl (Undefined ''endless chain'')
      | Some s \<Rightarrow> if s \<noteq> SNilobject then Inr (t, s) else new t)"

definition luaH_set :: inserter where
  "luaH_set t key = found_or (t\<lparr>tmcache := 0\<rparr>) (luaH_get t key) (\<lambda>t. luaH_newkey t key)"

definition luaH_setnum :: "LuaTable \<Rightarrow> int \<Rightarrow> lua_error + LuaTable \<times> slot" where
  "luaH_setnum t key =
     (if in_array t key then Inr (t, SArray (nat (key - 1)))
      else found_or t (luaH_getnum t key) (\<lambda>t. newkey t (TNumber (d_of_int key))))"

definition luaH_setstr :: "LuaTable \<Rightarrow> byte list \<Rightarrow> lua_error + LuaTable \<times> slot" where
  "luaH_setstr t key = found_or (t\<lparr>tmcache := 0\<rparr>) (luaH_getstr t key) (\<lambda>t. newkey t (TString key))"

definition luaH_setp :: "LuaTable \<Rightarrow> u64 \<Rightarrow> int \<Rightarrow> lua_error + LuaTable \<times> slot" where
  "luaH_setp t key tag = found_or t (luaH_getp t key tag) (\<lambda>t. newkey t (TLightUserdata key tag))"

section \<open>Length, copies\<close>

definition maybesetaboundary :: "LuaTable \<Rightarrow> int \<Rightarrow> LuaTable" where
  "maybesetaboundary t boundary = (if aboundary t \<le> 0 then t\<lparr>lastfree := - boundary\<rparr> else t)"

definition getaboundary :: "LuaTable \<Rightarrow> nat" where
  "getaboundary t = (if aboundary t < 0 then nat (- aboundary t) else sizearray t)"

definition updateaboundary :: "LuaTable \<Rightarrow> nat \<Rightarrow> LuaTable \<times> nat" where
  "updateaboundary t boundary =
     (if boundary < sizearray t \<and> array t ! (boundary - 1) = TNil then
        if boundary \<ge> 2 \<and> array t ! (boundary - 2) \<noteq> TNil
        then (maybesetaboundary t (int boundary - 1), boundary - 1) else (t, 0)
      else if boundary + 1 < sizearray t \<and> array t ! boundary \<noteq> TNil \<and> array t ! (boundary + 1) = TNil
      then (maybesetaboundary t (int boundary + 1), boundary + 1)
      else (t, 0))"

function getn_search :: "TValue list \<Rightarrow> nat \<Rightarrow> nat \<Rightarrow> nat" where
  "getn_search a base rest =
     (if rest div 2 \<noteq> 0 then
        getn_search a (if a ! (base + rest div 2) = TNil then base else base + rest div 2) (rest - rest div 2)
      else (if a ! base \<noteq> TNil then 1 else 0) + base)"
  by pat_completeness auto

termination
  by (relation "measure (\<lambda>(a, base, rest). rest)") auto

declare getn_search.simps [simp del]

definition luaH_getn_search :: "LuaTable \<Rightarrow> LuaTable \<times> nat" where
  "luaH_getn_search t =
     (let j = sizearray t in
      if j > 0 \<and> array t ! (j - 1) = TNil then
        let boundary = getn_search (array t) 0 j in (maybesetaboundary t (int boundary), boundary)
      else (t, j))"

definition luaH_getn :: "LuaTable \<Rightarrow> LuaTable \<times> nat" where
  "luaH_getn t =
     (let boundary = getaboundary t in
      if boundary > 0 then
        if array t ! (sizearray t - 1) \<noteq> TNil \<and> node_dummy t then (t, sizearray t)
        else if boundary < sizearray t \<and> array t ! (boundary - 1) \<noteq> TNil \<and> array t ! boundary = TNil
        then (t, boundary)
        else
          let (t, foundboundary) = updateaboundary t boundary in
          if foundboundary > 0 then (t, foundboundary) else luaH_getn_search t
      else luaH_getn_search t)"

definition luaH_clone :: "LuaTable \<Rightarrow> LuaTable" where
  "luaH_clone tt =
     (let t = \<lparr>array = [], node = [luaH_dummynode], node_dummy = True, lsizenode = 0, lastfree = 0,
               tmcache = tmcache tt, readonly = False, safeenv = False, metatable = metatable tt\<rparr>;
          t = (if sizearray tt \<noteq> 0
               then (maybesetaboundary t (int (getaboundary tt)))\<lparr>array := array tt\<rparr> else t)
      in if \<not> node_dummy tt
         then t\<lparr>node := node tt, node_dummy := False, lsizenode := lsizenode tt, lastfree := lastfree tt\<rparr>
         else t)"

definition luaH_clear :: "LuaTable \<Rightarrow> LuaTable" where
  "luaH_clear tt =
     (let tt = tt\<lparr>array := replicate (sizearray tt) TNil\<rparr>;
          tt = maybesetaboundary tt 0;
          tt = (if \<not> node_dummy tt
                then tt\<lparr>lastfree := int (sizenode tt),
                        node := replicate (sizenode tt) \<lparr>gval = TNil, gkey = TNil, gnext = 0\<rparr>\<rparr>
                else tt)
      in tt\<lparr>tmcache := NOT 0\<rparr>)"

end
