(* ===== verification/TableInv.thy ===== *)
theory TableInv imports LuaTable begin

text \<open>
  The invariant of the node vector and what it gives to a search. The chains of a table are a ghost:
  disjoint lists of positions that partition the used nodes, each linked by its \<open>next\<close> fields, such that
  every key is in its chain at or behind its main position. A search from a main position then walks a
  suffix of one chain, so it ends, and it finds the key if it is in the table at all.
\<close>

section \<open>Chains\<close>

definition keyed :: "LuaNode list \<Rightarrow> nat \<Rightarrow> bool" where
  "keyed ns i \<longleftrightarrow> i < length ns \<and> gkey (ns ! i) \<noteq> TNil"

fun linked :: "LuaNode list \<Rightarrow> nat list \<Rightarrow> bool" where
  "linked ns [] = True"
| "linked ns [i] = (gnext (ns ! i) = 0)"
| "linked ns (i # j # is) = (gnext (ns ! i) = int j - int i \<and> linked ns (j # is))"

lemma linked_suffix: "linked ns (xs @ ys) \<Longrightarrow> linked ns ys"
proof (induction xs)
  case (Cons x xs)
  then show ?case by (cases "xs @ ys") auto
qed simp

lemma linked_cong: "(\<And>i. i \<in> set c \<Longrightarrow> gnext (ns' ! i) = gnext (ns ! i)) \<Longrightarrow> linked ns' c = linked ns c"
  by (induction ns c rule: linked.induct) auto

fun links :: "LuaNode list \<Rightarrow> nat list \<Rightarrow> nat \<Rightarrow> bool" where
  "links ns [] j = True"
| "links ns [i] j = (gnext (ns ! i) = int j - int i)"
| "links ns (i # i' # is) j = (gnext (ns ! i) = int i' - int i \<and> links ns (i' # is) j)"

lemma linked_append: "linked ns (xs @ j # ys) \<longleftrightarrow> links ns xs j \<and> linked ns (j # ys)"
  by (induction ns xs j rule: links.induct) auto

lemma links_snoc: "links ns (xs @ [p]) j \<longleftrightarrow> links ns xs p \<and> gnext (ns ! p) = int j - int p"
  by (induction ns xs p rule: links.induct) auto

lemma links_cong: "(\<And>i. i \<in> set xs \<Longrightarrow> gnext (ns' ! i) = gnext (ns ! i)) \<Longrightarrow> links ns' xs j = links ns xs j"
  by (induction ns xs j rule: links.induct) auto

lemma linked_Cons: "linked ns (i # ys) \<longleftrightarrow> gnext (ns ! i) = (if ys = [] then 0 else int (hd ys) - int i) \<and> linked ns ys"
  by (cases ys) auto

lemma find_SomeD: "find P xs = Some x \<Longrightarrow> x \<in> set xs \<and> P x"
  by (auto simp: find_Some_iff)

lemma find_in_chain_linked:
  "linked ns (i # ys) \<Longrightarrow> distinct (i # ys) \<Longrightarrow> length (i # ys) \<le> fuel \<Longrightarrow>
     find_in_chain P ns fuel i = Some (find (\<lambda>j. P (gkey (ns ! j))) (i # ys))"
proof (induction ys arbitrary: i fuel)
  case Nil
  then show ?case by (cases fuel) auto
next
  case (Cons j ys)
  then obtain f where f: "fuel = Suc f" "length (j # ys) \<le> f" by (cases fuel) auto
  have "gnext (ns ! i) = int j - int i" "i \<noteq> j" using Cons.prems by auto
  then have "gnext (ns ! i) \<noteq> 0" "nat (int i + gnext (ns ! i)) = j" by auto
  then show ?case using Cons f by simp
qed

lemma same_chain:
  assumes "distinct (concat cs)" and "c \<in> set cs" and "c' \<in> set cs" and "x \<in> set c" and "x \<in> set c'"
  shows "c = c'"
proof (rule ccontr)
  assume "c \<noteq> c'"
  then have "set c \<inter> set c' = {}" using assms(1-3) unfolding distinct_concat_iff by blast
  then show False using assms(4,5) by blast
qed

text \<open>The positions of a chain, and a key's place in it.\<close>

definition behind :: "nat list list \<Rightarrow> nat \<Rightarrow> nat \<Rightarrow> bool" where
  "behind cs m i \<longleftrightarrow> (\<exists>c\<in>set cs. i \<in> set (dropWhile (\<lambda>x. x \<noteq> m) c))"

lemma dropWhile_split: "m \<notin> set xs \<Longrightarrow> dropWhile (\<lambda>x. x \<noteq> m) (xs @ m # ys) = m # ys"
  by (induction xs) auto

lemma behind_in: "behind cs m i \<Longrightarrow> m \<in> set (concat cs) \<and> i \<in> set (concat cs)"
proof -
  assume "behind cs m i"
  then obtain c where c: "c \<in> set cs" "i \<in> set (dropWhile (\<lambda>x. x \<noteq> m) c)" by (auto simp: behind_def)
  then have "m \<in> set c" using dropWhile_eq_Nil_conv [of "\<lambda>x. x \<noteq> m" c] by fastforce
  moreover have "i \<in> set c" using c(2) by (rule set_dropWhileD)
  ultimately show ?thesis using c(1) by auto
qed

definition chains_ok :: "(TValue \<Rightarrow> nat) \<Rightarrow> LuaNode list \<Rightarrow> nat list list \<Rightarrow> bool" where
  "chains_ok mp ns cs \<longleftrightarrow>
     distinct (concat cs) \<and> set (concat cs) = {i. keyed ns i} \<and> (\<forall>c\<in>set cs. linked ns c) \<and>
     (\<forall>i. keyed ns i \<longrightarrow> behind cs (mp (gkey (ns ! i))) i) \<and>
     (\<forall>i. keyed ns i \<longrightarrow> mp (gkey (ns ! mp (gkey (ns ! i)))) = mp (gkey (ns ! i)))"

definition keys_ok :: "LuaNode list \<Rightarrow> bool" where
  "keys_ok ns \<longleftrightarrow>
     (\<forall>i<length ns. if gkey (ns ! i) = TNil then gnext (ns ! i) = 0 \<and> gval (ns ! i) = TNil
                    else valid_key (gkey (ns ! i))) \<and>
     (\<forall>i j. keyed ns i \<longrightarrow> keyed ns j \<longrightarrow> luaO_rawequalKey (gkey (ns ! i)) (gkey (ns ! j)) \<longrightarrow> i = j)"

definition nodes_ok :: "(TValue \<Rightarrow> nat) \<Rightarrow> LuaNode list \<Rightarrow> bool" where
  "nodes_ok mp ns \<longleftrightarrow> keys_ok ns \<and> (\<exists>cs. chains_ok mp ns cs)"

text \<open>The node that holds a key, by its index.\<close>

definition node_find :: "LuaNode list \<Rightarrow> TValue \<Rightarrow> nat option" where
  "node_find ns k = find (\<lambda>i. luaO_rawequalKey (gkey (ns ! i)) k) [0..<length ns]"

lemma node_find_Some:
  "node_find ns k = Some i \<Longrightarrow> i < length ns \<and> luaO_rawequalKey (gkey (ns ! i)) k"
  by (auto simp: node_find_def find_Some_iff)

lemma node_find_None: "node_find ns k = None \<longleftrightarrow> (\<forall>i<length ns. \<not> luaO_rawequalKey (gkey (ns ! i)) k)"
  by (auto simp: node_find_def find_None_iff)

lemma node_find_eq:
  assumes "keys_ok ns" and "i < length ns" and "luaO_rawequalKey (gkey (ns ! i)) k" and "k \<noteq> TNil"
  shows "node_find ns k = Some i"
proof (cases "node_find ns k")
  case None
  then show ?thesis using assms by (simp add: node_find_None)
next
  case (Some j)
  then have j: "j < length ns" "luaO_rawequalKey (gkey (ns ! j)) k" using node_find_Some by auto
  have "gkey (ns ! i) \<noteq> TNil" "gkey (ns ! j) \<noteq> TNil" using assms(3,4) j(2) by auto
  moreover have "luaO_rawequalKey (gkey (ns ! i)) (gkey (ns ! j))"
    using assms(3) j(2) by (blast intro: rawequalKey_trans rawequalKey_sym)
  ultimately have "i = j" using assms(1,2) j(1) by (auto simp: keys_ok_def keyed_def)
  then show ?thesis using Some by simp
qed

section \<open>The search finds the key\<close>

lemma chain_bound: "distinct (concat cs) \<Longrightarrow> set (concat cs) = {i. keyed ns i} \<Longrightarrow> c \<in> set cs \<Longrightarrow>
    distinct c \<and> length c \<le> length ns \<and> (\<forall>i\<in>set c. keyed ns i)"
proof -
  assume d: "distinct (concat cs)" and s: "set (concat cs) = {i. keyed ns i}" and c: "c \<in> set cs"
  have "distinct c" using d c by (simp add: distinct_concat_iff)
  moreover have k: "\<forall>i\<in>set c. keyed ns i" using s c by auto
  then have "set c \<subseteq> {..<length ns}" by (auto simp: keyed_def)
  then have "card (set c) \<le> length ns" using card_mono [of "{..<length ns}" "set c"] by simp
  ultimately show ?thesis using k by (simp add: distinct_card)
qed

lemma search_finds:
  assumes ok: "nodes_ok mp ns" and m: "mp k < length ns" and k: "k \<noteq> TNil"
    and hash: "\<And>a b. luaO_rawequalKey a b \<Longrightarrow> mp a = mp b"
  shows "find_in_chain (\<lambda>x. luaO_rawequalKey x k) ns (length ns) (mp k) = Some (node_find ns k)"
proof -
  from ok obtain cs where cs: "chains_ok mp ns cs" and keys: "keys_ok ns" by (auto simp: nodes_ok_def)
  let ?P = "\<lambda>x. luaO_rawequalKey x k"
  have here: "behind cs (mp k) i" if "i < length ns" "?P (gkey (ns ! i))" for i
  proof -
    have "keyed ns i" using that k by (auto simp: keyed_def)
    then have "behind cs (mp (gkey (ns ! i))) i" using cs by (simp add: chains_ok_def)
    then show ?thesis using hash [OF that(2)] by simp
  qed
  show ?thesis
  proof (cases "keyed ns (mp k)")
    case True
    then have "mp k \<in> set (concat cs)" using cs by (simp add: chains_ok_def)
    then obtain c where c: "c \<in> set cs" "mp k \<in> set c" by auto
    then obtain xs ys where s: "c = xs @ mp k # ys" by (meson split_list)
    have b: "distinct c" "length c \<le> length ns" "\<forall>i\<in>set c. keyed ns i"
      using chain_bound [of cs ns c] cs c by (auto simp: chains_ok_def)
    have "linked ns c" using cs c by (auto simp: chains_ok_def)
    then have "linked ns (mp k # ys)" using linked_suffix s by blast
    then have f: "find_in_chain ?P ns (length ns) (mp k) = Some (find (\<lambda>j. ?P (gkey (ns ! j))) (mp k # ys))"
      using find_in_chain_linked [of ns "mp k" ys "length ns" ?P] b s by simp
    show ?thesis
    proof (cases "find (\<lambda>j. ?P (gkey (ns ! j))) (mp k # ys)")
      case (Some j)
      then have "j \<in> set c" "?P (gkey (ns ! j))" using s find_SomeD [OF Some] by auto
      then show ?thesis using f Some node_find_eq [OF keys _ _ k] b(3) by (auto simp: keyed_def)
    next
      case None
      have "\<not> ?P (gkey (ns ! i))" if i: "i < length ns" for i
      proof
        assume "?P (gkey (ns ! i))"
        from here [OF i this] obtain d where u: "d \<in> set cs" "i \<in> set (dropWhile (\<lambda>x. x \<noteq> mp k) d)"
          by (auto simp: behind_def)
        have "mp k \<in> set d" using u(2) dropWhile_eq_Nil_conv [of "\<lambda>x. x \<noteq> mp k" d] by fastforce
        then have "d = c" using cs u(1) c by (intro same_chain [of cs]) (auto simp: chains_ok_def)
        then have "i \<in> set (mp k # ys)" using u(2) s b(1) dropWhile_split [of "mp k" xs ys] by simp
        then show False using None \<open>?P (gkey (ns ! i))\<close> by (auto simp: find_None_iff split: if_splits)
      qed
      then show ?thesis using f None node_find_None by metis
    qed
  next
    case False
    then have n: "gkey (ns ! mp k) = TNil" using m by (auto simp: keyed_def)
    then have "gnext (ns ! mp k) = 0" using keys m by (auto simp: keys_ok_def)
    then have f: "find_in_chain ?P ns (length ns) (mp k) = Some None" using n k m by (cases "length ns") auto
    have "\<not> ?P (gkey (ns ! i))" if "i < length ns" for i
    proof
      assume "?P (gkey (ns ! i))"
      from here [OF that this] have "mp k \<in> set (concat cs)" using behind_in by blast
      then show False using cs False unfolding chains_ok_def by blast
    qed
    then show ?thesis using f node_find_None by metis
  qed
qed

section \<open>Inserting a key into the nodes\<close>

lemma keyed_update:
  "keyed (ns[i := n]) j \<longleftrightarrow> j < length ns \<and> (if j = i then gkey n \<noteq> TNil else gkey (ns ! j) \<noteq> TNil)"
  by (auto simp: keyed_def nth_list_update)

text \<open>The entries that hold a value; a node without a value is as good as absent.\<close>

definition entries :: "LuaNode list \<Rightarrow> (TValue \<times> TValue) set" where
  "entries ns = {(gkey (ns ! i), gval (ns ! i)) |i. i < length ns \<and> gval (ns ! i) \<noteq> TNil}"

lemma chains_okI:
  assumes "distinct (concat cs)" and "set (concat cs) = {i. keyed ns i}" and "\<And>c. c \<in> set cs \<Longrightarrow> linked ns c"
    and "\<And>i. keyed ns i \<Longrightarrow> behind cs (mp (gkey (ns ! i))) i"
    and "\<And>i. keyed ns i \<Longrightarrow> mp (gkey (ns ! mp (gkey (ns ! i)))) = mp (gkey (ns ! i))"
  shows "chains_ok mp ns cs"
  using assms by (simp add: chains_ok_def)

lemma chains_okD:
  assumes "chains_ok mp ns cs"
  shows "distinct (concat cs)" and "set (concat cs) = {i. keyed ns i}" and "c \<in> set cs \<Longrightarrow> linked ns c"
    and "keyed ns i \<Longrightarrow> behind cs (mp (gkey (ns ! i))) i"
    and "keyed ns i \<Longrightarrow> mp (gkey (ns ! mp (gkey (ns ! i)))) = mp (gkey (ns ! i))"
    and "keyed ns i \<Longrightarrow> keyed ns (mp (gkey (ns ! i)))"
  using assms behind_in [of cs "mp (gkey (ns ! i))" i] unfolding chains_ok_def by blast+

text \<open>A vector with one new key, whose other keys come from different old nodes.\<close>

lemma keys_ok_extend:
  assumes keys: "keys_ok ns" and new: "node_find ns k = None" and k: "valid_key k"
    and len: "length ns' = length ns"
    and free: "\<And>i. i < length ns \<Longrightarrow> gkey (ns' ! i) = TNil \<Longrightarrow> gnext (ns' ! i) = 0 \<and> gval (ns' ! i) = TNil"
    and at_p: "gkey (ns' ! p) = k"
    and old: "\<And>i. i \<noteq> p \<Longrightarrow> keyed ns' i \<Longrightarrow> keyed ns (f i) \<and> gkey (ns' ! i) = gkey (ns ! f i)"
    and inj: "\<And>i j. i \<noteq> p \<Longrightarrow> j \<noteq> p \<Longrightarrow> keyed ns' i \<Longrightarrow> keyed ns' j \<Longrightarrow> f i = f j \<Longrightarrow> i = j"
  shows "keys_ok ns'"
proof -
  have nk: "\<not> luaO_rawequalKey (gkey (ns ! i)) k" if "keyed ns i" for i
    using new that by (simp add: node_find_None keyed_def)
  have "valid_key (gkey (ns' ! i))" if "i < length ns'" "gkey (ns' ! i) \<noteq> TNil" for i
  proof (cases "i = p")
    case False
    then show ?thesis using old [OF False] that keys by (auto simp: keyed_def keys_ok_def)
  qed (use at_p k in simp)
  moreover have "i = j" if ij: "keyed ns' i" "keyed ns' j" "luaO_rawequalKey (gkey (ns' ! i)) (gkey (ns' ! j))" for i j
  proof (cases "i = p \<or> j = p")
    case True
    then show ?thesis using ij at_p nk old rawequalKey_sym by metis
  next
    case False
    then have "keyed ns (f i)" "keyed ns (f j)" "luaO_rawequalKey (gkey (ns ! f i)) (gkey (ns ! f j))"
      using old ij by auto
    then have "f i = f j" using keys unfolding keys_ok_def by blast
    then show ?thesis using inj False ij by blast
  qed
  ultimately show ?thesis using free len by (simp add: keys_ok_def)
qed

text \<open>The main position holds no value: the key is written there.\<close>

lemma insert_main:
  assumes ok: "nodes_ok mp ns" and m: "mp k = m" "m < length ns" and nil: "gval (ns ! m) = TNil"
    and k: "valid_key k" and new: "node_find ns k = None"
  shows "nodes_ok mp (ns[m := (ns ! m)\<lparr>gkey := k\<rparr>])"
proof -
  let ?ns = "ns[m := (ns ! m)\<lparr>gkey := k\<rparr>]"
  from ok obtain cs where cs: "chains_ok mp ns cs" and keys: "keys_ok ns" by (auto simp: nodes_ok_def)
  note C = chains_okD [OF cs]
  have kn: "k \<noteq> TNil" using k by auto
  have kd: "keyed ?ns j \<longleftrightarrow> j = m \<or> keyed ns j" for j 
    using m kn by (cases "j = m") (auto simp: keyed_update keyed_def)
  have nx: "gnext (?ns ! j) = gnext (ns ! j)" for j using m by (cases "j = m") auto
  define cs' where "cs' = (if keyed ns m then cs else [m] # cs)"
  have keys': "keys_ok ?ns"
  proof (rule keys_ok_extend [OF keys new k, of _ m id])
    fix i assume "i < length ns" "gkey (?ns ! i) = TNil"
    then show "gnext (?ns ! i) = 0 \<and> gval (?ns ! i) = TNil"
      using keys kn by (cases "i = m") (auto simp: keys_ok_def)
  qed (use m kd in auto)
  have "chains_ok mp ?ns cs'"
  proof (rule chains_okI)
    show "distinct (concat cs')" using C(1,2) by (auto simp: cs'_def)
    show "set (concat cs') = {i. keyed ?ns i}" using C(2) by (auto simp: cs'_def kd)
    show "linked ?ns c" if "c \<in> set cs'" for c
    proof -
      have "\<not> keyed ns m \<Longrightarrow> gnext (ns ! m) = 0" using keys m by (auto simp: keys_ok_def keyed_def)
      then have "linked ns c" using that C(3) by (auto simp: cs'_def split: if_splits)
      then show ?thesis using linked_cong [of c ?ns ns] nx by simp
    qed
    fix i assume i: "keyed ?ns i"
    show "behind cs' (mp (gkey (?ns ! i))) i"
    proof (cases "i = m")
      case True
      then have e: "mp (gkey (?ns ! i)) = m" using m by simp
      have "m \<in> set (concat cs')" using C(2) by (cases "keyed ns m") (simp_all add: cs'_def)
      then obtain c where c: "c \<in> set cs'" "m \<in> set c" by auto
      then obtain xs ys where "c = xs @ m # ys" "m \<notin> set xs" by (meson split_list_first)
      then have "m \<in> set (dropWhile (\<lambda>x. x \<noteq> m) c)" by (simp add: dropWhile_split)
      with c(1) have "behind cs' m m" by (auto simp: behind_def)
      then show ?thesis unfolding e by (simp only: True)
    next
      case False
      then have "behind cs (mp (gkey (?ns ! i))) i" using i C(4) kd by simp
      then show ?thesis by (auto simp: behind_def cs'_def)
    qed
    show "mp (gkey (?ns ! mp (gkey (?ns ! i)))) = mp (gkey (?ns ! i))"
      using C(5) [of i] i kd m by (cases "i = m"; cases "mp (gkey (?ns ! i)) = m") auto
  qed
  then show ?thesis using keys' by (auto simp: nodes_ok_def)
qed

text \<open>The colliding node is in its main position: the new node is chained behind it.\<close>

lemma insert_link:
  assumes ok: "nodes_ok mp ns" and m: "mp k = m" "keyed ns m" "mp (gkey (ns ! m)) = m"
    and n: "n < length ns" "\<not> keyed ns n" and k: "valid_key k" and new: "node_find ns k = None"
  shows "nodes_ok mp ((link_node ns m n)[n := (link_node ns m n ! n)\<lparr>gkey := k\<rparr>])"
proof -
  define ns' where "ns' = (link_node ns m n)[n := (link_node ns m n ! n)\<lparr>gkey := k\<rparr>]"
  from ok obtain cs where cs: "chains_ok mp ns cs" and keys: "keys_ok ns" by (auto simp: nodes_ok_def)
  note C = chains_okD [OF cs]
  have kn: "k \<noteq> TNil" using k by auto
  have mn: "m \<noteq> n" "m < length ns" using m(2) n by (auto simp: keyed_def)
  have n0: "gnext (ns ! n) = 0" "gkey (ns ! n) = TNil" "gval (ns ! n) = TNil"
    using keys n by (auto simp: keys_ok_def keyed_def)
  have len: "length ns' = length ns" by (simp add: ns'_def link_node_def Let_def)
  have nx: "gnext (ns' ! j) = (if j = m then int n - int m
      else if j = n then (if gnext (ns ! m) = 0 then 0 else int m + gnext (ns ! m) - int n) else gnext (ns ! j))" for j
    using mn n n0 by (auto simp: ns'_def link_node_def Let_def nth_list_update)
  have key: "gkey (ns' ! j) = (if j = n then k else gkey (ns ! j))" for j
    using mn n by (auto simp: ns'_def link_node_def Let_def nth_list_update)
  have val: "gval (ns' ! j) = gval (ns ! j)" for j
    using mn n by (auto simp: ns'_def link_node_def Let_def nth_list_update)
  have kd: "keyed ns' j \<longleftrightarrow> j = n \<or> keyed ns j" for j using n kn unfolding keyed_def key len by auto
  have "m \<in> set (concat cs)" using C(2) m(2) by simp
  then obtain c where c: "c \<in> set cs" "m \<in> set c" by auto
  then obtain as bs where s1: "cs = as @ c # bs" by (meson split_list)
  obtain xs ys where "c = xs @ m # ys" using c(2) by (meson split_list)
  with s1 have s: "cs = as @ (xs @ m # ys) # bs" by simp
  define cs' where "cs' = as @ (xs @ m # n # ys) # bs"
  have d: "distinct (concat cs)" "n \<notin> set (concat cs)" using C(1,2) n by auto
  have keys': "keys_ok ns'"
  proof (rule keys_ok_extend [OF keys new k, of _ n id])
    fix i assume "i < length ns" "gkey (ns' ! i) = TNil"
    then have "i \<noteq> n" "gkey (ns ! i) = TNil" "i \<noteq> m" using kn m(2) by (auto simp: key keyed_def split: if_splits)
    then show "gnext (ns' ! i) = 0 \<and> gval (ns' ! i) = TNil"
      using keys \<open>i < length ns\<close> unfolding nx val by (simp add: keys_ok_def)
  qed (use kd key len in \<open>auto\<close>)
  have "chains_ok mp ns' cs'"
  proof (rule chains_okI)
    show "distinct (concat cs')" using d by (auto simp: cs'_def s)
    have "set (concat cs') = insert n (set (concat cs))" by (auto simp: cs'_def s)
    then show "set (concat cs') = {i. keyed ns' i}" using C(2) by (auto simp: kd)
    show "linked ns' e" if "e \<in> set cs'" for e
    proof (cases "e = xs @ m # n # ys")
      case True
      have "linked ns (xs @ m # ys)" using C(3) by (simp add: s)
      then have l: "links ns xs m" "gnext (ns ! m) = (if ys = [] then 0 else int (hd ys) - int m)" "linked ns ys"
        by (auto simp: linked_append linked_Cons)
      have nin: "m \<notin> set xs" "n \<notin> set xs" "m \<notin> set ys" "n \<notin> set ys" using d by (auto simp: s)
      have "links ns' xs m" using l(1) nin by (subst links_cong [of xs _ ns]) (auto simp: nx)
      moreover have "linked ns' ys" using l(3) nin by (subst linked_cong [of ys _ ns]) (auto simp: nx)
      moreover have "ys \<noteq> [] \<Longrightarrow> hd ys \<noteq> m" using nin by auto
      then have "gnext (ns' ! n) = (if ys = [] then 0 else int (hd ys) - int n)" using l(2) mn by (simp add: nx)
      moreover have "gnext (ns' ! m) = int n - int m" using mn by (simp add: nx)
      ultimately show ?thesis unfolding True linked_append by (simp add: linked_Cons)
    next
      case False
      then have e: "e \<in> set cs" "m \<notin> set e" "n \<notin> set e" using that d by (auto simp: cs'_def s)
      then show ?thesis using C(3) [OF e(1)] by (subst linked_cong [of e _ ns]) (auto simp: nx)
    qed
    have mono: "behind cs' q i" if "behind cs q i" for q i
    proof -
      from that have "q \<noteq> n" using behind_in d by blast
      then show ?thesis using that by (auto simp: behind_def cs'_def s dropWhile_append split: if_splits)
    qed
    fix i assume i: "keyed ns' i"
    show "behind cs' (mp (gkey (ns' ! i))) i"
    proof (cases "i = n")
      case True
      have "m \<notin> set xs" using d by (auto simp: s)
      then have "n \<in> set (dropWhile (\<lambda>x. x \<noteq> m) (xs @ m # n # ys))" by (simp add: dropWhile_split)
      then show ?thesis using m by (auto simp: True key behind_def cs'_def)
    next
      case False
      then show ?thesis using mono C(4) [of i] i by (simp add: kd key)
    qed
    show "mp (gkey (ns' ! mp (gkey (ns' ! i)))) = mp (gkey (ns' ! i))"
    proof (cases "i = n")
      case True
      then show ?thesis using m mn by (simp add: key)
    next
      case False
      then have "keyed ns i" using i kd by simp
      then show ?thesis using C(5,6) [of i] n False by (auto simp: key)
    qed
  qed
  then show ?thesis using keys' unfolding nodes_ok_def ns'_def by blast
qed

lemma chain_pred_links:
  "links ns (i # ws) m \<Longrightarrow> m \<notin> set ws \<Longrightarrow> length (i # ws) \<le> fuel \<Longrightarrow> chain_pred ns fuel i m = Some (last (i # ws))"
proof (induction ws arbitrary: i fuel)
  case Nil
  then show ?case by (cases fuel) auto
next
  case (Cons w ws)
  then obtain f where "fuel = Suc f" "length (w # ws) \<le> f" by (cases fuel) auto
  then show ?case using Cons by auto
qed

text \<open>The colliding node is not in its main position: it moves to the free node.\<close>

lemma insert_move:
  assumes ok: "nodes_ok mp ns" and m: "mp k = m" "keyed ns m" "mp (gkey (ns ! m)) \<noteq> m"
    and n: "n < length ns" "\<not> keyed ns n" and k: "valid_key k" and new: "node_find ns k = None"
  obtains p where "chain_pred ns (length ns) (mp (gkey (ns ! m))) m = Some p"
    and "p < length ns" and "p \<noteq> m" and "p \<noteq> n"
    and "nodes_ok mp ((move_node ns p m n)[m := (move_node ns p m n ! m)\<lparr>gkey := k\<rparr>])"
proof -
  from ok obtain cs where cs: "chains_ok mp ns cs" and keys: "keys_ok ns" by (auto simp: nodes_ok_def)
  note C = chains_okD [OF cs]
  define q where "q = mp (gkey (ns ! m))"
  have kn: "k \<noteq> TNil" using k by auto
  have mn: "m \<noteq> n" "m < length ns" "gkey (ns ! m) \<noteq> TNil" using m(2) n by (auto simp: keyed_def)
  have "behind cs q m" using C(4) [OF m(2)] by (simp add: q_def)
  then obtain c where c: "c \<in> set cs" "m \<in> set (dropWhile (\<lambda>x. x \<noteq> q) c)" by (auto simp: behind_def)
  have "q \<in> set c" using c(2) dropWhile_eq_Nil_conv [of "\<lambda>x. x \<noteq> q" c] by fastforce
  then obtain us vs where uv: "c = us @ q # vs" "q \<notin> set us" by (meson split_list_first)
  then have "m \<in> set vs" using c(2) m(3) by (auto simp: dropWhile_split q_def)
  then obtain ws ys where w: "vs = ws @ m # ys" by (meson split_list)
  obtain as bs where s1: "cs = as @ c # bs" using c(1) by (meson split_list)
  define xs where "xs = us @ q # ws"
  define p where "p = last (q # ws)"
  have s: "cs = as @ (xs @ m # ys) # bs" using s1 uv(1) w by (simp add: xs_def)
  have d: "distinct (concat cs)" "n \<notin> set (concat cs)" using C(1,2) n by auto
  have dx: "distinct (xs @ m # ys)" "n \<notin> set (xs @ m # ys)" using d by (auto simp: s)
  have "xs \<noteq> []" "last xs = p" by (simp_all add: xs_def p_def)
  then have px: "xs = butlast xs @ [p]" using append_butlast_last_id [of xs] by metis
  have pxs: "p \<in> set xs" using px by (metis in_set_conv_decomp)
  have dp: "p \<notin> set (butlast xs)" using dx(1) px by (metis distinct_append not_distinct_conv_prefix append_butlast_last_id)
  have pk: "p < length ns" using C(2) pxs by (auto simp: s keyed_def)
  have pn: "p \<noteq> m" "p \<noteq> n" using pxs dx by auto
  have l: "linked ns (xs @ m # ys)" using C(3) by (simp add: s)
  then have "linked ns ((q # ws) @ m # ys)" using linked_suffix [of ns us] by (simp add: xs_def)
  then have lk: "links ns (q # ws) m" by (simp only: linked_append)
  define ns' where "ns' = (move_node ns p m n)[m := (move_node ns p m n ! m)\<lparr>gkey := k\<rparr>]"
  have len: "length ns' = length ns" by (simp add: ns'_def move_node_def Let_def)
  have nx: "gnext (ns' ! j) = (if j = p then int n - int p else if j = m then 0
      else if j = n then (if gnext (ns ! m) = 0 then 0 else gnext (ns ! m) + (int m - int n)) else gnext (ns ! j))" for j
    using mn n pn pk by (auto simp: ns'_def move_node_def Let_def nth_list_update)
  have key: "gkey (ns' ! j) = (if j = m then k else if j = n then gkey (ns ! m) else gkey (ns ! j))" for j
    using mn n pn pk by (auto simp: ns'_def move_node_def Let_def nth_list_update)
  have val: "gval (ns' ! j) = (if j = m then TNil else if j = n then gval (ns ! m) else gval (ns ! j))" for j
    using mn n pn pk by (auto simp: ns'_def move_node_def Let_def nth_list_update)
  have kd: "keyed ns' j \<longleftrightarrow> j = n \<or> keyed ns j" for j using n kn mn unfolding keyed_def key len by auto
  define cs' where "cs' = [m] # as @ (xs @ n # ys) # bs"
  have keys': "keys_ok ns'"
  proof (rule keys_ok_extend [OF keys new k len, of m "\<lambda>i. if i = n then m else i"])
    fix i assume i: "i < length ns" "gkey (ns' ! i) = TNil"
    then have "i \<noteq> m" "i \<noteq> n" "gkey (ns ! i) = TNil" using kn mn by (auto simp: key split: if_splits)
    moreover from this have "i \<noteq> p" using C(2) pxs by (auto simp: s keyed_def)
    ultimately show "gnext (ns' ! i) = 0 \<and> gval (ns' ! i) = TNil"
      using keys i(1) by (simp add: nx val keys_ok_def)
  qed (use kd key m(2) mn in \<open>auto split: if_splits\<close>)
  have qm: "q \<noteq> m" using m(3) by (simp add: q_def)
  have main: "mp (gkey (ns ! i)) \<noteq> m" "mp (gkey (ns ! i)) \<noteq> n" if "keyed ns i" for i
    using C(5,6) [OF that] m(3) n(2) by auto
  have "chains_ok mp ns' cs'"
  proof (rule chains_okI)
    show "distinct (concat cs')" using d by (auto simp: cs'_def s)
    have "set (concat cs') = insert n (set (concat cs))" by (auto simp: cs'_def s)
    then show "set (concat cs') = {i. keyed ns' i}" using C(2) by (auto simp: kd)
    show "linked ns' e" if "e \<in> set cs'" for e
    proof (cases "e = xs @ n # ys \<or> e = [m]")
      case True
      have nin: "m \<notin> set xs" "n \<notin> set xs" "m \<notin> set ys" "n \<notin> set ys" "p \<notin> set ys" using dx pxs by auto
      have "links ns (butlast xs @ [p]) m" "gnext (ns ! m) = (if ys = [] then 0 else int (hd ys) - int m)" "linked ns ys"
        using l px by (auto simp: linked_append linked_Cons)
      then have l': "links ns (butlast xs) p" "gnext (ns ! m) = (if ys = [] then 0 else int (hd ys) - int m)" "linked ns ys"
        by (auto simp: links_snoc)
      have "links ns' (butlast xs) p" using l'(1) nin dp in_set_butlastD
        by (subst links_cong [of _ _ ns]) (fastforce simp: nx)+
      moreover have "gnext (ns' ! p) = int n - int p" by (simp add: nx)
      ultimately have "links ns' xs n" using px links_snoc by metis
      moreover have "linked ns' ys" using l'(3) nin by (subst linked_cong [of ys _ ns]) (auto simp: nx)
      moreover have "ys \<noteq> [] \<Longrightarrow> hd ys \<noteq> m" using nin by auto
      then have "gnext (ns' ! n) = (if ys = [] then 0 else int (hd ys) - int n)" using l'(2) mn pn by (simp add: nx)
      ultimately have "linked ns' (xs @ n # ys)" unfolding linked_append by (simp add: linked_Cons)
      moreover have "linked ns' [m]" using pn by (simp add: nx)
      ultimately show ?thesis using True by blast
    next
      case False
      then have e: "e \<in> set cs" "m \<notin> set e" "n \<notin> set e" "p \<notin> set e"
        using that d pxs by (auto simp: cs'_def s)
      then show ?thesis using C(3) [OF e(1)] by (subst linked_cong [of e _ ns]) (auto simp: nx)
    qed
    have mono: "behind cs' r i" if b: "behind cs r i" "r \<noteq> m" "i \<noteq> m" for r i
    proof -
      from b obtain e where e: "e \<in> set cs" "i \<in> set (dropWhile (\<lambda>x. x \<noteq> r) e)" by (auto simp: behind_def)
      show ?thesis
      proof (cases "e = xs @ m # ys")
        case True
        then have "i \<in> set (dropWhile (\<lambda>x. x \<noteq> r) (xs @ n # ys))"
          using e(2) b by (cases "r \<in> set xs") (auto simp: dropWhile_append dest: set_dropWhileD split: if_splits)
        then show ?thesis by (auto simp: behind_def cs'_def)
      qed (use e in \<open>auto simp: behind_def cs'_def s\<close>)
    qed
    fix i assume i: "keyed ns' i"
    consider "i = m" | "i = n" | "keyed ns i" "i \<noteq> m" "i \<noteq> n" using i kd by auto
    note three = this
    show "behind cs' (mp (gkey (ns' ! i))) i"
    proof (cases rule: three)
      case 1
      then show ?thesis using m by (simp add: key behind_def cs'_def)
    next
      case 2
      have "dropWhile (\<lambda>x. x \<noteq> q) (xs @ n # ys) = q # ws @ n # ys"
        using uv(2) by (simp add: xs_def dropWhile_split)
      moreover have "mp (gkey (ns' ! i)) = q" using 2 mn by (simp add: key q_def)
      ultimately show ?thesis using 2 by (auto simp: behind_def cs'_def)
    next
      case 3
      then show ?thesis using mono C(4) [of i] main(1) by (simp add: key)
    qed
    show "mp (gkey (ns' ! mp (gkey (ns' ! i)))) = mp (gkey (ns' ! i))"
    proof (cases rule: three)
      case 1
      then show ?thesis using m by (simp add: key)
    next
      case 2
      then show ?thesis using mn main [OF m(2)] C(5) [OF m(2)] by (simp add: key)
    next
      case 3
      then show ?thesis using main [OF 3(1)] C(5) [OF 3(1)] by (simp add: key)
    qed
  qed
  then have "nodes_ok mp ns'" using keys' unfolding nodes_ok_def by blast
  moreover have "length (q # ws) \<le> length ns"
    using chain_bound [of cs ns c] C(1,2) c(1) uv(1) w by auto
  then have "chain_pred ns (length ns) q m = Some p"
    using chain_pred_links [OF lk] dx(1) by (simp add: p_def xs_def)
  ultimately show thesis using that pk pn unfolding ns'_def q_def by blast
qed

section \<open>Values of the nodes\<close>

text \<open>The value under a key in the nodes; \<open>TNil\<close> when there is none.\<close>

definition node_val :: "LuaNode list \<Rightarrow> TValue \<Rightarrow> TValue" where
  "node_val ns k = (case node_find ns k of Some i \<Rightarrow> gval (ns ! i) | None \<Rightarrow> TNil)"

lemma node_val_entries:
  assumes "keys_ok ns" and "k \<noteq> TNil" and "v \<noteq> TNil"
  shows "node_val ns k = v \<longleftrightarrow> (\<exists>k'. luaO_rawequalKey k' k \<and> (k', v) \<in> entries ns)"
proof
  assume "node_val ns k = v"
  then obtain i where "node_find ns k = Some i" "gval (ns ! i) = v"
    using assms(3) by (auto simp: node_val_def split: option.splits)
  then show "\<exists>k'. luaO_rawequalKey k' k \<and> (k', v) \<in> entries ns"
    using node_find_Some [of ns k i] assms(3) by (auto simp: entries_def)
next
  assume "\<exists>k'. luaO_rawequalKey k' k \<and> (k', v) \<in> entries ns"
  then obtain i where "i < length ns" "luaO_rawequalKey (gkey (ns ! i)) k" "v = gval (ns ! i)"
    by (auto simp: entries_def)
  then show "node_val ns k = v" using node_find_eq [OF assms(1) _ _ assms(2)] by (simp add: node_val_def)
qed

lemma node_val_cong:
  assumes "keys_ok ns" and "keys_ok ns'" and "entries ns' = entries ns" and "k \<noteq> TNil"
  shows "node_val ns' k = node_val ns k"
  using node_val_entries [OF assms(1,4)] node_val_entries [OF assms(2,4)] assms(3) by metis

lemma node_find_update_val:
  "i < length ns \<Longrightarrow> node_find (ns[i := (ns ! i)\<lparr>gval := v\<rparr>]) k = node_find ns k"
proof -
  assume "i < length ns"
  then have "gkey (ns[i := (ns ! i)\<lparr>gval := v\<rparr>] ! j) = gkey (ns ! j)" for j by (cases "j = i") auto
  then show ?thesis by (simp add: node_find_def)
qed

lemma nodes_ok_update_val:
  assumes "nodes_ok mp ns" and i: "keyed ns i"
  shows "nodes_ok mp (ns[i := (ns ! i)\<lparr>gval := v\<rparr>])"
proof -
  define ns' where "ns' = ns[i := (ns ! i)\<lparr>gval := v\<rparr>]"
  have len: "length ns' = length ns" by (simp add: ns'_def)
  have key: "gkey (ns' ! j) = gkey (ns ! j)" "gnext (ns' ! j) = gnext (ns ! j)" for j
    using i by (cases "j = i"; simp add: ns'_def keyed_def)+
  have val: "gkey (ns ! j) = TNil \<Longrightarrow> gval (ns' ! j) = gval (ns ! j)" for j
    using i by (cases "j = i") (auto simp: ns'_def keyed_def)
  have kd: "keyed ns' j = keyed ns j" for j by (simp add: keyed_def len key)
  have lk: "linked ns' c = linked ns c" for c by (rule linked_cong) (simp add: key)
  have "keys_ok ns'" using assms(1) val by (simp add: nodes_ok_def keys_ok_def kd len key)
  moreover have "chains_ok mp ns' = chains_ok mp ns" by (intro ext) (simp add: chains_ok_def kd key lk)
  ultimately show ?thesis using assms(1) by (simp add: nodes_ok_def ns'_def)
qed

lemma node_val_update_val:
  assumes ok: "keys_ok ns" and i: "keyed ns i" and k: "k \<noteq> TNil"
  shows "node_val (ns[i := (ns ! i)\<lparr>gval := v\<rparr>]) k =
     (if luaO_rawequalKey (gkey (ns ! i)) k then v else node_val ns k)"
proof (cases "luaO_rawequalKey (gkey (ns ! i)) k")
  case True
  then have "node_find ns k = Some i" using node_find_eq [OF ok _ True k] i by (simp add: keyed_def)
  then show ?thesis using True i by (simp add: node_val_def node_find_update_val keyed_def)
next
  case False
  then have "node_find ns k \<noteq> Some i" using node_find_Some by blast
  then show ?thesis using False i
    by (auto simp: node_val_def node_find_update_val keyed_def split: option.splits)
qed

text \<open>None of the three insertions changes a value.\<close>

lemma entries_main:
  "gval (ns ! m) = TNil \<Longrightarrow> m < length ns \<Longrightarrow> entries (ns[m := (ns ! m)\<lparr>gkey := k\<rparr>]) = entries ns"
proof -
  assume "gval (ns ! m) = TNil" "m < length ns"
  then have e: "gval (ns[m := (ns ! m)\<lparr>gkey := k\<rparr>] ! i) = gval (ns ! i)"
    "gval (ns ! i) \<noteq> TNil \<Longrightarrow> gkey (ns[m := (ns ! m)\<lparr>gkey := k\<rparr>] ! i) = gkey (ns ! i)" for i
    by (cases "i = m"; auto)+
  show ?thesis by (auto simp: entries_def e) (metis e(2))+
qed

lemma entries_link:
  assumes "keys_ok ns" and "m < length ns" and "m \<noteq> n" and "n < length ns" and "\<not> keyed ns n"
  shows "entries ((link_node ns m n)[n := (link_node ns m n ! n)\<lparr>gkey := k\<rparr>]) = entries ns"
proof -
  define ns' where "ns' = (link_node ns m n)[n := (link_node ns m n ! n)\<lparr>gkey := k\<rparr>]"
  have "gval (ns ! n) = TNil" using assms by (auto simp: keys_ok_def keyed_def)
  moreover have "gval (ns' ! i) = gval (ns ! i)" "i \<noteq> n \<Longrightarrow> gkey (ns' ! i) = gkey (ns ! i)" for i
    using assms by (auto simp: ns'_def link_node_def Let_def nth_list_update)
  moreover have "length ns' = length ns" by (simp add: ns'_def link_node_def Let_def)
  ultimately have "entries ns' = entries ns" by (auto simp: entries_def) metis+
  then show ?thesis by (simp add: ns'_def)
qed

lemma entries_move:
  assumes "keys_ok ns" and "m < length ns" and "m \<noteq> n" and "n < length ns" and "\<not> keyed ns n"
    and "p < length ns" and "p \<noteq> m" and "p \<noteq> n"
  shows "entries ((move_node ns p m n)[m := (move_node ns p m n ! m)\<lparr>gkey := k\<rparr>]) = entries ns"
    and "gval ((move_node ns p m n)[m := (move_node ns p m n ! m)\<lparr>gkey := k\<rparr>] ! m) = TNil"
proof -
  define ns' where "ns' = (move_node ns p m n)[m := (move_node ns p m n ! m)\<lparr>gkey := k\<rparr>]"
  have nil: "gval (ns ! n) = TNil" using assms by (auto simp: keys_ok_def keyed_def)
  have key: "gkey (ns' ! j) = (if j = m then k else if j = n then gkey (ns ! m) else gkey (ns ! j))"
    and val: "gval (ns' ! j) = (if j = m then TNil else if j = n then gval (ns ! m) else gval (ns ! j))" for j
    using assms by (auto simp: ns'_def move_node_def Let_def nth_list_update)
  have len: "length ns' = length ns" by (simp add: ns'_def move_node_def Let_def)
  define f where "f = (\<lambda>i. if i = n then m else i)"
  define g where "g = (\<lambda>i. if i = m then n else i)"
  have f: "gval (ns' ! i) \<noteq> TNil \<Longrightarrow> i < length ns \<Longrightarrow>
      f i < length ns \<and> gkey (ns' ! i) = gkey (ns ! f i) \<and> gval (ns' ! i) = gval (ns ! f i)" for i
    using assms(2) by (auto simp: f_def key val split: if_splits)
  have g: "gval (ns ! i) \<noteq> TNil \<Longrightarrow> i < length ns \<Longrightarrow>
      g i < length ns \<and> gkey (ns ! i) = gkey (ns' ! g i) \<and> gval (ns ! i) = gval (ns' ! g i)" for i
    using assms(3,4) nil by (auto simp: g_def key val split: if_splits)
  have "entries ns' \<subseteq> entries ns" unfolding entries_def len using f by fastforce
  moreover have "entries ns \<subseteq> entries ns'" unfolding entries_def len using g by fastforce
  ultimately show "entries ((move_node ns p m n)[m := (move_node ns p m n ! m)\<lparr>gkey := k\<rparr>]) = entries ns"
    by (simp add: ns'_def)
  show "gval ((move_node ns p m n)[m := (move_node ns p m n ! m)\<lparr>gkey := k\<rparr>] ! m) = TNil"
    using val [of m] by (simp add: ns'_def)
qed

end
