(* ===== verification/TableOps.thy ===== *)
theory TableOps imports TableInv begin

text \<open>
  What a table promises: it is a map from keys, up to raw equality, to values. This theory has the
  abstract map of a table, the well-formedness invariant, the correctness of every search, and the part of
  insertion that does not grow the table.
\<close>

section \<open>Integer keys\<close>

text \<open>The integer a key stands for, when it is a number equal to an \<open>int\<close>.\<close>

definition int_key :: "TValue \<Rightarrow> int option" where
  "int_key k =
     (case k of TNumber d \<Rightarrow> if luai_numeq (d_of_int (num2int d)) d then Some (num2int d) else None | _ \<Rightarrow> None)"

lemma num2int_range: "in_int32 (num2int d)"
proof -
  have "in_int32 INT_MIN" by (simp add: in_int32_def)
  then show ?thesis by (auto simp: num2int_def luai_num2int_def)
qed

lemma num2int_of_int [simp]: "in_int32 i \<Longrightarrow> num2int (d_of_int i) = i"
  by (simp add: num2int_def luai_num2int_of_int)

lemma d_of_int_not_nan [simp]: "in_int32 i \<Longrightarrow> \<not> d_isnan (d_of_int i)"
  using d_of_int_exact(1) [OF in_int32_abs, of i] by (simp add: d_isnan_def d_finite_def)

lemma int_key_range: "int_key k = Some i \<Longrightarrow> in_int32 i"
  by (auto simp: int_key_def num2int_range split: TValue.splits if_splits)

lemma int_key_of_int [simp]: "in_int32 i \<Longrightarrow> int_key (TNumber (d_of_int i)) = Some i"
  by (simp add: int_key_def)

lemma d_iszero_num2int: "d_iszero d \<Longrightarrow> num2int d = 0"
proof -
  assume "d_iszero d"
  moreover have "num2int 0 = 0" "num2int 0x8000000000000000 = 0"
    by (simp_all add: num2int_def luai_num2int_def d_trunc_def d_trunc_abs_def d_mant_def d_exp_def d_frac_def
        d_finite_def in_int32_def)
  ultimately show ?thesis using d_iszero_cases by blast
qed

lemma d_iszero_of_int: "in_int32 i \<Longrightarrow> d_iszero (d_of_int i) \<Longrightarrow> i = 0"
  using d_iszero_num2int by fastforce

lemma rawequal_int_key:
  assumes "in_int32 i"
  shows "luaO_rawequalKey k (TNumber (d_of_int i)) \<longleftrightarrow> int_key k = Some i"
proof (cases k)
  case (TNumber d)
  have "luai_numeq d (d_of_int i) \<longleftrightarrow> luai_numeq (d_of_int (num2int d)) d \<and> num2int d = i"
  proof
    assume a: "luai_numeq d (d_of_int i)"
    have "num2int d = i"
    proof (cases "d = d_of_int i")
      case False
      then have "d_iszero d" "d_iszero (d_of_int i)" using a by (auto simp: luai_numeq_def)
      then show ?thesis using d_iszero_num2int d_iszero_of_int assms by simp
    qed (use assms in simp)
    then show "luai_numeq (d_of_int (num2int d)) d \<and> num2int d = i" using a numeq_sym by simp
  qed (auto intro: numeq_sym)
  then show ?thesis by (auto simp: TNumber luaO_rawequalKey_def int_key_def)
qed (auto simp: luaO_rawequalKey_def int_key_def)

lemma int_key_cong:
  assumes "luaO_rawequalKey a b"
  shows "int_key a = int_key b"
proof -
  have "int_key a = Some i \<Longrightarrow> int_key b = Some i" if "luaO_rawequalKey a b" for a b i
    using that rawequal_int_key int_key_range rawequalKey_trans rawequalKey_sym by metis
  then show ?thesis using assms rawequalKey_sym by (metis option.exhaust)
qed

lemma int_key_equal: "int_key a = Some i \<Longrightarrow> int_key b = Some i \<Longrightarrow> luaO_rawequalKey a b"
  using rawequal_int_key int_key_range rawequalKey_trans rawequalKey_sym by metis

section \<open>Well-formed tables\<close>

definition in_part :: "LuaTable \<Rightarrow> TValue \<Rightarrow> bool" where
  "in_part t k \<longleftrightarrow> (case int_key k of Some i \<Rightarrow> 1 \<le> i \<and> i \<le> int (sizearray t) | None \<Rightarrow> False)"

lemma in_part_cong: "length (array t') = length (array t) \<Longrightarrow> in_part t' k = in_part t k"
  by (cases "int_key k") (simp_all add: in_part_def)

lemma in_part_simps [simp]:
  "in_part (t\<lparr>lastfree := l\<rparr>) k = in_part t k"
  "in_part (t\<lparr>node := ns\<rparr>) k = in_part t k"
  "in_part (t\<lparr>tmcache := m\<rparr>) k = in_part t k"
  "in_part (t\<lparr>array := (array t)[i := v]\<rparr>) k = in_part t k"
  by (rule in_part_cong; simp)+

text \<open>Free positions are below \<open>lastfree\<close>; a negative value is a boundary inside of the array.\<close>

definition free_ok :: "LuaTable \<Rightarrow> bool" where
  "free_ok t \<longleftrightarrow> - lastfree t \<le> int (sizearray t) \<and>
     (if node_dummy t then lastfree t \<le> 0
      else lastfree t \<le> int (length (node t)) \<and> (\<forall>i<length (node t). lastfree t \<le> int i \<longrightarrow> keyed (node t) i))"

text \<open>
  The array part holds every index up to its size, and the index after it is never in a node: that is
  what lets \<open>luaH_getn\<close> stop at the end of the array.
\<close>

definition wf_table :: "LuaTable \<Rightarrow> bool" where
  "wf_table t \<longleftrightarrow> sizearray t \<le> MAXSIZE \<and> lsizenode t \<le> MAXBITS \<and> length (node t) = sizenode t \<and>
     (node_dummy t \<longrightarrow> node t = [luaH_dummynode] \<and> lsizenode t = 0) \<and>
     nodes_ok (mainposition t) (node t) \<and> free_ok t \<and>
     (\<forall>i. keyed (node t) i \<longrightarrow> \<not> in_part t (gkey (node t ! i)) \<and>
        int_key (gkey (node t ! i)) \<noteq> Some (int (sizearray t) + 1))"

lemma wf_nodes: "wf_table t \<Longrightarrow> nodes_ok (mainposition t) (node t)" "wf_table t \<Longrightarrow> keys_ok (node t)"
  by (simp_all add: wf_table_def nodes_ok_def)

lemma keyed_not_dummy: "wf_table t \<Longrightarrow> keyed (node t) i \<Longrightarrow> \<not> node_dummy t"
proof
  assume "wf_table t" "keyed (node t) i" "node_dummy t"
  then have "keyed [luaH_dummynode] i" by (simp add: wf_table_def)
  then show False by (cases i) (simp_all add: keyed_def luaH_dummynode_def)
qed

text \<open>The table as a map.\<close>

definition table_at :: "LuaTable \<Rightarrow> TValue \<Rightarrow> TValue" where
  "table_at t k = (if in_part t k then array t ! nat (the (int_key k) - 1) else node_val (node t) k)"

lemma mainposition_cong_table: "lsizenode t' = lsizenode t \<Longrightarrow> mainposition t' = mainposition t"
  by (intro ext) (simp add: mainposition_def)

lemma mainposition_simps [simp]:
  "mainposition (t\<lparr>lastfree := l\<rparr>) = mainposition t"
  "mainposition (t\<lparr>node := ns\<rparr>) = mainposition t"
  "mainposition (t\<lparr>tmcache := m\<rparr>) = mainposition t"
  "mainposition (t\<lparr>array := a\<rparr>) = mainposition t"
  by (rule mainposition_cong_table; simp)+

lemma wf_table_cong:
  assumes "wf_table t" and "sizearray t' = sizearray t" and "node t' = node t" and "node_dummy t' = node_dummy t"
    and "lsizenode t' = lsizenode t" and "free_ok t'"
  shows "wf_table t'"
  using assms(1,6) in_part_cong [OF assms(2)] mainposition_cong_table [OF assms(5)]
  unfolding wf_table_def sizenode_def assms(2-5) by simp

lemma hashpow2_less: "hashpow2 l h < 2 ^ l"
proof -
  have "h AND (2 ^ l - 1) = take_bit l h" by (simp add: take_bit_eq_mask mask_eq_exp_minus_1)
  then have "hashpow2 l h = take_bit l (unat h)" by (simp add: hashpow2_def unsigned_take_bit_eq)
  then show ?thesis by simp
qed

lemma mainposition_less: "wf_table t \<Longrightarrow> mainposition t k < length (node t)"
  by (simp add: wf_table_def mainposition_def sizenode_def hashpow2_less)

lemma mainposition_cong: "luaO_rawequalKey a b \<Longrightarrow> mainposition t a = mainposition t b"
  by (simp add: mainposition_def Hashing.rawequal_same_hash)

section \<open>Searches\<close>

definition lookup_slot :: "LuaTable \<Rightarrow> TValue \<Rightarrow> slot" where
  "lookup_slot t k =
     (if in_part t k then SArray (nat (the (int_key k) - 1)) else node_slot (node_find (node t) k))"

lemma lookup_slot_val: "slot_val t (lookup_slot t k) = table_at t k"
  by (simp add: lookup_slot_def table_at_def node_slot_def node_val_def split: option.splits)

lemma search_generic:
  assumes wf: "wf_table t" and k: "k \<noteq> TNil" and P: "\<And>x. P x = luaO_rawequalKey x k"
  shows "search_chain P t (mainposition t k) = Some (node_slot (node_find (node t) k))"
proof -
  have "P = (\<lambda>x. luaO_rawequalKey x k)" using P by (rule ext)
  then show ?thesis
    using search_finds [OF wf_nodes(1) [OF wf] mainposition_less [OF wf] k mainposition_cong]
    by (simp add: search_chain_def)
qed

lemma in_array_iff:
  assumes "wf_table t" and i: "in_int32 i"
  shows "in_array t i \<longleftrightarrow> 1 \<le> i \<and> i \<le> int (sizearray t)"
proof -
  have s: "int (sizearray t) \<le> 67108864" using assms(1) by (simp add: wf_table_def)
  have e: "(i mod 2 ^ 32 - 1) mod 2 ^ 32 = (i - 1) mod 2 ^ 32" by (simp add: mod_diff_left_eq)
  show ?thesis
  proof (cases "1 \<le> i")
    case True
    then have "(i - 1) mod 2 ^ 32 = i - 1" using i by (intro mod_pos_pos_trivial) (auto simp: in_int32_def)
    then show ?thesis using True unfolding in_array_def e by auto
  next
    case False
    then have "(i - 1 + 2 ^ 32) mod 2 ^ 32 = i - 1 + 2 ^ 32"
      using i by (intro mod_pos_pos_trivial) (auto simp: in_int32_def)
    then have "(i - 1) mod 2 ^ 32 = i - 1 + 2 ^ 32" by (simp only: mod_add_self2)
    then show ?thesis using False i s unfolding in_array_def e in_int32_def by auto
  qed
qed

lemma getnum_slot:
  assumes wf: "wf_table t" and i: "in_int32 i"
  shows "luaH_getnum t i = Some (lookup_slot t (TNumber (d_of_int i)))"
proof (cases "1 \<le> i \<and> i \<le> int (sizearray t)")
  case True
  then show ?thesis using in_array_iff [OF assms] i by (simp add: luaH_getnum_def lookup_slot_def in_part_def)
next
  case False
  then have p: "\<not> in_part t (TNumber (d_of_int i))" and a: "\<not> in_array t i"
    using in_array_iff [OF assms] i by (simp_all add: in_part_def)
  show ?thesis
  proof (cases "node_dummy t")
    case True
    then have "node t = [luaH_dummynode]" using wf by (simp add: wf_table_def)
    then have "node_find (node t) (TNumber (d_of_int i)) = None"
      by (simp add: node_find_None luaH_dummynode_def)
    then show ?thesis using True a p by (simp add: luaH_getnum_def lookup_slot_def node_slot_def)
  next
    case False
    then show ?thesis using a p search_generic [OF wf, of "TNumber (d_of_int i)"]
      by (simp add: luaH_getnum_def Let_def lookup_slot_def luaO_rawequalKey_def split: TValue.split)
  qed
qed

lemma get_generic_slot: "wf_table t \<Longrightarrow> k \<noteq> TNil \<Longrightarrow>
    luaH_get_generic t k = Some (node_slot (node_find (node t) k))"
  unfolding luaH_get_generic_def by (rule search_generic) simp_all

lemma getstr_slot: "wf_table t \<Longrightarrow> luaH_getstr t s = Some (lookup_slot t (TString s))"
  unfolding luaH_getstr_def lookup_slot_def
  by (subst search_generic) (auto simp: in_part_def int_key_def luaO_rawequalKey_def split: TValue.split)

lemma getp_slot: "wf_table t \<Longrightarrow> luaH_getp t p g = Some (lookup_slot t (TLightUserdata p g))"
  unfolding luaH_getp_def lookup_slot_def
  by (subst search_generic) (auto simp: in_part_def int_key_def luaO_rawequalKey_def split: TValue.split)

lemma get_slot:
  assumes wf: "wf_table t" and k: "k \<noteq> TNil"
  shows "luaH_get t k = Some (lookup_slot t k)"
proof (cases k)
  case (TNumber d)
  show ?thesis
  proof (cases "luai_numeq (d_of_int (num2int d)) d")
    case True
    then have "luaO_rawequalKey (TNumber (d_of_int (num2int d))) k" by (simp add: TNumber luaO_rawequalKey_def)
    moreover from this have "node_find (node t) (TNumber (d_of_int (num2int d))) = node_find (node t) k"
      unfolding node_find_def using rawequalKey_trans rawequalKey_sym by metis
    ultimately have "lookup_slot t (TNumber (d_of_int (num2int d))) = lookup_slot t k"
      using int_key_cong by (simp add: lookup_slot_def in_part_def)
    then show ?thesis using True getnum_slot [OF wf num2int_range] by (simp add: luaH_get_def TNumber)
  next
    case False
    then have "\<not> in_part t k" by (simp add: in_part_def int_key_def TNumber)
    then show ?thesis using False get_generic_slot [OF wf, of k]
      by (simp add: luaH_get_def TNumber lookup_slot_def)
  qed
next
  case (TString s)
  then show ?thesis using getstr_slot [OF wf] by (simp add: luaH_get_def)
qed (use k get_generic_slot [OF wf, of k] in \<open>simp_all add: luaH_get_def lookup_slot_def in_part_def int_key_def\<close>)

lemma table_at_nil [simp]: "wf_table t \<Longrightarrow> table_at t TNil = TNil"
proof -
  assume wf: "wf_table t"
  have "gval (node t ! i) = TNil" if "node_find (node t) TNil = Some i" for i
    using node_find_Some [OF that] wf_nodes(2) [OF wf] by (auto simp: keys_ok_def)
  then show ?thesis by (simp add: table_at_def in_part_def int_key_def node_val_def split: option.split)
qed

section \<open>Inserting without growing\<close>

text \<open>Writing through a slot that a search or an insertion gave.\<close>

definition slot_for :: "LuaTable \<Rightarrow> slot \<Rightarrow> TValue \<Rightarrow> bool" where
  "slot_for t s k \<longleftrightarrow>
     (case s of
        SArray i \<Rightarrow> i < sizearray t \<and> int_key k = Some (int i + 1)
      | SNode i \<Rightarrow> keyed (node t) i \<and> luaO_rawequalKey (gkey (node t ! i)) k \<and> \<not> in_part t k
      | SNilobject \<Rightarrow> False)"

lemma free_ok_cong:
  "lastfree t' = lastfree t \<Longrightarrow> node_dummy t' = node_dummy t \<Longrightarrow> length (array t') = length (array t) \<Longrightarrow>
     length (node t') = length (node t) \<Longrightarrow> (\<And>i. keyed (node t) i \<Longrightarrow> keyed (node t') i) \<Longrightarrow>
     free_ok t \<Longrightarrow> free_ok t'"
  by (auto simp: free_ok_def)

lemma slot_put_ok:
  assumes wf: "wf_table t" and s: "slot_for t s k"
  shows "wf_table (slot_put t s v) \<and> sizearray (slot_put t s v) = sizearray t"
proof (cases s)
  case (SArray i)
  have "free_ok t" using wf by (simp add: wf_table_def)
  then have "free_ok (slot_put t s v)" by (simp add: SArray free_ok_def)
  then show ?thesis using wf_table_cong [OF wf, of "slot_put t s v"] by (simp add: SArray)
next
  case (SNode i)
  then have k: "keyed (node t) i" using s by (simp add: slot_for_def)
  define ns' where "ns' = (node t)[i := (node t ! i)\<lparr>gval := v\<rparr>]"
  have t': "slot_put t s v = t\<lparr>node := ns'\<rparr>" by (simp add: SNode ns'_def)
  have kd: "keyed ns' j = keyed (node t) j" and key: "gkey (ns' ! j) = gkey (node t ! j)" for j
    using k by (cases "j = i"; auto simp: ns'_def keyed_def)+
  have nd: "\<not> node_dummy t" by (rule keyed_not_dummy [OF wf k])
  have "nodes_ok (mainposition t) ns'" unfolding ns'_def by (rule nodes_ok_update_val [OF wf_nodes(1) [OF wf] k])
  moreover have "length ns' = length (node t)" by (simp add: ns'_def)
  ultimately show ?thesis unfolding t' using wf nd
    by (auto simp: wf_table_def sizenode_def free_ok_def kd key)
qed (use s in \<open>simp add: slot_for_def\<close>)

lemma slot_put_at:
  assumes wf: "wf_table t" and s: "slot_for t s k" and k': "k' \<noteq> TNil"
  shows "table_at (slot_put t s v) k' = (if luaO_rawequalKey k k' then v else table_at t k')"
proof (cases s)
  case (SArray i)
  then have i: "i < sizearray t" "int_key k = Some (int i + 1)" using s by (simp_all add: slot_for_def)
  have eq: "luaO_rawequalKey k k' \<longleftrightarrow> int_key k' = Some (int i + 1)"
    using i(2) int_key_equal int_key_cong by metis
  have p: "in_part (slot_put t s v) k' = in_part t k'" by (simp add: SArray)
  show ?thesis
  proof (cases "in_part t k'")
    case True
    then obtain j where j: "int_key k' = Some j" "1 \<le> j" "j \<le> int (sizearray t)"
      by (auto simp: in_part_def split: option.splits)
    then have "j = int i + 1 \<longleftrightarrow> nat (j - 1) = i" by auto
    then show ?thesis using True p j i eq by (auto simp: table_at_def SArray)
  next
    case False
    then have "\<not> luaO_rawequalKey k k'" using i eq by (auto simp: in_part_def)
    then show ?thesis using False p by (simp add: table_at_def SArray)
  qed
next
  case (SNode i)
  then have i: "keyed (node t) i" "luaO_rawequalKey (gkey (node t ! i)) k" "\<not> in_part t k"
    using s by (simp_all add: slot_for_def)
  have p: "in_part (slot_put t s v) k' = in_part t k'" by (simp add: SNode)
  have eq: "luaO_rawequalKey (gkey (node t ! i)) k' \<longleftrightarrow> luaO_rawequalKey k k'"
    using i(2) by (blast intro: rawequalKey_trans rawequalKey_sym)
  show ?thesis
  proof (cases "in_part t k'")
    case True
    then have "\<not> luaO_rawequalKey k k'" using i(3) int_key_cong by (metis in_part_def)
    then show ?thesis using True p by (simp add: table_at_def SNode)
  next
    case False
    then show ?thesis using p node_val_update_val [OF wf_nodes(2) [OF wf] i(1) k', of v] eq
      by (simp add: table_at_def SNode)
  qed
qed (use s in \<open>simp add: slot_for_def\<close>)

lemma lookup_slot_for:
  assumes "valid_key k" and "lookup_slot t k \<noteq> SNilobject"
  shows "slot_for t (lookup_slot t k) k"
proof (cases "in_part t k")
  case True
  then show ?thesis by (auto simp: lookup_slot_def slot_for_def in_part_def split: option.splits)
next
  case False
  then obtain i where i: "node_find (node t) k = Some i" using assms(2)
    by (auto simp: lookup_slot_def node_slot_def split: option.splits)
  note f = node_find_Some [OF i]
  then have "gkey (node t ! i) \<noteq> TNil" using assms(1) by auto
  then show ?thesis using False i f by (simp add: lookup_slot_def node_slot_def slot_for_def keyed_def)
qed

subsection \<open>The free position\<close>

lemma getfreepos_loop_spec:
  "getfreepos_loop ns l = (l', r) \<Longrightarrow> l \<le> length ns \<Longrightarrow> (\<And>i. l \<le> i \<Longrightarrow> i < length ns \<Longrightarrow> keyed ns i) \<Longrightarrow>
     (case r of None \<Rightarrow> l' = 0 \<and> (\<forall>i<length ns. keyed ns i)
      | Some n \<Rightarrow> l' = n \<and> n < length ns \<and> \<not> keyed ns n \<and> (\<forall>i<length ns. n < i \<longrightarrow> keyed ns i))"
proof (induction l arbitrary: l' r)
  case (Suc l)
  show ?case
  proof (cases "gkey (ns ! l) = TNil")
    case True
    then show ?thesis using Suc.prems by (auto simp: keyed_def)
  next
    case False
    then have "keyed ns i" if "l \<le> i" "i < length ns" for i
      using Suc.prems(3) [of i] that by (cases "i = l") (auto simp: keyed_def)
    moreover have "getfreepos_loop ns l = (l', r)" using Suc.prems(1) False by simp
    ultimately show ?thesis using Suc.prems(2) by (intro Suc.IH) simp_all
  qed
qed auto

text \<open>The table is full: an insertion that collides has to grow it.\<close>

definition full :: "LuaTable \<Rightarrow> bool" where
  "full t \<longleftrightarrow> node_dummy t \<or> (\<forall>i<length (node t). keyed (node t) i)"

lemma getfreepos_spec:
  assumes wf: "wf_table t"
  obtains (found) n where "getfreepos t = (t\<lparr>lastfree := int n\<rparr>, Some n)" and "\<not> node_dummy t"
      and "n < length (node t)" and "\<not> keyed (node t) n" and "\<And>i. i < length (node t) \<Longrightarrow> n < i \<Longrightarrow> keyed (node t) i"
  | (none) t1 where "getfreepos t = (t1, None)" and "full t" and "wf_table t1" and "\<exists>l. t1 = t\<lparr>lastfree := l\<rparr>"
proof (cases "lastfree t > 0")
  case True
  have f: "free_ok t" using wf by (simp add: wf_table_def)
  then have nd: "\<not> node_dummy t" using True by (auto simp: free_ok_def)
  obtain l r where g: "getfreepos_loop (node t) (nat (lastfree t)) = (l, r)" by (cases "getfreepos_loop (node t) (nat (lastfree t))")
  have s: "case r of None \<Rightarrow> l = 0 \<and> (\<forall>i<length (node t). keyed (node t) i)
      | Some n \<Rightarrow> l = n \<and> n < length (node t) \<and> \<not> keyed (node t) n \<and> (\<forall>i<length (node t). n < i \<longrightarrow> keyed (node t) i)"
    by (rule getfreepos_loop_spec [OF g]) (use f nd True in \<open>auto simp: free_ok_def\<close>)
  show thesis
  proof (cases r)
    case None
    have w: "wf_table (t\<lparr>lastfree := 0\<rparr>)"
      by (rule wf_table_cong [OF wf]) (use s nd None in \<open>simp_all add: free_ok_def\<close>)
    show thesis by (rule none [OF _ _ w]) (use True g None s in \<open>auto simp: getfreepos_def full_def\<close>)
  next
    case (Some n)
    show thesis by (rule found [of n]) (use True g Some s nd in \<open>auto simp: getfreepos_def\<close>)
  qed
next
  case False
  have "full t" using wf False by (auto simp: wf_table_def free_ok_def full_def)
  then show thesis using False wf by (intro none [of t]) (auto simp: getfreepos_def intro: exI [of _ "lastfree t"])
qed

subsection \<open>The new node\<close>

text \<open>The key has a slot, nothing is in it yet, and no other key has changed its value.\<close>

definition inserted :: "LuaTable \<Rightarrow> TValue \<Rightarrow> LuaTable \<Rightarrow> slot \<Rightarrow> bool" where
  "inserted t k t' s \<longleftrightarrow> wf_table t' \<and> slot_for t' s k \<and> slot_val t' s = TNil \<and>
     (\<forall>k'. k' \<noteq> TNil \<longrightarrow> table_at t' k' = table_at t k')"

definition only_new :: "TValue \<Rightarrow> LuaNode list \<Rightarrow> LuaNode list \<Rightarrow> bool" where
  "only_new k ns ns' \<longleftrightarrow>
     (\<forall>k'. k' \<noteq> TNil \<longrightarrow> \<not> luaO_rawequalKey k k' \<longrightarrow> node_find ns k' = None \<longrightarrow> node_find ns' k' = None)"

definition used :: "LuaTable \<Rightarrow> nat" where
  "used t = card {i. keyed (node t) i}"

lemma keyed_finite [simp]: "finite {i. keyed ns i}"
  by (rule finite_subset [of _ "{..<length ns}"]) (auto simp: keyed_def)

lemma full_used: "\<not> node_dummy t \<Longrightarrow> full t \<Longrightarrow> used t = length (node t)"
proof -
  assume "\<not> node_dummy t" "full t"
  then have "{i. keyed (node t) i} = {..<length (node t)}" by (auto simp: full_def keyed_def)
  then show ?thesis by (simp add: used_def)
qed

lemma insert_result:
  assumes wf: "wf_table t" and nd: "\<not> node_dummy t"
    and k: "valid_key k" "\<not> in_part t k" "int_key k \<noteq> Some (int (sizearray t) + 1)"
    and len: "length ns' = length (node t)" and ok: "nodes_ok (mainposition t) ns'"
    and ent: "entries ns' = entries (node t)"
    and i: "i < length ns'" "gkey (ns' ! i) = k" "gval (ns' ! i) = TNil"
    and keys: "\<And>j. keyed ns' j \<Longrightarrow> gkey (ns' ! j) = k \<or> (\<exists>j'. keyed (node t) j' \<and> gkey (ns' ! j) = gkey (node t ! j'))"
    and kd: "\<And>j. keyed ns' j \<longleftrightarrow> j = x \<or> keyed (node t) j"
    and l: "l \<le> int (length ns')" "\<And>j. j < length ns' \<Longrightarrow> l \<le> int j \<Longrightarrow> keyed ns' j" "- l \<le> int (sizearray t)"
  shows "inserted t k (t\<lparr>lastfree := l, node := ns'\<rparr>) (SNode i)" and "used (t\<lparr>lastfree := l, node := ns'\<rparr>) \<le> used t + 1"
    and "only_new k (node t) ns'"
proof -
  show "only_new k (node t) ns'"
    unfolding only_new_def node_find_None
  proof (intro allI impI notI)
    fix k' j
    assume a: "k' \<noteq> TNil" "\<not> luaO_rawequalKey k k'" "\<forall>i<length (node t). \<not> luaO_rawequalKey (gkey (node t ! i)) k'"
      "j < length ns'" "luaO_rawequalKey (gkey (ns' ! j)) k'"
    then have "keyed ns' j" by (auto simp: keyed_def)
    from keys [OF this] show False using a by (auto simp: keyed_def)
  qed
  let ?t = "t\<lparr>lastfree := l, node := ns'\<rparr>"
  have w: "wf_table ?t" using wf nd ok l keys k(2,3) len
    by (auto simp: wf_table_def sizenode_def free_ok_def) metis+
  have "node_val ns' k' = node_val (node t) k'" if "k' \<noteq> TNil" for k'
    by (rule node_val_cong [OF wf_nodes(2) [OF wf] _ ent that]) (use ok in \<open>simp add: nodes_ok_def\<close>)
  then have "\<forall>k'. k' \<noteq> TNil \<longrightarrow> table_at ?t k' = table_at t k'" by (simp add: table_at_def)
  moreover have "slot_for ?t (SNode i) k" using i k by (auto simp: slot_for_def keyed_def)
  ultimately show "inserted t k ?t (SNode i)" using w i by (simp add: inserted_def)
  have "{j. keyed ns' j} = insert x {j. keyed (node t) j}" using kd by auto
  then show "used ?t \<le> used t + 1" by (simp add: used_def card_insert_if)
qed

lemma numeq_succ_iff:
  assumes "wf_table t"
  shows "(case k of TNumber d \<Rightarrow> luai_numeq d (d_of_int (int (sizearray t) + 1)) | _ \<Rightarrow> False) \<longleftrightarrow>
     int_key k = Some (int (sizearray t) + 1)"
proof -
  have "in_int32 (int (sizearray t) + 1)" using assms by (simp add: wf_table_def in_int32_def)
  then show ?thesis using rawequal_int_key [of "int (sizearray t) + 1" k]
    by (cases k) (simp_all add: luaO_rawequalKey_def)
qed

lemma newkey_no_grow:
  assumes wf: "wf_table t" and k: "valid_key k" "\<not> in_part t k" "int_key k \<noteq> Some (int (sizearray t) + 1)"
    and new: "node_find (node t) k = None"
  obtains (inserted) l ns i where "newkey_step f t k = Inr (t\<lparr>lastfree := l, node := ns\<rparr>, SNode i)" and "\<not> node_dummy t"
      and "inserted t k (t\<lparr>lastfree := l, node := ns\<rparr>) (SNode i)" and "used (t\<lparr>lastfree := l, node := ns\<rparr>) \<le> used t + 1"
      and "only_new k (node t) ns" and "length ns = length (node t)"
  | (grow) t1 where "newkey_step f t k = bindE (rehash f t1 k) (\<lambda>t. arrayornewkey f t k)" and "full t"
      and "wf_table t1" and "\<exists>l. t1 = t\<lparr>lastfree := l\<rparr>"
proof -
  let ?m = "mainposition t k" and ?ns = "node t"
  have nk: "nodes_ok (mainposition t) ?ns" "keys_ok ?ns" using wf wf_nodes by auto
  have ml: "?m < length ?ns" using mainposition_less [OF wf] by simp
  have kn: "k \<noteq> TNil" using k(1) by auto
  have step: "newkey_step f t k =
     (if gval (?ns ! ?m) \<noteq> TNil \<or> node_dummy t then
        (case getfreepos t of
           (t, None) \<Rightarrow> bindE (rehash f t k) (\<lambda>t. arrayornewkey f t k)
         | (t, Some n) \<Rightarrow>
             let othern = mainposition t (gkey (node t ! ?m)) in
             if othern \<noteq> ?m then
               (case chain_pred (node t) (length (node t)) othern ?m of
                  None \<Rightarrow> Inl (Undefined ''endless chain'')
                | Some p \<Rightarrow> Inr (set_node_key (t\<lparr>node := move_node (node t) p ?m n\<rparr>) ?m k))
             else Inr (set_node_key (t\<lparr>node := link_node (node t) ?m n\<rparr>) n k))
      else Inr (set_node_key t ?m k))"
    using numeq_succ_iff [OF wf, of k] k(3) by (simp add: newkey_step_def Let_def)
  show thesis
  proof (cases "gval (?ns ! ?m) \<noteq> TNil \<or> node_dummy t")
    case False
    then have nd: "\<not> node_dummy t" and nil: "gval (?ns ! ?m) = TNil" by auto
    define ns' where "ns' = ?ns[?m := (?ns ! ?m)\<lparr>gkey := k\<rparr>]"
    have kd: "keyed ns' j \<longleftrightarrow> j = ?m \<or> keyed ?ns j" for j
      using ml kn by (cases "j = ?m") (auto simp: ns'_def keyed_update keyed_def)
    have keys: "gkey (ns' ! j) = k \<or> (\<exists>j'. keyed ?ns j' \<and> gkey (ns' ! j) = gkey (?ns ! j'))" if "keyed ns' j" for j
      using that ml by (cases "j = ?m") (auto simp: ns'_def keyed_def)
    have at_m: "?m < length ns'" "gkey (ns' ! ?m) = k" "gval (ns' ! ?m) = TNil" "length ns' = length ?ns"
      using ml nil by (simp_all add: ns'_def)
    have "free_ok t" using wf by (simp add: wf_table_def)
    then have f: "lastfree t \<le> int (length ns')" "j < length ns' \<Longrightarrow> lastfree t \<le> int j \<Longrightarrow> keyed ns' j"
      "- lastfree t \<le> int (sizearray t)" for j
      using nd at_m(4) kd by (simp_all add: free_ok_def)
    have ok: "nodes_ok (mainposition t) ns'" unfolding ns'_def by (rule insert_main [OF nk(1) refl ml nil k(1) new])
    have ent: "entries ns' = entries ?ns" unfolding ns'_def by (rule entries_main [OF nil ml])
    have t': "t\<lparr>lastfree := lastfree t, node := ns'\<rparr> = t\<lparr>node := ns'\<rparr>" by simp
    show thesis
    proof (rule inserted [OF _ nd])
      show "newkey_step f t k = Inr (t\<lparr>lastfree := lastfree t, node := ns'\<rparr>, SNode ?m)"
        using False by (simp add: step set_node_key_def ns'_def)
      show "inserted t k (t\<lparr>lastfree := lastfree t, node := ns'\<rparr>) (SNode ?m)"
        "used (t\<lparr>lastfree := lastfree t, node := ns'\<rparr>) \<le> used t + 1" "only_new k ?ns ns'" "length ns' = length ?ns"
        by (rule at_m(4) insert_result [OF wf nd k at_m(4) ok ent at_m(1-3) keys kd f]; assumption)+
    qed
  next
    case True
    show thesis using wf
    proof (cases rule: getfreepos_spec)
      case (none t1)
      then show thesis using True by (intro grow [of t1]) (auto simp: step)
    next
      case (found n)
      then have mv: "gval (?ns ! ?m) \<noteq> TNil" using True by simp
      then have km: "keyed ?ns ?m" using nk(2) ml by (auto simp: keys_ok_def keyed_def)
      then have mn: "?m \<noteq> n" using found(4) by auto
      let ?q = "mainposition t (gkey (?ns ! ?m))"
      show thesis
      proof (cases "?q = ?m")
        case True
        define ns' where "ns' = (link_node ?ns ?m n)[n := (link_node ?ns ?m n ! n)\<lparr>gkey := k\<rparr>]"
        have len: "length ns' = length ?ns" by (simp add: ns'_def link_node_def Let_def)
        have key: "gkey (ns' ! j) = (if j = n then k else gkey (?ns ! j))"
          and val: "gval (ns' ! j) = gval (?ns ! j)" for j
          using mn found(3) ml by (auto simp: ns'_def link_node_def Let_def nth_list_update)
        have kd: "keyed ns' j \<longleftrightarrow> j = n \<or> keyed ?ns j" for j
          using found(3) kn unfolding keyed_def len key by auto
        have keys: "gkey (ns' ! j) = k \<or> (\<exists>j'. keyed ?ns j' \<and> gkey (ns' ! j) = gkey (?ns ! j'))" if "keyed ns' j" for j
          using that by (auto simp: key kd)
        have ok: "nodes_ok (mainposition t) ns'"
          unfolding ns'_def by (rule insert_link [OF nk(1) refl km True found(3,4) k(1) new])
        have ent: "entries ns' = entries ?ns"
          unfolding ns'_def by (rule entries_link [OF nk(2) ml mn found(3,4)])
        have f: "int n \<le> int (length ns')" "j < length ns' \<Longrightarrow> int n \<le> int j \<Longrightarrow> keyed ns' j"
          "- int n \<le> int (sizearray t)" for j
          using found(3,5) len kd by (cases "j = n"; simp)+
        have at_n: "n < length ns'" "gkey (ns' ! n) = k" using found(3) len key by simp_all
        have nil: "gval (ns' ! n) = TNil" using found(3,4) nk(2) val by (auto simp: keys_ok_def keyed_def)
        show thesis
        proof (rule inserted [OF _ found(2)])
          show "newkey_step f t k = Inr (t\<lparr>lastfree := int n, node := ns'\<rparr>, SNode n)"
            using mv True found(1) by (simp add: step set_node_key_def ns'_def Let_def)
          show "inserted t k (t\<lparr>lastfree := int n, node := ns'\<rparr>) (SNode n)"
            "used (t\<lparr>lastfree := int n, node := ns'\<rparr>) \<le> used t + 1" "only_new k ?ns ns'" "length ns' = length ?ns"
            by (rule len insert_result [OF wf found(2) k len ok ent at_n nil keys kd f]; assumption)+
        qed
      next
        case False
        obtain p where p: "chain_pred ?ns (length ?ns) ?q ?m = Some p" "p < length ?ns" "p \<noteq> ?m" "p \<noteq> n"
          and ok: "nodes_ok (mainposition t) ((move_node ?ns p ?m n)[?m := (move_node ?ns p ?m n ! ?m)\<lparr>gkey := k\<rparr>])"
          using insert_move [OF nk(1) refl km False found(3,4) k(1) new] by blast
        define ns' where "ns' = (move_node ?ns p ?m n)[?m := (move_node ?ns p ?m n ! ?m)\<lparr>gkey := k\<rparr>]"
        have len: "length ns' = length ?ns" by (simp add: ns'_def move_node_def Let_def)
        have key: "gkey (ns' ! j) = (if j = ?m then k else if j = n then gkey (?ns ! ?m) else gkey (?ns ! j))" for j
          using mn found(3) ml p by (auto simp: ns'_def move_node_def Let_def nth_list_update)
        have kd: "keyed ns' j \<longleftrightarrow> j = n \<or> keyed ?ns j" for j
          using found(3) kn km unfolding keyed_def len key by auto
        have keys: "gkey (ns' ! j) = k \<or> (\<exists>j'. keyed ?ns j' \<and> gkey (ns' ! j) = gkey (?ns ! j'))" if "keyed ns' j" for j
          using that km by (auto simp: key kd)
        have ent: "entries ns' = entries ?ns" and nil: "gval (ns' ! ?m) = TNil"
          unfolding ns'_def by (rule entries_move [OF nk(2) ml mn found(3,4) p(2-4)])+
        have at_m: "?m < length ns'" "gkey (ns' ! ?m) = k" using ml len key by simp_all
        have f: "int n \<le> int (length ns')" "j < length ns' \<Longrightarrow> int n \<le> int j \<Longrightarrow> keyed ns' j"
          "- int n \<le> int (sizearray t)" for j
          using found(3,5) len kd by (cases "j = n"; simp)+
        show thesis
        proof (rule inserted [OF _ found(2)])
          show "newkey_step f t k = Inr (t\<lparr>lastfree := int n, node := ns'\<rparr>, SNode ?m)"
            using mv False found(1) p(1) by (simp add: step set_node_key_def ns'_def Let_def)
          show "inserted t k (t\<lparr>lastfree := int n, node := ns'\<rparr>) (SNode ?m)"
            "used (t\<lparr>lastfree := int n, node := ns'\<rparr>) \<le> used t + 1" "only_new k ?ns ns'" "length ns' = length ?ns"
            by (rule len insert_result [OF wf found(2) k len ok[folded ns'_def] ent at_m nil keys kd f]; assumption)+
        qed
      qed
    qed
  qed
qed

end
