(* ===== verification/TableGrow.thy ===== *)
theory TableGrow imports TableOps begin

text \<open>
  Growing a table: \<open>resize\<close> builds the new parts and inserts every entry again, \<open>rehash\<close> chooses the sizes.
  The theory shows that re-insertion never grows the table again, that the map is unchanged, and that a
  new key finds its place afterwards; with it insertion is correct as a whole.
\<close>

section \<open>Inserting into the right part\<close>

definition absent :: "LuaTable \<Rightarrow> TValue \<Rightarrow> bool" where
  "absent t k \<longleftrightarrow> (if in_part t k then table_at t k = TNil else node_find (node t) k = None)"

lemma absent_table_at: "absent t k \<Longrightarrow> table_at t k = TNil"
  by (auto simp: absent_def table_at_def node_val_def split: if_splits)

text \<open>What insertion leaves alone.\<close>

definition same_frame :: "LuaTable \<Rightarrow> LuaTable \<Rightarrow> bool" where
  "same_frame t t' \<longleftrightarrow> tmcache t' = tmcache t \<and> readonly t' = readonly t \<and> safeenv t' = safeenv t \<and> metatable t' = metatable t"

definition same_shape :: "LuaTable \<Rightarrow> LuaTable \<Rightarrow> bool" where
  "same_shape t t' \<longleftrightarrow> same_frame t t' \<and> sizearray t' = sizearray t \<and> node_dummy t' = node_dummy t \<and> length (node t') = length (node t)"

lemma same_frame_refl [simp]: "same_frame t t" and same_shape_refl [simp]: "same_shape t t"
  by (simp_all add: same_frame_def same_shape_def)

lemma same_frame_trans: "same_frame t t' \<Longrightarrow> same_frame t' t'' \<Longrightarrow> same_frame t t''"
  and same_shape_trans: "same_shape t t' \<Longrightarrow> same_shape t' t'' \<Longrightarrow> same_shape t t''"
  by (simp_all add: same_frame_def same_shape_def)

lemma same_shape_put [simp]: "same_shape t (slot_put t s v)" "same_frame t (slot_put t s v)"
  by (cases s; simp add: same_shape_def same_frame_def)+

definition capacity :: "LuaTable \<Rightarrow> nat" where
  "capacity t = (if node_dummy t then 0 else length (node t))"

lemma same_shape_simps: "same_shape t t' \<Longrightarrow> in_part t' k = in_part t k" "same_shape t t' \<Longrightarrow> capacity t' = capacity t"
  using in_part_cong [of t' t k] by (simp_all add: same_shape_def capacity_def)

lemma arrayornewkey_cases:
  assumes "wf_table t"
  shows "arrayornewkey f t k = (if in_part t k then Inr (t, SArray (nat (the (int_key k) - 1))) else f t k)"
proof (cases k)
  case (TNumber d)
  have "luai_numeq (d_of_int (num2int d)) d \<and> in_array t (num2int d) \<longleftrightarrow> in_part t k"
    using in_array_iff [OF assms num2int_range] by (simp add: TNumber in_part_def int_key_def)
  moreover have "in_part t k \<Longrightarrow> the (int_key k) = num2int d"
    by (auto simp: TNumber in_part_def int_key_def split: if_splits)
  ultimately show ?thesis by (auto simp: TNumber arrayornewkey_def Let_def)
qed (simp_all add: arrayornewkey_def in_part_def int_key_def)

lemma insert_with_room:
  assumes wf: "wf_table t" and k: "valid_key k" "int_key k \<noteq> Some (int (sizearray t) + 1)" and ab: "absent t k"
    and room: "in_part t k \<or> used t < capacity t"
  obtains t' s where "arrayornewkey (newkey_step f) t k = Inr (t', s)" and "inserted t k t' s"
    and "same_shape t t'" and "used t' \<le> used t + (if in_part t k then 0 else 1)"
    and "only_new k (node t) (node t')"
proof (cases "in_part t k")
  case True
  then obtain i where i: "int_key k = Some i" "1 \<le> i" "i \<le> int (sizearray t)"
    by (auto simp: in_part_def split: option.splits)
  have "slot_for t (SArray (nat (i - 1))) k" using i by (auto simp: slot_for_def)
  moreover have "array t ! nat (i - 1) = TNil" using ab True i by (simp add: absent_def table_at_def)
  ultimately have "inserted t k t (SArray (nat (i - 1)))" using wf by (simp add: inserted_def)
  then show thesis using that [of t "SArray (nat (i - 1))"] arrayornewkey_cases [OF wf, of "newkey_step f" k] True i
    by (simp add: only_new_def)
next
  case False
  then have new: "node_find (node t) k = None" using ab by (simp add: absent_def)
  have nf: "\<not> full t"
  proof
    assume f: "full t"
    have r: "used t < capacity t" using room False by simp
    then have "\<not> node_dummy t" by (auto simp: capacity_def)
    then show False using full_used [of t] f r by (simp add: capacity_def)
  qed
  show thesis
  proof (rule newkey_no_grow [OF wf k(1) False k(2) new, of f])
    fix l ns i
    assume "newkey_step f t k = Inr (t\<lparr>lastfree := l, node := ns\<rparr>, SNode i)" "\<not> node_dummy t"
      "inserted t k (t\<lparr>lastfree := l, node := ns\<rparr>) (SNode i)" "used (t\<lparr>lastfree := l, node := ns\<rparr>) \<le> used t + 1"
      "only_new k (node t) ns" "length ns = length (node t)"
    then show thesis using that [of "t\<lparr>lastfree := l, node := ns\<rparr>" "SNode i"] False arrayornewkey_cases [OF wf]
      by (simp add: same_shape_def same_frame_def)
  qed (use nf in simp)
qed

section \<open>Inserting a list of entries\<close>

definition distinct_keys :: "(TValue \<times> TValue) list \<Rightarrow> bool" where
  "distinct_keys kvs = sorted_wrt (\<lambda>a b. \<not> luaO_rawequalKey (fst a) (fst b)) kvs"

definition holds :: "LuaTable \<Rightarrow> LuaTable \<Rightarrow> (TValue \<times> TValue) list \<Rightarrow> bool" where
  "holds t t' kvs \<longleftrightarrow> (\<forall>k'. k' \<noteq> TNil \<longrightarrow>
     (\<forall>(k, v)\<in>set kvs. luaO_rawequalKey k k' \<longrightarrow> table_at t' k' = v) \<and>
     ((\<forall>(k, v)\<in>set kvs. \<not> luaO_rawequalKey k k') \<longrightarrow> table_at t' k' = table_at t k' \<and>
        (node_find (node t) k' = None \<longrightarrow> node_find (node t') k' = None)))"

lemma keyed_put: "node_find (node (slot_put t s v)) k = node_find (node t) k \<or> (\<exists>i. s = SNode i \<and> length (node t) \<le> i)"
proof (cases s)
  case (SNode i)
  then show ?thesis using node_find_update_val [of i "node t" v k] by (cases "i < length (node t)") auto
qed simp_all

lemma slot_for_find: "slot_for t s k \<Longrightarrow> node_find (node (slot_put t s v)) k' = node_find (node t) k'"
  using keyed_put [of t s v k'] by (auto simp: slot_for_def keyed_def)

lemma used_put: "slot_for t s k \<Longrightarrow> used (slot_put t s v) = used t"
proof (cases s)
  case (SNode i)
  assume "slot_for t s k"
  then have "keyed (node (slot_put t s v)) j = keyed (node t) j" for j
    by (cases "j = i") (auto simp: SNode slot_for_def keyed_def)
  then show ?thesis by (simp add: used_def)
qed (simp_all add: used_def)

lemma reinsert_ok:
  assumes "wf_table t" and "distinct_keys kvs"
    and "\<And>k v. (k, v) \<in> set kvs \<Longrightarrow> valid_key k \<and> int_key k \<noteq> Some (int (sizearray t) + 1) \<and> absent t k"
    and "used t + length (filter (\<lambda>(k, v). \<not> in_part t k) kvs) \<le> capacity t"
    and "\<And>t' k v. (k, v) \<in> set kvs \<Longrightarrow> wf_table t' \<Longrightarrow> same_shape t t' \<Longrightarrow> ins t' k = arrayornewkey (newkey_step f) t' k"
  shows "\<exists>t'. reinsert ins t kvs = Inr t' \<and> wf_table t' \<and> same_shape t t' \<and>
     used t' \<le> used t + length (filter (\<lambda>(k, v). \<not> in_part t k) kvs) \<and> holds t t' kvs"
  using assms
proof (induction kvs arbitrary: t)
  case Nil
  then show ?case by (simp add: holds_def)
next
  case (Cons kv kvs)
  obtain k v where kv: "kv = (k, v)" by (cases kv)
  have k: "valid_key k" "int_key k \<noteq> Some (int (sizearray t) + 1)" "absent t k" using Cons.prems(3) [of k v] kv by auto
  have "in_part t k \<or> used t < capacity t" using Cons.prems(4) kv by (cases "in_part t k") auto
  then obtain t1 s where i: "arrayornewkey (newkey_step f) t k = Inr (t1, s)" "inserted t k t1 s" "same_shape t t1"
      "used t1 \<le> used t + (if in_part t k then 0 else 1)" "only_new k (node t) (node t1)"
    using insert_with_room [OF Cons.prems(1) k] by blast
  let ?t = "slot_put t1 s v"
  have w1: "wf_table t1" and s1: "slot_for t1 s k" using i(2) by (auto simp: inserted_def)
  have w: "wf_table ?t" using slot_put_ok [OF w1 s1] by simp
  have sh: "same_shape t ?t" using i(3) same_shape_put same_shape_trans by blast
  note shs = same_shape_simps [OF sh]
  have ins: "ins t k = Inr (t1, s)" using Cons.prems(5) [of k v t] Cons.prems(1) i(1) kv by simp
  have at: "table_at ?t k' = (if luaO_rawequalKey k k' then v else table_at t k')" if "k' \<noteq> TNil" for k'
    using slot_put_at [OF w1 s1 that] i(2) that by (simp add: inserted_def)
  have nf: "node_find (node ?t) k' = None"
    if "k' \<noteq> TNil" "\<not> luaO_rawequalKey k k'" "node_find (node t) k' = None" for k'
    using i(5) that slot_for_find [OF s1] by (simp add: only_new_def)
  have other: "\<not> luaO_rawequalKey k k'" if "(k', v') \<in> set kvs" for k' v'
    using Cons.prems(2) that by (auto simp: kv distinct_keys_def)
  have us: "used ?t = used t1" by (rule used_put [OF s1])
  have "\<exists>t'. reinsert ins ?t kvs = Inr t' \<and> wf_table t' \<and> same_shape ?t t' \<and>
     used t' \<le> used ?t + length (filter (\<lambda>(k, v). \<not> in_part ?t k) kvs) \<and> holds ?t t' kvs"
  proof (rule Cons.IH [OF w])
    show "distinct_keys kvs" using Cons.prems(2) by (simp add: kv distinct_keys_def)
    show "used ?t + length (filter (\<lambda>(k, v). \<not> in_part ?t k) kvs) \<le> capacity ?t"
      using Cons.prems(4) i(4) by (auto simp: kv us shs split: if_splits)
    show "ins t' k' = arrayornewkey (newkey_step f) t' k'"
      if "(k', v') \<in> set kvs" "wf_table t'" "same_shape ?t t'" for t' k' v'
      using Cons.prems(5) [of k' v' t'] that same_shape_trans [OF sh that(3)] by simp
    fix k' v' assume m: "(k', v') \<in> set kvs"
    then have k': "valid_key k'" "int_key k' \<noteq> Some (int (sizearray t) + 1)" "absent t k'" using Cons.prems(3) by auto
    then have "k' \<noteq> TNil" by auto
    then have "absent ?t k'" using k'(3) other [OF m] at [of k'] nf [of k'] by (simp add: absent_def shs)
    then show "valid_key k' \<and> int_key k' \<noteq> Some (int (sizearray ?t) + 1) \<and> absent ?t k'"
      using k' sh by (simp add: same_shape_def)
  qed
  then obtain t' where t': "reinsert ins ?t kvs = Inr t'" "wf_table t'" "same_shape ?t t'"
      "used t' \<le> used ?t + length (filter (\<lambda>(k, v). \<not> in_part t k) kvs)" "holds ?t t' kvs"
    using shs by auto
  have "holds t t' (kv # kvs)"
    unfolding holds_def
  proof (intro allI impI conjI)
    fix k' :: TValue assume k': "k' \<noteq> TNil"
    note h = t'(5) [unfolded holds_def, rule_format, OF k']
    show "\<forall>(a, b)\<in>set (kv # kvs). luaO_rawequalKey a k' \<longrightarrow> table_at t' k' = b"
    proof (clarify)
      fix a b assume m: "(a, b) \<in> set (kv # kvs)" "luaO_rawequalKey a k'"
      show "table_at t' k' = b"
      proof (cases "(a, b) \<in> set kvs")
        case True
        then show ?thesis using h m(2) by fastforce
      next
        case False
        then have e: "a = k" "b = v" using m(1) kv by auto
        have "\<forall>(c, d)\<in>set kvs. \<not> luaO_rawequalKey c k'"
        proof clarify
          fix c d assume c: "(c, d) \<in> set kvs" "luaO_rawequalKey c k'"
          then have "luaO_rawequalKey k c" using m(2) e by (blast intro: rawequalKey_trans rawequalKey_sym)
          then show False using other [OF c(1)] by simp
        qed
        then have "table_at t' k' = table_at ?t k'" using h by simp
        then show ?thesis using at [OF k'] m(2) e by simp
      qed
    qed
    assume "\<forall>(a, b)\<in>set (kv # kvs). \<not> luaO_rawequalKey a k'"
    then have n: "\<not> luaO_rawequalKey k k'" "\<forall>(a, b)\<in>set kvs. \<not> luaO_rawequalKey a k'" by (auto simp: kv)
    show "table_at t' k' = table_at t k'" using h n at [OF k'] by simp
    show "node_find (node t') k' = None" if "node_find (node t) k' = None"
      using h n nf [OF k' n(1) that] by simp
  qed
  moreover have "reinsert ins t (kv # kvs) = Inr t'" by (simp add: kv ins t'(1))
  moreover have "same_shape t t'" using sh t'(3) same_shape_trans by blast
  moreover have "used t' \<le> used t + length (filter (\<lambda>(k, v). \<not> in_part t k) (kv # kvs))"
    using t'(4) i(4) by (auto simp: kv us split: if_splits)
  ultimately show ?case using t'(2) by blast
qed

section \<open>The entries of a table\<close>

definition live :: "LuaTable \<Rightarrow> (TValue \<times> TValue) list" where
  "live t = vanishing (array t) 0 @ old_nodes (node t)"

lemma in_vanishing: "(k, v) \<in> set (vanishing a n) \<longleftrightarrow>
    (\<exists>i. n \<le> i \<and> i < length a \<and> k = TNumber (d_of_int (int i + 1)) \<and> v = a ! i \<and> v \<noteq> TNil)"
  by (auto simp: vanishing_def)

lemma in_old_nodes: "(k, v) \<in> set (old_nodes ns) \<longleftrightarrow> (\<exists>i<length ns. k = gkey (ns ! i) \<and> v = gval (ns ! i) \<and> v \<noteq> TNil)"
  unfolding old_nodes_def by (simp add: image_iff) (metis in_set_conv_nth)

lemma table_at_cong: "luaO_rawequalKey k k' \<Longrightarrow> table_at t k = table_at t k'"
proof -
  assume e: "luaO_rawequalKey k k'"
  have "node_find (node t) k = node_find (node t) k'"
    unfolding node_find_def using e rawequalKey_trans rawequalKey_sym by metis
  then show ?thesis using int_key_cong [OF e] by (simp add: table_at_def in_part_def node_val_def)
qed

lemma size32: "wf_table t \<Longrightarrow> i \<le> sizearray t \<Longrightarrow> in_int32 (int i) \<and> in_int32 (int i + 1)"
  by (simp add: wf_table_def in_int32_def)

lemma vanishing_key:
  assumes "wf_table t" and "(k, v) \<in> set (vanishing (array t) n)"
  obtains i where "n \<le> i" and "i < sizearray t" and "int_key k = Some (int i + 1)" and "v = array t ! i"
    and "v \<noteq> TNil" and "valid_key k" and "in_part t k" and "table_at t k = v"
proof -
  from assms(2) obtain i where i: "n \<le> i" "i < sizearray t" "k = TNumber (d_of_int (int i + 1))" "v = array t ! i" "v \<noteq> TNil"
    unfolding in_vanishing by blast
  then have r: "in_int32 (int i + 1)" using size32 [OF assms(1), of i] by simp
  then have k: "int_key k = Some (int i + 1)" using i by simp
  then have p: "in_part t k" using i by (simp add: in_part_def)
  moreover have "valid_key k" using i(3) r by (simp add: luai_numisnan_def)
  moreover have "table_at t k = v" using p k i by (simp add: table_at_def)
  ultimately show thesis using that i k by blast
qed

lemma node_key:
  assumes "wf_table t" and "(k, v) \<in> set (old_nodes (node t))"
  shows "v \<noteq> TNil \<and> valid_key k \<and> \<not> in_part t k \<and> table_at t k = v \<and> int_key k \<noteq> Some (int (sizearray t) + 1)"
proof -
  from assms(2) obtain i where i: "i < length (node t)" "k = gkey (node t ! i)" "v = gval (node t ! i)" "v \<noteq> TNil"
    unfolding in_old_nodes by blast
  have ks: "keys_ok (node t)" by (rule wf_nodes(2) [OF assms(1)])
  then have kd: "keyed (node t) i" and vk: "valid_key k"
    using ks [unfolded keys_ok_def, THEN conjunct1, rule_format, OF i(1)] i by (auto simp: keyed_def split: if_splits)
  then have p: "\<not> in_part t k" "int_key k \<noteq> Some (int (sizearray t) + 1)" using assms(1) i by (auto simp: wf_table_def)
  have "k \<noteq> TNil" using vk by auto
  then have "node_find (node t) k = Some i" using node_find_eq [OF ks i(1), of k] vk i(2) by simp
  then show ?thesis using p vk i by (simp add: table_at_def node_val_def)
qed

lemma live_at: "wf_table t \<Longrightarrow> (k, v) \<in> set (live t) \<Longrightarrow> v \<noteq> TNil \<and> valid_key k \<and> table_at t k = v"
  unfolding live_def using node_key by (auto elim: vanishing_key)

lemma live_ex:
  assumes wf: "wf_table t" and k: "k \<noteq> TNil" and v: "table_at t k \<noteq> TNil"
  shows "\<exists>k'. (k', table_at t k) \<in> set (live t) \<and> luaO_rawequalKey k' k"
proof (cases "in_part t k")
  case True
  then obtain i where i: "int_key k = Some i" "1 \<le> i" "i \<le> int (sizearray t)" by (auto simp: in_part_def split: option.splits)
  have e: "int (nat (i - 1)) + 1 = i" "nat (i - 1) < sizearray t" using i by (simp_all add: nat_less_iff)
  have at: "table_at t k = array t ! nat (i - 1)" using True i by (simp add: table_at_def)
  have "(TNumber (d_of_int i), table_at t k) \<in> set (vanishing (array t) 0)"
    unfolding in_vanishing using e at v by (intro exI [of _ "nat (i - 1)"]) (simp only: le0 simp_thms)
  moreover have "luaO_rawequalKey (TNumber (d_of_int i)) k"
    using rawequal_int_key [of i k] int_key_range [OF i(1)] i(1) rawequalKey_sym by blast
  ultimately show ?thesis by (auto simp: live_def)
next
  case False
  then have at: "table_at t k = node_val (node t) k" by (simp add: table_at_def)
  then obtain i where "node_find (node t) k = Some i" "table_at t k = gval (node t ! i)"
    using v by (auto simp: node_val_def split: option.splits)
  then show ?thesis using node_find_Some [of "node t" k i] v by (auto simp: live_def in_old_nodes)
qed

lemma sorted_wrt_filter_map:
  "distinct xs \<Longrightarrow> (\<And>x y. x \<in> set xs \<Longrightarrow> y \<in> set xs \<Longrightarrow> x \<noteq> y \<Longrightarrow> Q (f x) \<Longrightarrow> Q (f y) \<Longrightarrow> P (f x) (f y)) \<Longrightarrow>
     sorted_wrt P (filter Q (map f xs))"
  by (induction xs) auto

lemma distinct_live:
  assumes wf: "wf_table t"
  shows "distinct_keys (vanishing (array t) n @ old_nodes (node t))"
proof -
  let ?P = "\<lambda>a b. \<not> luaO_rawequalKey (fst a) (fst b)"
  have a: "sorted_wrt ?P (vanishing (array t) n)"
    unfolding vanishing_def
  proof (rule sorted_wrt_filter_map)
    fix x y assume xy: "x \<in> set [n..<sizearray t]" "y \<in> set [n..<sizearray t]" "x \<noteq> y"
    then have "in_int32 (int x + 1)" "in_int32 (int y + 1)" using size32 [OF wf, of x] size32 [OF wf, of y] by auto
    then show "?P (TNumber (d_of_int (int x + 1)), array t ! x) (TNumber (d_of_int (int y + 1)), array t ! y)"
      using xy(3) by (auto simp: rawequal_int_key)
  qed simp
  have e: "map (\<lambda>n. (gkey n, gval n)) (rev (node t)) = map (\<lambda>i. (gkey (node t ! i), gval (node t ! i))) (rev [0..<length (node t)])"
    unfolding rev_map [symmetric] by (rule arg_cong [of _ _ rev]) (rule nth_equalityI; simp)
  have b: "sorted_wrt ?P (old_nodes (node t))"
    unfolding old_nodes_def e
  proof (rule sorted_wrt_filter_map)
    have ks: "keys_ok (node t)" by (rule wf_nodes(2) [OF wf])
    fix x y assume xy: "x \<in> set (rev [0..<length (node t)])" "y \<in> set (rev [0..<length (node t)])" "x \<noteq> y"
      "case (gkey (node t ! x), gval (node t ! x)) of (k, v) \<Rightarrow> v \<noteq> TNil" "case (gkey (node t ! y), gval (node t ! y)) of (k, v) \<Rightarrow> v \<noteq> TNil"
    then have "keyed (node t) x" "keyed (node t) y" using ks by (auto simp: keyed_def keys_ok_def)
    then show "?P (gkey (node t ! x), gval (node t ! x)) (gkey (node t ! y), gval (node t ! y))"
      using ks xy(3) by (auto simp: keys_ok_def)
  qed simp
  have c: "\<not> luaO_rawequalKey k k'" if "(k, v) \<in> set (vanishing (array t) n)" "(k', v') \<in> set (old_nodes (node t))" for k v k' v'
    using node_key [OF wf that(2)] vanishing_key [OF wf that(1)] int_key_cong by (metis in_part_def)
  show ?thesis using a b c by (auto simp: distinct_keys_def sorted_wrt_append)
qed

lemma holds_append:
  assumes x: "holds t t2 xs" and y: "holds t2 t' ys" and d: "distinct_keys (xs @ ys)"
  shows "holds t t' (xs @ ys)"
  unfolding holds_def
proof (intro allI impI conjI)
  fix k' :: TValue assume k': "k' \<noteq> TNil"
  note hx = x [unfolded holds_def, rule_format, OF k'] and hy = y [unfolded holds_def, rule_format, OF k']
  show "\<forall>(k, v)\<in>set (xs @ ys). luaO_rawequalKey k k' \<longrightarrow> table_at t' k' = v"
  proof clarify
    fix k v assume m: "(k, v) \<in> set (xs @ ys)" "luaO_rawequalKey k k'"
    show "table_at t' k' = v"
    proof (cases "(k, v) \<in> set ys")
      case True
      then show ?thesis using hy m(2) by fastforce
    next
      case False
      then have kx: "(k, v) \<in> set xs" using m(1) by simp
      have "\<not> luaO_rawequalKey c k'" if c: "(c, e) \<in> set ys" for c e
      proof
        assume "luaO_rawequalKey c k'"
        then have "luaO_rawequalKey k c" using m(2) by (blast intro: rawequalKey_trans rawequalKey_sym)
        moreover have "\<forall>x\<in>set xs. \<forall>y\<in>set ys. \<not> luaO_rawequalKey (fst x) (fst y)"
          using d by (simp add: distinct_keys_def sorted_wrt_append)
        ultimately show False using kx c by fastforce
      qed
      then have "table_at t' k' = table_at t2 k'" using hy by auto
      moreover have "table_at t2 k' = v" using hx kx m(2) by fastforce
      ultimately show ?thesis by simp
    qed
  qed
  assume n: "\<forall>(k, v)\<in>set (xs @ ys). \<not> luaO_rawequalKey k k'"
  then show "table_at t' k' = table_at t k'" using hx hy by simp
  show "node_find (node t') k' = None" if "node_find (node t) k' = None" using hx hy n that by simp
qed

section \<open>Resizing\<close>

text \<open>The table with parts of the new sizes, before any entry is inserted again.\<close>

definition fresh :: "LuaTable \<Rightarrow> nat \<Rightarrow> int \<Rightarrow> LuaTable" where
  "fresh t nasize nh =
     (let t = t\<lparr>array := take nasize (array t) @ replicate (nasize - sizearray t) TNil\<rparr> in
      if nh = 0 then t\<lparr>node := [luaH_dummynode], node_dummy := True, lsizenode := 0, lastfree := 0\<rparr>
      else t\<lparr>node := replicate (2 ^ nat (ceillog2 nh)) luaH_dummynode, node_dummy := False,
             lsizenode := nat (ceillog2 nh), lastfree := int (2 ^ nat (ceillog2 nh))\<rparr>)"

lemma ceillog2_size:
  assumes "0 < nh" and "nh \<le> int MAXSIZE"
  shows "ceillog2 nh \<le> int MAXBITS" and "0 \<le> ceillog2 nh" and "nh \<le> 2 ^ nat (ceillog2 nh)"
proof -
  obtain n where n: "nh = int n" "0 < n" "n \<le> MAXSIZE" using assms by (cases nh) auto
  then have "n < 2 ^ 31" by simp
  then obtain k where k: "ceillog2 (int n) = int k" "n \<le> 2 ^ k" "\<And>j. n \<le> 2 ^ j \<Longrightarrow> k \<le> j"
    using ceillog2_least [OF n(2)] by blast
  have "k \<le> 26" using k(3) [of 26] n(3) by simp
  then show "ceillog2 nh \<le> int MAXBITS" "0 \<le> ceillog2 nh" using k(1) n(1) by simp_all
  have "int n \<le> int (2 ^ k)" using k(2) by (simp only: of_nat_le_iff)
  then show "nh \<le> 2 ^ nat (ceillog2 nh)" using k(1) n(1) by simp
qed

lemma setnodevector_fresh:
  assumes "0 \<le> nh" and "nh \<le> int MAXSIZE"
  shows "setnodevector (t\<lparr>array := a\<rparr>) nh = Inr (fresh t nasize nh\<lparr>array := a\<rparr>)"
  using ceillog2_size [of nh] assms
  by (cases "nh = 0") (simp_all add: setnodevector_def fresh_def Let_def luaH_dummynode_def)

lemma resize_fresh:
  assumes "nasize \<le> MAXSIZE" and "0 \<le> nh" and "nh \<le> int MAXSIZE"
  shows "resize f t nasize nh =
     bindE (reinsert f (fresh t nasize nh) (vanishing (array t) nasize)) (\<lambda>t'.
     reinsert (arrayornewkey f) t' (old_nodes (node t)))"
proof -
  note node = setnodevector_fresh [OF assms(2,3), where t = t and nasize = nasize]
  have arr: "array (fresh t nasize nh) = take nasize (array t) @ replicate (nasize - sizearray t) TNil"
    by (simp add: fresh_def Let_def)
  have self: "t\<lparr>array := array t\<rparr> = t" by simp
  consider "nasize < sizearray t" | "nasize = sizearray t" | "sizearray t < nasize" by linarith
  then show ?thesis
  proof cases
    case 1
    have "fresh t nasize nh\<lparr>array := array t, array := take nasize (array t)\<rparr> = fresh t nasize nh"
      using 1 arr by simp
    then show ?thesis using 1 assms node [of "array t"] self by (simp add: resize_def Let_def)
  next
    case 2
    have "fresh t nasize nh\<lparr>array := array t\<rparr> = fresh t nasize nh" using 2 arr by simp
    then show ?thesis using 2 assms node [of "array t"] self by (simp add: resize_def Let_def vanishing_def)
  next
    case 3
    have "fresh t nasize nh\<lparr>array := array (fresh t nasize nh)\<rparr> = fresh t nasize nh" by simp
    then have F: "fresh t nasize nh\<lparr>array := array t @ replicate (nasize - sizearray t) TNil\<rparr> = fresh t nasize nh"
      using 3 arr by simp
    show ?thesis using 3 assms node [of "array (fresh t nasize nh)"]
      by (simp add: resize_def Let_def setarrayvector_def vanishing_def arr F)
  qed
qed

lemma wf_empty_nodes: "(\<And>i. i < length ns \<Longrightarrow> ns ! i = luaH_dummynode) \<Longrightarrow> nodes_ok mp ns"
  unfolding nodes_ok_def
  by (intro conjI exI [of _ "[]"]) (auto simp: keys_ok_def chains_ok_def keyed_def luaH_dummynode_def)

lemma fresh_ok:
  assumes n: "nasize \<le> MAXSIZE" and nh: "0 \<le> nh" "nh \<le> int MAXSIZE"
  shows "wf_table (fresh t nasize nh)" and "sizearray (fresh t nasize nh) = nasize" and "same_frame t (fresh t nasize nh)"
    and "used (fresh t nasize nh) = 0" and "nat nh \<le> capacity (fresh t nasize nh)"
    and "k \<noteq> TNil \<Longrightarrow> node_find (node (fresh t nasize nh)) k = None"
    and "capacity (fresh t nasize nh) = 0 \<longleftrightarrow> nh = 0"
proof -
  let ?t = "fresh t nasize nh"
  have e: "node ?t ! i = luaH_dummynode" if "i < length (node ?t)" for i
    using that by (cases "nh = 0") (auto simp: fresh_def Let_def)
  then have nk: "\<not> keyed (node ?t) i" for i by (simp add: keyed_def luaH_dummynode_def)
  show s: "sizearray ?t = nasize" by (simp add: fresh_def Let_def)
  have "sizearray ?t \<le> MAXSIZE" using s n by simp
  moreover have "lsizenode ?t \<le> MAXBITS \<and> length (node ?t) = sizenode ?t \<and>
      (node_dummy ?t \<longrightarrow> node ?t = [luaH_dummynode] \<and> lsizenode ?t = 0)"
    using ceillog2_size(1,2) [of nh] nh by (auto simp: fresh_def Let_def sizenode_def)
  moreover have "nodes_ok (mainposition ?t) (node ?t)" by (rule wf_empty_nodes) (rule e)
  moreover have "free_ok ?t" by (auto simp: free_ok_def fresh_def Let_def intro: order_trans [of _ 0])
  ultimately show "wf_table ?t" using nk by (simp add: wf_table_def)
  show "same_frame t ?t" by (simp add: same_frame_def fresh_def Let_def)
  show "used ?t = 0" using nk by (simp add: used_def)
  show "nat nh \<le> capacity ?t"
  proof (cases "nh = 0")
    case False
    then have "int (nat nh) \<le> int (2 ^ nat (ceillog2 nh))" using ceillog2_size(3) [of nh] nh by simp
    then have "nat nh \<le> 2 ^ nat (ceillog2 nh)" by (simp only: of_nat_le_iff)
    then show ?thesis using False by (simp add: capacity_def fresh_def Let_def)
  qed simp
  show "k \<noteq> TNil \<Longrightarrow> node_find (node ?t) k = None" using e by (simp add: node_find_None luaH_dummynode_def)
  show "capacity ?t = 0 \<longleftrightarrow> nh = 0" by (simp add: capacity_def fresh_def Let_def)
qed

lemma fresh_at:
  assumes "k \<noteq> TNil" and "nasize \<le> MAXSIZE" "0 \<le> nh" "nh \<le> int MAXSIZE"
  shows "table_at (fresh t nasize nh) k = (if in_part (fresh t nasize nh) k \<and> in_part t k then table_at t k else TNil)"
proof (cases "in_part (fresh t nasize nh) k")
  case True
  then obtain i where i: "int_key k = Some i" "1 \<le> i" "i \<le> int nasize"
    using fresh_ok(2) [OF assms(2-4)] by (auto simp: in_part_def split: option.splits)
  have a: "array (fresh t nasize nh) ! nat (i - 1) = (if nat (i - 1) < sizearray t then array t ! nat (i - 1) else TNil)"
    using i by (simp add: fresh_def Let_def nth_append nat_less_iff)
  show ?thesis using True a i by (auto simp: table_at_def in_part_def)
next
  case False
  then show ?thesis using fresh_ok(6) [OF assms(2-4,1)] by (simp add: table_at_def node_val_def)
qed

text \<open>The entries that will be in the nodes.\<close>

definition outside :: "LuaTable \<Rightarrow> nat \<Rightarrow> nat" where
  "outside t n = length (filter (\<lambda>(k, v). \<not> (case int_key k of Some i \<Rightarrow> 1 \<le> i \<and> i \<le> int n | None \<Rightarrow> False)) (live t))"

lemma in_part_size: "in_part t k = (case int_key k of Some i \<Rightarrow> 1 \<le> i \<and> i \<le> int (sizearray t) | None \<Rightarrow> False)"
  by (simp add: in_part_def)

lemma outside_split:
  assumes wf: "wf_table t" and s: "sizearray t' = n"
  shows "outside t n = length (filter (\<lambda>(k, v). \<not> in_part t' k) (vanishing (array t) n)) +
     length (filter (\<lambda>(k, v). \<not> in_part t' k) (old_nodes (node t)))"
proof -
  let ?Q = "\<lambda>(k, v). \<not> in_part t' k"
  have p: "in_part t' k = (case int_key k of Some i \<Rightarrow> 1 \<le> i \<and> i \<le> int n | None \<Rightarrow> False)" for k
    by (cases "int_key k") (simp_all add: in_part_def s)
  have "filter ?Q (vanishing (array t) 0) = filter ?Q (vanishing (array t) n)"
  proof -
    let ?f = "\<lambda>i. (TNumber (d_of_int (int i + 1)), array t ! i)"
    let ?R = "\<lambda>kv. (\<lambda>(k, v). v \<noteq> TNil) kv \<and> ?Q kv"
    have v: "filter ?Q (vanishing (array t) m) = map ?f (filter (\<lambda>i. ?R (?f i)) [m..<sizearray t])" for m
      by (simp add: vanishing_def filter_map o_def)
    have "filter (\<lambda>i. ?R (?f i)) [0..<sizearray t] = filter (\<lambda>i. ?R (?f i)) [n..<sizearray t]"
    proof (cases "n \<le> sizearray t")
      case True
      have "filter (\<lambda>i. ?R (?f i)) [0..<n] = []"
      proof (rule filter_False, rule ballI)
        fix i assume "i \<in> set [0..<n]"
        then have "int_key (TNumber (d_of_int (int i + 1))) = Some (int i + 1)" "i < n"
          using size32 [OF wf, of i] True by auto
        then show "\<not> ?R (?f i)" by (simp add: p)
      qed
      moreover have "[0..<sizearray t] = [0..<n] @ [n..<sizearray t]" using True upt_add_eq_append [of 0 n "sizearray t - n"] by simp
      ultimately show ?thesis by simp
    next
      case False
      have "\<not> ?R (?f i)" if "i < sizearray t" for i
      proof -
        have "int_key (TNumber (d_of_int (int i + 1))) = Some (int i + 1)" using size32 [OF wf, of i] that by simp
        then show ?thesis using that False by (simp add: p)
      qed
      then have "filter (\<lambda>i. ?R (?f i)) [0..<sizearray t] = []" by (intro filter_False ballI) auto
      then show ?thesis using False by simp
    qed
    then show ?thesis unfolding v by simp
  qed
  then show ?thesis unfolding outside_def live_def p [symmetric] by simp
qed

lemma resize_ok:
  assumes wf: "wf_table t" and n: "nasize \<le> MAXSIZE" and nh: "0 \<le> nh" "nh \<le> int MAXSIZE"
    and bound: "table_at t (TNumber (d_of_int (int nasize + 1))) = TNil" and room: "int (outside t nasize) \<le> nh"
  obtains t' where "resize (newkey_step g) t nasize nh = Inr t'" and "wf_table t'" and "sizearray t' = nasize"
    and "same_frame t t'" and "\<And>k. k \<noteq> TNil \<Longrightarrow> table_at t' k = table_at t k"
    and "used t' \<le> outside t nasize" and "nat nh \<le> capacity t'"
    and "\<And>k. k \<noteq> TNil \<Longrightarrow> table_at t k = TNil \<Longrightarrow> absent t' k"
proof -
  let ?f = "newkey_step g" and ?t1 = "fresh t nasize nh"
  let ?xs = "vanishing (array t) nasize" and ?ys = "old_nodes (node t)"
  let ?Q = "\<lambda>(k, v). \<not> in_part ?t1 k"
  note F = fresh_ok [OF n nh, where t = t]
  have d: "distinct_keys (?xs @ ?ys)" by (rule distinct_live [OF wf])
  have kvs: "(k, v) \<in> set (live t)" if "(k, v) \<in> set (?xs @ ?ys)" for k v
    using that by (auto simp: live_def in_vanishing)
  have r: "in_int32 (int nasize + 1)" using n by (simp add: in_int32_def)
  have succ: "int_key k \<noteq> Some (int (sizearray ?t1) + 1)" if "(k, v) \<in> set (?xs @ ?ys)" for k v
  proof
    assume "int_key k = Some (int (sizearray ?t1) + 1)"
    then have "luaO_rawequalKey k (TNumber (d_of_int (int nasize + 1)))" using F(2) r rawequal_int_key by simp
    then have "table_at t k = TNil" using bound table_at_cong by simp
    then show False using live_at [OF wf kvs [OF that]] by simp
  qed
  have sp: "outside t nasize = length (filter ?Q ?xs) + length (filter ?Q ?ys)"
    by (rule outside_split [OF wf F(2)])
  have cap: "outside t nasize \<le> capacity ?t1" using room F(5) nh by linarith
  have out: "\<not> in_part ?t1 k" if kv: "(k, v) \<in> set ?xs" for k v
  proof (rule vanishing_key [OF wf kv])
    fix i assume "nasize \<le> i" "int_key k = Some (int i + 1)"
    then show ?thesis using F(2) by (simp add: in_part_def)
  qed
  obtain t2 where t2: "reinsert ?f ?t1 ?xs = Inr t2" "wf_table t2" "same_shape ?t1 t2"
      "used t2 \<le> used ?t1 + length (filter ?Q ?xs)" "holds ?t1 t2 ?xs"
  proof -
    have "\<exists>t'. reinsert ?f ?t1 ?xs = Inr t' \<and> wf_table t' \<and> same_shape ?t1 t' \<and>
       used t' \<le> used ?t1 + length (filter ?Q ?xs) \<and> holds ?t1 t' ?xs"
    proof (rule reinsert_ok [OF F(1)])
      show "distinct_keys ?xs" using d by (simp add: distinct_keys_def sorted_wrt_append)
      show "used ?t1 + length (filter ?Q ?xs) \<le> capacity ?t1" using F(4) sp cap by simp
      fix k v assume kv: "(k, v) \<in> set ?xs"
      have v: "valid_key k" using live_at [OF wf kvs [of k v]] kv by simp
      then have "k \<noteq> TNil" by auto
      then have "absent ?t1 k" using out [OF kv] F(6) by (simp add: absent_def)
      then show "valid_key k \<and> int_key k \<noteq> Some (int (sizearray ?t1) + 1) \<and> absent ?t1 k"
        using v succ [of k v] kv by simp
      show "?f t' k = arrayornewkey ?f t' k" if "wf_table t'" "same_shape ?t1 t'" for t'
        using arrayornewkey_cases [OF that(1), of ?f k] same_shape_simps(1) [OF that(2), of k] out [OF kv] by simp
    qed
    then show thesis using that by blast
  qed
  note S = same_shape_simps [OF t2(3)]
  obtain t' where t': "reinsert (arrayornewkey ?f) t2 ?ys = Inr t'" "wf_table t'" "same_shape t2 t'"
      "used t' \<le> used t2 + length (filter ?Q ?ys)" "holds t2 t' ?ys"
  proof -
    have Q: "(\<lambda>(k, v). \<not> in_part t2 k) = ?Q" using S(1) by (simp add: fun_eq_iff)
    have "\<exists>t'. reinsert (arrayornewkey ?f) t2 ?ys = Inr t' \<and> wf_table t' \<and> same_shape t2 t' \<and>
       used t' \<le> used t2 + length (filter (\<lambda>(k, v). \<not> in_part t2 k) ?ys) \<and> holds t2 t' ?ys"
    proof (rule reinsert_ok [OF t2(2)])
      show "distinct_keys ?ys" using d by (simp add: distinct_keys_def sorted_wrt_append)
      show "used t2 + length (filter (\<lambda>(k, v). \<not> in_part t2 k) ?ys) \<le> capacity t2"
        using t2(4) F(4) sp cap S(2) unfolding Q by simp
      fix k v assume kv: "(k, v) \<in> set ?ys"
      have v: "valid_key k" "\<not> in_part t k" using node_key [OF wf kv] by auto
      then have kn: "k \<noteq> TNil" by auto
      have "\<not> luaO_rawequalKey k' k" if "(k', v') \<in> set ?xs" for k' v'
        using vanishing_key [OF wf that] int_key_cong v(2) by (metis in_part_def)
      then have h: "table_at t2 k = table_at ?t1 k" "node_find (node ?t1) k = None \<longrightarrow> node_find (node t2) k = None"
        using t2(5) [unfolded holds_def, rule_format, OF kn] by auto
      then have "absent t2 k" using fresh_at [OF kn n nh, where t = t] v(2) F(6) [OF kn] by (simp add: absent_def S)
      then show "valid_key k \<and> int_key k \<noteq> Some (int (sizearray t2) + 1) \<and> absent t2 k"
        using v succ [of k v] kv t2(3) by (simp add: same_shape_def)
    qed simp
    then show thesis using that unfolding Q by blast
  qed
  have H: "holds ?t1 t' (?xs @ ?ys)" by (rule holds_append [OF t2(5) t'(5) d])
  have sh: "same_shape ?t1 t'" by (rule same_shape_trans [OF t2(3) t'(3)])
  have at: "table_at t' k = table_at t k \<and> (table_at t k = TNil \<longrightarrow> absent t' k)" if k: "k \<noteq> TNil" for k
  proof (cases "\<exists>(k', v)\<in>set (?xs @ ?ys). luaO_rawequalKey k' k")
    case True
    then obtain k' v where m: "(k', v) \<in> set (?xs @ ?ys)" "luaO_rawequalKey k' k" by auto
    then have "table_at t' k = v" using H [unfolded holds_def, rule_format, OF k] by fastforce
    moreover have "table_at t k = v" "v \<noteq> TNil" using live_at [OF wf kvs [OF m(1)]] table_at_cong [OF m(2)] by auto
    ultimately show ?thesis by simp
  next
    case False
    then have h: "table_at t' k = table_at ?t1 k" "node_find (node t') k = None"
      using H [unfolded holds_def, rule_format, OF k] F(6) [OF k] by auto
    have "table_at t' k = table_at t k"
    proof (rule ccontr)
      assume ne: "table_at t' k \<noteq> table_at t k"
      then have nt: "table_at t k \<noteq> TNil" "\<not> (in_part ?t1 k \<and> in_part t k)"
        using h(1) fresh_at [OF k n nh, where t = t] by (auto split: if_splits)
      obtain k' where k': "(k', table_at t k) \<in> set (live t)" "luaO_rawequalKey k' k" using live_ex [OF wf k nt(1)] by blast
      then have "(k', table_at t k) \<notin> set ?ys" "(k', table_at t k) \<notin> set ?xs" using False by auto
      then have v: "(k', table_at t k) \<in> set (vanishing (array t) 0)" "(k', table_at t k) \<notin> set ?xs" using k'(1) by (auto simp: live_def)
      obtain i where i: "i < sizearray t" "k' = TNumber (d_of_int (int i + 1))" "table_at t k = array t ! i"
        using v(1) unfolding in_vanishing by blast
      then have "i < nasize" using v(2) nt(1) unfolding in_vanishing by (metis linorder_not_less)
      moreover have "int_key k' = Some (int i + 1)" using i size32 [OF wf, of i] by simp
      ultimately have "in_part ?t1 k'" "in_part t k'" using i(1) F(2) by (simp_all add: in_part_def)
      then show False using nt(2) int_key_cong [OF k'(2)] by (simp add: in_part_def)
    qed
    then show ?thesis using h(2) by (simp add: absent_def)
  qed
  have "resize ?f t nasize nh = Inr t'" by (simp add: resize_fresh [OF n nh] t2(1) t'(1))
  moreover have "used t' \<le> outside t nasize" using t2(4) t'(4) F(4) sp by simp
  moreover have "sizearray t' = nasize" "same_frame t t'" "nat nh \<le> capacity t'"
    using sh F(2,3,5) same_frame_trans same_shape_simps(2) [OF sh] by (auto simp: same_shape_def)
  ultimately show thesis using that t'(2) at by blast
qed

end
