(* ===== verification/TableRehash.thy ===== *)
theory TableRehash imports TableGrow begin

text \<open>
  The choice of the sizes in \<open>rehash\<close>: the counts by slices, the size \<open>computesizes\<close> takes from them, the
  adjustment of the boundary, and that the result leaves room for every entry and the new key.
\<close>

section \<open>Counting integer keys by slices\<close>

definition lo :: "nat \<Rightarrow> nat" where
  "lo j = (if j = 0 then 0 else 2 ^ (j - 1))"

definition in_slice :: "nat \<Rightarrow> int \<Rightarrow> bool" where
  "in_slice j i \<longleftrightarrow> int (lo j) < i \<and> i \<le> 2 ^ j"

definition cnt :: "int list \<Rightarrow> nat \<Rightarrow> nat" where
  "cnt xs n = length (filter (\<lambda>i. 1 \<le> i \<and> i \<le> int n) xs)"

definition sliced :: "nat list \<Rightarrow> int list \<Rightarrow> bool" where
  "sliced nums xs \<longleftrightarrow> length nums = MAXBITS + 1 \<and> (\<forall>j\<le>MAXBITS. nums ! j = length (filter (in_slice j) xs))"

lemma lo_le: "lo j \<le> 2 ^ j" "lo (Suc j) = 2 ^ j"
  by (cases j; simp add: lo_def)+

lemma cnt_append [simp]: "cnt (xs @ ys) n = cnt xs n + cnt ys n"
  by (simp add: cnt_def)

lemma cnt_Nil [simp]: "cnt [] n = 0"
  by (simp add: cnt_def)

lemma cnt_le: "cnt xs n \<le> length xs"
  by (simp add: cnt_def)

lemma cnt_add:
  assumes "n \<le> m"
  shows "cnt xs m = cnt xs n + length (filter (\<lambda>i. int n < i \<and> i \<le> int m) xs)"
  using assms by (induction xs) (auto simp: cnt_def)

lemma cnt_mono: "n \<le> m \<Longrightarrow> cnt xs n \<le> cnt xs m"
  by (simp add: cnt_add [of n m])

lemma cnt_zero [simp]: "cnt xs 0 = 0"
  by (simp add: cnt_def)

lemma cnt_slice: "cnt xs (lo j) + length (filter (in_slice j) xs) = cnt xs (2 ^ j)"
  using cnt_add [OF lo_le(1), of xs j] by (simp add: in_slice_def [abs_def])

lemma in_slice_unique: "in_slice j i \<Longrightarrow> in_slice j' i \<Longrightarrow> j = j'"
proof (rule ccontr)
  assume a: "in_slice j i" "in_slice j' i" "j \<noteq> j'"
  have "False" if "in_slice a i" "in_slice b i" "a < b" for a b
  proof -
    have "(2 :: nat) ^ a \<le> lo b" using that(3) by (auto simp: lo_def intro: power_increasing)
    then have "(2 :: int) ^ a \<le> int (lo b)" by simp
    then show False using that(1,2) unfolding in_slice_def by linarith
  qed
  then show False using a by (meson linorder_neqE_nat)
qed

lemma ceillog2_slice:
  assumes "0 < i" and "i \<le> int MAXSIZE"
  shows "nat (ceillog2 i) \<le> MAXBITS" and "in_slice (nat (ceillog2 i)) i"
proof -
  obtain n where n: "i = int n" "0 < n" "n \<le> MAXSIZE" using assms by (cases i) auto
  then have "n < 2 ^ 31" by simp
  then obtain k where k: "ceillog2 (int n) = int k" "n \<le> 2 ^ k" "\<And>j. n \<le> 2 ^ j \<Longrightarrow> k \<le> j"
    using ceillog2_least [OF n(2)] by blast
  show "nat (ceillog2 i) \<le> MAXBITS" using k(3) [of 26] k(1) n by simp
  have "lo k < n"
  proof (cases k)
    case (Suc m)
    then have "\<not> n \<le> 2 ^ m" using k(3) [of m] by auto
    then show ?thesis using Suc by (simp add: lo_le(2))
  qed (use n(2) in \<open>simp add: lo_def\<close>)
  moreover have "int n \<le> int (2 ^ k)" using k(2) by (simp only: of_nat_le_iff)
  ultimately show "in_slice (nat (ceillog2 i)) i" using k(1) n(1) by (simp add: in_slice_def)
qed

lemma sliced_add:
  assumes s: "sliced nums xs" and i: "0 < i" "i \<le> int MAXSIZE"
  shows "sliced (nums[nat (ceillog2 i) := nums ! nat (ceillog2 i) + 1]) (xs @ [i])"
proof -
  let ?k = "nat (ceillog2 i)"
  have k: "?k \<le> MAXBITS" "in_slice ?k i" using ceillog2_slice [OF i] by auto
  have "in_slice j i \<longleftrightarrow> j = ?k" for j using k(2) in_slice_unique by blast
  then show ?thesis using s k(1) by (auto simp: sliced_def nth_list_update)
qed

lemma sliced_skip: "sliced nums xs \<Longrightarrow> \<not> (0 < i \<and> i \<le> int MAXSIZE) \<Longrightarrow> sliced nums (xs @ [i])"
proof -
  assume s: "sliced nums xs" and i: "\<not> (0 < i \<and> i \<le> int MAXSIZE)"
  have "\<not> in_slice j i" if "j \<le> MAXBITS" for j
  proof -
    have "(2 :: int) ^ j \<le> 2 ^ 26" using that by (intro power_increasing) auto
    then show ?thesis using i by (auto simp: in_slice_def)
  qed
  then show ?thesis using s by (simp add: sliced_def)
qed

definition idx_of :: "TValue \<Rightarrow> int list" where
  "idx_of k = (case int_key k of Some i \<Rightarrow> [i] | None \<Rightarrow> [])"

lemma arrayindex_key: "arrayindex d = (case int_key (TNumber d) of Some i \<Rightarrow> i | None \<Rightarrow> -1)"
  by (simp add: arrayindex_def int_key_def Let_def)

lemma countint_sliced:
  assumes "sliced nums xs" and "countint d nums = (nums', c)"
  shows "sliced nums' (xs @ idx_of (TNumber d)) \<and> c = cnt (idx_of (TNumber d)) MAXSIZE"
proof (cases "int_key (TNumber d)")
  case None
  then show ?thesis using assms by (simp add: countint_def arrayindex_key idx_of_def)
next
  case (Some i)
  show ?thesis
  proof (cases "0 < i \<and> i \<le> int MAXSIZE")
    case True
    then show ?thesis using Some assms sliced_add [OF assms(1), of i]
      by (auto simp: countint_def arrayindex_key idx_of_def cnt_def Let_def)
  next
    case False
    then show ?thesis using Some assms sliced_skip [OF assms(1), of i]
      by (auto simp: countint_def arrayindex_key idx_of_def cnt_def Let_def)
  qed
qed

subsection \<open>The nodes\<close>

definition kv_idx :: "(TValue \<times> TValue) list \<Rightarrow> int list" where
  "kv_idx kvs = concat (map (\<lambda>kv. idx_of (fst kv)) kvs)"

lemma numusehash_loop_spec:
  "numusehash_loop ns nums ause tot = (nums', ause', tot') \<Longrightarrow> sliced nums xs \<Longrightarrow>
     let kvs = filter (\<lambda>(k, v). v \<noteq> TNil) (map (\<lambda>n. (gkey n, gval n)) ns) in
     sliced nums' (xs @ kv_idx kvs) \<and> ause' = ause + cnt (kv_idx kvs) MAXSIZE \<and> tot' = tot + length kvs"
proof (induction ns arbitrary: nums ause tot xs)
  case Nil
  then show ?case by (simp add: kv_idx_def)
next
  case (Cons n ns)
  show ?case
  proof (cases "gval n \<noteq> TNil")
    case True
    obtain nums1 c where c: "(case gkey n of TNumber d \<Rightarrow> countint d nums | _ \<Rightarrow> (nums, 0)) = (nums1, c)"
      by (cases "case gkey n of TNumber d \<Rightarrow> countint d nums | _ \<Rightarrow> (nums, 0)")
    have "sliced nums1 (xs @ idx_of (gkey n)) \<and> c = cnt (idx_of (gkey n)) MAXSIZE"
      using c Cons.prems(2) countint_sliced by (cases "gkey n") (auto simp: idx_of_def int_key_def)
    moreover have "numusehash_loop ns nums1 (ause + c) (tot + 1) = (nums', ause', tot')"
      using Cons.prems(1) True c by simp
    ultimately show ?thesis using Cons.IH [of nums1 "ause + c" "tot + 1" "xs @ idx_of (gkey n)"] True
      by (simp add: kv_idx_def Let_def)
  next
    case False
    then show ?thesis using Cons.IH [of nums ause tot xs] Cons.prems by simp
  qed
qed

lemma numusehash_spec:
  "numusehash t nums = (nums', ause, tot) \<Longrightarrow> sliced nums xs \<Longrightarrow>
     sliced nums' (xs @ kv_idx (old_nodes (node t))) \<and> ause = cnt (kv_idx (old_nodes (node t))) MAXSIZE \<and>
     tot = length (old_nodes (node t))"
  unfolding numusehash_def old_nodes_def using numusehash_loop_spec [of "rev (node t)" nums 0 0 nums' ause tot xs]
  by (simp add: Let_def)

subsection \<open>The array\<close>

definition nonnil :: "LuaTable \<Rightarrow> nat \<Rightarrow> nat \<Rightarrow> nat" where
  "nonnil t a b = length (filter (\<lambda>j. array t ! (j - 1) \<noteq> TNil) [a + 1..<b + 1])"

lemma nonnil_add: "a \<le> b \<Longrightarrow> b \<le> c \<Longrightarrow> nonnil t a b + nonnil t b c = nonnil t a c"
proof -
  assume "a \<le> b" "b \<le> c"
  then have "[a + 1..<c + 1] = [a + 1..<b + 1] @ [b + 1..<c + 1]"
    using upt_add_eq_append [of "a + 1" "b + 1" "c - b"] by simp
  then show ?thesis by (simp add: nonnil_def)
qed

lemma numusearray_loop_spec:
  assumes "numusearray_loop fuel t lg (min (lo lg) (sizearray t) + 1) nums ause = (nums', ause')"
    and "lg + fuel = MAXBITS + 1" and "length nums = MAXBITS + 1" and "sizearray t \<le> MAXSIZE"
    and "\<And>j. lg \<le> j \<Longrightarrow> j \<le> MAXBITS \<Longrightarrow> nums ! j = 0"
  shows "length nums' = MAXBITS + 1 \<and> ause' = ause + nonnil t (min (lo lg) (sizearray t)) (sizearray t) \<and>
     (\<forall>j\<le>MAXBITS. nums' ! j = (if j < lg then nums ! j else nonnil t (min (lo j) (sizearray t)) (min (2 ^ j) (sizearray t))))"
  using assms
proof (induction fuel arbitrary: lg nums ause)
  case 0
  then have "lg = 27" by simp
  then have "lo lg = 67108864" by (simp add: lo_def)
  then have "min (lo lg) (sizearray t) = sizearray t" using 0(4) by simp
  then show ?case using 0 by (simp add: nonnil_def)
next
  case (Suc fuel)
  let ?n = "sizearray t"
  let ?i = "min (lo lg) ?n + 1"
  show ?case
  proof (cases "2 ^ lg > ?n \<and> ?i > ?n")
    case True
    then have m: "?n \<le> lo lg" by (simp add: min_def split: if_splits)
    have "nonnil t (min (lo j) ?n) (min (2 ^ j) ?n) = 0" if "lg \<le> j" for j
    proof -
      have "lo lg \<le> lo j" using that by (auto simp: lo_def intro: power_increasing)
      then show ?thesis using m lo_le(1) [of j] by (simp add: nonnil_def min_def)
    qed
    then show ?thesis using Suc.prems True m by (auto simp: nonnil_def not_less)
  next
    case False
    let ?lim = "min (2 ^ lg) ?n"
    let ?lc = "nonnil t (min (lo lg) ?n) ?lim"
    let ?nums = "nums[lg := nums ! lg + ?lc]"
    have lim: "(if 2 ^ lg > ?n then ?n else 2 ^ lg) = ?lim" by simp
    have i: "?i \<le> ?lim + 1" using lo_le(1) [of lg] by simp
    then have mx: "max ?i (?lim + 1) = min (lo (Suc lg)) ?n + 1" by (simp add: lo_le(2) max_def)
    have lg: "lg \<le> MAXBITS" using Suc.prems(2) by simp
    have nb: "\<not> (2 ^ lg > ?n \<and> ?i > ?lim)" using False by (cases "2 ^ lg > ?n") (simp_all add: min_absorb2)
    have run: "numusearray_loop fuel t (Suc lg) (min (lo (Suc lg)) ?n + 1) ?nums (ause + ?lc) = (nums', ause')"
      using Suc.prems(1) unfolding numusearray_loop.simps Let_def lim mx nonnil_def [symmetric] if_not_P [OF nb]
      by simp
    have "nums ! lg = 0" using Suc.prems(5) [of lg] lg by simp
    then have e: "?nums ! j = (if j = lg then ?lc else nums ! j)" for j
      using lg Suc.prems(3) by (simp add: nth_list_update)
    have IH: "length nums' = MAXBITS + 1 \<and> ause' = ause + ?lc + nonnil t (min (lo (Suc lg)) ?n) ?n \<and>
      (\<forall>j\<le>MAXBITS. nums' ! j = (if j < Suc lg then ?nums ! j else nonnil t (min (lo j) ?n) (min (2 ^ j) ?n)))"
      by (rule Suc.IH [OF run]) (use Suc.prems(2-5) e in auto)
    have "?lc + nonnil t (min (lo (Suc lg)) ?n) ?n = nonnil t (min (lo lg) ?n) ?n"
      using nonnil_add [of "min (lo lg) ?n" ?lim ?n t] i by (simp add: lo_le(2))
    then show ?thesis using IH e by (auto simp: less_Suc_eq)
  qed
qed

lemma array_idx:
  assumes "wf_table t"
  shows "kv_idx (vanishing (array t) 0) = map int (filter (\<lambda>j. array t ! (j - 1) \<noteq> TNil) [1..<sizearray t + 1])"
proof -
  have e: "kv_idx (filter (\<lambda>(k, v). v \<noteq> TNil) (map (\<lambda>i. (TNumber (d_of_int (int i + 1)), array t ! i)) xs)) =
      map int (filter (\<lambda>j. array t ! (j - 1) \<noteq> TNil) (map Suc xs))" if "set xs \<subseteq> {..<sizearray t}" for xs
    using that
  proof (induction xs)
    case (Cons x xs)
    then have "int_key (TNumber (d_of_int (int x + 1))) = Some (int x + 1)" using size32 [OF assms, of x] by simp
    then show ?case using Cons by (simp add: kv_idx_def idx_of_def)
  qed (simp add: kv_idx_def)
  have "[1..<sizearray t + 1] = map Suc [0..<sizearray t]" by (simp add: map_Suc_upt)
  then show ?thesis unfolding vanishing_def using e [of "[0..<sizearray t]"] by (simp add: atLeast_upt)
qed

lemma filter_upt_range:
  assumes "a' \<le> a" and "b \<le> b'"
  shows "filter (\<lambda>j. P j \<and> a < j \<and> j \<le> b) [a' + 1..<b' + 1] = filter P [a + 1..<b + 1]"
proof (cases "a \<le> b")
  case True
  have "[a' + 1..<b' + 1] = [a' + 1..<a + 1] @ [a + 1..<b + 1] @ [b + 1..<b' + 1]"
    using assms True upt_add_eq_append [of "a' + 1" "a + 1" "b' - a"] upt_add_eq_append [of "a + 1" "b + 1" "b' - b"] by simp
  moreover have "filter (\<lambda>j. P j \<and> a < j \<and> j \<le> b) [a' + 1..<a + 1] = []" "filter (\<lambda>j. P j \<and> a < j \<and> j \<le> b) [b + 1..<b' + 1] = []"
    by (auto simp: filter_empty_conv)
  moreover have "filter (\<lambda>j. P j \<and> a < j \<and> j \<le> b) [a + 1..<b + 1] = filter P [a + 1..<b + 1]"
    by (rule filter_cong) auto
  ultimately show ?thesis by simp
qed (auto simp: filter_empty_conv)

lemma numusearray_spec:
  assumes wf: "wf_table t" and r: "numusearray t (replicate (MAXBITS + 1) 0) = (nums, ause)"
  shows "sliced nums (kv_idx (vanishing (array t) 0)) \<and> ause = cnt (kv_idx (vanishing (array t) 0)) MAXSIZE \<and>
     ause = length (vanishing (array t) 0)"
proof -
  let ?n = "sizearray t" and ?xs = "kv_idx (vanishing (array t) 0)"
  let ?nil = "\<lambda>j. array t ! (j - 1) \<noteq> TNil"
  have n: "?n \<le> MAXSIZE" using wf by (simp add: wf_table_def)
  have s: "length nums = MAXBITS + 1" "ause = nonnil t 0 ?n"
    "\<forall>j\<le>MAXBITS. nums ! j = nonnil t (min (lo j) ?n) (min (2 ^ j) ?n)"
    using numusearray_loop_spec [of "MAXBITS + 1" t 0 "replicate (MAXBITS + 1) 0" 0 nums ause] r n
    by (simp_all add: numusearray_def lo_def nonnil_def nth_replicate)
  have sl: "length (filter (in_slice j) ?xs) = nonnil t (min (lo j) ?n) (min (2 ^ j) ?n)" for j
  proof -
    have "filter (\<lambda>x. in_slice j (int x)) (filter ?nil [1..<?n + 1]) =
        filter (\<lambda>x. ?nil x \<and> min (lo j) ?n < x \<and> x \<le> min (2 ^ j) ?n) [0 + 1..<?n + 1]"
      unfolding filter_filter by (rule filter_cong) (auto simp: in_slice_def)
    also have "\<dots> = filter ?nil [min (lo j) ?n + 1..<min (2 ^ j) ?n + 1]" by (rule filter_upt_range) auto
    finally show ?thesis unfolding array_idx [OF wf] nonnil_def by (simp add: filter_map o_def)
  qed
  have "cnt ?xs MAXSIZE = length ?xs"
    unfolding cnt_def array_idx [OF wf] by (subst filter_True) (use n in auto)
  moreover have "length ?xs = nonnil t 0 ?n" unfolding array_idx [OF wf] by (simp add: nonnil_def)
  moreover have "length ?xs = length (vanishing (array t) 0)"
  proof -
    have "length (filter ?nil (map Suc xs)) = length (filter (\<lambda>i. array t ! i \<noteq> TNil) xs)" for xs
      by (induction xs) auto
    moreover have "[1..<?n + 1] = map Suc [0..<?n]" by (simp add: map_Suc_upt)
    ultimately have "length ?xs = length (filter (\<lambda>i. array t ! i \<noteq> TNil) [0..<?n])"
      unfolding array_idx [OF wf] by (simp only: length_map)
    then show ?thesis by (simp add: vanishing_def filter_map o_def)
  qed
  ultimately show ?thesis using s sl by (simp add: sliced_def)
qed

section \<open>The size of the array\<close>

text \<open>A size and the number of keys it takes in, more than half of it.\<close>

definition half_full :: "int list \<Rightarrow> nat \<Rightarrow> nat \<Rightarrow> bool" where
  "half_full xs na n \<longleftrightarrow> na = cnt xs n \<and> n \<le> MAXSIZE \<and> (n = 0 \<or> (\<exists>j\<le>MAXBITS. n = 2 ^ j) \<and> n < 2 * na)"

lemma computesizes_loop_spec:
  assumes "sliced nums xs" and "i + fuel = MAXBITS + 1" and "a = cnt xs (lo i)" and "half_full xs na n"
    and "computesizes_loop fuel nums narray i a na n = (na', n')"
  shows "half_full xs na' n'"
  using assms
proof (induction fuel arbitrary: i a na n)
  case (Suc fuel)
  have i: "i \<le> MAXBITS" using Suc.prems(2) by simp
  have a: "a + nums ! i = cnt xs (2 ^ i)"
    using Suc.prems(1,3) i cnt_slice [of xs i] by (simp add: sliced_def)
  have pow: "(2 :: nat) ^ i \<le> MAXSIZE" using power_increasing [of i 26 "2 :: nat"] i by simp
  have hf: "half_full xs (a + nums ! i) (2 ^ i)" if "2 ^ i div 2 < a + nums ! i"
    unfolding half_full_def a using that i pow by (auto simp: a)
  obtain na1 n1 where r: "(if nums ! i > 0 \<and> a + nums ! i > 2 ^ i div 2 then (a + nums ! i, 2 ^ i) else (na, n)) = (na1, n1)"
    by (cases "if nums ! i > 0 \<and> a + nums ! i > 2 ^ i div 2 then (a + nums ! i, 2 ^ i) else (na, n)")
  have h1: "half_full xs na1 n1"
  proof (cases "nums ! i > 0 \<and> a + nums ! i > 2 ^ i div 2")
    case True
    then have "na1 = a + nums ! i" "n1 = 2 ^ i" using r unfolding if_P [OF True] by simp_all
    then show ?thesis using hf True by simp
  next
    case False
    then show ?thesis using r Suc.prems(4) unfolding if_not_P [OF False] by simp
  qed
  have step: "computesizes_loop (Suc fuel) nums narray i a na n =
      (if 2 ^ i div 2 < narray then
         if a + nums ! i = narray then (na1, n1)
         else computesizes_loop fuel nums narray (i + 1) (a + nums ! i) na1 n1
       else (na, n))"
    unfolding computesizes_loop.simps Let_def r prod.case ..
  show ?case
  proof (cases "2 ^ i div 2 < narray \<and> a + nums ! i \<noteq> narray")
    case True
    then have "computesizes_loop fuel nums narray (i + 1) (a + nums ! i) na1 n1 = (na', n')"
      using Suc.prems(5) unfolding step by simp
    then show ?thesis using Suc.IH [of "i + 1" "a + nums ! i" na1 n1] Suc.prems(1,2) h1 a by (simp add: lo_le(2))
  next
    case False
    then have "(na', n') = (na1, n1) \<or> (na', n') = (na, n)"
      using Suc.prems(5) unfolding step by (auto split: if_splits)
    then show ?thesis using h1 Suc.prems(4) by auto
  qed
qed simp

lemma computesizes_spec:
  assumes "sliced nums xs" and "computesizes nums narray = (na, n)"
  shows "half_full xs na n"
proof (rule computesizes_loop_spec [OF assms(1)])
  show "computesizes_loop (length nums) nums narray 0 0 0 0 = (na, n)" using assms(2) by (simp add: computesizes_def)
qed (use assms(1) in \<open>simp_all add: sliced_def lo_def half_full_def\<close>)

section \<open>Adjusting the boundary\<close>

definition tidx :: "LuaTable \<Rightarrow> int list" where
  "tidx t = kv_idx (live t)"

lemma in_kv_idx: "i \<in> set (kv_idx kvs) \<longleftrightarrow> (\<exists>k v. (k, v) \<in> set kvs \<and> int_key k = Some i)"
  by (force simp: kv_idx_def idx_of_def split: option.splits)

lemma length_kv_idx: "length (kv_idx kvs) \<le> length kvs"
  by (induction kvs) (auto simp: kv_idx_def idx_of_def split: option.split)

lemma in_tidx:
  assumes "wf_table t" and "in_int32 i"
  shows "i \<in> set (tidx t) \<longleftrightarrow> table_at t (TNumber (d_of_int i)) \<noteq> TNil"
proof
  assume "i \<in> set (tidx t)"
  then obtain k v where kv: "(k, v) \<in> set (live t)" "int_key k = Some i" by (auto simp: tidx_def in_kv_idx)
  then have "luaO_rawequalKey k (TNumber (d_of_int i))" using rawequal_int_key [OF assms(2)] by simp
  then show "table_at t (TNumber (d_of_int i)) \<noteq> TNil" using live_at [OF assms(1) kv(1)] table_at_cong by metis
next
  assume "table_at t (TNumber (d_of_int i)) \<noteq> TNil"
  then obtain k v where "(k, v) \<in> set (live t)" "luaO_rawequalKey k (TNumber (d_of_int i))"
    using live_ex [OF assms(1), of "TNumber (d_of_int i)"] by auto
  then show "i \<in> set (tidx t)" using rawequal_int_key [OF assms(2)] by (auto simp: tidx_def in_kv_idx)
qed

lemma length_live: "length (live t) \<le> sizearray t + length (node t)"
proof -
  have "length (vanishing (array t) 0) \<le> length [0..<sizearray t]" unfolding vanishing_def
    by (rule order_trans [OF length_filter_le]) simp
  moreover have "length (old_nodes (node t)) \<le> length (node t)" unfolding old_nodes_def
    by (rule order_trans [OF length_filter_le]) simp
  ultimately show ?thesis by (simp add: live_def)
qed

text \<open>The indices that \<open>adjustasize\<close> moves over: those of the table and the extra key.\<close>

definition ek_idx :: "TValue option \<Rightarrow> int list" where
  "ek_idx ek = (case ek of Some k \<Rightarrow> filter (\<lambda>i. 1 \<le> i) (idx_of k) | None \<Rightarrow> [])"

lemma adjustasize_round:
  assumes wf: "wf_table t" and tb: "\<not> tbound \<Longrightarrow> node_dummy t \<and> sizearray t \<le> sz"
    and r: "in_int32 (int sz + 1)" and ek: "\<And>i. 1 \<le> i \<Longrightarrow> i = e \<longleftrightarrow> i \<in> set es"
  shows "adjustasize_loop (Suc fuel) t tbound e sz =
    (if int sz + 1 \<in> set (tidx t @ es) then adjustasize_loop fuel t tbound e (sz + 1) else Inr sz)"
proof -
  let ?A = "set (tidx t @ es)" and ?j = "int sz + 1"
  have here: "?j \<in> ?A \<longleftrightarrow> ?j = e \<or> table_at t (TNumber (d_of_int ?j)) \<noteq> TNil"
    using in_tidx [OF wf r] ek [of ?j] by auto
  show ?thesis
  proof (cases "?j \<in> ?A \<and> ?j \<noteq> e")
    case True
    then have v: "table_at t (TNumber (d_of_int ?j)) \<noteq> TNil" using here by simp
    have "tbound"
    proof (rule ccontr)
      assume "\<not> tbound"
      then have t: "node_dummy t" "sizearray t \<le> sz" using tb by auto
      then have p: "\<not> in_part t (TNumber (d_of_int ?j))" using r by (simp add: in_part_def)
      have "\<not> keyed (node t) i" for i using keyed_not_dummy [OF wf] t by blast
      then have "gval (node t ! i) = TNil" if "i < length (node t)" for i
        using wf_nodes(2) [OF wf] that by (auto simp: keys_ok_def keyed_def)
      then have "node_val (node t) (TNumber (d_of_int ?j)) = TNil"
        using node_find_Some by (auto simp: node_val_def split: option.split)
      then show False using v p by (simp add: table_at_def)
    qed
    then show ?thesis using True v getnum_slot [OF wf r] by (simp add: c_int_ok [OF r] lookup_slot_val)
  next
    case False
    then show ?thesis using here getnum_slot [OF wf r] by (auto simp: c_int_ok [OF r] lookup_slot_val)
  qed
qed

lemma fewer_indices:
  assumes "finite A" and "card {i \<in> A. int sz < i} < Suc fuel" and "int sz + 1 \<in> A"
  shows "card {i \<in> A. int (sz + 1) < i} < fuel"
proof -
  have "{i \<in> A. int sz < i} = insert (int sz + 1) {i \<in> A. int (sz + 1) < i}" using assms(3) by auto
  then show ?thesis using assms(1,2) by (simp add: card_insert_if)
qed

lemma adjustasize_loop_spec:
  assumes wf: "wf_table t" and tb: "\<not> tbound \<Longrightarrow> node_dummy t \<and> sizearray t \<le> sz"
    and range: "int sz + int fuel < 2 ^ 31"
    and ek: "\<And>i. 1 \<le> i \<Longrightarrow> i = e \<longleftrightarrow> i \<in> set es"
    and fuel: "card {i \<in> set (tidx t @ es). int sz < i} < fuel"
  shows "\<exists>n. adjustasize_loop fuel t tbound e sz = Inr n \<and> sz \<le> n \<and> n < sz + fuel \<and>
     (\<forall>i. int sz < i \<and> i \<le> int n \<longrightarrow> i \<in> set (tidx t @ es)) \<and> int n + 1 \<notin> set (tidx t @ es)"
  using tb range fuel
proof (induction fuel arbitrary: sz)
  case (Suc fuel)
  let ?A = "set (tidx t @ es)" and ?j = "int sz + 1"
  have r: "in_int32 ?j" using Suc.prems(2) by (simp add: in_int32_def)
  have round: "adjustasize_loop (Suc fuel) t tbound e sz =
      (if ?j \<in> ?A then adjustasize_loop fuel t tbound e (sz + 1) else Inr sz)"
    by (rule adjustasize_round [OF wf Suc.prems(1) r ek])
  show ?case
  proof (cases "?j \<in> ?A")
    case True
    have f: "card {i \<in> ?A. int (sz + 1) < i} < fuel" by (rule fewer_indices [OF _ Suc.prems(3) True]) simp
    have "\<not> tbound \<Longrightarrow> node_dummy t \<and> sizearray t \<le> sz + 1" "int (sz + 1) + int fuel < 2 ^ 31"
      using Suc.prems(1,2) by auto
    from Suc.IH [OF this f]
    obtain n where n: "adjustasize_loop fuel t tbound e (sz + 1) = Inr n" "sz + 1 \<le> n" "n < sz + 1 + fuel"
        "\<forall>i. int (sz + 1) < i \<and> i \<le> int n \<longrightarrow> i \<in> ?A" "int n + 1 \<notin> ?A" by blast
    have all: "\<forall>i. int sz < i \<and> i \<le> int n \<longrightarrow> i \<in> ?A"
    proof (intro allI impI)
      fix i assume "int sz < i \<and> i \<le> int n"
      then show "i \<in> ?A" using n(4) True by (cases "i = ?j") auto
    qed
    have "adjustasize_loop (Suc fuel) t tbound e sz = Inr n"
      unfolding round if_P [OF True] by (rule n(1))
    then show ?thesis using n all by auto
  next
    case False
    have "adjustasize_loop (Suc fuel) t tbound e sz = Inr sz" unfolding round if_not_P [OF False] ..
    then show ?thesis using False by auto
  qed
qed simp

text \<open>From a size up to \<open>INT_MAX\<close> the loop also ends; the next index overflows exactly when every index above
  the size is present.\<close>

lemma adjustasize_loop_any:
  assumes wf: "wf_table t" and tb: "\<not> tbound \<Longrightarrow> node_dummy t \<and> sizearray t \<le> sz" and "int sz \<le> INT_MAX"
    and "card {i \<in> set (tidx t). int sz < i} < fuel"
  shows "if \<forall>i. int sz < i \<and> i \<le> INT_MAX \<longrightarrow> i \<in> set (tidx t)
    then adjustasize_loop fuel t tbound (-1) sz = Inl (Undefined ''signed overflow'')
    else \<exists>n. adjustasize_loop fuel t tbound (-1) sz = Inr n \<and> sz \<le> n"
  using assms(2-)
proof (induction fuel arbitrary: sz)
  case (Suc fuel)
  let ?j = "int sz + 1"
  show ?case
  proof (cases "int sz = INT_MAX")
    case True
    then show ?thesis by (simp add: c_int_def in_int32_def)
  next
    case False
    then have le: "?j \<le> INT_MAX" using Suc.prems(2) by simp
    then have r: "in_int32 ?j" by (simp add: in_int32_def)
    have round: "adjustasize_loop (Suc fuel) t tbound (-1) sz =
        (if ?j \<in> set (tidx t) then adjustasize_loop fuel t tbound (-1) (sz + 1) else Inr sz)"
      using adjustasize_round [OF wf Suc.prems(1) r, where e = "-1" and es = "[]"] by simp
    show ?thesis
    proof (cases "?j \<in> set (tidx t)")
      case True
      have f: "card {i \<in> set (tidx t). int (sz + 1) < i} < fuel" by (rule fewer_indices [OF _ Suc.prems(3) True]) simp
      have all: "(\<forall>i. int sz < i \<and> i \<le> INT_MAX \<longrightarrow> i \<in> set (tidx t)) \<longleftrightarrow>
          (\<forall>i. int (sz + 1) < i \<and> i \<le> INT_MAX \<longrightarrow> i \<in> set (tidx t))"
      proof -
        have "int sz < i \<longleftrightarrow> i = ?j \<or> int (sz + 1) < i" for i by auto
        then show ?thesis using True by metis
      qed
      have "\<not> tbound \<Longrightarrow> node_dummy t \<and> sizearray t \<le> sz + 1" "int (sz + 1) \<le> INT_MAX"
        using Suc.prems(1) le by auto
      from Suc.IH [OF this f] show ?thesis unfolding round if_P [OF True] all by (auto split: if_splits)
    next
      case False
      then have "\<not> (\<forall>i. int sz < i \<and> i \<le> INT_MAX \<longrightarrow> i \<in> set (tidx t))" using le by (auto intro!: exI [of _ ?j])
      then show ?thesis unfolding round if_not_P [OF False] by simp
    qed
  qed
qed simp

lemma adjustasize_any:
  assumes wf: "wf_table t" and n: "int n \<le> INT_MAX"
  shows "if \<forall>i. int n < i \<and> i \<le> INT_MAX \<longrightarrow> table_at t (TNumber (d_of_int i)) \<noteq> TNil
    then adjustasize t n None = Inl (Undefined ''signed overflow'')
    else \<exists>m. adjustasize t n None = Inr m \<and> n \<le> m"
proof -
  let ?fuel = "sizearray t + length (node t) + 2"
  have "card {i \<in> set (tidx t). int n < i} \<le> card (set (tidx t))" by (rule card_mono) auto
  moreover have "card (set (tidx t)) \<le> length (live t)"
    using card_length [of "tidx t"] length_kv_idx [of "live t"] by (simp add: tidx_def)
  ultimately have f: "card {i \<in> set (tidx t). int n < i} < ?fuel" using length_live [of t] by linarith
  have in_t: "i \<in> set (tidx t) \<longleftrightarrow> table_at t (TNumber (d_of_int i)) \<noteq> TNil" if "int n < i \<and> i \<le> INT_MAX" for i
    using that by (intro in_tidx [OF wf]) (simp add: in_int32_def)
  then have "(\<forall>i. int n < i \<and> i \<le> INT_MAX \<longrightarrow> i \<in> set (tidx t)) \<longleftrightarrow>
      (\<forall>i. int n < i \<and> i \<le> INT_MAX \<longrightarrow> table_at t (TNumber (d_of_int i)) \<noteq> TNil)" by blast
  moreover have "adjustasize t n None = adjustasize_loop ?fuel t (\<not> node_dummy t \<or> n < sizearray t) (-1) n"
    by (simp only: adjustasize_def Let_def option.case)
  moreover have "\<not> (\<not> node_dummy t \<or> n < sizearray t) \<Longrightarrow> node_dummy t \<and> sizearray t \<le> n" by auto
  note adjustasize_loop_any [OF wf this n f]
  ultimately show ?thesis by presburger
qed

lemma adjustasize_spec:
  assumes wf: "wf_table t" and sz: "sz \<le> 2 ^ 30"
  obtains n where "adjustasize t sz ek = Inr n" and "sz \<le> n" and "n \<le> sz + length (live t) + 1"
    and "\<And>i. int sz < i \<Longrightarrow> i \<le> int n \<Longrightarrow> i \<in> set (tidx t @ ek_idx ek)" and "int n + 1 \<notin> set (tidx t @ ek_idx ek)"
proof -
  let ?e = "case ek of Some (TNumber d) \<Rightarrow> arrayindex d | _ \<Rightarrow> -1"
  let ?tb = "\<not> node_dummy t \<or> sz < sizearray t" and ?fuel = "sizearray t + length (node t) + 2"
  let ?A = "set (tidx t @ ek_idx ek)"
  have l26: "(2 :: nat) ^ lsizenode t \<le> 2 ^ 26" using wf by (intro power_increasing) (auto simp: wf_table_def)
  then have lens: "sizearray t \<le> 67108864" "length (node t) \<le> 67108864"
    using wf by (simp_all add: wf_table_def sizenode_def)
  have e: "i = ?e \<longleftrightarrow> i \<in> set (ek_idx ek)" if "1 \<le> i" for i
  proof (cases ek)
    case (Some k)
    show ?thesis
    proof (cases k)
      case (TNumber d)
      then show ?thesis using that Some
        by (auto simp: ek_idx_def idx_of_def arrayindex_key split: option.splits)
    qed (use that Some in \<open>auto simp: ek_idx_def idx_of_def int_key_def\<close>)
  qed (use that in \<open>simp add: ek_idx_def\<close>)
  have "card ?A \<le> length (tidx t @ ek_idx ek)" by (rule card_length)
  also have "\<dots> \<le> length (live t) + 1"
    using length_kv_idx [of "live t"] by (auto simp: tidx_def ek_idx_def idx_of_def split: option.split)
  finally have c: "card ?A \<le> length (live t) + 1" .
  have sub: "card {i \<in> ?A. int sz < i} \<le> card ?A" by (rule card_mono) auto
  have f: "card {i \<in> ?A. int sz < i} < ?fuel" using c sub length_live [of t] by linarith
  have r: "int sz + int ?fuel < 2 ^ 31"
  proof -
    have "sz + ?fuel \<le> 2 ^ 30 + 134217730" using sz lens by simp
    then show ?thesis by simp
  qed
  obtain n where n: "adjustasize_loop ?fuel t ?tb ?e sz = Inr n" "sz \<le> n"
      "\<forall>i. int sz < i \<and> i \<le> int n \<longrightarrow> i \<in> ?A" "int n + 1 \<notin> ?A"
    using adjustasize_loop_spec [OF wf _ r e f, of ?tb] by auto
  have "int ` {sz + 1..n} \<subseteq> ?A" using n(3) by (intro image_subsetI) auto
  then have "card (int ` {sz + 1..n}) \<le> card ?A" by (rule card_mono [rotated]) simp
  then have "n - sz \<le> length (live t) + 1" using c by (simp add: card_image)
  then show thesis using that [of n] n by (auto simp: adjustasize_def Let_def)
qed

section \<open>Growing for a new key\<close>

lemma outside_cnt: "outside t n + cnt (tidx t) n = length (live t)"
proof -
  have "length (filter (\<lambda>(k, v). \<not> (case int_key k of Some i \<Rightarrow> 1 \<le> i \<and> i \<le> int n | None \<Rightarrow> False)) kvs) + cnt (kv_idx kvs) n =
      length kvs" for kvs
    by (induction kvs) (auto simp: cnt_def kv_idx_def idx_of_def split: option.splits)
  then show ?thesis by (simp add: outside_def tidx_def)
qed

lemma card_filter: "finite A \<Longrightarrow> A \<subseteq> {i. P i} \<Longrightarrow> A \<subseteq> set xs \<Longrightarrow> card A \<le> length (filter P xs)"
proof -
  assume "finite A" "A \<subseteq> {i. P i}" "A \<subseteq> set xs"
  then have "A \<subseteq> set (filter P xs)" by auto
  then have "card A \<le> card (set (filter P xs))" by (rule card_mono [rotated]) simp
  also have "\<dots> \<le> length (filter P xs)" by (rule card_length)
  finally show ?thesis .
qed

lemma cnt_interval:
  assumes "n \<le> m" and "\<And>i. int n < i \<Longrightarrow> i \<le> int m \<Longrightarrow> i \<in> set xs"
  shows "cnt xs n + (m - n) \<le> cnt xs m"
proof -
  have "card {int n<..int m} \<le> length (filter (\<lambda>i. int n < i \<and> i \<le> int m) xs)"
    by (rule card_filter) (use assms(2) in auto)
  then show ?thesis using cnt_add [OF assms(1), of xs] assms(1) by simp
qed

lemma cnt_ek: "cnt (filter (\<lambda>i. 1 \<le> i) xs) n = cnt xs n"
  by (induction xs) (auto simp: cnt_def)

lemma set_append_eq: "set xs = set ys \<Longrightarrow> set (xs @ zs) = set (ys @ zs)"
  by simp

text \<open>The counts and sizes of a rehash.\<close>

lemma rehash_sizes:
  assumes wf: "wf_table t" and ek: "valid_key ek"
  obtains (sizes) nasize nh where "rehash f t ek = resize f t nasize nh" and "0 \<le> nh"
    and "int (outside t nasize) + (if cnt (idx_of ek) nasize = 0 then 1 else 0) \<le> nh"
    and "int nasize + 1 \<notin> set (tidx t @ ek_idx (Some ek))"
    and "nasize \<le> 2 * (length (live t) + 1)" and "nh \<le> int (length (live t)) + 1"
proof -
  obtain nums1 a1 where n1: "numusearray t (replicate (MAXBITS + 1) 0) = (nums1, a1)"
    by (cases "numusearray t (replicate (MAXBITS + 1) 0)")
  obtain nums2 ause huse where n2: "numusehash t nums1 = (nums2, ause, huse)" by (cases "numusehash t nums1")
  obtain nums3 c where n3: "(case ek of TNumber d \<Rightarrow> countint d nums2 | _ \<Rightarrow> (nums2, 0)) = (nums3, c)"
    by (cases "case ek of TNumber d \<Rightarrow> countint d nums2 | _ \<Rightarrow> (nums2, 0)")
  obtain na nz where cs: "computesizes nums3 (a1 + ause + c) = (na, nz)" by (cases "computesizes nums3 (a1 + ause + c)")
  define xs where "xs = tidx t @ idx_of ek"
  have s1: "sliced nums1 (kv_idx (vanishing (array t) 0))" "a1 = length (vanishing (array t) 0)"
    using numusearray_spec [OF wf n1] by auto
  have s2: "sliced nums2 (kv_idx (vanishing (array t) 0) @ kv_idx (old_nodes (node t)))" "huse = length (old_nodes (node t))"
    using numusehash_spec [OF n2 s1(1)] by auto
  have tx: "tidx t = kv_idx (vanishing (array t) 0) @ kv_idx (old_nodes (node t))" by (simp add: tidx_def live_def kv_idx_def)
  have s3: "sliced nums3 xs"
  proof (cases ek)
    case (TNumber d)
    then show ?thesis using n3 countint_sliced [OF s2(1), of d nums3 c] unfolding xs_def tx by simp
  qed (use n3 s2(1) in \<open>simp_all add: xs_def tx idx_of_def int_key_def\<close>)
  have tot: "a1 + huse + 1 = length (live t) + 1" using s1(2) s2(2) by (simp add: live_def)
  have hf: "half_full xs na nz" by (rule computesizes_spec [OF s3 cs])
  then have nz: "na = cnt xs nz" "nz \<le> 67108864" "nz \<le> 2 * na" by (auto simp: half_full_def)
  have mem: "i \<in> set (tidx t @ ek_idx (Some ek)) \<Longrightarrow> i \<in> set xs" for i
    by (auto simp: xs_def ek_idx_def)
  have nz30: "nz \<le> 2 ^ 30" using nz(2) by simp
  obtain nadj where adj: "adjustasize t nz (Some ek) = Inr nadj" "nz \<le> nadj"
      "\<And>i. int nz < i \<Longrightarrow> i \<le> int nadj \<Longrightarrow> i \<in> set (tidx t @ ek_idx (Some ek))"
      "int nadj + 1 \<notin> set (tidx t @ ek_idx (Some ek))" "nadj \<le> nz + length (live t) + 1"
    using adjustasize_spec [OF wf nz30, of "Some ek"] by metis
  have c1: "na + (nadj - nz) \<le> cnt xs nadj"
    unfolding nz(1) by (rule cnt_interval [OF adj(2)]) (rule mem [OF adj(3)])
  have lx: "cnt xs m \<le> length (live t) + 1" for m
    using cnt_le [of xs m] length_kv_idx [of "live t"] by (simp add: xs_def tidx_def idx_of_def split: option.splits)
  have re: "rehash f t ek = bindE (adjustasize t nz (Some ek)) (\<lambda>nadjusted.
      if nadjusted - nz \<noteq> 0 then
        bindE (adjustasize t (nadjusted + (nadjusted - nz)) (Some ek)) (\<lambda>nasize.
          resize f t nasize (int (a1 + huse + 1) - int na - int (nadjusted - nz)))
      else resize f t nz (int (a1 + huse + 1) - int na))"
    unfolding rehash_def Let_def n1 n2 n3 cs prod.case by simp
  have out: "int (outside t n) + (if cnt (idx_of ek) n = 0 then 1 else 0) \<le> int (length (live t) + 1) - int (cnt xs n)"
    if "cnt (idx_of ek) n \<le> 1" for n
    using outside_cnt [of t n] that by (auto simp: xs_def)
  have e1: "cnt (idx_of ek) n \<le> 1" for n by (simp add: idx_of_def cnt_def split: option.split)
  show thesis
  proof (cases "nadj = nz")
    case True
    show thesis
    proof (rule sizes [of nz "int (a1 + huse + 1) - int na"])
      show "rehash f t ek = resize f t nz (int (a1 + huse + 1) - int na)" using re adj(1) True by simp
      show "0 \<le> int (a1 + huse + 1) - int na" using lx [of nz] nz(1) tot by simp
      show "int (outside t nz) + (if cnt (idx_of ek) nz = 0 then 1 else 0) \<le> int (a1 + huse + 1) - int na"
        using out [OF e1, of nz] unfolding tot nz(1) .
      show "int nz + 1 \<notin> set (tidx t @ ek_idx (Some ek))" using adj(4) True by simp
      show "nz \<le> 2 * (length (live t) + 1)" using nz(3) lx [of nz] nz(1) by simp
    qed (use tot in simp)
  next
    case False
    let ?x = "nadj - nz" and ?nh = "int (a1 + huse + 1) - int na - int (nadj - nz)"
    have l30: "nadj + ?x \<le> 2 ^ 30"
    proof -
      have "length (live t) \<le> 134217728"
      proof -
        have "(2 :: nat) ^ lsizenode t \<le> 2 ^ 26" using wf by (intro power_increasing) (auto simp: wf_table_def)
        then show ?thesis using wf length_live [of t] by (simp add: wf_table_def sizenode_def)
      qed
      then show ?thesis using adj(5) nz(2) by simp
    qed
    obtain n where n: "adjustasize t (nadj + ?x) (Some ek) = Inr n" "nadj + ?x \<le> n"
      "\<And>i. int (nadj + ?x) < i \<Longrightarrow> i \<le> int n \<Longrightarrow> i \<in> set (tidx t @ ek_idx (Some ek))"
      "int n + 1 \<notin> set (tidx t @ ek_idx (Some ek))"
      using adjustasize_spec [OF wf l30, of "Some ek"] by metis
    have c2: "cnt xs (nadj + ?x) + (n - (nadj + ?x)) \<le> cnt xs n"
      by (rule cnt_interval [OF n(2)]) (rule mem [OF n(3)])
    have c3: "cnt xs nadj \<le> cnt xs (nadj + ?x)" by (rule cnt_mono) simp
    have cn: "na + ?x \<le> cnt xs n" using c1 c2 c3 by linarith
    obtain d where d: "nadj = nz + d" using adj(2) le_Suc_ex by blast
    then have x: "nadj - nz = d" by simp
    obtain e where e: "n = nadj + ?x + e" using n(2) le_Suc_ex by blast
    have split: "n = nz + 2 * d + e" "na + d \<le> cnt xs nadj" "cnt xs (nadj + ?x) + e \<le> cnt xs n"
      using c1 c2 d e by simp_all
    show thesis
    proof (rule sizes [of n ?nh])
      show "rehash f t ek = resize f t n ?nh" using re adj(1) False adj(2) n(1) by simp
      show "0 \<le> ?nh" using cn lx [of n] tot by simp
      show "int (outside t n) + (if cnt (idx_of ek) n = 0 then 1 else 0) \<le> ?nh"
        using out [OF e1, of n] cn unfolding tot by linarith
      show "int n + 1 \<notin> set (tidx t @ ek_idx (Some ek))" by (rule n(4))
      show "n \<le> 2 * (length (live t) + 1)" 
      proof -
        have "na + d + e \<le> cnt xs n" using split(2,3) c3 unfolding x by linarith
        then show ?thesis using nz(3) lx [of n] split(1) by arith
      qed
      show "?nh \<le> int (length (live t)) + 1" using tot by simp
    qed
  qed
qed

text \<open>Growing keeps the map and leaves room for the key; it fails only with an overflow.\<close>

definition roomy :: "LuaTable \<Rightarrow> bool" where
  "roomy t \<longleftrightarrow> 2 * (length (live t) + 1) \<le> MAXSIZE"

lemma resize_overflow:
  "\<not> (nasize \<le> MAXSIZE \<and> nh \<le> int MAXSIZE) \<Longrightarrow> resize f t nasize nh = Inl (RunError ''table overflow'')"
  by (auto simp: resize_def guardE_def)

lemma rehash_ok:
  assumes wf: "wf_table t" and ek: "valid_key ek" and ab: "absent t ek"
  obtains (overflow) "rehash (newkey_step g) t ek = Inl (RunError ''table overflow'')" and "\<not> roomy t"
  | (grown) t' where "rehash (newkey_step g) t ek = Inr t'" and "wf_table t'" and "same_frame t t'"
      and "\<And>k. k \<noteq> TNil \<Longrightarrow> table_at t' k = table_at t k" and "absent t' ek"
      and "int_key ek \<noteq> Some (int (sizearray t') + 1)" and "in_part t' ek \<or> used t' < capacity t'"
proof -
  have kn: "ek \<noteq> TNil" using ek by auto
  obtain n nh where s: "rehash (newkey_step g) t ek = resize (newkey_step g) t n nh" "0 \<le> nh"
    "int (outside t n) + (if cnt (idx_of ek) n = 0 then 1 else 0) \<le> nh" "int n + 1 \<notin> set (tidx t @ ek_idx (Some ek))"
    "n \<le> 2 * (length (live t) + 1)" "nh \<le> int (length (live t)) + 1"
    by (rule rehash_sizes [OF wf ek])
  show thesis
  proof (cases "n \<le> MAXSIZE \<and> nh \<le> int MAXSIZE")
    case False
    moreover from False have "\<not> roomy t" using s(5,6) by (auto simp: roomy_def)
    ultimately show thesis using overflow s(1) resize_overflow by simp
  next
    case True
    have r: "in_int32 (int n + 1)" using True by (simp add: in_int32_def)
    have b: "table_at t (TNumber (d_of_int (int n + 1))) = TNil" using s(4) in_tidx [OF wf r] by auto
    have room: "int (outside t n) \<le> nh" using s(3) by (simp split: if_splits)
    obtain t' where t': "resize (newkey_step g) t n nh = Inr t'" "wf_table t'" "sizearray t' = n" "same_frame t t'"
      "\<And>k. k \<noteq> TNil \<Longrightarrow> table_at t' k = table_at t k" "used t' \<le> outside t n" "nat nh \<le> capacity t'"
      "\<And>k. k \<noteq> TNil \<Longrightarrow> table_at t k = TNil \<Longrightarrow> absent t' k"
      by (rule resize_ok [OF wf _ s(2) _ b room, of g]) (use True in auto)
    have "int_key ek \<noteq> Some (int (sizearray t') + 1)" using s(4) t'(3) by (auto simp: ek_idx_def idx_of_def)
    moreover have "in_part t' ek \<or> used t' < capacity t'"
    proof (cases "cnt (idx_of ek) n = 0")
      case True
      then show ?thesis using s(2,3) t'(6,7) by (simp add: nat_le_iff)
    next
      case False
      then show ?thesis using t'(3) by (auto simp: cnt_def idx_of_def in_part_def split: option.splits if_splits)
    qed
    moreover have "absent t' ek" using t'(8) [OF kn] absent_table_at [OF ab] by simp
    ultimately show thesis using grown t'(1,2,4,5) s(1) by simp
  qed
qed

section \<open>Insertion as a whole\<close>

lemma absent_lastfree: "absent (t\<lparr>lastfree := l\<rparr>) k = absent t k" "table_at (t\<lparr>lastfree := l\<rparr>) k = table_at t k"
  "live (t\<lparr>lastfree := l\<rparr>) = live t" "roomy (t\<lparr>lastfree := l\<rparr>) = roomy t"
  by (simp_all add: absent_def table_at_def live_def roomy_def)

lemma grow_then_insert:
  assumes wf: "wf_table t" and k: "valid_key k" and ab: "absent t k"
  shows "(\<exists>t' s. bindE (rehash (newkey_step g) t k) (\<lambda>t. arrayornewkey (newkey_step g) t k) = Inr (t', s) \<and>
       inserted t k t' s \<and> same_frame t t') \<or>
     (\<not> roomy t \<and> bindE (rehash (newkey_step g) t k) (\<lambda>t. arrayornewkey (newkey_step g) t k) =
       Inl (RunError ''table overflow''))"
proof (rule rehash_ok [OF wf k ab, of g])
  fix t1 assume a: "rehash (newkey_step g) t k = Inr t1" "wf_table t1" "same_frame t t1"
    "\<And>k. k \<noteq> TNil \<Longrightarrow> table_at t1 k = table_at t k" "absent t1 k"
    "int_key k \<noteq> Some (int (sizearray t1) + 1)" "in_part t1 k \<or> used t1 < capacity t1"
  obtain t' s where "arrayornewkey (newkey_step g) t1 k = Inr (t', s)" "inserted t1 k t' s" "same_shape t1 t'"
    by (rule insert_with_room [OF a(2) k a(6,5,7), of g])
  then show ?thesis using a same_frame_trans [of t t1 t'] by (auto simp: inserted_def same_shape_def)
qed simp

lemma newkey_ok:
  assumes wf: "wf_table t" and k: "valid_key k" "\<not> in_part t k" and ab: "absent t k"
  shows "(\<exists>t' s. newkey t k = Inr (t', s) \<and> inserted t k t' s \<and> same_frame t t') \<or>
     (\<not> roomy t \<and> newkey t k = Inl (RunError ''table overflow''))"
proof -
  let ?f = "newkey_step (newkey_fuel 0)"
  have nk: "newkey t k = newkey_step ?f t k" 
  proof -
    have "newkey_fuel 1 = ?f" by (intro ext) simp
    then show ?thesis by (simp add: newkey_def numeral_2_eq_2)
  qed
  have new: "node_find (node t) k = None" using ab k(2) by (simp add: absent_def)
  show ?thesis
  proof (cases "int_key k = Some (int (sizearray t) + 1)")
    case True
    then have "newkey_step ?f t k = bindE (rehash ?f t k) (\<lambda>t. arrayornewkey ?f t k)"
      using numeq_succ_iff [OF wf, of k] by (simp add: newkey_step_def)
    then show ?thesis unfolding nk using grow_then_insert [OF wf k(1) ab, of "newkey_fuel 0"] by simp
  next
    case False
    show ?thesis
    proof (rule newkey_no_grow [OF wf k False new, of ?f])
      fix l ns i
      assume "newkey_step ?f t k = Inr (t\<lparr>lastfree := l, node := ns\<rparr>, SNode i)"
        "inserted t k (t\<lparr>lastfree := l, node := ns\<rparr>) (SNode i)"
      then show ?thesis unfolding nk by (auto simp: same_frame_def)
    next
      fix t1 assume a: "newkey_step ?f t k = bindE (rehash ?f t1 k) (\<lambda>t. arrayornewkey ?f t k)"
        "wf_table t1" "\<exists>l. t1 = t\<lparr>lastfree := l\<rparr>"
      then obtain l where l: "t1 = t\<lparr>lastfree := l\<rparr>" by blast
      have "absent t1 k" using ab by (simp add: l absent_lastfree)
      from grow_then_insert [OF a(2) k(1) this, of "newkey_fuel 0"] show ?thesis
        unfolding nk a(1) by (auto simp: l absent_lastfree inserted_def same_frame_def)
    qed
  qed
qed

section \<open>The size is the best one\<close>

lemma cnt_distinct: "distinct xs \<Longrightarrow> cnt xs n \<le> n"
proof -
  assume "distinct xs"
  then have "cnt xs n = card {i \<in> set xs. 1 \<le> i \<and> i \<le> int n}"
    by (simp add: cnt_def distinct_card [symmetric] del: set_filter) (simp add: distinct_card)
  also have "\<dots> \<le> card {1..int n}" by (rule card_mono) auto
  finally show ?thesis by simp
qed

definition no_better :: "int list \<Rightarrow> nat \<Rightarrow> nat \<Rightarrow> bool" where
  "no_better xs i n \<longleftrightarrow> (\<forall>j<i. n < 2 ^ j \<longrightarrow> cnt xs (2 ^ j) \<le> 2 ^ j div 2)"

lemma no_better_all:
  assumes "no_better xs i n" and "\<And>j. i \<le> j \<Longrightarrow> j \<le> MAXBITS \<Longrightarrow> cnt xs (2 ^ j) \<le> 2 ^ j div 2"
  shows "no_better xs (MAXBITS + 1) n"
  unfolding no_better_def
proof (intro allI impI)
  fix j assume "j < MAXBITS + 1" "n < 2 ^ j"
  then show "cnt xs (2 ^ j) \<le> 2 ^ j div 2" using assms by (cases "j < i") (auto simp: no_better_def)
qed

lemma half_mono: "i \<le> j \<Longrightarrow> (2 :: nat) ^ i div 2 \<le> 2 ^ j div 2"
  by (intro div_le_mono power_increasing) auto

lemma computesizes_loop_best:
  assumes "sliced nums xs" and "distinct xs" and "narray = cnt xs MAXSIZE" and "i + fuel = MAXBITS + 1"
    and "a = cnt xs (lo i)" and "no_better xs i n"
    and "computesizes_loop fuel nums narray i a na n = (na', n')"
  shows "no_better xs (MAXBITS + 1) n'"
  using assms
proof (induction fuel arbitrary: i a na n)
  case (Suc fuel)
  have i: "i \<le> MAXBITS" using Suc.prems(4) by simp
  have a: "a + nums ! i = cnt xs (2 ^ i)"
    using Suc.prems(1,5) i cnt_slice [of xs i] by (simp add: sliced_def)
  have below: "cnt xs (2 ^ j) \<le> narray" if "j \<le> MAXBITS" for j
    unfolding Suc.prems(3) by (rule cnt_mono) (use power_increasing [of j 26 "2 :: nat"] that in simp)
  obtain na1 n1 where r: "(if nums ! i > 0 \<and> a + nums ! i > 2 ^ i div 2 then (a + nums ! i, 2 ^ i) else (na, n)) = (na1, n1)"
    by (cases "if nums ! i > 0 \<and> a + nums ! i > 2 ^ i div 2 then (a + nums ! i, 2 ^ i) else (na, n)")
  have lo: "lo i \<le> 2 ^ i div 2" by (cases i) (simp_all add: lo_def)
  have b1: "no_better xs (Suc i) n1"
  proof (cases "nums ! i > 0 \<and> a + nums ! i > 2 ^ i div 2")
    case True
    then have "n1 = 2 ^ i" using r unfolding if_P [OF True] by simp
    moreover have "(2 :: nat) ^ j \<le> 2 ^ i" if "j < Suc i" for j using that by (intro power_increasing) auto
    ultimately show ?thesis by (auto simp: no_better_def not_less [symmetric])
  next
    case False
    then have n1: "n1 = n" using r unfolding if_not_P [OF False] by simp
    have "cnt xs (2 ^ i) \<le> 2 ^ i div 2"
    proof (cases "nums ! i = 0")
      case True
      then have "cnt xs (2 ^ i) = cnt xs (lo i)" using a Suc.prems(5) by simp
      then show ?thesis using cnt_distinct [OF Suc.prems(2), of "lo i"] lo by simp
    next
      case nz: False
      then show ?thesis using False unfolding a [symmetric] by simp
    qed
    then show ?thesis using Suc.prems(6) n1 by (auto simp: no_better_def less_Suc_eq)
  qed
  have step: "computesizes_loop (Suc fuel) nums narray i a na n =
      (if 2 ^ i div 2 < narray then
         if a + nums ! i = narray then (na1, n1)
         else computesizes_loop fuel nums narray (i + 1) (a + nums ! i) na1 n1
       else (na, n))"
    unfolding computesizes_loop.simps Let_def r prod.case ..
  consider "\<not> 2 ^ i div 2 < narray" | "2 ^ i div 2 < narray" "a + nums ! i = narray"
    | "2 ^ i div 2 < narray" "a + nums ! i \<noteq> narray" by blast
  then show ?case
  proof cases
    case 1
    have "cnt xs (2 ^ j) \<le> 2 ^ j div 2" if "i \<le> j" "j \<le> MAXBITS" for j
      using 1 below [OF that(2)] half_mono [OF that(1)] by linarith
    then have "no_better xs (MAXBITS + 1) n" by (rule no_better_all [OF Suc.prems(6)])
    then show ?thesis using 1 Suc.prems(7) unfolding step by simp
  next
    case 2
    have "cnt xs (2 ^ j) \<le> 2 ^ j div 2" if "i < j" "j \<le> MAXBITS" for j
    proof -
      have "cnt xs (2 ^ j) \<le> cnt xs (2 ^ i)" using below [OF that(2)] 2(2) a by simp
      also have "\<dots> \<le> 2 ^ Suc i div 2" using cnt_distinct [OF Suc.prems(2), of "2 ^ i"] by simp
      also have "\<dots> \<le> 2 ^ j div 2" using that(1) by (intro half_mono) simp
      finally show ?thesis .
    qed
    then have "no_better xs (MAXBITS + 1) n1" by (intro no_better_all [OF b1]) simp
    then show ?thesis using 2 Suc.prems(7) unfolding step by simp
  next
    case 3
    then have run: "computesizes_loop fuel nums narray (Suc i) (a + nums ! i) na1 n1 = (na', n')"
      using Suc.prems(7) unfolding step by simp
    show ?thesis by (rule Suc.IH [OF Suc.prems(1-3) _ _ b1 run]) (use Suc.prems(4) a in \<open>simp_all add: lo_le(2)\<close>)
  qed
qed simp

text \<open>\<open>computesizes\<close> picks the best size for the array: from the counts by slices of distinct integer keys it
  computes a size that is 0 or a power of two of which more than half of the slots are used, with the exact
  number of keys that go there, and no larger power of two up to \<open>MAXSIZE\<close> would be more than half used.\<close>

theorem computesizes_optimal:
  assumes "sliced nums xs" and "distinct xs" and "computesizes nums (cnt xs MAXSIZE) = (na, n)"
  shows "na = cnt xs n \<and> (if n = 0 then na = 0 else n < 2 * na \<and> n \<in> (\<lambda>j. 2 ^ j) ` {..MAXBITS}) \<and>
     list_all (\<lambda>j. \<not> (n < 2 ^ j \<and> 2 ^ j div 2 < cnt xs (2 ^ j))) [0..<MAXBITS + 1]"
proof -
  have "no_better xs (MAXBITS + 1) n"
  proof (rule computesizes_loop_best [OF assms(1,2) refl])
    show "computesizes_loop (length nums) nums (cnt xs MAXSIZE) 0 0 0 0 = (na, n)" using assms(3) by (simp add: computesizes_def)
  qed (use assms(1) in \<open>simp_all add: sliced_def lo_def no_better_def\<close>)
  then have "list_all (\<lambda>j. \<not> (n < 2 ^ j \<and> 2 ^ j div 2 < cnt xs (2 ^ j))) [0..<MAXBITS + 1]"
    unfolding list_all_iff
  proof (intro ballI notI)
    fix j assume nb: "no_better xs (MAXBITS + 1) n" and j: "j \<in> set [0..<MAXBITS + 1]" "n < 2 ^ j \<and> 2 ^ j div 2 < cnt xs (2 ^ j)"
    then have "j < MAXBITS + 1" by (simp del: upt_Suc upt_rec_numeral)
    then show False using nb j(2) unfolding no_better_def by fastforce
  qed
  then show ?thesis using computesizes_spec [OF assms(1,3)] by (auto simp: half_full_def)
qed

theorem computesizes_optimal_witness:
  "let nums = (replicate (MAXBITS + 1) 0)[0 := 1, 1 := 1, 2 := 1, 4 := 1] in
     sliced nums [1, 2, 3, 9] \<and> computesizes nums 4 = (3, 4) \<and> 3 = cnt [1, 2, 3, 9] 4"
proof -
  let ?xs = "[1, 2, 3, 9 :: int]" and ?z = "replicate (MAXBITS + 1) (0 :: nat)"
  let ?nums = "?z[0 := 1, 1 := 1, 2 := 1, 4 := 1]"
  have l: "ceillog2 1 = 0" "ceillog2 2 = 1" "ceillog2 3 = 2" "ceillog2 9 = 4"
    by (simp_all add: ceillog2_def luaO_log2_def luaO_log2_loop.simps log_2_def nth_append nth_Cons')
  have "sliced ?z []" by (simp add: sliced_def nth_replicate del: replicate.simps)
  from sliced_add [OF this, of 1] have "sliced (?z[0 := 1]) [1]" by (simp add: l)
  from sliced_add [OF this, of 2] have "sliced (?z[0 := 1, 1 := 1]) [1, 2]" by (simp add: l)
  from sliced_add [OF this, of 3] have "sliced (?z[0 := 1, 1 := 1, 2 := 1]) [1, 2, 3]" by (simp add: l)
  from sliced_add [OF this, of 9] have s: "sliced ?nums ?xs" by (simp add: l)
  have c: "cnt ?xs MAXSIZE = 4" by (simp add: cnt_def)
  have r: "computesizes ?nums 4 = (3, 4)" by code_simp
  have d: "distinct ?xs" by simp
  have "3 = cnt ?xs 4" using computesizes_optimal [OF s d, unfolded c, OF r] by (rule conjunct1)
  then show ?thesis using s r unfolding Let_def by blast
qed

end
