(* ===== verification/TableMap.thy ===== *)
theory TableMap imports TableRehash begin

text \<open>
  The interface of a table: search, assignment, resizing, length, traversal, copies. Each operation is
  stated over the abstract map \<open>table_at\<close>, and \<open>wf_table\<close> is an invariant of all of them.
\<close>

section \<open>Search and assignment\<close>

lemma table_get:
  assumes "wf_table t"
  shows "\<exists>s. luaH_get t k = Some s \<and> slot_val t s = table_at t k"
proof (cases "k = TNil")
  case True
  then show ?thesis using assms by (simp add: luaH_get_def)
next
  case False
  then show ?thesis using get_slot [OF assms] lookup_slot_val by simp
qed

text \<open>
  An assigning operation gives a slot for the key: writing a value there changes the map at that key
  and nowhere else.
\<close>

definition stores :: "LuaTable \<Rightarrow> TValue \<Rightarrow> LuaTable \<Rightarrow> slot \<Rightarrow> bool" where
  "stores t k t' s \<longleftrightarrow> slot_for t' s k \<and> wf_table t' \<and>
     (\<forall>k'. k' \<noteq> TNil \<longrightarrow> table_at t' k' = table_at t k')"

definition store_at :: "LuaTable \<Rightarrow> TValue \<Rightarrow> TValue \<Rightarrow> LuaTable \<Rightarrow> bool" where
  "store_at t k v t' \<longleftrightarrow> wf_table t' \<and>
     (\<forall>k'. k' \<noteq> TNil \<longrightarrow> table_at t' k' = (if luaO_rawequalKey k k' then v else table_at t k'))"

lemma stores_put: "stores t k t' s \<Longrightarrow> store_at t k v (slot_put t' s v)"
proof -
  assume a: "stores t k t' s"
  then have w: "wf_table t'" and f: "slot_for t' s k" by (simp_all add: stores_def)
  show ?thesis unfolding store_at_def
    using slot_put_ok [OF w f] slot_put_at [OF w f] a by (simp add: stores_def)
qed

lemma wf_tmcache: "wf_table (t\<lparr>tmcache := m\<rparr>) = wf_table t"
proof -
  have "free_ok (t\<lparr>tmcache := m\<rparr>) = free_ok t" by (simp add: free_ok_def)
  then show ?thesis by (simp add: wf_table_def sizenode_def)
qed

lemma tmcache_simps:
  "table_at (t\<lparr>tmcache := m\<rparr>) k = table_at t k" "lookup_slot (t\<lparr>tmcache := m\<rparr>) k = lookup_slot t k"
  "slot_for (t\<lparr>tmcache := m\<rparr>) s k = slot_for t s k" "absent (t\<lparr>tmcache := m\<rparr>) k = absent t k"
  "roomy (t\<lparr>tmcache := m\<rparr>) = roomy t"
  by (simp_all add: table_at_def lookup_slot_def slot_for_def absent_def roomy_def live_def split: slot.split)

text \<open>What assigning may give: the slot, or a failure for a reason that the code names.\<close>

definition assigns :: "LuaTable \<Rightarrow> TValue \<Rightarrow> lua_error + LuaTable \<times> slot \<Rightarrow> bool" where
  "assigns t k r \<longleftrightarrow>
     (case r of Inr (t', s) \<Rightarrow> stores t k t' s | Inl e \<Rightarrow> e = RunError ''table overflow'' \<and> \<not> roomy t)"

lemma found_or_assigns:
  assumes wf: "wf_table t" and k: "valid_key k" and new: "\<And>t. new t = newkey t k"
  shows "assigns t k (found_or t (Some (lookup_slot t k)) new)"
proof (cases "lookup_slot t k = SNilobject")
  case False
  then show ?thesis using lookup_slot_for [OF k, of t] wf by (simp add: found_or_def assigns_def stores_def)
next
  case True
  then have p: "\<not> in_part t k" and "node_find (node t) k = None"
    by (auto simp: lookup_slot_def node_slot_def split: if_splits option.splits)
  then have "absent t k" by (simp add: absent_def)
  from newkey_ok [OF wf k p this] show ?thesis
    by (auto simp: found_or_def assigns_def stores_def inserted_def True new)
qed

lemma newkey_valid: "valid_key k \<Longrightarrow> luaH_newkey t k = newkey t k"
  by (cases k) (simp_all add: luaH_newkey_def)

lemma luaH_set_assigns:
  assumes wf: "wf_table t" and k: "valid_key k"
  shows "assigns t k (luaH_set t k)"
proof -
  have kn: "k \<noteq> TNil" using k by auto
  have "assigns (t\<lparr>tmcache := 0\<rparr>) k (found_or (t\<lparr>tmcache := 0\<rparr>) (Some (lookup_slot (t\<lparr>tmcache := 0\<rparr>) k)) (\<lambda>t. luaH_newkey t k))"
    by (rule found_or_assigns) (use wf k newkey_valid [OF k] in \<open>simp_all add: wf_tmcache\<close>)
  then show ?thesis using get_slot [OF wf kn]
    by (simp add: luaH_set_def tmcache_simps assigns_def stores_def split: sum.splits prod.splits)
qed

lemma luaH_setnum_assigns:
  assumes wf: "wf_table t" and i: "in_int32 i"
  shows "assigns t (TNumber (d_of_int i)) (luaH_setnum t i)"
proof (cases "in_array t i")
  case True
  then have "slot_for t (SArray (nat (i - 1))) (TNumber (d_of_int i))"
    using in_array_iff [OF assms] i by (auto simp: slot_for_def)
  then show ?thesis using True wf by (simp add: luaH_setnum_def assigns_def stores_def)
next
  case False
  have "valid_key (TNumber (d_of_int i))" using i by (simp add: luai_numisnan_def)
  then show ?thesis using found_or_assigns [OF wf, of "TNumber (d_of_int i)"] False getnum_slot [OF assms]
    by (simp add: luaH_setnum_def)
qed

lemma luaH_setstr_assigns:
  assumes wf: "wf_table t"
  shows "assigns t (TString s) (luaH_setstr t s)"
proof -
  have "assigns (t\<lparr>tmcache := 0\<rparr>) (TString s)
      (found_or (t\<lparr>tmcache := 0\<rparr>) (Some (lookup_slot (t\<lparr>tmcache := 0\<rparr>) (TString s))) (\<lambda>t. newkey t (TString s)))"
    by (rule found_or_assigns) (use wf in \<open>simp_all add: wf_tmcache\<close>)
  then show ?thesis using getstr_slot [OF wf]
    by (simp add: luaH_setstr_def tmcache_simps assigns_def stores_def split: sum.splits prod.splits)
qed

lemma luaH_setp_assigns:
  assumes wf: "wf_table t"
  shows "assigns t (TLightUserdata p g) (luaH_setp t p g)"
  using found_or_assigns [OF wf, of "TLightUserdata p g"] getp_slot [OF wf] by (simp add: luaH_setp_def)

text \<open>Keys that no table accepts.\<close>

lemma newkey_invalid: "\<not> valid_key k \<Longrightarrow> \<exists>e. luaH_newkey t k = Inl (RunError e) \<and>
    e \<in> {''table index is nil'', ''table index is NaN'', ''table index contains NaN''}"
  by (cases k) (auto simp: luaH_newkey_def)

lemma luaH_set_invalid:
  assumes wf: "wf_table t" and k: "\<not> valid_key k"
  shows "\<exists>e. luaH_set t k = Inl (RunError e) \<and>
    e \<in> {''table index is nil'', ''table index is NaN'', ''table index contains NaN''}"
proof -
  have ne: "\<not> luaO_rawequalKey x k" if "x \<noteq> TNil" for x using rawequalKey_valid that k by blast
  have "luaH_get t k = Some SNilobject"
  proof (cases "k = TNil")
    case False
    have "int_key k = None"
    proof (cases "int_key k")
      case (Some i)
      then show ?thesis using ne [of "TNumber (d_of_int i)"] rawequal_int_key rawequalKey_sym int_key_range by blast
    qed simp
    then have "\<not> in_part t k" by (simp add: in_part_def)
    moreover have "node_find (node t) k = None"
      unfolding node_find_None using ne False rawequalKey_TNil(1) by metis
    ultimately show ?thesis using get_slot [OF wf False] by (simp add: lookup_slot_def node_slot_def)
  qed (simp add: luaH_get_def)
  then show ?thesis using newkey_invalid [OF k] by (simp add: luaH_set_def found_or_def)
qed

section \<open>Resizing\<close>

lemma succ_absent:
  assumes "wf_table t"
  shows "table_at t (TNumber (d_of_int (int (sizearray t) + 1))) = TNil"
proof -
  have r: "in_int32 (int (sizearray t) + 1)" using assms by (simp add: wf_table_def in_int32_def)
  have "node_find (node t) (TNumber (d_of_int (int (sizearray t) + 1))) = None"
  proof (rule ccontr)
    assume "node_find (node t) (TNumber (d_of_int (int (sizearray t) + 1))) \<noteq> None"
    then obtain i where i: "node_find (node t) (TNumber (d_of_int (int (sizearray t) + 1))) = Some i" by blast
    then have "keyed (node t) i" "int_key (gkey (node t ! i)) = Some (int (sizearray t) + 1)"
      using node_find_Some [OF i] rawequal_int_key [OF r] by (auto simp: keyed_def int_key_def)
    then show False using assms by (auto simp: wf_table_def)
  qed
  then show ?thesis using r by (simp add: table_at_def in_part_def node_val_def)
qed

lemma outside_grown: "wf_table t \<Longrightarrow> sizearray t \<le> n \<Longrightarrow> outside t n \<le> length (old_nodes (node t))"
  using outside_split [of t "t\<lparr>array := replicate n TNil\<rparr>" n] by (simp add: vanishing_def)

lemma old_nodes_le: "wf_table t \<Longrightarrow> length (old_nodes (node t)) \<le> capacity t"
proof -
  assume wf: "wf_table t"
  show ?thesis
  proof (cases "node_dummy t")
    case True
    then have "node t = [luaH_dummynode]" using wf by (simp add: wf_table_def)
    then show ?thesis by (simp add: old_nodes_def luaH_dummynode_def)
  next
    case False
    have "length (old_nodes (node t)) \<le> length (map (\<lambda>n. (gkey n, gval n)) (rev (node t)))"
      unfolding old_nodes_def by (rule length_filter_le)
    then show ?thesis using False by (simp add: capacity_def)
  qed
qed

definition same_map :: "LuaTable \<Rightarrow> LuaTable \<Rightarrow> bool" where
  "same_map t t' \<longleftrightarrow> wf_table t' \<and> (\<forall>k. k \<noteq> TNil \<longrightarrow> table_at t' k = table_at t k)"

lemma newkey_is_step: "newkey = newkey_step (newkey_fuel 1)"
  by (intro ext) (simp add: newkey_def numeral_2_eq_2)

lemma luaH_resizearray_ok:
  assumes wf: "wf_table t" and n: "sizearray t \<le> n" "n \<le> 2 ^ 30"
  shows "case luaH_resizearray t n of
      Inr t' \<Rightarrow> same_map t t' \<and> same_frame t t' \<and> n \<le> sizearray t'
    | Inl e \<Rightarrow> e = RunError ''table overflow'' \<and> MAXSIZE < n + length (live t) + 1"
proof -
  let ?nh = "if node_dummy t then 0 else int (sizenode t)"
  obtain m where m: "adjustasize t n None = Inr m" "n \<le> m" "m \<le> n + length (live t) + 1"
    "int m + 1 \<notin> set (tidx t @ ek_idx None)" by (rule adjustasize_spec [OF wf n(2), of None])
  have nh: "0 \<le> ?nh" "?nh \<le> int MAXSIZE" "?nh = int (capacity t)"
  proof -
    have "(2 :: nat) ^ lsizenode t \<le> 2 ^ 26" using wf by (intro power_increasing) (auto simp: wf_table_def)
    then have "int (sizenode t) \<le> int (2 ^ 26)" by (simp only: sizenode_def of_nat_le_iff)
    then show "?nh \<le> int MAXSIZE" by simp
    show "?nh = int (capacity t)" using wf by (simp add: capacity_def wf_table_def)
  qed simp
  have re: "luaH_resizearray t n = resize (newkey_step (newkey_fuel 1)) t m ?nh"
    by (simp add: luaH_resizearray_def m(1) newkey_is_step)
  show ?thesis
  proof (cases "m \<le> MAXSIZE")
    case False
    then have "luaH_resizearray t n = Inl (RunError ''table overflow'')" unfolding re by (intro resize_overflow) simp
    then show ?thesis using False m(3) by simp
  next
    case True
    have r: "in_int32 (int m + 1)" using True by (simp add: in_int32_def)
    have b: "table_at t (TNumber (d_of_int (int m + 1))) = TNil" using m(4) in_tidx [OF wf r] by auto
    have room: "int (outside t m) \<le> ?nh"
      using outside_grown [OF wf, of m] old_nodes_le [OF wf] n(1) m(2) unfolding nh(3) by simp
    show ?thesis
      by (rule resize_ok [OF wf True nh(1,2) b room, of "newkey_fuel 1"]) (use m(2) re in \<open>simp add: same_map_def\<close>)
  qed
qed

text \<open>
  For any size of the C type: the resize fails only past \<open>MAXSIZE\<close>, with the error of the resize, or with
  the overflow of the next index when every index above the size is present.
\<close>

definition full_above :: "LuaTable \<Rightarrow> int \<Rightarrow> bool" where
  "full_above t n \<longleftrightarrow> (\<forall>i. n < i \<and> i \<le> INT_MAX \<longrightarrow> table_at t (TNumber (d_of_int i)) \<noteq> TNil)"

lemma full_above_max [simp]: "full_above t INT_MAX"
  by (auto simp: full_above_def)

lemma luaH_resizearray_all:
  assumes wf: "wf_table t" and n: "sizearray t \<le> n" "int n \<le> INT_MAX"
  shows "case luaH_resizearray t n of
      Inr t' \<Rightarrow> same_map t t' \<and> same_frame t t' \<and> n \<le> sizearray t'
    | Inl e \<Rightarrow> MAXSIZE < n + length (live t) + 1 \<and>
        e = (if full_above t (int n) then Undefined ''signed overflow'' else RunError ''table overflow'')"
proof (cases "n \<le> 2 ^ 30")
  case True
  obtain m where "adjustasize t n None = Inr m" by (rule adjustasize_spec [OF wf True, of None])
  then have "\<not> full_above t (int n)"
    using adjustasize_any [OF wf n(2)] by (auto simp: full_above_def split: if_splits)
  then show ?thesis using luaH_resizearray_ok [OF wf n(1) True] by (simp split: sum.splits)
next
  case False
  let ?nh = "if node_dummy t then 0 else int (sizenode t)"
  show ?thesis
  proof (cases "full_above t (int n)")
    case True
    then show ?thesis using adjustasize_any [OF wf n(2)] False by (simp add: luaH_resizearray_def full_above_def)
  next
    case nf: False
    then obtain m where m: "adjustasize t n None = Inr m" "n \<le> m"
      using adjustasize_any [OF wf n(2)] by (auto simp: full_above_def split: if_splits)
    then show ?thesis using resize_overflow [of m ?nh newkey t] False nf by (simp add: luaH_resizearray_def)
  qed
qed

lemma luaH_resizehash_ok:
  assumes wf: "wf_table t" and nh: "int (length (old_nodes (node t))) \<le> nh" "nh \<le> int MAXSIZE"
  shows "\<exists>t'. luaH_resizehash t nh = Inr t' \<and> same_map t t' \<and> same_frame t t' \<and> sizearray t' = sizearray t"
proof -
  have n: "sizearray t \<le> MAXSIZE" and "0 \<le> nh" using wf nh by (simp_all add: wf_table_def)
  have room: "int (outside t (sizearray t)) \<le> nh" using outside_grown [OF wf order_refl] nh(1) by simp
  show ?thesis
    by (rule resize_ok [OF wf n \<open>0 \<le> nh\<close> nh(2) succ_absent [OF wf] room, of "newkey_fuel 1"])
      (simp add: luaH_resizehash_def newkey_is_step same_map_def)
qed

section \<open>Length\<close>

text \<open>A border: the element is there, the next one is not.\<close>

definition elem :: "LuaTable \<Rightarrow> nat \<Rightarrow> TValue" where
  "elem t n = table_at t (TNumber (d_of_int (int n)))"

definition border :: "LuaTable \<Rightarrow> nat \<Rightarrow> bool" where
  "border t n \<longleftrightarrow> (n = 0 \<or> elem t n \<noteq> TNil) \<and> elem t (n + 1) = TNil"

lemma elem_array: "wf_table t \<Longrightarrow> i < sizearray t \<Longrightarrow> elem t (Suc i) = array t ! i"
proof -
  assume wf: "wf_table t" and i: "i < sizearray t"
  then have "in_int32 (int i + 1)" using size32 [OF wf, of i] by simp
  then have k: "int_key (TNumber (d_of_int (int i + 1))) = Some (int i + 1)" by simp
  then have "in_part t (TNumber (d_of_int (int i + 1)))" using i by (simp add: in_part_def)
  then show ?thesis using k by (simp add: elem_def table_at_def add.commute)
qed

lemma border_array: "wf_table t \<Longrightarrow> n < sizearray t \<Longrightarrow> n = 0 \<or> array t ! (n - 1) \<noteq> TNil \<Longrightarrow> array t ! n = TNil \<Longrightarrow> border t n"
  using elem_array [of t n] elem_array [of t "n - 1"] by (cases n) (auto simp: border_def)

lemma border_end: "wf_table t \<Longrightarrow> sizearray t = 0 \<or> array t ! (sizearray t - 1) \<noteq> TNil \<Longrightarrow> border t (sizearray t)"
  using elem_array [of t "sizearray t - 1"] succ_absent [of t]
  by (cases "sizearray t") (auto simp: border_def elem_def add.commute)

lemma getn_search_border:
  assumes "0 < rest" and "base + rest \<le> length a" and "base = 0 \<or> a ! base \<noteq> TNil"
    and "a ! (base + rest - 1) = TNil \<or> (base + rest < length a \<and> a ! (base + rest) = TNil)"
  shows "getn_search a base rest < length a \<and>
     (getn_search a base rest = 0 \<or> a ! (getn_search a base rest - 1) \<noteq> TNil) \<and> a ! getn_search a base rest = TNil"
  using assms
proof (induction a base rest rule: getn_search.induct)
  case (1 a base rest)
  show ?case
  proof (cases "rest div 2 = 0")
    case True
    then have r: "rest = 1" using 1(2) by simp
    have "getn_search a base rest = (if a ! base \<noteq> TNil then 1 else 0) + base"
      by (subst getn_search.simps) (simp add: True)
    then show ?thesis using 1(3-) r by auto
  next
    case False
    let ?h = "rest div 2" and ?b = "if a ! (base + rest div 2) = TNil then base else base + rest div 2"
    have e: "getn_search a base rest = getn_search a ?b (rest - ?h)" using False by (simp add: getn_search.simps [of a base rest])
    have p: "0 < rest - ?h" "?b + (rest - ?h) \<le> length a" "?b = 0 \<or> a ! ?b \<noteq> TNil" using 1(3,4) False by auto
    have q: "a ! (?b + (rest - ?h) - 1) = TNil \<or> (?b + (rest - ?h) < length a \<and> a ! (?b + (rest - ?h)) = TNil)"
    proof (cases "a ! (base + ?h) = TNil")
      case True
      have "base + (rest - ?h) = base + ?h \<or> base + (rest - ?h) - 1 = base + ?h" using False by (cases "even rest") auto
      then show ?thesis using True 1(2,3) False by auto
    next
      case nn: False
      then have "?b + (rest - ?h) = base + rest" using False by simp
      then show ?thesis using 1(5) by simp
    qed
    show ?thesis unfolding e using 1(1) [OF False p q] .
  qed
qed

lemma maybesetaboundary_same:
  "array (maybesetaboundary t b) = array t" "node (maybesetaboundary t b) = node t"
  "table_at (maybesetaboundary t b) k = table_at t k" "same_frame t (maybesetaboundary t b)"
  "node_dummy (maybesetaboundary t b) = node_dummy t" "lsizenode (maybesetaboundary t b) = lsizenode t"
  "tmcache (maybesetaboundary t b) = tmcache t" "readonly (maybesetaboundary t b) = readonly t"
  "metatable (maybesetaboundary t b) = metatable t"
  by (simp_all add: maybesetaboundary_def table_at_def same_frame_def)

lemma maybesetaboundary_wf:
  assumes wf: "wf_table t" and b: "0 \<le> b" "b \<le> int (sizearray t)"
  shows "wf_table (maybesetaboundary t b)"
proof (cases "aboundary t \<le> 0")
  case True
  have "free_ok t" using wf by (simp add: wf_table_def)
  then have "free_ok (t\<lparr>lastfree := - b\<rparr>)" using True b by (auto simp: free_ok_def)
  then show ?thesis using True by (simp add: maybesetaboundary_def wf_table_cong [OF wf])
qed (simp add: maybesetaboundary_def wf)

lemma luaH_getn_search_ok:
  assumes wf: "wf_table t"
  shows "border t (snd (luaH_getn_search t)) \<and> same_map t (fst (luaH_getn_search t)) \<and> snd (luaH_getn_search t) \<le> sizearray t"
proof (cases "sizearray t > 0 \<and> array t ! (sizearray t - 1) = TNil")
  case True
  let ?b = "getn_search (array t) 0 (sizearray t)"
  have s: "?b < sizearray t" "?b = 0 \<or> array t ! (?b - 1) \<noteq> TNil" "array t ! ?b = TNil"
    using getn_search_border [of "sizearray t" 0 "array t"] True by auto
  have "luaH_getn_search t = (maybesetaboundary t (int ?b), ?b)" using True by (simp add: luaH_getn_search_def Let_def)
  then show ?thesis using border_array [OF wf s] maybesetaboundary_wf [OF wf, of "int ?b"] s(1) maybesetaboundary_same(3)
    by (simp add: same_map_def)
next
  case False
  then have "border t (sizearray t)" by (intro border_end [OF wf]) auto
  moreover have "luaH_getn_search t = (t, sizearray t)"
    by (simp only: luaH_getn_search_def Let_def if_not_P [OF False])
  ultimately show ?thesis using wf by (simp add: same_map_def)
qed

lemma updateaboundary_ok:
  assumes wf: "wf_table t" and b: "0 < b"
  shows "same_map t (fst (updateaboundary t b)) \<and>
     (0 < snd (updateaboundary t b) \<longrightarrow> border t (snd (updateaboundary t b)) \<and> snd (updateaboundary t b) \<le> sizearray t)"
proof -
  consider (down) "b < sizearray t" "array t ! (b - 1) = TNil" "b \<ge> 2" "array t ! (b - 2) \<noteq> TNil"
    | (up) "\<not> (b < sizearray t \<and> array t ! (b - 1) = TNil)" "b + 1 < sizearray t" "array t ! b \<noteq> TNil" "array t ! (b + 1) = TNil"
    | (no) "\<not> (b < sizearray t \<and> array t ! (b - 1) = TNil \<and> b \<ge> 2 \<and> array t ! (b - 2) \<noteq> TNil)"
      "(b < sizearray t \<and> array t ! (b - 1) = TNil) \<or> \<not> (b + 1 < sizearray t \<and> array t ! b \<noteq> TNil \<and> array t ! (b + 1) = TNil)"
    by blast
  then show ?thesis
  proof cases
    case down
    then have "border t (b - 1)" by (intro border_array [OF wf]) (auto simp: numeral_2_eq_2)
    moreover have "int b - 1 = int (b - 1)" using b by simp
    ultimately show ?thesis
      using down maybesetaboundary_wf [OF wf, of "int (b - 1)"] maybesetaboundary_same(3)
      by (simp add: updateaboundary_def same_map_def)
  next
    case up
    then have "border t (b + 1)" by (intro border_array [OF wf]) auto
    then show ?thesis using up maybesetaboundary_wf [OF wf, of "int b + 1"] maybesetaboundary_same(3)
      by (auto simp: updateaboundary_def same_map_def)
  next
    case no
    then have "updateaboundary t b = (t, 0)" unfolding updateaboundary_def by metis
    then show ?thesis using wf by (simp add: same_map_def)
  qed
qed

lemma border_same_map: "same_map t t' \<Longrightarrow> border t' n = border t n"
  by (simp add: same_map_def border_def elem_def)

lemma luaH_getn_ok:
  assumes wf: "wf_table t"
  shows "border t (snd (luaH_getn t)) \<and> same_map t (fst (luaH_getn t))"
proof (cases "getaboundary t > 0")
  case False
  then show ?thesis using luaH_getn_search_ok [OF wf] by (simp add: luaH_getn_def Let_def)
next
  case True
  let ?b = "getaboundary t"
  have f: "free_ok t" using wf by (simp add: wf_table_def)
  have size: "sizearray t > 0" using True f by (auto simp: getaboundary_def free_ok_def split: if_splits)
  consider (last) "array t ! (sizearray t - 1) \<noteq> TNil" "node_dummy t"
    | (here) "\<not> (array t ! (sizearray t - 1) \<noteq> TNil \<and> node_dummy t)" "?b < sizearray t" "array t ! (?b - 1) \<noteq> TNil" "array t ! ?b = TNil"
    | (near) "\<not> (array t ! (sizearray t - 1) \<noteq> TNil \<and> node_dummy t)"
      "\<not> (?b < sizearray t \<and> array t ! (?b - 1) \<noteq> TNil \<and> array t ! ?b = TNil)"
    by blast
  then show ?thesis
  proof cases
    case last
    then show ?thesis using True border_end [OF wf] wf by (simp add: luaH_getn_def Let_def same_map_def)
  next
    case here
    then show ?thesis using True border_array [OF wf here(2)] wf by (auto simp: luaH_getn_def Let_def same_map_def)
  next
    case near
    have near: "luaH_getn t = (let (t, fb) = updateaboundary t ?b in if fb > 0 then (t, fb) else luaH_getn_search t)"
      unfolding luaH_getn_def Let_def if_P [OF True] if_not_P [OF near(1)] if_not_P [OF near(2)] ..
    obtain t' fb where u: "updateaboundary t ?b = (t', fb)" by (cases "updateaboundary t ?b")
    note o = updateaboundary_ok [OF wf True, unfolded u, simplified]
    show ?thesis
    proof (cases "fb > 0")
      case True
      then show ?thesis using near u o by simp
    next
      case False
      have w: "wf_table t'" using o by (simp add: same_map_def)
      have "luaH_getn t = luaH_getn_search t'" using near u False by simp
      then show ?thesis using luaH_getn_search_ok [OF w] o border_same_map [of t t'] by (auto simp: same_map_def)
    qed
  qed
qed

section \<open>Traversal\<close>

text \<open>The entry at a position of the traversal: the array, then the nodes.\<close>

definition entry :: "LuaTable \<Rightarrow> nat \<Rightarrow> TValue \<times> TValue" where
  "entry t p = (if p < sizearray t then (TNumber (d_of_int (int p + 1)), array t ! p)
     else (gkey (node t ! (p - sizearray t)), gval (node t ! (p - sizearray t))))"

definition positions :: "LuaTable \<Rightarrow> nat" where
  "positions t = sizearray t + length (node t)"

definition isvalue :: "TValue \<times> TValue \<Rightarrow> bool" where
  "isvalue kv \<longleftrightarrow> snd kv \<noteq> TNil"

lemma isvalue_simp: "isvalue (k, v) \<longleftrightarrow> v \<noteq> TNil"
  by (simp add: isvalue_def)

lemma next_array_find: "i + n \<le> sizearray t \<Longrightarrow>
    next_array (array t) n i = find isvalue (map (entry t) [i..<i + n])"
proof (induction n arbitrary: i)
  case (Suc n)
  then have "next_array (array t) n (Suc i) = find isvalue (map (entry t) [Suc i..<Suc i + n])" by simp
  moreover have "[i..<i + Suc n] = i # [Suc i..<Suc i + n]" by (simp add: upt_conv_Cons del: upt_Suc)
  moreover have "entry t i = (TNumber (d_of_int (int i + 1)), array t ! i)" using Suc.prems by (simp add: entry_def)
  ultimately show ?case by (simp add: isvalue_simp del: upt_Suc)
qed simp

lemma next_node_find: "next_node (node t) n i = find isvalue (map (entry t) [sizearray t + i..<sizearray t + i + n])"
proof (induction n arbitrary: i)
  case (Suc n)
  have "next_node (node t) n (Suc i) = find isvalue (map (entry t) [sizearray t + Suc i..<sizearray t + Suc i + n])" by (rule Suc)
  moreover have "[sizearray t + i..<sizearray t + i + Suc n] = (sizearray t + i) # [sizearray t + Suc i..<sizearray t + Suc i + n]"
    by (simp add: upt_conv_Cons del: upt_Suc)
  moreover have "entry t (sizearray t + i) = (gkey (node t ! i), gval (node t ! i))" by (simp add: entry_def)
  ultimately show ?case by (simp add: isvalue_simp del: upt_Suc)
qed simp

text \<open>\<open>luaH_next\<close> gives the first entry with a value at or after a position.\<close>

lemma luaH_next_find:
  assumes wf: "wf_table t" and i: "findindex t key = Inr (int p - 1)" and p: "p \<le> positions t"
  shows "luaH_next t key = Inr (find isvalue (map (entry t) [p..<positions t]))"
proof -
  let ?n = "sizearray t"
  have len: "length (node t) = sizenode t" using wf by (simp add: wf_table_def)
  have u: "luaH_next t key = (case next_array (array t) (?n - p) p of
      Some r \<Rightarrow> Inr (Some r)
    | None \<Rightarrow> Inr (next_node (node t) (sizenode t - (max p ?n - ?n)) (max p ?n - ?n)))"
    unfolding luaH_next_def i
    by (cases "next_array (array t) (?n - p) p") (simp_all add: Let_def)
  show ?thesis
  proof (cases "p \<le> ?n")
    case True
    then have "[p..<positions t] = [p..<p + (?n - p)] @ [?n..<?n + length (node t)]"
      using upt_add_eq_append [of p ?n "length (node t)"] by (simp add: positions_def)
    then show ?thesis using True next_array_find [of p "?n - p" t] next_node_find [of t "sizenode t" 0]
      unfolding u by (simp add: len max_def find_append split: option.split)
  next
    case False
    then have m: "max p ?n - ?n = p - ?n" "?n - p = 0" "?n + (p - ?n) = p" "p + (sizenode t - (p - ?n)) = positions t"
      using p by (simp_all add: positions_def len)
    show ?thesis using next_node_find [of t "sizenode t - (p - ?n)" "p - ?n"]
      unfolding u m by (simp add: m)
  qed
qed

text \<open>The key of an entry leads back to its position.\<close>

lemma findindex_entry:
  assumes wf: "wf_table t" and p: "p < positions t" and v: "isvalue (entry t p)"
  shows "findindex t (fst (entry t p)) = Inr (int p)"
proof (cases "p < sizearray t")
  case True
  then have "in_int32 (int p + 1)" using size32 [OF wf, of p] by simp
  then have "arrayindex (d_of_int (int p + 1)) = int p + 1" by (simp add: arrayindex_key)
  then show ?thesis using True by (simp add: findindex_def entry_def Let_def)
next
  case False
  let ?i = "p - sizearray t" and ?k = "gkey (node t ! (p - sizearray t))"
  have i: "?i < length (node t)" using p False by (simp add: positions_def)
  have "gval (node t ! ?i) \<noteq> TNil" using v False by (simp add: isvalue_def entry_def)
  then have "(?k, gval (node t ! ?i)) \<in> set (old_nodes (node t))" using i by (auto simp: in_old_nodes)
  from node_key [OF wf this] have k: "valid_key ?k" "\<not> in_part t ?k" by auto
  then have kn: "?k \<noteq> TNil" by auto
  have "node_find (node t) ?k = Some ?i" by (rule node_find_eq [OF wf_nodes(2) [OF wf] i _ kn]) (simp add: k)
  then have g: "luaH_get_generic t ?k = Some (SNode ?i)" using get_generic_slot [OF wf kn] by (simp add: node_slot_def)
  have "\<not> (0 < j \<and> j \<le> int (sizearray t))" if "j = (case ?k of TNumber d \<Rightarrow> arrayindex d | _ \<Rightarrow> -1)" for j
    using that k(2) by (auto simp: arrayindex_key in_part_def split: TValue.splits option.splits)
  then have "findindex t ?k = Inr (int ?i + int (sizearray t))"
    unfolding findindex_def Let_def using kn g by simp
  then show ?thesis using False by (simp add: entry_def)
qed

text \<open>The loop \<open>for k, v in next, t\<close>, and what it must visit.\<close>

fun traverse :: "nat \<Rightarrow> LuaTable \<Rightarrow> TValue \<Rightarrow> lua_error + (TValue \<times> TValue) list" where
  "traverse 0 t key = Inl (Undefined ''fuel'')"
| "traverse (Suc fuel) t key =
     bindE (luaH_next t key) (\<lambda>r. case r of
       None \<Rightarrow> Inr []
     | Some kv \<Rightarrow> bindE (traverse fuel t (fst kv)) (\<lambda>kvs. Inr (kv # kvs)))"

definition all_entries :: "LuaTable \<Rightarrow> (TValue \<times> TValue) list" where
  "all_entries t = filter isvalue (map (entry t) [0..<positions t])"

lemma find_upt_split:
  "find P (map f [p..<n]) = Some x \<Longrightarrow> \<exists>q. p \<le> q \<and> q < n \<and> x = f q \<and> P (f q) \<and>
     filter P (map f [p..<n]) = f q # filter P (map f [q + 1..<n])"
proof (induction "n - p" arbitrary: p)
  case (Suc m)
  then have c: "[p..<n] = p # [Suc p..<n]" and pn: "p < n" by (simp_all add: upt_conv_Cons)
  show ?case
  proof (cases "P (f p)")
    case True
    then show ?thesis using Suc.prems c pn by (intro exI [of _ p]) auto
  next
    case False
    then have "find P (map f [Suc p..<n]) = Some x" using Suc.prems c by simp
    moreover have "m = n - Suc p" using Suc.hyps(2) by simp
    ultimately obtain q where
      "Suc p \<le> q \<and> q < n \<and> x = f q \<and> P (f q) \<and> filter P (map f [Suc p..<n]) = f q # filter P (map f [q + 1..<n])"
      using Suc.hyps(1) [of "Suc p"] by auto
    then show ?thesis using c False by (intro exI [of _ q]) auto
  qed
qed simp

lemma traverse_from:
  assumes wf: "wf_table t"
  shows "findindex t key = Inr (int p - 1) \<Longrightarrow> p \<le> positions t \<Longrightarrow>
    length (filter isvalue (map (entry t) [p..<positions t])) < fuel \<Longrightarrow>
    traverse fuel t key = Inr (filter isvalue (map (entry t) [p..<positions t]))"
proof (induction fuel arbitrary: key p)
  case (Suc fuel)
  note n = luaH_next_find [OF wf Suc.prems(1,2)]
  show ?case
  proof (cases "find isvalue (map (entry t) [p..<positions t])")
    case None
    then have "filter isvalue (map (entry t) [p..<positions t]) = []" by (auto simp: find_None_iff filter_empty_conv)
    then show ?thesis using n None by simp
  next
    case (Some kv)
    from find_upt_split [OF Some] obtain q where q: "p \<le> q" "q < positions t" "kv = entry t q" "isvalue (entry t q)"
      "filter isvalue (map (entry t) [p..<positions t]) = entry t q # filter isvalue (map (entry t) [q + 1..<positions t])" by blast
    have "findindex t (fst kv) = Inr (int (q + 1) - 1)" using findindex_entry [OF wf q(2,4)] q(3) by simp
    from Suc.IH [OF this] show ?thesis using n Some q Suc.prems(3) by simp
  qed
qed simp

lemma traverse_all:
  assumes "wf_table t"
  shows "traverse (length (all_entries t) + 1) t TNil = Inr (all_entries t)"
  using traverse_from [OF assms, of TNil 0 "length (all_entries t) + 1"] by (simp add: findindex_def all_entries_def)

lemma all_entries_live:
  assumes "wf_table t"
  shows "set (all_entries t) = set (live t)"
proof -
  have "(k, v) \<in> set (all_entries t) \<longleftrightarrow> (k, v) \<in> set (live t)" for k v
  proof -
    have "(k, v) \<in> set (all_entries t) \<longleftrightarrow> (\<exists>p < positions t. (k, v) = entry t p \<and> v \<noteq> TNil)"
      by (auto simp: all_entries_def isvalue_def)
    also have "\<dots> \<longleftrightarrow> (\<exists>p < sizearray t. (k, v) = entry t p \<and> v \<noteq> TNil) \<or> (\<exists>i<length (node t). (k, v) = entry t (sizearray t + i) \<and> v \<noteq> TNil)"
    proof -
      have "(\<exists>p < positions t. P p) \<longleftrightarrow> (\<exists>p < sizearray t. P p) \<or> (\<exists>i<length (node t). P (sizearray t + i))" for P
      proof
        assume "\<exists>p < positions t. P p"
        then obtain p where p: "p < positions t" "P p" by blast
        show "(\<exists>p < sizearray t. P p) \<or> (\<exists>i<length (node t). P (sizearray t + i))"
        proof (cases "p < sizearray t")
          case False
          then have "p - sizearray t < length (node t)" "sizearray t + (p - sizearray t) = p" using p(1) by (simp_all add: positions_def)
          then show ?thesis using p(2) by metis
        qed (use p in blast)
      qed (unfold positions_def, metis nat_add_left_cancel_less trans_less_add1)
      then show ?thesis .
    qed
    also have "\<dots> \<longleftrightarrow> (k, v) \<in> set (live t)"
      by (auto simp: entry_def live_def in_vanishing in_old_nodes)
    finally show ?thesis .
  qed
  then show ?thesis by auto
qed

section \<open>Copies\<close>

lemma luaH_clone_ok:
  assumes wf: "wf_table t"
  shows "same_map t (luaH_clone t) \<and> metatable (luaH_clone t) = metatable t \<and> tmcache (luaH_clone t) = tmcache t \<and>
     \<not> readonly (luaH_clone t)"
proof -
  let ?c = "luaH_clone t"
  have c: "array ?c = array t" "node ?c = node t" "node_dummy ?c = node_dummy t" "lsizenode ?c = lsizenode t"
    "metatable ?c = metatable t" "tmcache ?c = tmcache t" "\<not> readonly ?c"
    using wf by (auto simp: luaH_clone_def Let_def maybesetaboundary_def wf_table_def)
  have f: "free_ok t" using wf by (simp add: wf_table_def)
  have "free_ok ?c"
  proof (cases "node_dummy t")
    case True
    have "lastfree ?c = (if sizearray t \<noteq> 0 then - int (getaboundary t) else 0)"
      using True by (simp add: luaH_clone_def Let_def maybesetaboundary_def)
    moreover have "int (getaboundary t) \<le> int (sizearray t)" using f by (auto simp: getaboundary_def free_ok_def)
    ultimately show ?thesis using True c by (simp add: free_ok_def)
  next
    case False
    then have "lastfree ?c = lastfree t" by (simp add: luaH_clone_def Let_def)
    then show ?thesis using f c by (simp add: free_ok_def)
  qed
  then have "wf_table ?c" by (intro wf_table_cong [OF wf]) (simp_all add: c)
  moreover have "table_at ?c k = table_at t k" for k
    using in_part_cong [of ?c t] by (simp add: c table_at_def)
  ultimately show ?thesis using c by (simp add: same_map_def)
qed

lemma luaH_clear_ok:
  assumes wf: "wf_table t"
  shows "wf_table (luaH_clear t) \<and> (\<forall>k. table_at (luaH_clear t) k = TNil) \<and> sizearray (luaH_clear t) = sizearray t"
proof -
  let ?c = "luaH_clear t"
  note M = maybesetaboundary_same
  have c: "array ?c = replicate (sizearray t) TNil" "node_dummy ?c = node_dummy t" "lsizenode ?c = lsizenode t"
    "node ?c = (if node_dummy t then node t else replicate (sizenode t) luaH_dummynode)"
    by (simp_all add: luaH_clear_def Let_def M sizenode_def luaH_dummynode_def)
  have d: "node_dummy t \<longrightarrow> node t = [luaH_dummynode] \<and> lsizenode t = 0" using wf by (simp add: wf_table_def)
  have n: "node ?c ! i = luaH_dummynode" if "i < length (node ?c)" for i
    using that d by (cases "node_dummy t") (auto simp: c)
  have nk: "\<not> keyed (node ?c) i" for i using n by (simp add: keyed_def luaH_dummynode_def)
  have len: "length (node ?c) = sizenode ?c" "node_dummy t \<longrightarrow> node ?c = [luaH_dummynode] \<and> lsizenode t = 0"
    using d by (auto simp: c sizenode_def)
  have f: "free_ok t" "length (node t) = sizenode t" using wf by (simp_all add: wf_table_def)
  have "free_ok ?c"
    using f by (auto simp: free_ok_def luaH_clear_def Let_def maybesetaboundary_def sizenode_def)
  moreover have "nodes_ok (mainposition ?c) (node ?c)" by (rule wf_empty_nodes) (rule n)
  ultimately have "wf_table ?c" using wf c len nk by (simp add: wf_table_def)
  moreover have "table_at ?c k = TNil" for k
  proof (cases "in_part ?c k")
    case True
    then show ?thesis by (auto simp: table_at_def c in_part_def nat_less_iff split: option.splits)
  next
    case False
    have "gval (node ?c ! i) = TNil" if "node_find (node ?c) k = Some i" for i
      using node_find_Some [OF that] n by (simp add: luaH_dummynode_def)
    then show ?thesis using False by (auto simp: table_at_def node_val_def split: option.split)
  qed
  ultimately show ?thesis by (simp add: c)
qed

lemma luaH_new_ok:
  assumes "narray \<le> MAXSIZE" and "nhash \<le> MAXSIZE"
  shows "\<exists>t. luaH_new narray nhash = Inr t \<and> wf_table t \<and> (\<forall>k. k \<noteq> TNil \<longrightarrow> table_at t k = TNil)"
proof -
  define t0 where "t0 = \<lparr>array = [], node = [luaH_dummynode], node_dummy = True, lsizenode = 0, lastfree = 0,
     tmcache = NOT 0, readonly = False, safeenv = False, metatable = None\<rparr>"
  have nh: "0 \<le> int nhash" "int nhash \<le> int MAXSIZE" using assms(2) by simp_all
  have a: "(if narray > 0 then setarrayvector t0 narray else Inr t0) = Inr (t0\<lparr>array := replicate narray TNil\<rparr>)"
    using assms(1) by (cases narray) (simp_all add: setarrayvector_def t0_def)
  have "(if nhash > 0 then setnodevector (t0\<lparr>array := r\<rparr>) (int nhash) else Inr (t0\<lparr>array := r\<rparr>)) =
      setnodevector (t0\<lparr>array := r\<rparr>) (int nhash)" for r
    by (cases nhash) (simp_all add: setnodevector_def t0_def)
  from this [unfolded setnodevector_fresh [OF nh, where t = t0 and nasize = narray]]
  have b: "(if nhash > 0 then setnodevector (t0\<lparr>array := r\<rparr>) (int nhash) else Inr (t0\<lparr>array := r\<rparr>)) =
      Inr (fresh t0 narray (int nhash)\<lparr>array := r\<rparr>)" for r
    unfolding setnodevector_fresh [OF nh, where t = t0 and nasize = narray] .
  have "array (fresh t0 narray (int nhash)) = replicate narray TNil" by (simp add: fresh_def Let_def t0_def)
  then have c: "fresh t0 narray (int nhash)\<lparr>array := replicate narray TNil\<rparr> = fresh t0 narray (int nhash)" by simp
  have "luaH_new narray nhash = Inr (fresh t0 narray (int nhash))"
    unfolding luaH_new_def Let_def t0_def [symmetric] a bindE_simps b c ..
  moreover have "table_at (fresh t0 narray (int nhash)) k = TNil" if "k \<noteq> TNil" for k
    using fresh_at [OF that assms(1) nh, of t0] by (auto simp: in_part_def t0_def split: option.splits)
  ultimately show ?thesis using fresh_ok(1) [OF assms(1) nh] by blast
qed

end
