(* ===== verification/TableApi.thy ===== *)
theory TableApi imports TableMap begin

text \<open>
  Raw table access of the C API (\<open>VM/src/lapi.cpp\<close>) over the table of \<open>LuaTable\<close>, the interface of a value
  map as a locale with its interpretation on \<open>lua_rawget\<close> and \<open>lua_rawset\<close>, and the properties of tables.
\<close>

section \<open>Operations\<close>

text \<open>The stack is left out: the key and the value are arguments, the fetched value is the result.\<close>

definition slot_read :: "LuaTable \<Rightarrow> slot option \<Rightarrow> lua_error + TValue" where
  "slot_read t r = (case r of Some s \<Rightarrow> Inr (slot_val t s) | None \<Rightarrow> Inl (Undefined ''endless chain''))"

definition lua_rawget :: "LuaTable \<Rightarrow> TValue \<Rightarrow> lua_error + TValue" where
  "lua_rawget t key = slot_read t (luaH_get t key)"

definition lua_rawgeti :: "LuaTable \<Rightarrow> int \<Rightarrow> lua_error + TValue" where
  "lua_rawgeti t n = slot_read t (luaH_getnum t n)"

definition lua_rawgetfield :: "LuaTable \<Rightarrow> byte list \<Rightarrow> lua_error + TValue" where
  "lua_rawgetfield t k = slot_read t (luaH_getstr t k)"

definition lua_rawgetptagged :: "LuaTable \<Rightarrow> u64 \<Rightarrow> int \<Rightarrow> lua_error + TValue" where
  "lua_rawgetptagged t p tag = slot_read t (luaH_getp t p tag)"

definition luaG_readonlyerror :: lua_error where
  "luaG_readonlyerror = RunError ''attempt to modify a readonly table''"

definition slot_write :: "(LuaTable \<Rightarrow> lua_error + LuaTable \<times> slot) \<Rightarrow> LuaTable \<Rightarrow> TValue \<Rightarrow> lua_error + LuaTable" where
  "slot_write setter t v = bindE (setter t) (\<lambda>(t, s). Inr (slot_put t s v))"

definition lua_rawset :: "LuaTable \<Rightarrow> TValue \<Rightarrow> TValue \<Rightarrow> lua_error + LuaTable" where
  "lua_rawset t key v =
     (if readonly t then Inl luaG_readonlyerror else slot_write (\<lambda>t. luaH_set t key) t v)"

definition lua_rawseti :: "LuaTable \<Rightarrow> int \<Rightarrow> TValue \<Rightarrow> lua_error + LuaTable" where
  "lua_rawseti t n v =
     (if readonly t then Inl luaG_readonlyerror else slot_write (\<lambda>t. luaH_setnum t n) t v)"

definition lua_rawsetfield :: "LuaTable \<Rightarrow> byte list \<Rightarrow> TValue \<Rightarrow> lua_error + LuaTable" where
  "lua_rawsetfield t k v =
     (if readonly t then Inl luaG_readonlyerror else slot_write (\<lambda>t. luaH_setstr t k) t v)"

definition lua_rawsetptagged :: "LuaTable \<Rightarrow> u64 \<Rightarrow> int \<Rightarrow> TValue \<Rightarrow> lua_error + LuaTable" where
  "lua_rawsetptagged t p tag v =
     (if readonly t then Inl luaG_readonlyerror else slot_write (\<lambda>t. luaH_setp t p tag) t v)"

definition lua_cleartable :: "LuaTable \<Rightarrow> lua_error + LuaTable" where
  "lua_cleartable t = (if readonly t then Inl luaG_readonlyerror else Inr (luaH_clear t))"

text \<open>The two loops of \<open>lua_rawiter\<close>; the result is the next \<open>iter\<close> with the entry, or the end.\<close>

fun rawiter_array :: "nat \<Rightarrow> LuaTable \<Rightarrow> nat \<Rightarrow> (nat \<times> TValue \<times> TValue) option" where
  "rawiter_array 0 t i = None"
| "rawiter_array (Suc n) t i =
     (if array t ! i \<noteq> TNil then Some (i + 1, TNumber (d_of_int (int i + 1)), array t ! i)
      else rawiter_array n t (i + 1))"

fun rawiter_node :: "nat \<Rightarrow> LuaTable \<Rightarrow> nat \<Rightarrow> (nat \<times> TValue \<times> TValue) option" where
  "rawiter_node 0 t i = None"
| "rawiter_node (Suc n) t i =
     (let e = node t ! (i - sizearray t) in
      if gval e \<noteq> TNil then Some (i + 1, gkey e, gval e) else rawiter_node n t (i + 1))"

definition lua_rawiter :: "LuaTable \<Rightarrow> nat \<Rightarrow> (nat \<times> TValue \<times> TValue) option" where
  "lua_rawiter t iter =
     (case rawiter_array (sizearray t - iter) t iter of
        Some r \<Rightarrow> Some r
      | None \<Rightarrow>
          let iter = max iter (sizearray t) in
          rawiter_node (sizenode t - (iter - sizearray t)) t iter)"

section \<open>A map of values as an interface\<close>

text \<open>
  A client of a table relies on two things only: a failed assignment changes nothing (it gives no table), and
  a successful one changes the value under keys raw-equal to the given one.
\<close>

locale value_map =
  fixes inv :: "'m \<Rightarrow> bool" and get :: "'m \<Rightarrow> TValue \<Rightarrow> TValue" and put :: "'m \<Rightarrow> TValue \<Rightarrow> TValue \<Rightarrow> lua_error + 'm"
  assumes put_inv: "inv m \<Longrightarrow> put m k v = Inr m' \<Longrightarrow> inv m'"
    and put_get: "inv m \<Longrightarrow> put m k v = Inr m' \<Longrightarrow> k' \<noteq> TNil \<Longrightarrow>
          get m' k' = (if luaO_rawequalKey k k' then v else get m k')"
    and put_valid: "inv m \<Longrightarrow> put m k v = Inr m' \<Longrightarrow> valid_key k"

text \<open>A sequence of assignments, as a table constructor or \<open>luaL_setfuncs\<close> performs it.\<close>

fun put_all :: "('m \<Rightarrow> TValue \<Rightarrow> TValue \<Rightarrow> lua_error + 'm) \<Rightarrow> 'm \<Rightarrow> (TValue \<times> TValue) list \<Rightarrow> lua_error + 'm" where
  "put_all put m [] = Inr m"
| "put_all put m ((k, v) # kvs) = bindE (put m k v) (\<lambda>m. put_all put m kvs)"

definition last_value :: "(TValue \<times> TValue) list \<Rightarrow> TValue \<Rightarrow> TValue \<Rightarrow> TValue" where
  "last_value kvs k d = (case find (\<lambda>kv. luaO_rawequalKey (fst kv) k) (rev kvs) of Some kv \<Rightarrow> snd kv | None \<Rightarrow> d)"

lemma last_value_Cons: "last_value ((a, b) # kvs) k d = last_value kvs k (if luaO_rawequalKey a k then b else d)"
  by (simp add: last_value_def find_append split: option.split)

context value_map begin

lemma put_all_spec:
  "inv m \<Longrightarrow> put_all put m kvs = Inr m' \<Longrightarrow> inv m' \<and> (\<forall>k. k \<noteq> TNil \<longrightarrow> get m' k = last_value kvs k (get m k))"
proof (induction kvs arbitrary: m)
  case Nil
  then show ?case by (simp add: last_value_def)
next
  case (Cons kv kvs)
  obtain a b where kv: "kv = (a, b)" by (cases kv)
  then obtain m1 where m1: "put m a b = Inr m1" "put_all put m1 kvs = Inr m'"
    using Cons.prems(2) by (auto simp: bindE_eq_Inr_iff)
  then have "inv m1" using put_inv Cons.prems(1) by blast
  from Cons.IH [OF this m1(2)] show ?case
    using put_get [OF Cons.prems(1) m1(1)] by (simp add: kv last_value_Cons)
qed

lemma put_swap:
  assumes "inv m" and "\<not> luaO_rawequalKey a b" and "put_all put m [(a, v), (b, w)] = Inr m1"
    and "put_all put m [(b, w), (a, v)] = Inr m2" and k: "k \<noteq> TNil"
  shows "get m1 k = get m2 k"
proof -
  have "\<not> (luaO_rawequalKey a k \<and> luaO_rawequalKey b k)"
    using assms(2) rawequalKey_trans rawequalKey_sym by metis
  then show ?thesis using put_all_spec [OF assms(1,3)] put_all_spec [OF assms(1,4)] k
    by (auto simp: last_value_Cons last_value_def)
qed

end

lemma rawset_ok:
  assumes wf: "wf_table t" and r: "lua_rawset t k v = Inr t'"
  shows "store_at t k v t' \<and> valid_key k"
proof -
  have nr: "\<not> readonly t" using r by (auto simp: lua_rawset_def split: if_splits)
  then obtain t1 s where s: "luaH_set t k = Inr (t1, s)" "t' = slot_put t1 s v"
    using r by (auto simp: lua_rawset_def slot_write_def bindE_eq_Inr_iff)
  have vk: "valid_key k" using luaH_set_invalid [OF wf, of k] s(1) by auto
  then have "stores t k t1 s" using luaH_set_assigns [OF wf vk] s(1) by (simp add: assigns_def)
  then show ?thesis using stores_put s(2) vk by simp
qed

interpretation raw: value_map wf_table table_at lua_rawset
proof
  fix t k v t' assume a: "wf_table t" "lua_rawset t k v = Inr t'"
  note o = rawset_ok [OF a]
  show "wf_table t'" "valid_key k" using o by (simp_all add: store_at_def)
  show "table_at t' k' = (if luaO_rawequalKey k k' then v else table_at t k')" if "k' \<noteq> TNil" for k'
    using o that by (simp add: store_at_def)
qed

section \<open>Properties\<close>

text \<open>An example: the empty table that \<open>luaH_new(L, 0, 0)\<close> creates.\<close>

definition empty_table :: LuaTable where
  "empty_table = \<lparr>array = [], node = [luaH_dummynode], node_dummy = True, lsizenode = 0, lastfree = 0,
     tmcache = NOT 0, readonly = False, safeenv = False, metatable = None\<rparr>"

lemma empty_table_new: "luaH_new 0 0 = Inr empty_table"
  by (simp add: luaH_new_def empty_table_def Let_def)

lemma empty_table_wf: "wf_table empty_table"
  using luaH_new_ok [of 0 0] by (simp add: empty_table_new)

lemma empty_table_at: "k \<noteq> TNil \<Longrightarrow> table_at empty_table k = TNil"
  using luaH_new_ok [of 0 0] by (simp add: empty_table_new)

lemma empty_table_roomy: "roomy empty_table"
  by (simp add: roomy_def live_def empty_table_def vanishing_def old_nodes_def luaH_dummynode_def)

text \<open>C5. Every search returns, and returns what the abstract map holds: on a well-formed table no chain is
  endless, and \<open>lua_rawget\<close> gives the value stored under a raw-equal key, or nil.\<close>

theorem rawget_refines:
  assumes "wf_table t"
  shows "lua_rawget t k = Inr (table_at t k)"
  using table_get [OF assms, of k] by (auto simp: lua_rawget_def slot_read_def)

theorem rawget_refines_witness: "wf_table empty_table \<and> lua_rawget empty_table (TString [97]) = Inr TNil"
  using empty_table_wf rawget_refines [OF empty_table_wf, of "TString [97]"] empty_table_at by simp

text \<open>The specialised searches agree with the general one: an integer index, a string field and a tagged
  pointer find the same value as the key looked up by \<open>lua_rawget\<close>.\<close>

theorem rawget_specialised:
  assumes "wf_table t" and "in_int32 n"
  shows "lua_rawgeti t n = lua_rawget t (TNumber (d_of_int n)) \<and>
    lua_rawgetfield t s = lua_rawget t (TString s) \<and>
    lua_rawgetptagged t p g = lua_rawget t (TLightUserdata p g)"
  using assms getnum_slot getstr_slot getp_slot get_slot
  by (simp add: lua_rawgeti_def lua_rawgetfield_def lua_rawgetptagged_def lua_rawget_def)

theorem rawget_specialised_witness:
  "in_int32 1 \<and> lua_rawgeti empty_table 1 = lua_rawget empty_table (TNumber (d_of_int 1))"
proof -
  have i: "in_int32 1" by (simp add: in_int32_def)
  show ?thesis using i rawget_specialised [OF empty_table_wf i, of "[]" 0 0] by simp
qed

text \<open>C1. Assignment is correct and total: \<open>lua_rawset\<close> on a well-formed table either fails for a reason the code
  names and that the arguments show (a readonly table, a nil or NaN key, a table at its size limit), or gives a
  well-formed table in which exactly the value under keys raw-equal to \<open>k\<close> is \<open>v\<close>. This goes through the
  insertion with collisions, the rehash and the re-insertion of every entry.\<close>

theorem rawset_refines:
  assumes "wf_table t"
  shows "case lua_rawset t k v of
      Inr t' \<Rightarrow> \<not> readonly t \<and> valid_key k \<and> store_at t k v t'
    | Inl e \<Rightarrow> (if readonly t then e = luaG_readonlyerror
        else if \<not> valid_key k then e \<in> RunError ` {''table index is nil'', ''table index is NaN'', ''table index contains NaN''}
        else e = RunError ''table overflow'' \<and> \<not> roomy t)"
proof (cases "readonly t")
  case False
  show ?thesis
  proof (cases "valid_key k")
    case True
    note a = luaH_set_assigns [OF assms True]
    show ?thesis
    proof (cases "luaH_set t k")
      case (Inl e)
      then show ?thesis using a False True by (simp add: lua_rawset_def slot_write_def assigns_def)
    next
      case (Inr r)
      obtain t1 s where "r = (t1, s)" by (cases r)
      then show ?thesis using a Inr False True stores_put by (simp add: lua_rawset_def slot_write_def assigns_def)
    qed
  next
    case nv: False
    then show ?thesis using luaH_set_invalid [OF assms nv] False by (auto simp: lua_rawset_def slot_write_def)
  qed
qed (simp add: lua_rawset_def)

theorem rawset_refines_witness: "\<exists>t'. lua_rawset empty_table (TString [97]) (TBoolean True) = Inr t' \<and>
    table_at t' (TString [97]) = TBoolean True"
proof (cases "lua_rawset empty_table (TString [97]) (TBoolean True)")
  case (Inl e)
  then show ?thesis using rawset_refines [OF empty_table_wf, of "TString [97]" "TBoolean True"] empty_table_roomy
    by (simp add: empty_table_def)
next
  case (Inr t')
  then show ?thesis using rawset_refines [OF empty_table_wf, of "TString [97]" "TBoolean True"]
    by (simp add: store_at_def luaO_rawequalKey_def)
qed

text \<open>The specialised assignments do what \<open>lua_rawset\<close> promises at the key they stand for, or overflow.\<close>

theorem rawset_specialised:
  assumes "wf_table t" and "in_int32 n" and "\<not> readonly t"
  shows "(case lua_rawseti t n v of Inr t' \<Rightarrow> store_at t (TNumber (d_of_int n)) v t' | Inl e \<Rightarrow> e = RunError ''table overflow'') \<and>
    (case lua_rawsetfield t s v of Inr t' \<Rightarrow> store_at t (TString s) v t' | Inl e \<Rightarrow> e = RunError ''table overflow'') \<and>
    (case lua_rawsetptagged t p g v of Inr t' \<Rightarrow> store_at t (TLightUserdata p g) v t' | Inl e \<Rightarrow> e = RunError ''table overflow'')"
proof -
  have "case slot_write f t v of Inr t' \<Rightarrow> store_at t k v t' | Inl e \<Rightarrow> e = RunError ''table overflow''"
    if "assigns t k (f t)" for f k
    using that stores_put by (auto simp: slot_write_def assigns_def split: sum.splits)
  then show ?thesis
    using luaH_setnum_assigns [OF assms(1,2)] luaH_setstr_assigns [OF assms(1)] luaH_setp_assigns [OF assms(1)] assms(3)
    unfolding lua_rawseti_def lua_rawsetfield_def lua_rawsetptagged_def by simp
qed

theorem rawset_specialised_witness:
  "in_int32 1 \<and> \<not> readonly empty_table \<and>
   (case lua_rawseti empty_table 1 TNil of Inr t' \<Rightarrow> store_at empty_table (TNumber (d_of_int 1)) TNil t'
    | Inl e \<Rightarrow> e = RunError ''table overflow'')"
proof -
  have i: "in_int32 1" and r: "\<not> readonly empty_table" by (simp_all add: in_int32_def empty_table_def)
  show ?thesis using i r rawset_specialised [OF empty_table_wf i r, of TNil "[]" 0 0] by simp
qed

text \<open>Table constructors: after a sequence of raw assignments the table holds under each key the last value
  assigned to it, and the old value under every other key.\<close>

theorem rawset_sequence:
  assumes "wf_table t" and "put_all lua_rawset t kvs = Inr t'" and "k \<noteq> TNil"
  shows "wf_table t' \<and> lua_rawget t' k = Inr (last_value kvs k (table_at t k))"
proof -
  note p = raw.put_all_spec [OF assms(1,2)]
  then obtain s where "luaH_get t' k = Some s" "slot_val t' s = table_at t' k" using table_get by blast
  then show ?thesis using p assms(3) by (simp add: lua_rawget_def slot_read_def)
qed

theorem rawset_sequence_witness: "wf_table empty_table \<and> lua_rawget empty_table (TBoolean True) = Inr TNil"
  using rawset_sequence [OF empty_table_wf, of "[]" empty_table "TBoolean True"] empty_table_at
  by (simp add: last_value_def)

text \<open>C7. The length operator finds a border: \<open>luaH_getn\<close> returns an index whose element is present (or 0) and whose
  successor is absent, whichever of its fast paths, the cached boundary or the binary search answers, and the
  boundary it caches keeps the table well-formed and its contents unchanged.\<close>

theorem getn_border:
  assumes "wf_table t"
  shows "border t (snd (luaH_getn t)) \<and> same_map t (fst (luaH_getn t))"
  by (rule luaH_getn_ok [OF assms])

theorem getn_border_witness: "border empty_table (snd (luaH_getn empty_table)) \<and> snd (luaH_getn empty_table) = 0"
  using getn_border [OF empty_table_wf]
  by (simp add: luaH_getn_def luaH_getn_search_def getaboundary_def empty_table_def)

lemma all_entries_distinct:
  assumes "wf_table t"
  shows "distinct (map fst (all_entries t))"
proof -
  have inj: "p = q" if "p < positions t" "q < positions t" "isvalue (entry t p)" "isvalue (entry t q)" "fst (entry t p) = fst (entry t q)" for p q
  proof -
    have "(Inr (int p) :: lua_error + int) = Inr (int q)"
      using findindex_entry [OF assms that(1,3)] findindex_entry [OF assms that(2,4)] unfolding that(5) by (rule trans [OF sym])
    then show ?thesis by simp
  qed
  have "map fst (filter isvalue (map (entry t) xs)) = map (\<lambda>p. fst (entry t p)) (filter (\<lambda>p. isvalue (entry t p)) xs)" for xs
    by (induction xs) auto
  moreover have "inj_on (\<lambda>p. fst (entry t p)) (set (filter (\<lambda>p. isvalue (entry t p)) [0..<positions t]))"
    using inj by (intro inj_onI) auto
  ultimately show ?thesis by (simp add: all_entries_def distinct_map)
qed

text \<open>C6. Traversal with \<open>next\<close> is complete: started with nil and fed its own keys, it ends, raises nothing and visits
  exactly the entries of the table, each key once.\<close>

theorem next_traverses:
  assumes "wf_table t"
  shows "\<exists>kvs. traverse (length kvs + 1) t TNil = Inr kvs \<and> set kvs = set (live t) \<and> distinct (map fst kvs)"
  using all_entries_distinct [OF assms] traverse_all [OF assms] all_entries_live [OF assms] by blast

theorem next_traverses_witness: "\<exists>kvs. traverse (length kvs + 1) empty_table TNil = Inr kvs \<and> set kvs = {}"
proof -
  have "live empty_table = []" by (simp add: live_def empty_table_def vanishing_def old_nodes_def luaH_dummynode_def)
  then show ?thesis using next_traverses [OF empty_table_wf] by auto
qed

lemma rawiter_array_find: "i + n \<le> sizearray t \<Longrightarrow>
    map_option snd (rawiter_array n t i) = next_array (array t) n i \<and> (\<forall>r. rawiter_array n t i = Some r \<longrightarrow> entry t (fst r - 1) = snd r)"
proof (induction n arbitrary: i)
  case (Suc n)
  then show ?case using Suc.IH [of "i + 1"] by (auto simp: entry_def)
qed simp

lemma rawiter_node_find: "sizearray t \<le> i \<Longrightarrow> map_option snd (rawiter_node n t i) = next_node (node t) n (i - sizearray t)"
proof (induction n arbitrary: i)
  case (Suc n)
  then show ?case using Suc.IH [of "i + 1"] by (simp add: Let_def Suc_diff_le)
qed simp

lemma rawiter_next: "map_option snd (lua_rawiter t p) = (case next_array (array t) (sizearray t - p) p of
      Some r \<Rightarrow> Some r | None \<Rightarrow> next_node (node t) (sizenode t - (max p (sizearray t) - sizearray t)) (max p (sizearray t) - sizearray t))"
proof (cases "p \<le> sizearray t")
  case True
  then show ?thesis using rawiter_array_find [of p "sizearray t - p" t] rawiter_node_find [of t "sizearray t" "sizenode t"]
    by (auto simp: lua_rawiter_def Let_def max_def split: option.splits)
next
  case False
  then show ?thesis using rawiter_node_find [of t p "sizenode t - (p - sizearray t)"]
    by (simp add: lua_rawiter_def Let_def max_def)
qed

text \<open>The iterator by position agrees with \<open>next\<close>: \<open>lua_rawiter\<close> at a position gives the first entry at or
  after it, with the position to go on from, so it visits the same entries in the same order.\<close>

theorem rawiter_follows_next:
  assumes "wf_table t" and "findindex t key = Inr (int p - 1)" and "p \<le> positions t"
  shows "luaH_next t key = Inr (map_option snd (lua_rawiter t p))"
proof -
  have "luaH_next t key = Inr (case next_array (array t) (sizearray t - p) p of
      Some r \<Rightarrow> Some r | None \<Rightarrow> next_node (node t) (sizenode t - (max p (sizearray t) - sizearray t)) (max p (sizearray t) - sizearray t))"
    unfolding luaH_next_def assms(2)
    by (cases "next_array (array t) (sizearray t - p) p") (simp_all add: Let_def)
  then show ?thesis by (simp add: rawiter_next)
qed

theorem rawiter_follows_next_witness:
  "luaH_next empty_table TNil = Inr (map_option snd (lua_rawiter empty_table 0)) \<and> lua_rawiter empty_table 0 = None"
proof -
  have f: "findindex empty_table TNil = Inr (int 0 - 1)" by (simp add: findindex_def)
  have "lua_rawiter empty_table 0 = None"
    by (simp add: lua_rawiter_def empty_table_def sizenode_def luaH_dummynode_def Let_def)
  then show ?thesis using rawiter_follows_next [OF empty_table_wf f] by simp
qed

text \<open>Growing the array part ahead of time (\<open>luaH_resizearray\<close>) and resizing the hash part
  (\<open>luaH_resizehash\<close>) keep every entry, the metatable and the flags; the first fails only when the table would
  exceed its size limit.\<close>

theorem resize_keeps_map:
  assumes "wf_table t" and "sizearray t \<le> n" and "n \<le> 2 ^ 30"
    and "int (length (old_nodes (node t))) \<le> nh" and "nh \<le> int MAXSIZE"
  shows "(case luaH_resizearray t n of
      Inr t' \<Rightarrow> same_map t t' \<and> same_frame t t' \<and> n \<le> sizearray t'
    | Inl e \<Rightarrow> e = RunError ''table overflow'' \<and> MAXSIZE < n + length (live t) + 1) \<and>
   (\<exists>t'. luaH_resizehash t nh = Inr t' \<and> same_map t t' \<and> same_frame t t' \<and> sizearray t' = sizearray t)"
  using luaH_resizearray_ok [OF assms(1-3)] luaH_resizehash_ok [OF assms(1,4,5)] by blast

theorem resize_keeps_map_witness: "\<exists>t'. luaH_resizehash empty_table 8 = Inr t' \<and> same_map empty_table t'"
  using resize_keeps_map [OF empty_table_wf, of 0 8]
  by (auto simp: empty_table_def old_nodes_def luaH_dummynode_def)

text \<open>Copying and clearing: a clone has the same contents and metatable and is writable, and a cleared table is
  well-formed, holds nothing and keeps the size of its array.\<close>

theorem clone_clear:
  assumes "wf_table t"
  shows "same_map t (luaH_clone t) \<and> metatable (luaH_clone t) = metatable t \<and> \<not> readonly (luaH_clone t) \<and>
    wf_table (luaH_clear t) \<and> (\<forall>k. table_at (luaH_clear t) k = TNil) \<and> sizearray (luaH_clear t) = sizearray t"
  using luaH_clone_ok [OF assms] luaH_clear_ok [OF assms] by blast

theorem clone_clear_witness: "same_map empty_table (luaH_clone empty_table) \<and> wf_table (luaH_clear empty_table)"
  using clone_clear [OF empty_table_wf] by blast

section \<open>Reachable tables\<close>

text \<open>
  The states of a table under its operations. The sizes of \<open>lua_createtable\<close> and of the explicit resizes are
  within the limits under which the code does not raise.
\<close>

inductive table_run :: "LuaTable \<Rightarrow> bool" where
  new: "narray \<le> MAXSIZE \<Longrightarrow> nhash \<le> MAXSIZE \<Longrightarrow> luaH_new narray nhash = Inr t \<Longrightarrow> table_run t"
| rawset: "table_run t \<Longrightarrow> lua_rawset t k v = Inr t' \<Longrightarrow> table_run t'"
| rawseti: "table_run t \<Longrightarrow> in_int32 n \<Longrightarrow> lua_rawseti t n v = Inr t' \<Longrightarrow> table_run t'"
| rawsetfield: "table_run t \<Longrightarrow> lua_rawsetfield t s v = Inr t' \<Longrightarrow> table_run t'"
| rawsetptagged: "table_run t \<Longrightarrow> lua_rawsetptagged t p g v = Inr t' \<Longrightarrow> table_run t'"
| getn: "table_run t \<Longrightarrow> table_run (fst (luaH_getn t))"
| resizearray: "table_run t \<Longrightarrow> sizearray t \<le> n \<Longrightarrow> n \<le> 2 ^ 30 \<Longrightarrow> luaH_resizearray t n = Inr t' \<Longrightarrow> table_run t'"
| resizehash: "table_run t \<Longrightarrow> int (length (old_nodes (node t))) \<le> nh \<Longrightarrow> nh \<le> int MAXSIZE \<Longrightarrow>
    luaH_resizehash t nh = Inr t' \<Longrightarrow> table_run t'"
| clone: "table_run t \<Longrightarrow> table_run (luaH_clone t)"
| cleartable: "table_run t \<Longrightarrow> lua_cleartable t = Inr t' \<Longrightarrow> table_run t'"

lemma slot_write_wf: "assigns t k (f t) \<Longrightarrow> slot_write f t v = Inr t' \<Longrightarrow> wf_table t'"
  using stores_put [of t k _ _ v] by (auto simp: slot_write_def bindE_eq_Inr_iff assigns_def store_at_def)

text \<open>C2. The invariant of tables: in every state that the operations can reach, the nodes form disjoint chains that
  start at main positions, no key occurs twice, the array holds every index up to its size and the one after it
  is in no node, free positions are where \<open>lastfree\<close> says and a cached boundary lies inside of the array.\<close>

theorem reachable_wf:
  assumes "table_run t"
  shows "wf_table t"
  using assms
proof (induction rule: table_run.induct)
  case (new narray nhash t)
  then show ?case using luaH_new_ok [of narray nhash] by auto
next
  case (rawset t k v t')
  then show ?case using rawset_ok by (simp add: store_at_def)
next
  case (rawseti t n v t')
  then show ?case using slot_write_wf [where f = "\<lambda>t. luaH_setnum t n", OF luaH_setnum_assigns] by (auto simp: lua_rawseti_def split: if_splits)
next
  case (rawsetfield t s v t')
  then show ?case using slot_write_wf [where f = "\<lambda>t. luaH_setstr t s", OF luaH_setstr_assigns] by (auto simp: lua_rawsetfield_def split: if_splits)
next
  case (rawsetptagged t p g v t')
  then show ?case using slot_write_wf [where f = "\<lambda>t. luaH_setp t p g", OF luaH_setp_assigns] by (auto simp: lua_rawsetptagged_def split: if_splits)
next
  case (getn t)
  then show ?case using luaH_getn_ok by (simp add: same_map_def)
next
  case (resizearray t n t')
  then show ?case using luaH_resizearray_ok [of t n] by (simp add: same_map_def)
next
  case (resizehash t nh t')
  then show ?case using luaH_resizehash_ok [of t nh] by (auto simp: same_map_def)
next
  case (clone t)
  then show ?case using luaH_clone_ok by (simp add: same_map_def)
next
  case (cleartable t t')
  then show ?case using luaH_clear_ok by (auto simp: lua_cleartable_def split: if_splits)
qed

theorem reachable_wf_witness: "table_run empty_table \<and> wf_table empty_table"
proof -
  have "table_run empty_table" by (rule table_run.new [OF _ _ empty_table_new]) simp_all
  then show ?thesis using reachable_wf by blast
qed

end
