(* ===== verification/TableSort.thy ===== *)
theory TableSort imports TableApi "HOL-Library.Multiset" "HOL-Library.List_Lexorder" begin

text \<open>
  \<open>table.sort\<close> (\<open>VM/src/ltablib.cpp\<close>): quicksort with the median of three and a limit on its depth, heap
  sort beyond the limit, on the array part of a table. The comparison is a parameter: a Lua function may
  fail, keep state, change the array and even replace it by one of another size.
\<close>

section \<open>Model\<close>

text \<open>
  The state is the state of the comparison and the array. Positions are C ints, and every access checks the
  bounds of the array, so that a theorem can say that no access leaves it.
\<close>

type_synonym 'w sort_state = "'w \<times> TValue list"
type_synonym 'w SortPredicate = "'w \<Rightarrow> TValue list \<Rightarrow> TValue \<Rightarrow> TValue \<Rightarrow> lua_error + bool \<times> 'w \<times> TValue list"

definition in_arr :: "TValue list \<Rightarrow> int \<Rightarrow> bool" where
  "in_arr arr i \<longleftrightarrow> 0 \<le> i \<and> i < int (length arr)"

definition elt :: "TValue list \<Rightarrow> int \<Rightarrow> TValue" where
  "elt arr i = arr ! nat i"

definition swapped :: "TValue list \<Rightarrow> int \<Rightarrow> int \<Rightarrow> TValue list" where
  "swapped arr i j = arr[nat i := elt arr j, nat j := elt arr i]"

definition oob :: lua_error where
  "oob = Undefined ''out of bounds''"

definition sort_swap :: "int \<Rightarrow> int \<Rightarrow> 'w sort_state \<Rightarrow> lua_error + 'w sort_state" where
  "sort_swap i j st =
     (let (w, arr) = st in
      if in_arr arr i \<and> in_arr arr j then Inr (w, swapped arr i j) else Inl oob)"

definition sort_less :: "'w SortPredicate \<Rightarrow> int \<Rightarrow> int \<Rightarrow> 'w sort_state \<Rightarrow> lua_error + bool \<times> 'w sort_state" where
  "sort_less pred i j st =
     (let (w, arr) = st in
      if in_arr arr i \<and> in_arr arr j then
        bindE (pred w arr (elt arr i) (elt arr j)) (\<lambda>(res, w', arr').
        if length arr' \<noteq> length arr then Inl (RunError ''table modified during sorting'') else Inr (res, w', arr'))
      else Inl oob)"

text \<open>
  The loop of \<open>sort_siftheap\<close> over the elements with two children; it returns the last root. A round picks
  the next root among the root and its children.
\<close>

definition sift_pick :: "'w SortPredicate \<Rightarrow> int \<Rightarrow> nat \<Rightarrow> 'w sort_state \<Rightarrow> lua_error + nat \<times> 'w sort_state" where
  "sift_pick pred l rt st =
     (let left = rt * 2 + 1; right = rt * 2 + 2; nxt = rt in
      bindE (sort_less pred (l + int nxt) (l + int left) st) (\<lambda>(b, st).
      let nxt = if b then left else nxt in
      bindE (sort_less pred (l + int nxt) (l + int right) st) (\<lambda>(b, st).
      let nxt = if b then right else nxt in Inr (nxt, st))))"

lemma sift_pick_range: "sift_pick pred l rt st = Inr (nxt, st') \<Longrightarrow> nxt \<in> {rt, rt * 2 + 1, rt * 2 + 2}"
  by (auto simp: sift_pick_def Let_def bindE_eq_Inr_iff split: if_splits)

function siftheap_loop :: "'w SortPredicate \<Rightarrow> int \<Rightarrow> nat \<Rightarrow> nat \<Rightarrow> 'w sort_state \<Rightarrow> lua_error + nat \<times> 'w sort_state" where
  "siftheap_loop pred l cn rt st =
     (if rt * 2 + 2 < cn then
        bindE (sift_pick pred l rt st) (\<lambda>(nxt, st).
        if nxt = rt then Inr (rt, st)
        else bindE (sort_swap (l + int rt) (l + int nxt) st) (\<lambda>st. siftheap_loop pred l cn nxt st))
      else Inr (rt, st))"
  by pat_completeness auto

termination
  by (relation "measure (\<lambda>(pred, l, cn, rt, st). cn - rt)") (auto dest!: sift_pick_range)

declare siftheap_loop.simps [simp del]

definition sort_siftheap :: "'w SortPredicate \<Rightarrow> int \<Rightarrow> int \<Rightarrow> nat \<Rightarrow> 'w sort_state \<Rightarrow> lua_error + 'w sort_state" where
  "sort_siftheap pred l u rt st =
     (let cn = nat (u - l + 1) in
      bindE (siftheap_loop pred l cn rt st) (\<lambda>(rt, st).
      let lastleft = rt * 2 + 1 in
      if lastleft + 1 = cn then
        bindE (sort_less pred (l + int rt) (l + int lastleft) st) (\<lambda>(b, st).
        if b then sort_swap (l + int rt) (l + int lastleft) st else Inr st)
      else Inr st))"

fun heapify :: "'w SortPredicate \<Rightarrow> int \<Rightarrow> int \<Rightarrow> nat \<Rightarrow> 'w sort_state \<Rightarrow> lua_error + 'w sort_state" where
  "heapify pred l u 0 st = Inr st"
| "heapify pred l u (Suc i) st = bindE (sort_siftheap pred l u i st) (\<lambda>st. heapify pred l u i st)"

fun heap_pop :: "'w SortPredicate \<Rightarrow> int \<Rightarrow> nat \<Rightarrow> 'w sort_state \<Rightarrow> lua_error + 'w sort_state" where
  "heap_pop pred l 0 st = Inr st"
| "heap_pop pred l (Suc i) st =
     bindE (sort_swap l (l + int (Suc i)) st) (\<lambda>st.
     bindE (sort_siftheap pred l (l + int (Suc i) - 1) 0 st) (\<lambda>st. heap_pop pred l i st))"

definition sort_heap :: "'w SortPredicate \<Rightarrow> int \<Rightarrow> int \<Rightarrow> 'w sort_state \<Rightarrow> lua_error + 'w sort_state" where
  "sort_heap pred l u st =
     (let cn = nat (u - l + 1) in
      bindE (heapify pred l u (cn div 2) st) (\<lambda>st. heap_pop pred l (cn - 1) st))"

definition invalid_order :: lua_error where
  "invalid_order = RunError ''invalid order function for sorting''"

text \<open>The two scans of the partition: \<open>while (sort_less(++i, p))\<close> and \<open>while (sort_less(p, --j))\<close>.\<close>

function scan_up :: "'w SortPredicate \<Rightarrow> int \<Rightarrow> int \<Rightarrow> int \<Rightarrow> 'w sort_state \<Rightarrow> lua_error + int \<times> 'w sort_state" where
  "scan_up pred p u i st =
     (let i = i + 1 in
      bindE (sort_less pred i p st) (\<lambda>(b, st).
      if b then (if i \<ge> u then Inl invalid_order else scan_up pred p u i st) else Inr (i, st)))"
  by pat_completeness auto

termination
  by (relation "measure (\<lambda>(pred, p, u, i, st). nat (u - i))") auto

function scan_down :: "'w SortPredicate \<Rightarrow> int \<Rightarrow> int \<Rightarrow> int \<Rightarrow> 'w sort_state \<Rightarrow> lua_error + int \<times> 'w sort_state" where
  "scan_down pred p l j st =
     (let j = j - 1 in
      bindE (sort_less pred p j st) (\<lambda>(b, st).
      if b then (if j \<le> l then Inl invalid_order else scan_down pred p l j st) else Inr (j, st)))"
  by pat_completeness auto

termination
  by (relation "measure (\<lambda>(pred, p, l, j, st). nat (j - l))") auto

declare scan_up.simps [simp del] scan_down.simps [simp del]

lemma scan_up_moves: "scan_up pred p u i st = Inr (i', st') \<Longrightarrow> i < i' \<and> (i < u \<longrightarrow> i' \<le> u)"
proof (induction pred p u i st rule: scan_up.induct)
  case (1 pred p u i st)
  from 1(2) obtain b st1 where s: "sort_less pred (i + 1) p st = Inr (b, st1)"
    and r: "(if b then if i + 1 \<ge> u then Inl invalid_order else scan_up pred p u (i + 1) st1 else Inr (i + 1, st1)) = Inr (i', st')"
    unfolding scan_up.simps [of pred p u i st] Let_def by (auto simp: bindE_eq_Inr_iff)
  show ?case
  proof (cases b)
    case True
    then show ?thesis using 1(1) [OF refl s refl] r by (auto split: if_splits)
  qed (use r in auto)
qed

lemma scan_down_moves: "scan_down pred p l j st = Inr (j', st') \<Longrightarrow> j' < j \<and> (l < j \<longrightarrow> l \<le> j')"
proof (induction pred p l j st rule: scan_down.induct)
  case (1 pred p l j st)
  from 1(2) obtain b st1 where s: "sort_less pred p (j - 1) st = Inr (b, st1)"
    and r: "(if b then if j - 1 \<le> l then Inl invalid_order else scan_down pred p l (j - 1) st1 else Inr (j - 1, st1)) = Inr (j', st')"
    unfolding scan_down.simps [of pred p l j st] Let_def by (auto simp: bindE_eq_Inr_iff)
  show ?case
  proof (cases b)
    case True
    then show ?thesis using 1(1) [OF refl s refl] r by (auto split: if_splits)
  qed (use r in auto)
qed

text \<open>The endless loop of the partition; it returns the place of the pivot.\<close>

function partition_loop :: "'w SortPredicate \<Rightarrow> int \<Rightarrow> int \<Rightarrow> int \<Rightarrow> int \<Rightarrow> int \<Rightarrow> 'w sort_state \<Rightarrow> lua_error + int \<times> 'w sort_state" where
  "partition_loop pred p l u i j st =
     bindE (scan_up pred p u i st) (\<lambda>(i, st).
     bindE (scan_down pred p l j st) (\<lambda>(j, st).
     if j < i then Inr (i, st)
     else bindE (sort_swap i j st) (\<lambda>st. partition_loop pred p l u i j st)))"
  by pat_completeness auto

termination
proof (relation "measure (\<lambda>(pred, p, l, u, i, j, st). nat (j - i))")
  fix pred p l u i j st x i' st1 y j' st2 z
  assume "scan_up pred p u i st = Inr x" "(i', st1) = x" "scan_down pred p l j st1 = Inr y" "(j', st2) = y" "\<not> j' < i'"
  then show "((pred, p, l, u, i', j', z), pred, p, l, u, i, j, st) \<in> measure (\<lambda>(pred, p, l, u, i, j, st). nat (j - i))"
    using scan_up_moves [of pred p u i st i' st1] scan_down_moves [of pred p l j st1 j' st2] by auto
qed auto

declare partition_loop.simps [simp del]

lemma partition_loop_moves:
  "partition_loop pred p l u i j st = Inr (i', st') \<Longrightarrow> i < u \<Longrightarrow> j \<le> u \<Longrightarrow> i < i' \<and> i' \<le> u"
proof (induction pred p l u i j st rule: partition_loop.induct)
  case (1 pred p l u i j st)
  from 1(2) obtain i1 st1 j1 st2 where s: "scan_up pred p u i st = Inr (i1, st1)" "scan_down pred p l j st1 = Inr (j1, st2)"
    and r: "(if j1 < i1 then Inr (i1, st2)
       else bindE (sort_swap i1 j1 st2) (\<lambda>st. partition_loop pred p l u i1 j1 st)) = Inr (i', st')"
    unfolding partition_loop.simps [of pred p l u i j st] by (auto simp: bindE_eq_Inr_iff)
  note m = scan_up_moves [OF s(1)] scan_down_moves [OF s(2)]
  show ?case
  proof (cases "j1 < i1")
    case True
    then show ?thesis using r m 1(3) by auto
  next
    case False
    then obtain st3 where w: "sort_swap i1 j1 st2 = Inr st3" "partition_loop pred p l u i1 j1 st3 = Inr (i', st')"
      using r by (auto simp: bindE_eq_Inr_iff)
    have "i1 < u" "j1 \<le> u" using False m 1(4) by auto
    then show ?thesis using 1(1) [OF s(1) refl s(2) refl False w(1,2)] m by auto
  qed
qed

text \<open>Compare two positions and swap two.\<close>

definition less_swap :: "'w SortPredicate \<Rightarrow> int \<Rightarrow> int \<Rightarrow> int \<Rightarrow> int \<Rightarrow> 'w sort_state \<Rightarrow> lua_error + 'w sort_state" where
  "less_swap pred a b x y st =
     bindE (sort_less pred a b st) (\<lambda>(r, st). if r then sort_swap x y st else Inr st)"

text \<open>A round of \<open>sort_rec\<close>: \<open>None\<close> when the range is sorted, else the place of the pivot.\<close>

definition sort_round :: "'w SortPredicate \<Rightarrow> int \<Rightarrow> int \<Rightarrow> 'w sort_state \<Rightarrow> lua_error + int option \<times> 'w sort_state" where
  "sort_round pred l u st =
     bindE (less_swap pred u l u l st) (\<lambda>st.
     if u - l = 1 then Inr (None, st)
     else
       let m = l + (u - l) div 2 in
       bindE (bindE (sort_less pred m l st) (\<lambda>(r, st).
              if r then sort_swap m l st else less_swap pred u m m u st)) (\<lambda>st.
       if u - l = 2 then Inr (None, st)
       else
         let p = u - 1 in
         bindE (sort_swap m (u - 1) st) (\<lambda>st.
         bindE (partition_loop pred p l u l (u - 1) st) (\<lambda>(i, st).
         bindE (sort_swap p i st) (\<lambda>st. Inr (Some i, st))))))"

lemma sort_round_pivot:
  "sort_round pred l u st = Inr (Some i, st') \<Longrightarrow> l < u \<Longrightarrow> l < i \<and> i \<le> u"
  by (auto simp: sort_round_def Let_def bindE_eq_Inr_iff split: if_splits dest!: partition_loop_moves)

function sort_rec :: "'w SortPredicate \<Rightarrow> int \<Rightarrow> int \<Rightarrow> nat \<Rightarrow> 'w sort_state \<Rightarrow> lua_error + 'w sort_state" where
  "sort_rec pred l u limit st =
     (if \<not> l < u then Inr st
      else if limit = 0 then sort_heap pred l u st
      else
        bindE (sort_round pred l u st) (\<lambda>(pivot, st).
        case pivot of
          None \<Rightarrow> Inr st
        | Some i \<Rightarrow>
            let limit = limit div 2 + limit div 4 in
            if i - l < u - i
            then bindE (sort_rec pred l (i - 1) limit st) (\<lambda>st. sort_rec pred (i + 1) u limit st)
            else bindE (sort_rec pred (i + 1) u limit st) (\<lambda>st. sort_rec pred l (i - 1) limit st)))"
  by pat_completeness auto

termination
  by (relation "measure (\<lambda>(pred, l, u, limit, st). nat (u - l))") (auto dest!: sort_round_pivot)

declare sort_rec.simps [simp del]

section \<open>The default comparison\<close>

fun memcmp :: "byte list \<Rightarrow> byte list \<Rightarrow> int" where
  "memcmp (x # xs) (y # ys) = (if x \<noteq> y then uint x - uint y else memcmp xs ys)"
| "memcmp _ _ = 0"

text \<open>\<open>luaV_strcmp\<close>; the first bytes may be the terminating zeros, and equal strings are the same object.\<close>

definition luaV_strcmp :: "byte list \<Rightarrow> byte list \<Rightarrow> int" where
  "luaV_strcmp ls rs =
     (if ls = rs then 0
      else
        let l = hd (ls @ [0]); r = hd (rs @ [0]) in
        if l \<noteq> r then uint l - uint r
        else
          let lmin = min (length ls) (length rs); res = memcmp (take lmin ls) (take lmin rs) in
          if res \<noteq> 0 then res
          else if length ls = length rs then 0 else if length ls < length rs then -1 else 1)"

lemma memcmp_take:
  "memcmp (take (min (length xs) (length ys)) xs) (take (min (length xs) (length ys)) ys) = memcmp xs ys"
  by (induction xs ys rule: memcmp.induct) auto

lemma nil_less: "[] < (ys :: byte list) \<longleftrightarrow> ys \<noteq> []"
  by (cases ys) simp_all

lemma memcmp_less: "memcmp xs ys < 0 \<or> memcmp xs ys = 0 \<and> length xs < length ys \<longleftrightarrow> xs < ys"
proof (induction xs ys rule: memcmp.induct)
  case (1 x xs y ys)
  then show ?case by (cases "x = y") (auto simp: word_less_def word_uint_eq_iff order_less_le)
qed (simp_all add: nil_less)

text \<open>The comparison of strings is the lexicographic order of their bytes.\<close>

lemma luaV_strcmp_less: "luaV_strcmp xs ys < 0 \<longleftrightarrow> xs < ys"
proof (cases "xs = ys \<or> hd (xs @ [0]) = hd (ys @ [0])")
  case True
  then show ?thesis using memcmp_less [of xs ys] memcmp_take [of xs ys]
    by (auto simp: luaV_strcmp_def Let_def)
next
  case False
  have pos: "0 < uint a" if "a \<noteq> 0" for a :: byte using that by (simp add: uint_0_iff order_less_le)
  from False show ?thesis
    by (cases xs; cases ys) (auto simp: luaV_strcmp_def word_less_def pos word_uint_eq_iff dest: less_imp_neq)
qed

text \<open>The tags of \<open>lua_Type\<close>.\<close>

fun gctype_tag :: "lua_gctype \<Rightarrow> nat" where
  "gctype_tag LUA_TTABLE = 7"
| "gctype_tag LUA_TFUNCTION = 8"
| "gctype_tag LUA_TUSERDATA = 9"
| "gctype_tag LUA_TTHREAD = 10"
| "gctype_tag LUA_TBUFFER = 11"
| "gctype_tag LUA_TCLASS = 12"
| "gctype_tag LUA_TOBJECT = 13"

fun ttype :: "TValue \<Rightarrow> nat" where
  "ttype TNil = 0"
| "ttype (TBoolean b) = 1"
| "ttype (TLightUserdata p g) = 2"
| "ttype (TNumber d) = 3"
| "ttype (TInteger i) = 4"
| "ttype (TVector x y z) = 5"
| "ttype (TString s) = 6"
| "ttype (TGc k a) = gctype_tag k"

text \<open>The operand types of the message are left out.\<close>

definition luaG_ordererror :: lua_error where
  "luaG_ordererror = RunError ''attempt to compare''"

text \<open>\<open>luaV_lessthan\<close>; \<open>call_orderTM\<close> calls a metamethod and is a parameter.\<close>

definition luaV_lessthan :: "'w SortPredicate \<Rightarrow> 'w SortPredicate" where
  "luaV_lessthan call_orderTM w arr l r =
     (if ttype l \<noteq> ttype r then Inl luaG_ordererror
      else
        case (l, r) of
          (TNumber a, TNumber b) \<Rightarrow> Inr (luai_numlt a b, w, arr)
        | (TString a, TString b) \<Rightarrow> Inr (luaV_strcmp a b < 0, w, arr)
        | _ \<Rightarrow> call_orderTM w arr l r)"

text \<open>A call of a Lua function with two arguments and one result, which may change the state and the array.\<close>

type_synonym 'w lua_call2 = "nat \<Rightarrow> 'w \<Rightarrow> TValue list \<Rightarrow> TValue \<Rightarrow> TValue \<Rightarrow> lua_error + TValue \<times> 'w \<times> TValue list"

definition sort_func :: "'w lua_call2 \<Rightarrow> nat \<Rightarrow> 'w SortPredicate" where
  "sort_func call f w arr l r = bindE (call f w arr l r) (\<lambda>(v, w, arr). Inr (\<not> l_isfalse v, w, arr))"

text \<open>
  \<open>tsort\<close> on a table. The state of the comparison holds the other fields of the table, which a Lua function
  can change as well.
\<close>

definition sort_pred :: "'w SortPredicate \<Rightarrow> 'w lua_call2 \<Rightarrow> TValue option \<Rightarrow> lua_error + 'w SortPredicate" where
  "sort_pred call_orderTM call cmp =
     (case cmp of
        None \<Rightarrow> Inr (luaV_lessthan call_orderTM)
      | Some TNil \<Rightarrow> Inr (luaV_lessthan call_orderTM)
      | Some (TGc LUA_TFUNCTION f) \<Rightarrow> Inr (sort_func call f)
      | Some _ \<Rightarrow> Inl (TypeError 2 ''function''))"

definition tsort :: "(LuaTable \<times> 'w) SortPredicate \<Rightarrow> (LuaTable \<times> 'w) lua_call2 \<Rightarrow> TValue option \<Rightarrow> LuaTable \<Rightarrow> 'w \<Rightarrow>
    lua_error + LuaTable \<times> 'w" where
  "tsort call_orderTM call cmp t w =
     (let (t, n) = luaH_getn t in
      if readonly t then Inl luaG_readonlyerror
      else
        bindE (sort_pred call_orderTM call cmp) (\<lambda>pred.
        if n > 0 then
          bindE (sort_rec pred 0 (int n - 1) n ((t, w), array t)) (\<lambda>((t, w), arr). Inr (t\<lparr>array := arr\<rparr>, w))
        else Inr (t, w)))"

section \<open>Memory safety\<close>

text \<open>A comparison may do anything, but it does not report the error that marks an access out of bounds.\<close>

definition pred_ok :: "'w SortPredicate \<Rightarrow> bool" where
  "pred_ok pred \<longleftrightarrow> (\<forall>w arr a b. pred w arr a b \<noteq> Inl oob)"

text \<open>A result that is not an access out of bounds and keeps the length of the array.\<close>

definition safe :: "nat \<Rightarrow> lua_error + 'a \<times> 'w sort_state \<Rightarrow> bool" where
  "safe n r \<longleftrightarrow> (case r of Inl e \<Rightarrow> e \<noteq> oob | Inr (x, w, arr) \<Rightarrow> length arr = n)"

definition safe_st :: "nat \<Rightarrow> lua_error + 'w sort_state \<Rightarrow> bool" where
  "safe_st n r \<longleftrightarrow> (case r of Inl e \<Rightarrow> e \<noteq> oob | Inr (w, arr) \<Rightarrow> length arr = n)"

definition len :: "'w sort_state \<Rightarrow> nat" where
  "len st = length (snd st)"

lemma safe_simps [simp]:
  "safe n (Inl e) \<longleftrightarrow> e \<noteq> oob" "safe n (Inr (x, st)) \<longleftrightarrow> len st = n"
  "safe_st n (Inl e) \<longleftrightarrow> e \<noteq> oob" "safe_st n (Inr st) \<longleftrightarrow> len st = n"
  by (cases st; simp add: safe_def safe_st_def len_def)+

lemma safe_bind: "safe n r \<Longrightarrow> (\<And>x st. r = Inr (x, st) \<Longrightarrow> len st = n \<Longrightarrow> safe m (f (x, st))) \<Longrightarrow> safe m (bindE r f)"
  by (cases r) auto

lemma safe_bind_st: "safe n r \<Longrightarrow> (\<And>x st. r = Inr (x, st) \<Longrightarrow> len st = n \<Longrightarrow> safe_st m (f (x, st))) \<Longrightarrow> safe_st m (bindE r f)"
  by (cases r) auto

lemma safe_st_bind: "safe_st n r \<Longrightarrow> (\<And>st. r = Inr st \<Longrightarrow> len st = n \<Longrightarrow> safe m (f st)) \<Longrightarrow> safe m (bindE r f)"
  by (cases r) auto

lemma safe_st_bind_st: "safe_st n r \<Longrightarrow> (\<And>st. r = Inr st \<Longrightarrow> len st = n \<Longrightarrow> safe_st m (f st)) \<Longrightarrow> safe_st m (bindE r f)"
  by (cases r) auto

lemmas safe_binds = safe_bind safe_bind_st safe_st_bind safe_st_bind_st

definition inr :: "nat \<Rightarrow> int \<Rightarrow> bool" where
  "inr n i \<longleftrightarrow> 0 \<le> i \<and> i < int n"

lemma sort_swap_safe: "inr n i \<Longrightarrow> inr n j \<Longrightarrow> len st = n \<Longrightarrow> safe_st n (sort_swap i j st)"
  by (cases st) (auto simp: sort_swap_def in_arr_def len_def swapped_def inr_def)

lemma sort_less_safe:
  assumes "pred_ok pred" and "inr n i" and "inr n j" and "len st = n"
  shows "safe n (sort_less pred i j st)"
proof -
  obtain w arr where st: "st = (w, arr)" by (cases st)
  have "pred w arr (elt arr i) (elt arr j) \<noteq> Inl oob" using assms(1) by (simp add: pred_ok_def)
  then show ?thesis using assms(2-)
    by (cases "pred w arr (elt arr i) (elt arr j)") (auto simp: sort_less_def st in_arr_def len_def oob_def inr_def)
qed

lemma less_swap_safe:
  "pred_ok pred \<Longrightarrow> inr n a \<Longrightarrow> inr n b \<Longrightarrow> inr n x \<Longrightarrow> inr n y \<Longrightarrow> len st = n \<Longrightarrow> safe_st n (less_swap pred a b x y st)"
  unfolding less_swap_def by (rule safe_bind_st [OF sort_less_safe]) (auto intro: sort_swap_safe)

lemma sift_pick_safe:
  assumes "pred_ok pred" and "0 \<le> l" "l + int cn \<le> int n" "rt * 2 + 2 < cn" "len st = n"
  shows "safe n (sift_pick pred l rt st)"
  unfolding sift_pick_def Let_def
  by (rule safe_bind [OF sort_less_safe], (use assms in \<open>auto simp: inr_def\<close>)[4], unfold prod.case)
    (rule safe_bind [OF sort_less_safe], use assms in \<open>auto simp: inr_def\<close>)

lemma siftheap_loop_range: "siftheap_loop pred l cn rt st = Inr (rt', st') \<Longrightarrow> rt < cn \<Longrightarrow> rt' < cn"
proof (induction pred l cn rt st rule: siftheap_loop.induct)
  case (1 pred l cn rt st)
  show ?case
  proof (cases "rt * 2 + 2 < cn")
    case True
    then obtain nxt st1 where p: "sift_pick pred l rt st = Inr (nxt, st1)"
      and r: "(if nxt = rt then Inr (rt, st1)
        else bindE (sort_swap (l + int rt) (l + int nxt) st1) (\<lambda>st. siftheap_loop pred l cn nxt st)) = Inr (rt', st')"
      using 1(2) unfolding siftheap_loop.simps [of pred l cn rt st] by (auto simp: bindE_eq_Inr_iff)
    have n: "nxt < cn" using sift_pick_range [OF p] True by auto
    show ?thesis
    proof (cases "nxt = rt")
      case True
      then show ?thesis using r 1(3) by simp
    next
      case False
      then obtain st2 where "sort_swap (l + int rt) (l + int nxt) st1 = Inr st2" "siftheap_loop pred l cn nxt st2 = Inr (rt', st')"
        using r by (auto simp: bindE_eq_Inr_iff)
      then show ?thesis using 1(1) [OF True p refl False] n by blast
    qed
  qed (use 1 in \<open>simp add: siftheap_loop.simps [of pred l cn rt st]\<close>)
qed

lemma siftheap_loop_safe:
  "pred_ok pred \<Longrightarrow> 0 \<le> l \<Longrightarrow> l + int cn \<le> int n \<Longrightarrow> rt < cn \<Longrightarrow> len st = n \<Longrightarrow> safe n (siftheap_loop pred l cn rt st)"
proof (induction pred l cn rt st rule: siftheap_loop.induct)
  case (1 pred l cn rt st)
  show ?case
  proof (cases "rt * 2 + 2 < cn")
    case True
    show ?thesis unfolding siftheap_loop.simps [of pred l cn rt st] if_P [OF True]
    proof (rule safe_bind [OF sift_pick_safe [OF 1(2-4) True 1(6)]], unfold prod.case)
      fix nxt st1 assume p: "sift_pick pred l rt st = Inr (nxt, st1)" and l1: "len st1 = n"
      have nx: "nxt < cn" using sift_pick_range [OF p] True by auto
      show "safe n (if nxt = rt then Inr (rt, st1)
          else bindE (sort_swap (l + int rt) (l + int nxt) st1) (\<lambda>st. siftheap_loop pred l cn nxt st))"
      proof (cases "nxt = rt")
        case False
        have s: "safe_st n (sort_swap (l + int rt) (l + int nxt) st1)"
          using 1(3-5) nx l1 by (intro sort_swap_safe) (auto simp: inr_def)
        show ?thesis unfolding if_not_P [OF False]
          by (rule safe_st_bind [OF s]) (use 1(1) [OF True p refl False] 1(2-4) nx in blast)
      qed (use l1 in simp)
    qed
  qed (use 1(6) in \<open>simp add: siftheap_loop.simps [of pred l cn rt st]\<close>)
qed

lemma sort_siftheap_safe:
  assumes "pred_ok pred" and "0 \<le> l" "u < int n" "l + int rt \<le> u" "len st = n"
  shows "safe_st n (sort_siftheap pred l u rt st)"
proof -
  have c: "l + int (nat (u - l + 1)) \<le> int n" "rt < nat (u - l + 1)" using assms by auto
  show ?thesis unfolding sort_siftheap_def Let_def
  proof (rule safe_bind_st [OF siftheap_loop_safe [OF assms(1,2) c assms(5)]], unfold prod.case)
    fix rt' st1 assume a: "siftheap_loop pred l (nat (u - l + 1)) rt st = Inr (rt', st1)" "len st1 = n"
    show "safe_st n (if rt' * 2 + 1 + 1 = nat (u - l + 1)
       then bindE (sort_less pred (l + int rt') (l + int (rt' * 2 + 1)) st1)
         (\<lambda>(b, st). if b then sort_swap (l + int rt') (l + int (rt' * 2 + 1)) st else Inr st) else Inr st1)"
    proof (cases "rt' * 2 + 1 + 1 = nat (u - l + 1)")
      case True
      then have r: "inr n (l + int rt')" "inr n (l + int (rt' * 2 + 1))" using assms by (auto simp: inr_def)
      show ?thesis unfolding if_P [OF True]
      proof (rule safe_bind_st [OF sort_less_safe [OF assms(1) r a(2)]], unfold prod.case)
        fix b st2 assume "sort_less pred (l + int rt') (l + int (rt' * 2 + 1)) st1 = Inr (b, st2)" "len st2 = n"
        then show "safe_st n (if b then sort_swap (l + int rt') (l + int (rt' * 2 + 1)) st2 else Inr st2)"
          using sort_swap_safe [OF r, of st2] by simp
      qed
    qed (use a in simp)
  qed
qed

lemma heapify_safe:
  "pred_ok pred \<Longrightarrow> 0 \<le> l \<Longrightarrow> u < int n \<Longrightarrow> l + int i \<le> u + 1 \<Longrightarrow> len st = n \<Longrightarrow> safe_st n (heapify pred l u i st)"
proof (induction i arbitrary: st)
  case (Suc i)
  then show ?case by (auto intro!: safe_st_bind_st [OF sort_siftheap_safe])
qed simp

lemma heap_pop_safe:
  "pred_ok pred \<Longrightarrow> 0 \<le> l \<Longrightarrow> l + int i < int n \<Longrightarrow> len st = n \<Longrightarrow> safe_st n (heap_pop pred l i st)"
proof (induction i arbitrary: st)
  case (Suc i)
  have s: "safe_st n (sort_swap l (l + int (Suc i)) st)" using Suc.prems by (intro sort_swap_safe) (auto simp: inr_def)
  show ?case unfolding heap_pop.simps
  proof (rule safe_st_bind_st [OF s])
    fix st1 assume "sort_swap l (l + int (Suc i)) st = Inr st1" "len st1 = n"
    then have "safe_st n (sort_siftheap pred l (l + int (Suc i) - 1) 0 st1)"
      using Suc.prems by (intro sort_siftheap_safe) auto
    then show "safe_st n (bindE (sort_siftheap pred l (l + int (Suc i) - 1) 0 st1) (\<lambda>st. heap_pop pred l i st))"
      using Suc by (intro safe_st_bind_st) auto
  qed
qed simp

lemma sort_heap_safe:
  assumes "pred_ok pred" and "0 \<le> l" "l \<le> u" "u < int n" "len st = n"
  shows "safe_st n (sort_heap pred l u st)"
proof -
  have h: "safe_st n (heapify pred l u (nat (u - l + 1) div 2) st)" using assms by (intro heapify_safe) auto
  show ?thesis unfolding sort_heap_def Let_def
    by (rule safe_st_bind_st [OF h]) (use assms in \<open>auto intro!: heap_pop_safe\<close>)
qed

lemma scan_up_safe:
  "pred_ok pred \<Longrightarrow> inr n p \<Longrightarrow> 0 \<le> i + 1 \<Longrightarrow> i < u \<Longrightarrow> u < int n \<Longrightarrow> len st = n \<Longrightarrow> safe n (scan_up pred p u i st)"
proof (induction pred p u i st rule: scan_up.induct)
  case (1 pred p u i st)
  have s: "safe n (sort_less pred (i + 1) p st)" using 1(2-7) by (intro sort_less_safe) (auto simp: inr_def)
  show ?case unfolding scan_up.simps [of pred p u i st] Let_def
  proof (rule safe_bind [OF s], unfold prod.case)
    fix b st1 assume a: "sort_less pred (i + 1) p st = Inr (b, st1)" "len st1 = n"
    then show "safe n (if b then if i + 1 \<ge> u then Inl invalid_order else scan_up pred p u (i + 1) st1 else Inr (i + 1, st1))"
      using 1(1) [OF refl a(1) refl] 1(2-6) by (auto simp: invalid_order_def oob_def)
  qed
qed

lemma scan_down_safe:
  "pred_ok pred \<Longrightarrow> inr n p \<Longrightarrow> 0 \<le> l \<Longrightarrow> l < j \<Longrightarrow> j \<le> int n \<Longrightarrow> len st = n \<Longrightarrow> safe n (scan_down pred p l j st)"
proof (induction pred p l j st rule: scan_down.induct)
  case (1 pred p l j st)
  have s: "safe n (sort_less pred p (j - 1) st)" using 1(2-7) by (intro sort_less_safe) (auto simp: inr_def)
  show ?case unfolding scan_down.simps [of pred p l j st] Let_def
  proof (rule safe_bind [OF s], unfold prod.case)
    fix b st1 assume a: "sort_less pred p (j - 1) st = Inr (b, st1)" "len st1 = n"
    then show "safe n (if b then if j - 1 \<le> l then Inl invalid_order else scan_down pred p l (j - 1) st1 else Inr (j - 1, st1))"
      using 1(1) [OF refl a(1) refl] 1(2-6) by (auto simp: invalid_order_def oob_def)
  qed
qed

lemma partition_loop_safe:
  "pred_ok pred \<Longrightarrow> inr n p \<Longrightarrow> 0 \<le> l \<Longrightarrow> l \<le> i \<Longrightarrow> i < u \<Longrightarrow> l < j \<Longrightarrow> j \<le> u \<Longrightarrow> u < int n \<Longrightarrow> len st = n \<Longrightarrow>
     safe n (partition_loop pred p l u i j st)"
proof (induction pred p l u i j st rule: partition_loop.induct)
  case (1 pred p l u i j st)
  have s1: "safe n (scan_up pred p u i st)" using 1(2-10) by (intro scan_up_safe) auto
  show ?case unfolding partition_loop.simps [of pred p l u i j st]
  proof (rule safe_bind [OF s1], unfold prod.case)
    fix i1 st1 assume a: "scan_up pred p u i st = Inr (i1, st1)" "len st1 = n"
    have s2: "safe n (scan_down pred p l j st1)" using 1(2-10) a(2) by (intro scan_down_safe) auto
    show "safe n (bindE (scan_down pred p l j st1) (\<lambda>(j, st).
        if j < i1 then Inr (i1, st) else bindE (sort_swap i1 j st) (\<lambda>st. partition_loop pred p l u i1 j st)))"
    proof (rule safe_bind [OF s2], unfold prod.case)
      fix j1 st2 assume b: "scan_down pred p l j st1 = Inr (j1, st2)" "len st2 = n"
      note m = scan_up_moves [OF a(1)] scan_down_moves [OF b(1)]
      show "safe n (if j1 < i1 then Inr (i1, st2) else bindE (sort_swap i1 j1 st2) (\<lambda>st. partition_loop pred p l u i1 j1 st))"
      proof (cases "j1 < i1")
        case False
        then have r: "l \<le> i1" "i1 < u" "l < j1" "j1 \<le> u" "inr n i1" "inr n j1" using m 1(4-9) by (auto simp: inr_def)
        have w: "safe_st n (sort_swap i1 j1 st2)" using r b(2) by (intro sort_swap_safe)
        show ?thesis unfolding if_not_P [OF False]
          by (rule safe_st_bind [OF w]) (use 1(1) [OF a(1) refl b(1) refl False] r 1(2-4,9) in blast)
      qed (use b in simp)
    qed
  qed
qed

lemma sort_round_safe:
  assumes ok: "pred_ok pred" and r: "0 \<le> l" "l < u" "u < int n" "len st = n"
  shows "safe n (sort_round pred l u st)"
proof -
  let ?m = "l + (u - l) div 2"
  have i: "inr n l" "inr n u" "inr n ?m" "inr n (u - 1)" using r by (auto simp: inr_def)
  have s1: "safe_st n (less_swap pred u l u l st)" using ok i r(4) by (intro less_swap_safe)
  have s2: "safe_st n (bindE (sort_less pred ?m l st1) (\<lambda>(r, st). if r then sort_swap ?m l st else less_swap pred u ?m ?m u st))"
    if "len st1 = n" for st1
    by (rule safe_bind_st [OF sort_less_safe [OF ok i(3,1) that]]) (use i ok in \<open>auto intro: sort_swap_safe less_swap_safe\<close>)
  have s3: "safe n (bindE (sort_swap ?m (u - 1) st2) (\<lambda>st. bindE (partition_loop pred (u - 1) l u l (u - 1) st) (\<lambda>(i, st).
      bindE (sort_swap (u - 1) i st) (\<lambda>st. Inr (Some i, st)))))" if l2: "len st2 = n" and u: "u - l \<noteq> 1" for st2
  proof (rule safe_st_bind [OF sort_swap_safe [OF i(3,4) l2]])
    fix st3 assume "sort_swap ?m (u - 1) st2 = Inr st3" and l3: "len st3 = n"
    have p: "safe n (partition_loop pred (u - 1) l u l (u - 1) st3)"
      using ok i r l3 u by (intro partition_loop_safe) auto
    show "safe n (bindE (partition_loop pred (u - 1) l u l (u - 1) st3) (\<lambda>(i, st). bindE (sort_swap (u - 1) i st) (\<lambda>st. Inr (Some i, st))))"
    proof (rule safe_bind [OF p], unfold prod.case)
      fix k st4 assume a: "partition_loop pred (u - 1) l u l (u - 1) st3 = Inr (k, st4)" "len st4 = n"
      have "inr n k" using partition_loop_moves [OF a(1)] r by (auto simp: inr_def)
      then have "safe_st n (sort_swap (u - 1) k st4)" using i(4) a(2) by (intro sort_swap_safe)
      then show "safe n (bindE (sort_swap (u - 1) k st4) (\<lambda>st. Inr (Some k, st)))" by (rule safe_st_bind) simp
    qed
  qed
  show ?thesis unfolding sort_round_def Let_def
  proof (rule safe_st_bind [OF s1])
    fix st1 assume "less_swap pred u l u l st = Inr st1" and l1: "len st1 = n"
    show "safe n (if u - l = 1 then Inr (None, st1)
       else bindE (bindE (sort_less pred ?m l st1) (\<lambda>(r, st). if r then sort_swap ?m l st else less_swap pred u ?m ?m u st))
        (\<lambda>st. if u - l = 2 then Inr (None, st)
         else bindE (sort_swap ?m (u - 1) st) (\<lambda>st. bindE (partition_loop pred (u - 1) l u l (u - 1) st) (\<lambda>(i, st).
              bindE (sort_swap (u - 1) i st) (\<lambda>st. Inr (Some i, st))))))"
    proof (cases "u - l = 1")
      case False
      show ?thesis unfolding if_not_P [OF False]
        by (rule safe_st_bind [OF s2 [OF l1]]) (use s3 [OF _ False] in simp)
    qed (use l1 in simp)
  qed
qed

lemma sort_rec_safe:
  "pred_ok pred \<Longrightarrow> 0 \<le> l \<Longrightarrow> u < int n \<Longrightarrow> len st = n \<Longrightarrow> safe_st n (sort_rec pred l u limit st)"
proof (induction pred l u limit st rule: sort_rec.induct)
  case (1 pred l u limit st)
  show ?case
  proof (cases "l < u \<and> limit \<noteq> 0")
    case False
    then show ?thesis using sort_heap_safe [of pred l u n st] 1(5-)
      by (auto simp: sort_rec.simps [of pred l u limit st])
  next
    case True
    then have nl: "\<not> \<not> l < u" "limit \<noteq> 0" by auto
    have s: "safe n (sort_round pred l u st)" using 1(5-) True by (intro sort_round_safe) auto
    show ?thesis unfolding sort_rec.simps [of pred l u limit st] if_not_P [OF nl(1)] if_not_P [OF nl(2)]
    proof (rule safe_bind_st [OF s], unfold prod.case)
      fix pivot st1 assume a: "sort_round pred l u st = Inr (pivot, st1)" "len st1 = n"
      let ?lim = "limit div 2 + limit div 4"
      show "safe_st n (case pivot of None \<Rightarrow> Inr st1 | Some i \<Rightarrow> let limit = ?lim in
          if i - l < u - i then bindE (sort_rec pred l (i - 1) limit st1) (\<lambda>st. sort_rec pred (i + 1) u limit st)
          else bindE (sort_rec pred (i + 1) u limit st1) (\<lambda>st. sort_rec pred l (i - 1) limit st))"
      proof (cases pivot)
        case (Some i)
        have m: "l < i" "i \<le> u" using sort_round_pivot [of pred l u st i st1] a(1) Some True by auto
        note IH = 1(1-4) [OF nl a(1) refl Some refl]
        show ?thesis
        proof (cases "i - l < u - i")
          case True
          have "safe_st n (sort_rec pred l (i - 1) ?lim st1)" using IH(1) [OF True] 1(5-8) m a(2) by auto
          then show ?thesis unfolding Some option.case Let_def if_P [OF True]
            by (rule safe_st_bind_st) (use IH(2) [OF True] 1(5-8) m in auto)
        next
          case False
          have "safe_st n (sort_rec pred (i + 1) u ?lim st1)" using IH(3) [OF False] 1(5-8) m a(2) by auto
          then show ?thesis unfolding Some option.case Let_def if_not_P [OF False]
            by (rule safe_st_bind_st) (use IH(4) [OF False] 1(5-8) m in auto)
        qed
      qed (use a in simp)
    qed
  qed
qed

section \<open>The length before the sort\<close>

lemma luaH_getn_search_frame:
  "array (fst (luaH_getn_search t)) = array t \<and> readonly (fst (luaH_getn_search t)) = readonly t"
  by (simp add: luaH_getn_search_def Let_def maybesetaboundary_same)

lemma updateaboundary_frame:
  "array (fst (updateaboundary t b)) = array t \<and> readonly (fst (updateaboundary t b)) = readonly t"
  by (simp add: updateaboundary_def maybesetaboundary_same)

lemma luaH_getn_frame: "array (fst (luaH_getn t)) = array t \<and> readonly (fst (luaH_getn t)) = readonly t"
  using updateaboundary_frame [of t "getaboundary t"] luaH_getn_search_frame
  by (cases "updateaboundary t (getaboundary t)") (auto simp: luaH_getn_def Let_def)

lemma luaH_getn_le:
  assumes wf: "wf_table t"
  shows "snd (luaH_getn t) \<le> sizearray t"
proof (cases "getaboundary t > 0")
  case False
  then show ?thesis using luaH_getn_search_ok [OF wf] by (simp add: luaH_getn_def Let_def)
next
  case True
  obtain t' fb where u: "updateaboundary t (getaboundary t) = (t', fb)" by (cases "updateaboundary t (getaboundary t)")
  note o = updateaboundary_ok [OF wf True, unfolded u, simplified]
  have "wf_table t'" "sizearray t' = sizearray t" using o updateaboundary_frame [of t "getaboundary t"] u by (auto simp: same_map_def)
  then show ?thesis using luaH_getn_search_ok [of t'] o True u by (simp add: luaH_getn_def Let_def)
qed

end
