(* ===== verification/SortOrder.thy ===== *)
theory SortOrder imports TableSort begin

text \<open>
  The sort of \<open>TableSort\<close> with a comparison that is a strict weak order: the contract as a locale, the correctness of
  the partition, of the heap sort and of the whole inside of it, its interpretations on the default comparison,
  and the properties of \<open>table.sort\<close>.
\<close>

section \<open>Sorting with an order\<close>

text \<open>The arrays that swaps of positions in \<open>[l..u]\<close> can make of an array.\<close>

inductive swaps :: "int \<Rightarrow> int \<Rightarrow> TValue list \<Rightarrow> TValue list \<Rightarrow> bool" for l u where
  swaps_refl: "swaps l u arr arr"
| swaps_step: "swaps l u arr arr' \<Longrightarrow> i \<in> {l..u} \<Longrightarrow> j \<in> {l..u} \<Longrightarrow> in_arr arr' i \<Longrightarrow> in_arr arr' j \<Longrightarrow>
    swaps l u arr (swapped arr' i j)"

lemma length_swapped [simp]: "length (swapped arr i j) = length arr"
  by (simp add: swapped_def)

lemma elt_swapped:
  "in_arr arr i \<Longrightarrow> in_arr arr j \<Longrightarrow> 0 \<le> k \<Longrightarrow>
   elt (swapped arr i j) k = (if k = i then elt arr j else if k = j then elt arr i else elt arr k)"
  by (auto simp: swapped_def elt_def in_arr_def nth_list_update eq_nat_nat_iff)

lemma swaps_length: "swaps l u arr arr' \<Longrightarrow> length arr' = length arr"
  by (induction rule: swaps.induct) auto

lemma swaps_mset: "swaps l u arr arr' \<Longrightarrow> mset arr' = mset arr"
proof (induction rule: swaps.induct)
  case (swaps_step arr arr' i j)
  then show ?case by (simp add: swapped_def elt_def in_arr_def mset_swap nat_less_iff)
qed simp

lemma swaps_outside: "swaps l u arr arr' \<Longrightarrow> 0 \<le> k \<Longrightarrow> k \<notin> {l..u} \<Longrightarrow> elt arr' k = elt arr k"
  by (induction rule: swaps.induct) (auto simp: elt_swapped)

lemma swaps_inside: "swaps l u arr arr' \<Longrightarrow> 0 \<le> l \<Longrightarrow> k \<in> {l..u} \<Longrightarrow> \<exists>k' \<in> {l..u}. elt arr' k = elt arr k'"
proof (induction arbitrary: k rule: swaps.induct)
  case (swaps_step arr arr' i j)
  then show ?case by (auto simp: elt_swapped)
qed auto

lemma swaps_trans: "swaps l u arr2 arr3 \<Longrightarrow> swaps l u arr1 arr2 \<Longrightarrow> swaps l u arr1 arr3"
  by (induction rule: swaps.induct) (auto intro: swaps.intros)

lemma swaps_mono: "swaps l' u' arr arr' \<Longrightarrow> l \<le> l' \<Longrightarrow> u' \<le> u \<Longrightarrow> swaps l u arr arr'"
  by (induction rule: swaps.induct) (auto intro: swaps.intros)

lemma swaps_one: "i \<in> {l..u} \<Longrightarrow> j \<in> {l..u} \<Longrightarrow> in_arr arr i \<Longrightarrow> in_arr arr j \<Longrightarrow> swaps l u arr (swapped arr i j)"
  by (auto intro: swaps.intros)

text \<open>
  A comparison that is a strict weak order on the carrier \<open>A\<close>, keeps its state and leaves the array
  alone. \<open>le a b\<close> says that \<open>b\<close> does not come before \<open>a\<close>.
\<close>

locale sort_order =
  fixes pred :: "'w SortPredicate" and lt :: "TValue \<Rightarrow> TValue \<Rightarrow> bool" and A :: "TValue set"
  assumes pred_pure: "a \<in> A \<Longrightarrow> b \<in> A \<Longrightarrow> pred w arr a b = Inr (lt a b, w, arr)"
    and lt_asym: "a \<in> A \<Longrightarrow> b \<in> A \<Longrightarrow> lt a b \<Longrightarrow> \<not> lt b a"
    and lt_weak: "a \<in> A \<Longrightarrow> b \<in> A \<Longrightarrow> c \<in> A \<Longrightarrow> lt a c \<Longrightarrow> lt a b \<or> lt b c"
begin

abbreviation le :: "TValue \<Rightarrow> TValue \<Rightarrow> bool" where
  "le a b \<equiv> \<not> lt b a"

definition good :: "int \<Rightarrow> int \<Rightarrow> TValue list \<Rightarrow> bool" where
  "good l u arr \<longleftrightarrow> 0 \<le> l \<and> u < int (length arr) \<and> (\<forall>k \<in> {l..u}. elt arr k \<in> A)"

definition ordered :: "int \<Rightarrow> int \<Rightarrow> TValue list \<Rightarrow> bool" where
  "ordered l u arr \<longleftrightarrow> (\<forall>i \<in> {l..u}. \<forall>j \<in> {l..u}. i < j \<longrightarrow> le (elt arr i) (elt arr j))"

lemma le_refl: "a \<in> A \<Longrightarrow> le a a"
  using lt_asym by blast

lemma le_trans: "a \<in> A \<Longrightarrow> b \<in> A \<Longrightarrow> c \<in> A \<Longrightarrow> le a b \<Longrightarrow> le b c \<Longrightarrow> le a c"
  using lt_weak by blast

lemma lt_le: "a \<in> A \<Longrightarrow> b \<in> A \<Longrightarrow> lt a b \<Longrightarrow> le a b"
  using lt_asym by blast

lemma goodD: "good l u arr \<Longrightarrow> k \<in> {l..u} \<Longrightarrow> elt arr k \<in> A" "good l u arr \<Longrightarrow> k \<in> {l..u} \<Longrightarrow> in_arr arr k"
  "good l u arr \<Longrightarrow> 0 \<le> l" "good l u arr \<Longrightarrow> u < int (length arr)"
  by (auto simp: good_def in_arr_def)

lemma good_mono: "good l u arr \<Longrightarrow> l \<le> l' \<Longrightarrow> u' \<le> u \<Longrightarrow> good l' u' arr"
  by (auto simp: good_def)

lemma good_swaps: "swaps l u arr arr' \<Longrightarrow> good l u arr \<Longrightarrow> good l u arr'"
  unfolding good_def using swaps_inside [of l u arr arr'] swaps_length [of l u arr arr'] by fastforce

lemma less_pure:
  "good l u arr \<Longrightarrow> i \<in> {l..u} \<Longrightarrow> j \<in> {l..u} \<Longrightarrow> sort_less pred i j (w, arr) = Inr (lt (elt arr i) (elt arr j), w, arr)"
  using goodD(1,2) [of l u arr i] goodD(1,2) [of l u arr j] by (simp add: sort_less_def pred_pure)

lemma swap_pure:
  "good l u arr \<Longrightarrow> i \<in> {l..u} \<Longrightarrow> j \<in> {l..u} \<Longrightarrow> sort_swap i j (w, arr) = Inr (w, swapped arr i j)"
  using goodD(2) [of l u arr i] goodD(2) [of l u arr j] by (simp add: sort_swap_def)

lemma good_swapped: "good l u arr \<Longrightarrow> i \<in> {l..u} \<Longrightarrow> j \<in> {l..u} \<Longrightarrow> good l u (swapped arr i j)"
  by (meson good_swaps goodD(2) swaps_one)

lemma elt_good_swapped:
  "good l u arr \<Longrightarrow> i \<in> {l..u} \<Longrightarrow> j \<in> {l..u} \<Longrightarrow> 0 \<le> k \<Longrightarrow>
   elt (swapped arr i j) k = (if k = i then elt arr j else if k = j then elt arr i else elt arr k)"
  using elt_swapped [OF goodD(2) [of l u arr i] goodD(2) [of l u arr j]] by simp

lemma swaps_good_one: "good l u arr \<Longrightarrow> i \<in> {l..u} \<Longrightarrow> j \<in> {l..u} \<Longrightarrow> swaps l u arr (swapped arr i j)"
  by (meson swaps_one goodD(2))

subsection \<open>The partition\<close>

lemma scan_up_pure:
  "good l u arr \<Longrightarrow> p \<in> {l..<u} \<Longrightarrow> l \<le> i \<Longrightarrow> i < p \<Longrightarrow>
   \<exists>i'. scan_up pred p u i (w, arr) = Inr (i', w, arr) \<and> i < i' \<and> i' \<le> p \<and>
     (\<forall>k. i < k \<longrightarrow> k < i' \<longrightarrow> lt (elt arr k) (elt arr p)) \<and> le (elt arr p) (elt arr i')"
proof (induction "nat (p - i)" arbitrary: i)
  case (Suc n)
  have s: "sort_less pred (i + 1) p (w, arr) = Inr (lt (elt arr (i + 1)) (elt arr p), w, arr)"
    using Suc by (intro less_pure [of l u]) auto
  show ?case
  proof (cases "lt (elt arr (i + 1)) (elt arr p)")
    case False
    then show ?thesis using Suc by (auto simp: scan_up.simps [of pred p u i] s intro!: exI [of _ "i + 1"])
  next
    case True
    have "i + 1 \<noteq> p" using True le_refl [OF goodD(1) [of l u arr p]] Suc by auto
    then have "n = nat (p - (i + 1))" "l \<le> i + 1" "i + 1 < p" using Suc(2-) by auto
    then obtain i' where i': "scan_up pred p u (i + 1) (w, arr) = Inr (i', w, arr)" "i + 1 < i'" "i' \<le> p"
      "\<And>k. i + 1 < k \<Longrightarrow> k < i' \<Longrightarrow> lt (elt arr k) (elt arr p)" "le (elt arr p) (elt arr i')"
      using Suc(1) [OF _ Suc(3,4)] by blast
    have "lt (elt arr k) (elt arr p)" if "i < k" "k < i'" for k
      using i'(4) [of k] True that by (cases "k = i + 1") auto
    then show ?thesis using i' True Suc by (auto simp: scan_up.simps [of pred p u i] s)
  qed
qed simp

lemma scan_down_pure:
  "good l u arr \<Longrightarrow> p \<in> {l..<u} \<Longrightarrow> l < j \<Longrightarrow> j \<le> p \<Longrightarrow> le (elt arr l) (elt arr p) \<Longrightarrow>
   \<exists>j'. scan_down pred p l j (w, arr) = Inr (j', w, arr) \<and> l \<le> j' \<and> j' < j \<and>
     (\<forall>k. j' < k \<longrightarrow> k < j \<longrightarrow> lt (elt arr p) (elt arr k)) \<and> le (elt arr j') (elt arr p)"
proof (induction "nat (j - l)" arbitrary: j)
  case (Suc n)
  have s: "sort_less pred p (j - 1) (w, arr) = Inr (lt (elt arr p) (elt arr (j - 1)), w, arr)"
    using Suc by (intro less_pure [of l u]) auto
  show ?case
  proof (cases "lt (elt arr p) (elt arr (j - 1))")
    case False
    then show ?thesis using Suc by (auto simp: scan_down.simps [of pred p l j] s intro!: exI [of _ "j - 1"])
  next
    case True
    have "j - 1 \<noteq> l" using True Suc by auto
    then have "n = nat (j - 1 - l)" "l < j - 1" "j - 1 \<le> p" using Suc(2-) by auto
    then obtain j' where j': "scan_down pred p l (j - 1) (w, arr) = Inr (j', w, arr)" "l \<le> j'" "j' < j - 1"
      "\<And>k. j' < k \<Longrightarrow> k < j - 1 \<Longrightarrow> lt (elt arr p) (elt arr k)" "le (elt arr j') (elt arr p)"
      using Suc(1) [OF _ Suc(3,4) _ _ Suc(7)] by blast
    have "lt (elt arr p) (elt arr k)" if "j' < k" "k < j" for k
      using j'(4) [of k] True that by (cases "k = j - 1") auto
    then show ?thesis using j' True Suc by (auto simp: scan_down.simps [of pred p l j] s)
  qed
qed simp

text \<open>A point of the partition: everything before \<open>i\<close> is at most, everything from \<open>j\<close> on at least the pivot.\<close>

definition parted :: "int \<Rightarrow> int \<Rightarrow> TValue \<Rightarrow> int \<Rightarrow> int \<Rightarrow> TValue list \<Rightarrow> bool" where
  "parted l u x i j arr \<longleftrightarrow> (\<forall>k \<in> {l..i}. le (elt arr k) x) \<and> (\<forall>k \<in> {j..u}. le x (elt arr k))"

lemma partition_loop_pure:
  "good l u arr \<Longrightarrow> p = u - 1 \<Longrightarrow> l \<le> i \<Longrightarrow> i < p \<Longrightarrow> l < j \<Longrightarrow> j \<le> p \<Longrightarrow> parted l u (elt arr p) i j arr \<Longrightarrow>
   \<exists>i' arr'. partition_loop pred p l u i j (w, arr) = Inr (i', w, arr') \<and> swaps l u arr arr' \<and> elt arr' p = elt arr p \<and>
     l < i' \<and> i' \<le> p \<and> parted l u (elt arr p) (i' - 1) i' arr'"
proof (induction "nat (j - i)" arbitrary: i j arr rule: less_induct)
  case less
  note g = less(2) and p = less(3) and ij = less(4-7) and part = less(8)
  have pr: "p \<in> {l..<u}" "p \<in> {l..u}" "0 \<le> l" using p ij goodD(3) [OF g] by auto
  have Ap: "elt arr p \<in> A" using goodD(1) [OF g pr(2)] .
  have "le (elt arr l) (elt arr p)" using part ij by (simp add: parted_def)
  then obtain j' where j': "scan_down pred p l j (w, arr) = Inr (j', w, arr)" "l \<le> j'" "j' < j"
    "\<And>k. j' < k \<Longrightarrow> k < j \<Longrightarrow> lt (elt arr p) (elt arr k)" "le (elt arr j') (elt arr p)"
    using scan_down_pure [OF g pr(1) ij(3,4)] by blast
  obtain i' where i': "scan_up pred p u i (w, arr) = Inr (i', w, arr)" "i < i'" "i' \<le> p"
    "\<And>k. i < k \<Longrightarrow> k < i' \<Longrightarrow> lt (elt arr k) (elt arr p)" "le (elt arr p) (elt arr i')"
    using scan_up_pure [OF g pr(1) ij(1,2)] by blast
  have low: "le (elt arr k) (elt arr p)" if "l \<le> k" "k < i'" for k
  proof (cases "k \<le> i")
    case True
    then show ?thesis using part that by (simp add: parted_def)
  next
    case False
    then show ?thesis using i' that ij p by (intro lt_le goodD(1) [OF g] Ap) auto
  qed
  have high: "le (elt arr p) (elt arr k)" if "j' < k" "k \<le> u" for k
  proof (cases "j \<le> k")
    case True
    then show ?thesis using part that by (simp add: parted_def)
  next
    case False
    then show ?thesis using j' that ij p by (intro lt_le goodD(1) [OF g] Ap) auto
  qed
  show ?case
  proof (cases "j' < i'")
    case True
    then have "parted l u (elt arr p) (i' - 1) i' arr" using low high by (auto simp: parted_def)
    then show ?thesis using True i' j' ij
      by (auto simp: partition_loop.simps [of pred p l u i j] intro!: exI [of _ i'] exI [of _ arr] swaps_refl)
  next
    case False
    let ?arr = "swapped arr i' j'"
    have r: "i' \<in> {l..u}" "j' \<in> {l..u}" using i' j' ij p False by auto
    note el = elt_good_swapped [OF g r]
    have P: "elt ?arr p = elt arr p" using el [of p] pr False i' j' ij by auto
    have lo: "le (elt ?arr k) (elt arr p)" if "k \<in> {l..i'}" for k
      using el [of k] that pr(3) low [of k] j'(5) False by (auto split: if_splits)
    have hi: "le (elt arr p) (elt ?arr k)" if "k \<in> {j'..u}" for k
      using el [of k] that pr(3) r(2) high [of k] i'(5) False by (cases "k = j'") (auto split: if_splits)
    have part': "parted l u (elt ?arr p) i' j' ?arr" unfolding P parted_def using lo hi by blast
    have m: "nat (j' - i') < nat (j - i)" "l \<le> i'" "i' < p" "l < j'" "j' \<le> p" using i' j' ij False by auto
    obtain i'' arr' where IH: "partition_loop pred p l u i' j' (w, ?arr) = Inr (i'', w, arr')" "swaps l u ?arr arr'"
      "elt arr' p = elt ?arr p" "l < i''" "i'' \<le> p" "parted l u (elt ?arr p) (i'' - 1) i'' arr'"
      using less(1) [OF m(1) good_swapped [OF g r] p m(2-5) part'] by blast
    have "partition_loop pred p l u i j (w, arr) = Inr (i'', w, arr')"
      using False i'(1) j'(1) IH(1) swap_pure [OF g r, of w] by (simp add: partition_loop.simps [of pred p l u i j])
    then show ?thesis using IH P swaps_trans [OF IH(2) swaps_good_one [OF g r]] by auto
  qed
qed

text \<open>The median of three.\<close>

lemma less_swap_pure:
  assumes "good l u arr" "a \<in> {l..u}" "b \<in> {l..u}" "x \<in> {l..u}" "y \<in> {l..u}"
  shows "less_swap pred a b x y (w, arr) = Inr (w, if lt (elt arr a) (elt arr b) then swapped arr x y else arr)"
  using assms by (simp add: less_swap_def less_pure swap_pure)

definition median :: "int \<Rightarrow> int \<Rightarrow> int \<Rightarrow> TValue list \<Rightarrow> TValue list" where
  "median l m u arr =
     (let arr = (if lt (elt arr u) (elt arr l) then swapped arr u l else arr) in
      if lt (elt arr m) (elt arr l) then swapped arr m l
      else if lt (elt arr u) (elt arr m) then swapped arr m u else arr)"

lemma median_ordered:
  assumes g: "good l u arr" and m: "l < m" "m < u"
  shows "swaps l u arr (median l m u arr)"
    and "le (elt (median l m u arr) l) (elt (median l m u arr) m)"
    and "le (elt (median l m u arr) m) (elt (median l m u arr) u)"
proof -
  let ?a = "if lt (elt arr u) (elt arr l) then swapped arr u l else arr"
  let ?b = "if lt (elt ?a m) (elt ?a l) then swapped ?a m l
      else if lt (elt ?a u) (elt ?a m) then swapped ?a m u else ?a"
  have r: "l \<in> {l..u}" "m \<in> {l..u}" "u \<in> {l..u}" "0 \<le> l" "0 \<le> m" "0 \<le> u" using m goodD(3) [OF g] by auto
  have A: "elt arr l \<in> A" "elt arr m \<in> A" "elt arr u \<in> A" using r goodD(1) [OF g] by auto
  have ga: "good l u ?a" using g r good_swapped by auto
  have sa: "swaps l u arr ?a" using swaps_good_one [OF g r(3,1)] swaps_refl by auto
  have sb: "swaps l u ?a ?b" using swaps_good_one [OF ga r(2,1)] swaps_good_one [OF ga r(2,3)] swaps_refl by auto
  have b: "median l m u arr = ?b" by (simp add: median_def Let_def)
  show "swaps l u arr (median l m u arr)" unfolding b by (rule swaps_trans [OF sb sa])
  have Aa: "elt ?a l \<in> A" "elt ?a m \<in> A" "elt ?a u \<in> A" using r goodD(1) [OF ga] by auto
  have a: "le (elt ?a l) (elt ?a u)" using lt_le [OF A(3,1)] elt_good_swapped [OF g r(3,1)] r m by auto
  have e1: "elt (swapped ?a m l) k = (if k = m then elt ?a l else if k = l then elt ?a m else elt ?a k)" if "0 \<le> k" for k
    using elt_good_swapped [OF ga r(2,1) that] .
  have e2: "elt (swapped ?a m u) k = (if k = m then elt ?a u else if k = u then elt ?a m else elt ?a k)" if "0 \<le> k" for k
    using elt_good_swapped [OF ga r(2,3) that] .
  show "le (elt (median l m u arr) l) (elt (median l m u arr) m)"
    unfolding b using e1 e2 r m a lt_le [OF Aa(2,1)] by auto
  show "le (elt (median l m u arr) m) (elt (median l m u arr) u)"
    unfolding b using e1 e2 r m a lt_le [OF Aa(3,2)] by auto
qed

lemma sort_round_pure:
  assumes g: "good l u arr" and lu: "l < u"
  shows "\<exists>pivot arr'. sort_round pred l u (w, arr) = Inr (pivot, w, arr') \<and> swaps l u arr arr' \<and>
    (case pivot of None \<Rightarrow> ordered l u arr'
     | Some i \<Rightarrow> l < i \<and> i \<le> u \<and> parted l u (elt arr' i) i i arr')"
proof -
  have r: "l \<in> {l..u}" "u \<in> {l..u}" "0 \<le> l" using lu goodD(3) [OF g] by auto
  let ?a = "if lt (elt arr u) (elt arr l) then swapped arr u l else arr"
  have first: "less_swap pred u l u l (w, arr) = Inr (w, ?a)" using less_swap_pure [OF g r(2,1,2,1)] .
  have ga: "good l u ?a" and sa: "swaps l u arr ?a"
    using good_swapped [OF g r(2,1)] swaps_good_one [OF g r(2,1)] g swaps_refl by auto
  have A: "elt arr l \<in> A" "elt arr u \<in> A" using r goodD(1) [OF g] by auto
  show ?thesis
  proof (cases "u - l = 1")
    case True
    have "le (elt ?a l) (elt ?a u)" using lt_le [OF A(2,1)] elt_good_swapped [OF g r(2,1)] r lu by auto
    moreover have "{l..u} = {l, u}" using True by auto
    ultimately have "ordered l u ?a" using True unfolding ordered_def by auto
    then show ?thesis using True sa
      by (auto simp: sort_round_def first intro!: exI [of _ None] exI [of _ ?a])
  next
    case u1: False
    let ?m = "l + (u - l) div 2" and ?b = "median l (l + (u - l) div 2) u arr"
    have m: "l < ?m" "?m < u" using lu u1 by auto
    have rm: "?m \<in> {l..u}" using m by auto
    have second: "bindE (sort_less pred ?m l (w, ?a)) (\<lambda>(r, st). if r then sort_swap ?m l st else less_swap pred u ?m ?m u st)
        = Inr (w, ?b)"
      using less_pure [OF ga rm r(1), of w] swap_pure [OF ga rm r(1), of w] less_swap_pure [OF ga r(2) rm rm r(2), of w]
      by (simp add: median_def)
    note sb = median_ordered(1) [OF g m] and lm = median_ordered(2,3) [OF g m]
    note gb = good_swaps [OF sb g]
    show ?thesis
    proof (cases "u - l = 2")
      case True
      then have mm: "?m = l + 1" "{l..u} = {l, ?m, u}" by auto
      have "le (elt ?b l) (elt ?b u)" using lm goodD(1) [OF gb] r rm le_trans by blast
      then have "ordered l u ?b" unfolding ordered_def mm(2) using lm m by auto
      moreover have "sort_round pred l u (w, arr) = Inr (None, w, ?b)"
        unfolding sort_round_def Let_def first bindE_simps if_not_P [OF u1] second using True by simp
      ultimately show ?thesis using sb by (auto intro!: exI [of _ None])
    next
      case u2: False
      let ?c = "swapped ?b ?m (u - 1)"
      have rp: "u - 1 \<in> {l..u}" "?m \<noteq> u" "?m \<le> u - 1" using lu u1 u2 by auto
      have gc: "good l u ?c" using good_swapped [OF gb rm rp(1)] .
      note ec = elt_good_swapped [OF gb rm rp(1)]
      have x: "elt ?c (u - 1) = elt ?b ?m" using ec [of "u - 1"] r lu by auto
      have "elt ?c l = elt ?b l" "elt ?c u = elt ?b u" using ec [of l] ec [of u] r m lu u1 by auto
      then have part: "parted l u (elt ?c (u - 1)) l (u - 1) ?c"
        using lm x le_refl [OF goodD(1) [OF gb rm]] by (auto simp: parted_def dest!: order_le_imp_less_or_eq)
      have lu': "l < u - 1" using lu u1 by simp
      obtain i d where d: "partition_loop pred (u - 1) l u l (u - 1) (w, ?c) = Inr (i, w, d)" "swaps l u ?c d"
        "elt d (u - 1) = elt ?c (u - 1)" "l < i" "i \<le> u - 1" "parted l u (elt ?c (u - 1)) (i - 1) i d"
        using partition_loop_pure [OF gc refl order_refl lu' lu' order_refl part, of w] by blast
      have gd: "good l u d" using good_swaps [OF d(2) gc] .
      have ri: "i \<in> {l..u}" using d by auto
      let ?e = "swapped d (u - 1) i"
      note ee = elt_good_swapped [OF gd rp(1) ri]
      have ei: "elt ?e i = elt ?c (u - 1)" using ee [of i] d r by auto
      have Ai: "elt ?c (u - 1) \<in> A" using goodD(1) [OF gc rp(1)] .
      have lo: "le (elt ?e k) (elt ?e i)" if "k \<in> {l..i}" for k
        using d(5,6) ee [of k] ei le_refl [OF Ai] that r by (cases "k = i") (auto simp: parted_def)
      have hi: "le (elt ?e i) (elt ?e k)" if "k \<in> {i..u}" for k
        using d(3,4,5,6) ee [of k] ei le_refl [OF Ai] that r by (auto simp: parted_def)
      have "parted l u (elt ?e i) i i ?e" unfolding parted_def using lo hi by blast
      moreover have "swaps l u arr ?e"
        using swaps_trans [OF swaps_good_one [OF gd rp(1) ri] swaps_trans [OF d(2) swaps_trans [OF swaps_good_one [OF gb rm rp(1)] sb]]] .
      moreover have "sort_round pred l u (w, arr) = Inr (Some i, w, ?e)"
        using u1 u2 d(1) swap_pure [OF gb rm rp(1), of w] swap_pure [OF gd rp(1) ri, of w]
        by (simp add: sort_round_def Let_def first second)
      ultimately show ?thesis using d by (auto intro!: exI [of _ "Some i"] exI [of _ ?e])
    qed
  qed
qed

subsection \<open>Heap sort\<close>

text \<open>
  The heap over \<open>cn\<close> elements from \<open>l\<close>: from the node \<open>s\<close> on, no child comes after its parent; \<open>heap_but\<close>
  leaves out a node, whose children are still at most its parent.
\<close>

definition heap_from :: "int \<Rightarrow> nat \<Rightarrow> nat \<Rightarrow> TValue list \<Rightarrow> bool" where
  "heap_from l cn s arr \<longleftrightarrow>
     (\<forall>k c. s \<le> k \<longrightarrow> c < cn \<longrightarrow> c = k * 2 + 1 \<or> c = k * 2 + 2 \<longrightarrow> le (elt arr (l + int c)) (elt arr (l + int k)))"

definition heap_but :: "int \<Rightarrow> nat \<Rightarrow> nat \<Rightarrow> nat \<Rightarrow> TValue list \<Rightarrow> bool" where
  "heap_but l cn s rt arr \<longleftrightarrow>
     (\<forall>k c. s \<le> k \<longrightarrow> k \<noteq> rt \<longrightarrow> c < cn \<longrightarrow> c = k * 2 + 1 \<or> c = k * 2 + 2 \<longrightarrow> le (elt arr (l + int c)) (elt arr (l + int k))) \<and>
     (\<forall>k c. s \<le> k \<longrightarrow> rt = k * 2 + 1 \<or> rt = k * 2 + 2 \<longrightarrow> c < cn \<longrightarrow> c = rt * 2 + 1 \<or> c = rt * 2 + 2 \<longrightarrow>
        le (elt arr (l + int c)) (elt arr (l + int k)))"

lemma heap_but_child:
  "heap_but l cn s rt arr \<Longrightarrow> s \<le> k \<Longrightarrow> k \<noteq> rt \<Longrightarrow> c < cn \<Longrightarrow> c = k * 2 + 1 \<or> c = k * 2 + 2 \<Longrightarrow>
   le (elt arr (l + int c)) (elt arr (l + int k))"
  unfolding heap_but_def by blast

lemma heap_but_parent:
  "heap_but l cn s rt arr \<Longrightarrow> s \<le> k \<Longrightarrow> rt = k * 2 + 1 \<or> rt = k * 2 + 2 \<Longrightarrow> c < cn \<Longrightarrow> c = rt * 2 + 1 \<or> c = rt * 2 + 2 \<Longrightarrow>
   le (elt arr (l + int c)) (elt arr (l + int k))"
  unfolding heap_but_def by blast

lemma heap_but_full:
  assumes "heap_but l cn s rt arr"
    and "\<And>c. c < cn \<Longrightarrow> c = rt * 2 + 1 \<or> c = rt * 2 + 2 \<Longrightarrow> le (elt arr (l + int c)) (elt arr (l + int rt))"
  shows "heap_from l cn s arr"
  unfolding heap_from_def using heap_but_child [OF assms(1)] assms(2) by blast

lemma heap_from_but: "heap_from l cn (Suc rt) arr \<Longrightarrow> heap_but l cn rt rt arr"
  unfolding heap_from_def heap_but_def by auto

text \<open>A swap of the root with its greatest child moves the hole down.\<close>

lemma heap_but_sink:
  assumes h: "heap_but l cn s rt arr" and g: "good l (l + int cn - 1) arr" and s: "s \<le> rt"
    and nx: "nxt = rt * 2 + 1 \<or> nxt = rt * 2 + 2" "nxt < cn"
    and top: "\<And>c. c < cn \<Longrightarrow> c = rt * 2 + 1 \<or> c = rt * 2 + 2 \<Longrightarrow> le (elt arr (l + int c)) (elt arr (l + int nxt))"
    and up: "le (elt arr (l + int rt)) (elt arr (l + int nxt))"
  shows "heap_but l cn s nxt (swapped arr (l + int rt) (l + int nxt))"
proof -
  let ?b = "swapped arr (l + int rt) (l + int nxt)"
  have l0: "0 \<le> l" using goodD(3) [OF g] .
  have r: "l + int rt \<in> {l..l + int cn - 1}" "l + int nxt \<in> {l..l + int cn - 1}" using nx by auto
  have e: "elt ?b (l + int k) = (if k = rt then elt arr (l + int nxt) else if k = nxt then elt arr (l + int rt) else elt arr (l + int k))" for k
    using elt_good_swapped [OF g r, of "l + int k"] l0 by simp
  have child: "le (elt ?b (l + int c)) (elt ?b (l + int k))"
    if k: "s \<le> k" "k \<noteq> nxt" "c < cn" "c = k * 2 + 1 \<or> c = k * 2 + 2" for k c
  proof (cases "k = rt")
    case True
    then have "c \<noteq> rt" using k by auto
    then show ?thesis using True top [OF k(3)] up k nx by (auto simp: e)
  next
    case False
    show ?thesis
    proof (cases "c = rt")
      case True
      then show ?thesis using heap_but_parent [OF h k(1) _ nx(2,1)] k False by (auto simp: e)
    next
      case f2: False
      have "c \<noteq> nxt" using k(4) nx(1) False by arith
      then show ?thesis using heap_but_child [OF h k(1) False k(3,4)] f2 False k(2) by (simp add: e)
    qed
  qed
  moreover have "le (elt ?b (l + int c)) (elt ?b (l + int k))"
    if k: "s \<le> k" "nxt = k * 2 + 1 \<or> nxt = k * 2 + 2" "c < cn" "c = nxt * 2 + 1 \<or> c = nxt * 2 + 2" for k c
  proof -
    have kr: "k = rt" using k(2) nx(1) by arith
    have "c \<noteq> rt" "c \<noteq> nxt" using nx(1) k(4) by arith+
    moreover have "le (elt arr (l + int c)) (elt arr (l + int nxt))"
      using heap_but_child [OF h _ _ k(3,4)] s nx(1) by auto
    ultimately show ?thesis by (simp add: e kr)
  qed
  ultimately show ?thesis unfolding heap_but_def by blast
qed

lemma sift_pick_pure:
  assumes g: "good l (l + int cn - 1) arr" and c: "rt * 2 + 2 < cn"
  shows "\<exists>nxt. sift_pick pred l rt (w, arr) = Inr (nxt, w, arr) \<and> nxt \<in> {rt, rt * 2 + 1, rt * 2 + 2} \<and>
    (\<forall>x \<in> {rt, rt * 2 + 1, rt * 2 + 2}. le (elt arr (l + int x)) (elt arr (l + int nxt)))"
proof -
  define L R where LR: "L = rt * 2 + 1" "R = rt * 2 + 2"
  let ?e = "\<lambda>x. elt arr (l + int x)"
  have r: "l + int x \<in> {l..l + int cn - 1}" if "x \<in> {rt, L, R}" for x using that c LR by auto
  have A: "?e x \<in> A" if "x \<in> {rt, L, R}" for x using goodD(1) [OF g r [OF that]] .
  have i: "rt \<in> {rt, L, R}" "L \<in> {rt, L, R}" "R \<in> {rt, L, R}" by auto
  define n1 where "n1 = (if lt (?e rt) (?e L) then L else rt)"
  define n2 where "n2 = (if lt (?e n1) (?e R) then R else n1)"
  have n1: "n1 \<in> {rt, L, R}" "le (?e rt) (?e n1)" "le (?e L) (?e n1)"
    using lt_le [OF A A, OF i(1,2)] le_refl [OF A [OF i(1)]] le_refl [OF A [OF i(2)]] by (auto simp: n1_def)
  have n2: "n2 \<in> {rt, L, R}" "le (?e n1) (?e n2)" "le (?e R) (?e n2)"
    using lt_le [OF A A, OF n1(1) i(3)] le_refl [OF A [OF i(3)]] le_refl [OF A [OF n1(1)]] n1(1) by (auto simp: n2_def)
  have "le (?e rt) (?e n2)" "le (?e L) (?e n2)"
    using le_trans [OF A A A, OF i(1) n1(1) n2(1) n1(2) n2(2)] le_trans [OF A A A, OF i(2) n1(1) n2(1) n1(3) n2(2)] .
  moreover have "sift_pick pred l rt (w, arr) = Inr (n2, w, arr)"
    unfolding sift_pick_def Let_def LR [symmetric] less_pure [OF g r [OF i(1)] r [OF i(2)], of w] bindE_simps prod.case
    using less_pure [OF g r [OF n1(1)] r [OF i(3)], of w] by (simp add: n1_def n2_def)
  ultimately show ?thesis using n2 unfolding LR by blast
qed

lemma siftheap_loop_pure:
  "good l (l + int cn - 1) arr \<Longrightarrow> heap_but l cn s rt arr \<Longrightarrow> s \<le> rt \<Longrightarrow> rt < cn \<Longrightarrow>
   \<exists>rt' arr'. siftheap_loop pred l cn rt (w, arr) = Inr (rt', w, arr') \<and> swaps l (l + int cn - 1) arr arr' \<and>
     s \<le> rt' \<and> rt' < cn \<and> heap_but l cn s rt' arr' \<and> (rt' * 2 + 2 < cn \<longrightarrow> heap_from l cn s arr')"
proof (induction "cn - rt" arbitrary: rt arr rule: less_induct)
  case less
  note g = less(2) and h = less(3) and s = less(4) and c = less(5)
  show ?case
  proof (cases "rt * 2 + 2 < cn")
    case False
    then show ?thesis using h s c by (auto simp: siftheap_loop.simps [of pred l cn rt] intro!: exI [of _ rt] exI [of _ arr] swaps_refl)
  next
    case True
    obtain nxt where p: "sift_pick pred l rt (w, arr) = Inr (nxt, w, arr)" "nxt \<in> {rt, rt * 2 + 1, rt * 2 + 2}"
      and mx: "\<And>x. x \<in> {rt, rt * 2 + 1, rt * 2 + 2} \<Longrightarrow> le (elt arr (l + int x)) (elt arr (l + int nxt))"
      using sift_pick_pure [OF g True, of w] by blast
    show ?thesis
    proof (cases "nxt = rt")
      case e: True
      have "heap_from l cn s arr" by (rule heap_but_full [OF h]) (use mx e in blast)
      then show ?thesis using True h s c p(1) e
        by (auto simp: siftheap_loop.simps [of pred l cn rt] intro!: exI [of _ rt] exI [of _ arr] swaps_refl)
    next
      case False
      let ?b = "swapped arr (l + int rt) (l + int nxt)"
      have nx: "nxt = rt * 2 + 1 \<or> nxt = rt * 2 + 2" "nxt < cn" using p(2) False True by auto
      have r: "l + int rt \<in> {l..l + int cn - 1}" "l + int nxt \<in> {l..l + int cn - 1}" using nx c by auto
      have hb: "heap_but l cn s nxt ?b" by (rule heap_but_sink [OF h g s nx]) (use mx in blast)+
      have m: "cn - nxt < cn - rt" "s \<le> nxt" using nx s by auto
      obtain rt' arr' where IH: "siftheap_loop pred l cn nxt (w, ?b) = Inr (rt', w, arr')" "swaps l (l + int cn - 1) ?b arr'"
        "s \<le> rt' \<and> rt' < cn \<and> heap_but l cn s rt' arr' \<and> (rt' * 2 + 2 < cn \<longrightarrow> heap_from l cn s arr')"
        using less(1) [OF m(1) good_swapped [OF g r] hb m(2) nx(2)] by blast
      have "siftheap_loop pred l cn rt (w, arr) = Inr (rt', w, arr')"
        using True False p(1) IH(1) swap_pure [OF g r, of w] by (simp add: siftheap_loop.simps [of pred l cn rt])
      then show ?thesis using IH(3) swaps_trans [OF IH(2) swaps_good_one [OF g r]] by blast
    qed
  qed
qed

lemma sort_siftheap_pure:
  assumes g: "good l u arr" and h: "heap_but l (nat (u - l + 1)) s rt arr" and s: "s \<le> rt" "l + int rt \<le> u"
  shows "\<exists>arr'. sort_siftheap pred l u rt (w, arr) = Inr (w, arr') \<and> swaps l u arr arr' \<and> heap_from l (nat (u - l + 1)) s arr'"
proof -
  define cn where "cn = nat (u - l + 1)"
  have u: "l + int cn - 1 = u" "rt < cn" using s by (auto simp: cn_def)
  obtain x b where l: "siftheap_loop pred l cn rt (w, arr) = Inr (x, w, b)" "swaps l u arr b" "s \<le> x" "x < cn"
    "heap_but l cn s x b" "x * 2 + 2 < cn \<Longrightarrow> heap_from l cn s b"
    using siftheap_loop_pure [of l cn arr s rt w] g h s u unfolding cn_def [symmetric] by blast
  have gb: "good l u b" using good_swaps [OF l(2) g] .
  show ?thesis
  proof (cases "x * 2 + 1 + 1 = cn")
    case False
    have "heap_from l cn s b"
    proof (cases "x * 2 + 2 < cn")
      case f: False
      show ?thesis by (rule heap_but_full [OF l(5)]) (use f False in auto)
    qed (use l in blast)
    then show ?thesis using l False by (simp add: sort_siftheap_def cn_def [symmetric])
  next
    case True
    define y where "y = x * 2 + 1"
    have y: "y + 1 = cn" "y < cn" using True by (auto simp: y_def)
    have r: "l + int x \<in> {l..u}" "l + int y \<in> {l..u}" using l(4) y u(1) by auto
    have step: "sort_siftheap pred l u rt (w, arr) =
        Inr (w, if lt (elt b (l + int x)) (elt b (l + int y)) then swapped b (l + int x) (l + int y) else b)"
      unfolding sort_siftheap_def Let_def cn_def [symmetric] l(1) bindE_simps prod.case y_def [symmetric] if_P [OF y(1)]
        less_pure [OF gb r] swap_pure [OF gb r] by simp
    show ?thesis
    proof (cases "lt (elt b (l + int x)) (elt b (l + int y))")
      case False
      have "heap_from l cn s b" by (rule heap_but_full [OF l(5)]) (use False True in \<open>auto simp: y_def\<close>)
      then show ?thesis using step False l(2) unfolding cn_def by auto
    next
      case lt: True
      have A: "elt b (l + int x) \<in> A" "elt b (l + int y) \<in> A" using goodD(1) [OF gb] r by auto
      have g': "good l (l + int cn - 1) b" using gb u by simp
      have only: "c = y" if "c < cn" "c = x * 2 + 1 \<or> c = x * 2 + 2" for c using that True by (auto simp: y_def)
      have hb: "heap_but l cn s y (swapped b (l + int x) (l + int y))"
      proof (rule heap_but_sink [OF l(5) g' l(3) _ y(2)])
        show "y = x * 2 + 1 \<or> y = x * 2 + 2" by (simp add: y_def)
        show "le (elt b (l + int c)) (elt b (l + int y))" if "c < cn" "c = x * 2 + 1 \<or> c = x * 2 + 2" for c
          using only [OF that] le_refl [OF A(2)] by simp
      qed (rule lt_le [OF A lt])
      have "heap_from l cn s (swapped b (l + int x) (l + int y))" by (rule heap_but_full [OF hb]) (use y in auto)
      then show ?thesis using step lt swaps_trans [OF swaps_good_one [OF gb r] l(2)] unfolding cn_def by auto
    qed
  qed
qed

lemma heapify_pure:
  "good l u arr \<Longrightarrow> heap_from l (nat (u - l + 1)) i arr \<Longrightarrow> l + int i \<le> u + 1 \<Longrightarrow>
   \<exists>arr'. heapify pred l u i (w, arr) = Inr (w, arr') \<and> swaps l u arr arr' \<and> heap_from l (nat (u - l + 1)) 0 arr'"
proof (induction i arbitrary: arr)
  case (Suc i)
  have r: "l + int i \<le> u" "l + int i \<le> u + 1" using Suc(4) by auto
  obtain b where b: "sort_siftheap pred l u i (w, arr) = Inr (w, b)" "swaps l u arr b" "heap_from l (nat (u - l + 1)) i b"
    using sort_siftheap_pure [OF Suc(2) heap_from_but [OF Suc(3)] order_refl r(1), of w] by blast
  obtain c where "heapify pred l u i (w, b) = Inr (w, c)" "swaps l u b c" "heap_from l (nat (u - l + 1)) 0 c"
    using Suc(1) [OF good_swaps [OF b(2) Suc(2)] b(3) r(2)] by blast
  then show ?case using b swaps_trans by auto
qed (auto intro: swaps_refl)

lemma heap_root:
  assumes g: "good l (l + int cn - 1) arr" and h: "heap_from l cn 0 arr"
  shows "k < cn \<Longrightarrow> le (elt arr (l + int k)) (elt arr l)"
proof (induction k rule: less_induct)
  case (less k)
  have A: "elt arr (l + int j) \<in> A" if "j < cn" for j using goodD(1) [OF g, of "l + int j"] that by auto
  show ?case
  proof (cases "k = 0")
    case True
    then show ?thesis using le_refl A [of 0] less by auto
  next
    case False
    define p where "p = (k - 1) div 2"
    have p: "p < k" "k = p * 2 + 1 \<or> k = p * 2 + 2" using False unfolding p_def by presburger+
    have 1: "le (elt arr (l + int k)) (elt arr (l + int p))" using h less(2) p(2) unfolding heap_from_def by blast
    have 2: "le (elt arr (l + int p)) (elt arr l)" using less(1) [OF p(1)] p(1) less(2) by simp
    show ?thesis using le_trans [OF A A A [of 0] 1] 2 less(2) p(1) by auto
  qed
qed

lemma orderedI: "(\<And>i j. i \<in> {l..u} \<Longrightarrow> j \<in> {l..u} \<Longrightarrow> i < j \<Longrightarrow> le (elt arr i) (elt arr j)) \<Longrightarrow> ordered l u arr"
  by (simp add: ordered_def)

text \<open>Popping: the heap \<open>[l..l + i]\<close> shrinks, the rest is ordered and not before the heap.\<close>

lemma heap_pop_pure:
  "good l u arr \<Longrightarrow> l + int i \<le> u \<Longrightarrow> heap_from l (Suc i) 0 arr \<Longrightarrow> ordered (l + int i + 1) u arr \<Longrightarrow>
   (\<And>a b. a \<in> {l..l + int i} \<Longrightarrow> b \<in> {l + int i + 1..u} \<Longrightarrow> le (elt arr a) (elt arr b)) \<Longrightarrow>
   \<exists>arr'. heap_pop pred l i (w, arr) = Inr (w, arr') \<and> swaps l u arr arr' \<and> ordered l u arr'"
proof (induction i arbitrary: arr)
  case 0
  have "ordered l u arr"
  proof (rule orderedI)
    fix a b assume "a \<in> {l..u}" "b \<in> {l..u}" "a < b"
    then show "le (elt arr a) (elt arr b)" using 0(4,5) by (cases "a = l") (auto simp: ordered_def)
  qed
  then show ?case by (auto intro: swaps_refl)
next
  case (Suc i)
  note g = Suc(2) and iu = Suc(3) and h = Suc(4) and o = Suc(5) and lo = Suc(6)
  have l0: "0 \<le> l" using goodD(3) [OF g] .
  let ?t = "l + int (Suc i)" let ?b = "swapped arr l ?t"
  have r: "l \<in> {l..u}" "?t \<in> {l..u}" using iu by auto
  note e = elt_good_swapped [OF g r]
  have gi: "good l (l + int (Suc (Suc i)) - 1) arr" by (rule good_mono [OF g]) (use iu in auto)
  have root: "le (elt arr a) (elt arr l)" if "a \<in> {l..?t}" for a
    using heap_root [OF gi h, of "nat (a - l)"] that by (auto simp: nat_less_iff)
  have gb: "good l u ?b" using good_swapped [OF g r] .
  have gs: "good l (?t - 1) ?b" by (rule good_mono [OF gb]) (use iu in auto)
  have n: "nat (?t - 1 - l + 1) = Suc i" by simp
  have hb: "heap_but l (nat (?t - 1 - l + 1)) 0 0 ?b"
  proof -
    have "le (elt ?b (l + int c)) (elt ?b (l + int k))" if k: "k \<noteq> 0" "c < Suc i" "c = k * 2 + 1 \<or> c = k * 2 + 2" for k c
    proof -
      have "elt ?b (l + int c) = elt arr (l + int c)" "elt ?b (l + int k) = elt arr (l + int k)"
        using e [of "l + int c"] e [of "l + int k"] k l0 by auto
      moreover have "c < Suc (Suc i)" using k by simp
      ultimately show ?thesis using h [unfolded heap_from_def, rule_format, of k c] k(3) by simp
    qed
    then show ?thesis unfolding n heap_but_def by simp
  qed
  obtain c where c: "sort_siftheap pred l (?t - 1) 0 (w, ?b) = Inr (w, c)" "swaps l (?t - 1) ?b c" "heap_from l (Suc i) 0 c"
    using sort_siftheap_pure [OF gs hb order_refl, of w] unfolding n by auto
  have sc: "swaps l u ?b c" by (rule swaps_mono [OF c(2)]) (use iu in auto)
  have gc: "good l u c" using good_swaps [OF sc gb] .
  have tail: "elt c k = (if k = ?t then elt arr l else elt arr k)" if "k \<in> {?t..u}" for k
    using swaps_outside [OF c(2), of k] e [of k] that l0 by auto
  have front: "\<exists>k' \<in> {l..?t}. elt c k = elt arr k'" if k: "k \<in> {l..?t - 1}" for k
  proof -
    obtain k' where k': "k' \<in> {l..?t - 1}" "elt c k = elt ?b k'" using swaps_inside [OF c(2) l0 k] by blast
    then show ?thesis using e [of k'] l0 by (cases "k' = l") auto
  qed
  have ord: "ordered (l + int i + 1) u c"
  proof (rule orderedI)
    fix a b assume ab: "a \<in> {l + int i + 1..u}" "b \<in> {l + int i + 1..u}" "a < b"
    have "b \<in> {l + int (Suc i) + 1..u}" using ab by auto
    then have "le (elt arr l) (elt arr b)" "a \<noteq> ?t \<Longrightarrow> le (elt arr a) (elt arr b)"
      using lo [of l b] o ab by (auto simp: ordered_def)
    then show "le (elt c a) (elt c b)" using tail [of a] tail [of b] ab by auto
  qed
  have sep: "le (elt c a) (elt c b)" if a: "a \<in> {l..l + int i}" and b: "b \<in> {l + int i + 1..u}" for a b
  proof -
    have "a \<in> {l..?t - 1}" using a by auto
    then obtain a' where a': "a' \<in> {l..?t}" "elt c a = elt arr a'" using front by blast
    have "b \<in> {?t..u}" using b by auto
    then show ?thesis using tail [of b] a' root [of a'] lo [of a' b] by (cases "b = ?t") auto
  qed
  have "l + int i \<le> u" using iu by simp
  then obtain d where d: "heap_pop pred l i (w, c) = Inr (w, d)" "swaps l u c d" "ordered l u d"
    using Suc(1) [OF gc _ c(3) ord] sep by blast
  have "heap_pop pred l (Suc i) (w, arr) = Inr (w, d)"
    unfolding heap_pop.simps swap_pure [OF g r] bindE_simps c(1) d(1) ..
  then show ?case using d swaps_trans [OF d(2) swaps_trans [OF sc swaps_good_one [OF g r]]] by blast
qed

lemma sort_heap_pure:
  assumes g: "good l u arr" and lu: "l \<le> u"
  shows "\<exists>arr'. sort_heap pred l u (w, arr) = Inr (w, arr') \<and> swaps l u arr arr' \<and> ordered l u arr'"
proof -
  define cn where "cn = nat (u - l + 1)"
  have cn: "cn = Suc (cn - 1)" "l + int (cn - 1) = u" using lu by (auto simp: cn_def)
  have "heap_from l cn (cn div 2) arr" unfolding heap_from_def by auto
  moreover have "l + int (cn div 2) \<le> u + 1" using lu by (simp add: cn_def)
  ultimately obtain b where b: "heapify pred l u (cn div 2) (w, arr) = Inr (w, b)" "swaps l u arr b" "heap_from l cn 0 b"
    using heapify_pure [OF g, of "cn div 2" w] unfolding cn_def by blast
  have gb: "good l u b" using good_swaps [OF b(2) g] .
  have hb: "heap_from l (Suc (cn - 1)) 0 b" using b(3) cn(1) by simp
  obtain c where "heap_pop pred l (cn - 1) (w, b) = Inr (w, c)" "swaps l u b c" "ordered l u c"
    using heap_pop_pure [OF gb _ hb, of w] unfolding cn(2) by (auto simp: ordered_def)
  then show ?thesis using b swaps_trans by (auto simp: sort_heap_def cn_def [symmetric])
qed

subsection \<open>The sort\<close>

lemma ordered_swaps_out:
  "swaps l' u' arr arr' \<Longrightarrow> ordered l u arr \<Longrightarrow> 0 \<le> l \<Longrightarrow> u < l' \<or> u' < l \<Longrightarrow> ordered l u arr'"
  unfolding ordered_def using swaps_outside [of l' u' arr arr'] by auto

lemma apart_inside:
  assumes "0 \<le> l" "u < l' \<or> u' < l" "k \<in> {l..u}"
  shows "swaps l u b a \<Longrightarrow> swaps l' u' a c \<Longrightarrow> \<exists>k' \<in> {l..u}. elt c k = elt b k'"
    and "swaps l u a c \<Longrightarrow> swaps l' u' b a \<Longrightarrow> \<exists>k' \<in> {l..u}. elt c k = elt b k'"
proof -
  assume s: "swaps l u b a" "swaps l' u' a c"
  have "elt c k = elt a k" by (rule swaps_outside [OF s(2)]) (use assms in auto)
  then show "\<exists>k' \<in> {l..u}. elt c k = elt b k'" using swaps_inside [OF s(1) assms(1,3)] by simp
next
  assume s: "swaps l u a c" "swaps l' u' b a"
  obtain k' where k': "k' \<in> {l..u}" "elt c k = elt a k'" using swaps_inside [OF s(1) assms(1,3)] by blast
  have "elt a k' = elt b k'" by (rule swaps_outside [OF s(2)]) (use assms k' in auto)
  then show "\<exists>k' \<in> {l..u}. elt c k = elt b k'" using k' by auto
qed

lemma sort_rec_pure:
  "good l u arr \<Longrightarrow> \<exists>arr'. sort_rec pred l u limit (w, arr) = Inr (w, arr') \<and> swaps l u arr arr' \<and> ordered l u arr'"
proof (induction "nat (u - l)" arbitrary: l u limit arr rule: less_induct)
  case less
  note g = less(2)
  show ?case
  proof (cases "l < u \<and> limit \<noteq> 0")
    case False
    then show ?thesis using sort_heap_pure [OF g] swaps_refl
      by (auto simp: sort_rec.simps [of pred l u] ordered_def)
  next
    case True
    then have lu: "l < u" "limit \<noteq> 0" by auto
    define lim where "lim = limit div 2 + limit div 4"
    obtain pivot b where b: "sort_round pred l u (w, arr) = Inr (pivot, w, b)" "swaps l u arr b"
      "case pivot of None \<Rightarrow> ordered l u b | Some i \<Rightarrow> l < i \<and> i \<le> u \<and> parted l u (elt b i) i i b"
      using sort_round_pure [OF g lu(1)] by blast
    have gb: "good l u b" using good_swaps [OF b(2) g] .
    have l0: "0 \<le> l" using goodD(3) [OF g] .
    show ?thesis
    proof (cases pivot)
      case None
      then show ?thesis using b lu by (auto simp: sort_rec.simps [of pred l u])
    next
      case (Some i)
      then have i: "l < i" "i \<le> u" and part: "parted l u (elt b i) i i b" using b(3) by auto
      have eq: "sort_rec pred l u limit (w, arr) =
          (if i - l < u - i then bindE (sort_rec pred l (i - 1) lim (w, b)) (\<lambda>st. sort_rec pred (i + 1) u lim st)
           else bindE (sort_rec pred (i + 1) u lim (w, b)) (\<lambda>st. sort_rec pred l (i - 1) lim st))"
        using lu b(1) Some by (simp add: sort_rec.simps [of pred l u] lim_def Let_def)
      have m: "nat (i - 1 - l) < nat (u - l)" "nat (u - (i + 1)) < nat (u - l)" using i lu by auto
      have left: "\<exists>c. sort_rec pred l (i - 1) lim (w, a) = Inr (w, c) \<and> swaps l (i - 1) a c \<and> ordered l (i - 1) c"
        if "good l u a" for a by (rule less(1) [OF m(1) good_mono [OF that]]) (use i in auto)
      have right: "\<exists>c. sort_rec pred (i + 1) u lim (w, a) = Inr (w, c) \<and> swaps (i + 1) u a c \<and> ordered (i + 1) u c"
        if "good l u a" for a by (rule less(1) [OF m(2) good_mono [OF that]]) (use i in auto)
      have wide: "swaps l u a c" if "swaps l (i - 1) a c \<or> swaps (i + 1) u a c" for a c
        using that i by (auto elim: swaps_mono)
      have "\<exists>c. sort_rec pred l u limit (w, arr) = Inr (w, c) \<and> swaps l u b c \<and> ordered l (i - 1) c \<and> ordered (i + 1) u c \<and>
          (\<exists>a. swaps l (i - 1) b a \<and> swaps (i + 1) u a c \<or> swaps (i + 1) u b a \<and> swaps l (i - 1) a c)"
      proof (cases "i - l < u - i")
        case lt: True
        obtain a where a: "sort_rec pred l (i - 1) lim (w, b) = Inr (w, a)" "swaps l (i - 1) b a" "ordered l (i - 1) a"
          using left [OF gb] by blast
        have wa: "swaps l u b a" using wide a(2) by blast
        obtain c where c: "sort_rec pred (i + 1) u lim (w, a) = Inr (w, c)" "swaps (i + 1) u a c" "ordered (i + 1) u c"
          using right [OF good_swaps [OF wa gb]] by blast
        have "swaps l u b c" using swaps_trans [OF _ wa] wide c(2) by blast
        moreover have "ordered l (i - 1) c" by (rule ordered_swaps_out [OF c(2) a(3) l0]) simp
        ultimately show ?thesis using a c lt unfolding eq by auto
      next
        case ge: False
        obtain a where a: "sort_rec pred (i + 1) u lim (w, b) = Inr (w, a)" "swaps (i + 1) u b a" "ordered (i + 1) u a"
          using right [OF gb] by blast
        have wa: "swaps l u b a" using wide a(2) by blast
        obtain c where c: "sort_rec pred l (i - 1) lim (w, a) = Inr (w, c)" "swaps l (i - 1) a c" "ordered l (i - 1) c"
          using left [OF good_swaps [OF wa gb]] by blast
        have "swaps l u b c" using swaps_trans [OF _ wa] wide c(2) by blast
        moreover have "ordered (i + 1) u c" by (rule ordered_swaps_out [OF c(2) a(3)]) (use l0 i in auto)
        ultimately show ?thesis using a c ge unfolding eq by auto
      qed
      then obtain c a where c: "sort_rec pred l u limit (w, arr) = Inr (w, c)" "swaps l u b c" "ordered l (i - 1) c" "ordered (i + 1) u c"
        and a: "swaps l (i - 1) b a \<and> swaps (i + 1) u a c \<or> swaps (i + 1) u b a \<and> swaps l (i - 1) a c" by blast
      have ci: "elt c i = elt b i"
        using a swaps_outside [of l "i - 1" _ _ i] swaps_outside [of "i + 1" u _ _ i] l0 i by fastforce
      have gap1: "i - 1 < i + 1 \<or> u < l" and gap2: "u < l \<or> i - 1 < i + 1" by auto
      have low: "le (elt c k) (elt c i)" if k: "k \<in> {l..i - 1}" for k
      proof -
        have "\<exists>k' \<in> {l..i - 1}. elt c k = elt b k'"
          using a apart_inside [OF l0 gap1 k] by blast
        then show ?thesis using part i unfolding ci parted_def by fastforce
      qed
      have high: "le (elt c i) (elt c k)" if k: "k \<in> {i + 1..u}" for k
      proof -
        have "\<exists>k' \<in> {i + 1..u}. elt c k = elt b k'"
          using a apart_inside [OF _ gap2 k] l0 i by fastforce
        then show ?thesis using part i unfolding ci parted_def by fastforce
      qed
      have A: "elt c k \<in> A" if "k \<in> {l..u}" for k using goodD(1) [OF good_swaps [OF c(2) gb] that] .
      have "ordered l u c"
      proof (rule orderedI)
        fix x y assume xy: "x \<in> {l..u}" "y \<in> {l..u}" "x < y"
        consider "y < i" | "y = i" | "x = i" | "i < x" | "x < i" "i < y" by linarith
        then show "le (elt c x) (elt c y)"
        proof cases
          case 5
          then show ?thesis using le_trans [OF A A A low [of x] high [of y]] xy i by auto
        qed (use xy c(3,4) low high i in \<open>auto simp: ordered_def\<close>)
      qed
      then show ?thesis using c(1) swaps_trans [OF c(2) b(2)] by blast
    qed
  qed
qed

end

section \<open>Properties\<close>

text \<open>The orders of the default comparison: numbers that are not NaN, and strings.\<close>

definition ordered_numbers :: "TValue set" where
  "ordered_numbers = {TNumber d | d. \<not> luai_numisnan d}"

definition strings :: "TValue set" where
  "strings = range TString"

fun value_lt :: "TValue \<Rightarrow> TValue \<Rightarrow> bool" where
  "value_lt (TNumber a) (TNumber b) \<longleftrightarrow> luai_numlt a b"
| "value_lt (TString a) (TString b) \<longleftrightarrow> luaV_strcmp a b < 0"
| "value_lt _ _ \<longleftrightarrow> False"

interpretation numbers: sort_order "luaV_lessthan tm" value_lt ordered_numbers
  by unfold_locales (auto simp: ordered_numbers_def luaV_lessthan_def luai_numlt_def luai_numisnan_def)

interpretation strs: sort_order "luaV_lessthan tm" value_lt strings
  by unfold_locales (auto simp: strings_def luaV_lessthan_def luaV_strcmp_less)

context sort_order begin

text \<open>The sort of the first \<open>n\<close> elements, in terms of lists.\<close>

lemma sort_prefix:
  assumes n: "0 < n" "n \<le> length arr" and A: "\<forall>i < n. arr ! i \<in> A"
  shows "\<exists>arr'. sort_rec pred 0 (int n - 1) n (w, arr) = Inr (w, arr') \<and> length arr' = length arr \<and>
    mset arr' = mset arr \<and> drop n arr' = drop n arr \<and> (\<forall>i j. i < j \<longrightarrow> j < n \<longrightarrow> le (arr' ! i) (arr' ! j))"
proof -
  have "elt arr k \<in> A" if "k \<in> {0..int n - 1}" for k using A that by (auto simp: elt_def nat_less_iff)
  then have g: "good 0 (int n - 1) arr" using n by (auto simp: good_def)
  obtain arr' where s: "sort_rec pred 0 (int n - 1) n (w, arr) = Inr (w, arr')" "swaps 0 (int n - 1) arr arr'" "ordered 0 (int n - 1) arr'"
    using sort_rec_pure [OF g] by blast
  note l = swaps_length [OF s(2)]
  have "arr' ! i = arr ! i" if "n \<le> i" for i
    using swaps_outside [OF s(2), of "int i"] that by (simp add: elt_def)
  then have "drop n arr' = drop n arr" using l by (intro nth_equalityI) auto
  moreover have "le (arr' ! i) (arr' ! j)" if "i < j" "j < n" for i j
    using s(3) [unfolded ordered_def, rule_format, of "int i" "int j"] that by (simp add: elt_def)
  ultimately show ?thesis using s l swaps_mset [OF s(2)] by blast
qed

end

lemma getn_arr: "array (fst (luaH_getn t)) = array t" "readonly (fst (luaH_getn t)) = readonly t"
  using luaH_getn_frame [of t] by simp_all

lemma wf_same_array:
  assumes wf: "wf_table t" and l: "length arr = sizearray t"
  shows "wf_table (t\<lparr>array := arr\<rparr>)"
proof (rule wf_table_cong [OF wf])
  show "free_ok (t\<lparr>array := arr\<rparr>)" using wf l by (auto simp: wf_table_def free_ok_def)
qed (use l in simp_all)

text \<open>What a sort promises: a permutation of the first \<open>n\<close> elements, in order.\<close>

definition sorted_table :: "(TValue \<Rightarrow> TValue \<Rightarrow> bool) \<Rightarrow> nat \<Rightarrow> LuaTable \<Rightarrow> LuaTable \<Rightarrow> bool" where
  "sorted_table lt n t t' \<longleftrightarrow> wf_table t' \<and> mset (array t') = mset (array t) \<and> drop n (array t') = drop n (array t) \<and>
     (\<forall>i j. i < j \<longrightarrow> j < n \<longrightarrow> \<not> lt (array t' ! j) (array t' ! i))"

lemma tsort_sorts:
  assumes so: "sort_order pred lt A" and p: "sort_pred tm call cmp = Inr pred"
    and wf: "wf_table t" and nr: "\<not> readonly t" and A: "\<forall>i < snd (luaH_getn t). array t ! i \<in> A"
  shows "\<exists>t'. tsort tm call cmp t w = Inr (t', w) \<and> sorted_table lt (snd (luaH_getn t)) t t'"
proof -
  obtain t1 n where g: "luaH_getn t = (t1, n)" by (cases "luaH_getn t")
  have t1: "wf_table t1" "array t1 = array t" "readonly t1 = readonly t" "n \<le> sizearray t"
    using luaH_getn_ok [OF wf] getn_arr [of t] luaH_getn_le [OF wf] g by (auto simp: same_map_def)
  show ?thesis
  proof (cases "n = 0")
    case True
    then show ?thesis using g t1 nr p by (simp add: tsort_def sorted_table_def)
  next
    case False
    then have n0: "0 < n" by simp
    have "\<forall>i<n. array t ! i \<in> A" using A g by simp
    then obtain arr' where a: "sort_rec pred 0 (int n - 1) n ((t1, w), array t) = Inr ((t1, w), arr')" "length arr' = sizearray t"
      "mset arr' = mset (array t)" "drop n arr' = drop n (array t)" "\<forall>i j. i < j \<longrightarrow> j < n \<longrightarrow> \<not> lt (arr' ! j) (arr' ! i)"
      using sort_order.sort_prefix [OF so n0 t1(4), of "(t1, w)"] by blast
    have "tsort tm call cmp t w = Inr (t1\<lparr>array := arr'\<rparr>, w)" using g t1 nr p n0 a(1) by (simp add: tsort_def)
    moreover have "wf_table (t1\<lparr>array := arr'\<rparr>)" by (rule wf_same_array [OF t1(1)]) (use a t1 in simp)
    ultimately show ?thesis using a g by (simp add: sorted_table_def)
  qed
qed

text \<open>Examples: three numbers out of order.\<close>

definition three_numbers :: LuaTable where
  "three_numbers = empty_table\<lparr>array := map (\<lambda>i. TNumber (d_of_int i)) [3, 1, 2]\<rparr>"

lemma three_numbers_wf: "wf_table three_numbers"
proof -
  have "nodes_ok (mainposition empty_table) [luaH_dummynode]" using empty_table_wf
    by (simp add: wf_table_def empty_table_def)
  moreover have "mainposition three_numbers = mainposition empty_table" by (simp add: three_numbers_def)
  moreover have "\<not> keyed [luaH_dummynode] i" for i by (cases i) (simp_all add: keyed_def luaH_dummynode_def)
  ultimately show ?thesis
    by (simp add: wf_table_def three_numbers_def empty_table_def sizenode_def free_ok_def)
qed

lemma three_numbers_ordered: "i < 3 \<Longrightarrow> array three_numbers ! i \<in> ordered_numbers"
  by (auto simp: three_numbers_def ordered_numbers_def luai_numisnan_def in_int32_def nth_Cons' numeral_3_eq_3)

lemma three_numbers_getn: "snd (luaH_getn three_numbers) = 3"
  by (simp add: three_numbers_def empty_table_def luaH_getn_def luaH_getn_search_def getaboundary_def)

lemma three_numbers_writable: "\<not> readonly three_numbers"
  by (simp add: three_numbers_def empty_table_def)

text \<open>C3. \<open>table.sort\<close> without a comparison function sorts: on a table whose elements are numbers that are not NaN, or
  strings, it succeeds and leaves a permutation of them in the order of \<open><\<close> (IEEE order, byte-wise order of
  strings); the slots after the elements do not change. The heap sort fallback, the median of three and the error
  ``invalid order function'', which never comes up here, are included.\<close>

theorem sort_sorts:
  assumes "wf_table t" and "\<not> readonly t" and "n = snd (luaH_getn t)"
    and "(\<forall>i < n. array t ! i \<in> ordered_numbers) \<or> (\<forall>i < n. array t ! i \<in> strings)"
  shows "\<exists>t'. tsort tm call None t w = Inr (t', w) \<and> sorted_table value_lt n t t'"
proof -
  have p: "sort_pred tm call None = Inr (luaV_lessthan tm)" by (simp add: sort_pred_def)
  show ?thesis using assms tsort_sorts [OF numbers.sort_order_axioms p assms(1,2)] tsort_sorts [OF strs.sort_order_axioms p assms(1,2)]
    by blast
qed

theorem sort_sorts_witness:
  "\<exists>t'. tsort (\<lambda>w arr a b. Inl luaG_ordererror) (\<lambda>f w arr a b. Inl luaG_ordererror) None three_numbers () = Inr (t', ()) \<and>
     sorted_table value_lt 3 three_numbers t'"
  using sort_sorts [OF three_numbers_wf three_numbers_writable refl] three_numbers_ordered three_numbers_getn by simp

text \<open>C20. \<open>table.sort\<close> with a comparison function sorts by it, when the function is a strict weak order on the
  elements and does not change state: never the error ``invalid order function'', always a sorted permutation.\<close>

theorem sort_custom:
  assumes "wf_table t" and "\<not> readonly t" and "n = snd (luaH_getn t)" and "\<forall>i < n. array t ! i \<in> A"
    and "\<forall>a \<in> A. \<forall>b \<in> A. \<forall>w arr. \<exists>v. call f w arr a b = Inr (v, w, arr) \<and> (\<not> l_isfalse v \<longleftrightarrow> lt a b)"
    and "\<forall>a \<in> A. \<forall>b \<in> A. lt a b \<longrightarrow> \<not> lt b a"
    and "\<forall>a \<in> A. \<forall>b \<in> A. \<forall>c \<in> A. lt a c \<longrightarrow> lt a b \<or> lt b c"
  shows "\<exists>t'. tsort tm call (Some (TGc LUA_TFUNCTION f)) t w = Inr (t', w) \<and> sorted_table lt n t t'"
proof -
  have p: "sort_pred tm call (Some (TGc LUA_TFUNCTION f)) = Inr (sort_func call f)" by (simp add: sort_pred_def)
  have "sort_order (sort_func call f) lt A"
  proof
    fix a b w arr assume "a \<in> A" "b \<in> A"
    then show "sort_func call f w arr a b = Inr (lt a b, w, arr)" 
      using assms(5) [rule_format, of a b w arr] by (auto simp: sort_func_def)
  qed (use assms(6,7) in blast)+
  from tsort_sorts [OF this p assms(1,2)] show ?thesis using assms(3,4) by blast
qed

theorem sort_custom_witness:
  "\<exists>t'. tsort (\<lambda>w arr a b. Inl luaG_ordererror) (\<lambda>f w arr a b. Inr (TBoolean (value_lt b a), w, arr))
       (Some (TGc LUA_TFUNCTION 0)) three_numbers () = Inr (t', ()) \<and> sorted_table (\<lambda>a b. value_lt b a) 3 three_numbers t'"
proof (rule sort_custom [where A = ordered_numbers, OF three_numbers_wf three_numbers_writable])
  show "\<forall>a \<in> ordered_numbers. \<forall>b \<in> ordered_numbers. \<forall>c \<in> ordered_numbers. value_lt c a \<longrightarrow> value_lt b a \<or> value_lt c b"
    using numbers.lt_weak by blast
  show "\<forall>a \<in> ordered_numbers. \<forall>b \<in> ordered_numbers. value_lt b a \<longrightarrow> \<not> value_lt a b"
    using numbers.lt_asym by blast
qed (auto simp: three_numbers_ordered three_numbers_getn l_isfalse_def)

text \<open>C19. The sort is memory safe whatever the comparison does: it may fail, keep state, change the array, replace it by
  one of another size or be no order at all; every element access and every swap stays inside of the array, the sort
  ends, and on success the array has its old size.\<close>

theorem sort_memory_safe:
  assumes "wf_table t" and "\<And>w arr a b. tm w arr a b \<noteq> Inl oob" and "\<And>f w arr a b. call f w arr a b \<noteq> Inl oob"
  shows "tsort tm call cmp t w \<noteq> Inl oob \<and>
     (\<forall>t' w'. tsort tm call cmp t w = Inr (t', w') \<longrightarrow> sizearray t' = sizearray t)"
proof -
  obtain t1 n where g: "luaH_getn t = (t1, n)" by (cases "luaH_getn t")
  have t1: "array t1 = array t" "n \<le> sizearray t" using getn_arr [of t] luaH_getn_le [OF assms(1)] g by simp_all
  have other: "luaG_readonlyerror \<noteq> oob" "luaG_ordererror \<noteq> oob" "TypeError 2 s \<noteq> oob" for s
    by (simp_all add: luaG_readonlyerror_def luaG_ordererror_def oob_def)
  have "pred_ok (luaV_lessthan tm)" unfolding pred_ok_def luaV_lessthan_def
    using other assms(2) by (auto split: TValue.splits)
  moreover have "pred_ok (sort_func call f)" for f
    unfolding pred_ok_def sort_func_def using assms(3) by (auto simp: bindE_eq_Inl_iff)
  ultimately have ok: "pred_ok p" if "sort_pred tm call cmp = Inr p" for p
    using that by (auto simp: sort_pred_def split: option.splits TValue.splits lua_gctype.splits)
  have err: "e \<noteq> oob" if "sort_pred tm call cmp = Inl e" for e
    using that other by (auto simp: sort_pred_def split: option.splits TValue.splits lua_gctype.splits)
  show ?thesis
  proof (cases "sort_pred tm call cmp")
    case (Inl e)
    then show ?thesis using err other g by (simp add: tsort_def)
  next
    case (Inr p)
    have "safe_st (sizearray t) (sort_rec p 0 (int n - 1) n ((t1, w), array t))"
      using ok [OF Inr] t1 by (intro sort_rec_safe) (auto simp: len_def)
    then show ?thesis using Inr g t1 other
      by (cases "sort_rec p 0 (int n - 1) n ((t1, w), array t)") (auto simp: tsort_def len_def)
  qed
qed

theorem sort_memory_safe_witness:
  "tsort (\<lambda>w arr a b. Inl luaG_ordererror) (\<lambda>f w arr a b. Inr (TBoolean True, w, [])) (Some (TGc LUA_TFUNCTION 0)) three_numbers ()
     \<noteq> Inl oob"
  using sort_memory_safe [OF three_numbers_wf, where tm = "\<lambda>w arr a b. Inl luaG_ordererror" and w = "()"
      and call = "\<lambda>f w arr a b. Inr (TBoolean True, w, [])" and cmp = "Some (TGc LUA_TFUNCTION 0)"]
  by (simp add: luaG_ordererror_def oob_def)

end
