(* ===== verification/SortKeep.thy ===== *)
theory SortKeep imports TableSort begin

text \<open>
  What the sort keeps whatever the comparison does: the contract of an invariant of the sort state as a locale,
  the proof that the quicksort and the heap sort keep it, and its interpretation for the length of the array.
\<close>

text \<open>A predicate of the state that a comparison which leaves the length alone keeps, and a swap keeps.\<close>

locale sort_invariant =
  fixes pred :: "'w SortPredicate" and P :: "'w sort_state \<Rightarrow> bool"
  assumes pred_inv: "P (w, arr) \<Longrightarrow> pred w arr x y = Inr (b, w', arr') \<Longrightarrow> length arr' = length arr \<Longrightarrow> P (w', arr')"
    and swap_inv: "P (w, arr) \<Longrightarrow> in_arr arr i \<Longrightarrow> in_arr arr j \<Longrightarrow> P (w, swapped arr i j)"
begin

lemma sort_swap_inv: "sort_swap i j st = Inr st' \<Longrightarrow> P st \<Longrightarrow> P st'"
  by (auto simp: sort_swap_def swap_inv split: prod.splits if_splits)

lemma sort_less_inv: "sort_less pred i j st = Inr (b, st') \<Longrightarrow> P st \<Longrightarrow> P st'"
  by (auto simp: sort_less_def bindE_eq_Inr_iff pred_inv split: prod.splits if_splits)

lemma less_swap_inv: "less_swap pred a b x y st = Inr st' \<Longrightarrow> P st \<Longrightarrow> P st'"
  by (auto simp: less_swap_def bindE_eq_Inr_iff split: if_splits dest!: sort_less_inv sort_swap_inv)

lemma sift_pick_inv: "sift_pick pred l rt st = Inr (nxt, st') \<Longrightarrow> P st \<Longrightarrow> P st'"
  by (auto simp: sift_pick_def Let_def bindE_eq_Inr_iff dest!: sort_less_inv)

lemma siftheap_loop_inv': "siftheap_loop q l cn rt st = Inr (rt', st') \<Longrightarrow> q = pred \<Longrightarrow> P st \<Longrightarrow> P st'"
proof (induction q l cn rt st rule: siftheap_loop.induct)
  case (1 q l cn rt st)
  show ?case
  proof (cases "rt * 2 + 2 < cn")
    case True
    then obtain nxt st1 where p: "sift_pick q l rt st = Inr (nxt, st1)"
      and r: "(if nxt = rt then Inr (rt, st1)
        else bindE (sort_swap (l + int rt) (l + int nxt) st1) (\<lambda>st. siftheap_loop q l cn nxt st)) = Inr (rt', st')"
      using 1(2) unfolding siftheap_loop.simps [of q l cn rt st] by (auto simp: bindE_eq_Inr_iff)
    have k: "P st1" using sift_pick_inv p 1(3,4) by blast
    show ?thesis
    proof (cases "nxt = rt")
      case False
      then obtain st2 where s: "sort_swap (l + int rt) (l + int nxt) st1 = Inr st2" "siftheap_loop q l cn nxt st2 = Inr (rt', st')"
        using r by (auto simp: bindE_eq_Inr_iff)
      then show ?thesis using 1(1) [OF True p refl False s 1(3)] 1(3) sort_swap_inv k by blast
    qed (use r k in simp)
  qed (use 1 in \<open>simp add: siftheap_loop.simps [of pred l cn rt st]\<close>)
qed

lemmas siftheap_loop_inv = siftheap_loop_inv' [OF _ refl]

lemma sort_siftheap_inv: "sort_siftheap pred l u rt st = Inr st' \<Longrightarrow> P st \<Longrightarrow> P st'"
  by (auto simp: sort_siftheap_def Let_def bindE_eq_Inr_iff split: if_splits
      dest!: siftheap_loop_inv sort_less_inv sort_swap_inv)

lemma heapify_inv: "heapify pred l u i st = Inr st' \<Longrightarrow> P st \<Longrightarrow> P st'"
  by (induction i arbitrary: st) (auto simp: bindE_eq_Inr_iff dest!: sort_siftheap_inv)

lemma heap_pop_inv: "heap_pop pred l i st = Inr st' \<Longrightarrow> P st \<Longrightarrow> P st'"
  by (induction i arbitrary: st) (auto simp: bindE_eq_Inr_iff dest!: sort_siftheap_inv sort_swap_inv)

lemma sort_heap_inv: "sort_heap pred l u st = Inr st' \<Longrightarrow> P st \<Longrightarrow> P st'"
  by (auto simp: sort_heap_def Let_def bindE_eq_Inr_iff dest!: heapify_inv heap_pop_inv)

lemma scan_up_inv': "scan_up q p u i st = Inr (i', st') \<Longrightarrow> q = pred \<Longrightarrow> P st \<Longrightarrow> P st'"
proof (induction q p u i st rule: scan_up.induct)
  case (1 q p u i st)
  from 1(2) obtain b st1 where s: "sort_less q (i + 1) p st = Inr (b, st1)"
    and r: "(if b then if i + 1 \<ge> u then Inl invalid_order else scan_up q p u (i + 1) st1 else Inr (i + 1, st1)) = Inr (i', st')"
    unfolding scan_up.simps [of q p u i st] Let_def by (auto simp: bindE_eq_Inr_iff)
  have k: "P st1" using sort_less_inv s 1(3,4) by blast
  show ?case using 1(1) [OF refl s refl] r k 1(3) by (auto split: if_splits)
qed

lemma scan_down_inv': "scan_down q p l j st = Inr (j', st') \<Longrightarrow> q = pred \<Longrightarrow> P st \<Longrightarrow> P st'"
proof (induction q p l j st rule: scan_down.induct)
  case (1 q p l j st)
  from 1(2) obtain b st1 where s: "sort_less q p (j - 1) st = Inr (b, st1)"
    and r: "(if b then if j - 1 \<le> l then Inl invalid_order else scan_down q p l (j - 1) st1 else Inr (j - 1, st1)) = Inr (j', st')"
    unfolding scan_down.simps [of q p l j st] Let_def by (auto simp: bindE_eq_Inr_iff)
  have k: "P st1" using sort_less_inv s 1(3,4) by blast
  show ?case using 1(1) [OF refl s refl] r k 1(3) by (auto split: if_splits)
qed

lemmas scan_inv = scan_up_inv' [OF _ refl] scan_down_inv' [OF _ refl]

lemma partition_loop_inv': "partition_loop q p l u i j st = Inr (i', st') \<Longrightarrow> q = pred \<Longrightarrow> P st \<Longrightarrow> P st'"
proof (induction q p l u i j st rule: partition_loop.induct)
  case (1 q p l u i j st)
  from 1(2) obtain i1 st1 j1 st2 where s: "scan_up q p u i st = Inr (i1, st1)" "scan_down q p l j st1 = Inr (j1, st2)"
    and r: "(if j1 < i1 then Inr (i1, st2)
       else bindE (sort_swap i1 j1 st2) (\<lambda>st. partition_loop q p l u i1 j1 st)) = Inr (i', st')"
    unfolding partition_loop.simps [of q p l u i j st] by (auto simp: bindE_eq_Inr_iff)
  have k: "P st2" using scan_inv s 1(3,4) by blast
  show ?case
  proof (cases "j1 < i1")
    case False
    then obtain st3 where w: "sort_swap i1 j1 st2 = Inr st3" "partition_loop q p l u i1 j1 st3 = Inr (i', st')"
      using r by (auto simp: bindE_eq_Inr_iff)
    then show ?thesis using 1(1) [OF s(1) refl s(2) refl False w(1,2) 1(3)] sort_swap_inv k by blast
  qed (use r k in simp)
qed

lemma sort_round_inv: "sort_round pred l u st = Inr (r, st') \<Longrightarrow> P st \<Longrightarrow> P st'"
  by (auto simp: sort_round_def Let_def bindE_eq_Inr_iff split: if_splits
      dest!: less_swap_inv sort_less_inv sort_swap_inv partition_loop_inv' [OF _ refl])

lemma sort_rec_inv': "sort_rec q l u limit st = Inr st' \<Longrightarrow> q = pred \<Longrightarrow> P st \<Longrightarrow> P st'"
proof (induction q l u limit st arbitrary: st' rule: sort_rec.induct)
  case (1 q l u limit st)
  note eq = sort_rec.simps [of q l u limit st]
  show ?case
  proof (cases "l < u \<and> limit \<noteq> 0")
    case False
    then show ?thesis using 1(5-7) sort_heap_inv unfolding eq by (auto split: if_splits)
  next
    case True
    then have lu: "\<not> \<not> l < u" "limit \<noteq> 0" by simp_all
    obtain pv st1 where s: "sort_round q l u st = Inr (pv, st1)"
      and r: "(case pv of None \<Rightarrow> Inr st1 | Some i \<Rightarrow>
            let limit = limit div 2 + limit div 4 in
            if i - l < u - i
            then bindE (sort_rec q l (i - 1) limit st1) (\<lambda>st. sort_rec q (i + 1) u limit st)
            else bindE (sort_rec q (i + 1) u limit st1) (\<lambda>st. sort_rec q l (i - 1) limit st)) = Inr st'"
      using 1(5) lu unfolding eq by (auto simp: bindE_eq_Inr_iff)
    have k: "P st1" using sort_round_inv s 1(6,7) by blast
    show ?thesis
    proof (cases pv)
      case (Some i)
      let ?lim = "limit div 2 + limit div 4"
      note ih = 1(1-4) [OF lu s refl Some refl]
      show ?thesis
      proof (cases "i - l < u - i")
        case True
        then obtain st2 where "sort_rec q l (i - 1) ?lim st1 = Inr st2" "sort_rec q (i + 1) u ?lim st2 = Inr st'"
          using r unfolding Some Let_def by (auto simp: bindE_eq_Inr_iff)
        then show ?thesis using ih(1,2) True k 1(6) by blast
      next
        case False
        then obtain st2 where "sort_rec q (i + 1) u ?lim st1 = Inr st2" "sort_rec q l (i - 1) ?lim st2 = Inr st'"
          using r unfolding Some Let_def by (auto simp: bindE_eq_Inr_iff)
        then show ?thesis using ih(3,4) False k 1(6) by blast
      qed
    qed (use r k in simp)
  qed
qed

lemmas sort_rec_inv = sort_rec_inv' [OF _ refl]

end

text \<open>Whatever the comparison, a sort that returns leaves the length of the array as it was.\<close>

interpretation sl: sort_invariant pred "\<lambda>st. length (snd st) = n" for pred n
  by unfold_locales (auto simp: swapped_def)

lemmas sort_rec_length = sl.sort_rec_inv

end
