(* ===== verification/TableLib.thy ===== *)
theory TableLib imports SortOrder Utf8 begin

text \<open>
  The \<open>table\<close> library (\<open>VM/src/ltablib.cpp\<close>) over the tables of \<open>LuaTable\<close>. The heap is the list of the
  tables, the address of a table is its index. Calls of Lua functions and metamethods are parameters.
\<close>

section \<open>Operations\<close>

type_synonym tabheap = "LuaTable list"
type_synonym tabop = "numconv \<Rightarrow> tabheap \<Rightarrow> TValue list \<Rightarrow> lua_error + TValue list \<times> tabheap"

text \<open>A loop over a range of indices whose body can fail.\<close>

fun foldE :: "('i \<Rightarrow> 's \<Rightarrow> lua_error + 's) \<Rightarrow> 'i list \<Rightarrow> 's \<Rightarrow> lua_error + 's" where
  "foldE f [] s = Inr s"
| "foldE f (i # is) s = bindE (f i s) (\<lambda>s. foldE f is s)"

text \<open>\<open>luaL_checktype\<close> for tables and functions, and \<open>luaL_checkany\<close>.\<close>

definition luaL_checktable :: "TValue list \<Rightarrow> nat \<Rightarrow> lua_error + nat" where
  "luaL_checktable args n = (case arg args n of Some (TGc LUA_TTABLE a) \<Rightarrow> Inr a | _ \<Rightarrow> Inl (TypeError n ''table''))"

definition luaL_checkfunction :: "TValue list \<Rightarrow> nat \<Rightarrow> lua_error + nat" where
  "luaL_checkfunction args n = (case arg args n of Some (TGc LUA_TFUNCTION a) \<Rightarrow> Inr a | _ \<Rightarrow> Inl (TypeError n ''function''))"

definition luaL_checkany :: "TValue list \<Rightarrow> nat \<Rightarrow> lua_error + TValue" where
  "luaL_checkany args n = (case arg args n of Some v \<Rightarrow> Inr v | None \<Rightarrow> Inl (RunError ''missing argument''))"

definition luaL_optlstring :: "numconv \<Rightarrow> TValue list \<Rightarrow> nat \<Rightarrow> byte list \<Rightarrow> lua_error + byte list" where
  "luaL_optlstring cv args n def = (if lua_isnoneornil args n then Inr def else luaL_checklstring cv args n)"

text \<open>\<open>lua_objlen\<close> of a table, which may cache the boundary.\<close>

definition lua_objlen :: "tabheap \<Rightarrow> nat \<Rightarrow> int \<times> tabheap" where
  "lua_objlen h a = (let (t, n) = luaH_getn (h ! a) in (int n, h[a := t]))"

text \<open>\<open>lua_rawseti\<close> on a table of the heap.\<close>

definition heap_seti :: "nat \<Rightarrow> int \<Rightarrow> TValue \<Rightarrow> tabheap \<Rightarrow> lua_error + tabheap" where
  "heap_seti a n v h = bindE (lua_rawseti (h ! a) n v) (\<lambda>t. Inr (h[a := t]))"

text \<open>The two copying steps of \<open>moveelements\<close>, on the arrays and through the API.\<close>

definition copy_slot :: "nat \<Rightarrow> nat \<Rightarrow> int \<Rightarrow> int \<Rightarrow> int \<Rightarrow> tabheap \<Rightarrow> lua_error + tabheap" where
  "copy_slot src dst f t i h =
     Inr (h[dst := slot_put (h ! dst) (SArray (nat (t + i - 1))) (array (h ! src) ! nat (f + i - 1))])"

definition copy_elem :: "nat \<Rightarrow> nat \<Rightarrow> int \<Rightarrow> int \<Rightarrow> int \<Rightarrow> tabheap \<Rightarrow> lua_error + tabheap" where
  "copy_elem src dst f t i h =
     bindE (lua_rawgeti (h ! src) (f + i)) (\<lambda>v. heap_seti dst (t + i) v h)"

text \<open>
  \<open>moveelements\<close>. The range test is on unsigned words: \<open>unsigned(f) - 1 < sizearray\<close> and
  \<open>unsigned(f) - 1 + unsigned(n) <= sizearray\<close> wrap. \<open>dstt != srct && dst != src\<close> of the first branch says
  no more than \<open>dst != src\<close>, since equal positions hold the same table; it is kept as written.
\<close>

definition moveelements :: "nat \<Rightarrow> nat \<Rightarrow> nat \<Rightarrow> nat \<Rightarrow> int \<Rightarrow> int \<Rightarrow> int \<Rightarrow> tabheap \<Rightarrow> lua_error + tabheap" where
  "moveelements srct dstt src dst f e t h =
     (if readonly (h ! dst) then Inl luaG_readonlyerror
      else
        bindE (bindE (c_int (e - f)) (\<lambda>d. c_int (d + 1))) (\<lambda>n.
        let uf = word_of_int f - 1 :: u32; ut = word_of_int t - 1 :: u32; un = word_of_int n :: u32;
            ssrc = word_of_nat (sizearray (h ! src)) :: u32; sdst = word_of_nat (sizearray (h ! dst)) :: u32
        in
        if uf < ssrc \<and> ut < sdst \<and> uf + un \<le> ssrc \<and> ut + un \<le> sdst then
          (if t > e \<or> t \<le> f \<or> (dstt \<noteq> srct \<and> dst \<noteq> src) then foldE (copy_slot src dst f t) [0..n - 1] h
           else foldE (copy_slot src dst f t) (rev [0..n - 1]) h)
        else
          (if t > e \<or> t \<le> f \<or> dst \<noteq> src then foldE (copy_elem src dst f t) [0..n - 1] h
           else foldE (copy_elem src dst f t) (rev [0..n - 1]) h)))"

definition tinsert :: tabop where
  "tinsert cv h args =
     bindE (luaL_checktable args 1) (\<lambda>a.
     let (n, h) = lua_objlen h a in
     bindE (case args of
              [_, v] \<Rightarrow> Inr (n + 1, v, h)
            | [_, _, v] \<Rightarrow>
                bindE (luaL_checkinteger cv args 2) (\<lambda>pos.
                if 1 \<le> pos \<and> pos \<le> n
                then bindE (moveelements 1 1 a a pos n (pos + 1) h) (\<lambda>h. Inr (pos, v, h))
                else Inr (pos, v, h))
            | _ \<Rightarrow> Inl (RunError ''wrong number of arguments to insert'')) (\<lambda>(pos, v, h).
     bindE (heap_seti a pos v h) (\<lambda>h. Inr ([], h))))"

definition tremove :: tabop where
  "tremove cv h args =
     bindE (luaL_checktable args 1) (\<lambda>a.
     let (n, h) = lua_objlen h a in
     bindE (luaL_optinteger cv args 2 n) (\<lambda>pos.
     if \<not> (1 \<le> pos \<and> pos \<le> n) then Inr ([], h)
     else
       bindE (lua_rawgeti (h ! a) pos) (\<lambda>v.
       bindE (moveelements 1 1 a a (pos + 1) n pos h) (\<lambda>h.
       bindE (heap_seti a n TNil h) (\<lambda>h. Inr ([v], h))))))"

text \<open>\<open>tmove\<close>; the argument checks are in \<open>int\<close> and can overflow only where \<open>c_int\<close> says.\<close>

definition tmove_checks :: "int \<Rightarrow> int \<Rightarrow> int \<Rightarrow> lua_error + int" where
  "tmove_checks f e t =
     bindE (if f > 0 then Inr True else bindE (c_int (INT_MAX + f)) (\<lambda>lim. Inr (e < lim))) (\<lambda>fits.
     bindE (guardE fits (ArgError 3 ''too many elements to move'')) (\<lambda>_.
     bindE (bindE (c_int (e - f)) (\<lambda>d. c_int (d + 1))) (\<lambda>n.
     bindE (bindE (c_int (INT_MAX - n)) (\<lambda>d. c_int (d + 1))) (\<lambda>lim.
     bindE (guardE (t \<le> lim) (ArgError 4 ''destination wrap around'')) (\<lambda>_. Inr n)))))"

text \<open>The body of \<open>if (e >= f)\<close>.\<close>

definition tmove_step :: "nat \<Rightarrow> nat \<Rightarrow> nat \<Rightarrow> int \<Rightarrow> int \<Rightarrow> int \<Rightarrow> tabheap \<Rightarrow> lua_error + tabheap" where
  "tmove_step tt src dst f e t h =
     bindE (tmove_checks f e t) (\<lambda>n.
     if readonly (h ! dst) then Inl luaG_readonlyerror
     else
       bindE (if t > 0 \<and> t - 1 \<le> int (sizearray (h ! dst)) \<and> t - 1 + n > int (sizearray (h ! dst))
              then bindE (luaH_resizearray (h ! dst) (nat (t - 1 + n))) (\<lambda>d. Inr (h[dst := d])) else Inr h) (\<lambda>h.
       moveelements 1 tt src dst f e t h))"

definition tmove :: tabop where
  "tmove cv h args =
     bindE (luaL_checktable args 1) (\<lambda>src.
     bindE (luaL_checkinteger cv args 2) (\<lambda>f.
     bindE (luaL_checkinteger cv args 3) (\<lambda>e.
     bindE (luaL_checkinteger cv args 4) (\<lambda>t.
     let tt = (if \<not> lua_isnoneornil args 5 then 5 else 1) in
     bindE (luaL_checktable args tt) (\<lambda>dst.
     bindE (if e \<ge> f then tmove_step tt src dst f e t h else Inr h) (\<lambda>h. Inr ([TGc LUA_TTABLE dst], h)))))))"

text \<open>\<open>addfield\<close>: the bytes of an element. \<open>i - 1\<close> is computed in \<open>int\<close>.\<close>

definition addfield :: "numconv \<Rightarrow> LuaTable \<Rightarrow> int \<Rightarrow> lua_error + byte list" where
  "addfield cv t i =
     bindE (c_int (i - 1)) (\<lambda>i1.
     case (if (word_of_int i1 :: u32) < word_of_nat (sizearray t) then Some (array t ! nat i1) else None) of
       Some (TString s) \<Rightarrow> Inr s
     | _ \<Rightarrow>
         bindE (lua_rawgeti t i) (\<lambda>v.
         case v of
           TString s \<Rightarrow> Inr s
         | TNumber d \<Rightarrow> Inr (luai_num2str cv d)
         | _ \<Rightarrow> Inl (RunError ''invalid value in table for concat'')))"

text \<open>The loop of \<open>tconcat\<close> and its last element; the accumulator is the string buffer.\<close>

function concat_loop :: "numconv \<Rightarrow> LuaTable \<Rightarrow> byte list \<Rightarrow> int \<Rightarrow> int \<Rightarrow> byte list \<Rightarrow> lua_error + byte list" where
  "concat_loop cv t sep i lst b =
     (if i < lst then bindE (addfield cv t i) (\<lambda>s. concat_loop cv t sep (i + 1) lst (b @ s @ sep))
      else if i = lst then bindE (addfield cv t i) (\<lambda>s. Inr (b @ s))
      else Inr b)"
  by pat_completeness auto

termination
  by (relation "measure (\<lambda>(cv, t, sep, i, lst, b). nat (lst - i))") auto

declare concat_loop.simps [simp del]

definition tconcat :: tabop where
  "tconcat cv h args =
     bindE (luaL_optlstring cv args 2 []) (\<lambda>sep.
     bindE (luaL_checktable args 1) (\<lambda>a.
     bindE (luaL_optinteger cv args 3 1) (\<lambda>i.
     bindE (if lua_isnoneornil args 4 then Inr (lua_objlen h a)
            else bindE (luaL_checkinteger cv args 4) (\<lambda>e. Inr (e, h))) (\<lambda>(lst, h).
     bindE (concat_loop cv (h ! a) sep i lst []) (\<lambda>b. Inr ([TString b], h))))))"

definition tpack :: tabop where
  "tpack cv h args =
     bindE (luaH_new (length args) 1) (\<lambda>t.
     let t = foldl (\<lambda>t i. slot_put t (SArray i) (args ! i)) t [0..<length args] in
     bindE (luaH_setstr t (map of_char ''n'')) (\<lambda>(t, nv).
     let t = slot_put t nv (TNumber (d_of_int (int (length args)))) in
     Inr ([TGc LUA_TTABLE (length h)], h @ [t])))"

definition lua_checkstack :: "nat \<Rightarrow> int \<Rightarrow> bool" where
  "lua_checkstack n sz \<longleftrightarrow> \<not> (sz > int LUAI_MAXCSTACK \<or> int n + sz > int LUAI_MAXCSTACK)"

text \<open>The loop that pushes \<open>arg[i .. e - 1]\<close>, and the last element.\<close>

function push_range :: "LuaTable \<Rightarrow> int \<Rightarrow> int \<Rightarrow> lua_error + TValue list" where
  "push_range t i e =
     (if i < e then bindE (lua_rawgeti t i) (\<lambda>v. bindE (push_range t (i + 1) e) (\<lambda>vs. Inr (v # vs)))
      else bindE (lua_rawgeti t e) (\<lambda>v. Inr [v]))"
  by pat_completeness auto

termination
  by (relation "measure (\<lambda>(t, i, e). nat (e - i))") auto

declare push_range.simps [simp del]

definition tunpack :: tabop where
  "tunpack cv h args =
     bindE (luaL_checktable args 1) (\<lambda>a.
     bindE (luaL_optinteger cv args 2 1) (\<lambda>i.
     bindE (if lua_isnoneornil args 3 then Inr (lua_objlen h a)
            else bindE (luaL_checkinteger cv args 3) (\<lambda>e. Inr (e, h))) (\<lambda>(e, h).
     if i > e then Inr ([], h)
     else
       let n = word_of_int e - word_of_int i :: u32 in
       if n \<ge> word_of_int INT_MAX \<or> \<not> lua_checkstack (length args) (uint (n + 1))
       then Inl (RunError ''too many results to unpack'')
       else
         let n = n + 1; t = h ! a in
         if i = 1 \<and> uint n \<le> int (sizearray t) then Inr (map (\<lambda>j. array t ! j) [0..<unat n], h)
         else bindE (push_range t i e) (\<lambda>vs. Inr (vs, h)))))"

definition tcreate :: tabop where
  "tcreate cv h args =
     bindE (luaL_checkinteger cv args 1) (\<lambda>sz.
     bindE (guardE (\<not> sz < 0) (ArgError 1 ''size out of range'')) (\<lambda>_.
     bindE (luaH_new (nat sz) 0) (\<lambda>t.
     let t = (case arg args 2 of
                Some v \<Rightarrow> if v \<noteq> TNil then foldl (\<lambda>t i. slot_put t (SArray i) v) t [0..<nat sz] else t
              | None \<Rightarrow> t) in
     Inr ([TGc LUA_TTABLE (length h)], h @ [t]))))"

text \<open>
  \<open>luaV_equalval\<close> on values of the same type; \<open>eqTM\<close> compares two tables, userdata or class instances by
  their \<open>__eq\<close> or their identity and may change the heap.
\<close>

type_synonym equality = "tabheap \<Rightarrow> TValue \<Rightarrow> TValue \<Rightarrow> lua_error + bool \<times> tabheap"

definition equalobj :: "equality \<Rightarrow> equality" where
  "equalobj eqTM h a b =
     (case (a, b) of
        (TNumber x, TNumber y) \<Rightarrow> Inr (luai_numeq x y, h)
      | (TVector x y z, TVector x' y' z') \<Rightarrow> Inr (f32_eq x x' \<and> f32_eq y y' \<and> f32_eq z z', h)
      | (TGc k x, TGc k' y) \<Rightarrow>
          if k = k' \<and> k \<in> {LUA_TTABLE, LUA_TUSERDATA, LUA_TOBJECT} then eqTM h a b else Inr (a = b, h)
      | _ \<Rightarrow> Inr (a = b, h))"

text \<open>The loop of \<open>tfind\<close>; \<open>++i\<close> is in \<open>int\<close>.\<close>

function find_loop :: "equality \<Rightarrow> nat \<Rightarrow> TValue \<Rightarrow> int \<Rightarrow> tabheap \<Rightarrow> lua_error + TValue \<times> tabheap" where
  "find_loop eqTM a v i h =
     bindE (slot_read (h ! a) (luaH_getnum (h ! a) i)) (\<lambda>e.
     if e = TNil then Inr (TNil, h)
     else
       bindE (equalobj eqTM h v e) (\<lambda>(eq, h).
       if eq then Inr (lua_pushinteger i, h)
       else bindE (c_int (i + 1)) (\<lambda>i. find_loop eqTM a v i h)))"
  by pat_completeness auto

termination
  by (relation "measure (\<lambda>(eqTM, a, v, i, h). nat (INT_MAX - i))") (auto simp: in_int32_def)

declare find_loop.simps [simp del]

definition tfind :: "equality \<Rightarrow> tabop" where
  "tfind eqTM cv h args =
     bindE (luaL_checktable args 1) (\<lambda>a.
     bindE (luaL_checkany args 2) (\<lambda>v.
     bindE (luaL_optinteger cv args 3 1) (\<lambda>init.
     bindE (guardE (\<not> init < 1) (ArgError 3 ''index out of range'')) (\<lambda>_.
     bindE (find_loop eqTM a v init h) (\<lambda>(r, h). Inr ([r], h))))))"

definition tclear :: tabop where
  "tclear cv h args =
     bindE (luaL_checktable args 1) (\<lambda>a.
     if readonly (h ! a) then Inl luaG_readonlyerror else Inr ([], h[a := luaH_clear (h ! a)]))"

text \<open>\<open>luaL_getmetafield\<close> on a table: the field of its metatable, unless it is nil.\<close>

definition luaL_getmetafield :: "tabheap \<Rightarrow> nat \<Rightarrow> byte list \<Rightarrow> lua_error + TValue option" where
  "luaL_getmetafield h a event =
     (case metatable (h ! a) of
        None \<Rightarrow> Inr None
      | Some m \<Rightarrow> bindE (lua_rawget (h ! m) (TString event)) (\<lambda>v. Inr (if v = TNil then None else Some v)))"

definition protected_check :: "tabheap \<Rightarrow> nat \<Rightarrow> lua_error + unit" where
  "protected_check h a =
     bindE (luaL_getmetafield h a (map of_char ''__metatable'')) (\<lambda>f.
     guardE (f = None) (ArgError 1 ''table has a protected metatable''))"

definition tfreeze :: tabop where
  "tfreeze cv h args =
     bindE (luaL_checktable args 1) (\<lambda>a.
     bindE (guardE (\<not> readonly (h ! a)) (ArgError 1 ''table is already frozen'')) (\<lambda>_.
     bindE (protected_check h a) (\<lambda>_.
     Inr ([TGc LUA_TTABLE a], h[a := (h ! a)\<lparr>readonly := True\<rparr>]))))"

definition tisfrozen :: tabop where
  "tisfrozen cv h args = bindE (luaL_checktable args 1) (\<lambda>a. Inr ([TBoolean (readonly (h ! a))], h))"

definition tclone :: tabop where
  "tclone cv h args =
     bindE (luaL_checktable args 1) (\<lambda>a.
     bindE (protected_check h a) (\<lambda>_. Inr ([TGc LUA_TTABLE (length h)], h @ [luaH_clone (h ! a)])))"

definition getn :: tabop where
  "getn cv h args =
     bindE (luaL_checktable args 1) (\<lambda>a. let (n, h) = lua_objlen h a in Inr ([lua_pushinteger n], h))"

text \<open>The two loops of \<open>maxn\<close>.\<close>

definition maxn_array :: "TValue list \<Rightarrow> double" where
  "maxn_array arr = foldl (\<lambda>m i. if arr ! i \<noteq> TNil then d_of_int (int i + 1) else m) 0 [0..<length arr]"

definition maxn_node :: "double \<Rightarrow> LuaNode \<Rightarrow> double" where
  "maxn_node m nd =
     (case gkey nd of
        TNumber v \<Rightarrow> if gval nd \<noteq> TNil \<and> luai_numlt m v then v else m
      | _ \<Rightarrow> m)"

definition maxn :: tabop where
  "maxn cv h args =
     bindE (luaL_checktable args 1) (\<lambda>a.
     Inr ([TNumber (foldl maxn_node (maxn_array (array (h ! a))) (map ((!) (node (h ! a))) [0..<sizenode (h ! a)]))], h))"

text \<open>
  The functions with callbacks. \<open>call f args\<close> calls a function with the heap and the rest of the state and
  gives its first result.
\<close>

type_synonym 'w lua_call = "nat \<Rightarrow> TValue list \<Rightarrow> tabheap \<times> 'w \<Rightarrow> lua_error + TValue \<times> tabheap \<times> 'w"

fun foreachi_loop :: "'w lua_call \<Rightarrow> nat \<Rightarrow> nat \<Rightarrow> int list \<Rightarrow> tabheap \<times> 'w \<Rightarrow> lua_error + TValue list \<times> tabheap \<times> 'w" where
  "foreachi_loop call f a [] st = Inr ([], st)"
| "foreachi_loop call f a (i # is) st =
     bindE (lua_rawgeti (fst st ! a) i) (\<lambda>v.
     bindE (call f [lua_pushinteger i, v] st) (\<lambda>(r, st).
     if r \<noteq> TNil then Inr ([r], st) else foreachi_loop call f a is st))"

definition foreachi :: "'w lua_call \<Rightarrow> TValue list \<Rightarrow> tabheap \<times> 'w \<Rightarrow> lua_error + TValue list \<times> tabheap \<times> 'w" where
  "foreachi call args st =
     bindE (luaL_checktable args 1) (\<lambda>a.
     bindE (luaL_checkfunction args 2) (\<lambda>f.
     let (n, h) = lua_objlen (fst st) a in foreachi_loop call f a [1..n] (h, snd st)))"

text \<open>\<open>foreach\<close> may run forever when the function keeps adding entries, so it has fuel.\<close>

fun foreach_loop :: "nat \<Rightarrow> 'w lua_call \<Rightarrow> nat \<Rightarrow> nat \<Rightarrow> TValue \<Rightarrow> tabheap \<times> 'w \<Rightarrow> lua_error + TValue list \<times> tabheap \<times> 'w" where
  "foreach_loop 0 call f a key st = Inl (Undefined ''fuel'')"
| "foreach_loop (Suc fuel) call f a key st =
     bindE (luaH_next (fst st ! a) key) (\<lambda>e.
     case e of
       None \<Rightarrow> Inr ([], st)
     | Some (k, v) \<Rightarrow>
         bindE (call f [k, v] st) (\<lambda>(r, st).
         if r \<noteq> TNil then Inr ([r], st) else foreach_loop fuel call f a k st))"

definition foreach :: "nat \<Rightarrow> 'w lua_call \<Rightarrow> TValue list \<Rightarrow> tabheap \<times> 'w \<Rightarrow> lua_error + TValue list \<times> tabheap \<times> 'w" where
  "foreach fuel call args st =
     bindE (luaL_checktable args 1) (\<lambda>a.
     bindE (luaL_checkfunction args 2) (\<lambda>f. foreach_loop fuel call f a TNil st))"

text \<open>
  \<open>table.sort\<close> on the heap. A comparison function or a metamethod \<open>__lt\<close> runs on the heap in which the table
  being sorted has the array as it is at that moment, and can change every table, that one as well.
\<close>

type_synonym 'w lua_order = "TValue \<Rightarrow> TValue \<Rightarrow> tabheap \<times> 'w \<Rightarrow> lua_error + bool \<times> tabheap \<times> 'w"

definition heap_order :: "nat \<Rightarrow> 'w lua_order \<Rightarrow> (LuaTable \<times> tabheap \<times> 'w) SortPredicate" where
  "heap_order a tm st arr l r =
     (case st of (t, h, w) \<Rightarrow>
        bindE (tm l r (h[a := t\<lparr>array := arr\<rparr>], w)) (\<lambda>(b, h, w). Inr (b, (h ! a, h, w), array (h ! a))))"

definition heap_call :: "nat \<Rightarrow> 'w lua_call \<Rightarrow> (LuaTable \<times> tabheap \<times> 'w) lua_call2" where
  "heap_call a call f st arr l r =
     (case st of (t, h, w) \<Rightarrow>
        bindE (call f [l, r] (h[a := t\<lparr>array := arr\<rparr>], w)) (\<lambda>(v, h, w). Inr (v, (h ! a, h, w), array (h ! a))))"

definition table_sort :: "'w lua_order \<Rightarrow> 'w lua_call \<Rightarrow> TValue list \<Rightarrow> tabheap \<times> 'w \<Rightarrow>
    lua_error + TValue list \<times> tabheap \<times> 'w" where
  "table_sort tm call args st =
     bindE (luaL_checktable args 1) (\<lambda>a.
     bindE (tsort (heap_order a tm) (heap_call a call) (arg args 2) (fst st ! a) st) (\<lambda>(t, h, w). Inr ([], h[a := t], w)))"

text \<open>
  \<open>tab_funcs\<close>: the functions of the library by name. Those without callbacks leave the rest of the state alone.
\<close>

type_synonym 'w libop = "numconv \<Rightarrow> tabheap \<times> 'w \<Rightarrow> TValue list \<Rightarrow> lua_error + TValue list \<times> tabheap \<times> 'w"

definition lift_op :: "tabop \<Rightarrow> 'w libop" where
  "lift_op f cv st args = bindE (f cv (fst st) args) (\<lambda>(vs, h). Inr (vs, h, snd st))"

definition tab_funcs :: "equality \<Rightarrow> 'w lua_order \<Rightarrow> 'w lua_call \<Rightarrow> nat \<Rightarrow> string \<Rightarrow> 'w libop option" where
  "tab_funcs eqTM tm call fuel = map_of
     [(''concat'', lift_op tconcat), (''foreach'', \<lambda>cv st args. foreach fuel call args st),
      (''foreachi'', \<lambda>cv st args. foreachi call args st), (''getn'', lift_op getn), (''maxn'', lift_op maxn),
      (''insert'', lift_op tinsert), (''remove'', lift_op tremove), (''sort'', \<lambda>cv st args. table_sort tm call args st),
      (''pack'', lift_op tpack), (''unpack'', lift_op tunpack), (''move'', lift_op tmove), (''create'', lift_op tcreate),
      (''find'', lift_op (tfind eqTM)), (''clear'', lift_op tclear), (''freeze'', lift_op tfreeze),
      (''isfrozen'', lift_op tisfrozen), (''clone'', lift_op tclone)]"

end
