(* ===== verification/TableEdit.thy ===== *)
theory TableEdit imports TableLib begin

text \<open>
  What the parts of the \<open>table\<close> library do to the abstract tables: edits of integer entries, the contract of a
  block move as a locale with its interpretations for both copying loops of \<open>moveelements\<close>, and the checks and
  the growth of \<open>tmove\<close>.
\<close>

section \<open>Editing the integer entries of a table\<close>

definition iat :: "LuaTable \<Rightarrow> int \<Rightarrow> TValue" where
  "iat t i = table_at t (TNumber (d_of_int i))"

definition heap_wf :: "tabheap \<Rightarrow> bool" where
  "heap_wf h \<longleftrightarrow> (\<forall>a < length h. wf_table (h ! a))"

text \<open>Table \<open>t'\<close> is \<open>t\<close> with new values at the integers in the domain of \<open>E\<close>; heap \<open>h'\<close> differs in table \<open>d\<close> only.\<close>

definition edit :: "LuaTable \<Rightarrow> (int \<Rightarrow> TValue option) \<Rightarrow> LuaTable \<Rightarrow> bool" where
  "edit t E t' \<longleftrightarrow> wf_table t' \<and> readonly t' = readonly t \<and> metatable t' = metatable t \<and>
     (\<forall>k. k \<noteq> TNil \<longrightarrow> table_at t' k = (case Option.bind (int_key k) E of Some v \<Rightarrow> v | None \<Rightarrow> table_at t k))"

definition edited :: "tabheap \<Rightarrow> tabheap \<Rightarrow> nat \<Rightarrow> (int \<Rightarrow> TValue option) \<Rightarrow> bool" where
  "edited h h' d E \<longleftrightarrow> length h' = length h \<and> (\<forall>a. a \<noteq> d \<longrightarrow> h' ! a = h ! a) \<and> edit (h ! d) E (h' ! d)"

lemma edit_iat: "edit t E t' \<Longrightarrow> in_int32 i \<Longrightarrow> iat t' i = (case E i of Some v \<Rightarrow> v | None \<Rightarrow> iat t i)"
  by (cases "E i") (simp_all add: edit_def iat_def)

lemma edit_trans: "edit t1 E t2 \<Longrightarrow> edit t2 F t3 \<Longrightarrow> edit t1 (E ++ F) t3"
  unfolding edit_def by (auto simp: map_add_def split: option.splits bind_split)

lemma edited_trans: "edited h1 h2 d E \<Longrightarrow> edited h2 h3 d F \<Longrightarrow> edited h1 h3 d (E ++ F)"
  unfolding edited_def using edit_trans by auto

lemma edited_wf: "heap_wf h \<Longrightarrow> edited h h' d E \<Longrightarrow> heap_wf h'"
  unfolding heap_wf_def edited_def edit_def by metis

lemma edited_iat:
  "edited h h' d E \<Longrightarrow> in_int32 i \<Longrightarrow> iat (h' ! a) i = (case if a = d then E i else None of Some v \<Rightarrow> v | None \<Rightarrow> iat (h ! a) i)"
  by (auto simp: edited_def edit_iat)

lemma edited_flags: "edited h h' d E \<Longrightarrow> readonly (h' ! a) = readonly (h ! a)" "edited h h' d E \<Longrightarrow> length h' = length h"
  by (cases "a = d"; simp add: edited_def edit_def)+

lemma edited_update:
  "a < length h \<Longrightarrow> edit (h ! a) E t \<Longrightarrow> edited h (h[a := t]) a E"
  by (simp add: edited_def)

lemma edit_same: "wf_table t \<Longrightarrow> same_map t t' \<Longrightarrow> same_frame t t' \<Longrightarrow> edit t Map.empty t'"
  by (auto simp: edit_def same_map_def same_frame_def split: bind_split)

lemma store_edit:
  assumes s: "store_at t (TNumber (d_of_int i)) v t'" and f: "same_frame t t'" and i: "in_int32 i"
  shows "edit t [i \<mapsto> v] t'"
proof -
  have "luaO_rawequalKey (TNumber (d_of_int i)) k \<longleftrightarrow> int_key k = Some i" for k
    using rawequal_int_key [OF i, of k] rawequalKey_sym by blast
  then show ?thesis using s f by (auto simp: store_at_def edit_def same_frame_def split: bind_split option.split)
qed

lemma luaH_setnum_frame:
  assumes wf: "wf_table t" and i: "in_int32 i" and s: "luaH_setnum t i = Inr (t', s)"
  shows "same_frame t t'"
proof (cases "in_array t i")
  case True
  then show ?thesis using s by (simp add: luaH_setnum_def)
next
  case False
  let ?k = "TNumber (d_of_int i)"
  have k: "valid_key ?k" using i by (simp add: luai_numisnan_def)
  show ?thesis
  proof (cases "lookup_slot t ?k = SNilobject")
    case True
    then have "\<not> in_part t ?k" "absent t ?k"
      by (auto simp: lookup_slot_def node_slot_def absent_def split: if_splits option.splits)
    then show ?thesis using newkey_ok [OF wf k] s False True getnum_slot [OF wf i]
      by (auto simp: luaH_setnum_def found_or_def)
  qed (use s False getnum_slot [OF wf i] in \<open>simp add: luaH_setnum_def found_or_def\<close>)
qed

lemma rawseti_edit:
  assumes wf: "wf_table t" and i: "in_int32 i"
  shows "case lua_rawseti t i v of
      Inr t' \<Rightarrow> \<not> readonly t \<and> edit t [i \<mapsto> v] t'
    | Inl e \<Rightarrow> if readonly t then e = luaG_readonlyerror else e = RunError ''table overflow'' \<and> \<not> roomy t"
proof (cases "readonly t")
  case False
  note a = luaH_setnum_assigns [OF wf i]
  show ?thesis
  proof (cases "luaH_setnum t i")
    case (Inl e)
    then show ?thesis using a False by (simp add: lua_rawseti_def slot_write_def assigns_def)
  next
    case (Inr r)
    obtain t1 s where r: "r = (t1, s)" by (cases r)
    have "same_frame t (slot_put t1 s v)"
      using luaH_setnum_frame [OF wf i Inr [unfolded r]] same_frame_trans same_shape_put(2) by blast
    moreover have "store_at t (TNumber (d_of_int i)) v (slot_put t1 s v)" using a Inr r stores_put by (simp add: assigns_def)
    ultimately show ?thesis using Inr r False store_edit [OF _ _ i] by (simp add: lua_rawseti_def slot_write_def)
  qed
qed (simp add: lua_rawseti_def)

lemma rawgeti_iat: "wf_table t \<Longrightarrow> in_int32 i \<Longrightarrow> lua_rawgeti t i = Inr (iat t i)"
  using getnum_slot by (simp add: lua_rawgeti_def slot_read_def lookup_slot_val iat_def)

lemma heap_seti_edited:
  assumes "heap_wf h" and "a < length h" and "in_int32 i"
  shows "case heap_seti a i v h of
      Inr h' \<Rightarrow> \<not> readonly (h ! a) \<and> edited h h' a [i \<mapsto> v]
    | Inl e \<Rightarrow> if readonly (h ! a) then e = luaG_readonlyerror else e = RunError ''table overflow'' \<and> \<not> roomy (h ! a)"
  using rawseti_edit [of "h ! a" i v] assms edited_update [of a h]
  by (cases "lua_rawseti (h ! a) i v") (auto simp: heap_seti_def heap_wf_def)

lemma slot_put_edit:
  assumes wf: "wf_table t" and i: "1 \<le> i" "i \<le> int (sizearray t)"
  shows "edit t [i \<mapsto> v] (slot_put t (SArray (nat (i - 1))) v)"
proof -
  have r: "in_int32 i" using size32 [OF wf, of "sizearray t"] i by (auto simp: in_int32_def)
  have "slot_for t (SArray (nat (i - 1))) (TNumber (d_of_int i))" using i r by (auto simp: slot_for_def)
  then have "stores t (TNumber (d_of_int i)) t (SArray (nat (i - 1)))" using wf by (simp add: stores_def)
  then show ?thesis using stores_put store_edit [OF _ _ r] same_shape_put(2) by blast
qed

lemma iat_array: "wf_table t \<Longrightarrow> 1 \<le> i \<Longrightarrow> i \<le> int (sizearray t) \<Longrightarrow> iat t i = array t ! nat (i - 1)"
  using elem_array [of t "nat (i - 1)"] by (simp add: elem_def iat_def)

lemma array_int32: "wf_table t \<Longrightarrow> 0 \<le> i \<Longrightarrow> i \<le> int (sizearray t) \<Longrightarrow> in_int32 i"
  by (simp add: wf_table_def in_int32_def)

section \<open>Moving elements\<close>

text \<open>
  A step of a move copies the element \<open>f + k\<close> of one table to \<open>t + k\<close> of another, or of the same. The steps
  that the code uses, on arrays and through the API, share this contract.
\<close>

locale mover =
  fixes step :: "int \<Rightarrow> tabheap \<Rightarrow> lua_error + tabheap" and ok :: "int \<Rightarrow> tabheap \<Rightarrow> bool"
    and src :: nat and dst :: nat and f :: int and t :: int
  assumes step_edits: "heap_wf h \<Longrightarrow> ok k h \<Longrightarrow> step k h = Inr h' \<Longrightarrow> edited h h' dst [t + k \<mapsto> iat (h ! src) (f + k)]"
    and step_fails: "heap_wf h \<Longrightarrow> ok k h \<Longrightarrow> step k h = Inl e \<Longrightarrow> e = RunError ''table overflow''"
    and step_ok: "heap_wf h \<Longrightarrow> ok k h \<Longrightarrow> ok j h \<Longrightarrow> step k h = Inr h' \<Longrightarrow> ok j h'"
    and ok_range: "ok k h \<Longrightarrow> in_int32 (f + k)"
begin

definition moved :: "int set \<Rightarrow> tabheap \<Rightarrow> int \<Rightarrow> TValue option" where
  "moved K h i = (if i - t \<in> K then Some (iat (h ! src) (f + (i - t))) else None)"

text \<open>When no step reads what an earlier one wrote, the result is that of copying everything at once.\<close>

lemma move_list:
  "heap_wf h \<Longrightarrow> dst < length h \<Longrightarrow> \<forall>k \<in> set ks. ok k h \<Longrightarrow> distinct ks \<Longrightarrow>
   sorted_wrt (\<lambda>k j. src = dst \<longrightarrow> f + j \<noteq> t + k) ks \<Longrightarrow>
   case foldE step ks h of Inr h' \<Rightarrow> edited h h' dst (moved (set ks) h) | Inl e \<Rightarrow> e = RunError ''table overflow''"
proof (induction ks arbitrary: h)
  case Nil
  have "moved {} h = Map.empty" by (simp add: moved_def fun_eq_iff)
  then show ?case using Nil(1,2) by (auto simp: edited_def edit_def heap_wf_def)
next
  case (Cons k ks)
  show ?case
  proof (cases "step k h")
    case (Inl e)
    then have "e = RunError ''table overflow''" using Cons(4) by (intro step_fails [OF Cons(2) _ Inl]) simp
    then show ?thesis using Inl by simp
  next
    case (Inr h1)
    have ed: "edited h h1 dst [t + k \<mapsto> iat (h ! src) (f + k)]" using step_edits [OF Cons(2)] Inr Cons(4) by simp
    have wf1: "heap_wf h1" using edited_wf [OF Cons(2) ed] .
    have ok1: "\<forall>j \<in> set ks. ok j h1" using step_ok [OF Cons(2)] Inr Cons(4) by auto
    have dst1: "dst < length h1" using edited_flags(2) [OF ed] Cons(3) by simp
    have "iat (h1 ! src) (f + j) = iat (h ! src) (f + j)" if "j \<in> set ks" for j
      using edited_iat [OF ed ok_range, of j h1 src] ok1 that Cons(6) by (auto split: if_splits)
    then have m: "[t + k \<mapsto> iat (h ! src) (f + k)] ++ moved (set ks) h1 = moved (set (k # ks)) h"
      using Cons(5) by (auto simp: fun_eq_iff moved_def map_add_def)
    have srt: "distinct ks" "sorted_wrt (\<lambda>k j. src = dst \<longrightarrow> f + j \<noteq> t + k) ks" using Cons(5,6) by simp_all
    show ?thesis
    proof (cases "foldE step ks h1")
      case e: (Inl e)
      then show ?thesis using Cons.IH [OF wf1 dst1 ok1 srt] Inr by simp
    next
      case e: (Inr h')
      then have "edited h1 h' dst (moved (set ks) h1)" using Cons.IH [OF wf1 dst1 ok1 srt] by simp
      from edited_trans [OF ed this] have "edited h h' dst (moved (set (k # ks)) h)" unfolding m .
      then show ?thesis using e Inr by simp
    qed
  qed
qed

end

definition elem_ok :: "nat \<Rightarrow> nat \<Rightarrow> int \<Rightarrow> int \<Rightarrow> int \<Rightarrow> tabheap \<Rightarrow> bool" where
  "elem_ok src dst f t k h \<longleftrightarrow> src < length h \<and> dst < length h \<and> \<not> readonly (h ! dst) \<and> in_int32 (f + k) \<and> in_int32 (t + k)"

definition slot_ok :: "nat \<Rightarrow> nat \<Rightarrow> int \<Rightarrow> int \<Rightarrow> int \<Rightarrow> tabheap \<Rightarrow> bool" where
  "slot_ok src dst f t k h \<longleftrightarrow> src < length h \<and> dst < length h \<and> in_int32 (f + k) \<and>
     1 \<le> f + k \<and> f + k \<le> int (sizearray (h ! src)) \<and> 1 \<le> t + k \<and> t + k \<le> int (sizearray (h ! dst))"

interpretation elems: mover "copy_elem src dst f t" "elem_ok src dst f t" src dst f t for src dst f t
proof
  fix h k assume h: "heap_wf h" and k: "elem_ok src dst f t k h"
  have v: "lua_rawgeti (h ! src) (f + k) = Inr (iat (h ! src) (f + k))"
    using h k by (intro rawgeti_iat) (simp_all add: heap_wf_def elem_ok_def)
  have eq: "copy_elem src dst f t k h = heap_seti dst (t + k) (iat (h ! src) (f + k)) h" by (simp add: copy_elem_def v)
  note s = heap_seti_edited [OF h, of dst "t + k" "iat (h ! src) (f + k)"]
  show "e = RunError ''table overflow''" if "copy_elem src dst f t k h = Inl e" for e
    using s k that unfolding eq by (simp add: elem_ok_def)
  show ed: "edited h h' dst [t + k \<mapsto> iat (h ! src) (f + k)]" if "copy_elem src dst f t k h = Inr h'" for h'
    using s k that unfolding eq by (simp add: elem_ok_def)
  show "elem_ok src dst f t j h'" if "elem_ok src dst f t j h" "copy_elem src dst f t k h = Inr h'" for j h'
    using edited_flags [OF ed [OF that(2)]] that(1) by (simp add: elem_ok_def)
qed (simp add: elem_ok_def)

interpretation slots: mover "copy_slot src dst f t" "slot_ok src dst f t" src dst f t for src dst f t
proof
  fix h k h' assume h: "heap_wf h" and k: "slot_ok src dst f t k h" and s: "copy_slot src dst f t k h = Inr h'"
  have wf: "wf_table (h ! src)" "wf_table (h ! dst)" using h k by (simp_all add: heap_wf_def slot_ok_def)
  have v: "array (h ! src) ! nat (f + k - 1) = iat (h ! src) (f + k)" using iat_array [OF wf(1), of "f + k"] k by (simp add: slot_ok_def)
  show "edited h h' dst [t + k \<mapsto> iat (h ! src) (f + k)]"
    using s slot_put_edit [OF wf(2), of "t + k"] k edited_update [of dst h] by (auto simp: copy_slot_def v slot_ok_def)
  show "slot_ok src dst f t j h'" if "slot_ok src dst f t j h" for j
    using s that by (cases "src = dst") (auto simp: copy_slot_def slot_ok_def)
qed (simp_all add: copy_slot_def slot_ok_def)

text \<open>The block of \<open>n\<close> elements from \<open>f\<close> on, put at \<open>t\<close>.\<close>

definition block :: "LuaTable \<Rightarrow> int \<Rightarrow> int \<Rightarrow> int \<Rightarrow> int \<Rightarrow> TValue option" where
  "block src f t n i = (if t \<le> i \<and> i < t + n then Some (iat src (f + (i - t))) else None)"

lemma elems_moved: "elems.moved src f t {0..n - 1} h = block (h ! src) f t n"
  by (auto simp: fun_eq_iff elems.moved_def block_def)

lemma slots_moved: "slots.moved src f t {0..n - 1} h = block (h ! src) f t n"
  by (auto simp: fun_eq_iff slots.moved_def block_def)

lemma up_order:
  fixes f t e n :: int
  assumes "n = e - f + 1" "t > e \<or> t \<le> f \<or> dst \<noteq> src"
  shows "sorted_wrt (\<lambda>k j. src = dst \<longrightarrow> f + j \<noteq> t + k) [0..n - 1]"
  by (rule sorted_wrt_mono_rel [OF _ sorted_wrt_upto]) (use assms in auto)

lemma down_order:
  fixes f t e n :: int
  assumes "\<not> (t > e \<or> t \<le> f \<or> dst \<noteq> src)"
  shows "sorted_wrt (\<lambda>k j. src = dst \<longrightarrow> f + j \<noteq> t + k) (rev [0..n - 1])"
  unfolding sorted_wrt_rev by (rule sorted_wrt_mono_rel [OF _ sorted_wrt_upto]) (use assms in auto)

text \<open>The unsigned range test of \<open>moveelements\<close>.\<close>

lemma u32_of_int: "uint (word_of_int k :: u32) = k mod 2 ^ 32"
  by (simp add: unsigned_of_int take_bit_eq_mod)

lemma range_test:
  assumes f: "in_int32 f" and n: "0 \<le> n" "in_int32 (f - 1 + n)" and s: "s \<le> MAXSIZE"
    and lt: "word_of_int f - 1 < (word_of_nat s :: u32)" and le: "word_of_int f - 1 + word_of_int n \<le> (word_of_nat s :: u32)"
  shows "1 \<le> f \<and> f + n - 1 \<le> int s"
proof -
  have u: "uint (word_of_nat s :: u32) = int s" using s by (simp add: unsigned_of_nat take_bit_eq_mod)
  have w: "(word_of_int f - 1 :: u32) = word_of_int (f - 1)" "(word_of_int (f - 1) + word_of_int n :: u32) = word_of_int (f - 1 + n)" by simp_all
  have lt': "(f - 1) mod 2 ^ 32 < int s" and le': "(f - 1 + n) mod 2 ^ 32 \<le> int s"
    using lt le unfolding w word_less_def word_le_def u u32_of_int by blast+
  have f1: "1 \<le> f"
  proof (rule ccontr)
    assume "\<not> 1 \<le> f"
    then have "(f - 1 + 2 ^ 32) mod 2 ^ 32 = f - 1 + 2 ^ 32"
      using f by (intro mod_pos_pos_trivial) (auto simp: in_int32_def)
    then have "(f - 1) mod 2 ^ 32 = f - 1 + 2 ^ 32" by (simp only: mod_add_self2)
    then show False using lt' f s by (simp add: in_int32_def)
  qed
  then have "(f - 1 + n) mod 2 ^ 32 = f - 1 + n" using n by (intro mod_pos_pos_trivial) (auto simp: in_int32_def)
  then show ?thesis using f1 le' by simp
qed

lemma moveelements_spec:
  assumes h: "heap_wf h" "src < length h" "dst < length h" and n: "n = e - f + 1" "0 \<le> n" "in_int32 n"
    and r: "in_int32 f" "in_int32 e" "in_int32 t" "in_int32 (t + n - 1)" "in_int32 (e - f)" and same: "srct = dstt \<Longrightarrow> src = dst"
  shows "case moveelements srct dstt src dst f e t h of
      Inr h' \<Rightarrow> \<not> readonly (h ! dst) \<and> edited h h' dst (block (h ! src) f t n)
    | Inl err \<Rightarrow> err = (if readonly (h ! dst) then luaG_readonlyerror else RunError ''table overflow'')"
proof (cases "readonly (h ! dst)")
  case True
  then show ?thesis by (simp add: moveelements_def)
next
  case nr: False
  have wf: "wf_table (h ! src)" "wf_table (h ! dst)" using h by (simp_all add: heap_wf_def)
  have sz: "sizearray (h ! src) \<le> MAXSIZE" "sizearray (h ! dst) \<le> MAXSIZE" using wf by (simp_all add: wf_table_def)
  have c: "bindE (c_int (e - f)) (\<lambda>d. c_int (d + 1)) = Inr n" using n r by (simp add: c_int_ok)
  let ?fast = "word_of_int f - 1 < (word_of_nat (sizearray (h ! src)) :: u32) \<and> word_of_int t - 1 < (word_of_nat (sizearray (h ! dst)) :: u32) \<and>
     word_of_int f - 1 + word_of_int n \<le> (word_of_nat (sizearray (h ! src)) :: u32) \<and>
     word_of_int t - 1 + word_of_int n \<le> (word_of_nat (sizearray (h ! dst)) :: u32)"
  have eo: "\<forall>k \<in> {0..n - 1}. elem_ok src dst f t k h"
    using h nr n r by (auto simp: elem_ok_def in_int32_def)
  have so: "\<forall>k \<in> {0..n - 1}. slot_ok src dst f t k h" if ?fast
  proof -
    have "1 \<le> f \<and> f + n - 1 \<le> int (sizearray (h ! src))"
      using that range_test [OF r(1) n(2) _ sz(1)] r(2) n(1) by simp
    moreover have "1 \<le> t \<and> t + n - 1 \<le> int (sizearray (h ! dst))"
      using that range_test [OF r(3) n(2) _ sz(2)] r(4) by (simp add: diff_add_eq)
    ultimately show ?thesis using h eo by (auto simp: slot_ok_def elem_ok_def)
  qed
  have E: "case foldE (copy_elem src dst f t) ks h of Inr h' \<Rightarrow> edited h h' dst (block (h ! src) f t n) | Inl e \<Rightarrow> e = RunError ''table overflow''"
    if "set ks = {0..n - 1}" "distinct ks" "sorted_wrt (\<lambda>k j. src = dst \<longrightarrow> f + j \<noteq> t + k) ks" for ks
    using elems.move_list [OF h(1,3) _ that(2,3)] eo unfolding that(1) elems_moved by blast
  have S: "case foldE (copy_slot src dst f t) ks h of Inr h' \<Rightarrow> edited h h' dst (block (h ! src) f t n) | Inl e \<Rightarrow> e = RunError ''table overflow''"
    if "set ks = {0..n - 1}" "distinct ks" "sorted_wrt (\<lambda>k j. src = dst \<longrightarrow> f + j \<noteq> t + k) ks" ?fast for ks
    using slots.move_list [OF h(1,3) _ that(2,3)] so [OF that(4)] unfolding that(1) slots_moved by blast
  let ?up = "t > e \<or> t \<le> f \<or> dst \<noteq> src" and ?up1 = "t > e \<or> t \<le> f \<or> (dstt \<noteq> srct \<and> dst \<noteq> src)"
  have up: "?up1 = ?up" using same by auto
  define ks where "ks = (if ?up then [0..n - 1] else rev [0..n - 1])"
  have ks: "set ks = {0..n - 1}" "distinct ks" by (simp_all add: ks_def)
  have "sorted_wrt (\<lambda>k j. src = dst \<longrightarrow> f + j \<noteq> t + k) ks"
    using up_order [OF n(1), of t dst src] down_order [where t = t and e = e and f = f and dst = dst and src = src and n = n] unfolding ks_def by (cases ?up) auto
  note ks = ks this
  have run: "moveelements srct dstt src dst f e t h = (if ?fast then foldE (copy_slot src dst f t) ks h else foldE (copy_elem src dst f t) ks h)"
    unfolding moveelements_def if_not_P [OF nr] c bindE_simps Let_def up ks_def
    by (cases ?up) (simp_all only: if_True if_False)
  show ?thesis
  proof (cases ?fast)
    case True
    then show ?thesis using S [OF ks True] nr unfolding run if_P [OF True] by (simp split: sum.splits)
  next
    case False
    then show ?thesis using E [OF ks] nr unfolding run if_not_P [OF False] by (simp split: sum.splits)
  qed
qed

section \<open>The parts of the operations\<close>

lemma checktable_Inr: "luaL_checktable args n = Inr a \<longleftrightarrow> arg args n = Some (TGc LUA_TTABLE a)"
  by (auto simp: luaL_checktable_def split: option.splits TValue.splits lua_gctype.splits)

lemma checktable_simp [simp]: "arg args n = Some (TGc LUA_TTABLE a) \<Longrightarrow> luaL_checktable args n = Inr a"
  by (simp add: checktable_Inr)

lemma checkinteger_range: "luaL_checkinteger cv args n = Inr i \<Longrightarrow> in_int32 i"
  by (auto simp: luaL_checkinteger_def bindE_eq_Inr_iff luai_num2int_def split: option.splits if_splits)

lemma optinteger_range: "luaL_optinteger cv args n d = Inr i \<Longrightarrow> in_int32 d \<Longrightarrow> in_int32 i"
  by (auto simp: luaL_optinteger_def dest: checkinteger_range split: if_splits)

lemma objlen_spec:
  assumes h: "heap_wf h" "a < length h" and l: "lua_objlen h a = (n, h')"
  shows "edited h h' a Map.empty" "0 \<le> n" "n \<le> int MAXSIZE" "border (h ! a) (nat n)" "sizearray (h' ! a) = sizearray (h ! a)"
proof -
  obtain t m where g: "luaH_getn (h ! a) = (t, m)" by (cases "luaH_getn (h ! a)")
  then have n: "n = int m" "h' = h[a := t]" using l by (simp_all add: lua_objlen_def)
  have wf: "wf_table (h ! a)" using h by (simp add: heap_wf_def)
  note k = luaH_getn_ok [OF wf, unfolded g, simplified] luaH_getn_le [OF wf, unfolded g, simplified] getn_arr [of "h ! a", unfolded g, simplified]
  have "metatable t = metatable (h ! a)"
    using g by (auto simp: luaH_getn_def luaH_getn_search_def updateaboundary_def Let_def maybesetaboundary_same split: if_splits)
  then have "edit (h ! a) Map.empty t" using k by (auto simp: edit_def same_map_def split: bind_split)
  then show "edited h h' a Map.empty" using edited_update [OF h(2)] n by simp
  show "border (h ! a) (nat n)" "0 \<le> n" using k n by simp_all
  show "n \<le> int MAXSIZE" using k n wf by (simp add: wf_table_def)
  show "sizearray (h' ! a) = sizearray (h ! a)" using k n h by simp
qed

lemma edited_empty_at:
  "edited h h' a Map.empty \<Longrightarrow> k \<noteq> TNil \<Longrightarrow> table_at (h' ! b) k = table_at (h ! b) k"
  by (cases "b = a") (auto simp: edited_def edit_def split: bind_split)

text \<open>A grown array part keeps the contents, whatever the size asked for.\<close>

lemma luaH_resizearray_keeps:
  assumes wf: "wf_table t" and n: "sizearray t \<le> n" "int n \<le> INT_MAX" and r: "luaH_resizearray t n = Inr t'"
  shows "edit t Map.empty t'"
  using luaH_resizearray_all [OF wf n] r edit_same [OF wf] by simp

lemma tmove_checks_spec:
  assumes "in_int32 f" "in_int32 e" "in_int32 t" "f \<le> e"
  shows "tmove_checks f e t =
    (if f \<le> 0 \<and> e \<ge> INT_MAX + f then Inl (ArgError 3 ''too many elements to move'')
     else if t + (e - f) > INT_MAX then Inl (ArgError 4 ''destination wrap around'') else Inr (e - f + 1))"
proof (cases "f \<le> 0 \<and> e \<ge> INT_MAX + f")
  case True
  then show ?thesis using assms by (simp add: tmove_checks_def c_int_ok in_int32_def)
next
  case False
  have "(if f > 0 then Inr True else bindE (c_int (INT_MAX + f)) (\<lambda>lim. Inr (e < lim))) = (Inr True :: lua_error + bool)"
    using False assms by (auto simp: c_int_ok in_int32_def)
  moreover have "in_int32 (e - f)" "in_int32 (e - f + 1)" "in_int32 (INT_MAX - (e - f + 1))" "in_int32 (INT_MAX - (e - f + 1) + 1)"
    using False assms by (auto simp: in_int32_def)
  ultimately show ?thesis using False by (auto simp: tmove_checks_def c_int_ok guardE_def)
qed

lemma block_cong:
  "(\<And>i. f \<le> i \<Longrightarrow> i < f + n \<Longrightarrow> iat s' i = iat s i) \<Longrightarrow> block s' f t n = block s f t n"
  by (auto simp: block_def fun_eq_iff)

lemma tmove_step_spec:
  assumes h: "heap_wf h" "src < length h" "dst < length h" and r: "in_int32 f" "in_int32 e" "in_int32 t" "f \<le> e"
    and same: "tt = 1 \<Longrightarrow> src = dst"
  shows "case tmove_step tt src dst f e t h of
      Inr h' \<Rightarrow> \<not> readonly (h ! dst) \<and> edited h h' dst (block (h ! src) f t (e - f + 1))
    | Inl err \<Rightarrow>
        err = ArgError 3 ''too many elements to move'' \<and> f \<le> 0 \<and> e - f \<ge> INT_MAX \<or>
        err = ArgError 4 ''destination wrap around'' \<and> t + (e - f) > INT_MAX \<or>
        err = luaG_readonlyerror \<and> readonly (h ! dst) \<or>
        err = RunError ''table overflow'' \<or>
        err = Undefined ''signed overflow'' \<and> t > 0 \<and> full_above (h ! dst) (t + (e - f))"
proof -
  let ?n = "e - f + 1"
  consider (three) "f \<le> 0 \<and> e \<ge> INT_MAX + f" | (four) "\<not> (f \<le> 0 \<and> e \<ge> INT_MAX + f)" "t + (e - f) > INT_MAX"
    | (ro) "\<not> (f \<le> 0 \<and> e \<ge> INT_MAX + f)" "\<not> t + (e - f) > INT_MAX" "readonly (h ! dst)"
    | (go) "\<not> (f \<le> 0 \<and> e \<ge> INT_MAX + f)" "\<not> t + (e - f) > INT_MAX" "\<not> readonly (h ! dst)" by blast
  then show ?thesis
  proof cases
    case go
    have c: "tmove_checks f e t = Inr ?n" using go unfolding tmove_checks_spec [OF r] by auto
    define g where "g = (if t > 0 \<and> t - 1 \<le> int (sizearray (h ! dst)) \<and> t - 1 + ?n > int (sizearray (h ! dst))
              then bindE (luaH_resizearray (h ! dst) (nat (t - 1 + ?n))) (\<lambda>d. Inr (h[dst := d])) else Inr h)"
    have run: "tmove_step tt src dst f e t h = bindE g (\<lambda>h. moveelements 1 tt src dst f e t h)"
      unfolding tmove_step_def c bindE_simps if_not_P [OF go(3)] g_def ..
    have wf: "wf_table (h ! dst)" using h by (simp add: heap_wf_def)
    show ?thesis
    proof (cases g)
      case (Inl err)
      then have t: "t > 0" "t - 1 + ?n > int (sizearray (h ! dst))" and l: "luaH_resizearray (h ! dst) (nat (t - 1 + ?n)) = Inl err"
        by (auto simp: g_def bindE_eq_Inl_iff split: if_splits)
      have "err = (if full_above (h ! dst) (t + (e - f)) then Undefined ''signed overflow'' else RunError ''table overflow'')"
        using luaH_resizearray_all [OF wf, of "nat (t - 1 + ?n)"] l t go(2) by (simp add: algebra_simps)
      then show ?thesis using run Inl t(1) by (simp split: if_splits)
    next
      case (Inr h1)
      have ed: "edited h h1 dst Map.empty"
      proof (cases "h1 = h")
        case True
        then show ?thesis using wf by (simp add: edited_def edit_def split: bind_split)
      next
        case False
        then obtain d where d: "luaH_resizearray (h ! dst) (nat (t - 1 + ?n)) = Inr d" "h1 = h[dst := d]" "sizearray (h ! dst) \<le> nat (t - 1 + ?n)"
          using Inr by (auto simp: g_def bindE_eq_Inr_iff split: if_splits)
        show ?thesis using luaH_resizearray_keeps [OF wf d(3) _ d(1)] edited_update [OF h(3)] d(2) go(2) r(1,4) by simp
      qed
      have l: "length h1 = length h" "readonly (h1 ! dst) = readonly (h ! dst)" using edited_flags [OF ed] by simp_all
      have b: "block (h1 ! src) f t ?n = block (h ! src) f t ?n"
        by (rule block_cong) (use edited_iat [OF ed, of _ src] r in \<open>auto simp: in_int32_def\<close>)
      have "case moveelements 1 tt src dst f e t h1 of
          Inr h' \<Rightarrow> \<not> readonly (h1 ! dst) \<and> edited h1 h' dst (block (h1 ! src) f t ?n)
        | Inl err \<Rightarrow> err = (if readonly (h1 ! dst) then luaG_readonlyerror else RunError ''table overflow'')"
        using h r go same l by (intro moveelements_spec edited_wf [OF h(1) ed]) (auto simp: in_int32_def)
      then show ?thesis using run Inr l b edited_trans [OF ed] by (auto split: sum.splits)
    qed
  qed (use r in \<open>simp_all add: tmove_step_def tmove_checks_spec\<close>)
qed

end
