(* ===== verification/TableSeq.thy ===== *)
theory TableSeq imports TableEdit begin

text \<open>
  The \<open>table\<close> library on sequences: \<open>insert\<close>, \<open>remove\<close>, \<open>move\<close>, \<open>concat\<close>, \<open>pack\<close>, \<open>unpack\<close> and \<open>find\<close> refine the
  operations on lists.
\<close>

section \<open>Sequences\<close>

text \<open>
  The table as a list: the elements at 1, 2, ... and nothing after them. Entries at other keys are left out, so
  the operations also say that those do not change.
\<close>

definition seq_of :: "LuaTable \<Rightarrow> TValue list \<Rightarrow> bool" where
  "seq_of t xs \<longleftrightarrow> wf_table t \<and> TNil \<notin> set xs \<and>
     (\<forall>i. 1 \<le> i \<longrightarrow> i \<le> INT_MAX \<longrightarrow> iat t i = (if i \<le> int (length xs) then xs ! nat (i - 1) else TNil))"

definition same_others :: "LuaTable \<Rightarrow> LuaTable \<Rightarrow> bool" where
  "same_others t t' \<longleftrightarrow> (\<forall>k. k \<noteq> TNil \<longrightarrow> (\<forall>i. int_key k = Some i \<longrightarrow> i < 1) \<longrightarrow> table_at t' k = table_at t k)"

lemma seq_at: "seq_of t xs \<Longrightarrow> 1 \<le> i \<Longrightarrow> i \<le> INT_MAX \<Longrightarrow> iat t i = (if i \<le> int (length xs) then xs ! nat (i - 1) else TNil)"
  by (simp add: seq_of_def)

lemma seq_border:
  assumes s: "seq_of t xs" and b: "border t n" and n: "n \<le> MAXSIZE"
  shows "n = length xs"
proof (rule ccontr)
  assume ne: "n \<noteq> length xs"
  have e: "elem t k = (if k \<le> length xs then xs ! (k - 1) else TNil)" if "1 \<le> k" "k \<le> Suc MAXSIZE" for k
    using seq_at [OF s, of "int k"] that by (auto simp: elem_def iat_def nat_diff_distrib)
  show False
  proof (cases "n < length xs")
    case True
    then have "xs ! n \<noteq> TNil" using s nth_mem [OF True] unfolding seq_of_def by metis
    then show False using e [of "Suc n"] b True n by (auto simp: border_def)
  next
    case False
    then show False using e [of n] b ne n by (cases n) (auto simp: border_def)
  qed
qed

lemma seq_edit:
  assumes s: "seq_of t xs" and e: "edit t E t'" and ys: "TNil \<notin> set ys"
    and at: "\<And>i. 1 \<le> i \<Longrightarrow> i \<le> INT_MAX \<Longrightarrow>
      (case E i of Some v \<Rightarrow> v | None \<Rightarrow> if i \<le> int (length xs) then xs ! nat (i - 1) else TNil) =
      (if i \<le> int (length ys) then ys ! nat (i - 1) else TNil)"
  shows "seq_of t' ys"
  unfolding seq_of_def
proof (intro conjI allI impI)
  show "wf_table t'" using e by (simp add: edit_def)
  fix i :: int assume i: "1 \<le> i" "i \<le> INT_MAX"
  then have "iat t' i = (case E i of Some v \<Rightarrow> v | None \<Rightarrow> iat t i)" by (intro edit_iat [OF e]) (simp add: in_int32_def)
  then show "iat t' i = (if i \<le> int (length ys) then ys ! nat (i - 1) else TNil)" using at [OF i] seq_at [OF s i] by (cases "E i") simp_all
qed (rule ys)

lemma edit_others: "edit t E t' \<Longrightarrow> (\<And>i. i < 1 \<Longrightarrow> E i = None) \<Longrightarrow> same_others t t'"
  by (auto simp: edit_def same_others_def split: bind_split option.split)

lemma objlen_seq:
  assumes h: "heap_wf h" "a < length h" and s: "seq_of (h ! a) xs"
  obtains h1 where "lua_objlen h a = (int (length xs), h1)" and "edited h h1 a Map.empty" and "length xs \<le> MAXSIZE"
proof -
  obtain n h1 where l: "lua_objlen h a = (n, h1)" by (cases "lua_objlen h a")
  note o = objlen_spec [OF h l]
  have "nat n = length xs" using seq_border [OF s o(4)] o(2,3) by simp
  then show thesis using that [of h1] l o by simp
qed

text \<open>The list operations.\<close>

definition list_insert :: "nat \<Rightarrow> 'a \<Rightarrow> 'a list \<Rightarrow> 'a list" where
  "list_insert i x xs = take i xs @ x # drop i xs"

definition list_delete :: "nat \<Rightarrow> 'a list \<Rightarrow> 'a list" where
  "list_delete i xs = take i xs @ drop (Suc i) xs"

lemma nth_insert: "i \<le> length xs \<Longrightarrow> j \<le> length xs \<Longrightarrow>
   list_insert i x xs ! j = (if j < i then xs ! j else if j = i then x else xs ! (j - 1))"
  by (auto simp: list_insert_def nth_append nth_Cons' min_def)

lemma nth_delete: "i < length xs \<Longrightarrow> j < length xs - 1 \<Longrightarrow> list_delete i xs ! j = (if j < i then xs ! j else xs ! Suc j)"
  by (auto simp: list_delete_def nth_append min_def)

lemma length_insert: "i \<le> length xs \<Longrightarrow> length (list_insert i x xs) = Suc (length xs)"
  by (simp add: list_insert_def)

lemma length_delete: "i < length xs \<Longrightarrow> length (list_delete i xs) = length xs - 1"
  by (auto simp: list_delete_def min_def)

lemma set_insert: "set (list_insert i x xs) = insert x (set xs)"
  unfolding list_insert_def by (metis Un_insert_right append_take_drop_id list.simps(15) set_append)

lemma set_delete: "set (list_delete i xs) \<subseteq> set xs"
  by (auto simp: list_delete_def dest: in_set_takeD in_set_dropD)

text \<open>What an operation that changes one table promises: the other tables stay, the list changes, other keys stay.\<close>

definition seq_change :: "tabheap \<Rightarrow> nat \<Rightarrow> TValue list \<Rightarrow> tabheap \<Rightarrow> bool" where
  "seq_change h a ys h' \<longleftrightarrow> length h' = length h \<and> (\<forall>b. b \<noteq> a \<longrightarrow> h' ! b = h ! b) \<and> seq_of (h' ! a) ys \<and>
     same_others (h ! a) (h' ! a) \<and> readonly (h' ! a) = readonly (h ! a) \<and> metatable (h' ! a) = metatable (h ! a)"

lemma seq_changeI:
  assumes "edited h h' a E" and "seq_of (h ! a) xs" and "TNil \<notin> set ys" and "\<And>i. i < 1 \<Longrightarrow> E i = None"
    and "\<And>i. 1 \<le> i \<Longrightarrow> i \<le> INT_MAX \<Longrightarrow>
      (case E i of Some v \<Rightarrow> v | None \<Rightarrow> if i \<le> int (length xs) then xs ! nat (i - 1) else TNil) =
      (if i \<le> int (length ys) then ys ! nat (i - 1) else TNil)"
  shows "seq_change h a ys h'"
proof -
  have e: "edit (h ! a) E (h' ! a)" using assms(1) by (simp add: edited_def)
  have "seq_of (h' ! a) ys" using seq_edit [OF assms(2) e assms(3,5)] .
  moreover have "same_others (h ! a) (h' ! a)" using edit_others [OF e assms(4)] .
  ultimately show ?thesis using assms(1) by (simp add: edited_def seq_change_def edit_def)
qed

text \<open>The part of \<open>tinsert\<close> after the position is known, and of \<open>tremove\<close>.\<close>

lemma insert_seq:
  assumes h: "heap_wf h" "a < length h" and s: "seq_of (h ! a) xs" and l: "length xs \<le> MAXSIZE"
    and pos: "1 \<le> pos" "pos \<le> int (length xs) + 1" and v: "v \<noteq> TNil"
  shows "case bindE (if 1 \<le> pos \<and> pos \<le> int (length xs) then moveelements 1 1 a a pos (int (length xs)) (pos + 1) h else Inr h)
       (heap_seti a pos v) of
      Inr h' \<Rightarrow> seq_change h a (list_insert (nat (pos - 1)) v xs) h'
    | Inl e \<Rightarrow> e = (if readonly (h ! a) then luaG_readonlyerror else RunError ''table overflow'')"
proof -
  let ?n = "int (length xs)" and ?ys = "list_insert (nat (pos - 1)) v xs"
  let ?move = "if 1 \<le> pos \<and> pos \<le> ?n then moveelements 1 1 a a pos ?n (pos + 1) h else Inr h"
  define B where "B = (if pos \<le> ?n then block (h ! a) pos (pos + 1) (?n - pos + 1) else Map.empty)"
  have mv: "case ?move of Inr h1 \<Rightarrow> edited h h1 a B | Inl e \<Rightarrow> e = (if readonly (h ! a) then luaG_readonlyerror else RunError ''table overflow'')"
  proof (cases "pos \<le> ?n")
    case True
    have "case moveelements 1 1 a a pos ?n (pos + 1) h of
        Inr h' \<Rightarrow> \<not> readonly (h ! a) \<and> edited h h' a (block (h ! a) pos (pos + 1) (?n - pos + 1))
      | Inl err \<Rightarrow> err = (if readonly (h ! a) then luaG_readonlyerror else RunError ''table overflow'')"
      using h True pos l by (intro moveelements_spec) (auto simp: in_int32_def)
    then show ?thesis using True pos by (auto simp: B_def split: sum.splits)
  next
    case False
    have "edited h h a Map.empty" using h by (simp add: edited_def edit_def heap_wf_def split: bind_split)
    then show ?thesis using False by (simp add: B_def)
  qed
  show ?thesis
  proof (cases ?move)
    case (Inl e)
    then show ?thesis using mv by (simp split: if_splits)
  next
    case (Inr h1)
    then have ed: "edited h h1 a B" using mv by simp
    have i: "in_int32 pos" using pos l by (simp add: in_int32_def)
    have a1: "a < length h1" "readonly (h1 ! a) = readonly (h ! a)" using edited_flags [OF ed] h by simp_all
    note se = heap_seti_edited [OF edited_wf [OF h(1) ed] a1(1) i, of v]
    show ?thesis
    proof (cases "heap_seti a pos v h1")
      case e: (Inl e)
      then show ?thesis using Inr se a1 by (auto split: if_splits)
    next
      case e: (Inr h')
      then have ed2: "edited h h' a (B ++ [pos \<mapsto> v])" using se edited_trans [OF ed, of h' "[pos \<mapsto> v]"] by (simp only: sum.case)
      have "seq_change h a ?ys h'"
      proof (rule seq_changeI [OF ed2 s])
        show "TNil \<notin> set ?ys" using s v by (simp add: set_insert seq_of_def)
        show "(B ++ [pos \<mapsto> v]) i = None" if "i < 1" for i using that pos by (simp add: B_def block_def map_add_def)
        fix i :: int assume i: "1 \<le> i" "i \<le> INT_MAX"
        have len: "length ?ys = Suc (length xs)" using pos by (intro length_insert) linarith
        have nth: "?ys ! nat (i - 1) = (if i < pos then xs ! nat (i - 1) else if i = pos then v else xs ! nat (i - 2))" if "i \<le> ?n + 1"
        proof -
          have "?ys ! nat (i - 1) = (if nat (i - 1) < nat (pos - 1) then xs ! nat (i - 1) else if nat (i - 1) = nat (pos - 1) then v else xs ! (nat (i - 1) - 1))"
            using that i pos by (intro nth_insert) linarith+
          moreover have "nat (i - 1) - 1 = nat (i - 2)" by simp
          ultimately show ?thesis using i pos by auto
        qed
        have "iat (h ! a) (i - 1) = xs ! nat (i - 2)" if "pos < i" "i \<le> ?n + 1"
          using seq_at [OF s, of "i - 1"] that pos i by simp
        then show "(case (B ++ [pos \<mapsto> v]) i of Some v \<Rightarrow> v | None \<Rightarrow> if i \<le> ?n then xs ! nat (i - 1) else TNil) =
            (if i \<le> int (length ?ys) then ?ys ! nat (i - 1) else TNil)"
          using nth len i pos by (auto simp: B_def block_def map_add_def)
      qed
      then show ?thesis using Inr e by simp
    qed
  qed
qed

lemma remove_seq:
  assumes h: "heap_wf h" "a < length h" and s: "seq_of (h ! a) xs" and l: "length xs \<le> MAXSIZE"
    and pos: "1 \<le> pos" "pos \<le> int (length xs)"
  shows "case bindE (moveelements 1 1 a a (pos + 1) (int (length xs)) pos h) (heap_seti a (int (length xs)) TNil) of
      Inr h' \<Rightarrow> seq_change h a (list_delete (nat (pos - 1)) xs) h'
    | Inl e \<Rightarrow> e = (if readonly (h ! a) then luaG_readonlyerror else RunError ''table overflow'')"
proof -
  let ?n = "int (length xs)" and ?ys = "list_delete (nat (pos - 1)) xs"
  define B where "B = block (h ! a) (pos + 1) pos (?n - pos)"
  have m: "case moveelements 1 1 a a (pos + 1) ?n pos h of
      Inr h' \<Rightarrow> \<not> readonly (h ! a) \<and> edited h h' a B
    | Inl err \<Rightarrow> err = (if readonly (h ! a) then luaG_readonlyerror else RunError ''table overflow'')"
    unfolding B_def using h pos l by (intro moveelements_spec) (auto simp: in_int32_def)
  show ?thesis
  proof (cases "moveelements 1 1 a a (pos + 1) ?n pos h")
    case (Inl e)
    then show ?thesis using m by simp
  next
    case (Inr h1)
    then have ed: "edited h h1 a B" using m by simp
    have i: "in_int32 ?n" using l by (simp add: in_int32_def)
    have a1: "a < length h1" "readonly (h1 ! a) = readonly (h ! a)" using edited_flags [OF ed] h by simp_all
    note se = heap_seti_edited [OF edited_wf [OF h(1) ed] a1(1) i, of TNil]
    show ?thesis
    proof (cases "heap_seti a ?n TNil h1")
      case e: (Inl e)
      then show ?thesis using Inr se a1 by (auto split: if_splits)
    next
      case e: (Inr h')
      then have ed2: "edited h h' a (B ++ [?n \<mapsto> TNil])" using se edited_trans [OF ed, of h' "[?n \<mapsto> TNil]"] by (simp only: sum.case)
      have "seq_change h a ?ys h'"
      proof (rule seq_changeI [OF ed2 s])
        show "TNil \<notin> set ?ys" using s set_delete [of "nat (pos - 1)" xs] unfolding seq_of_def by blast
        show "(B ++ [?n \<mapsto> TNil]) i = None" if "i < 1" for i using that pos by (simp add: B_def block_def map_add_def)
        fix i :: int assume i: "1 \<le> i" "i \<le> INT_MAX"
        have len: "length ?ys = length xs - 1" using pos by (intro length_delete) linarith
        have nth: "?ys ! nat (i - 1) = (if i < pos then xs ! nat (i - 1) else xs ! nat i)" if "i < ?n"
        proof -
          have "?ys ! nat (i - 1) = (if nat (i - 1) < nat (pos - 1) then xs ! nat (i - 1) else xs ! Suc (nat (i - 1)))"
            using that i pos by (intro nth_delete) linarith+
          moreover have "Suc (nat (i - 1)) = nat i" using i by simp
          ultimately show ?thesis using i pos by auto
        qed
        have "iat (h ! a) (pos + 1 + (i - pos)) = xs ! nat i" if "i < ?n"
          using seq_at [OF s, of "i + 1"] that l i by (simp add: add.commute)
        then show "(case (B ++ [?n \<mapsto> TNil]) i of Some v \<Rightarrow> v | None \<Rightarrow> if i \<le> ?n then xs ! nat (i - 1) else TNil) =
            (if i \<le> int (length ?ys) then ?ys ! nat (i - 1) else TNil)"
          using nth len i pos by (auto simp: B_def block_def map_add_def)
      qed
      then show ?thesis using Inr e by simp
    qed
  qed
qed

section \<open>Properties\<close>

text \<open>Examples: a heap with the table of three numbers of the sort examples.\<close>

definition one_heap :: tabheap where
  "one_heap = [three_numbers]"

lemma one_heap_wf: "heap_wf one_heap"
  by (simp add: heap_wf_def one_heap_def three_numbers_wf)

lemma three_numbers_seq: "seq_of three_numbers (map (\<lambda>i. TNumber (d_of_int i)) [3, 1, 2])"
  unfolding seq_of_def
proof (intro conjI allI impI)
  fix i :: int assume i: "1 \<le> i" "i \<le> INT_MAX"
  have r: "in_int32 i" using i by (simp add: in_int32_def)
  have arr: "array three_numbers = map (\<lambda>i. TNumber (d_of_int i)) [3, 1, 2]" by (simp add: three_numbers_def)
  have no: "node_find (node three_numbers) k = None" if "k \<noteq> TNil" for k
    using that by (simp add: three_numbers_def empty_table_def node_find_def luaH_dummynode_def luaO_rawequalKey_def)
  show "iat three_numbers i = (if i \<le> int (length (map (\<lambda>i. TNumber (d_of_int i)) [3, 1, 2]))
      then map (\<lambda>i. TNumber (d_of_int i)) [3, 1, 2] ! nat (i - 1) else TNil)"
    using r i no by (simp add: iat_def table_at_def in_part_def arr node_val_def)
qed (simp_all add: three_numbers_wf)

lemma three_numbers_not_full: "\<not> full_above three_numbers 3"
proof -
  have "iat three_numbers 4 = TNil" using three_numbers_seq unfolding seq_of_def by simp
  then show ?thesis unfolding full_above_def iat_def by (intro notI) (drule spec [of _ 4], simp)
qed

text \<open>
  The growth of the destination computes the next index after the size it is asked for, which overflows when
  the block ends at \<open>INT_MAX\<close>, as in \<open>table.move(t, 1, 2147483647, 1)\<close> on any table that is not readonly.
\<close>

lemma move_overflow:
  assumes "heap_wf h" and "src < length h" and "dst < length h" and "\<not> readonly (h ! dst)"
  shows "tmove cv h [TGc LUA_TTABLE src, lua_pushinteger 1, lua_pushinteger INT_MAX, lua_pushinteger 1, TGc LUA_TTABLE dst]
    = Inl (Undefined ''signed overflow'')"
proof -
  have wf: "wf_table (h ! dst)" using assms by (simp add: heap_wf_def)
  then have n: "sizearray (h ! dst) \<le> nat INT_MAX" by (simp add: wf_table_def)
  have "luaH_resizearray (h ! dst) (nat INT_MAX) = Inl (Undefined ''signed overflow'')"
    using luaH_resizearray_all [OF wf n] adjustasize_any [OF wf, of "nat INT_MAX"]
    by (auto simp: luaH_resizearray_def split: if_splits)
  then have "tmove_step 5 src dst 1 INT_MAX 1 h = Inl (Undefined ''signed overflow'')"
    using assms(4) wf by (simp add: tmove_step_def tmove_checks_spec in_int32_def wf_table_def)
  then show ?thesis by (simp add: tmove_def lua_isnoneornil_def in_int32_def)
qed

text \<open>C8. \<open>table.move\<close> is a memory move on the abstract table: for any integers the block \<open>f..e\<close> of the source, as it was
  before the call, is at \<open>t\<close> afterwards and nothing else changed, also when source and destination are the
  same table and the ranges overlap, on the array path and on the path through the API. It fails only with one
  of five errors: too many elements, a destination past \<open>INT_MAX\<close> or a readonly destination, each only under
  that condition; the table overflow of a growing table; and the signed overflow of the growth, only when the
  destination holds a value at every index from the end of the block up to \<open>INT_MAX\<close> (as it does, vacuously,
  when the block ends at \<open>INT_MAX\<close>).\<close>

theorem move_memmove:
  assumes "heap_wf h" and "src < length h" and "dst < length h" and "in_int32 f" and "in_int32 e" and "in_int32 t"
  shows "case tmove cv h [TGc LUA_TTABLE src, lua_pushinteger f, lua_pushinteger e, lua_pushinteger t, TGc LUA_TTABLE dst] of
      Inr (vs, h') \<Rightarrow> vs = [TGc LUA_TTABLE dst] \<and>
        (if e < f then h' = h else \<not> readonly (h ! dst) \<and> edited h h' dst (block (h ! src) f t (e - f + 1)))
    | Inl err \<Rightarrow> f \<le> e \<and>
       (err = ArgError 3 ''too many elements to move'' \<and> f \<le> 0 \<and> e - f \<ge> INT_MAX \<or>
        err = ArgError 4 ''destination wrap around'' \<and> t + (e - f) > INT_MAX \<or>
        err = luaG_readonlyerror \<and> readonly (h ! dst) \<or>
        err = RunError ''table overflow'' \<or>
        err = Undefined ''signed overflow'' \<and> t > 0 \<and> full_above (h ! dst) (t + (e - f)))"
proof -
  let ?args = "[TGc LUA_TTABLE src, lua_pushinteger f, lua_pushinteger e, lua_pushinteger t, TGc LUA_TTABLE dst]"
  have "tmove cv h ?args = bindE (if e \<ge> f then tmove_step 5 src dst f e t h else Inr h) (\<lambda>h. Inr ([TGc LUA_TTABLE dst], h))"
    using assms(4-6) by (simp add: tmove_def lua_isnoneornil_def)
  then show ?thesis using tmove_step_spec [OF assms, of 5]
    by (cases "f \<le> e"; cases "tmove_step 5 src dst f e t h") auto
qed

theorem move_memmove_witness:
  "case tmove no_conv one_heap [TGc LUA_TTABLE 0, lua_pushinteger 1, lua_pushinteger 2, lua_pushinteger 2, TGc LUA_TTABLE 0] of
      Inr (vs, h') \<Rightarrow> edited one_heap h' 0 (block (one_heap ! 0) 1 2 2)
    | Inl err \<Rightarrow> err = RunError ''table overflow''"
  using move_memmove [OF one_heap_wf, of 0 0 1 2 2 no_conv]
  by (auto simp: in_int32_def one_heap_def three_numbers_writable three_numbers_not_full split: sum.splits)

text \<open>C21. \<open>table.insert\<close> refines the insertion into a list: on a table that holds the sequence \<open>xs\<close>, with a position
  from 1 to the length plus one (or without, at the end), the sequence afterwards is \<open>xs\<close> with the value at
  the position; entries at other keys and all other tables stay. It fails only on a readonly or full table.\<close>

theorem insert_list:
  assumes "heap_wf h" and "a < length h" and "seq_of (h ! a) xs" and "1 \<le> pos" and "pos \<le> int (length xs) + 1" and "v \<noteq> TNil"
  shows "(case tinsert cv h [TGc LUA_TTABLE a, lua_pushinteger pos, v] of
      Inr (vs, h') \<Rightarrow> vs = [] \<and> seq_change h a (list_insert (nat (pos - 1)) v xs) h'
    | Inl e \<Rightarrow> e = (if readonly (h ! a) then luaG_readonlyerror else RunError ''table overflow'')) \<and>
   (case tinsert cv h [TGc LUA_TTABLE a, v] of
      Inr (vs, h') \<Rightarrow> vs = [] \<and> seq_change h a (xs @ [v]) h'
    | Inl e \<Rightarrow> e = (if readonly (h ! a) then luaG_readonlyerror else RunError ''table overflow''))"
proof -
  obtain h1 where l: "lua_objlen h a = (int (length xs), h1)" "edited h h1 a Map.empty" "length xs \<le> MAXSIZE"
    by (rule objlen_seq [OF assms(1-3)])
  have s1: "seq_change h a xs h1"
    by (rule seq_changeI [OF l(2) assms(3)]) (use assms(3) in \<open>auto simp: seq_of_def\<close>)
  then have h1: "seq_of (h1 ! a) xs" "a < length h1" "readonly (h1 ! a) = readonly (h ! a)" using assms(2) by (simp_all add: seq_change_def)
  note wf1 = edited_wf [OF assms(1) l(2)]
  have tr: "seq_change h1 a ys h2 \<Longrightarrow> seq_change h a ys h2" for ys h2
    using s1 by (auto simp: seq_change_def same_others_def)
  have p: "in_int32 pos" using assms(4,5) l(3) by (simp add: in_int32_def)
  note i1 = insert_seq [OF wf1 h1(2,1) l(3) assms(4,5,6)]
  have i2: "case heap_seti a (int (length xs) + 1) v h1 of
      Inr h' \<Rightarrow> seq_change h1 a (list_insert (length xs) v xs) h'
    | Inl e \<Rightarrow> e = (if readonly (h1 ! a) then luaG_readonlyerror else RunError ''table overflow'')"
    using insert_seq [OF wf1 h1(2,1) l(3), of "int (length xs) + 1" v] assms(6) by (simp split: sum.splits)
  have e1: "tinsert cv h [TGc LUA_TTABLE a, lua_pushinteger pos, v] =
      bindE (bindE (if 1 \<le> pos \<and> pos \<le> int (length xs) then moveelements 1 1 a a pos (int (length xs)) (pos + 1) h1 else Inr h1)
        (heap_seti a pos v)) (\<lambda>h. Inr ([], h))"
    using l(1) p by (cases "moveelements 1 1 a a pos (int (length xs)) (pos + 1) h1") (auto simp: tinsert_def)
  have e2: "tinsert cv h [TGc LUA_TTABLE a, v] = bindE (heap_seti a (int (length xs) + 1) v h1) (\<lambda>h. Inr ([], h))"
    using l(1) by (simp add: tinsert_def)
  have "list_insert (length xs) v xs = xs @ [v]" by (simp add: list_insert_def)
  then show ?thesis unfolding e1 e2 using i1 i2 tr h1(3) by (auto split: sum.splits simp: bindE_def)
qed

theorem insert_list_witness:
  "case tinsert no_conv one_heap [TGc LUA_TTABLE 0, lua_pushinteger 2, TBoolean True] of
      Inr (vs, h') \<Rightarrow> vs = [] \<and> seq_change one_heap 0 (list_insert 1 (TBoolean True) (map (\<lambda>i. TNumber (d_of_int i)) [3, 1, 2])) h'
    | Inl e \<Rightarrow> e = RunError ''table overflow''"
  using insert_list [OF one_heap_wf, of 0 "map (\<lambda>i. TNumber (d_of_int i)) [3, 1, 2]" 2 "TBoolean True" no_conv] three_numbers_seq
  by (auto simp: one_heap_def three_numbers_writable split: sum.splits)

text \<open>C22. \<open>table.remove\<close> refines the deletion from a list and returns the removed element; with a position outside of the
  sequence it returns nothing and changes no contents.\<close>

theorem remove_list:
  assumes "heap_wf h" and "a < length h" and "seq_of (h ! a) xs" and "in_int32 pos"
  shows "case tremove cv h [TGc LUA_TTABLE a, lua_pushinteger pos] of
      Inr (vs, h') \<Rightarrow> (if 1 \<le> pos \<and> pos \<le> int (length xs)
        then vs = [xs ! nat (pos - 1)] \<and> seq_change h a (list_delete (nat (pos - 1)) xs) h'
        else vs = [] \<and> seq_change h a xs h')
    | Inl e \<Rightarrow> e = (if readonly (h ! a) then luaG_readonlyerror else RunError ''table overflow'')"
proof -
  obtain h1 where l: "lua_objlen h a = (int (length xs), h1)" "edited h h1 a Map.empty" "length xs \<le> MAXSIZE"
    by (rule objlen_seq [OF assms(1-3)])
  have s1: "seq_change h a xs h1"
    by (rule seq_changeI [OF l(2) assms(3)]) (use assms(3) in \<open>auto simp: seq_of_def\<close>)
  then have h1: "seq_of (h1 ! a) xs" "a < length h1" "readonly (h1 ! a) = readonly (h ! a)" using assms(2) by (simp_all add: seq_change_def)
  note wf1 = edited_wf [OF assms(1) l(2)]
  have tr: "seq_change h1 a ys h2 \<Longrightarrow> seq_change h a ys h2" for ys h2
    using s1 by (auto simp: seq_change_def same_others_def)
  show ?thesis
  proof (cases "1 \<le> pos \<and> pos \<le> int (length xs)")
    case False
    then have "tremove cv h [TGc LUA_TTABLE a, lua_pushinteger pos] = Inr ([], h1)"
      using l(1) assms(4) by (auto simp: tremove_def)
    then show ?thesis using False s1 by auto
  next
    case True
    have "wf_table (h1 ! a)" using wf1 h1 by (simp add: heap_wf_def)
    then have v: "lua_rawgeti (h1 ! a) pos = Inr (xs ! nat (pos - 1))"
      using rawgeti_iat [OF _ assms(4)] seq_at [OF h1(1), of pos] True assms(4) by (simp add: in_int32_def)
    have "tremove cv h [TGc LUA_TTABLE a, lua_pushinteger pos] =
        bindE (bindE (moveelements 1 1 a a (pos + 1) (int (length xs)) pos h1) (heap_seti a (int (length xs)) TNil))
          (\<lambda>h. Inr ([xs ! nat (pos - 1)], h))"
      using l(1) assms(4) True v
      by (cases "moveelements 1 1 a a (pos + 1) (int (length xs)) pos h1") (auto simp: tremove_def)
    then show ?thesis
      using remove_seq [OF wf1 h1(2,1) l(3) conjunct1 [OF True] conjunct2 [OF True]] True tr h1(3)
      by (cases "bindE (moveelements 1 1 a a (pos + 1) (int (length xs)) pos h1) (heap_seti a (int (length xs)) TNil)") auto
  qed
qed

theorem remove_list_witness:
  "case tremove no_conv one_heap [TGc LUA_TTABLE 0, lua_pushinteger 1] of
      Inr (vs, h') \<Rightarrow> vs = [TNumber (d_of_int 3)] \<and> seq_change one_heap 0 (map (\<lambda>i. TNumber (d_of_int i)) [1, 2]) h'
    | Inl e \<Rightarrow> e = RunError ''table overflow''"
  using remove_list [OF one_heap_wf, of 0 "map (\<lambda>i. TNumber (d_of_int i)) [3, 1, 2]" 1 no_conv] three_numbers_seq
  by (auto simp: one_heap_def three_numbers_writable in_int32_def list_delete_def split: sum.splits)

text \<open>The strings of a list, with a separator between them.\<close>

fun join :: "byte list \<Rightarrow> byte list list \<Rightarrow> byte list" where
  "join sep [] = []"
| "join sep [s] = s"
| "join sep (s # ss) = s @ sep @ join sep ss"

lemma addfield_seq:
  assumes s: "seq_of t (map TString ss)" and i: "1 \<le> i" "i \<le> int (length ss)" and l: "length ss \<le> MAXSIZE"
  shows "addfield cv t i = Inr (ss ! nat (i - 1))"
proof -
  have wf: "wf_table t" using s by (simp add: seq_of_def)
  have r: "in_int32 i" "in_int32 (i - 1)" using i l by (auto simp: in_int32_def)
  have at: "iat t i = TString (ss ! nat (i - 1))" using seq_at [OF s i(1)] i l by simp
  have g: "lua_rawgeti t i = Inr (TString (ss ! nat (i - 1)))" using rawgeti_iat [OF wf r(1)] at by simp
  show ?thesis
  proof (cases "(word_of_int (i - 1) :: u32) < word_of_nat (sizearray t)")
    case True
    have "sizearray t \<le> MAXSIZE" using wf by (simp add: wf_table_def)
    then have "uint (word_of_nat (sizearray t) :: u32) = int (sizearray t)" by (simp add: unsigned_of_nat take_bit_eq_mod)
    moreover have "uint (word_of_int (i - 1) :: u32) = i - 1" using i l by (simp only: u32_of_int) simp
    ultimately have "i \<le> int (sizearray t)" using True by (simp add: word_less_def)
    then have "array t ! nat (i - 1) = TString (ss ! nat (i - 1))" using iat_array [OF wf i(1)] at by simp
    then show ?thesis using True r(2) by (simp add: addfield_def c_int_ok)
  next
    case False
    then show ?thesis using g r(2) by (simp add: addfield_def c_int_ok)
  qed
qed

lemma concat_loop_seq:
  assumes s: "seq_of t (map TString ss)" and l: "length ss \<le> MAXSIZE"
  shows "1 \<le> i \<Longrightarrow> i \<le> int (length ss) + 1 \<Longrightarrow>
    concat_loop cv t sep i (int (length ss)) b = Inr (b @ join sep (drop (nat (i - 1)) ss))"
proof (induction "nat (int (length ss) - i)" arbitrary: i b rule: less_induct)
  case less
  show ?case
  proof (cases "i \<le> int (length ss)")
    case False
    then show ?thesis using less(2,3) by (simp add: concat_loop.simps [of cv t sep i])
  next
    case True
    let ?k = "nat (i - 1)"
    have k: "?k < length ss" "nat (i + 1 - 1) = Suc ?k" using True less(2) by simp_all
    have a: "addfield cv t i = Inr (ss ! ?k)" using addfield_seq [OF s less(2) True l] .
    have d: "drop ?k ss = ss ! ?k # drop (Suc ?k) ss" using k by (simp add: Cons_nth_drop_Suc)
    show ?thesis
    proof (cases "i = int (length ss)")
      case True
      then have "drop (Suc ?k) ss = []" using k by simp
      then show ?thesis using True a d unfolding concat_loop.simps [of cv t sep i] by simp
    next
      case False
      then have "drop (Suc ?k) ss \<noteq> []" using True k less(2) by simp
      then have j: "join sep (drop ?k ss) = ss ! ?k @ sep @ join sep (drop (Suc ?k) ss)"
        unfolding d by (cases "drop (Suc ?k) ss") simp_all
      have "concat_loop cv t sep (i + 1) (int (length ss)) (b @ ss ! ?k @ sep) =
          Inr ((b @ ss ! ?k @ sep) @ join sep (drop (nat (i + 1 - 1)) ss))"
        using less(2) True False by (intro less(1)) auto
      then show ?thesis using True False a j k(2) by (simp add: concat_loop.simps [of cv t sep i])
    qed
  qed
qed

text \<open>\<open>table.concat\<close> on a table that holds a sequence of strings gives the strings with the separator between
  them, and nothing on the empty sequence; no entry changes.\<close>

theorem concat_list:
  assumes "heap_wf h" and "a < length h" and "seq_of (h ! a) (map TString ss)"
  shows "\<exists>h'. tconcat cv h [TGc LUA_TTABLE a, TString sep] = Inr ([TString (join sep ss)], h') \<and>
    seq_change h a (map TString ss) h'"
proof -
  obtain h1 where l: "lua_objlen h a = (int (length ss), h1)" "edited h h1 a Map.empty" "length ss \<le> MAXSIZE"
    using objlen_seq [OF assms] by auto
  have s1: "seq_change h a (map TString ss) h1"
    by (rule seq_changeI [OF l(2) assms(3)]) (use assms(3) in \<open>auto simp: seq_of_def\<close>)
  then have "concat_loop cv (h1 ! a) sep 1 (int (length ss)) [] = Inr (join sep ss)"
    using concat_loop_seq [OF _ l(3), of "h1 ! a" 1 cv sep "[]"] by (simp add: seq_change_def)
  moreover have "arg [TGc LUA_TTABLE a, TString sep] n = None" if "2 < n" for n using that by (simp add: arg_def)
  ultimately show ?thesis using s1 l(1)
    by (auto simp: tconcat_def luaL_optlstring_def lua_isnoneornil_def luaL_optinteger_def)
qed

theorem concat_list_witness:
  "\<exists>h'. tconcat no_conv [empty_table] [TGc LUA_TTABLE 0, TString [44]] = Inr ([TString []], h')"
proof -
  have "seq_of empty_table (map TString [])"
    by (auto simp: seq_of_def empty_table_wf iat_def empty_table_at)
  then show ?thesis using concat_list [of "[empty_table]" 0 "[]" no_conv "[44]"] by (auto simp: heap_wf_def empty_table_wf)
qed

text \<open>Packing and unpacking.\<close>

lemma fill_array:
  assumes "n \<le> length (array t)"
  shows "foldl (\<lambda>t i. slot_put t (SArray i) (f i)) t [0..<n] = t\<lparr>array := map f [0..<n] @ drop n (array t)\<rparr>"
  using assms
proof (induction n)
  case (Suc n)
  have "(map f [0..<n] @ drop n (array t))[n := f n] = map f [0..<Suc n] @ drop (Suc n) (array t)"
    using Suc.prems by (simp add: list_update_append Cons_nth_drop_Suc [symmetric])
  then show ?case using Suc by simp
qed simp

lemma push_range_spec:
  assumes wf: "wf_table t" and r: "in_int32 i" "in_int32 e"
  shows "i \<le> e \<Longrightarrow> push_range t i e = Inr (map (iat t) [i..e])"
  using r(1)
proof (induction "nat (e - i)" arbitrary: i rule: less_induct)
  case less
  have g: "lua_rawgeti t i = Inr (iat t i)" using rawgeti_iat [OF wf less(3)] .
  show ?case
  proof (cases "i < e")
    case True
    then have "push_range t (i + 1) e = Inr (map (iat t) [i + 1..e])" using less(3) r(2) by (intro less(1)) (auto simp: in_int32_def)
    then show ?thesis using True g by (simp add: push_range.simps [of t i] upto_rec1 [of i])
  next
    case False
    then show ?thesis using less(2) g unfolding push_range.simps [of t i] by simp
  qed
qed

lemma tunpack_spec:
  assumes h: "heap_wf h" "a < length h" and n: "length vs + 3 \<le> LUAI_MAXCSTACK" "vs \<noteq> []"
    and at: "\<And>i. i < length vs \<Longrightarrow> iat (h ! a) (int i + 1) = vs ! i"
  shows "tunpack cv h [TGc LUA_TTABLE a, lua_pushinteger 1, lua_pushinteger (int (length vs))] = Inr (vs, h)"
proof -
  let ?n = "int (length vs)"
  have wf: "wf_table (h ! a)" using h by (simp add: heap_wf_def)
  have r: "in_int32 1" "in_int32 ?n" "1 \<le> ?n" using n by (auto simp: in_int32_def Suc_le_eq)
  have w: "(word_of_int ?n - word_of_int 1 :: u32) = word_of_int (?n - 1)" "(word_of_int (?n - 1) + 1 :: u32) = word_of_int ?n"
    by simp_all
  have u: "uint (word_of_int (?n - 1) :: u32) = ?n - 1" "uint (word_of_int ?n :: u32) = ?n" "uint (word_of_int INT_MAX :: u32) = INT_MAX"
    using r n by (simp_all only: u32_of_int) simp_all
  have small: "\<not> ((word_of_int (?n - 1) :: u32) \<ge> word_of_int INT_MAX)" unfolding word_le_def u using n by simp
  have nn: "unat (word_of_int ?n :: u32) = length vs" using u(2) by (simp add: unat_eq_nat_uint)
  have p: "push_range (h ! a) 1 ?n = Inr vs"
  proof -
    have "map (iat (h ! a)) [1..?n] = vs" using at by (intro nth_equalityI) (auto simp: nth_upto add.commute)
    then show ?thesis using push_range_spec [OF wf r] by simp
  qed
  have q: "map (\<lambda>j. array (h ! a) ! j) [0..<length vs] = vs" if "?n \<le> int (sizearray (h ! a))"
    using at iat_array [OF wf] that by (intro nth_equalityI) (auto simp: nat_add_distrib)
  have o: "\<not> lua_isnoneornil [TGc LUA_TTABLE a, lua_pushinteger 1, lua_pushinteger ?n] 3"
    "\<not> lua_isnoneornil [TGc LUA_TTABLE a, lua_pushinteger 1, lua_pushinteger ?n] 2" by simp_all
  have c: "lua_checkstack (Suc (Suc (Suc 0))) ?n" using n by (simp add: lua_checkstack_def)
  have un: "uint (word_of_nat (length vs) :: u32) = ?n" "unat (word_of_nat (length vs) :: u32) = length vs"
    using u(2) nn by simp_all
  have "tunpack cv h [TGc LUA_TTABLE a, lua_pushinteger 1, lua_pushinteger ?n] =
      (if ?n \<le> int (sizearray (h ! a)) then Inr (map (\<lambda>j. array (h ! a) ! j) [0..<length vs], h)
       else bindE (push_range (h ! a) 1 ?n) (\<lambda>vs. Inr (vs, h)))"
    using r small c by (simp add: tunpack_def o Let_def w u nn un)
  then show ?thesis using p q by simp
qed

text \<open>\<open>table.unpack\<close> inverts \<open>table.pack\<close>: for every argument list, nils included, \<open>pack\<close> gives a well-formed
  table with the values at 1, 2, ... and their number under \<open>n\<close>, without touching another table, and unpacking
  as many values gives the list back.\<close>

theorem pack_unpack:
  assumes "heap_wf h" and "vs \<noteq> []" and "length vs + 3 \<le> LUAI_MAXCSTACK"
  shows "\<exists>h'. tpack cv h vs = Inr ([TGc LUA_TTABLE (length h)], h') \<and> heap_wf h' \<and> take (length h) h' = h \<and>
    table_at (h' ! length h) (TString (map of_char ''n'')) = TNumber (d_of_int (int (length vs))) \<and>
    tunpack cv h' [TGc LUA_TTABLE (length h), lua_pushinteger 1, lua_pushinteger (int (length vs))] = Inr (vs, h')"
proof -
  let ?n = "length vs" and ?key = "map of_char ''n'' :: byte list"
  have n: "?n \<le> MAXSIZE" "(1 :: nat) \<le> MAXSIZE" using assms(3) by simp_all
  obtain t where t: "luaH_new ?n 1 = Inr t" "wf_table t" using luaH_new_ok [OF n] by blast
  have log: "luaO_log2 0 = -1" by code_simp
  have arr: "array t = replicate ?n TNil" and nodes: "length (node t) = 1"
    using t(1) n assms(2) log by (auto simp: luaH_new_def Let_def setarrayvector_def setnodevector_def ceillog2_def bindE_eq_Inr_iff split: if_splits)
  define t1 where "t1 = foldl (\<lambda>t i. slot_put t (SArray i) (vs ! i)) t [0..<?n]"
  have t1: "t1 = t\<lparr>array := vs\<rparr>" unfolding t1_def using fill_array [of ?n t "(!) vs"] arr by (simp add: map_nth)
  have wf1: "wf_table t1" unfolding t1 by (rule wf_same_array [OF t(2)]) (simp add: arr)
  have "length (live t1) \<le> sizearray t1 + length (node t1)" by (rule length_live)
  then have "roomy t1" using assms(3) nodes by (simp add: roomy_def t1)
  then obtain t2 s where s: "luaH_setstr t1 ?key = Inr (t2, s)" "stores t1 (TString ?key) t2 s"
    using luaH_setstr_assigns [OF wf1, of ?key] by (cases "luaH_setstr t1 ?key") (auto simp: assigns_def)
  define t3 where "t3 = slot_put t2 s (TNumber (d_of_int (int ?n)))"
  have t3: "store_at t1 (TString ?key) (TNumber (d_of_int (int ?n))) t3" unfolding t3_def by (rule stores_put [OF s(2)])
  then have wf3: "wf_table t3" by (simp add: store_at_def)
  have at: "iat t3 (int i + 1) = vs ! i" if "i < ?n" for i
  proof -
    have "iat t3 (int i + 1) = iat t1 (int i + 1)" using t3 by (simp add: store_at_def iat_def luaO_rawequalKey_def)
    then show ?thesis using iat_array [OF wf1, of "int i + 1"] that by (simp add: t1)
  qed
  have p: "tpack cv h vs = Inr ([TGc LUA_TTABLE (length h)], h @ [t3])"
    unfolding tpack_def t(1) bindE_simps Let_def t1_def [symmetric] s(1) prod.case t3_def [symmetric] ..
  have wf: "heap_wf (h @ [t3])" using assms(1) wf3 by (auto simp: heap_wf_def nth_append less_Suc_eq)
  have "tunpack cv (h @ [t3]) [TGc LUA_TTABLE (length h), lua_pushinteger 1, lua_pushinteger (int ?n)] = Inr (vs, h @ [t3])"
    by (rule tunpack_spec [OF wf _ assms(3,2)]) (use at in simp_all)
  moreover have "table_at t3 (TString ?key) = TNumber (d_of_int (int ?n))" using t3 by (simp add: store_at_def luaO_rawequalKey_def)
  ultimately show ?thesis using p wf by simp
qed

theorem pack_unpack_witness:
  "\<exists>h'. tpack no_conv [] [TNil, TBoolean True, TNil] = Inr ([TGc LUA_TTABLE 0], h') \<and>
    tunpack no_conv h' [TGc LUA_TTABLE 0, lua_pushinteger 1, lua_pushinteger 3] = Inr ([TNil, TBoolean True, TNil], h')"
  using pack_unpack [of "[]" "[TNil, TBoolean True, TNil]" no_conv] by (auto simp: heap_wf_def)

text \<open>The equality of \<open>equalobj\<close> without metamethods.\<close>

fun plain_equal :: "TValue \<Rightarrow> TValue \<Rightarrow> bool" where
  "plain_equal (TNumber x) (TNumber y) \<longleftrightarrow> luai_numeq x y"
| "plain_equal (TVector x y z) (TVector x' y' z') \<longleftrightarrow> f32_eq x x' \<and> f32_eq y y' \<and> f32_eq z z'"
| "plain_equal a b \<longleftrightarrow> a = b"

lemma equalobj_plain: "(\<And>k x. a \<noteq> TGc k x) \<Longrightarrow> equalobj eqTM h a b = Inr (plain_equal a b, h)"
  by (cases a; cases b) (auto simp: equalobj_def)

lemma find_loop_seq:
  assumes s: "seq_of (h ! a) xs" and l: "length xs \<le> MAXSIZE" and v: "\<And>k x. v \<noteq> TGc k x"
  shows "1 \<le> i \<Longrightarrow> i \<le> int (length xs) + 1 \<Longrightarrow>
    \<exists>r. find_loop eqTM a v i h = Inr (r, h) \<and>
      (r = TNil \<and> (\<forall>j. nat (i - 1) \<le> j \<longrightarrow> j < length xs \<longrightarrow> \<not> plain_equal v (xs ! j)) \<or>
       (\<exists>j < length xs. r = lua_pushinteger (int j + 1) \<and> nat (i - 1) \<le> j \<and> plain_equal v (xs ! j) \<and>
          (\<forall>k. nat (i - 1) \<le> k \<longrightarrow> k < j \<longrightarrow> \<not> plain_equal v (xs ! k))))"
proof (induction "nat (int (length xs) + 1 - i)" arbitrary: i rule: less_induct)
  case less
  have wf: "wf_table (h ! a)" using s by (simp add: seq_of_def)
  have r: "in_int32 i" "in_int32 (i + 1)" using less(2,3) l by (auto simp: in_int32_def)
  have g: "slot_read (h ! a) (luaH_getnum (h ! a) i) = Inr (if i \<le> int (length xs) then xs ! nat (i - 1) else TNil)"
    using rawgeti_iat [OF wf r(1)] seq_at [OF s less(2)] less(3) l by (simp add: lua_rawgeti_def)
  show ?case
  proof (cases "i \<le> int (length xs)")
    case False
    then show ?thesis using g less(3) by (auto simp: find_loop.simps [of eqTM a v i])
  next
    case True
    let ?k = "nat (i - 1)"
    have k: "?k < length xs" "nat (i + 1 - 1) = Suc ?k" "int ?k + 1 = i" using True less(2) by simp_all
    have nz: "xs ! ?k \<noteq> TNil" using s nth_mem [OF k(1)] unfolding seq_of_def by metis
    have step: "find_loop eqTM a v i h = (if plain_equal v (xs ! ?k) then Inr (lua_pushinteger i, h) else find_loop eqTM a v (i + 1) h)"
      unfolding find_loop.simps [of eqTM a v i] g using True nz r(2) by (simp add: equalobj_plain [OF v] c_int_ok)
    show ?thesis
    proof (cases "plain_equal v (xs ! ?k)")
      case eq: True
      have "find_loop eqTM a v i h = Inr (lua_pushinteger (int ?k + 1), h)" using step eq k(3) by simp
      then show ?thesis using eq k(1) by (metis linorder_not_less order_refl)
    next
      case False
      have next1: "nat (int (length xs) + 1 - (i + 1)) < nat (int (length xs) + 1 - i)" "1 \<le> i + 1" "i + 1 \<le> int (length xs) + 1"
        using less(2) True by auto
      have skip: "?k \<le> j \<longleftrightarrow> j = ?k \<or> Suc ?k \<le> j" for j by auto
      have eqs: "find_loop eqTM a v i h = find_loop eqTM a v (i + 1) h" using step False by simp
      show ?thesis using less(1) [OF next1] False unfolding eqs k(2) skip by auto
    qed
  qed
qed

text \<open>\<open>table.find\<close> on a table that holds a sequence returns the first index whose element is equal to the value, or
  nil when there is none, and changes nothing (for values compared without metamethods).\<close>

theorem find_first:
  assumes "heap_wf h" and "a < length h" and "seq_of (h ! a) xs" and "\<And>k x. v \<noteq> TGc k x"
  shows "\<exists>r. tfind eqTM cv h [TGc LUA_TTABLE a, v] = Inr ([r], h) \<and>
    (case find (\<lambda>j. plain_equal v (xs ! j)) [0..<length xs] of
       None \<Rightarrow> r = TNil | Some j \<Rightarrow> r = lua_pushinteger (int j + 1))"
proof -
  have l: "length xs \<le> MAXSIZE" by (rule objlen_seq [OF assms(1-3)])
  obtain r where r: "find_loop eqTM a v 1 h = Inr (r, h)" "r = TNil \<and> (\<forall>j. j < length xs \<longrightarrow> \<not> plain_equal v (xs ! j)) \<or>
       (\<exists>j < length xs. r = lua_pushinteger (int j + 1) \<and> plain_equal v (xs ! j) \<and> (\<forall>k. k < j \<longrightarrow> \<not> plain_equal v (xs ! k)))"
    using find_loop_seq [OF assms(3) l assms(4), of 1 eqTM] by auto
  have "tfind eqTM cv h [TGc LUA_TTABLE a, v] = Inr ([r], h)"
    using r(1) by (simp add: tfind_def luaL_checkany_def)
  moreover have "case find (\<lambda>j. plain_equal v (xs ! j)) [0..<length xs] of
       None \<Rightarrow> r = TNil | Some j \<Rightarrow> r = lua_pushinteger (int j + 1)"
    using r(2)
  proof
    assume "r = TNil \<and> (\<forall>j. j < length xs \<longrightarrow> \<not> plain_equal v (xs ! j))"
    then show ?thesis by (auto simp: find_None_iff split: option.split dest!: find_SomeD)
  next
    assume "\<exists>j < length xs. r = lua_pushinteger (int j + 1) \<and> plain_equal v (xs ! j) \<and> (\<forall>k. k < j \<longrightarrow> \<not> plain_equal v (xs ! k))"
    then obtain j where j: "j < length xs" "r = lua_pushinteger (int j + 1)" "plain_equal v (xs ! j)" "\<forall>k. k < j \<longrightarrow> \<not> plain_equal v (xs ! k)" by blast
    then have "find (\<lambda>j. plain_equal v (xs ! j)) [0..<length xs] = Some j"
      unfolding find_Some_iff by (intro exI [of _ j]) auto
    then show ?thesis using j by simp
  qed
  ultimately show ?thesis by blast
qed

theorem find_first_witness:
  "\<exists>r. tfind (\<lambda>h a b. Inl luaG_ordererror) no_conv one_heap [TGc LUA_TTABLE 0, TBoolean True] = Inr ([r], one_heap)"
  using find_first [OF one_heap_wf, of 0 "map (\<lambda>i. TNumber (d_of_int i)) [3, 1, 2]" "TBoolean True"] three_numbers_seq
  by (auto simp: one_heap_def)

end
