(* ===== verification/TableKeep.thy ===== *)
theory TableKeep imports TableSeq SortKeep begin

text \<open>
  What every function of the \<open>table\<close> library keeps: well-formed tables and the contents of frozen ones; and the
  traversal by \<open>foreach\<close>.
\<close>

section \<open>Invariants of the library\<close>

text \<open>
  What every function of the library keeps: tables stay well-formed, none disappears, and the contents of a
  readonly table do not change.
\<close>

definition ro_same :: "LuaTable \<Rightarrow> LuaTable \<Rightarrow> bool" where
  "ro_same t t' \<longleftrightarrow> (readonly t \<longrightarrow> readonly t' \<and> (\<forall>k. k \<noteq> TNil \<longrightarrow> table_at t' k = table_at t k))"

definition keeps :: "tabheap \<Rightarrow> tabheap \<Rightarrow> bool" where
  "keeps h h' \<longleftrightarrow> heap_wf h' \<and> length h \<le> length h' \<and> (\<forall>a < length h. ro_same (h ! a) (h' ! a))"

lemma ro_same_refl [simp]: "ro_same t t"
  by (simp add: ro_same_def)

lemma ro_same_trans: "ro_same t1 t2 \<Longrightarrow> ro_same t2 t3 \<Longrightarrow> ro_same t1 t3"
  by (auto simp: ro_same_def)

lemma keeps_refl: "heap_wf h \<Longrightarrow> keeps h h"
  by (simp add: keeps_def ro_same_def)

lemma keeps_trans: "keeps h1 h2 \<Longrightarrow> keeps h2 h3 \<Longrightarrow> keeps h1 h3"
  unfolding keeps_def by (auto intro: ro_same_trans order_less_le_trans)

lemma keeps_edited:
  assumes "heap_wf h" and e: "edited h h' a E" and "\<not> readonly (h ! a) \<or> E = Map.empty"
  shows "keeps h h'"
proof -
  have "ro_same (h ! b) (h' ! b)" for b
  proof (cases "b = a")
    case True
    then show ?thesis using assms(3) edited_flags(1) [OF e] edited_empty_at [of h h' a _ a] e by (auto simp: ro_same_def)
  next
    case False
    then show ?thesis using e by (simp add: edited_def ro_same_def)
  qed
  then show ?thesis using edited_wf [OF assms(1) e] edited_flags(2) [OF e] by (simp add: keeps_def)
qed

lemma keeps_append: "heap_wf h \<Longrightarrow> wf_table t \<Longrightarrow> keeps h (h @ [t])"
  by (auto simp: keeps_def ro_same_def heap_wf_def nth_append less_Suc_eq)

lemma keeps_objlen: "heap_wf h \<Longrightarrow> a < length h \<Longrightarrow> lua_objlen h a = (n, h') \<Longrightarrow> keeps h h' \<and> a < length h' \<and> 0 \<le> n \<and> n \<le> int MAXSIZE"
  using objlen_spec [of h a n h'] keeps_edited [of h h' a Map.empty] edited_flags [of h h' a Map.empty] by auto

lemma keeps_seti: "heap_wf h \<Longrightarrow> a < length h \<Longrightarrow> in_int32 i \<Longrightarrow> heap_seti a i v h = Inr h' \<Longrightarrow> keeps h h'"
  using heap_seti_edited [of h a i v] keeps_edited by auto

lemma keepsD: "keeps h h' \<Longrightarrow> heap_wf h'" "keeps h h' \<Longrightarrow> a < length h \<Longrightarrow> a < length h'"
  by (auto simp: keeps_def)

text \<open>The arguments that are tables exist.\<close>

definition live_args :: "tabheap \<Rightarrow> TValue list \<Rightarrow> bool" where
  "live_args h args \<longleftrightarrow> (\<forall>a. TGc LUA_TTABLE a \<in> set args \<longrightarrow> a < length h)"

lemma live_table: "live_args h args \<Longrightarrow> luaL_checktable args n = Inr a \<Longrightarrow> a < length h"
  unfolding checktable_Inr live_args_def arg_def by (metis nth_mem option.distinct(1) option.inject One_nat_def Suc_pred diff_less_Suc le_simps(3) less_le_trans lessI less_Suc_eq_le Suc_le_eq)

definition op_keeps :: "tabop \<Rightarrow> bool" where
  "op_keeps f \<longleftrightarrow> (\<forall>cv h args vs h'. heap_wf h \<longrightarrow> live_args h args \<longrightarrow> f cv h args = Inr (vs, h') \<longrightarrow> keeps h h')"

lemma op_keepsI: "(\<And>cv h args vs h'. heap_wf h \<Longrightarrow> live_args h args \<Longrightarrow> f cv h args = Inr (vs, h') \<Longrightarrow> keeps h h') \<Longrightarrow> op_keeps f"
  unfolding op_keeps_def by blast

lemma tinsert_keeps: "op_keeps tinsert"
proof (rule op_keepsI)
  fix cv h args vs h' assume h: "heap_wf h" "live_args h args" and r: "tinsert cv h args = Inr (vs, h')"
  obtain a where a: "luaL_checktable args 1 = Inr a" using r by (auto simp: tinsert_def bindE_eq_Inr_iff)
  have al: "a < length h" using live_table [OF h(2) a] .
  obtain n h1 where l: "lua_objlen h a = (n, h1)" by (cases "lua_objlen h a")
  note k1 = keeps_objlen [OF h(1) al l]
  then have wf1: "heap_wf h1" and a1: "a < length h1" and n: "0 \<le> n" "n \<le> int MAXSIZE" by (auto dest: keepsD)
  have last: "keeps h1 h'" if s: "heap_seti a pos v h2 = Inr h'" and k: "keeps h1 h2" and p: "in_int32 pos" for pos v h2
    using keeps_trans [OF k keeps_seti [OF keepsD(1) [OF k] keepsD(2) [OF k a1] p s]] .
  consider (two) x v where "args = [x, v]" | (three) x y v where "args = [x, y, v]"
    using r a l by (auto simp: tinsert_def bindE_eq_Inr_iff split: list.splits)
  then have "keeps h1 h'"
  proof cases
    case two
    then have "heap_seti a (n + 1) v h1 = Inr h'" using r a l by (auto simp: tinsert_def bindE_eq_Inr_iff)
    then show ?thesis using n by (intro last [OF _ keeps_refl [OF wf1]]) (auto simp: in_int32_def)
  next
    case three
    then obtain pos where p: "luaL_checkinteger cv args 2 = Inr pos" using r a l by (auto simp: tinsert_def bindE_eq_Inr_iff)
    note pr = checkinteger_range [OF p]
    show ?thesis
    proof (cases "1 \<le> pos \<and> pos \<le> n")
      case True
      then obtain h2 where m: "moveelements 1 1 a a pos n (pos + 1) h1 = Inr h2" "heap_seti a pos v h2 = Inr h'"
        using r a l p three by (auto simp: tinsert_def bindE_eq_Inr_iff)
      have "case moveelements 1 1 a a pos n (pos + 1) h1 of
          Inr h' \<Rightarrow> \<not> readonly (h1 ! a) \<and> edited h1 h' a (block (h1 ! a) pos (pos + 1) (n - pos + 1))
        | Inl err \<Rightarrow> err = (if readonly (h1 ! a) then luaG_readonlyerror else RunError ''table overflow'')"
        using wf1 a1 True n pr by (intro moveelements_spec) (auto simp: in_int32_def)
      then have "keeps h1 h2" using m(1) keeps_edited [OF wf1] by auto
      then show ?thesis using last [OF m(2)] pr by blast
    next
      case False
      then have "heap_seti a pos v h1 = Inr h'" using r a l p three by (auto simp: tinsert_def bindE_eq_Inr_iff)
      then show ?thesis using last keeps_refl [OF wf1] pr by blast
    qed
  qed
  then show "keeps h h'" using keeps_trans k1 by blast
qed

lemma tremove_keeps: "op_keeps tremove"
proof (rule op_keepsI)
  fix cv h args vs h' assume h: "heap_wf h" "live_args h args" and r: "tremove cv h args = Inr (vs, h')"
  obtain a where a: "luaL_checktable args 1 = Inr a" using r by (auto simp: tremove_def bindE_eq_Inr_iff)
  have al: "a < length h" using live_table [OF h(2) a] .
  obtain n h1 where l: "lua_objlen h a = (n, h1)" by (cases "lua_objlen h a")
  note k1 = keeps_objlen [OF h(1) al l]
  then have wf1: "heap_wf h1" and a1: "a < length h1" and n: "0 \<le> n" "n \<le> int MAXSIZE" by (auto dest: keepsD)
  have n32: "in_int32 n" using n by (simp add: in_int32_def)
  obtain pos where p: "luaL_optinteger cv args 2 n = Inr pos" using r a l by (auto simp: tremove_def bindE_eq_Inr_iff)
  have "keeps h1 h'"
  proof (cases "1 \<le> pos \<and> pos \<le> n")
    case False
    then have "h' = h1" using r a l p by (auto simp: tremove_def bindE_eq_Inr_iff)
    then show ?thesis using keeps_refl [OF wf1] by simp
  next
    case True
    then obtain h2 where m: "moveelements 1 1 a a (pos + 1) n pos h1 = Inr h2" "heap_seti a n TNil h2 = Inr h'"
      using r a l p by (auto simp: tremove_def bindE_eq_Inr_iff)
    have "case moveelements 1 1 a a (pos + 1) n pos h1 of
        Inr h' \<Rightarrow> \<not> readonly (h1 ! a) \<and> edited h1 h' a (block (h1 ! a) (pos + 1) pos (n - pos))
      | Inl err \<Rightarrow> err = (if readonly (h1 ! a) then luaG_readonlyerror else RunError ''table overflow'')"
      using wf1 a1 True n by (intro moveelements_spec) (auto simp: in_int32_def)
    then have k2: "keeps h1 h2" using m(1) keeps_edited [OF wf1] by auto
    show ?thesis using keeps_trans [OF k2 keeps_seti [OF keepsD(1) [OF k2] keepsD(2) [OF k2 a1] n32 m(2)]] .
  qed
  then show "keeps h h'" using keeps_trans k1 by blast
qed

lemma tmove_keeps: "op_keeps tmove"
proof (rule op_keepsI)
  fix cv h args vs h' assume h: "heap_wf h" "live_args h args" and r: "tmove cv h args = Inr (vs, h')"
  define tt where "tt = (if \<not> lua_isnoneornil args 5 then 5 else 1 :: nat)"
  obtain src dst f e t where a: "luaL_checktable args 1 = Inr src" "luaL_checktable args tt = Inr dst"
      "luaL_checkinteger cv args 2 = Inr f" "luaL_checkinteger cv args 3 = Inr e" "luaL_checkinteger cv args 4 = Inr t"
    and s: "(if e \<ge> f then tmove_step tt src dst f e t h else Inr h) = Inr h'"
    using r by (auto simp: tmove_def bindE_eq_Inr_iff Let_def tt_def [symmetric])
  have l: "src < length h" "dst < length h" using live_table [OF h(2)] a by blast+
  have same: "src = dst" if "tt = 1" using a that by simp
  show "keeps h h'"
  proof (cases "f \<le> e")
    case False
    then show ?thesis using s keeps_refl [OF h(1)] by simp
  next
    case True
    then show ?thesis using tmove_step_spec [OF h(1) l checkinteger_range [OF a(3)] checkinteger_range [OF a(4)] checkinteger_range [OF a(5)] True, of tt] same s
        keeps_edited [OF h(1)] by auto
  qed
qed

lemma opt_len_keeps:
  assumes "(if b then Inr (lua_objlen h a) else bindE X (\<lambda>e. Inr (e, h))) = Inr (e, h')" and "heap_wf h" and "a < length h"
  shows "keeps h h'"
  using assms(1) keeps_objlen [OF assms(2,3), of e h'] keeps_refl [OF assms(2)]
  by (cases b) (auto simp: bindE_eq_Inr_iff)

lemma tconcat_keeps: "op_keeps tconcat"
proof (rule op_keepsI)
  fix cv h args vs h' assume h: "heap_wf h" "live_args h args" and r: "tconcat cv h args = Inr (vs, h')"
  then obtain a e where "luaL_checktable args 1 = Inr a"
    and "(if lua_isnoneornil args 4 then Inr (lua_objlen h a) else bindE (luaL_checkinteger cv args 4) (\<lambda>e. Inr (e, h))) = Inr (e, h')"
    by (auto simp: tconcat_def bindE_eq_Inr_iff split: prod.splits)
  then show "keeps h h'" using opt_len_keeps [OF _ h(1)] live_table [OF h(2)] by blast
qed

lemma tunpack_keeps: "op_keeps tunpack"
proof (rule op_keepsI)
  fix cv h args vs h' assume h: "heap_wf h" "live_args h args" and r: "tunpack cv h args = Inr (vs, h')"
  obtain a i where a: "luaL_checktable args 1 = Inr a" and i: "luaL_optinteger cv args 2 1 = Inr i"
    using r unfolding tunpack_def bindE_eq_Inr_iff by blast
  obtain e h1 where e: "(if lua_isnoneornil args 3 then Inr (lua_objlen h a) else bindE (luaL_checkinteger cv args 3) (\<lambda>e. Inr (e, h))) = Inr (e, h1)"
    using r unfolding tunpack_def a i bindE_simps bindE_eq_Inr_iff [where m = "if _ then _ else _"] by auto
  have "h1 = h'" using r unfolding tunpack_def a i bindE_simps e prod.case Let_def
    by (auto simp: bindE_eq_Inr_iff split: if_splits)
  then show "keeps h h'" using opt_len_keeps [OF e h(1)] live_table [OF h(2) a] by blast
qed

lemma getn_keeps: "op_keeps getn"
proof (rule op_keepsI)
  fix cv h args vs h' assume h: "heap_wf h" "live_args h args" and r: "getn cv h args = Inr (vs, h')"
  obtain a where a: "luaL_checktable args 1 = Inr a" using r by (auto simp: getn_def bindE_eq_Inr_iff)
  obtain n h1 where n: "lua_objlen h a = (n, h1)" by (cases "lua_objlen h a")
  then have "h1 = h'" using r a by (simp add: getn_def)
  then show "keeps h h'" using keeps_objlen [OF h(1) live_table [OF h(2) a] n] by blast
qed

lemma maxn_keeps: "op_keeps maxn" and tisfrozen_keeps: "op_keeps tisfrozen"
  by (rule op_keepsI, auto simp: maxn_def tisfrozen_def bindE_eq_Inr_iff keeps_refl)+

lemma fill_wf:
  assumes "wf_table t" and "n \<le> length (array t)"
  shows "wf_table (foldl (\<lambda>t i. slot_put t (SArray i) (f i)) t [0..<n])"
  unfolding fill_array [OF assms(2)] by (rule wf_same_array [OF assms(1)]) (use assms(2) in simp)

lemma luaH_new_props:
  assumes "luaH_new n m = Inr t"
  shows "sizearray t = n" and "m \<le> 1 \<Longrightarrow> wf_table t"
proof -
  have n: "n \<le> MAXSIZE"
    using assms by (cases n) (auto simp: luaH_new_def Let_def setarrayvector_def bindE_eq_Inr_iff split: if_splits)
  then show "sizearray t = n"
    using assms by (auto simp: luaH_new_def Let_def setarrayvector_def setnodevector_def bindE_eq_Inr_iff split: if_splits)
  show "wf_table t" if "m \<le> 1" using luaH_new_ok [OF n, of m] that assms by auto
qed

lemma create_ops_keep: "op_keeps tpack" "op_keeps tcreate" "op_keeps tclone"
proof -
  show "op_keeps tpack"
  proof (rule op_keepsI)
    fix cv h args vs h' assume h: "heap_wf h" and r: "tpack cv h args = Inr (vs, h')"
    obtain t where t: "luaH_new (length args) 1 = Inr t" using r by (auto simp: tpack_def bindE_eq_Inr_iff)
    define t1 where "t1 = foldl (\<lambda>t i. slot_put t (SArray i) (args ! i)) t [0..<length args]"
    have wf: "wf_table t1" unfolding t1_def by (rule fill_wf) (use luaH_new_props [OF t] in simp_all)
    obtain t2 s where s: "luaH_setstr t1 (map of_char ''n'') = Inr (t2, s)" and h': "h' = h @ [slot_put t2 s (TNumber (d_of_int (int (length args))))]"
      using r unfolding tpack_def t bindE_simps Let_def t1_def [symmetric] by (auto simp: bindE_eq_Inr_iff)
    have "wf_table (slot_put t2 s v)" for v
      using luaH_setstr_assigns [OF wf, of "map of_char ''n''"] s stores_put by (auto simp: assigns_def store_at_def)
    then show "keeps h h'" unfolding h' by (rule keeps_append [OF h])
  qed
  show "op_keeps tcreate"
  proof (rule op_keepsI)
    fix cv h args vs h' assume h: "heap_wf h" and r: "tcreate cv h args = Inr (vs, h')"
    obtain sz t where t: "luaH_new (nat sz) 0 = Inr t" and h': "h' = h @ [case arg args 2 of
        Some v \<Rightarrow> if v \<noteq> TNil then foldl (\<lambda>t i. slot_put t (SArray i) v) t [0..<nat sz] else t | None \<Rightarrow> t]"
      using r by (auto simp: tcreate_def bindE_eq_Inr_iff Let_def)
    have wf: "wf_table t" "sizearray t = nat sz" using luaH_new_props [OF t] by simp_all
    have "wf_table (foldl (\<lambda>t i. slot_put t (SArray i) v) t [0..<nat sz])" for v by (rule fill_wf) (use wf in simp_all)
    then show "keeps h h'" unfolding h' using wf(1) by (intro keeps_append [OF h]) (auto split: option.split)
  qed
  show "op_keeps tclone"
  proof (rule op_keepsI)
    fix cv h args vs h' assume h: "heap_wf h" "live_args h args" and r: "tclone cv h args = Inr (vs, h')"
    obtain a where a: "luaL_checktable args 1 = Inr a" and h': "h' = h @ [luaH_clone (h ! a)]"
      using r by (auto simp: tclone_def bindE_eq_Inr_iff)
    have "wf_table (h ! a)" using h(1) live_table [OF h(2) a] by (simp add: heap_wf_def)
    then show "keeps h h'" unfolding h' using luaH_clone_ok [of "h ! a"] by (intro keeps_append [OF h(1)]) (auto simp: same_map_def)
  qed
qed

lemma update_keeps:
  assumes "heap_wf h" and "a < length h" and "wf_table t" and "ro_same (h ! a) t"
  shows "keeps h (h[a := t])"
  using assms by (auto simp: keeps_def heap_wf_def nth_list_update ro_same_def)

lemma tclear_keeps: "op_keeps tclear"
proof (rule op_keepsI)
  fix cv h args vs h' assume h: "heap_wf h" "live_args h args" and r: "tclear cv h args = Inr (vs, h')"
  obtain a where a: "luaL_checktable args 1 = Inr a" and h': "\<not> readonly (h ! a)" "h' = h[a := luaH_clear (h ! a)]"
    using r by (auto simp: tclear_def bindE_eq_Inr_iff split: if_splits)
  have l: "a < length h" using live_table [OF h(2) a] .
  have "wf_table (luaH_clear (h ! a))" using luaH_clear_ok [of "h ! a"] h(1) l by (auto simp: heap_wf_def)
  then show "keeps h h'" unfolding h'(2) using h'(1) by (intro update_keeps [OF h(1) l]) (simp_all add: ro_same_def)
qed

lemma frozen_wf:
  assumes wf: "wf_table t"
  shows "wf_table (t\<lparr>readonly := True\<rparr>)"
proof -
  have "free_ok (t\<lparr>readonly := True\<rparr>)" using wf by (auto simp: wf_table_def free_ok_def)
  then show ?thesis by (intro wf_table_cong [OF wf]) simp_all
qed

lemma frozen_at: "table_at (t\<lparr>readonly := True\<rparr>) k = table_at t k"
  using in_part_cong [of "t\<lparr>readonly := True\<rparr>" t k] by (simp add: table_at_def)

lemma tfreeze_keeps: "op_keeps tfreeze"
proof (rule op_keepsI)
  fix cv h args vs h' assume h: "heap_wf h" "live_args h args" and r: "tfreeze cv h args = Inr (vs, h')"
  obtain a where a: "luaL_checktable args 1 = Inr a" and h': "h' = h[a := (h ! a)\<lparr>readonly := True\<rparr>]"
    using r by (auto simp: tfreeze_def bindE_eq_Inr_iff)
  have l: "a < length h" using live_table [OF h(2) a] .
  have wf: "wf_table (h ! a)" using h(1) l by (simp add: heap_wf_def)
  show "keeps h h'" unfolding h' by (intro update_keeps [OF h(1) l]) (simp_all add: ro_same_def frozen_wf [OF wf] frozen_at)
qed

text \<open>A comparison that keeps the promises as well.\<close>

definition eq_keeps :: "equality \<Rightarrow> bool" where
  "eq_keeps eqTM \<longleftrightarrow> (\<forall>h a b r h'. heap_wf h \<longrightarrow> eqTM h a b = Inr (r, h') \<longrightarrow> keeps h h')"

lemma equalobj_keeps: "eq_keeps eqTM \<Longrightarrow> heap_wf h \<Longrightarrow> equalobj eqTM h a b = Inr (r, h') \<Longrightarrow> keeps h h'"
  by (auto simp: equalobj_def eq_keeps_def keeps_refl split: TValue.splits if_splits)

lemma find_loop_keeps:
  "find_loop eqTM a v i h = Inr (r, h') \<Longrightarrow> heap_wf h \<Longrightarrow> eq_keeps eqTM \<Longrightarrow> keeps h h'"
proof (induction eqTM a v i h rule: find_loop.induct)
  case (1 eqTM a v i h)
  obtain e where e: "slot_read (h ! a) (luaH_getnum (h ! a) i) = Inr e"
    using 1(2) unfolding find_loop.simps [of eqTM a v i h] by (auto simp: bindE_eq_Inr_iff)
  show ?case
  proof (cases "e = TNil")
    case True
    then show ?thesis using 1(2,3) e keeps_refl unfolding find_loop.simps [of eqTM a v i h] by simp
  next
    case nn: False
    then obtain b h1 where b: "equalobj eqTM h v e = Inr (b, h1)"
      and r: "(if b then Inr (lua_pushinteger i, h1) else bindE (c_int (i + 1)) (\<lambda>i. find_loop eqTM a v i h1)) = Inr (r, h')"
      using 1(2) e unfolding find_loop.simps [of eqTM a v i h] by (auto simp: bindE_eq_Inr_iff)
    have k: "keeps h h1" using equalobj_keeps [OF 1(4,3) b] .
    show ?thesis
    proof (cases b)
      case True
      then show ?thesis using r k by simp
    next
      case False
      then obtain j where j: "c_int (i + 1) = Inr j" "find_loop eqTM a v j h1 = Inr (r, h')" using r by (auto simp: bindE_eq_Inr_iff)
      have "keeps h1 h'" using 1(1) [OF e nn b refl False j(1,2) keepsD(1) [OF k] 1(4)] .
      then show ?thesis using keeps_trans [OF k] by blast
    qed
  qed
qed

lemma tfind_keeps: "eq_keeps eqTM \<Longrightarrow> op_keeps (tfind eqTM)"
  by (rule op_keepsI) (auto simp: tfind_def bindE_eq_Inr_iff dest: find_loop_keeps)

lemmas ops_keep = tconcat_keeps getn_keeps maxn_keeps tinsert_keeps tremove_keeps create_ops_keep tunpack_keeps
  tmove_keeps tclear_keeps tfreeze_keeps tisfrozen_keeps

section \<open>Functions with callbacks\<close>

text \<open>
  What a callback may do: run code that keeps the heap in the same sense, as all code does that reaches the
  tables through the library and the raw access of the API. \<open>'w\<close> is the rest of its state.
\<close>

definition call_keeps :: "'w lua_call \<Rightarrow> bool" where
  "call_keeps call \<longleftrightarrow> (\<forall>f args h w v h' w'. heap_wf h \<longrightarrow> call f args (h, w) = Inr (v, h', w') \<longrightarrow> keeps h h')"

definition order_keeps :: "'w lua_order \<Rightarrow> bool" where
  "order_keeps tm \<longleftrightarrow> (\<forall>l r h w b h' w'. heap_wf h \<longrightarrow> tm l r (h, w) = Inr (b, h', w') \<longrightarrow> keeps h h')"

definition libop_keeps :: "'w libop \<Rightarrow> bool" where
  "libop_keeps f \<longleftrightarrow> (\<forall>cv h w args vs h' w'. heap_wf h \<longrightarrow> live_args h args \<longrightarrow> f cv (h, w) args = Inr (vs, h', w') \<longrightarrow> keeps h h')"

lemma libop_keepsI:
  "(\<And>cv h w args vs h' w'. heap_wf h \<Longrightarrow> live_args h args \<Longrightarrow> f cv (h, w) args = Inr (vs, h', w') \<Longrightarrow> keeps h h') \<Longrightarrow> libop_keeps f"
  unfolding libop_keeps_def by blast

lemma lift_op_keeps: "op_keeps f \<Longrightarrow> libop_keeps (lift_op f)"
  by (rule libop_keepsI) (auto simp: lift_op_def op_keeps_def bindE_eq_Inr_iff)

lemma foreachi_loop_keeps:
  "call_keeps call \<Longrightarrow> heap_wf (fst st) \<Longrightarrow> foreachi_loop call f a is st = Inr (vs, st') \<Longrightarrow> keeps (fst st) (fst st')"
proof (induction "is" arbitrary: st)
  case (Cons i "is")
  then obtain v r st1 where c: "call f [lua_pushinteger i, v] st = Inr (r, st1)"
    and l: "(if r \<noteq> TNil then Inr ([r], st1) else foreachi_loop call f a is st1) = Inr (vs, st')"
    by (auto simp: bindE_eq_Inr_iff)
  have k: "keeps (fst st) (fst st1)" using Cons.prems(1,2) c unfolding call_keeps_def by (metis prod.collapse)
  show ?case
    using l k Cons.IH [OF Cons.prems(1) keepsD(1) [OF k]] keeps_trans by (auto split: if_splits)
qed (simp add: keeps_refl)

lemma foreach_loop_keeps:
  "call_keeps call \<Longrightarrow> heap_wf (fst st) \<Longrightarrow> foreach_loop fuel call f a key st = Inr (vs, st') \<Longrightarrow> keeps (fst st) (fst st')"
proof (induction fuel arbitrary: key st)
  case (Suc fuel)
  obtain e where e: "luaH_next (fst st ! a) key = Inr e" using Suc.prems(3) by (auto simp: bindE_eq_Inr_iff)
  show ?case
  proof (cases e)
    case None
    then show ?thesis using e Suc.prems keeps_refl by simp
  next
    case (Some kv)
    obtain k v where kv: "kv = (k, v)" by (cases kv)
    obtain r st1 where c: "call f [k, v] st = Inr (r, st1)"
      and l: "(if r \<noteq> TNil then Inr ([r], st1) else foreach_loop fuel call f a k st1) = Inr (vs, st')"
      using Suc.prems(3) e Some kv by (auto simp: bindE_eq_Inr_iff)
    have k: "keeps (fst st) (fst st1)" using Suc.prems(1,2) c unfolding call_keeps_def by (metis prod.collapse)
    show ?thesis
      using l k Suc.IH [OF Suc.prems(1) keepsD(1) [OF k]] keeps_trans by (auto split: if_splits)
  qed
qed simp

lemma foreach_ops_keep:
  assumes "call_keeps call"
  shows "libop_keeps (\<lambda>cv st args. foreachi call args st)" "libop_keeps (\<lambda>cv st args. foreach fuel call args st)"
proof -
  show "libop_keeps (\<lambda>cv st args. foreach fuel call args st)"
    by (rule libop_keepsI) (auto simp: foreach_def bindE_eq_Inr_iff dest!: foreach_loop_keeps [OF assms, rotated])
  show "libop_keeps (\<lambda>cv st args. foreachi call args st)"
  proof (rule libop_keepsI)
    fix cv h w args vs h' w' assume h: "heap_wf h" "live_args h args" and r: "foreachi call args (h, w) = Inr (vs, h', w')"
    then obtain a where a: "luaL_checktable args 1 = Inr a" by (auto simp: foreachi_def bindE_eq_Inr_iff)
    obtain n h1 where n: "lua_objlen h a = (n, h1)" by (cases "lua_objlen h a")
    obtain f where l: "foreachi_loop call f a [1..n] (h1, w) = Inr (vs, h', w')"
      using r a n by (auto simp: foreachi_def bindE_eq_Inr_iff)
    have k: "keeps h h1" using keeps_objlen [OF h(1) live_table [OF h(2) a] n] by blast
    show "keeps h h'" using foreachi_loop_keeps [OF assms _ l] keepsD(1) [OF k] keeps_trans [OF k] by simp
  qed
qed

text \<open>
  The heap during a sort: the table being sorted has the array of the sort state. That table is not readonly
  when the sort starts; the others keep their contents if they are.
\<close>

definition sort_heap_of :: "nat \<Rightarrow> (LuaTable \<times> tabheap \<times> 'w) sort_state \<Rightarrow> tabheap" where
  "sort_heap_of a s = (case s of ((t, h, w), arr) \<Rightarrow> h[a := t\<lparr>array := arr\<rparr>])"

definition kept_but :: "nat \<Rightarrow> tabheap \<Rightarrow> tabheap \<Rightarrow> bool" where
  "kept_but a h h' \<longleftrightarrow> heap_wf h' \<and> length h \<le> length h' \<and> a < length h' \<and> (\<forall>b < length h. b \<noteq> a \<longrightarrow> ro_same (h ! b) (h' ! b))"

lemma kept_but_keeps: "kept_but a h h1 \<Longrightarrow> keeps h1 h2 \<Longrightarrow> kept_but a h h2"
  unfolding kept_but_def keeps_def by (auto intro: ro_same_trans order_less_le_trans)

lemma kept_but_swap:
  assumes "kept_but a h (sort_heap_of a (w, arr))" and "length arr' = length arr"
  shows "kept_but a h (sort_heap_of a (w, arr'))"
proof -
  obtain t h1 v where w: "w = (t, h1, v)" by (cases w)
  have "a < length h1" "wf_table (h1[a := t\<lparr>array := arr\<rparr>] ! a)" using assms(1)
    unfolding kept_but_def heap_wf_def sort_heap_of_def w by auto
  then have "wf_table (t\<lparr>array := arr\<rparr>)" by simp
  then have "wf_table (t\<lparr>array := arr'\<rparr>)"
    using wf_same_array [of "t\<lparr>array := arr\<rparr>" arr'] assms(2) by simp
  then show ?thesis using assms(1)
    by (auto simp: kept_but_def heap_wf_def sort_heap_of_def w nth_list_update)
qed

text \<open>
  Both comparisons on the heap keep this, so the sort does. The hypotheses on the callbacks are part of the
  invariant, which makes the two interpretations unconditional.
\<close>

interpretation hc: sort_invariant "sort_func (heap_call a call) f"
    "\<lambda>s. call_keeps call \<longrightarrow> kept_but a h0 (sort_heap_of a s)" for a f h0 and call :: "'w lua_call"
proof (unfold_locales, goal_cases Pred Swap)
  case (Pred st arr x y b st' arr')
  obtain t h w where st: "st = (t, h, w)" by (cases st)
  then obtain v h' w' where c: "call f [x, y] (sort_heap_of a (st, arr), w) = Inr (v, h', w')"
    and st': "st' = (h' ! a, h', w')" "arr' = array (h' ! a)"
    using Pred(2) by (auto simp: sort_func_def heap_call_def sort_heap_of_def bindE_eq_Inr_iff)
  have same: "sort_heap_of a (st', arr') = h'" by (simp add: st' sort_heap_of_def)
  show ?case
  proof
    assume k: "call_keeps call"
    then have kb: "kept_but a h0 (sort_heap_of a (st, arr))" using Pred(1) by blast
    then have "keeps (sort_heap_of a (st, arr)) h'" using k c unfolding call_keeps_def kept_but_def by blast
    then show "kept_but a h0 (sort_heap_of a (st', arr'))" unfolding same by (rule kept_but_keeps [OF kb])
  qed
next
  case (Swap w arr i j)
  then show ?case using kept_but_swap [of a h0 w arr "swapped arr i j"] by (simp add: swapped_def)
qed

interpretation ho: sort_invariant "luaV_lessthan (heap_order a tm)"
    "\<lambda>s. order_keeps tm \<longrightarrow> kept_but a h0 (sort_heap_of a s)" for a h0 and tm :: "'w lua_order"
proof (unfold_locales, goal_cases Pred Swap)
  case (Pred st arr x y b st' arr')
  obtain t h w where st: "st = (t, h, w)" by (cases st)
  consider (same) "st' = st" "arr' = arr" | (tm) "heap_order a tm st arr x y = Inr (b, st', arr')"
    using Pred(2) by (auto simp: luaV_lessthan_def split: if_splits TValue.splits)
  then show ?case
  proof cases
    case tm
    then obtain h' w' where c: "tm x y (sort_heap_of a (st, arr), w) = Inr (b, h', w')"
      and st': "st' = (h' ! a, h', w')" "arr' = array (h' ! a)"
      by (auto simp: st heap_order_def sort_heap_of_def bindE_eq_Inr_iff)
    have same: "sort_heap_of a (st', arr') = h'" by (simp add: st' sort_heap_of_def)
    show ?thesis
    proof
      assume k: "order_keeps tm"
      then have kb: "kept_but a h0 (sort_heap_of a (st, arr))" using Pred(1) by blast
      then have "keeps (sort_heap_of a (st, arr)) h'" using k c unfolding order_keeps_def kept_but_def by blast
      then show "kept_but a h0 (sort_heap_of a (st', arr'))" unfolding same by (rule kept_but_keeps [OF kb])
    qed
  qed (use Pred(1) in simp)
next
  case (Swap w arr i j)
  then show ?case using kept_but_swap [of a h0 w arr "swapped arr i j"] by (simp add: swapped_def)
qed

lemma table_sort_keeps:
  assumes "order_keeps tm" and "call_keeps call"
  shows "libop_keeps (\<lambda>cv st args. table_sort tm call args st)"
proof (rule libop_keepsI)
  fix cv h w args vs h' w' assume h: "heap_wf h" "live_args h args" and r: "table_sort tm call args (h, w) = Inr (vs, h', w')"
  obtain a where a: "luaL_checktable args 1 = Inr a" using r by (auto simp: table_sort_def bindE_eq_Inr_iff)
  have al: "a < length h" using live_table [OF h(2) a] .
  obtain t n where g: "luaH_getn (h ! a) = (t, n)" by (cases "luaH_getn (h ! a)")
  then have "lua_objlen h a = (int n, h[a := t])" by (simp add: lua_objlen_def)
  note k = keeps_objlen [OF h(1) al this]
  obtain t' h2 where s: "tsort (heap_order a tm) (heap_call a call) (arg args 2) (h ! a) (h, w) = Inr (t', h2, w')"
    and h': "h' = h2[a := t']" using r a by (auto simp: table_sort_def bindE_eq_Inr_iff)
  have ro: "\<not> readonly (h ! a)" using s g getn_arr(2) [of "h ! a"] by (auto simp: tsort_def split: if_splits)
  obtain pred where p: "sort_pred (heap_order a tm) (heap_call a call) (arg args 2) = Inr pred"
    using s g by (auto simp: tsort_def bindE_eq_Inr_iff split: if_splits)
  show "keeps h h'"
  proof (cases "n > 0")
    case False
    then show ?thesis using s g p k h' by (auto simp: tsort_def split: if_splits)
  next
    case True
    then obtain t1 arr where q: "sort_rec pred 0 (int n - 1) n ((t, h, w), array t) = Inr ((t1, h2, w'), arr)" "t' = t1\<lparr>array := arr\<rparr>"
      using s g p by (auto simp: tsort_def bindE_eq_Inr_iff split: if_splits)
    have start: "kept_but a h (sort_heap_of a ((t, h, w), array t))"
      using k by (simp add: kept_but_def keeps_def sort_heap_of_def)
    consider f where "pred = sort_func (heap_call a call) f" | "pred = luaV_lessthan (heap_order a tm)"
      using p by (auto simp: sort_pred_def split: option.splits TValue.splits lua_gctype.splits)
    then have "kept_but a h (sort_heap_of a ((t1, h2, w'), arr))"
    proof cases
      case 1
      then show ?thesis using hc.sort_rec_inv [OF q(1) [unfolded 1]] assms(2) start by blast
    next
      case 2
      then show ?thesis using ho.sort_rec_inv [OF q(1) [unfolded 2]] assms(1) start by blast
    qed
    then show ?thesis using ro unfolding h' q(2)
      by (auto simp: kept_but_def keeps_def sort_heap_of_def ro_same_def nth_list_update)
  qed
qed

text \<open>C9. Every function of the library, on any arguments: when a call returns, the tables of the heap are well-formed and
  every table that was readonly (frozen) when the function was called is still readonly with the same contents.
  The callbacks (the function of \<open>foreach\<close>, \<open>foreachi\<close> and \<open>sort\<close>, the metamethods \<open>__lt\<close> and \<open>__eq\<close>) may do
  anything that keeps this too. A table that a comparison freezes while it is being sorted is not covered.\<close>

theorem frozen_unchanged:
  assumes "tab_funcs eqTM tm call fuel name = Some f" and "heap_wf h" and "live_args h args"
    and "f cv (h, w) args = Inr (vs, h', w')" and "eq_keeps eqTM" and "order_keeps tm" and "call_keeps call"
  shows "keeps h h'"
proof -
  have "libop_keeps f" using assms(1) ops_keep [THEN lift_op_keeps] tfind_keeps [OF assms(5), THEN lift_op_keeps]
      foreach_ops_keep [OF assms(7)] table_sort_keeps [OF assms(6,7)]
    by (auto simp: tab_funcs_def split: if_splits)
  then show ?thesis using assms(2-4) unfolding libop_keeps_def by blast
qed

text \<open>
  A comparison that freezes the table it is sorting, as a Lua function can: \<open>sort_swap\<close> writes the array without
  another look at \<open>readonly\<close>, so the frozen table changes. The example sorts \<open>{3, 1, 2}\<close> with a function that
  freezes the table and returns true.
\<close>

definition freezing :: "unit lua_call" where
  "freezing f args st = Inr (TBoolean True, map (\<lambda>t. t\<lparr>readonly := True\<rparr>) (fst st), ())"

lemma sort_writes_frozen:
  "freezing 0 [] (one_heap, ()) = Inr (TBoolean True, [three_numbers\<lparr>readonly := True\<rparr>], ()) \<and>
   table_sort tm freezing [TGc LUA_TTABLE 0, TGc LUA_TFUNCTION 0] (one_heap, ()) =
     Inr ([], [three_numbers\<lparr>array := map (\<lambda>i. TNumber (d_of_int i)) [1, 2, 3], readonly := True\<rparr>], ())"
proof -
  have g: "luaH_getn three_numbers = (three_numbers, 3)"
    by (simp add: three_numbers_def empty_table_def luaH_getn_def luaH_getn_search_def getaboundary_def)
  have arr: "array three_numbers = map (\<lambda>i. TNumber (d_of_int i)) [3, 1, 2]" by (simp add: three_numbers_def)
  show ?thesis
    by (simp add: freezing_def one_heap_def table_sort_def tsort_def g three_numbers_writable arg_def sort_pred_def
        sort_rec.simps [of _ _ _ 3] sort_round_def less_swap_def sort_less_def sort_swap_def in_arr_def arr elt_def
        sort_func_def heap_call_def swapped_def l_isfalse_def)
qed

lemma freezing_keeps: "call_keeps freezing"
  unfolding call_keeps_def
proof (intro allI impI)
  fix f args h w v h' w' assume h: "heap_wf h" and r: "freezing f args (h, w) = Inr (v, h', w')"
  then have h': "h' = map (\<lambda>t. t\<lparr>readonly := True\<rparr>) h" by (simp add: freezing_def)
  then show "keeps h h'" using h by (simp add: keeps_def heap_wf_def ro_same_def frozen_wf frozen_at)
qed

definition frozen_example :: LuaTable where
  "frozen_example = three_numbers\<lparr>readonly := True\<rparr>"

theorem frozen_unchanged_witness: "keeps one_heap [frozen_example]"
proof (rule frozen_unchanged [where name = "''freeze''" and eqTM = "\<lambda>h a b. Inl luaG_ordererror" and f = "lift_op tfreeze"
      and args = "[TGc LUA_TTABLE 0]" and cv = no_conv and vs = "[TGc LUA_TTABLE 0]" and w = "()" and w' = "()" and fuel = 0
      and tm = "\<lambda>l r st. Inl luaG_ordererror" and call = freezing])
  show "tab_funcs (\<lambda>h a b. Inl luaG_ordererror) (\<lambda>l r st. Inl luaG_ordererror) freezing 0 ''freeze'' = Some (lift_op tfreeze)"
    by (simp add: tab_funcs_def)
  show "heap_wf one_heap" by (rule one_heap_wf)
  show "live_args one_heap [TGc LUA_TTABLE 0]" by (simp add: live_args_def one_heap_def)
  show "lift_op tfreeze no_conv (one_heap, ()) [TGc LUA_TTABLE 0] = Inr ([TGc LUA_TTABLE 0], [frozen_example], ())"
    by (simp add: lift_op_def tfreeze_def protected_check_def luaL_getmetafield_def one_heap_def frozen_example_def
        three_numbers_def empty_table_def)
  show "eq_keeps (\<lambda>h a b. Inl luaG_ordererror)" by (simp add: eq_keeps_def)
  show "order_keeps (\<lambda>l r st. Inl luaG_ordererror)" by (simp add: order_keeps_def)
  show "call_keeps freezing" by (rule freezing_keeps)
qed

text \<open>\<open>foreach\<close> with a function that changes nothing.\<close>

lemma foreach_loop_pure:
  assumes c: "\<And>k v w. call f [k, v] (h, w) = Inr (TNil, h, g k v w)"
  shows "traverse fuel (h ! a) key = Inr kvs \<Longrightarrow>
    foreach_loop fuel call f a key (h, w) = Inr ([], h, foldl (\<lambda>w (k, v). g k v w) w kvs)"
proof (induction fuel arbitrary: key kvs w)
  case (Suc fuel)
  show ?case
  proof (cases "luaH_next (h ! a) key")
    case (Inl e)
    then show ?thesis using Suc.prems by simp
  next
    case (Inr r)
    then show ?thesis using Suc c by (cases r) (auto simp: bindE_eq_Inr_iff)
  qed
qed simp

text \<open>\<open>table.foreach\<close> with a function that changes no table and returns nothing ends and calls it for exactly the
  entries of the table, each key once, in the order of \<open>next\<close>; the state of the function is threaded through.\<close>

theorem foreach_visits:
  assumes "heap_wf h" and "a < length h" and "\<And>k v w. call f [k, v] (h, w) = Inr (TNil, h, g k v w)"
  shows "\<exists>fuel kvs. set kvs = set (live (h ! a)) \<and> distinct (map fst kvs) \<and>
    foreach fuel call [TGc LUA_TTABLE a, TGc LUA_TFUNCTION f] (h, w) = Inr ([], h, foldl (\<lambda>w (k, v). g k v w) w kvs)"
proof -
  have wf: "wf_table (h ! a)" using assms(1,2) by (simp add: heap_wf_def)
  note l = foreach_loop_pure [where call = call and f = f and g = g, OF assms(3) traverse_all [OF wf]]
  have "foreach (length (all_entries (h ! a)) + 1) call [TGc LUA_TTABLE a, TGc LUA_TFUNCTION f] (h, w) =
      Inr ([], h, foldl (\<lambda>w (k, v). g k v w) w (all_entries (h ! a)))"
    using l [of w] by (simp add: foreach_def luaL_checkfunction_def)
  then show ?thesis using all_entries_live [OF wf] all_entries_distinct [OF wf] by blast
qed

theorem foreach_visits_witness:
  "\<exists>fuel n. foreach fuel (\<lambda>f args (h, w). Inr (TNil, h, Suc w)) [TGc LUA_TTABLE 0, TGc LUA_TFUNCTION 0] (one_heap, 0) = Inr ([], one_heap, n)"
proof -
  have "\<exists>fuel kvs. set kvs = set (live (one_heap ! 0)) \<and> distinct (map fst kvs) \<and>
     foreach fuel (\<lambda>f args (h, w). Inr (TNil, h, Suc w)) [TGc LUA_TTABLE 0, TGc LUA_TFUNCTION 0] (one_heap, 0) =
       Inr ([], one_heap, foldl (\<lambda>w (k, v). Suc w) 0 kvs)"
    using foreach_visits [OF one_heap_wf, where a = 0 and f = 0 and g = "\<lambda>k v w. Suc w" and w = 0] by (simp add: one_heap_def)
  then show ?thesis by blast
qed

end
