(* ===== verification/FileUtils.thy ===== *)
theory FileUtils imports "HOL-Library.Word" begin

text \<open>
  Paths and source files (\<open>CLI/src/FileUtils.cpp\<close>, the POSIX build): splitting, joining and normalising paths,
  the parent and the extension of a path, the directory walk and the list of source files. System calls are
  parameters.
\<close>

unbundle bit_operations_syntax

section \<open>Searching in strings\<close>

text \<open>\<open>find_first_of\<close> from a position and \<open>find_last_of\<close> up to one; \<open>npos\<close> is \<open>None\<close>.\<close>

fun index_of :: "('a \<Rightarrow> bool) \<Rightarrow> 'a list \<Rightarrow> nat option" where
  "index_of P [] = None"
| "index_of P (c # s) = (if P c then Some 0 else map_option Suc (index_of P s))"

definition find_first_of :: "('a \<Rightarrow> bool) \<Rightarrow> 'a list \<Rightarrow> nat \<Rightarrow> nat option" where
  "find_first_of P s pos = map_option ((+) pos) (index_of P (drop pos s))"

definition find_last_of :: "('a \<Rightarrow> bool) \<Rightarrow> 'a list \<Rightarrow> nat \<Rightarrow> nat option" where
  "find_last_of P s pos = map_option (\<lambda>i. length (take (Suc pos) s) - 1 - i) (index_of P (rev (take (Suc pos) s)))"

lemma index_of_Some: "index_of P s = Some i \<Longrightarrow> i < length s \<and> P (s ! i) \<and> (\<forall>c \<in> set (take i s). \<not> P c)"
  by (induction s arbitrary: i) (auto split: if_splits)

lemma index_of_None: "index_of P s = None \<longleftrightarrow> (\<forall>c \<in> set s. \<not> P c)"
  by (induction s) auto

lemma index_of_append: "\<forall>c \<in> set a. \<not> P c \<Longrightarrow> index_of P (a @ s) = map_option ((+) (length a)) (index_of P s)"
  by (induction a; cases "index_of P s") auto

section \<open>Paths\<close>

definition is_slash :: "char \<Rightarrow> bool" where
  "is_slash c \<longleftrightarrow> c = CHR 0x5C \<or> c = CHR ''/''"

definition isAbsolutePath :: "string \<Rightarrow> bool" where
  "isAbsolutePath path \<longleftrightarrow> length path \<ge> 1 \<and> path ! 0 = CHR ''/''"

function splitPath_loop :: "string \<Rightarrow> nat \<Rightarrow> string list \<Rightarrow> string list" where
  "splitPath_loop path pos components =
     (case find_first_of is_slash path pos of
        Some nextPos \<Rightarrow> splitPath_loop path (nextPos + 1) (components @ [take (nextPos - pos) (drop pos path)])
      | None \<Rightarrow> components @ [drop pos path])"
  by pat_completeness auto

termination
  by (relation "measure (\<lambda>(path, pos, components). length path - pos)")
    (auto simp: find_first_of_def dest!: index_of_Some)

declare splitPath_loop.simps [simp del]

definition splitPath :: "string \<Rightarrow> string list" where
  "splitPath path = splitPath_loop path 0 []"

definition normalize_step :: "bool \<Rightarrow> string list \<Rightarrow> string \<Rightarrow> string list" where
  "normalize_step isAbsolute normalizedComponents component =
     (if component = ''..'' then
        if normalizedComponents = [] then (if \<not> isAbsolute then normalizedComponents @ [''..''] else normalizedComponents)
        else if last normalizedComponents = ''..'' then normalizedComponents @ [''..'']
        else butlast normalizedComponents
      else if component \<noteq> [] \<and> component \<noteq> ''.'' then normalizedComponents @ [component]
      else normalizedComponents)"

fun join_components :: "string list \<Rightarrow> string" where
  "join_components [] = []"
| "join_components [c] = c"
| "join_components (c # cs) = c @ ''/'' @ join_components cs"

definition add_slash :: "string \<Rightarrow> string" where
  "add_slash s =
     (if length s \<ge> 2 \<and> s ! (length s - 1) = CHR ''.'' \<and> s ! (length s - 2) = CHR ''.'' then s @ ''/'' else s)"

definition normalizePath :: "string \<Rightarrow> string" where
  "normalizePath path =
     (let components = splitPath path;
          isAbsolute = isAbsolutePath path;
          startIndex = (if isAbsolute then 1 else 0);
          normalizedComponents = foldl (normalize_step isAbsolute) [] (drop startIndex components);
          normalizedPath =
            (if isAbsolute then components ! 0 @ ''/''
             else if normalizedComponents = [] \<or> normalizedComponents ! 0 \<noteq> ''..'' then ''./''
             else [])
      in add_slash (normalizedPath @ join_components normalizedComponents))"

definition joinPaths :: "string \<Rightarrow> string \<Rightarrow> string" where
  "joinPaths lhs rhs = (if lhs \<noteq> [] \<and> \<not> is_slash (last lhs) then lhs @ ''/'' else lhs) @ rhs"

definition getParentPath :: "string \<Rightarrow> string option" where
  "getParentPath path =
     (if path = '''' \<or> path = ''.'' \<or> path = ''/'' then None
      else
        case find_last_of is_slash path (length path - 1) of
          Some slash \<Rightarrow> if slash = 0 then Some ''/'' else Some (take slash path)
        | None \<Rightarrow> Some '''')"

definition getExtension :: "string \<Rightarrow> string" where
  "getExtension path =
     (case find_last_of (\<lambda>c. c = CHR ''.'' \<or> is_slash c) path (length path - 1) of
        None \<Rightarrow> ''''
      | Some dot \<Rightarrow> if path ! dot \<noteq> CHR ''.'' then '''' else drop dot path)"

definition resolvePath :: "string \<Rightarrow> string \<Rightarrow> string option" where
  "resolvePath path baseFilePath =
     (case getParentPath baseFilePath of
        None \<Rightarrow> None
      | Some baseFilePathParent \<Rightarrow> Some (normalizePath (joinPaths baseFilePathParent path)))"

definition hasFileExtension :: "string \<Rightarrow> string list \<Rightarrow> bool" where
  "hasFileExtension name extensions \<longleftrightarrow>
     (\<exists>extension \<in> set extensions. length name \<ge> length extension \<and> drop (length name - length extension) name = extension)"

section \<open>Files\<close>

text \<open>
  \<open>getCurrentWorkingDirectory\<close>: the buffer doubles while \<open>getcwd\<close> reports \<open>ERANGE\<close>. \<open>getcwd n\<close> is the
  directory, or \<open>Inl\<close> whether the error is \<open>ERANGE\<close>.
\<close>

abbreviation maxPathLength :: nat where "maxPathLength \<equiv> 131072"
abbreviation initialPathLength :: nat where "initialPathLength \<equiv> 260"

function cwd_loop :: "(nat \<Rightarrow> bool + string) \<Rightarrow> nat \<Rightarrow> string option" where
  "cwd_loop getcwd sz =
     (if 0 < sz \<and> sz \<le> maxPathLength then
        case getcwd sz of
          Inr directory \<Rightarrow> Some directory
        | Inl erange \<Rightarrow> if \<not> erange \<or> sz * 2 > maxPathLength then None else cwd_loop getcwd (sz * 2)
      else None)"
  by pat_completeness auto

termination
  by (relation "measure (\<lambda>(getcwd, sz). maxPathLength - sz)") auto

declare cwd_loop.simps [simp del]

definition getCurrentWorkingDirectory :: "(nat \<Rightarrow> bool + string) \<Rightarrow> string option" where
  "getCurrentWorkingDirectory getcwd = cwd_loop getcwd initialPathLength"

text \<open>\<open>readFile\<close> drops a first line that starts with \<open>#!\<close>, up to its newline.\<close>

definition skip_shebang :: "string \<Rightarrow> string" where
  "skip_shebang result =
     (if length result > 2 \<and> result ! 0 = CHR ''#'' \<and> result ! 1 = CHR ''!''
      then (case index_of (\<lambda>c. c = CHR 0x0A) result of Some i \<Rightarrow> drop i result | None \<Rightarrow> [])
      else result)"

text \<open>\<open>readFile\<close>; \<open>open_read\<close> gives the contents of the file, or nothing when it cannot be read as a whole.\<close>

definition readFile :: "(string \<Rightarrow> string option) \<Rightarrow> string \<Rightarrow> string option" where
  "readFile open_read name = map_option skip_shebang (open_read name)"

text \<open>
  A directory entry: the type that \<open>readdir\<close> gives (0 when the file system does not say), the mode of \<open>fstatat\<close>,
  and the entries below it. \<open>DTTOIF\<close> shifts the type into the bits of \<open>S_IFMT\<close>; the mode of \<open>fstatat\<close> is taken
  whole, with its permission bits.
\<close>

datatype dirent = Entry (d_type: "32 word") (st_mode: "32 word") (sub_entries: "(string \<times> dirent) list")

abbreviation S_IFMT :: "32 word" where "S_IFMT \<equiv> 0xF000"
abbreviation S_IFDIR :: "32 word" where "S_IFDIR \<equiv> 0x4000"
abbreviation S_IFREG :: "32 word" where "S_IFREG \<equiv> 0x8000"

definition entry_mode :: "32 word \<Rightarrow> 32 word \<Rightarrow> 32 word" where
  "entry_mode dtype st = (let mode = push_bit 12 dtype in if mode AND S_IFMT = 0 then st else mode)"

definition join_name :: "string \<Rightarrow> string \<Rightarrow> string" where
  "join_name lhs rhs =
     (if lhs \<noteq> [] \<and> \<not> is_slash (last lhs) \<and> \<not> (rhs \<noteq> [] \<and> is_slash (hd rhs)) then lhs @ ''/'' else lhs) @ rhs"

text \<open>The names given to the callback, in order.\<close>

fun traverseDirectoryRec :: "string \<Rightarrow> (string \<times> dirent) list \<Rightarrow> string list" where
  "traverseDirectoryRec path [] = []"
| "traverseDirectoryRec path ((name, Entry dtype st sub) # es) =
     (if name \<noteq> ''.'' \<and> name \<noteq> ''..'' then
        let buf = join_name path name; mode = entry_mode dtype st in
        if mode = S_IFDIR then traverseDirectoryRec buf sub
        else if mode = S_IFREG then [buf]
        else []
      else []) @ traverseDirectoryRec path es"

text \<open>An entry of unknown type is skipped unless its permission bits are all zero.\<close>

lemma unknown_type_skipped:
  "mode \<noteq> S_IFDIR \<Longrightarrow> mode \<noteq> S_IFREG \<Longrightarrow> traverseDirectoryRec path ((name, Entry 0 mode sub) # es) = traverseDirectoryRec path es"
  by (simp add: entry_mode_def)

text \<open>The largest buffer that is tried holds 66560 characters.\<close>

lemma cwd_limit: "\<forall>n \<le> 66560. getcwd n = Inl True \<Longrightarrow> getCurrentWorkingDirectory getcwd = None"
  by (simp add: getCurrentWorkingDirectory_def cwd_loop.simps)

text \<open>
  \<open>getSourceFiles\<close> over the arguments after the program name; \<open>dir_entries\<close> gives the entries of a path that
  is a directory.
\<close>

fun getSourceFiles :: "(string \<Rightarrow> (string \<times> dirent) list option) \<Rightarrow> string list \<Rightarrow> string list" where
  "getSourceFiles dir_entries [] = []"
| "getSourceFiles dir_entries (a # as) =
     (if a = ''--program-args'' \<or> a = ''-a'' then []
      else if a \<noteq> [] \<and> a ! 0 = CHR ''-'' \<and> length a > 1 then getSourceFiles dir_entries as
      else
        let normalized = normalizePath a in
        (case dir_entries normalized of
           Some es \<Rightarrow> filter (\<lambda>name. getExtension name \<in> {''.lua'', ''.luau''}) (traverseDirectoryRec normalized es)
         | None \<Rightarrow> [normalized]) @ getSourceFiles dir_entries as)"

section \<open>Splitting and joining\<close>

text \<open>A component has no separator.\<close>

definition plain :: "string \<Rightarrow> bool" where
  "plain c \<longleftrightarrow> (\<forall>x \<in> set c. \<not> is_slash x)"

lemma splitPath_loop_acc: "splitPath_loop path pos cs = cs @ splitPath (drop pos path)"
proof (induction "length path - pos" arbitrary: pos cs path rule: less_induct)
  case less
  let ?s = "drop pos path"
  show ?case
  proof (cases "index_of is_slash ?s")
    case None
    then show ?thesis
      by (simp add: splitPath_loop.simps [of path pos cs] splitPath_loop.simps [of ?s 0 "[]"] splitPath_def find_first_of_def)
  next
    case (Some i)
    have i: "i < length path - pos" using index_of_Some [OF Some] by simp
    have d: "splitPath_loop path (pos + i + 1) xs = xs @ splitPath (drop (pos + i + 1) path)" for xs
      by (rule less) (use i in simp)
    have e: "splitPath_loop ?s (i + 1) xs = xs @ splitPath (drop (i + 1) ?s)" for xs
    proof (cases pos)
      case 0
      then show ?thesis using d [of xs] by simp
    next
      case (Suc p)
      then show ?thesis by (intro less) (use i in simp)
    qed
    have l: "splitPath_loop path pos cs = splitPath_loop path (pos + i + 1) (cs @ [take i ?s])"
      using Some by (simp add: splitPath_loop.simps [of path pos cs] find_first_of_def)
    have r: "splitPath ?s = splitPath_loop ?s (i + 1) [take i ?s]"
      using Some by (simp add: splitPath_def splitPath_loop.simps [of ?s 0 "[]"] find_first_of_def)
    show ?thesis unfolding l r d e by (simp add: add.commute add.left_commute)
  qed
qed

lemma splitPath_rec:
  "splitPath s = (case index_of is_slash s of None \<Rightarrow> [s] | Some i \<Rightarrow> take i s # splitPath (drop (Suc i) s))"
  unfolding splitPath_def [of s] splitPath_loop.simps [of s 0 "[]"]
  by (cases "index_of is_slash s") (simp_all add: find_first_of_def splitPath_loop_acc)

lemma splitPath_plain [simp]: "plain s \<Longrightarrow> splitPath s = [s]"
  using index_of_None [of is_slash s] by (subst splitPath_rec) (simp add: plain_def)

lemma splitPath_sep: "plain c \<Longrightarrow> is_slash x \<Longrightarrow> splitPath (c @ x # s) = c # splitPath s"
  using index_of_append [of c is_slash "x # s"] by (subst splitPath_rec) (simp add: plain_def)

lemma splitPath_components: "c \<in> set (splitPath s) \<Longrightarrow> plain c"
proof (induction s arbitrary: c rule: length_induct)
  case (1 s)
  show ?case
  proof (cases "index_of is_slash s")
    case None
    then show ?thesis using 1(2) index_of_None [of is_slash s] by (subst (asm) splitPath_rec) (simp add: plain_def)
  next
    case (Some i)
    note i = index_of_Some [OF Some]
    from 1(2) Some have "c = take i s \<or> c \<in> set (splitPath (drop (Suc i) s))" by (subst (asm) splitPath_rec) simp
    then show ?thesis using i 1(1) [rule_format, of "drop (Suc i) s" c] by (auto simp: plain_def)
  qed
qed

lemma splitPath_nonempty: "splitPath s \<noteq> []"
  by (subst splitPath_rec) (simp split: option.split)

lemma splitPath_join: "\<forall>c \<in> set cs. plain c \<Longrightarrow> cs \<noteq> [] \<Longrightarrow> splitPath (join_components cs) = cs"
  by (induction cs rule: join_components.induct) (simp_all add: splitPath_sep is_slash_def)

lemma splitPath_join_slash: "\<forall>c \<in> set cs. plain c \<Longrightarrow> cs \<noteq> [] \<Longrightarrow> splitPath (join_components cs @ ''/'') = cs @ ['''']"
  by (induction cs rule: join_components.induct) (simp_all add: splitPath_sep is_slash_def plain_def)

section \<open>The meaning of a path\<close>

text \<open>
  Following a path from a directory, given by its names from the root: \<open>..\<close> goes up, and stays at the root;
  \<open>.\<close> and empty components stay.
\<close>

definition walk_step :: "string list \<Rightarrow> string \<Rightarrow> string list" where
  "walk_step dir c = (if c = ''..'' then butlast dir else if c = [] \<or> c = ''.'' then dir else dir @ [c])"

definition walk :: "string list \<Rightarrow> string list \<Rightarrow> string list" where
  "walk dir cs = foldl walk_step dir cs"

definition significant :: "string list \<Rightarrow> string list" where
  "significant cs = filter (\<lambda>c. c \<noteq> [] \<and> c \<noteq> ''.'') cs"

definition is_name :: "string \<Rightarrow> bool" where
  "is_name c \<longleftrightarrow> plain c \<and> c \<noteq> [] \<and> c \<noteq> ''.'' \<and> c \<noteq> ''..''"

lemma walk_simps [simp]: "walk dir [] = dir" "walk dir (c # cs) = walk (walk_step dir c) cs" "walk dir (cs @ ds) = walk (walk dir cs) ds"
  by (simp_all add: walk_def)

lemma walk_significant: "walk dir (significant cs) = walk dir cs"
  by (induction cs arbitrary: dir) (auto simp: significant_def walk_step_def)

lemma walk_names: "\<forall>c \<in> set ns. is_name c \<Longrightarrow> walk dir ns = dir @ ns"
  by (induction ns arbitrary: dir) (auto simp: walk_step_def is_name_def)

lemma walk_ups: "walk dir (replicate k ''..'') = take (length dir - k) dir"
proof (induction k arbitrary: dir)
  case (Suc k)
  then show ?case by (simp add: walk_step_def butlast_conv_take min_def)
qed simp

text \<open>The components that \<open>normalizePath\<close> keeps.\<close>

definition norm :: "bool \<Rightarrow> string list \<Rightarrow> string list" where
  "norm a cs = foldl (normalize_step a) [] cs"

definition normal :: "bool \<Rightarrow> string list \<Rightarrow> bool" where
  "normal a ns \<longleftrightarrow> (\<exists>k names. ns = replicate k ''..'' @ names \<and> (\<forall>c \<in> set names. is_name c) \<and> (a \<longrightarrow> k = 0))"

lemma normal_step:
  assumes n: "normal a ns" and c: "plain c"
  shows "normal a (normalize_step a ns c)"
proof -
  obtain k names where k: "ns = replicate k ''..'' @ names" "\<forall>c \<in> set names. is_name c" "a \<longrightarrow> k = 0"
    using n by (auto simp: normal_def)
  consider (up) "c = ''..''" "names = []" | (pop) "c = ''..''" "names \<noteq> []" | (name) "is_name c" | (skip) "c = [] \<or> c = ''.''"
    using c by (auto simp: is_name_def)
  then show ?thesis
  proof cases
    case up
    show ?thesis
    proof (cases k)
      case 0
      then show ?thesis using up k by (auto simp: normalize_step_def normal_def intro!: exI [of _ 1] exI [of _ "[]"])
    next
      case (Suc j)
      then have "normalize_step a ns c = replicate (Suc k) ''..'' @ []" using up k
        by (simp add: normalize_step_def replicate_append_same)
      moreover have "\<not> a" using k Suc by simp
      ultimately show ?thesis unfolding normal_def by (intro exI [of _ "Suc k"] exI [of _ "[]"]) simp
    qed
  next
    case pop
    then have "last ns = last names" "ns \<noteq> []" "last names \<noteq> ''..''" using k last_in_set [of names] by (auto simp: is_name_def)
    then have "normalize_step a ns c = replicate k ''..'' @ butlast names" using pop k by (simp add: normalize_step_def butlast_append)
    moreover have "\<forall>c \<in> set (butlast names). is_name c" using k(2) by (auto dest: in_set_butlastD)
    ultimately show ?thesis using k(3) unfolding normal_def by (intro exI [of _ k] exI [of _ "butlast names"]) simp
  next
    case name
    then have "normalize_step a ns c = replicate k ''..'' @ (names @ [c])" using k by (auto simp: normalize_step_def is_name_def)
    then show ?thesis using k name unfolding normal_def by (metis Un_iff empty_iff insert_iff list.set set_append)
  next
    case skip
    then have "normalize_step a ns c = ns" by (auto simp: normalize_step_def)
    then show ?thesis using n by simp
  qed
qed

lemma norm_append: "norm a (cs @ [c]) = normalize_step a (norm a cs) c"
  by (simp add: norm_def)

lemma norm_normal: "\<forall>c \<in> set cs. plain c \<Longrightarrow> normal a (norm a cs)"
proof (induction cs rule: rev_induct)
  case Nil
  show ?case by (simp add: norm_def normal_def)
next
  case (snoc c cs)
  then show ?case using normal_step [of a "norm a cs" c] by (simp add: norm_append)
qed

lemma norm_id: "normal a ns \<Longrightarrow> norm a ns = ns"
proof (induction ns rule: rev_induct)
  case (snoc c ns)
  then obtain k names where k: "ns @ [c] = replicate k ''..'' @ names" "\<forall>c \<in> set names. is_name c" "a \<longrightarrow> k = 0"
    by (auto simp: normal_def)
  show ?case
  proof (cases names rule: rev_cases)
    case Nil
    then obtain j where j: "k = Suc j" "ns = replicate j ''..''" "c = ''..''"
      using k(1) by (cases k) (auto simp: replicate_append_same [symmetric])
    then have "normal a ns" using k(3) unfolding normal_def by (intro exI [of _ j] exI [of _ "[]"]) simp
    then have IH: "norm a ns = ns" by (rule snoc.IH)
    have "last ns = ''..''" if "ns \<noteq> []" using that j(2) by (metis in_set_replicate last_in_set)
    then show ?thesis using j k(3) unfolding norm_append IH by (auto simp: normalize_step_def)
  next
    case (snoc ms m)
    then have m: "ns = replicate k ''..'' @ ms" "c = m" "is_name m" using k by simp_all
    then have "normal a ns" using k snoc unfolding normal_def by (intro exI [of _ k] exI [of _ ms]) simp
    then have IH: "norm a ns = ns" by (rule snoc.IH)
    show ?thesis using m unfolding norm_append IH by (auto simp: normalize_step_def is_name_def)
  qed
qed (simp add: norm_def)

lemma norm_significant: "norm a (significant cs) = norm a cs"
proof (induction cs rule: rev_induct)
  case (snoc c cs)
  then show ?case by (cases "c = [] \<or> c = ''.''") (auto simp: significant_def norm_append normalize_step_def)
qed (simp add: significant_def)

lemma walk_norm:
  assumes "\<forall>c \<in> set cs. plain c"
  shows "walk dir (norm False cs) = walk dir cs" and "walk [] (norm True cs) = walk [] cs"
proof -
  have step: "walk d (normalize_step a ns c) = walk_step (walk d ns) c" if n: "normal a ns" and c: "plain c" and d: "a \<longrightarrow> d = []" for a ns c d
  proof -
    obtain k names where k: "ns = replicate k ''..'' @ names" "\<forall>c \<in> set names. is_name c" "a \<longrightarrow> k = 0"
      using n by (auto simp: normal_def)
    show ?thesis
    proof (cases "c = ''..''")
      case False
      then show ?thesis by (auto simp: normalize_step_def walk_step_def)
    next
      case True
      show ?thesis
      proof (cases names rule: rev_cases)
        case Nil
        then show ?thesis using True k d by (cases k) (auto simp: normalize_step_def walk_step_def)
      next
        case (snoc ms m)
        then have m: "is_name m" "ns = (replicate k ''..'' @ ms) @ [m]" using k by simp_all
        then have "normalize_step a ns c = replicate k ''..'' @ ms" using True unfolding m(2) normalize_step_def
          by (simp add: is_name_def butlast_append)
        then show ?thesis using True m by (simp add: walk_step_def is_name_def)
      qed
    qed
  qed
  have "walk d (norm a cs) = walk d cs" if d: "a \<longrightarrow> d = []" for a d
    using assms
  proof (induction cs rule: rev_induct)
    case (snoc c cs)
    then show ?case using step [OF norm_normal, of cs c a d] d by (simp add: norm_append)
  qed (simp add: norm_def)
  then show "walk dir (norm False cs) = walk dir cs" "walk [] (norm True cs) = walk [] cs" by simp_all
qed

text \<open>The string that \<open>normalizePath\<close> makes of the kept components.\<close>

definition fmt :: "bool \<Rightarrow> string list \<Rightarrow> string" where
  "fmt a ns = add_slash ((if a then ''/'' else if ns = [] \<or> ns ! 0 \<noteq> ''..'' then ''./'' else []) @ join_components ns)"

lemma absolute_split: "isAbsolutePath path \<Longrightarrow> splitPath path = [] # splitPath (tl path)"
proof (cases path)
  case (Cons x xs)
  assume "isAbsolutePath path"
  then have "is_slash x" using Cons by (simp add: isAbsolutePath_def is_slash_def)
  then show ?thesis using splitPath_sep [of "[]" x xs] Cons by (simp add: plain_def)
qed (simp add: isAbsolutePath_def)

lemma normalizePath_fmt: "normalizePath path = fmt (isAbsolutePath path) (norm (isAbsolutePath path) (splitPath path))"
proof (cases "isAbsolutePath path")
  case True
  have "norm True ([] # cs) = norm True cs" for cs by (simp add: norm_def normalize_step_def)
  then show ?thesis using True by (simp add: normalizePath_def Let_def fmt_def norm_def absolute_split)
next
  case False
  then show ?thesis by (simp add: normalizePath_def Let_def fmt_def norm_def)
qed

lemma path_normal: "normal a (norm a (splitPath path))"
  by (rule norm_normal) (use splitPath_components in blast)

lemma normal_plain:
  assumes "normal a ns" and "c \<in> set ns"
  shows "plain c \<and> c \<noteq> [] \<and> c \<noteq> ''.''"
proof -
  from assms have "c = ''..'' \<or> is_name c" by (auto simp only: normal_def set_append set_replicate_conv_if Un_iff empty_iff insert_iff split: if_split_asm)
  then show ?thesis by (auto simp: is_name_def plain_def is_slash_def)
qed

lemma normal_significant: "normal a ns \<Longrightarrow> significant ns = ns"
  unfolding significant_def using normal_plain by (auto simp: filter_id_conv)

lemma significant_simps [simp]:
  "significant ([] # cs) = significant cs" "significant (''.'' # cs) = significant cs" "significant (cs @ [[]]) = significant cs"
  by (simp_all add: significant_def)

lemma split_join_end:
  assumes n: "normal a ns" and e: "e = [] \<or> e = ''/''"
  shows "significant (splitPath (join_components ns @ e)) = ns"
proof (cases "ns = []")
  case True
  then show ?thesis using e splitPath_sep [of "[]" "CHR ''/''" "[]"] by (auto simp: plain_def is_slash_def significant_def)
next
  case False
  have p: "\<forall>c \<in> set ns. plain c" using normal_plain [OF n] by blast
  show ?thesis using e splitPath_join [OF p False] splitPath_join_slash [OF p False] normal_significant [OF n] by auto
qed

lemma significant_fmt:
  assumes n: "normal a ns"
  shows "significant (splitPath (fmt a ns)) = ns" and "isAbsolutePath (fmt a ns) = a"
proof -
  let ?pre = "if a then ''/'' else if ns = [] \<or> ns ! 0 \<noteq> ''..'' then ''./'' else []"
  obtain e where e: "fmt a ns = ?pre @ join_components ns @ e" "e = [] \<or> e = ''/''" 
    by (cases "add_slash (?pre @ join_components ns) = ?pre @ join_components ns") (auto simp: fmt_def add_slash_def split: if_split_asm)
  note j = split_join_end [OF n e(2)]
  have dot: "splitPath (''./'' @ s) = ''.'' # splitPath s" for s using splitPath_sep [of "''.''" "CHR ''/''" s] by (simp add: plain_def is_slash_def)
  have sl: "splitPath (''/'' @ s) = [] # splitPath s" for s using splitPath_sep [of "[]" "CHR ''/''" s] by (simp add: plain_def is_slash_def)
  show "significant (splitPath (fmt a ns)) = ns" unfolding e(1) using j by (simp add: dot [simplified] sl [simplified])
  show "isAbsolutePath (fmt a ns) = a"
  proof (cases "\<not> a \<and> ns \<noteq> [] \<and> ns ! 0 = ''..''")
    case True
    then have "join_components ns ! 0 = CHR ''.''" "join_components ns \<noteq> []"
      by (cases ns rule: join_components.cases; simp)+
    then show ?thesis unfolding e(1) using True by (simp add: isAbsolutePath_def nth_append)
  next
    case False
    then show ?thesis unfolding e(1) by (auto simp: isAbsolutePath_def)
  qed
qed

lemma norm_walk:
  assumes "normal False ns" and "normal False ms" and w: "\<And>dir. walk dir ns = walk dir ms"
  shows "ns = ms"
proof -
  obtain k xs j ys where k: "ns = replicate k ''..'' @ xs" "\<forall>c \<in> set xs. is_name c"
    and j: "ms = replicate j ''..'' @ ys" "\<forall>c \<in> set ys. is_name c" using assms(1,2) by (auto simp: normal_def)
  have "\<exists>x. x \<notin> set (xs @ ys)" using infinite_UNIV_listI ex_new_if_finite [of "set (xs @ ys)"] by blast
  then obtain x where x: "x \<notin> set xs" "x \<notin> set ys" by auto
  let ?N = "k + j"
  have "walk (replicate ?N x) ns = replicate j x @ xs" "walk (replicate ?N x) ms = replicate k x @ ys"
    using k j by (simp_all add: walk_ups walk_names)
  then have e: "replicate j x @ xs = replicate k x @ ys" using w by metis
  have "takeWhile ((=) x) (replicate i x @ zs) = replicate i x" if "x \<notin> set zs" for i zs
    using that by (induction i) (cases zs; simp)+
  then have "replicate j x = replicate k x" using x e by metis
  then have "j = k" by (metis length_replicate)
  then show ?thesis using e k j by simp
qed

lemma walk_absolute: "normal True ns \<Longrightarrow> walk [] ns = ns"
  using walk_names [of _ "[]"] by (auto simp: normal_def)

lemma normalizePath_walk:
  "isAbsolutePath (normalizePath p) = isAbsolutePath p \<and>
   (if isAbsolutePath p then walk [] (splitPath (normalizePath p)) = walk [] (splitPath p)
    else \<forall>dir. walk dir (splitPath (normalizePath p)) = walk dir (splitPath p))"
proof -
  let ?a = "isAbsolutePath p"
  note n = path_normal [of ?a p] and f = significant_fmt [OF path_normal [of ?a p]]
  have c: "\<forall>c \<in> set (splitPath p). plain c" using splitPath_components by blast
  have "walk dir (splitPath (normalizePath p)) = walk dir (norm ?a (splitPath p))" for dir
    using walk_significant [of dir "splitPath (normalizePath p)"] f by (simp add: normalizePath_fmt)
  then show ?thesis using walk_norm [OF c] f(2) by (auto simp: normalizePath_fmt)
qed

text \<open>Appending components; the directory of an absolute path.\<close>

lemma index_of_append_Some: "index_of P a = Some i \<Longrightarrow> index_of P (a @ s) = Some i"
  by (induction a arbitrary: i) (auto split: if_splits)

lemma splitPath_append: "is_slash x \<Longrightarrow> splitPath (a @ x # s) = splitPath a @ splitPath s"
proof (induction a rule: length_induct)
  case (1 a)
  show ?case
  proof (cases "index_of is_slash a")
    case None
    then have "plain a" using index_of_None [of is_slash a] by (simp add: plain_def)
    then show ?thesis using splitPath_sep [OF _ 1(2)] by simp
  next
    case (Some i)
    note i = index_of_Some [OF Some]
    have "splitPath (drop (Suc i) a @ x # s) = splitPath (drop (Suc i) a) @ splitPath s"
      by (rule 1(1) [rule_format, OF _ 1(2)]) (use i in auto)
    then show ?thesis using Some i index_of_append_Some [OF Some, of "x # s"]
      by (subst splitPath_rec, subst (2) splitPath_rec) simp
  qed
qed

definition dirs :: "string \<Rightarrow> string list" where
  "dirs p = walk [] (splitPath p)"

lemma dirs_normalize: "isAbsolutePath p \<Longrightarrow> dirs (normalizePath p) = dirs p"
  using normalizePath_walk [of p] by (simp add: dirs_def)

lemma dirs_append: "is_slash x \<Longrightarrow> dirs (p @ x # s) = walk (dirs p) (splitPath s)"
  by (simp add: dirs_def splitPath_append)

lemma dirs_norm: "dirs p = norm True (splitPath p)"
  using walk_norm(2) [of "splitPath p"] walk_absolute [OF path_normal] splitPath_components [of _ p] by (auto simp: dirs_def)

lemma normalize_root: "isAbsolutePath p \<Longrightarrow> dirs p = [] \<Longrightarrow> normalizePath p = ''/''"
  by (simp add: normalizePath_fmt dirs_norm fmt_def add_slash_def)

section \<open>Properties\<close>

text \<open>C25. Normalising a path keeps its meaning: an absolute path leads to the same directory, a relative one leads from
  every directory to the same place (without symbolic links), and the result is absolute exactly when the path is.\<close>

theorem normalizePath_meaning:
  "isAbsolutePath (normalizePath p) = isAbsolutePath p \<and>
   (if isAbsolutePath p then walk [] (splitPath (normalizePath p)) = walk [] (splitPath p)
    else \<forall>dir. walk dir (splitPath (normalizePath p)) = walk dir (splitPath p))"
  by (rule normalizePath_walk)

text \<open>C31. The normal form is canonical: normalising twice changes nothing, and two paths that are both absolute or both
  relative and mean the same have the same normal form.\<close>

theorem normalizePath_canonical:
  "normalizePath (normalizePath p) = normalizePath p \<and>
   (isAbsolutePath p = isAbsolutePath q \<longrightarrow>
    (if isAbsolutePath p then walk [] (splitPath p) = walk [] (splitPath q)
     else \<forall>dir. walk dir (splitPath p) = walk dir (splitPath q)) \<longrightarrow>
    normalizePath p = normalizePath q)"
proof -
  have id: "norm a (splitPath (fmt a (norm a (splitPath r)))) = norm a (splitPath r)" for a r
    using norm_significant [of a "splitPath (fmt a (norm a (splitPath r)))"] significant_fmt(1) [OF path_normal [of a r]]
      norm_id [OF path_normal [of a r]] by simp
  have "normalizePath (normalizePath p) = normalizePath p"
    using id significant_fmt(2) [OF path_normal] by (simp add: normalizePath_fmt)
  moreover have "normalizePath p = normalizePath q" if a: "isAbsolutePath p = isAbsolutePath q" and
    w: "if isAbsolutePath p then walk [] (splitPath p) = walk [] (splitPath q)
        else \<forall>dir. walk dir (splitPath p) = walk dir (splitPath q)"
  proof -
    have c: "\<forall>c \<in> set (splitPath r). plain c" for r using splitPath_components by blast
    have "norm (isAbsolutePath p) (splitPath p) = norm (isAbsolutePath p) (splitPath q)"
    proof (cases "isAbsolutePath p")
      case True
      then show ?thesis using w walk_norm(2) [OF c] walk_absolute [OF path_normal] by metis
    next
      case False
      then have "walk dir (norm False (splitPath p)) = walk dir (norm False (splitPath q))" for dir
        using w walk_norm(1) [OF c] by simp
      then show ?thesis using False norm_walk [OF path_normal path_normal] by auto
    qed
    then show ?thesis using a by (simp add: normalizePath_fmt)
  qed
  ultimately show ?thesis by blast
qed

lemma normalizePath_canonical_witness: "normalizePath ''/a/./b//c/..'' = normalizePath ''/../a/b/''"
proof -
  have "isAbsolutePath ''/a/./b//c/..'' = isAbsolutePath ''/../a/b/''" "isAbsolutePath ''/a/./b//c/..''"
    "walk [] (splitPath ''/a/./b//c/..'') = walk [] (splitPath ''/../a/b/'')" by code_simp+
  then show ?thesis using normalizePath_canonical [of "''/a/./b//c/..''" "''/../a/b/''"] by simp
qed

end
