(* ===== verification/Config.thy ===== *)
theory Config
  imports LuaTable "HOL-Library.AList" "HOL-Library.Word"
begin

text \<open>
  Configuration files (\<open>Config/src/Config.cpp\<close>, \<open>Config/src/LinterConfig.cpp\<close>, \<open>Config/src/LuauConfig.cpp\<close>): the
  record of settings, the JSON dialect of \<open>.luaurc\<close> over the lexemes of the lexer, and the table that a
  \<open>.config.luau\<close> returns. The lexer and the virtual machine that runs the file are parameters; the conversion of the table it
  leaves is over the tables of \<open>LuaTable\<close>.
\<close>

unbundle bit_operations_syntax

section \<open>Lint options\<close>

text \<open>\<open>LintOptions\<close> is its mask; bit \<open>code\<close> tells whether the warning is on.\<close>

type_synonym LintOptions = "64 word"

definition enableWarning :: "LintOptions \<Rightarrow> nat \<Rightarrow> LintOptions" where
  "enableWarning m code = m OR push_bit code 1"

definition disableWarning :: "LintOptions \<Rightarrow> nat \<Rightarrow> LintOptions" where
  "disableWarning m code = m AND NOT (push_bit code 1)"

definition isEnabled :: "LintOptions \<Rightarrow> nat \<Rightarrow> bool" where
  "isEnabled m code \<longleftrightarrow> 0 \<noteq> m AND push_bit code 1"

definition setDefaults :: LintOptions where
  "setDefaults = NOT 0"

definition kWarningNames :: "string list" where
  "kWarningNames =
     [''Unknown'', ''UnknownGlobal'', ''DeprecatedGlobal'', ''GlobalUsedAsLocal'', ''LocalShadow'', ''SameLineStatement'',
      ''MultiLineStatement'', ''LocalUnused'', ''FunctionUnused'', ''ImportUnused'', ''BuiltinGlobalWrite'',
      ''PlaceholderRead'', ''UnreachableCode'', ''UnknownType'', ''ForRange'', ''UnbalancedAssignment'',
      ''ImplicitReturn'', ''DuplicateLocal'', ''FormatString'', ''TableLiteral'', ''UninitializedLocal'',
      ''DuplicateFunction'', ''DeprecatedApi'', ''TableOperations'', ''DuplicateCondition'', ''MisleadingAndOr'',
      ''CommentDirective'', ''IntegerParsing'', ''ComparisonPrecedence'', ''RedundantNativeAttribute'']"

abbreviation (input) Code_Unknown :: nat where "Code_Unknown \<equiv> 0"
abbreviation (input) Code_Count :: nat where "Code_Count \<equiv> 30"

text \<open>The characters before the first NUL, as \<open>strcmp\<close> sees a string.\<close>

definition c_str :: "string \<Rightarrow> string" where
  "c_str s = takeWhile (\<lambda>c. c \<noteq> CHR 0x00) s"

fun parseName_loop :: "string \<Rightarrow> nat list \<Rightarrow> nat" where
  "parseName_loop name [] = Code_Unknown"
| "parseName_loop name (code # codes) = (if c_str name = kWarningNames ! code then code else parseName_loop name codes)"

definition parseName :: "string \<Rightarrow> nat" where
  "parseName name = parseName_loop name [0..<Code_Count]"

text \<open>\<open>--!nolint\<close> comments: whether the comment is in the header, and its text.\<close>

record HotComment =
  header :: bool
  content :: string

fun parseMask_loop :: "HotComment list \<Rightarrow> 64 word \<Rightarrow> 64 word" where
  "parseMask_loop [] result = result"
| "parseMask_loop (hc # hcs) result =
     (if \<not> header hc then parseMask_loop hcs result
      else if take 6 (content hc) \<noteq> ''nolint'' then parseMask_loop hcs result
      else
        let blanks = length (takeWhile (\<lambda>c. c = CHR '' '' \<or> c = CHR 0x09) (drop 6 (content hc))); name = 6 + blanks in
        if name \<ge> length (content hc) then NOT 0
        else if name = 6 then parseMask_loop hcs result
        else
          let code = parseName (drop name (content hc)) in
          parseMask_loop hcs (if code \<noteq> Code_Unknown then result OR push_bit code 1 else result))"

definition parseMask :: "HotComment list \<Rightarrow> 64 word" where
  "parseMask hotcomments = parseMask_loop hotcomments 0"

section \<open>The configuration\<close>

datatype Mode = NoCheck | Nonstrict | Strict | Definition

text \<open>\<open>aliases\<close> is a map; an association list keeps it finite. \<open>configLocation\<close> is empty when it is not known.\<close>

record AliasInfo =
  alias_value :: string
  configLocation :: string
  originalCase :: string

record Config =
  mode :: Mode
  enabledLint :: LintOptions
  fatalLint :: LintOptions
  lintErrors :: bool
  typeErrors :: bool
  globals :: "string list"
  aliases :: "(string \<times> AliasInfo) list"

definition new_config :: Config where
  "new_config = \<lparr>mode = Nonstrict, enabledLint = setDefaults, fatalLint = 0, lintErrors = False, typeErrors = True,
     globals = [], aliases = []\<rparr>"

definition lower_char :: "char \<Rightarrow> char" where
  "lower_char c = (if 65 \<le> (of_char c :: nat) \<and> (of_char c :: nat) \<le> 90 then char_of (of_char c + 32 :: nat) else c)"

definition toLower :: "string \<Rightarrow> string" where
  "toLower s = map lower_char s"

definition setAlias :: "Config \<Rightarrow> string \<Rightarrow> string \<Rightarrow> Config" where
  "setAlias config alias val =
     config\<lparr>aliases := AList.update (toLower alias)
       \<lparr>alias_value = val, configLocation = [], originalCase = alias\<rparr> (aliases config)\<rparr>"

definition setAlias_at :: "Config \<Rightarrow> string \<Rightarrow> string \<Rightarrow> string \<Rightarrow> Config" where
  "setAlias_at config alias val location =
     (let lowercasedAlias = toLower alias; config = setAlias config alias val in
      case map_of (aliases config) lowercasedAlias of
        None \<Rightarrow> config
      | Some info \<Rightarrow> config\<lparr>aliases := AList.update lowercasedAlias (info\<lparr>configLocation := location\<rparr>) (aliases config)\<rparr>)"

definition has_alias :: "Config \<Rightarrow> string \<Rightarrow> bool" where
  "has_alias config alias \<longleftrightarrow> map_of (aliases config) alias \<noteq> None"

text \<open>
  The parsers return the new state and the error, if any. \<open>Error\<close> is \<open>std::optional<std::string>\<close>; on an
  error the changes made before it stay, as in the code, where the settings are passed by reference.
\<close>

type_synonym Error = "string option"

definition quote :: string where
  "quote = [CHR 0x27]"

definition parseBoolean :: "string \<Rightarrow> bool \<Rightarrow> Error \<times> bool" where
  "parseBoolean val result =
     (if val = ''true'' then (None, True)
      else if val = ''false'' then (None, False)
      else (Some (''Bad setting '' @ quote @ val @ quote @ ''.  Valid options are true and false''), result))"

definition parseModeString :: "string \<Rightarrow> bool \<Rightarrow> Mode \<Rightarrow> Error \<times> Mode" where
  "parseModeString modeString old_style m =
     (if modeString = ''nocheck'' then (None, NoCheck)
      else if modeString = ''strict'' then (None, Strict)
      else if modeString = ''nonstrict'' then (None, Nonstrict)
      else if modeString = ''noinfer'' \<and> old_style then (None, NoCheck)
      else (Some (''Bad mode \"'' @ modeString @ ''\".  Valid options are nocheck, nonstrict, and strict''), m))"

definition parseLintRuleStringForCode ::
    "nat \<Rightarrow> string \<Rightarrow> bool \<Rightarrow> LintOptions \<times> LintOptions \<Rightarrow> Error \<times> LintOptions \<times> LintOptions" where
  "parseLintRuleStringForCode code val old_style lints =
     (let (enabledLints, fatalLints) = lints in
      if val = ''true'' then (None, enableWarning enabledLints code, fatalLints)
      else if val = ''false'' then (None, disableWarning enabledLints code, fatalLints)
      else if old_style then
        if val = ''enabled'' then (None, enableWarning enabledLints code, disableWarning fatalLints code)
        else if val = ''disabled'' then (None, disableWarning enabledLints code, disableWarning fatalLints code)
        else if val = ''fatal'' then (None, enableWarning enabledLints code, enableWarning fatalLints code)
        else (Some (''Bad setting '' @ quote @ val @ quote @ ''.  Valid options are enabled, disabled, and fatal''), lints)
      else (Some (''Bad setting '' @ quote @ val @ quote @ ''.  Valid options are true and false''), lints))"

fun lint_all :: "string \<Rightarrow> string \<Rightarrow> bool \<Rightarrow> nat list \<Rightarrow> LintOptions \<times> LintOptions \<Rightarrow> Error \<times> LintOptions \<times> LintOptions" where
  "lint_all warningName val old_style [] lints = (None, lints)"
| "lint_all warningName val old_style (code # codes) lints =
     (case parseLintRuleStringForCode code val old_style lints of
        (Some err, lints) \<Rightarrow> (Some (''In key '' @ warningName @ '': '' @ err), lints)
      | (None, lints) \<Rightarrow> lint_all warningName val old_style codes lints)"

definition parseLintRuleString ::
    "string \<Rightarrow> string \<Rightarrow> bool \<Rightarrow> LintOptions \<times> LintOptions \<Rightarrow> Error \<times> LintOptions \<times> LintOptions" where
  "parseLintRuleString warningName val old_style lints =
     (if warningName = ''*'' then lint_all warningName val old_style [Code_Unknown..<Code_Count] lints
      else
        let code = parseName warningName in
        if code = Code_Unknown then (Some (''Unknown lint '' @ warningName), lints)
        else
          case parseLintRuleStringForCode code val old_style lints of
            (Some err, lints) \<Rightarrow> (Some (''In key '' @ warningName @ '': '' @ err), lints)
          | (None, lints) \<Rightarrow> (None, lints))"

definition alias_char :: "char \<Rightarrow> bool" where
  "alias_char ch \<longleftrightarrow>
     (let n = of_char ch :: nat in
      65 \<le> n \<and> n \<le> 90 \<or> 97 \<le> n \<and> n \<le> 122 \<or> 48 \<le> n \<and> n \<le> 57 \<or> ch = CHR ''-'' \<or> ch = CHR ''_'' \<or> ch = CHR ''.'')"

definition isValidAlias :: "string \<Rightarrow> bool" where
  "isValidAlias alias \<longleftrightarrow>
     alias \<noteq> [] \<and>
     (alias \<noteq> ''.'' \<and> alias \<noteq> ''..'' \<and> (\<forall>c \<in> set alias. c \<noteq> CHR 0x5C \<and> c \<noteq> CHR ''/'')) \<and>
     (\<forall>i \<in> {0..<length alias}. i = 0 \<and> alias ! i = CHR ''@'' \<or> alias_char (alias ! i))"

record AliasOptions =
  opt_location :: "string option"
  overwriteAliases :: bool

record ConfigOptions =
  opt_compat :: bool
  aliasOptions :: "AliasOptions option"

definition parseAlias :: "string \<Rightarrow> string \<Rightarrow> AliasOptions option \<Rightarrow> Config \<Rightarrow> Error \<times> Config" where
  "parseAlias aliasKey aliasValue opts config =
     (if \<not> isValidAlias aliasKey then (Some (''Invalid alias '' @ aliasKey), config)
      else
        case opts of
          None \<Rightarrow> (Some ''Cannot parse aliases without alias options'', config)
        | Some opts \<Rightarrow>
            (None,
             if overwriteAliases opts \<or> \<not> has_alias config aliasKey then
               (case opt_location opts of
                  Some location \<Rightarrow> setAlias_at config aliasKey aliasValue location
                | None \<Rightarrow> setAlias config aliasKey aliasValue)
             else config))"

section \<open>The JSON dialect of \<open>.luaurc\<close>\<close>

text \<open>
  A lexeme: its type, its text (for strings without the quotes), its line and what \<open>Lexeme::toString\<close> gives. A lexer holds
  the lexemes that \<open>next\<close> has still to deliver, without comments, and the line where the file ends; there
  \<open>current\<close> is \<open>Eof\<close>.
\<close>

datatype lexeme_type = LChar char | QuotedString | ReservedTrue | ReservedFalse | Eof | OtherLexeme

record Lexeme =
  lex_type :: lexeme_type
  lex_data :: string
  lex_line :: nat
  lex_shown :: string

type_synonym Lexer = "Lexeme list \<times> nat"

fun current :: "Lexer \<Rightarrow> Lexeme" where
  "current ([], line) = \<lparr>lex_type = Eof, lex_data = [], lex_line = line, lex_shown = ''<eof>''\<rparr>"
| "current (t # ts, line) = t"

fun next_lexeme :: "Lexer \<Rightarrow> Lexer" where
  "next_lexeme (ts, line) = (tl ts, line)"

abbreviation cur_type :: "Lexer \<Rightarrow> lexeme_type" where
  "cur_type l \<equiv> lex_type (current l)"

definition json_fail :: "Lexer \<Rightarrow> string \<Rightarrow> string" where
  "json_fail lexer message =
     ''Expected '' @ message @ '' at line '' @ show_nat (lex_line (current lexer) + 1) @ '', got '' @
       lex_shown (current lexer) @ '' instead''"

text \<open>After a value: a comma is skipped, otherwise the closing bracket must follow.\<close>

definition json_sep :: "char \<Rightarrow> string \<Rightarrow> Lexer \<Rightarrow> string + Lexer" where
  "json_sep close message lexer =
     (if cur_type lexer = LChar (CHR '','') then Inr (next_lexeme lexer)
      else if cur_type lexer \<noteq> LChar close then Inl (json_fail lexer message)
      else Inr lexer)"

definition json_value :: "Lexer \<Rightarrow> string" where
  "json_value lexer =
     (if cur_type lexer = QuotedString then lex_data (current lexer)
      else if cur_type lexer = ReservedTrue then ''true'' else ''false'')"

type_synonym 'c json_action = "string list \<Rightarrow> string \<Rightarrow> 'c \<Rightarrow> Error \<times> 'c"

lemma next_shorter [termination_simp]:
  "cur_type l = ty \<Longrightarrow> ty \<noteq> Eof \<Longrightarrow> length (fst (next_lexeme l)) < length (fst l)"
  by (cases l rule: current.cases) auto

lemma next_le: "length (fst (next_lexeme l)) \<le> length (fst l)"
  by (cases l) simp

lemma json_sep_le: "json_sep close message l = Inr rest \<Longrightarrow> length (fst rest) \<le> length (fst l)"
  using next_le [of l] by (auto simp: json_sep_def split: if_split_asm)

lemma current_nonempty: "cur_type (ts, line) = QuotedString \<Longrightarrow> 0 < length ts"
  by (cases ts) auto

definition expect_close :: "char \<Rightarrow> string" where
  "expect_close close = quote @ '','' @ quote @ '' or '' @ quote @ [close] @ quote"

function parseJson_loop :: "'c json_action \<Rightarrow> Lexer \<Rightarrow> string list \<Rightarrow> bool \<Rightarrow> 'c \<Rightarrow> Error \<times> 'c" where
  "parseJson_loop action lexer keys arrayTop c =
     (if arrayTop then
        if cur_type lexer = LChar (CHR '']'') then
          (case json_sep (CHR ''}'') (expect_close (CHR ''}'')) (next_lexeme lexer) of
             Inl err \<Rightarrow> (Some err, c)
           | Inr rest \<Rightarrow> parseJson_loop action rest (butlast keys) False c)
        else if cur_type lexer = QuotedString then
          (case action keys (lex_data (current lexer)) c of
             (Some err, c) \<Rightarrow> (Some err, c)
           | (None, c) \<Rightarrow>
               (case json_sep (CHR '']'') (expect_close (CHR '']'')) (next_lexeme lexer) of
                  Inl err \<Rightarrow> (Some err, c)
                | Inr rest \<Rightarrow> parseJson_loop action rest keys True c))
        else (Some (json_fail lexer (''array element or '' @ quote @ '']'' @ quote)), c)
      else if cur_type lexer = LChar (CHR ''}'') then
        if keys = [] then
          if cur_type (next_lexeme lexer) \<noteq> Eof then (Some (json_fail (next_lexeme lexer) ''end of file''), c) else (None, c)
        else
          (case json_sep (CHR ''}'') (expect_close (CHR ''}'')) (next_lexeme lexer) of
             Inl err \<Rightarrow> (Some err, c)
           | Inr rest \<Rightarrow> parseJson_loop action rest (butlast keys) False c)
      else if cur_type lexer = QuotedString then
        let keys = keys @ [lex_data (current lexer)]; colon = next_lexeme lexer; val = next_lexeme colon in
        if cur_type colon \<noteq> LChar (CHR '':'') then (Some (json_fail colon (quote @ '':'' @ quote)), c)
        else if cur_type val = LChar (CHR ''{'') \<or> cur_type val = LChar (CHR ''['') then
          parseJson_loop action (next_lexeme val) keys (cur_type val = LChar (CHR ''['')) c
        else if cur_type val = QuotedString \<or> cur_type val = ReservedTrue \<or> cur_type val = ReservedFalse then
          (case action keys (json_value val) c of
             (Some err, c) \<Rightarrow> (Some err, c)
           | (None, c) \<Rightarrow>
               (case json_sep (CHR ''}'') (expect_close (CHR ''}'')) (next_lexeme val) of
                  Inl err \<Rightarrow> (Some err, c)
                | Inr rest \<Rightarrow> parseJson_loop action rest (butlast keys) False c))
        else (Some (json_fail val ''field value''), c)
      else (Some (json_fail lexer ''field key''), c))"
  by pat_completeness auto

termination
  apply (relation "measure (\<lambda>(action, lexer, keys, arrayTop, c). length (fst lexer))")
        apply (auto dest!: json_sep_le intro: le_less_trans next_shorter less_le_trans next_le)
    apply (drule current_nonempty, arith)+
  done

declare parseJson_loop.simps [simp del]

text \<open>\<open>parseJson\<close> on the lexemes of the contents.\<close>

definition parseJson :: "Lexer \<Rightarrow> 'c json_action \<Rightarrow> 'c \<Rightarrow> Error \<times> 'c" where
  "parseJson lexer action c =
     (if cur_type lexer \<noteq> LChar (CHR ''{'') then (Some (json_fail lexer (quote @ ''{'' @ quote)), c)
      else parseJson_loop action (next_lexeme lexer) [] False c)"

fun join_with :: "string \<Rightarrow> string list \<Rightarrow> string" where
  "join_with delimiter [] = []"
| "join_with delimiter [s] = s"
| "join_with delimiter (s # ss) = s @ delimiter @ join_with delimiter ss"

definition config_action :: "ConfigOptions \<Rightarrow> Config json_action" where
  "config_action options keys val config =
     (if length keys = 1 \<and> keys ! 0 = ''languageMode'' then
        let (err, m) = parseModeString val (opt_compat options) (mode config) in (err, config\<lparr>mode := m\<rparr>)
      else if length keys = 2 \<and> keys ! 0 = ''lint'' then
        let (err, e, f) = parseLintRuleString (keys ! 1) val (opt_compat options) (enabledLint config, fatalLint config) in
        (err, config\<lparr>enabledLint := e, fatalLint := f\<rparr>)
      else if length keys = 1 \<and> keys ! 0 = ''lintErrors'' then
        let (err, b) = parseBoolean val (lintErrors config) in (err, config\<lparr>lintErrors := b\<rparr>)
      else if length keys = 1 \<and> keys ! 0 = ''typeErrors'' then
        let (err, b) = parseBoolean val (typeErrors config) in (err, config\<lparr>typeErrors := b\<rparr>)
      else if length keys = 1 \<and> keys ! 0 = ''globals'' then (None, config\<lparr>globals := globals config @ [val]\<rparr>)
      else if length keys = 2 \<and> keys ! 0 = ''aliases'' then parseAlias (keys ! 1) val (aliasOptions options) config
      else if opt_compat options \<and> length keys = 2 \<and> keys ! 0 = ''language'' \<and> keys ! 1 = ''mode'' then
        let (err, m) = parseModeString val (opt_compat options) (mode config) in (err, config\<lparr>mode := m\<rparr>)
      else (Some (''Unknown key '' @ join_with ''/'' keys), config))"

text \<open>\<open>parseConfig\<close>; \<open>json_lexer\<close> is the lexer on the contents.\<close>

definition parseConfig :: "(string \<Rightarrow> Lexer) \<Rightarrow> string \<Rightarrow> ConfigOptions \<Rightarrow> Config \<Rightarrow> Error \<times> Config" where
  "parseConfig json_lexer contents options config = parseJson (json_lexer contents) (config_action options) config"

section \<open>The table of a \<open>.config.luau\<close>\<close>

text \<open>
  \<open>ConfigTable\<close>: the entries in the order in which the hash map iterates over them. The keys are different, and the
  theorems hold for every order.
\<close>

datatype ConfigTableKey = KStr string | KNum double

datatype ConfigValue = CStr string | CNum double | CBool bool | CTab "(ConfigTableKey \<times> ConfigValue) list"

type_synonym ConfigTable = "(ConfigTableKey \<times> ConfigValue) list"

text \<open>
  An error message, or what is no result in C++: the conversion of a double outside of the range of \<open>size_t\<close>, a
  string made from a null pointer, an insertion of the empty string into a hash map whose marker for a free place is
  the empty string (an assertion fails), and a run that does not come back, because the file runs forever or the
  nested calls exhaust the C stack.
\<close>

datatype config_error = Message string | UndefinedCast | NullString | EmptyKey | NoReturn

definition num2size :: "double \<Rightarrow> nat option" where
  "num2size d = (if d_finite d \<and> 0 \<le> d_trunc d \<and> d_trunc d < 2 ^ 64 then Some (nat (d_trunc d)) else None)"

definition of_bool_string :: "bool \<Rightarrow> string" where
  "of_bool_string enabled = (if enabled then ''true'' else ''false'')"

definition msg :: "string \<Rightarrow> config_error option" where
  "msg s = Some (Message s)"

abbreviation dq :: "string \<Rightarrow> string" where
  "dq s \<equiv> CHR 0x22 # s @ [CHR 0x22]"

fun lint_entries :: "ConfigTable \<Rightarrow> LintOptions \<times> LintOptions \<Rightarrow> config_error option \<times> LintOptions \<times> LintOptions" where
  "lint_entries [] lints = (None, lints)"
| "lint_entries ((KNum d, v) # es) lints = (msg (''configuration keys in '' @ dq ''lint'' @ '' table must be strings''), lints)"
| "lint_entries ((KStr warningName, v) # es) lints =
     (if warningName = ''*'' then lint_entries es lints
      else
        case v of
          CBool enabled \<Rightarrow>
            (case parseLintRuleString warningName (of_bool_string enabled) False lints of
               (Some err, lints) \<Rightarrow> (msg err, lints)
             | (None, lints) \<Rightarrow> lint_entries es lints)
        | _ \<Rightarrow> (msg (''configuration values in '' @ dq ''lint'' @ '' table must be booleans''), lints))"

definition config_lint :: "ConfigTable \<Rightarrow> LintOptions \<times> LintOptions \<Rightarrow> config_error option \<times> LintOptions \<times> LintOptions" where
  "config_lint lint lints =
     (case map_of lint (KStr ''*'') of
        Some (CBool enabled) \<Rightarrow>
          (case parseLintRuleString ''*'' (of_bool_string enabled) False lints of
             (Some err, lints) \<Rightarrow> (msg err, lints)
           | (None, lints) \<Rightarrow> lint_entries lint lints)
      | Some _ \<Rightarrow> (msg (''configuration values in '' @ dq ''lint'' @ '' table must be booleans''), lints)
      | None \<Rightarrow> lint_entries lint lints)"

fun globals_loop :: "nat \<Rightarrow> ConfigTable \<Rightarrow> string list \<Rightarrow> config_error option \<times> string list" where
  "globals_loop n [] gs = (None, gs)"
| "globals_loop n ((KStr s, v) # es) gs =
     (msg (''configuration array '' @ dq ''globals'' @ '' must only have numeric keys''), gs)"
| "globals_loop n ((KNum d, v) # es) gs =
     (case num2size d of
        None \<Rightarrow> (Some UndefinedCast, gs)
      | Some index \<Rightarrow>
          if index < 1 \<or> n < index
          then (msg (''configuration array '' @ dq ''globals'' @ '' contains invalid numeric key''), gs)
          else
            case v of
              CStr global \<Rightarrow> globals_loop n es (gs[index - 1 := global])
            | _ \<Rightarrow> (msg (''configuration value in '' @ dq ''globals'' @ '' table must be a string''), gs))"

fun alias_entries :: "AliasOptions option \<Rightarrow> ConfigTable \<Rightarrow> Config \<Rightarrow> config_error option \<times> Config" where
  "alias_entries opts [] config = (None, config)"
| "alias_entries opts ((KNum d, v) # es) config =
     (msg (''configuration keys in '' @ dq ''aliases'' @ '' table must be strings''), config)"
| "alias_entries opts ((KStr aliasKey, v) # es) config =
     (case v of
        CStr aliasValue \<Rightarrow>
          (case parseAlias aliasKey aliasValue opts config of
             (Some err, config) \<Rightarrow> (msg err, config)
           | (None, config) \<Rightarrow> alias_entries opts es config)
      | _ \<Rightarrow> (msg (''configuration values in '' @ dq ''aliases'' @ '' table must be strings''), config))"

text \<open>One entry of the table \<open>luau\<close>; other keys are ignored.\<close>

definition config_entry :: "AliasOptions option \<Rightarrow> string \<Rightarrow> ConfigValue \<Rightarrow> Config \<Rightarrow> config_error option \<times> Config" where
  "config_entry opts key v config =
     (if key = ''languagemode'' then
        (case v of
           CStr val \<Rightarrow> let (err, m) = parseModeString val False (mode config) in (map_option Message err, config\<lparr>mode := m\<rparr>)
         | _ \<Rightarrow> (msg (''configuration value for key '' @ dq key @ '' must be a string''), config))
      else if key = ''lint'' then
        (case v of
           CTab lint \<Rightarrow>
             let (err, e, f) = config_lint lint (enabledLint config, fatalLint config) in
             (err, config\<lparr>enabledLint := e, fatalLint := f\<rparr>)
         | _ \<Rightarrow> (msg (''configuration value for key '' @ dq key @ '' must be a table''), config))
      else if key = ''linterrors'' then
        (case v of
           CBool b \<Rightarrow> (None, config\<lparr>lintErrors := b\<rparr>)
         | _ \<Rightarrow> (msg (''configuration value for key '' @ dq key @ '' must be a boolean''), config))
      else if key = ''typeerrors'' then
        (case v of
           CBool b \<Rightarrow> (None, config\<lparr>typeErrors := b\<rparr>)
         | _ \<Rightarrow> (msg (''configuration value for key '' @ dq key @ '' must be a boolean''), config))
      else if key = ''globals'' then
        (case v of
           CTab gt \<Rightarrow>
             (case globals_loop (length gt) gt (replicate (length gt) []) of
                (Some err, _) \<Rightarrow> (Some err, config)
              | (None, gs) \<Rightarrow> (None, config\<lparr>globals := gs\<rparr>))
         | _ \<Rightarrow> (msg (''configuration value for key '' @ dq key @ '' must be an array of strings''), config))
      else if key = ''aliases'' then
        (case v of
           CTab tab \<Rightarrow> alias_entries opts tab config
         | _ \<Rightarrow> (msg (''configuration value for key '' @ dq key @ '' must be a table''), config))
      else (None, config))"

fun createLuauConfigFromLuauTable :: "AliasOptions option \<Rightarrow> ConfigTable \<Rightarrow> Config \<Rightarrow> config_error option \<times> Config" where
  "createLuauConfigFromLuauTable opts [] config = (None, config)"
| "createLuauConfigFromLuauTable opts ((KNum d, v) # es) config =
     (msg (''configuration keys in '' @ dq ''luau'' @ '' table must be strings''), config)"
| "createLuauConfigFromLuauTable opts ((KStr key, v) # es) config =
     (case config_entry opts key v config of
        (Some err, config) \<Rightarrow> (Some err, config)
      | (None, config) \<Rightarrow> createLuauConfigFromLuauTable opts es config)"

definition parseLuauConfigTable :: "ConfigTable \<Rightarrow> AliasOptions option \<Rightarrow> Config \<Rightarrow> config_error option \<times> Config" where
  "parseLuauConfigTable configTable opts config =
     (case map_of configTable (KStr ''luau'') of
        None \<Rightarrow> (None, config)
      | Some (CTab luauTable) \<Rightarrow> createLuauConfigFromLuauTable opts luauTable config
      | Some _ \<Rightarrow> (msg (''configuration value for key '' @ dq ''luau'' @ '' must be a table''), config))"

section \<open>Running a \<open>.config.luau\<close>\<close>

text \<open>
  How the virtual machine ends: the source does not compile, the run breaks or yields, fails with an error object,
  goes on forever (without an interrupt callback that stops it), or leaves values and the tables of the heap.
\<close>

datatype RunResult = LoadFailed string | Broken | Failed TValue | RunsForever | Finished "TValue list" "LuaTable list"

text \<open>
  The parameters: the machine, the formats of numbers (\<open>lua_tostring\<close> and \<open>std::to_string\<close>), the order in which the
  hash map iterates over its entries, and the number of nested calls of \<open>serializeTable\<close> that the C stack has room for.
\<close>

record ConfigVM =
  vm_run :: "string \<Rightarrow> RunResult"
  vm_num2str :: "double \<Rightarrow> string"
  vm_to_string :: "double \<Rightarrow> string"
  vm_order :: "ConfigTable \<Rightarrow> ConfigTable"
  vm_stack :: nat

text \<open>A \<open>std::string\<close> made from the pointer that \<open>lua_tostring\<close> gives ends at the first zero byte.\<close>

definition c_string :: "byte list \<Rightarrow> string" where
  "c_string bs = map (\<lambda>b. char_of (unat b)) (takeWhile (\<lambda>b. b \<noteq> 0) bs)"

definition config_key :: "TValue \<Rightarrow> ConfigTableKey option" where
  "config_key k = (case k of TNumber d \<Rightarrow> Some (KNum d) | TString s \<Rightarrow> Some (KStr (c_string s)) | _ \<Rightarrow> None)"

definition key_string :: "ConfigVM \<Rightarrow> ConfigTableKey \<Rightarrow> string" where
  "key_string vm k = (case k of KNum d \<Rightarrow> vm_to_string vm d | KStr s \<Rightarrow> s)"

definition serialize_value ::
    "ConfigVM \<Rightarrow> (nat \<Rightarrow> config_error + ConfigTable) \<Rightarrow> ConfigTableKey \<Rightarrow> TValue \<Rightarrow> config_error + ConfigValue" where
  "serialize_value vm nested key v =
     (case v of
        TNumber d \<Rightarrow> Inr (CNum d)
      | TString s \<Rightarrow> Inr (CStr (c_string s))
      | TBoolean b \<Rightarrow> Inr (CBool b)
      | TGc LUA_TTABLE a \<Rightarrow> bindE (nested a) (\<lambda>tab. Inr (CTab tab))
      | _ \<Rightarrow> Inl (Message (''configuration value for key '' @ dq (key_string vm key) @
               '' must be a string, number, boolean, or nested table'')))"

text \<open>
  The loop of \<open>serializeTable\<close>; \<open>nested\<close> is the recursive call. A table that does not change has at most as many
  rounds as it has slots, and one more.
\<close>

fun serialize_loop ::
    "ConfigVM \<Rightarrow> (nat \<Rightarrow> config_error + ConfigTable) \<Rightarrow> LuaTable \<Rightarrow> nat \<Rightarrow> TValue \<Rightarrow> ConfigTable \<Rightarrow> config_error + ConfigTable" where
  "serialize_loop vm nested t 0 key tab = Inl NoReturn"
| "serialize_loop vm nested t (Suc n) key tab =
     (case luaH_next t key of
        Inl e \<Rightarrow> Inl NoReturn
      | Inr None \<Rightarrow> Inr tab
      | Inr (Some (k, v)) \<Rightarrow>
          (case config_key k of
             None \<Rightarrow> Inl (Message ''configuration table keys must be strings or numbers'')
           | Some ck \<Rightarrow>
               bindE (serialize_value vm nested ck v) (\<lambda>cv.
               if ck = KStr [] then Inl EmptyKey else serialize_loop vm nested t n k (AList.update ck cv tab))))"

fun serializeTable :: "ConfigVM \<Rightarrow> LuaTable list \<Rightarrow> nat \<Rightarrow> nat \<Rightarrow> config_error + ConfigTable" where
  "serializeTable vm h 0 a = Inl NoReturn"
| "serializeTable vm h (Suc depth) a =
     bindE (serialize_loop vm (serializeTable vm h depth) (h ! a) (sizearray (h ! a) + length (node (h ! a)) + 1) TNil []) (\<lambda>tab.
     Inr (vm_order vm tab))"

text \<open>\<open>extractConfig\<close>: an error object that is neither a string nor a number gives a null pointer.\<close>

definition extractConfig :: "ConfigVM \<Rightarrow> string \<Rightarrow> config_error + ConfigTable" where
  "extractConfig vm source =
     (case vm_run vm source of
        LoadFailed err \<Rightarrow> Inl (Message err)
      | Broken \<Rightarrow> Inl (Message ''configuration execution cannot yield'')
      | Failed v \<Rightarrow>
          (case v of
             TString s \<Rightarrow> Inl (Message (c_string s))
           | TNumber d \<Rightarrow> Inl (Message (vm_num2str vm d))
           | _ \<Rightarrow> Inl NullString)
      | RunsForever \<Rightarrow> Inl NoReturn
      | Finished vs h \<Rightarrow>
          if length vs \<noteq> 1 then Inl (Message ''configuration must return exactly one value'')
          else
            case vs ! 0 of
              TGc LUA_TTABLE a \<Rightarrow> serializeTable vm h (vm_stack vm) a
            | _ \<Rightarrow> Inl (Message ''configuration did not return a table''))"

definition extractLuauConfig :: "ConfigVM \<Rightarrow> string \<Rightarrow> AliasOptions option \<Rightarrow> Config \<Rightarrow> config_error option \<times> Config" where
  "extractLuauConfig vm contents opts config =
     (case extractConfig vm contents of
        Inl err \<Rightarrow> (Some err, config)
      | Inr configTable \<Rightarrow> parseLuauConfigTable configTable opts config)"

section \<open>Documents\<close>

text \<open>
  A document: objects nest, arrays hold strings. \<open>leaves\<close> lists its values with the keys that lead to them, in the
  order of the text.
\<close>

datatype Json = JStr string | JBool bool | JArr "string list" | JObj "(string \<times> Json) list"

fun leaves :: "string list \<Rightarrow> Json \<Rightarrow> (string list \<times> string) list" where
  "leaves keys (JStr s) = [(keys, s)]"
| "leaves keys (JBool b) = [(keys, if b then ''true'' else ''false'')]"
| "leaves keys (JArr ss) = map (Pair keys) ss"
| "leaves keys (JObj fs) = concat (map (\<lambda>(k, v). leaves (keys @ [k]) v) fs)"

definition is_char :: "char \<Rightarrow> Lexeme \<Rightarrow> bool" where
  "is_char x t \<longleftrightarrow> lex_type t = LChar x"

definition is_string :: "string \<Rightarrow> Lexeme \<Rightarrow> bool" where
  "is_string s t \<longleftrightarrow> lex_type t = QuotedString \<and> lex_data t = s"

text \<open>The lexemes of a document; a comma may follow the last element of an array or field of an object.\<close>

inductive lexed_elems :: "string list \<Rightarrow> Lexeme list \<Rightarrow> bool" where
  "lexed_elems [] []"
| "is_string s t \<Longrightarrow> lexed_elems [s] [t]"
| "is_string s t \<Longrightarrow> is_char (CHR '','') c \<Longrightarrow> lexed_elems ss ts \<Longrightarrow> lexed_elems (s # ss) (t # c # ts)"

inductive lexed :: "Json \<Rightarrow> Lexeme list \<Rightarrow> bool"
  and lexed_fields :: "(string \<times> Json) list \<Rightarrow> Lexeme list \<Rightarrow> bool" where
  "is_string s t \<Longrightarrow> lexed (JStr s) [t]"
| "lex_type t = (if b then ReservedTrue else ReservedFalse) \<Longrightarrow> lexed (JBool b) [t]"
| "is_char (CHR ''['') l \<Longrightarrow> lexed_elems ss ts \<Longrightarrow> is_char (CHR '']'') r \<Longrightarrow> lexed (JArr ss) (l # ts @ [r])"
| "is_char (CHR ''{'') l \<Longrightarrow> lexed_fields fs ts \<Longrightarrow> is_char (CHR ''}'') r \<Longrightarrow> lexed (JObj fs) (l # ts @ [r])"
| "lexed_fields [] []"
| "is_string k t \<Longrightarrow> is_char (CHR '':'') col \<Longrightarrow> lexed v ts \<Longrightarrow> lexed_fields [(k, v)] (t # col # ts)"
| "is_string k t \<Longrightarrow> is_char (CHR '':'') col \<Longrightarrow> lexed v ts \<Longrightarrow> is_char (CHR '','') c \<Longrightarrow> lexed_fields fs us \<Longrightarrow>
    lexed_fields ((k, v) # fs) (t # col # ts @ c # us)"

text \<open>The action on every value in order, up to the first error.\<close>

fun run_action :: "'c json_action \<Rightarrow> (string list \<times> string) list \<Rightarrow> 'c \<Rightarrow> Error \<times> 'c" where
  "run_action action [] c = (None, c)"
| "run_action action ((keys, s) # ls) c =
     (case action keys s c of (Some err, c) \<Rightarrow> (Some err, c) | (None, c) \<Rightarrow> run_action action ls c)"

definition and_then :: "Error \<times> 'c \<Rightarrow> ('c \<Rightarrow> Error \<times> 'c) \<Rightarrow> Error \<times> 'c" where
  "and_then r f = (case r of (Some err, c) \<Rightarrow> (Some err, c) | (None, c) \<Rightarrow> f c)"

lemma and_then_simps [simp]: "and_then (Some e, c) f = (Some e, c)" "and_then (None, c) f = f c"
  by (simp_all add: and_then_def)

lemma and_then_assoc: "and_then (and_then r f) g = and_then r (\<lambda>c. and_then (f c) g)"
  by (auto simp: and_then_def split: prod.split option.split)

lemma run_action_step: "run_action action ((keys, s) # ls) c = and_then (action keys s c) (run_action action ls)"
  by (simp add: and_then_def)

lemma run_action_append: "run_action action (ls @ ms) c = and_then (run_action action ls c) (run_action action ms)"
proof (induction ls arbitrary: c)
  case (Cons l ls)
  have "run_action action (ls @ ms) = (\<lambda>c. and_then (run_action action ls c) (run_action action ms))"
    by (rule ext) (rule Cons.IH)
  then show ?case by (cases l) (simp add: run_action_step and_then_assoc del: run_action.simps(2))
qed simp

text \<open>\<open>follow\<close> is the lexer after the separator that follows a value: a comma is gone.\<close>

definition follow :: "Lexeme list \<Rightarrow> Lexeme list" where
  "follow ts = (if is_char (CHR '','') (hd ts) then tl ts else ts)"

definition ends :: "char \<Rightarrow> Lexeme list \<Rightarrow> bool" where
  "ends close ts \<longleftrightarrow> ts \<noteq> [] \<and> (is_char (CHR '','') (hd ts) \<or> is_char close (hd ts))"

lemma json_sep_ok: "ends close ts \<Longrightarrow> json_sep close m (ts, line) = Inr (follow ts, line)"
  by (cases ts) (auto simp: json_sep_def ends_def follow_def is_char_def)

lemma loop_elems:
  assumes "lexed_elems ss ts" and "is_char (CHR '']'') r"
  shows "parseJson_loop action (ts @ r # rest, line) keys True c =
    and_then (run_action action (map (Pair keys) ss) c) (parseJson_loop action (r # rest, line) keys True)"
  using assms(1)
proof (induction arbitrary: c rule: lexed_elems.induct)
  case (2 s t)
  have "json_sep (CHR '']'') (expect_close (CHR '']'')) (r # rest, line) = Inr (r # rest, line)"
    using assms(2) json_sep_ok [of "CHR '']''" "r # rest"] by (simp add: ends_def follow_def is_char_def)
  then show ?case using 2
    by (subst parseJson_loop.simps) (auto simp: is_string_def and_then_def split: prod.split option.split)
next
  case (3 s t co ss ts)
  have "json_sep (CHR '']'') (expect_close (CHR '']'')) (co # ts @ r # rest, line) = Inr (ts @ r # rest, line)"
    using 3(2) json_sep_ok [of "CHR '']''" "co # ts @ r # rest"] by (simp add: ends_def follow_def is_char_def)
  then show ?case using 3
    by (subst parseJson_loop.simps) (auto simp: is_string_def and_then_def split: prod.split option.split)
qed simp

lemma loop_array_end:
  assumes "is_char (CHR '']'') r" and "ends (CHR ''}'') rest"
  shows "parseJson_loop action (r # rest, line) keys True c = parseJson_loop action (follow rest, line) (butlast keys) False c"
  using assms json_sep_ok [OF assms(2)] by (subst parseJson_loop.simps) (simp add: is_char_def)

lemma loop_object_end:
  assumes "is_char (CHR ''}'') r" and "ends (CHR ''}'') rest" and "keys \<noteq> []"
  shows "parseJson_loop action (r # rest, line) keys False c = parseJson_loop action (follow rest, line) (butlast keys) False c"
  using assms json_sep_ok [OF assms(2)] by (subst parseJson_loop.simps) (simp add: is_char_def)

lemma loop_fields:
  "lexed v ts \<Longrightarrow> is_string k t \<Longrightarrow> is_char (CHR '':'') col \<Longrightarrow> ends (CHR ''}'') rest \<Longrightarrow>
    parseJson_loop action (t # col # ts @ rest, line) keys False c =
    and_then (run_action action (leaves (keys @ [k]) v) c) (parseJson_loop action (follow rest, line) keys False)"
  "lexed_fields fs us \<Longrightarrow> is_char (CHR ''}'') r \<Longrightarrow>
    parseJson_loop action (us @ r # rest, line) keys False c =
    and_then (run_action action (leaves keys (JObj fs)) c) (parseJson_loop action (r # rest, line) keys False)"
proof (induction arbitrary: k t col rest keys c and r rest keys c rule: lexed_lexed_fields.inducts)
  case (1 s x)
  then show ?case using json_sep_ok [OF 1(4)]
    by (subst parseJson_loop.simps) (auto simp: is_string_def is_char_def json_value_def and_then_def split: prod.split option.split)
next
  case (2 x b)
  then show ?case using json_sep_ok [OF 2(4)]
    by (subst parseJson_loop.simps) (auto simp: is_string_def is_char_def json_value_def and_then_def split: prod.split option.split)
next
  case (3 l ss ts r)
  have "parseJson_loop action (t # col # (l # ts @ [r]) @ rest, line) keys False c =
      parseJson_loop action (ts @ r # rest, line) (keys @ [k]) True c"
    using 3 by (subst parseJson_loop.simps) (simp add: is_string_def is_char_def)
  moreover have "parseJson_loop action (r # rest, line) (keys @ [k]) True = parseJson_loop action (follow rest, line) keys False"
    by (rule ext) (simp add: loop_array_end [OF 3(3,6)])
  ultimately show ?case by (simp add: loop_elems [OF 3(2,3)])
next
  case (4 l fs ts r)
  have "parseJson_loop action (t # col # (l # ts @ [r]) @ rest, line) keys False c =
      parseJson_loop action (ts @ r # rest, line) (keys @ [k]) False c"
    using 4 by (subst parseJson_loop.simps) (simp add: is_string_def is_char_def)
  moreover have "parseJson_loop action (r # rest, line) (keys @ [k]) False = parseJson_loop action (follow rest, line) keys False"
    by (rule ext) (simp add: loop_object_end [OF "4.hyps"(3) "4.prems"(3)])
  ultimately show ?case by (simp add: "4.IH" [OF "4.hyps"(3)])
next
  case 5
  show ?case by simp
next
  case (6 k t col v ts)
  have "ends (CHR ''}'') (r # rest)" "follow (r # rest) = r # rest" using 6 by (simp_all add: ends_def follow_def is_char_def)
  then show ?case by (simp add: "6.IH" [OF "6.hyps"(1,2)])
next
  case (7 k t col v ts co fs us)
  have "ends (CHR ''}'') (co # us @ r # rest)" "follow (co # us @ r # rest) = us @ r # rest"
    using 7 by (simp_all add: ends_def follow_def)
  then show ?case by (simp add: "7.IH"(1) [OF "7.hyps"(1,2)] "7.IH"(2) [OF "7.prems"] run_action_append and_then_assoc)
qed

section \<open>Aliases\<close>

text \<open>Every alias stands under the lower case of its name.\<close>

definition aliases_ok :: "Config \<Rightarrow> bool" where
  "aliases_ok config \<longleftrightarrow>
     distinct (map fst (aliases config)) \<and> (\<forall>(k, info) \<in> set (aliases config). k = toLower (originalCase info))"

lemma update_ok:
  assumes "\<forall>(k, info) \<in> set as. P k info" and "P k info"
  shows "\<forall>(k, info) \<in> set (AList.update k info as). P k info"
  using assms by (induction as) auto

lemma setAlias_ok: "aliases_ok config \<Longrightarrow> aliases_ok (setAlias config a v)"
  using update_ok [of "aliases config" "\<lambda>k info. k = toLower (originalCase info)" "toLower a"
      "\<lparr>alias_value = v, configLocation = [], originalCase = a\<rparr>"]
  by (auto simp: aliases_ok_def setAlias_def distinct_update)

lemma setAlias_at_ok:
  assumes "aliases_ok config"
  shows "aliases_ok (setAlias_at config a v l)"
proof -
  let ?c = "setAlias config a v"
  let ?info = "\<lparr>alias_value = v, configLocation = [], originalCase = a\<rparr>"
  have "map_of (aliases ?c) (toLower a) = Some ?info" by (simp add: setAlias_def update_conv)
  then have e: "aliases (setAlias_at config a v l) =
      AList.update (toLower a) (?info\<lparr>configLocation := l\<rparr>) (aliases ?c)"
    by (simp add: setAlias_at_def Let_def)
  have ok: "distinct (map fst (aliases ?c))" "\<forall>(k, info) \<in> set (aliases ?c). k = toLower (originalCase info)"
    using setAlias_ok [OF assms, of a v] by (simp_all add: aliases_ok_def)
  show ?thesis unfolding aliases_ok_def e
    using update_ok [OF ok(2), of "toLower a" "?info\<lparr>configLocation := l\<rparr>"] distinct_update [OF ok(1)] by simp
qed

lemma parseAlias_ok: "aliases_ok config \<Longrightarrow> aliases_ok (snd (parseAlias k v opts config))"
  by (auto simp: parseAlias_def setAlias_ok setAlias_at_ok split: option.split)

lemma aliases_ok_cong: "aliases c = aliases c' \<Longrightarrow> aliases_ok c \<longleftrightarrow> aliases_ok c'"
  by (simp add: aliases_ok_def)

lemma config_action_ok: "aliases_ok config \<Longrightarrow> aliases_ok (snd (config_action options keys v config))"
  unfolding config_action_def using parseAlias_ok [of config "keys ! 1" v "aliasOptions options"]
  by (auto simp: aliases_ok_def split: prod.split)

lemma parseJson_keeps:
  assumes "\<And>keys v c. I c \<Longrightarrow> I (snd (action keys v c))"
  shows "I c \<Longrightarrow> I (snd (parseJson lexer action c))"
proof -
  have "I c \<Longrightarrow> I (snd (parseJson_loop action lexer keys arrayTop c))" for lexer keys arrayTop c
  proof (induction "length (fst lexer)" arbitrary: lexer keys arrayTop c rule: less_induct)
    case less
    have sep: "I (snd (case json_sep close m (next_lexeme l) of Inl err \<Rightarrow> (Some err, d)
        | Inr rest \<Rightarrow> parseJson_loop action rest ks b d))"
      if "I d" "cur_type l \<noteq> Eof" "length (fst l) \<le> length (fst lexer)" for close m l ks b d
      using json_sep_le [of close m "next_lexeme l"] next_shorter [OF refl that(2)] that(1,3)
      by (auto split: sum.split intro!: less.hyps)
    have act: "I (snd (case action ks v d of (Some err, c) \<Rightarrow> (Some err, c) | (None, c) \<Rightarrow> F c))"
      if "I d" "\<And>c. I c \<Longrightarrow> I (snd (F c))" for ks v d F
      using assms [OF that(1), of ks v] that(2) by (auto split: prod.split option.split)
    have n: "length (fst (next_lexeme l)) \<le> length (fst l)" for l by (rule next_le)
    have n2: "length (fst (next_lexeme (next_lexeme l))) \<le> length (fst l)" for l by (meson n order_trans)
    have go: "I (snd (parseJson_loop action (next_lexeme (next_lexeme (next_lexeme lexer))) ks b c))" if "cur_type lexer \<noteq> Eof" for ks b
      using next_shorter [OF refl that] n2 [of "next_lexeme lexer"] less.prems by (auto intro!: less.hyps)
    show ?case
      unfolding parseJson_loop.simps [of action lexer keys arrayTop c] Let_def
      by (simp split del: if_split split: if_splits) (auto intro!: sep act go less.prems n2)
  qed
  then show "I c \<Longrightarrow> I (snd (parseJson lexer action c))" by (simp add: parseJson_def)
qed

lemma alias_entries_ok: "aliases_ok config \<Longrightarrow> aliases_ok (snd (alias_entries opts es config))"
proof (induction opts es config rule: alias_entries.induct)
  case (3 opts k v es config)
  then show ?case
  proof (cases v)
    case (CStr s)
    obtain err config' where p: "parseAlias k s opts config = (err, config')" by (cases "parseAlias k s opts config")
    then have "aliases_ok config'" using parseAlias_ok [OF "3.prems", of k s opts] by simp
    then show ?thesis using 3 CStr p by (cases err) auto
  qed simp_all
qed simp_all

text \<open>The test for an existing alias looks for the name as it is written: another spelling replaces the value.\<close>

lemma alias_other_spelling:
  "alias_value (the (map_of (aliases (snd (run_action (config_action \<lparr>opt_compat = False,
     aliasOptions = Some \<lparr>opt_location = None, overwriteAliases = False\<rparr>\<rparr>)
     [([''aliases'', ''pkg''], ''./a''), ([''aliases'', ''PKG''], ''./b'')] new_config))) ''pkg'')) = ''./b''"
  by code_simp

section \<open>Lint rules\<close>

lemma isEnabled_bit: "isEnabled m code \<longleftrightarrow> bit m code"
proof -
  have "m AND push_bit code 1 = (if bit m code then push_bit code 1 else 0)"
    by (rule bit_word_eqI) (auto simp: bit_simps)
  moreover have "push_bit code (1 :: 64 word) \<noteq> 0" if b: "bit m code"
  proof -
    have "bit (push_bit code (1 :: 64 word)) code" using bit_imp_le_length [OF b] by (simp add: bit_simps)
    then have "push_bit code (1 :: 64 word) = 0 \<Longrightarrow> bit (0 :: 64 word) code" by (simp only:)
    then show ?thesis by auto
  qed
  ultimately show ?thesis by (auto simp: isEnabled_def)
qed

lemma isEnabled_simps:
  "code < 64 \<Longrightarrow> isEnabled (enableWarning m code) d \<longleftrightarrow> d = code \<or> isEnabled m d"
  "isEnabled (disableWarning m code) d \<longleftrightarrow> d \<noteq> code \<and> isEnabled m d"
  by (auto simp: isEnabled_bit enableWarning_def disableWarning_def bit_simps dest: bit_imp_le_length)

lemma rule_for_code:
  assumes "code < 64"
  obtains e' where "parseLintRuleStringForCode code (of_bool_string b) False (e, f) = (None, e', f)"
    "\<And>d. isEnabled e' d = (if d = code then b else isEnabled e d)"
proof (cases b)
  case True
  then show ?thesis using that [of "enableWarning e code"] isEnabled_simps(1) [OF assms]
    by (simp add: parseLintRuleStringForCode_def of_bool_string_def)
next
  case False
  then show ?thesis using that [of "disableWarning e code"] isEnabled_simps(2)
    by (simp add: parseLintRuleStringForCode_def of_bool_string_def)
qed

lemma lint_all_bool:
  "\<forall>code \<in> set codes. code < 64 \<Longrightarrow>
    \<exists>e'. lint_all w (of_bool_string b) False codes (e, f) = (None, e', f) \<and>
      (\<forall>d. isEnabled e' d = (if d \<in> set codes then b else isEnabled e d))"
proof (induction codes arbitrary: e)
  case (Cons code codes)
  then obtain e1 where e1: "parseLintRuleStringForCode code (of_bool_string b) False (e, f) = (None, e1, f)"
    "\<And>d. isEnabled e1 d = (if d = code then b else isEnabled e d)"
    using rule_for_code [of code b e f] by auto
  obtain e2 where "lint_all w (of_bool_string b) False codes (e1, f) = (None, e2, f)"
    "\<forall>d. isEnabled e2 d = (if d \<in> set codes then b else isEnabled e1 d)"
    using Cons.IH [of e1] Cons.prems by auto
  then show ?case using e1 by auto
qed simp

lemma parseName_ok: "1 \<le> code \<Longrightarrow> code < Code_Count \<Longrightarrow> parseName (kWarningNames ! code) = code"
proof -
  have "\<forall>code \<in> set [1..<30]. parseName (kWarningNames ! code) = code" by code_simp
  then show "1 \<le> code \<Longrightarrow> code < Code_Count \<Longrightarrow> parseName (kWarningNames ! code) = code" by simp
qed

lemma names_not_star: "1 \<le> code \<Longrightarrow> code < Code_Count \<Longrightarrow> kWarningNames ! code \<noteq> ''*''"
proof -
  have "\<forall>code \<in> set [1..<30]. kWarningNames ! code \<noteq> ''*''" by code_simp
  then show "1 \<le> code \<Longrightarrow> code < Code_Count \<Longrightarrow> kWarningNames ! code \<noteq> ''*''" by simp
qed

text \<open>A table \<open>lint\<close> in which every key is a rule or the wildcard and every value a boolean.\<close>

definition lint_table :: "ConfigTable \<Rightarrow> bool" where
  "lint_table lint \<longleftrightarrow> distinct (map fst lint) \<and>
     (\<forall>(k, v) \<in> set lint. (k = KStr ''*'' \<or> (\<exists>code \<in> {1..<Code_Count}. k = KStr (kWarningNames ! code))) \<and>
        v \<in> range CBool)"

definition lint_value :: "ConfigTable \<Rightarrow> string \<Rightarrow> bool option" where
  "lint_value lint name = (case map_of lint (KStr name) of Some (CBool b) \<Rightarrow> Some b | _ \<Rightarrow> None)"

lemma lint_entries_bool:
  "lint_table lint \<Longrightarrow> \<exists>e'. lint_entries lint (e, f) = (None, e', f) \<and>
    (\<forall>code. isEnabled e' code =
      (if 1 \<le> code \<and> code < Code_Count
       then case lint_value lint (kWarningNames ! code) of Some b \<Rightarrow> b | None \<Rightarrow> isEnabled e code else isEnabled e code))"
proof (induction lint arbitrary: e)
  case (Cons entry lint)
  obtain k b where entry: "entry = (k, CBool b)" and nk: "KStr k' = k \<Longrightarrow> lint_value lint k' = None" for k'
    using Cons.prems by (cases entry) (force simp: lint_table_def lint_value_def map_of_eq_None_iff [THEN iffD2])
  have lt: "lint_table lint" using Cons.prems by (simp add: lint_table_def)
  consider "k = KStr ''*''" | c where "1 \<le> c" "c < Code_Count" "k = KStr (kWarningNames ! c)"
    using Cons.prems entry by (auto simp: lint_table_def)
  then show ?case
  proof cases
    case 1
    have "lint_value (entry # lint) (kWarningNames ! code) = lint_value lint (kWarningNames ! code)"
      if "1 \<le> code" "code < Code_Count" for code
      using names_not_star [OF that] 1 entry by (simp add: lint_value_def)
    then show ?thesis using Cons.IH [OF lt, of e] 1 entry by auto
  next
    case (2 c)
    obtain e1 where e1: "parseLintRuleStringForCode c (of_bool_string b) False (e, f) = (None, e1, f)"
      "\<And>d. isEnabled e1 d = (if d = c then b else isEnabled e d)"
      using rule_for_code [of c b e f] 2(2) by auto
    have "parseLintRuleString (kWarningNames ! c) (of_bool_string b) False (e, f) = (None, e1, f)"
      using e1(1) parseName_ok [OF 2(1,2)] names_not_star [OF 2(1,2)] 2(1) by (simp add: parseLintRuleString_def)
    then have step: "lint_entries (entry # lint) (e, f) = lint_entries lint (e1, f)"
      using entry 2 names_not_star [OF 2(1,2)] by simp
    have inj: "kWarningNames ! code = kWarningNames ! c \<longleftrightarrow> code = c" if "1 \<le> code" "code < Code_Count" for code
      using parseName_ok [OF that] parseName_ok [OF 2(1,2)] by metis
    have val: "lint_value (entry # lint) (kWarningNames ! code) = (if code = c then Some b else lint_value lint (kWarningNames ! code))"
      if "1 \<le> code" "code < Code_Count" for code
      using inj [OF that] entry 2(3) by (auto simp: lint_value_def)
    obtain e2 where "lint_entries lint (e1, f) = (None, e2, f)"
      "\<And>code. isEnabled e2 code =
        (if 1 \<le> code \<and> code < Code_Count
         then case lint_value lint (kWarningNames ! code) of Some b \<Rightarrow> b | None \<Rightarrow> isEnabled e1 code else isEnabled e1 code)"
      using Cons.IH [OF lt, of e1] by blast
    moreover have "(if 1 \<le> code \<and> code < Code_Count
         then case lint_value lint (kWarningNames ! code) of Some b \<Rightarrow> b | None \<Rightarrow> isEnabled e1 code else isEnabled e1 code) =
        (if 1 \<le> code \<and> code < Code_Count
         then case lint_value (entry # lint) (kWarningNames ! code) of Some b \<Rightarrow> b | None \<Rightarrow> isEnabled e code else isEnabled e code)" for code
      using val [of code] nk [OF 2(3) [symmetric]] 2(1,2) e1(2) [of code]
      by (cases "code = c") (auto split: option.split)
    ultimately show ?thesis unfolding step by blast
  qed
qed (simp add: lint_value_def)

lemma readers_ok:
  assumes "aliases_ok config"
  shows "aliases_ok (snd (parseConfig json_lexer contents options config)) \<and>
    aliases_ok (snd (extractLuauConfig vm contents opts config))"
proof -
  have entry: "aliases_ok (snd (config_entry opts key v c))" if "aliases_ok c" for opts key v c
    using alias_entries_ok [OF that] that unfolding config_entry_def
    by (auto simp: aliases_ok_def split: ConfigValue.split prod.split option.split)
  have "aliases_ok (snd (createLuauConfigFromLuauTable opts tab c))" if "aliases_ok c" for tab c
    using that
  proof (induction opts tab c rule: createLuauConfigFromLuauTable.induct)
    case (3 opts key v es c)
    obtain err c' where c': "config_entry opts key v c = (err, c')" by (cases "config_entry opts key v c")
    then have "aliases_ok c'" using entry [OF "3.prems", of opts key v] by simp
    then show ?case using 3 c' by (cases err) auto
  qed simp_all
  then have "aliases_ok (snd (parseLuauConfigTable tab opts config))" for tab
    using assms by (auto simp: parseLuauConfigTable_def split: option.split ConfigValue.split)
  moreover have "aliases_ok (snd (parseConfig json_lexer contents options config))"
    unfolding parseConfig_def using parseJson_keeps [of aliases_ok, OF config_action_ok assms] .
  ultimately show ?thesis using assms by (auto simp: extractLuauConfig_def split: sum.split)
qed

section \<open>Properties\<close>

text \<open>C35. A lint table means what it says in whatever order the map delivers it: a rule that it names is on or off as the
  table tells, any other rule as the wildcard tells if there is one, and otherwise as before; the fatal rules stay.\<close>

theorem config_lint_meaning:
  assumes "lint_table lint"
  shows "\<exists>e'. config_lint lint (e, f) = (None, e', f) \<and>
    (\<forall>code. 1 \<le> code \<and> code < Code_Count \<longrightarrow> isEnabled e' code =
      (case lint_value lint (kWarningNames ! code) of Some b \<Rightarrow> b
       | None \<Rightarrow> (case lint_value lint ''*'' of Some b \<Rightarrow> b | None \<Rightarrow> isEnabled e code)))"
proof (cases "lint_value lint ''*''")
  case None
  then have "map_of lint (KStr ''*'') = None"
    using assms by (auto simp: lint_value_def lint_table_def split: option.splits ConfigValue.splits dest!: map_of_SomeD)
  then show ?thesis using lint_entries_bool [OF assms, of e f] None by (auto simp: config_lint_def split: option.split)
next
  case (Some b)
  then have "map_of lint (KStr ''*'') = Some (CBool b)"
    by (auto simp: lint_value_def split: option.splits ConfigValue.splits)
  moreover obtain e1 where "parseLintRuleString ''*'' (of_bool_string b) False (e, f) = (None, e1, f)"
    "\<And>code. isEnabled e1 code = (if code < Code_Count then b else isEnabled e code)"
    using lint_all_bool [of "[Code_Unknown..<Code_Count]" "''*''" b e f] by (auto simp: parseLintRuleString_def)
  ultimately show ?thesis using lint_entries_bool [OF assms, of e1 f] Some by (auto simp: config_lint_def split: option.split)
qed

lemma config_lint_meaning_witness:
  "\<exists>e'. config_lint [(KStr ''LocalUnused'', CBool True), (KStr ''*'', CBool False)] (setDefaults, 0) = (None, e', 0) \<and>
    isEnabled e' 7 \<and> \<not> isEnabled e' 8"
proof -
  let ?l = "[(KStr ''LocalUnused'', CBool True), (KStr ''*'', CBool False)]"
  have k: "kWarningNames ! 7 = ''LocalUnused''" "kWarningNames ! 8 = ''FunctionUnused''" by (simp_all add: kWarningNames_def)
  have "KStr ''LocalUnused'' = KStr (kWarningNames ! 7)" using k(1) by simp
  then have "\<exists>code \<in> {1..<Code_Count}. KStr ''LocalUnused'' = KStr (kWarningNames ! code)" by (intro bexI [of _ 7]) simp_all
  then have "lint_table ?l" by (simp add: lint_table_def rangeI)
  then obtain e' where "config_lint ?l (setDefaults, 0) = (None, e', 0)"
    "\<forall>code. 1 \<le> code \<and> code < Code_Count \<longrightarrow> isEnabled e' code =
      (case lint_value ?l (kWarningNames ! code) of Some b \<Rightarrow> b
       | None \<Rightarrow> (case lint_value ?l ''*'' of Some b \<Rightarrow> b | None \<Rightarrow> isEnabled setDefaults code))"
    using config_lint_meaning [of ?l setDefaults 0] by blast
  then show ?thesis using k by (auto simp: lint_value_def dest: spec [of _ 7] spec [of _ 8])
qed

text \<open>The parser reads every document: on the lexemes of an object, nested to any depth and with or without trailing
  commas, it calls the action for the values with their paths of keys, in order, and stops at the first error.\<close>

theorem parseJson_document:
  assumes "lexed (JObj fs) ts"
  shows "parseJson (ts, line) action c = run_action action (leaves [] (JObj fs)) c"
proof -
  obtain l us r where ts: "ts = l # us @ [r]" "is_char (CHR ''{'') l" "lexed_fields fs us" "is_char (CHR ''}'') r"
    using assms by (cases rule: lexed.cases) auto
  have e: "parseJson_loop action ([r], line) [] False = (\<lambda>c. (None, c))"
    using ts(4) by (intro ext) (subst parseJson_loop.simps, simp add: is_char_def)
  have "parseJson (ts, line) action c = parseJson_loop action (us @ [r], line) [] False c"
    using ts by (simp add: parseJson_def is_char_def)
  also have "\<dots> = and_then (run_action action (leaves [] (JObj fs)) c) (\<lambda>c. (None, c))"
    unfolding loop_fields(2) [OF ts(3,4)] e ..
  also have "\<dots> = run_action action (leaves [] (JObj fs)) c" by (auto simp: and_then_def split: prod.split option.split)
  finally show ?thesis .
qed

text \<open>A string and a punctuation lexeme.\<close>

definition string_lex :: "string \<Rightarrow> Lexeme" where
  "string_lex s = \<lparr>lex_type = QuotedString, lex_data = s, lex_line = 0, lex_shown = s\<rparr>"

definition char_lex :: "char \<Rightarrow> Lexeme" where
  "char_lex x = \<lparr>lex_type = LChar x, lex_data = [], lex_line = 0, lex_shown = [x]\<rparr>"

lemma parseJson_document_witness:
  "parseJson ([char_lex (CHR ''{''), string_lex ''globals'', char_lex (CHR '':''), char_lex (CHR ''[''), string_lex ''a'',
      char_lex (CHR '',''), char_lex (CHR '']''), char_lex (CHR '',''), char_lex (CHR ''}'')], 0)
    (\<lambda>keys v log. (None, log @ [(keys, v)])) [] = (None, [([''globals''], ''a'')])"
proof -
  have lex: "is_char x (char_lex x)" "is_string s (string_lex s)" for x s
    by (simp_all add: is_char_def is_string_def char_lex_def string_lex_def)
  have "lexed (JArr [''a'']) (char_lex (CHR ''['') # [string_lex ''a'', char_lex (CHR '','')] @ [char_lex (CHR '']'')])"
    by (intro lexed_lexed_fields.intros lexed_elems.intros lex)
  then have "lexed_fields [(''globals'', JArr [''a''])] (string_lex ''globals'' # char_lex (CHR '':'') #
      (char_lex (CHR ''['') # [string_lex ''a'', char_lex (CHR '','')] @ [char_lex (CHR '']'')]) @ char_lex (CHR '','') # [])"
    by (intro lexed_lexed_fields.intros(5,7) lex)
  from lexed_lexed_fields.intros(4) [OF lex(1) this lex(1)] show ?thesis
    using parseJson_document [where action = "\<lambda>keys v log. (None, log @ [(keys, v)])" and c = "[]" and line = 0] by simp
qed

text \<open>C33. Whatever the contents, and also when they are wrong, both readers of configuration files keep every alias under the
  lower case of its name, each name once.\<close>

theorem config_aliases_lower:
  assumes "aliases_ok config"
  shows "aliases_ok (snd (parseConfig json_lexer contents options config)) \<and>
    aliases_ok (snd (extractLuauConfig vm contents opts config))"
  by (rule readers_ok [OF assms])

text \<open>Two spellings of one name: \<open>{"aliases": {"Pkg": "./a", "PKG": "./b"}}\<close>.\<close>

definition two_spellings :: "Lexeme list" where
  "two_spellings = [char_lex (CHR ''{''), string_lex ''aliases'', char_lex (CHR '':''), char_lex (CHR ''{''),
     string_lex ''Pkg'', char_lex (CHR '':''), string_lex ''./a'', char_lex (CHR '',''),
     string_lex ''PKG'', char_lex (CHR '':''), string_lex ''./b'', char_lex (CHR ''}''), char_lex (CHR ''}'')]"

definition overwriting :: ConfigOptions where
  "overwriting = \<lparr>opt_compat = False, aliasOptions = Some \<lparr>opt_location = None, overwriteAliases = True\<rparr>\<rparr>"

lemma config_aliases_lower_witness:
  "aliases_ok (snd (parseConfig (\<lambda>s. (two_spellings, 0)) [] overwriting new_config)) \<and>
    map fst (aliases (snd (parseConfig (\<lambda>s. (two_spellings, 0)) [] overwriting new_config))) = [''pkg'']"
proof
  have "aliases_ok new_config" by (simp add: aliases_ok_def new_config_def)
  from config_aliases_lower [OF this]
  show "aliases_ok (snd (parseConfig (\<lambda>s. (two_spellings, 0)) [] overwriting new_config))" by blast
  show "map fst (aliases (snd (parseConfig (\<lambda>s. (two_spellings, 0)) [] overwriting new_config))) = [''pkg'']" by code_simp
qed

end
