(* ===== verification/Navigator.thy ===== *)
theory Navigator
  imports Config
begin

text \<open>
  Resolution of require paths (\<open>Require/src/RequireNavigator.cpp\<close>, \<open>AliasCycleTracker.cpp\<close>, \<open>PathUtilities.cpp\<close>): a
  \<open>Navigator\<close> walks a \<open>NavigationContext\<close> along a path, through aliases that configuration files define. The
  context is a record of functions over its own state; the theorem that a navigation returns holds in every context in
  which moving to the parent ends.
\<close>

section \<open>Paths\<close>

datatype PathType = RelativeToCurrent | RelativeToParent | Aliased | Unsupported

definition getPathType :: "string \<Rightarrow> PathType" where
  "getPathType path =
     (if length path \<ge> 2 \<and> take 2 path = ''./'' then RelativeToCurrent
      else if length path \<ge> 3 \<and> take 3 path = ''../'' then RelativeToParent
      else if length path \<ge> 1 \<and> path ! 0 = CHR ''@'' then Aliased
      else Unsupported)"

fun find_slash :: "string \<Rightarrow> nat option" where
  "find_slash [] = None"
| "find_slash (c # s) = (if c = CHR ''/'' then Some 0 else map_option Suc (find_slash s))"

text \<open>The first component and the rest (\<open>splitPath\<close> of \<open>PathUtilities.cpp\<close>).\<close>

definition split_first :: "string \<Rightarrow> string \<times> string" where
  "split_first path =
     (case find_slash path of None \<Rightarrow> (path, []) | Some pos \<Rightarrow> (take pos path, drop (pos + 1) path))"

definition extractAlias :: "string \<Rightarrow> string" where
  "extractAlias path =
     (case find_slash path of
        None \<Rightarrow> drop 1 path
      | Some pos \<Rightarrow> take (pos - 1) (drop 1 path))"

section \<open>The tracker of alias cycles\<close>

text \<open>The aliases in the order in which they were added; the set \<open>seen\<close> of the code holds the same ones.\<close>

type_synonym AliasCycleTracker = "string list"

fun stringify_items :: "string \<Rightarrow> string list \<Rightarrow> bool \<Rightarrow> string" where
  "stringify_items repeated [] inCycle = []"
| "stringify_items repeated (item # items) inCycle =
     (if inCycle then '' -> '' @ ''@'' @ item else []) @
     (if item = repeated then ''@'' @ item @ stringify_items repeated items True
      else stringify_items repeated items inCycle)"

definition getStringifiedCycle :: "AliasCycleTracker \<Rightarrow> string \<Rightarrow> string" where
  "getStringifiedCycle ordered repeated = stringify_items repeated ordered False @ '' -> '' @ ''@'' @ repeated"

definition tracker_add :: "AliasCycleTracker \<Rightarrow> string \<Rightarrow> string + AliasCycleTracker" where
  "tracker_add ordered alias =
     (if alias \<in> set ordered then Inl (''detected alias cycle ('' @ getStringifiedCycle ordered alias @ '')'')
      else Inr (ordered @ [alias]))"

section \<open>The context\<close>

datatype NavigateResult = Success | Ambiguous | NotFound

datatype ConfigBehavior = GetAlias | GetConfig

datatype ConfigStatus = ConfigAbsent | ConfigAmbiguous | PresentJson | PresentLuau | PresentLuauBytecode

text \<open>The virtual functions of \<open>NavigationContext\<close>; the \<open>const\<close> ones do not change the state.\<close>

record 's NavigationContext =
  cx_resetToRequirer :: "'s \<Rightarrow> NavigateResult \<times> 's"
  cx_jumpToAlias :: "string \<Rightarrow> 's \<Rightarrow> NavigateResult \<times> 's"
  cx_toAliasOverride :: "string \<Rightarrow> 's \<Rightarrow> NavigateResult \<times> 's"
  cx_toAliasFallback :: "string \<Rightarrow> 's \<Rightarrow> NavigateResult \<times> 's"
  cx_toParent :: "'s \<Rightarrow> NavigateResult \<times> 's"
  cx_toChild :: "string \<Rightarrow> 's \<Rightarrow> NavigateResult \<times> 's"
  cx_getConfigStatus :: "'s \<Rightarrow> ConfigStatus"
  cx_getConfigBehavior :: "'s \<Rightarrow> ConfigBehavior"
  cx_getAlias :: "string \<Rightarrow> 's \<Rightarrow> string option \<times> 's"
  cx_getConfig :: "'s \<Rightarrow> string option"

text \<open>What a navigation uses besides its context: the flag, the lexer and the virtual machine for configuration files.\<close>

record NavEnv =
  selfIsSelf :: bool
  env_lexer :: "string \<Rightarrow> Lexer"
  env_vm :: ConfigVM

text \<open>Every step returns its error, if any, and the state of the context.\<close>

type_synonym 's nav = "Error \<times> 's"

definition nav_then :: "'s nav \<Rightarrow> ('s \<Rightarrow> 's nav) \<Rightarrow> 's nav" where
  "nav_then r f = (case r of (Some err, s) \<Rightarrow> (Some err, s) | (None, s) \<Rightarrow> f s)"

definition navigated :: "string \<Rightarrow> NavigateResult \<times> 's \<Rightarrow> 's nav" where
  "navigated errorMessage r =
     (case r of
        (Success, s) \<Rightarrow> (None, s)
      | (Ambiguous, s) \<Rightarrow> (Some (errorMessage @ '' (ambiguous)''), s)
      | (NotFound, s) \<Rightarrow> (Some errorMessage, s))"

definition resetToRequirer :: "'s NavigationContext \<Rightarrow> 's \<Rightarrow> 's nav" where
  "resetToRequirer cx s = navigated ''could not reset to requiring context'' (cx_resetToRequirer cx s)"

definition jumpToAlias :: "'s NavigationContext \<Rightarrow> string \<Rightarrow> 's \<Rightarrow> 's nav" where
  "jumpToAlias cx aliasPath s = navigated (''could not jump to alias '' @ dq aliasPath) (cx_jumpToAlias cx aliasPath s)"

definition navigateToParent :: "'s NavigationContext \<Rightarrow> string option \<Rightarrow> 's \<Rightarrow> 's nav" where
  "navigateToParent cx previousComponent s =
     navigated
       (case previousComponent of
          Some c \<Rightarrow> ''could not get parent of component '' @ dq c
        | None \<Rightarrow> ''could not get parent of requiring context'')
       (cx_toParent cx s)"

definition navigateToChild :: "'s NavigationContext \<Rightarrow> string \<Rightarrow> 's \<Rightarrow> 's nav" where
  "navigateToChild cx component s = navigated (''could not resolve child component '' @ dq component) (cx_toChild cx component s)"

definition toAliasOverride :: "'s NavigationContext \<Rightarrow> string \<Rightarrow> 's \<Rightarrow> (Error \<times> bool) \<times> 's" where
  "toAliasOverride cx aliasUnprefixed s =
     (case cx_toAliasOverride cx aliasUnprefixed s of
        (Success, s) \<Rightarrow> ((None, True), s)
      | (NotFound, s) \<Rightarrow> ((None, False), s)
      | (Ambiguous, s) \<Rightarrow> ((Some (''@'' @ aliasUnprefixed @ '' is not a valid alias (ambiguous)''), False), s))"

definition toAliasFallback :: "'s NavigationContext \<Rightarrow> string \<Rightarrow> 's \<Rightarrow> 's nav" where
  "toAliasFallback cx aliasUnprefixed s =
     navigated (''@'' @ aliasUnprefixed @ '' is not a valid alias'') (cx_toAliasFallback cx aliasUnprefixed s)"

section \<open>Through a path\<close>

lemma find_slash_less: "find_slash p = Some i \<Longrightarrow> i < length p"
  by (induction p arbitrary: i) (auto split: if_splits)

lemma split_first_shorter:
  "length (fst (split_first p)) + 2 * length (snd (split_first p)) \<le> 2 * length p"
  "p \<noteq> [] \<Longrightarrow> length (fst (split_first p)) + 2 * length (snd (split_first p)) < 2 * length p"
  using find_slash_less [of p] by (cases "find_slash p"; fastforce simp: split_first_def)+

function through_loop ::
    "'s NavigationContext \<Rightarrow> string \<times> string \<Rightarrow> string option \<Rightarrow> 's \<Rightarrow> 's nav" where
  "through_loop cx components previousComponent s =
     (if fst components = [] \<and> snd components = [] then (None, s)
      else if fst components = ''.'' \<or> fst components = [] then
        through_loop cx (split_first (snd components)) previousComponent s
      else
        nav_then
          (if fst components = ''..'' then navigateToParent cx previousComponent s
           else navigateToChild cx (fst components) s)
          (through_loop cx (split_first (snd components)) (Some (fst components))))"
  by pat_completeness auto

termination
  apply (relation "measure (\<lambda>(cx, (a, b), previousComponent, s). length a + 2 * length b)")
    apply (auto simp: split_def)
  subgoal for b using split_first_shorter(1) [of b] by simp
  subgoal for b using split_first_shorter(1) [of b] by simp
  subgoal for b using split_first_shorter(2) [of b] by simp
  subgoal for a b using split_first_shorter(1) [of b] by (cases a) auto
  done

declare through_loop.simps [simp del]

definition navigateThroughPath :: "'s NavigationContext \<Rightarrow> string \<Rightarrow> 's \<Rightarrow> 's nav" where
  "navigateThroughPath cx path s =
     (let components = split_first path;
          components = (if length path \<ge> 1 \<and> path ! 0 = CHR ''@'' then split_first (snd components) else components)
      in through_loop cx components None s)"

section \<open>Aliases\<close>

text \<open>
  The search for a configuration that defines an alias climbs from parent to parent; \<open>None\<close> would mean that it does
  not end. \<open>aliasOpts\<close>: a configuration file does not overwrite aliases.
\<close>

definition nav_options :: ConfigOptions where
  "nav_options = \<lparr>opt_compat = False, aliasOptions = Some \<lparr>opt_location = None, overwriteAliases = False\<rparr>\<rparr>"

definition config_message :: "config_error \<Rightarrow> string" where
  "config_message e = (case e of Message m \<Rightarrow> m | _ \<Rightarrow> ''undefined'')"

definition read_config :: "NavEnv \<Rightarrow> ConfigStatus \<Rightarrow> string \<Rightarrow> Error \<times> Config" where
  "read_config env status contents =
     (case status of
        PresentJson \<Rightarrow> parseConfig (env_lexer env) contents nav_options new_config
      | PresentLuau \<Rightarrow>
          (case extractLuauConfig (env_vm env) contents (aliasOptions nav_options) new_config of
             (err, config) \<Rightarrow> (map_option config_message err, config))
      | _ \<Rightarrow> (None, new_config))"

partial_function (option) navigateToAndPopulateConfig ::
    "'s NavigationContext \<Rightarrow> NavEnv \<Rightarrow> string \<Rightarrow> Config \<Rightarrow> 's \<Rightarrow> (Error \<times> Config \<times> 's) option" where
  "navigateToAndPopulateConfig cx env desiredAlias config s =
     (if has_alias config desiredAlias then Some (None, config, s)
      else
        case cx_toParent cx s of
          (Ambiguous, s) \<Rightarrow>
            Some (Some (''could not navigate up the ancestry chain during search for alias '' @ dq desiredAlias @
              '' (ambiguous)''), new_config, s)
        | (NotFound, s) \<Rightarrow> Some (None, new_config, s)
        | (Success, s) \<Rightarrow>
            if cx_getConfigStatus cx s = ConfigAbsent then navigateToAndPopulateConfig cx env desiredAlias new_config s
            else if cx_getConfigStatus cx s = ConfigAmbiguous then
              Some (Some (''could not resolve alias '' @ dq desiredAlias @ '' (ambiguous configuration file)''), new_config, s)
            else if cx_getConfigBehavior cx s = GetAlias then
              (case cx_getAlias cx desiredAlias s of
                 (None, s) \<Rightarrow> Some (Some (''could not resolve alias '' @ dq desiredAlias), new_config, s)
               | (Some aliasPath, s) \<Rightarrow> Some (None, setAlias new_config desiredAlias aliasPath, s))
            else
              (case cx_getConfig cx s of
                 None \<Rightarrow>
                   Some (Some (''could not get configuration file contents to resolve alias '' @ dq desiredAlias), new_config, s)
               | Some configContents \<Rightarrow>
                   (case read_config env (cx_getConfigStatus cx s) configContents of
                      (Some err, config) \<Rightarrow> Some (Some err, config, s)
                    | (None, config) \<Rightarrow> navigateToAndPopulateConfig cx env desiredAlias config s)))"

definition alias_path :: "Config \<Rightarrow> string \<Rightarrow> string" where
  "alias_path config alias = (case map_of (aliases config) alias of Some info \<Rightarrow> alias_value info | None \<Rightarrow> [])"

partial_function (option) navigateToAlias ::
    "'s NavigationContext \<Rightarrow> NavEnv \<Rightarrow> string \<Rightarrow> Config \<Rightarrow> AliasCycleTracker \<Rightarrow> 's \<Rightarrow> 's nav option" where
  "navigateToAlias cx env alias config cycleTracker s =
     (let val = alias_path config alias; pathType = getPathType val in
      if pathType = RelativeToCurrent \<or> pathType = RelativeToParent then Some (navigateThroughPath cx val s)
      else if pathType = Aliased then
        (case tracker_add cycleTracker alias of
           Inl err \<Rightarrow> Some (Some err, s)
         | Inr cycleTracker \<Rightarrow>
             let nextAlias = extractAlias val in
             (case toAliasOverride cx nextAlias s of
                ((Some err, _), s) \<Rightarrow> Some (Some err, s)
              | ((None, wasOverridden), s) \<Rightarrow>
                  if wasOverridden then Some (navigateThroughPath cx val s)
                  else
                    Option.bind
                      (if has_alias config nextAlias then navigateToAlias cx env nextAlias config cycleTracker s
                       else
                         Option.bind (navigateToAndPopulateConfig cx env nextAlias new_config s) (\<lambda>(err, parentConfig, s).
                         if err \<noteq> None then Some (err, s)
                         else if has_alias parentConfig nextAlias
                         then navigateToAlias cx env nextAlias parentConfig [] s
                         else Some (toAliasFallback cx nextAlias s)))
                      (\<lambda>r. Some (nav_then r (navigateThroughPath cx val)))))
      else Some (jumpToAlias cx val s))"

section \<open>Navigation\<close>

definition navigateImpl :: "'s NavigationContext \<Rightarrow> NavEnv \<Rightarrow> string \<Rightarrow> 's \<Rightarrow> 's nav option" where
  "navigateImpl cx env path s =
     (case getPathType path of
        Unsupported \<Rightarrow> Some (Some ''require path must start with a valid prefix: ./, ../, or @'', s)
      | Aliased \<Rightarrow>
          let alias = toLower (extractAlias path) in
          (case resetToRequirer cx s of
             (Some err, s) \<Rightarrow> Some (Some err, s)
           | (None, s) \<Rightarrow>
               if selfIsSelf env \<and> alias = ''self'' then Some (navigateThroughPath cx path s)
               else
                 (case toAliasOverride cx alias s of
                    ((Some err, _), s) \<Rightarrow> Some (Some err, s)
                  | ((None, wasOverridden), s) \<Rightarrow>
                      if wasOverridden then Some (navigateThroughPath cx path s)
                      else
                        Option.bind (navigateToAndPopulateConfig cx env alias new_config s) (\<lambda>(err, config, s).
                        if err \<noteq> None then Some (err, s)
                        else if has_alias config alias then
                          Option.bind (navigateToAlias cx env alias config [] s) (\<lambda>r.
                          Some (nav_then r (navigateThroughPath cx path)))
                        else if \<not> selfIsSelf env \<and> alias = ''self'' then
                          Some (nav_then (resetToRequirer cx s) (navigateThroughPath cx path))
                        else Some (nav_then (toAliasFallback cx alias s) (navigateThroughPath cx path)))))
      | _ \<Rightarrow>
          Some (nav_then (nav_then (resetToRequirer cx s) (navigateToParent cx None)) (navigateThroughPath cx path)))"

text \<open>\<open>navigate\<close>: the error is reported to the handler.\<close>

definition navigate :: "'s NavigationContext \<Rightarrow> NavEnv \<Rightarrow> string \<Rightarrow> 's \<Rightarrow> 's nav option" where
  "navigate cx env path s =
     navigateImpl cx env (map (\<lambda>c. if c = CHR 0x5C then CHR ''/'' else c) path) s"

section \<open>The components of a path\<close>

text \<open>
  The specification of \<open>navigateThroughPath\<close>: the components between slashes in order, without the empty ones and \<open>.\<close>;
  \<open>..\<close> moves to the parent, a name to the child.
\<close>

function slash_split :: "string \<Rightarrow> string list" where
  "slash_split path =
     (case find_slash path of None \<Rightarrow> [path] | Some pos \<Rightarrow> take pos path # slash_split (drop (pos + 1) path))"
  by pat_completeness auto

termination
  by (relation "measure length") (auto dest: find_slash_less)

declare slash_split.simps [simp del]

definition relevant :: "string list \<Rightarrow> string list" where
  "relevant cs = filter (\<lambda>c. c \<noteq> [] \<and> c \<noteq> ''.'') cs"

fun nav_steps :: "'s NavigationContext \<Rightarrow> string option \<Rightarrow> string list \<Rightarrow> 's \<Rightarrow> 's nav" where
  "nav_steps cx previous [] s = (None, s)"
| "nav_steps cx previous (c # cs) s =
     nav_then (if c = ''..'' then navigateToParent cx previous s else navigateToChild cx c s) (nav_steps cx (Some c) cs)"

lemma relevant_simps [simp]:
  "relevant [] = []" "relevant ([] # cs) = relevant cs" "relevant (''.'' # cs) = relevant cs"
  "c \<noteq> [] \<Longrightarrow> c \<noteq> ''.'' \<Longrightarrow> relevant (c # cs) = c # relevant cs"
  by (simp_all add: relevant_def)

lemma slash_split_Nil [simp]: "slash_split [] = [[]]"
  by (simp add: slash_split.simps)

lemma relevant_split: "relevant (slash_split p) = relevant (fst (split_first p) # slash_split (snd (split_first p)))"
  by (subst slash_split.simps) (auto simp: split_first_def relevant_def split: option.split)

lemma through_loop_steps:
  "through_loop cx (a, p) previous s = nav_steps cx previous (relevant (a # slash_split p)) s"
proof (induction "length a + 2 * length p" arbitrary: a p previous s rule: less_induct)
  case less
  let ?b = "fst (split_first p)" and ?q = "snd (split_first p)"
  have step: "through_loop cx (split_first p) pr t = nav_steps cx pr (relevant (slash_split p)) t"
    if "a = [] \<Longrightarrow> p \<noteq> []" for pr t
  proof -
    have "length ?b + 2 * length ?q < length a + 2 * length p"
      using split_first_shorter [of p] that by (cases "a = []") (auto intro: le_less_trans)
    then have "through_loop cx (?b, ?q) pr t = nav_steps cx pr (relevant (?b # slash_split ?q)) t" by (rule less)
    then show ?thesis by (simp add: relevant_split [of p])
  qed
  show ?case
  proof (cases "a = ''.'' \<or> a = []")
    case True
    then show ?thesis using step [of previous s] by (subst through_loop.simps) auto
  next
    case False
    then have "through_loop cx (split_first p) (Some a) = nav_steps cx (Some a) (relevant (slash_split p))"
      using step by (intro ext) simp
    then show ?thesis using False by (subst through_loop.simps) auto
  qed
qed

section \<open>Cycles of aliases\<close>

lemma stringify_in: "repeated \<notin> set items \<Longrightarrow> stringify_items repeated items True = concat (map (\<lambda>i. '' -> '' @ ''@'' @ i) items)"
  by (induction items) auto

lemma stringify_before: "repeated \<notin> set pre \<Longrightarrow> stringify_items repeated (pre @ items) False = stringify_items repeated items False"
  by (induction pre) auto

lemma join_cons: "join_with d (x # xs) = x @ concat (map (\<lambda>y. d @ y) xs)"
  by (induction xs arbitrary: x) auto

lemma stringified_cycle:
  assumes "distinct as" and "j < length as"
  shows "getStringifiedCycle as (as ! j) = join_with '' -> '' (map (\<lambda>a. ''@'' @ a) (drop j as @ [as ! j]))"
proof -
  have as: "as = take j as @ as ! j # drop (Suc j) as" using assms(2) by (simp add: id_take_nth_drop)
  have nots: "as ! j \<notin> set (take j as)" "as ! j \<notin> set (drop (Suc j) as)"
    using assms as by (metis distinct.simps(2) distinct_append disjoint_insert(1) list.simps(15) not_distinct_conv_prefix)+
  have "stringify_items (as ! j) as False = ''@'' @ as ! j @ concat (map (\<lambda>i. '' -> '' @ ''@'' @ i) (drop (Suc j) as))"
    by (subst as) (simp add: stringify_before [OF nots(1)] stringify_in [OF nots(2)])
  moreover have "drop j as = as ! j # drop (Suc j) as" using assms(2) by (simp add: Cons_nth_drop_Suc)
  ultimately show ?thesis by (simp add: getStringifiedCycle_def join_cons comp_def)
qed

lemma find_slash_append: "CHR ''/'' \<notin> set n \<Longrightarrow> find_slash (n @ s) = map_option ((+) (length n)) (find_slash s)"
  by (induction n) (cases "find_slash s"; auto)+

lemma extractAlias_name:
  assumes "CHR ''/'' \<notin> set n" and "rest = [] \<or> rest ! 0 = CHR ''/''"
  shows "extractAlias (''@'' @ n @ rest) = n"
proof (cases rest)
  case Nil
  then show ?thesis using find_slash_append [of n "[]"] assms(1) by (simp add: extractAlias_def)
next
  case (Cons c cs)
  then have "find_slash (n @ rest) = Some (length n)" using find_slash_append [of n rest] assms by simp
  then show ?thesis by (simp add: extractAlias_def)
qed

lemma aliased_type: "getPathType (''@'' @ n) = Aliased"
  by (cases n) (simp_all add: getPathType_def)

text \<open>\<open>alias\<close> leads to \<open>next\<close>: its value is \<open>@next\<close>, perhaps with a path behind it.\<close>

definition leads_to :: "Config \<Rightarrow> string \<Rightarrow> string \<Rightarrow> bool" where
  "leads_to config alias nxt \<longleftrightarrow> (\<exists>rest. has_alias config alias \<and> alias_path config alias = ''@'' @ nxt @ rest \<and>
     CHR ''/'' \<notin> set nxt \<and> (rest = [] \<or> rest ! 0 = CHR ''/''))"

definition no_override :: "'s NavigationContext \<Rightarrow> string \<Rightarrow> 's \<Rightarrow> bool" where
  "no_override cx alias s \<longleftrightarrow> cx_toAliasOverride cx alias s = (NotFound, s)"

lemma alias_step:
  assumes "leads_to config alias nxt" and "alias \<notin> set tracker" and "no_override cx nxt s" and "has_alias config nxt"
  shows "navigateToAlias cx env alias config tracker s =
    Option.bind (navigateToAlias cx env nxt config (tracker @ [alias]) s)
      (\<lambda>r. Some (nav_then r (navigateThroughPath cx (alias_path config alias))))"
proof -
  obtain rest where rest: "alias_path config alias = ''@'' @ nxt @ rest" "CHR ''/'' \<notin> set nxt" "rest = [] \<or> rest ! 0 = CHR ''/''"
    using assms(1) by (auto simp: leads_to_def)
  have "getPathType (alias_path config alias) = Aliased" "extractAlias (alias_path config alias) = nxt"
    using rest aliased_type extractAlias_name by (auto simp del: append.simps)
  then show ?thesis using assms(2-4)
    by (subst navigateToAlias.simps) (simp add: Let_def tracker_add_def toAliasOverride_def no_override_def)
qed

lemma alias_cycle_error:
  assumes "leads_to config alias nxt" and "alias \<in> set tracker"
  shows "navigateToAlias cx env alias config tracker s =
    Some (Some (''detected alias cycle ('' @ getStringifiedCycle tracker alias @ '')''), s)"
proof -
  have "getPathType (alias_path config alias) = Aliased" using assms(1) aliased_type by (auto simp: leads_to_def simp del: append.simps)
  then show ?thesis using assms(2) by (subst navigateToAlias.simps) (simp add: Let_def tracker_add_def)
qed

lemma alias_chain_from:
  assumes d: "distinct as" "j < length as"
    and next_ok: "\<And>i. i < length as \<Longrightarrow> leads_to config (as ! i) (if Suc i < length as then as ! Suc i else as ! j)"
    and free: "\<And>a. a \<in> set as \<Longrightarrow> no_override cx a s"
  shows "i \<le> length as \<Longrightarrow> navigateToAlias cx env (if i < length as then as ! i else as ! j) config (take i as) s =
    Some (Some (''detected alias cycle ('' @ getStringifiedCycle as (as ! j) @ '')''), s)"
proof (induction "length as - i" arbitrary: i)
  case 0
  then have "i = length as" by simp
  then show ?case using alias_cycle_error [OF next_ok [OF d(2)], of as cx env s] d(2) by simp
next
  case (Suc n)
  then have i: "i < length as" by simp
  let ?nxt = "if Suc i < length as then as ! Suc i else as ! j"
  have "?nxt \<in> set as" using d(2) by simp
  then obtain k where k: "k < length as" "?nxt = as ! k" by (metis in_set_conv_nth)
  have "has_alias config ?nxt" using next_ok [OF k(1)] k(2) by (simp add: leads_to_def)
  moreover have "as ! i \<notin> set (take i as)" using d(1) i by (simp add: distinct_conv_nth in_set_conv_nth)
  ultimately have "navigateToAlias cx env (as ! i) config (take i as) s =
      Option.bind (navigateToAlias cx env ?nxt config (take (Suc i) as) s)
        (\<lambda>r. Some (nav_then r (navigateThroughPath cx (alias_path config (as ! i)))))"
    using alias_step [OF next_ok [OF i], of "take i as" cx s env] free [OF \<open>?nxt \<in> set as\<close>] i by (simp add: take_Suc_conv_app_nth)
  then show ?case using Suc.hyps(1) [of "Suc i"] Suc.hyps(2) i by (simp add: nav_then_def)
qed

section \<open>Navigation returns\<close>

text \<open>
  The interface of a context: \<open>depth\<close> counts the parents above a state. Moving to the parent goes up; looking for an
  override that is not there and asking for an alias do not go down. \<open>ok\<close> is what the context relies on.
\<close>

locale navigation =
  fixes cx :: "'s NavigationContext" and ok :: bool and inv :: "'s \<Rightarrow> bool" and depth :: "'s \<Rightarrow> nat"
  assumes reset: "ok \<Longrightarrow> cx_resetToRequirer cx s = (Success, s') \<Longrightarrow> inv s'"
    and parent: "inv s \<Longrightarrow> cx_toParent cx s = (Success, s') \<Longrightarrow> inv s' \<and> depth s' < depth s"
    and override: "inv s \<Longrightarrow> cx_toAliasOverride cx a s = (NotFound, s') \<Longrightarrow> inv s' \<and> depth s' \<le> depth s"
    and ask: "inv s \<Longrightarrow> cx_getAlias cx a s = (Some p, s') \<Longrightarrow> inv s' \<and> depth s' \<le> depth s"
begin

lemma populate_climbs:
  assumes "inv s"
  shows "\<exists>err c s'. navigateToAndPopulateConfig cx env desired config s = Some (err, c, s') \<and>
    (\<not> has_alias config desired \<and> err = None \<and> has_alias c desired \<longrightarrow> inv s' \<and> depth s' < depth s)"
  using assms
proof (induction "depth s" arbitrary: s config rule: less_induct)
  case less
  have none: "\<not> has_alias new_config desired" by (simp add: has_alias_def new_config_def)
  show ?case
  proof (cases "has_alias config desired")
    case True
    then show ?thesis by (subst navigateToAndPopulateConfig.simps) simp
  next
    case False
    obtain r s1 where p: "cx_toParent cx s = (r, s1)" by (cases "cx_toParent cx s")
    show ?thesis
    proof (cases r)
      case Success
      then have s1: "inv s1" "depth s1 < depth s" using parent [OF less.prems] p by simp_all
      have up: "\<exists>err c s'. navigateToAndPopulateConfig cx env desired c1 s1 = Some (err, c, s') \<and>
          (err = None \<and> has_alias c desired \<longrightarrow> inv s' \<and> depth s' < depth s)" for c1
      proof (cases "has_alias c1 desired")
        case True
        then show ?thesis using s1 by (subst navigateToAndPopulateConfig.simps) simp
      next
        case no: False
        then show ?thesis using less.hyps [OF s1(2,1), of c1] s1(2) by fastforce
      qed
      have got: "inv s2 \<and> depth s2 < depth s" if "cx_getAlias cx desired s1 = (Some q, s2)" for q s2
        using ask [OF s1(1) that] s1(2) by simp
      show ?thesis using False Success p up got
        by (subst navigateToAndPopulateConfig.simps) (auto split: prod.split option.split)
    qed (use False p none in \<open>subst navigateToAndPopulateConfig.simps; simp\<close>)+
  qed
qed

lemma alias_returns:
  assumes "inv s" and "has_alias config alias" and "distinct tracker" and "\<forall>a \<in> set tracker. has_alias config a"
  shows "\<exists>r. navigateToAlias cx env alias config tracker s = Some r"
  using assms
proof (induction "(depth s, length (aliases config) - length tracker)" arbitrary: s config "alias" tracker
    rule: wf_induct_rule [OF wf_lex_prod [OF wf_less_than wf_less_than]])
  case 1
  note IH = "1.hyps" [rule_format]
  show ?case
  proof (cases "getPathType (alias_path config alias) = Aliased \<and> alias \<notin> set tracker")
    case False
    then show ?thesis
      by (subst navigateToAlias.simps) (cases "getPathType (alias_path config alias)"; simp add: Let_def tracker_add_def)
  next
    case True
    let ?nxt = "extractAlias (alias_path config alias)"
    obtain r s1 where o: "cx_toAliasOverride cx ?nxt s = (r, s1)" by (cases "cx_toAliasOverride cx ?nxt s")
    have add: "tracker_add tracker alias = Inr (tracker @ [alias])" using True by (simp add: tracker_add_def)
    show ?thesis
    proof (cases r)
      case NotFound
      have s1: "inv s1" "depth s1 \<le> depth s" using override [OF "1.prems"(1)] o NotFound by simp_all
      have "set (tracker @ [alias]) \<subseteq> fst ` set (aliases config)"
        using "1.prems"(2,4) by (auto simp: has_alias_def map_of_eq_None_iff)
      then have "card (set (tracker @ [alias])) \<le> length (aliases config)"
        by (meson card_image_le card_length card_mono finite_imageI finite_set le_trans)
      moreover have d: "distinct (tracker @ [alias])" using True "1.prems"(3) by simp
      ultimately have room: "length tracker < length (aliases config)"
        using distinct_card [OF d] by simp
      have here: "\<exists>r. navigateToAlias cx env ?nxt config (tracker @ [alias]) s1 = Some r" if "has_alias config ?nxt"
        by (rule IH) (use s1 room d that "1.prems" in auto)
      have above: "\<exists>r. navigateToAlias cx env ?nxt c [] s2 = Some r"
        if "navigateToAndPopulateConfig cx env ?nxt new_config s1 = Some (None, c, s2)" "has_alias c ?nxt" for c s2
      proof (rule IH)
        have "\<not> has_alias new_config ?nxt" by (simp add: has_alias_def new_config_def)
        then have "inv s2 \<and> depth s2 < depth s1" using populate_climbs [OF s1(1), of env ?nxt new_config] that by auto
        then show "inv s2" "((depth s2, length (aliases c) - length []), depth s, length (aliases config) - length tracker)
            \<in> less_than <*lex*> less_than" using s1(2) by auto
      qed (use that in simp_all)
      obtain err c s2 where p: "navigateToAndPopulateConfig cx env ?nxt new_config s1 = Some (err, c, s2)"
        using populate_climbs [OF s1(1)] by blast
      show ?thesis
      proof (cases "has_alias config ?nxt")
        case has: True
        then show ?thesis using here True add o NotFound
          by (subst navigateToAlias.simps) (auto simp: Let_def toAliasOverride_def)
      next
        case no: False
        then show ?thesis using above [of c s2] p True add o NotFound
          by (subst navigateToAlias.simps) (cases err; cases "has_alias c ?nxt"; auto simp: Let_def toAliasOverride_def)
      qed
    qed (use True add o in \<open>subst navigateToAlias.simps; simp add: Let_def toAliasOverride_def\<close>)+
  qed
qed

lemma navigate_returns:
  assumes "ok"
  shows "\<exists>r. navigate cx env path s = Some r"
proof -
  let ?p = "map (\<lambda>c. if c = CHR 0x5C then CHR ''/'' else c) path"
  let ?a = "toLower (extractAlias ?p)"
  obtain r s1 where r: "cx_resetToRequirer cx s = (r, s1)" by (cases "cx_resetToRequirer cx s")
  obtain q s2 where q: "cx_toAliasOverride cx ?a s1 = (q, s2)" by (cases "cx_toAliasOverride cx ?a s1")
  show ?thesis
  proof (cases "getPathType ?p = Aliased \<and> r = Success \<and> q = NotFound")
    case True
    then have s2: "inv s2" using reset [OF assms, of s s1] override [of s1 ?a s2] r q by simp
    obtain err c s3 where p: "navigateToAndPopulateConfig cx env ?a new_config s2 = Some (err, c, s3)"
      and climbed: "\<not> has_alias new_config ?a \<and> err = None \<and> has_alias c ?a \<longrightarrow> inv s3 \<and> depth s3 < depth s2"
      using populate_climbs [OF s2] by blast
    have "\<exists>r. navigateToAlias cx env ?a c [] s3 = Some r" if "err = None" "has_alias c ?a"
      by (rule alias_returns) (use that climbed in \<open>auto simp: has_alias_def new_config_def\<close>)
    then show ?thesis using True r q p
      by (cases err; cases "has_alias c ?a") (auto simp: navigate_def navigateImpl_def Let_def resetToRequirer_def
        toAliasOverride_def navigated_def)
  next
    case False
    then show ?thesis using r q
      by (cases "getPathType ?p"; cases r; cases q)
        (auto simp: navigate_def navigateImpl_def Let_def resetToRequirer_def toAliasOverride_def navigated_def)
  qed
qed

end

section \<open>Upper case in chains\<close>

lemma aliases_ok_lower: "aliases_ok config \<Longrightarrow> has_alias config a \<Longrightarrow> toLower a = a"
proof -
  have "lower_char (lower_char c) = lower_char c" for c by (simp add: lower_char_def)
  then have low: "toLower (toLower s) = toLower s" for s by (simp add: toLower_def)
  assume ok: "aliases_ok config" and "has_alias config a"
  then obtain info where "(a, info) \<in> set (aliases config)" by (auto simp: has_alias_def dest: map_of_SomeD)
  then have "a = toLower (originalCase info)" using ok by (auto simp: aliases_ok_def)
  then show ?thesis using low by metis
qed

lemma new_config_ok: "aliases_ok new_config"
  by (simp add: aliases_ok_def new_config_def)

lemma read_config_ok: "aliases_ok (snd (read_config env status contents))"
proof -
  note r = readers_ok [OF new_config_ok, of "env_lexer env" contents nav_options "env_vm env" "aliasOptions nav_options"]
  then show ?thesis using new_config_ok by (auto simp: read_config_def split: ConfigStatus.split prod.split)
qed

text \<open>Every configuration that the search for an alias returns has its aliases in lower case.\<close>

lemma populate_lower:
  assumes "navigateToAndPopulateConfig cx env desired config s = Some r" and "aliases_ok config"
  shows "aliases_ok (fst (snd r))"
proof -
  have "aliases_ok config \<longrightarrow> aliases_ok (fst (snd r))"
  proof (rule navigateToAndPopulateConfig.raw_induct [OF _ assms(1), of "\<lambda>cx env desired config s r. aliases_ok config \<longrightarrow> aliases_ok (fst (snd r))"], rule impI)
    fix f and cx :: "'s NavigationContext" and env desired config s and r :: "Error \<times> Config \<times> 's"
    assume IH: "\<And>cx env desired config s r. f cx env desired config s = Some r \<Longrightarrow> aliases_ok config \<longrightarrow> aliases_ok (fst (snd r))"
      and ok: "aliases_ok config" and step: "(if has_alias config desired then Some (None, config, s)
        else case cx_toParent cx s of
            (Success, s) \<Rightarrow>
              if cx_getConfigStatus cx s = ConfigAbsent then f cx env desired new_config s
              else if cx_getConfigStatus cx s = ConfigAmbiguous then
                Some (Some (''could not resolve alias '' @ dq desired @ '' (ambiguous configuration file)''), new_config, s)
              else if cx_getConfigBehavior cx s = GetAlias then
                (case cx_getAlias cx desired s of
                   (None, s) \<Rightarrow> Some (Some (''could not resolve alias '' @ dq desired), new_config, s)
                 | (Some aliasPath, s) \<Rightarrow> Some (None, setAlias new_config desired aliasPath, s))
              else
                (case cx_getConfig cx s of
                   None \<Rightarrow>
                     Some (Some (''could not get configuration file contents to resolve alias '' @ dq desired), new_config, s)
                 | Some configContents \<Rightarrow>
                     (case read_config env (cx_getConfigStatus cx s) configContents of
                        (None, config) \<Rightarrow> f cx env desired config s
                      | (Some err, config) \<Rightarrow> Some (Some err, config, s)))
          | (Ambiguous, s) \<Rightarrow>
              Some (Some (''could not navigate up the ancestry chain during search for alias '' @ dq desired @
                '' (ambiguous)''), new_config, s)
          | (NotFound, s) \<Rightarrow> Some (None, new_config, s)) = Some r"
    have rec: "aliases_ok (fst (snd q))" if "f cx env desired c t = Some q" "aliases_ok c" for c t q
      using IH [OF that(1)] that(2) by simp
    have read: "aliases_ok c" if "read_config env st contents = (e, c)" for st contents e c
      using read_config_ok [of env st contents] that by simp
    show "aliases_ok (fst (snd r))"
      using step ok new_config_ok setAlias_ok [OF new_config_ok] rec read
      by (auto split: if_splits prod.splits NavigateResult.splits option.splits)
  qed
  then show ?thesis using assms(2) by simp
qed

lemma upper_not_found: "aliases_ok config \<Longrightarrow> toLower a \<noteq> a \<Longrightarrow> \<not> has_alias config a"
  using aliases_ok_lower by blast

lemma navigateThroughPath_steps:
  "navigateThroughPath cx path s =
    nav_steps cx None (relevant (if path \<noteq> [] \<and> path ! 0 = CHR ''@'' then tl (slash_split path) else slash_split path)) s"
proof -
  have 1: "through_loop cx (split_first p) None s = nav_steps cx None (relevant (slash_split p)) s" for p
    using through_loop_steps [of cx "fst (split_first p)" "snd (split_first p)" None s] relevant_split [of p] by simp
  have "relevant (tl (slash_split path)) = relevant (slash_split (snd (split_first path)))"
    by (subst slash_split.simps) (auto simp: split_first_def split: option.split)
  then show ?thesis using 1 [of path] 1 [of "snd (split_first path)"]
    by (auto simp: navigateThroughPath_def Let_def Suc_le_eq)
qed

section \<open>Properties\<close>

text \<open>\<open>navigateThroughPath\<close> follows the components of the path: after the alias of an aliased path, every component between
  slashes in order, \<open>..\<close> to the parent and a name to the child, without the empty components and \<open>.\<close>; the first failure
  ends it with its error.\<close>

theorem navigateThroughPath_components:
  "navigateThroughPath cx path s =
    nav_steps cx None (relevant (if path \<noteq> [] \<and> path ! 0 = CHR ''@'' then tl (slash_split path) else slash_split path)) s"
  by (rule navigateThroughPath_steps)

text \<open>C30. A cycle of aliases is an error: when aliases of one configuration lead to each other and the chain returns to one of
  them, resolving the first reports the cycle, and only the cycle, in order, and the context does not move.\<close>

theorem alias_cycle_reported:
  assumes "distinct as" and "j < length as"
    and "\<And>i. i < length as \<Longrightarrow> leads_to config (as ! i) (if Suc i < length as then as ! Suc i else as ! j)"
    and "\<And>a. a \<in> set as \<Longrightarrow> no_override cx a s"
  shows "navigateToAlias cx env (as ! 0) config [] s =
    Some (Some (''detected alias cycle ('' @ join_with '' -> '' (map (\<lambda>a. ''@'' @ a) (drop j as @ [as ! j])) @ '')''), s)"
  using alias_chain_from [OF assms(1-4), of 0 env] assms(2) stringified_cycle [OF assms(1,2)] by (cases as) simp_all

text \<open>A context in which nothing is found.\<close>

definition lost :: "unit NavigationContext" where
  "lost = \<lparr>cx_resetToRequirer = \<lambda>s. (NotFound, s), cx_jumpToAlias = \<lambda>a s. (NotFound, s), cx_toAliasOverride = \<lambda>a s. (NotFound, s),
     cx_toAliasFallback = \<lambda>a s. (NotFound, s), cx_toParent = \<lambda>s. (NotFound, s), cx_toChild = \<lambda>c s. (NotFound, s),
     cx_getConfigStatus = \<lambda>s. ConfigAbsent, cx_getConfigBehavior = \<lambda>s. GetConfig, cx_getAlias = \<lambda>a s. (None, s),
     cx_getConfig = \<lambda>s. None\<rparr>"

definition no_vm :: ConfigVM where
  "no_vm = \<lparr>vm_run = (\<lambda>_. LoadFailed []), vm_num2str = (\<lambda>_. []), vm_to_string = (\<lambda>_. []), vm_order = (\<lambda>t. t), vm_stack = 0\<rparr>"

definition no_env :: NavEnv where
  "no_env = \<lparr>selfIsSelf = False, env_lexer = (\<lambda>_. ([], 0)), env_vm = no_vm\<rparr>"

lemma alias_cycle_reported_witness:
  "navigateToAlias lost no_env ''a'' (setAlias (setAlias (setAlias new_config ''a'' ''@b'') ''b'' ''@c/x'') ''c'' ''@b'') [] () =
    Some (Some ''detected alias cycle (@b -> @c -> @b)'', ())"
proof -
  let ?c = "setAlias (setAlias (setAlias new_config ''a'' ''@b'') ''b'' ''@c/x'') ''c'' ''@b''"
  have v: "has_alias ?c ''a''" "has_alias ?c ''b''" "has_alias ?c ''c''"
    "alias_path ?c ''a'' = ''@'' @ ''b'' @ []" "alias_path ?c ''b'' = ''@'' @ ''c'' @ ''/x''" "alias_path ?c ''c'' = ''@'' @ ''b'' @ []"
    by code_simp+
  have "leads_to ?c ''a'' ''b''" "leads_to ?c ''b'' ''c''" "leads_to ?c ''c'' ''b''"
    unfolding leads_to_def using v by (auto simp del: append.simps)+
  then have "leads_to ?c ([''a'', ''b'', ''c''] ! i) (if Suc i < 3 then [''a'', ''b'', ''c''] ! Suc i else [''a'', ''b'', ''c''] ! 1)" if "i < 3" for i
    using that by (auto simp: less_Suc_eq numeral_eq_Suc)
  then show ?thesis
    using alias_cycle_reported [of "[''a'', ''b'', ''c'']" 1 ?c lost "()" no_env] by (simp add: no_override_def lost_def numeral_eq_Suc)
qed

text \<open>Names in a chain of aliases are compared as they are written, although configurations keep them in lower case: an
  alias whose value leads to a name with a capital letter never resolves, even when the same file defines that name,
  unless the context itself knows it.\<close>

theorem alias_chain_capital:
  assumes "alias_path config alias = ''@'' @ name @ rest" and "CHR ''/'' \<notin> set name" and "rest = [] \<or> rest ! 0 = CHR ''/''"
    and "toLower name \<noteq> name" and "aliases_ok config"
    and "\<And>s. fst (cx_toAliasOverride cx name s) \<noteq> Success" and "\<And>s. fst (cx_toAliasFallback cx name s) \<noteq> Success"
    and "navigateToAlias cx env alias config tracker s = Some (err, s')"
  shows "err \<noteq> None"
proof -
  have t: "getPathType (alias_path config alias) = Aliased" "extractAlias (alias_path config alias) = name"
    using assms(1-3) aliased_type extractAlias_name by (auto simp del: append.simps)
  obtain r s1 where o: "cx_toAliasOverride cx name s = (r, s1)" by (cases "cx_toAliasOverride cx name s")
  have fb: "toAliasFallback cx name t \<noteq> (None, u)" for t u
    using assms(7) [of t] by (cases "cx_toAliasFallback cx name t"; cases "fst (cx_toAliasFallback cx name t)")
      (auto simp: toAliasFallback_def navigated_def)
  have up: "\<not> has_alias c name" if "navigateToAndPopulateConfig cx env name new_config s1 = Some (e, c, s2)" for e c s2
    using upper_not_found [OF _ assms(4)] populate_lower [OF that new_config_ok] by simp
  show ?thesis using assms(8) t o fb up assms(6) [of s] upper_not_found [OF assms(5,4)]
    by (subst (asm) navigateToAlias.simps)
      (auto simp: Let_def toAliasOverride_def nav_then_def split: sum.splits NavigateResult.splits bind_splits if_splits prod.splits option.splits)
qed

lemma alias_chain_capital_witness:
  "\<exists>err. navigateToAlias lost no_env ''a'' (setAlias (setAlias new_config ''a'' ''@Pkg'') ''Pkg'' ''./pkg'') [] () = Some (Some err, ())"
proof -
  let ?c = "setAlias (setAlias new_config ''a'' ''@Pkg'') ''Pkg'' ''./pkg''"
  have l: "toLower ''Pkg'' \<noteq> ''Pkg''" and v: "alias_path ?c ''a'' = ''@'' @ ''Pkg'' @ []" by code_simp+
  have e: "getPathType (alias_path ?c ''a'') = Aliased" "extractAlias (alias_path ?c ''a'') = ''Pkg''" "\<not> has_alias ?c ''Pkg''"
    "\<not> has_alias new_config ''Pkg''" by code_simp+
  have p: "navigateToAndPopulateConfig lost no_env ''Pkg'' new_config () = Some (None, new_config, ())"
    using e(4) by (subst navigateToAndPopulateConfig.simps) (simp add: lost_def)
  have "navigateToAlias lost no_env ''a'' ?c [] () \<noteq> None"
    using e p by (subst navigateToAlias.simps) (simp add: Let_def tracker_add_def toAliasOverride_def lost_def)
  then obtain err where e: "navigateToAlias lost no_env ''a'' ?c [] () = Some (err, ())" by auto
  have "err \<noteq> None"
    by (rule alias_chain_capital [OF v _ _ l _ _ _ e]) (auto simp: lost_def setAlias_ok new_config_ok)
  then show ?thesis using e by auto
qed
end
