(* ===== verification/Vfs.thy ===== *)
theory Vfs
  imports FileUtils Navigator
begin

text \<open>
  Navigation in the file system: \<open>CLI/src/VfsNavigator.cpp\<close>, the contexts that the tools build on it
  (\<open>CLI/src/AnalyzeRequirer.cpp\<close>, \<open>CLI/src/ReplRequirer.cpp\<close>) and the adapter of the runtime library
  (\<open>Require/src/Navigation.cpp\<close>). The file system is a parameter. With it every navigation returns, and a relative
  path leads where its components say.
\<close>

section \<open>The file system\<close>

record FileSystem =
  isFile :: "string \<Rightarrow> bool"
  isDirectory :: "string \<Rightarrow> bool"
  fs_getcwd :: "nat \<Rightarrow> bool + string"
  fs_open :: "string \<Rightarrow> string option"

definition kSuffixes :: "string list" where
  "kSuffixes = [''.luau'', ''.lua'']"

definition kInitSuffixes :: "string list" where
  "kInitSuffixes = [''/init.luau'', ''/init.lua'']"

text \<open>The suffixes of a path that are files: \<open>None\<close> when a second one is found.\<close>

fun suffix_loop :: "FileSystem \<Rightarrow> string \<Rightarrow> string list \<Rightarrow> bool \<times> string \<Rightarrow> (bool \<times> string) option" where
  "suffix_loop fs modPath [] (found, suffix) = Some (found, suffix)"
| "suffix_loop fs modPath (potentialSuffix # ps) (found, suffix) =
     (if isFile fs (modPath @ potentialSuffix) then
        if found then None else suffix_loop fs modPath ps (True, potentialSuffix)
      else suffix_loop fs modPath ps (found, suffix))"

definition last_component :: "string \<Rightarrow> string" where
  "last_component p = rev (takeWhile (\<lambda>c. c \<noteq> CHR ''/'') (rev p))"

text \<open>\<open>ResolvedRealPath\<close> is the status with the path, which counts on \<open>Success\<close> only.\<close>

definition getRealPath :: "FileSystem \<Rightarrow> string \<Rightarrow> NavigateResult \<times> string" where
  "getRealPath fs modPath =
     (case (if last_component modPath \<noteq> ''init'' then suffix_loop fs modPath kSuffixes (False, []) else Some (False, [])) of
        None \<Rightarrow> (Ambiguous, [])
      | Some (found, suffix) \<Rightarrow>
          (case (if isDirectory fs modPath then
                   if found then None
                   else map_option (\<lambda>(_, suffix). (True, suffix)) (suffix_loop fs modPath kInitSuffixes (found, suffix))
                 else Some (found, suffix)) of
             None \<Rightarrow> (Ambiguous, [])
           | Some (found, suffix) \<Rightarrow> if \<not> found then (NotFound, []) else (Success, modPath @ suffix)))"

definition hasSuffix :: "string \<Rightarrow> string \<Rightarrow> bool" where
  "hasSuffix str suffix \<longleftrightarrow> length str \<ge> length suffix \<and> drop (length str - length suffix) str = suffix"

fun strip_suffix :: "string list \<Rightarrow> string \<Rightarrow> string option" where
  "strip_suffix [] p = None"
| "strip_suffix (suffix # ss) p = (if hasSuffix p suffix then Some (take (length p - length suffix) p) else strip_suffix ss p)"

text \<open>On POSIX an absolute path starts with its first slash, so no prefix is removed.\<close>

definition getModulePath :: "string \<Rightarrow> string" where
  "getModulePath filePath =
     (let p = map (\<lambda>c. if c = CHR 0x5C then CHR ''/'' else c) filePath;
          pathView = (if isAbsolutePath p then drop (case find_slash p of Some i \<Rightarrow> i | None \<Rightarrow> 0) p else p)
      in case strip_suffix kInitSuffixes pathView of
           Some q \<Rightarrow> q
         | None \<Rightarrow> (case strip_suffix kSuffixes pathView of Some q \<Rightarrow> q | None \<Rightarrow> pathView))"

section \<open>The navigator\<close>

record VfsNavigator =
  realPath :: string
  absoluteRealPath :: string
  absolutePathPrefix :: string
  modulePath :: string
  absoluteModulePath :: string

definition updateRealPaths :: "FileSystem \<Rightarrow> VfsNavigator \<Rightarrow> NavigateResult \<times> VfsNavigator" where
  "updateRealPaths fs v =
     (let (status, path) = getRealPath fs (modulePath v); (absStatus, absPath) = getRealPath fs (absoluteModulePath v) in
      if status \<noteq> Success \<or> absStatus \<noteq> Success then (status, v)
      else
        (Success, v\<lparr>realPath := (if isAbsolutePath path then absolutePathPrefix v @ path else path),
                    absoluteRealPath := absolutePathPrefix v @ absPath\<rparr>))"

definition prefix_of :: "string \<Rightarrow> string" where
  "prefix_of p = (case find_slash p of Some i \<Rightarrow> take i p | None \<Rightarrow> p)"

definition resetToStdIn :: "FileSystem \<Rightarrow> VfsNavigator \<Rightarrow> NavigateResult \<times> VfsNavigator" where
  "resetToStdIn fs v =
     (case getCurrentWorkingDirectory (fs_getcwd fs) of
        None \<Rightarrow> (NotFound, v)
      | Some cwd \<Rightarrow>
          let arp = normalizePath (cwd @ ''/stdin'') in
          (Success, \<lparr>realPath = ''./stdin'', absoluteRealPath = arp, absolutePathPrefix = prefix_of arp,
                     modulePath = ''./stdin'', absoluteModulePath = getModulePath arp\<rparr>))"

definition resetToPath :: "FileSystem \<Rightarrow> string \<Rightarrow> VfsNavigator \<Rightarrow> NavigateResult \<times> VfsNavigator" where
  "resetToPath fs path v =
     (let normalizedPath = normalizePath path in
      if isAbsolutePath normalizedPath then
        let m = getModulePath normalizedPath in
        updateRealPaths fs (v\<lparr>modulePath := m, absoluteModulePath := m, absolutePathPrefix := prefix_of normalizedPath\<rparr>)
      else
        case getCurrentWorkingDirectory (fs_getcwd fs) of
          None \<Rightarrow> (NotFound, v)
        | Some cwd \<Rightarrow>
            let joinedPath = normalizePath (cwd @ ''/'' @ normalizedPath) in
            updateRealPaths fs (v\<lparr>modulePath := getModulePath normalizedPath, absoluteModulePath := getModulePath joinedPath,
                                   absolutePathPrefix := prefix_of joinedPath\<rparr>))"

definition vfs_toParent :: "FileSystem \<Rightarrow> VfsNavigator \<Rightarrow> NavigateResult \<times> VfsNavigator" where
  "vfs_toParent fs v =
     (if absoluteModulePath v = ''/'' then (NotFound, v)
      else
        let numSlashes = length (filter (\<lambda>c. c = CHR ''/'') (absoluteModulePath v)) in
        if numSlashes = 1 then (NotFound, v)
        else
          let v = v\<lparr>modulePath := normalizePath (modulePath v @ ''/..''),
                    absoluteModulePath := normalizePath (absoluteModulePath v @ ''/..'')\<rparr>;
              (status, v) = updateRealPaths fs v
          in (if status = Ambiguous then Success else status, v))"

definition vfs_toChild :: "FileSystem \<Rightarrow> string \<Rightarrow> VfsNavigator \<Rightarrow> NavigateResult \<times> VfsNavigator" where
  "vfs_toChild fs name v =
     (if name = ''.config'' then (NotFound, v)
      else updateRealPaths fs (v\<lparr>modulePath := normalizePath (modulePath v @ ''/'' @ name),
                                 absoluteModulePath := normalizePath (absoluteModulePath v @ ''/'' @ name)\<rparr>))"

definition getConfigPath :: "VfsNavigator \<Rightarrow> string \<Rightarrow> string" where
  "getConfigPath v filename =
     (case strip_suffix kInitSuffixes (realPath v) of
        Some directory \<Rightarrow> directory @ ''/'' @ filename
      | None \<Rightarrow>
          (case strip_suffix kSuffixes (realPath v) of
             Some directory \<Rightarrow> directory @ ''/'' @ filename
           | None \<Rightarrow> realPath v @ ''/'' @ filename))"

abbreviation kConfigName :: string where "kConfigName \<equiv> ''.luaurc''"
abbreviation kLuauConfigName :: string where "kLuauConfigName \<equiv> ''.config.luau''"

definition getConfigStatus :: "FileSystem \<Rightarrow> VfsNavigator \<Rightarrow> ConfigStatus" where
  "getConfigStatus fs v =
     (let luaurcExists = isFile fs (getConfigPath v kConfigName); luauConfigExists = isFile fs (getConfigPath v kLuauConfigName) in
      if luaurcExists \<and> luauConfigExists then ConfigAmbiguous
      else if luauConfigExists then PresentLuau
      else if luaurcExists then PresentJson
      else ConfigAbsent)"

text \<open>It is called with a configuration present.\<close>

definition getConfig :: "FileSystem \<Rightarrow> VfsNavigator \<Rightarrow> string option" where
  "getConfig fs v =
     (if getConfigStatus fs v = PresentJson then readFile (fs_open fs) (getConfigPath v kConfigName)
      else if getConfigStatus fs v = PresentLuau then readFile (fs_open fs) (getConfigPath v kLuauConfigName)
      else None)"

section \<open>Contexts\<close>

text \<open>\<open>FileNavigationContext\<close> of the analyzer; the path \<open>-\<close> is the standard input.\<close>

definition jump_absolute :: "FileSystem \<Rightarrow> string \<Rightarrow> VfsNavigator \<Rightarrow> NavigateResult \<times> VfsNavigator" where
  "jump_absolute fs path v = (if \<not> isAbsolutePath path then (NotFound, v) else resetToPath fs path v)"

definition file_context :: "FileSystem \<Rightarrow> string \<Rightarrow> VfsNavigator NavigationContext" where
  "file_context fs requirerPath =
     \<lparr>cx_resetToRequirer = (\<lambda>v. if requirerPath = ''-'' then resetToStdIn fs v else resetToPath fs requirerPath v),
      cx_jumpToAlias = jump_absolute fs,
      cx_toAliasOverride = (\<lambda>a v. (NotFound, v)),
      cx_toAliasFallback = (\<lambda>a v. (NotFound, v)),
      cx_toParent = vfs_toParent fs,
      cx_toChild = vfs_toChild fs,
      cx_getConfigStatus = getConfigStatus fs,
      cx_getConfigBehavior = (\<lambda>v. GetConfig),
      cx_getAlias = (\<lambda>a v. (None, v)),
      cx_getConfig = getConfig fs\<rparr>"

text \<open>
  \<open>write\<close> of the REPL fills a buffer of the caller when the contents and their NUL fit;
  \<open>getStringFromCWriter\<close> tries a second time with the size that the first call asked for.
\<close>

datatype WriteResult = WriteSuccess "string" | BufferTooSmall nat | WriteFailure

definition write_buffer :: "string option \<Rightarrow> nat \<Rightarrow> WriteResult" where
  "write_buffer contents bufferSize =
     (case contents of
        None \<Rightarrow> WriteFailure
      | Some s \<Rightarrow> if bufferSize < length s + 1 then BufferTooSmall (length s + 1) else WriteSuccess (s @ [CHR 0x00]))"

definition getStringFromCWriter :: "(nat \<Rightarrow> WriteResult) \<Rightarrow> nat \<Rightarrow> string option" where
  "getStringFromCWriter writer initalBufferSize =
     (let r = (case writer initalBufferSize of BufferTooSmall n \<Rightarrow> writer n | r \<Rightarrow> r) in
      case r of WriteSuccess s \<Rightarrow> Some s | _ \<Rightarrow> None)"

lemma getStringFromCWriter_write: "getStringFromCWriter (write_buffer contents) n = map_option (\<lambda>s. s @ [CHR 0x00]) contents"
  by (cases contents) (simp_all add: getStringFromCWriter_def write_buffer_def)

definition repl_reset :: "FileSystem \<Rightarrow> string \<Rightarrow> VfsNavigator \<Rightarrow> NavigateResult \<times> VfsNavigator" where
  "repl_reset fs chunkname v =
     (if chunkname = ''=stdin'' then resetToStdIn fs v
      else if chunkname \<noteq> [] \<and> chunkname ! 0 = CHR ''@'' then resetToPath fs (drop 1 chunkname) v
      else (NotFound, v))"

text \<open>The runtime context over the callbacks of the REPL, which sets neither alias callback nor \<open>get_alias\<close>.\<close>

definition repl_context :: "FileSystem \<Rightarrow> string \<Rightarrow> VfsNavigator NavigationContext" where
  "repl_context fs requirerChunkname =
     \<lparr>cx_resetToRequirer = repl_reset fs requirerChunkname,
      cx_jumpToAlias = jump_absolute fs,
      cx_toAliasOverride = (\<lambda>a v. (NotFound, v)),
      cx_toAliasFallback = (\<lambda>a v. (NotFound, v)),
      cx_toParent = vfs_toParent fs,
      cx_toChild = vfs_toChild fs,
      cx_getConfigStatus = getConfigStatus fs,
      cx_getConfigBehavior = (\<lambda>v. GetConfig),
      cx_getAlias = (\<lambda>a v. (None, v)),
      cx_getConfig = (\<lambda>v. getStringFromCWriter (write_buffer (getConfig fs v)) 1024)\<rparr>"

section \<open>Climbing ends\<close>

text \<open>\<open>getcwd\<close> gives an absolute path, as POSIX says.\<close>

definition cwd_ok :: "FileSystem \<Rightarrow> bool" where
  "cwd_ok fs \<longleftrightarrow> (\<forall>n d. fs_getcwd fs n = Inr d \<longrightarrow> isAbsolutePath d)"

definition abs_ok :: "string \<Rightarrow> bool" where
  "abs_ok p \<longleftrightarrow> p = [] \<or> isAbsolutePath p"

definition vfs_inv :: "VfsNavigator \<Rightarrow> bool" where
  "vfs_inv v \<longleftrightarrow> abs_ok (absoluteModulePath v)"

definition vfs_depth :: "VfsNavigator \<Rightarrow> nat" where
  "vfs_depth v = 2 * length (dirs (absoluteModulePath v)) + (if absoluteModulePath v = ''/'' then 0 else 1)"

lemma cwd_absolute: "cwd_ok fs \<Longrightarrow> getCurrentWorkingDirectory (fs_getcwd fs) = Some d \<Longrightarrow> isAbsolutePath d"
proof -
  have "cwd_loop g n = Some d \<Longrightarrow> \<exists>k. g k = Inr d" for g n
  proof (induction g n rule: cwd_loop.induct)
    case (1 g n)
    then show ?case by (auto simp: cwd_loop.simps [of g n] split: if_splits sum.splits)
  qed
  then show "cwd_ok fs \<Longrightarrow> getCurrentWorkingDirectory (fs_getcwd fs) = Some d \<Longrightarrow> isAbsolutePath d"
    unfolding getCurrentWorkingDirectory_def cwd_ok_def by blast
qed

lemma absolute_append: "isAbsolutePath p \<Longrightarrow> isAbsolutePath (p @ s)"
  by (cases p) (auto simp: isAbsolutePath_def)

lemma absolute_slash: "abs_ok p \<Longrightarrow> isAbsolutePath (p @ CHR ''/'' # s)"
  by (auto simp: abs_ok_def isAbsolutePath_def nth_append)

lemma absolute_normalize: "isAbsolutePath (normalizePath p) = isAbsolutePath p"
  using normalizePath_walk [of p] by blast

lemma strip_suffix_take: "strip_suffix ss p = Some q \<Longrightarrow> \<exists>n. q = take n p"
  by (induction ss) (auto split: if_splits)

lemma module_path_absolute:
  assumes "isAbsolutePath p"
  shows "abs_ok (getModulePath p)"
proof -
  let ?q = "map (\<lambda>c. if c = CHR 0x5C then CHR ''/'' else c) p"
  have q: "isAbsolutePath ?q" using assms by (cases p) (auto simp: isAbsolutePath_def)
  then have "find_slash ?q = Some 0" by (cases ?q) (auto simp: isAbsolutePath_def)
  then have "\<exists>n. getModulePath p = take n ?q"
    using strip_suffix_take [of _ ?q] q by (auto simp: getModulePath_def Let_def split: option.split intro: exI [of _ "length ?q"])
  then obtain n where n: "getModulePath p = take n ?q" ..
  show ?thesis using q unfolding n by (cases ?q; cases n) (auto simp: abs_ok_def isAbsolutePath_def)
qed

lemma update_frame:
  assumes "updateRealPaths fs v = (status, v')"
  shows "modulePath v' = modulePath v" and "absoluteModulePath v' = absoluteModulePath v"
  using assms by (auto simp: updateRealPaths_def Let_def split: prod.splits if_splits)

lemma reset_absolute: "cwd_ok fs \<Longrightarrow> resetToPath fs path v = (Success, v') \<Longrightarrow> vfs_inv v'"
proof -
  assume ok: "cwd_ok fs" and r: "resetToPath fs path v = (Success, v')"
  show ?thesis
  proof (cases "isAbsolutePath (normalizePath path)")
    case True
    then show ?thesis using r update_frame(2) module_path_absolute by (auto simp: resetToPath_def Let_def vfs_inv_def)
  next
    case False
    then obtain cwd where c: "getCurrentWorkingDirectory (fs_getcwd fs) = Some cwd" using r
      by (auto simp: resetToPath_def Let_def split: option.splits)
    let ?j = "normalizePath (cwd @ ''/'' @ normalizePath path)"
    have "isAbsolutePath ?j" using absolute_append [OF cwd_absolute [OF ok c]] by (simp add: absolute_normalize)
    then show ?thesis using r False c update_frame(2) module_path_absolute by (auto simp: resetToPath_def Let_def vfs_inv_def)
  qed
qed

lemma stdin_absolute: "cwd_ok fs \<Longrightarrow> resetToStdIn fs v = (Success, v') \<Longrightarrow> vfs_inv v'"
  using cwd_absolute [of fs] absolute_append absolute_normalize module_path_absolute
  by (auto simp: resetToStdIn_def Let_def vfs_inv_def split: option.splits)

lemma parent_path:
  assumes "vfs_inv v" and "vfs_toParent fs v = (Success, v')"
  shows "absoluteModulePath v' = normalizePath (absoluteModulePath v @ ''/..'')" and "absoluteModulePath v \<noteq> ''/''"
    and "dirs (absoluteModulePath v') = butlast (dirs (absoluteModulePath v))" and "vfs_inv v'"
proof -
  let ?p = "absoluteModulePath v"
  show e: "absoluteModulePath v' = normalizePath (?p @ ''/..'')" and "?p \<noteq> ''/''"
    using assms(2) by (auto simp: vfs_toParent_def Let_def split: if_splits prod.splits dest!: update_frame(2))
  have abs: "isAbsolutePath (?p @ ''/..'')" using assms(1) absolute_slash by (simp add: vfs_inv_def)
  have "dirs (?p @ ''/..'') = butlast (dirs ?p)"
    using dirs_append [of "CHR ''/''" ?p "''..''"] by (simp add: is_slash_def plain_def walk_step_def)
  then show "dirs (absoluteModulePath v') = butlast (dirs ?p)" by (simp add: e dirs_normalize [OF abs])
  show "vfs_inv v'" using abs by (simp add: vfs_inv_def abs_ok_def e absolute_normalize)
qed

lemma parent_climbs:
  assumes "vfs_inv v" and "vfs_toParent fs v = (Success, v')"
  shows "vfs_inv v' \<and> vfs_depth v' < vfs_depth v"
proof -
  note p = parent_path [OF assms]
  have "absoluteModulePath v' = ''/''" if "dirs (absoluteModulePath v) = []"
  proof -
    have abs: "isAbsolutePath (absoluteModulePath v @ ''/..'')" using assms(1) absolute_slash by (simp add: vfs_inv_def)
    have "dirs (absoluteModulePath v @ ''/..'') = []" using p(3) that dirs_normalize [OF abs] p(1) by simp
    then show ?thesis using normalize_root [OF abs] p(1) by simp
  qed
  then show ?thesis using p by (cases "dirs (absoluteModulePath v)") (auto simp: vfs_depth_def)
qed

lemma child_path:
  assumes "vfs_inv v" and "vfs_toChild fs name v = (Success, v')" and "plain name" and "name \<noteq> []" "name \<noteq> ''.''" "name \<noteq> ''..''"
  shows "dirs (absoluteModulePath v') = dirs (absoluteModulePath v) @ [name]" and "vfs_inv v'"
proof -
  let ?p = "absoluteModulePath v"
  have e: "absoluteModulePath v' = normalizePath (?p @ ''/'' @ name)"
    using assms(2) by (auto simp: vfs_toChild_def split: if_splits dest!: update_frame(2))
  have abs: "isAbsolutePath (?p @ ''/'' @ name)" using assms(1) absolute_slash by (simp add: vfs_inv_def)
  have "dirs (?p @ ''/'' @ name) = dirs ?p @ [name]"
    using dirs_append [of "CHR ''/''" ?p name] assms(3-6) by (simp add: is_slash_def walk_step_def)
  then show "dirs (absoluteModulePath v') = dirs ?p @ [name]" unfolding e dirs_normalize [OF abs] .
  show "vfs_inv v'" using abs by (simp add: vfs_inv_def abs_ok_def e absolute_normalize)
qed

interpretation files: navigation "file_context fs requirerPath" "cwd_ok fs" vfs_inv vfs_depth for fs requirerPath
  using reset_absolute stdin_absolute parent_climbs
  by unfold_locales (auto simp: file_context_def split: if_splits)

interpretation repl: navigation "repl_context fs chunkname" "cwd_ok fs" vfs_inv vfs_depth for fs chunkname
  using reset_absolute stdin_absolute parent_climbs
  by unfold_locales (auto simp: repl_context_def repl_reset_def split: if_splits)

section \<open>Relative paths\<close>

text \<open>The directory of the requiring module, from the root.\<close>

definition requirer_dir :: "FileSystem \<Rightarrow> string \<Rightarrow> string list option" where
  "requirer_dir fs path =
     (if isAbsolutePath path then Some (dirs (getModulePath (normalizePath path)))
      else map_option (\<lambda>cwd. dirs (getModulePath (normalizePath (cwd @ ''/'' @ normalizePath path))))
             (getCurrentWorkingDirectory (fs_getcwd fs)))"

lemma reset_dir:
  "resetToPath fs path v = (Success, v') \<Longrightarrow> requirer_dir fs path = Some (dirs (absoluteModulePath v'))"
  by (auto simp: resetToPath_def requirer_dir_def Let_def absolute_normalize split: if_splits option.splits
    dest!: update_frame(2))

lemma slash_split_plain: "\<forall>x \<in> set path. x \<noteq> CHR 0x5C \<Longrightarrow> c \<in> set (slash_split path) \<Longrightarrow> plain c"
proof (induction path rule: slash_split.induct)
  case (1 path)
  have slash: "find_slash p = None \<Longrightarrow> CHR ''/'' \<notin> set p" "find_slash p = Some i \<Longrightarrow> CHR ''/'' \<notin> set (take i p)" for p i
    by (induction p arbitrary: i) (auto split: if_splits)
  show ?case
  proof (cases "find_slash path")
    case None
    then have "c = path" using 1(3) [unfolded slash_split.simps [of path]] by simp
    then show ?thesis using 1(2) slash(1) [OF None] by (auto simp: plain_def is_slash_def)
  next
    case (Some i)
    then have "c = take i path \<or> c \<in> set (slash_split (drop (Suc i) path))"
      using 1(3) [unfolded slash_split.simps [of path]] by simp
    then show ?thesis
    proof
      assume "c = take i path"
      then have "x \<noteq> CHR ''/'' \<and> x \<noteq> CHR 0x5C" if "x \<in> set c" for x
        using that slash(2) [OF Some] 1(2) by (metis in_set_takeD)
      then show ?thesis by (auto simp: plain_def is_slash_def)
    next
      assume "c \<in> set (slash_split (drop (Suc i) path))"
      moreover have "\<forall>x \<in> set (drop (Suc i) path). x \<noteq> CHR 0x5C" using 1(2) by (meson in_set_dropD)
      ultimately show ?thesis using 1(1) [OF Some] by simp
    qed
  qed
qed

lemma steps_walk:
  assumes cx: "cx_toParent cx = vfs_toParent fs" "cx_toChild cx = vfs_toChild fs"
    and "vfs_inv v" and "\<forall>c \<in> set cs. plain c \<and> c \<noteq> [] \<and> c \<noteq> ''.''" and "nav_steps cx previous cs v = (None, v')"
  shows "dirs (absoluteModulePath v') = walk (dirs (absoluteModulePath v)) cs \<and> vfs_inv v'"
  using assms(3-)
proof (induction cs arbitrary: v previous)
  case (Cons c cs)
  obtain v1 where v1: "(if c = ''..'' then vfs_toParent fs v else vfs_toChild fs c v) = (Success, v1)"
    "nav_steps cx (Some c) cs v1 = (None, v')"
    using Cons.prems(3) cx
    by (auto simp: nav_then_def navigateToParent_def navigateToChild_def navigated_def split: prod.splits option.splits
      if_splits NavigateResult.splits)
  have "dirs (absoluteModulePath v1) = walk_step (dirs (absoluteModulePath v)) c \<and> vfs_inv v1"
    using v1(1) Cons.prems(1,2) parent_path [of v fs v1] child_path [of v fs c v1] by (auto simp: walk_step_def split: if_splits)
  then show ?case using Cons.IH [OF _ _ v1(2)] Cons.prems(2) by simp
qed simp

lemma walk_relevant: "walk d (relevant cs) = walk d cs"
  using walk_significant [of d cs] by (simp add: relevant_def significant_def)

section \<open>Properties\<close>

text \<open>C23. Every navigation ends: for every file system, however its files and configurations are laid out, with any aliases,
  cycles included, both the context of the analyzer and the one of the REPL come to a result for every path. The run of a
  \<open>.config.luau\<close> is a parameter; one that does not come back counts as an error of reading it (\<open>NoReturn\<close>).\<close>

theorem navigation_returns:
  assumes "cwd_ok fs"
  shows "(\<exists>err v'. navigate (file_context fs requirerPath) env path v = Some (err, v')) \<and>
    (\<exists>err v'. navigate (repl_context fs chunkname) env path v = Some (err, v'))"
  using files.navigate_returns [OF assms] repl.navigate_returns [OF assms] by auto

text \<open>A file system with two modules and nothing else.\<close>

definition two_files :: FileSystem where
  "two_files = \<lparr>isFile = (\<lambda>p. p = ''/d/a.luau'' \<or> p = ''/d/b.lua''), isDirectory = (\<lambda>p. p = ''/d'' \<or> p = ''/''),
     fs_getcwd = (\<lambda>n. Inr ''/d''), fs_open = (\<lambda>p. None)\<rparr>"

definition no_paths :: VfsNavigator where
  "no_paths = \<lparr>realPath = [], absoluteRealPath = [], absolutePathPrefix = [], modulePath = [], absoluteModulePath = []\<rparr>"

lemma two_files_cwd: "cwd_ok two_files"
  by (simp add: cwd_ok_def two_files_def isAbsolutePath_def)

lemma navigation_returns_witness:
  "\<exists>err v'. navigate (file_context two_files ''/d/a.luau'') no_env ''@x/y'' no_paths = Some (err, v')"
  using navigation_returns [OF two_files_cwd] by blast

text \<open>C24. A relative path leads where it says: when navigating from a module along a path with \<open>./\<close> or \<open>../\<close> succeeds, the
  module reached is the one that the components of the path lead to from the directory of the requiring module; a
  backslash separates as a slash does.\<close>

theorem relative_path_resolves:
  assumes "cwd_ok fs" and "requirerPath \<noteq> ''-''"
    and "q = map (\<lambda>c. if c = CHR 0x5C then CHR ''/'' else c) path"
    and "getPathType q = RelativeToCurrent \<or> getPathType q = RelativeToParent"
    and "navigate (file_context fs requirerPath) env path v = Some (None, v')"
  shows "\<exists>base. requirer_dir fs requirerPath = Some base \<and>
    dirs (absoluteModulePath v') = walk (butlast base) (slash_split q)"
proof -
  let ?cx = "file_context fs requirerPath"
  have "nav_then (nav_then (resetToRequirer ?cx v) (navigateToParent ?cx None)) (navigateThroughPath ?cx q) = (None, v')"
    using assms(3-5) by (auto simp: navigate_def navigateImpl_def split: PathType.splits)
  then obtain v1 v2 where v1: "resetToPath fs requirerPath v = (Success, v1)" and v2: "vfs_toParent fs v1 = (Success, v2)"
    and v': "navigateThroughPath ?cx q v2 = (None, v')"
    using assms(2) by (auto simp: nav_then_def resetToRequirer_def navigateToParent_def navigated_def file_context_def
      split: prod.splits option.splits NavigateResult.splits)
  note i1 = reset_absolute [OF assms(1) v1] and p = parent_path [OF reset_absolute [OF assms(1) v1] v2]
  have notalias: "\<not> (q \<noteq> [] \<and> q ! 0 = CHR ''@'')" using assms(4) by (cases q) (auto simp: getPathType_def split: if_splits)
  have "\<forall>c \<in> set (relevant (slash_split q)). plain c \<and> c \<noteq> [] \<and> c \<noteq> ''.''"
  proof -
    have "\<forall>x \<in> set q. x \<noteq> CHR 0x5C" unfolding assms(3) by auto
    from slash_split_plain [OF this] show ?thesis by (simp add: relevant_def)
  qed
  moreover have "nav_steps ?cx None (relevant (slash_split q)) v2 = (None, v')"
    using v' navigateThroughPath_steps [of ?cx q v2] notalias by simp
  ultimately have "dirs (absoluteModulePath v') = walk (dirs (absoluteModulePath v2)) (relevant (slash_split q))"
    using steps_walk [of ?cx fs v2] p(4) by (simp add: file_context_def)
  then show ?thesis using reset_dir [OF v1] p(3) by (simp add: walk_relevant)
qed

lemma relative_path_resolves_witness:
  "\<exists>v'. navigate (file_context two_files ''/d/a.luau'') no_env (CHR ''.'' # CHR 0x5C # ''b'') no_paths = Some (None, v') \<and>
    dirs (absoluteModulePath v') = [''d'', ''b'']"
proof -
  let ?cx = "file_context two_files ''/d/a.luau''"
  have t: "getPathType ''./b'' = RelativeToCurrent" by code_simp
  have "(case nav_then (nav_then (resetToRequirer ?cx no_paths) (navigateToParent ?cx None)) (navigateThroughPath ?cx ''./b'') of
      (None, v) \<Rightarrow> True | _ \<Rightarrow> False)" by code_simp
  then obtain v' where "nav_then (nav_then (resetToRequirer ?cx no_paths) (navigateToParent ?cx None)) (navigateThroughPath ?cx ''./b'')
      = (None, v')" by (auto split: prod.splits option.splits)
  then have n: "navigate ?cx no_env (CHR ''.'' # CHR 0x5C # ''b'') no_paths = Some (None, v')" using t by (simp add: navigate_def navigateImpl_def)
  have "''./b'' = map (\<lambda>c. if c = CHR 0x5C then CHR ''/'' else c) (CHR ''.'' # CHR 0x5C # ''b'')" by simp
  moreover have "requirer_dir two_files ''/d/a.luau'' = Some [''d'', ''a'']" "walk (butlast [''d'', ''a'']) (slash_split ''./b'') = [''d'', ''b'']"
    by code_simp+
  ultimately show ?thesis
    using relative_path_resolves [OF two_files_cwd _ _ _ n, of "''./b''"] t n by simp
qed

text \<open>A module path stands for one file: among the files with a known suffix (not for the name \<open>init\<close>) and the directory
  there is exactly one, and in the directory at most one init file; otherwise the path is ambiguous or not found.\<close>

theorem getRealPath_unique:
  "getRealPath fs p =
    (let candidates = (if last_component p = ''init'' then [] else filter (isFile fs) [p @ ''.luau'', p @ ''.lua'']);
         inits = filter (isFile fs) [p @ ''/init.luau'', p @ ''/init.lua''] in
     if \<not> isDirectory fs p then
       (case candidates of [] \<Rightarrow> (NotFound, []) | [f] \<Rightarrow> (Success, f) | _ \<Rightarrow> (Ambiguous, []))
     else if candidates \<noteq> [] then (Ambiguous, [])
     else (case inits of [] \<Rightarrow> (Success, p) | [f] \<Rightarrow> (Success, f) | _ \<Rightarrow> (Ambiguous, [])))"
  by (simp add: getRealPath_def kSuffixes_def kInitSuffixes_def Let_def)

text \<open>C37. Moving up to a parent that is ambiguous, a directory beside a module of the same name, succeeds but leaves the real
  path where it was: the configuration files looked for next are those of the place below, not those of the parent.\<close>

theorem ambiguous_parent_stale:
  assumes "vfs_toParent fs v = (status, v')" and "v' \<noteq> v"
    and "fst (getRealPath fs (normalizePath (modulePath v @ ''/..''))) = Ambiguous"
  shows "status = Success \<and> realPath v' = realPath v \<and> getConfigPath v' name = getConfigPath v name"
proof -
  have r: "status = Success" "realPath v' = realPath v"
    using assms by (auto simp: vfs_toParent_def updateRealPaths_def Let_def split: if_splits prod.splits)
  then show ?thesis unfolding getConfigPath_def r(2) by simp
qed

lemma ambiguous_parent_stale_witness:
  "\<exists>v'. vfs_toParent (two_files\<lparr>isFile := \<lambda>p. p = ''/e/d.luau'', isDirectory := \<lambda>p. p = ''/e/d''\<rparr>)
      (no_paths\<lparr>realPath := ''/e/d/a.luau'', modulePath := ''/e/d/a'', absoluteModulePath := ''/e/d/a''\<rparr>) = (Success, v') \<and>
    modulePath v' = ''/e/d'' \<and> getConfigPath v' kConfigName = ''/e/d/a/.luaurc''"
proof -
  let ?fs = "two_files\<lparr>isFile := \<lambda>p. p = ''/e/d.luau'', isDirectory := \<lambda>p. p = ''/e/d''\<rparr>"
  let ?v = "no_paths\<lparr>realPath := ''/e/d/a.luau'', modulePath := ''/e/d/a'', absoluteModulePath := ''/e/d/a''\<rparr>"
  obtain status v' where p: "vfs_toParent ?fs ?v = (status, v')" by (cases "vfs_toParent ?fs ?v")
  have m: "modulePath (snd (vfs_toParent ?fs ?v)) = ''/e/d''" by code_simp
  then have "v' \<noteq> ?v" using p by auto
  moreover have "fst (getRealPath ?fs (normalizePath (modulePath ?v @ ''/..''))) = Ambiguous" by code_simp
  moreover have "getConfigPath ?v kConfigName = ''/e/d/a/.luaurc''" by code_simp
  ultimately show ?thesis using ambiguous_parent_stale [OF p, of kConfigName] p m by simp
qed

end
