(* ===== verification/StrMatch.thy ===== *)
theory StrMatch
  imports Value
begin

text \<open>
  Pattern matching (\<open>VM/src/lstrlib.cpp\<close>): the backtracking matcher behind \<open>find\<close>, \<open>match\<close>, \<open>gmatch\<close> and \<open>gsub\<close>. Strings end
  in a NUL that is not counted; a read at the length gives it and a read beyond is \<open>Undefined\<close>. Positions are
  offsets into the source and the pattern.
\<close>

unbundle bit_operations_syntax

section \<open>Reading and classifying characters\<close>

definition peek :: "byte list \<Rightarrow> nat \<Rightarrow> lua_error + byte" where
  "peek s i = (if i < length s then Inr (s ! i) else if i = length s then Inr 0 else Inl (Undefined ''read past the end''))"

abbreviation L_ESC :: byte where "L_ESC \<equiv> 37"

text \<open>The functions of \<open>ctype.h\<close> in the C locale.\<close>

definition isupper :: "byte \<Rightarrow> bool" where "isupper c \<longleftrightarrow> 65 \<le> c \<and> c \<le> 90"
definition islower :: "byte \<Rightarrow> bool" where "islower c \<longleftrightarrow> 97 \<le> c \<and> c \<le> 122"
definition isdigit :: "byte \<Rightarrow> bool" where "isdigit c \<longleftrightarrow> 48 \<le> c \<and> c \<le> 57"
definition isalpha :: "byte \<Rightarrow> bool" where "isalpha c \<longleftrightarrow> isupper c \<or> islower c"
definition isalnum :: "byte \<Rightarrow> bool" where "isalnum c \<longleftrightarrow> isalpha c \<or> isdigit c"
definition iscntrl :: "byte \<Rightarrow> bool" where "iscntrl c \<longleftrightarrow> c < 32 \<or> c = 127"
definition isgraph :: "byte \<Rightarrow> bool" where "isgraph c \<longleftrightarrow> 33 \<le> c \<and> c \<le> 126"
definition ispunct :: "byte \<Rightarrow> bool" where "ispunct c \<longleftrightarrow> isgraph c \<and> \<not> isalnum c"
definition isspace :: "byte \<Rightarrow> bool" where "isspace c \<longleftrightarrow> c = 32 \<or> 9 \<le> c \<and> c \<le> 13"
definition isxdigit :: "byte \<Rightarrow> bool" where
  "isxdigit c \<longleftrightarrow> isdigit c \<or> 65 \<le> c \<and> c \<le> 70 \<or> 97 \<le> c \<and> c \<le> 102"
definition tolower :: "byte \<Rightarrow> byte" where "tolower c = (if isupper c then c + 32 else c)"
definition toupper :: "byte \<Rightarrow> byte" where "toupper c = (if islower c then c - 32 else c)"

definition qt :: "string \<Rightarrow> string" where
  "qt s = CHR 0x27 # s @ [CHR 0x27]"

section \<open>Character classes\<close>

function class_loop :: "byte list \<Rightarrow> nat \<Rightarrow> lua_error + nat" where
  "class_loop p i =
     (if i = length p then Inl (RunError (''malformed pattern (missing '' @ qt '']'' @ '')''))
      else
        bindE (peek p i) (\<lambda>c.
        let i = i + 1; i = (if c = L_ESC \<and> i < length p then i + 1 else i) in
        bindE (peek p i) (\<lambda>d. if d \<noteq> 93 then class_loop p i else Inr (i + 1))))"
  by pat_completeness auto

termination
  by (relation "measure (\<lambda>(p, i). length p - i)") (auto simp: peek_def Let_def split: if_split_asm)

declare class_loop.simps [simp del]

definition classend :: "byte list \<Rightarrow> nat \<Rightarrow> lua_error + nat" where
  "classend p i =
     bindE (peek p i) (\<lambda>c.
     let i = i + 1 in
     if c = L_ESC then
       if i = length p then Inl (RunError (''malformed pattern (ends with '' @ qt ''%'' @ '')'')) else Inr (i + 1)
     else if c = 91 then bindE (peek p i) (\<lambda>d. class_loop p (if d = 94 then i + 1 else i))
     else Inr i)"

definition match_class :: "byte \<Rightarrow> byte \<Rightarrow> bool" where
  "match_class c cl =
     (let k = tolower cl;
          res = (if k = 97 then Some (isalpha c) else if k = 99 then Some (iscntrl c) else if k = 100 then Some (isdigit c)
                 else if k = 103 then Some (isgraph c) else if k = 108 then Some (islower c) else if k = 112 then Some (ispunct c)
                 else if k = 115 then Some (isspace c) else if k = 117 then Some (isupper c) else if k = 119 then Some (isalnum c)
                 else if k = 120 then Some (isxdigit c) else if k = 122 then Some (c = 0) else None)
      in case res of None \<Rightarrow> cl = c | Some r \<Rightarrow> if islower cl then r else \<not> r)"

function bracket_loop :: "byte list \<Rightarrow> byte \<Rightarrow> nat \<Rightarrow> bool \<Rightarrow> nat \<Rightarrow> lua_error + bool" where
  "bracket_loop p c ec sig j =
     (if \<not> j < ec then Inr (\<not> sig)
      else
        bindE (peek p j) (\<lambda>d.
        bindE (peek p (j + 1)) (\<lambda>e.
        if d = L_ESC then (if match_class c e then Inr sig else bracket_loop p c ec sig (j + 2))
        else if e = 45 \<and> j + 2 < ec then
          bindE (peek p (j + 2)) (\<lambda>hi. if d \<le> c \<and> c \<le> hi then Inr sig else bracket_loop p c ec sig (j + 3))
        else if d = c then Inr sig
        else bracket_loop p c ec sig (j + 1))))"
  by pat_completeness auto

termination by (relation "measure (\<lambda>(p, c, ec, sig, j). ec - j)") auto

declare bracket_loop.simps [simp del]

definition matchbracketclass :: "byte list \<Rightarrow> byte \<Rightarrow> nat \<Rightarrow> nat \<Rightarrow> lua_error + bool" where
  "matchbracketclass p c i ec =
     bindE (peek p (i + 1)) (\<lambda>d.
     if d = 94 then bracket_loop p c ec False (i + 2) else bracket_loop p c ec True (i + 1))"

definition singlematch :: "byte list \<Rightarrow> byte list \<Rightarrow> nat \<Rightarrow> nat \<Rightarrow> nat \<Rightarrow> lua_error + bool" where
  "singlematch s p si i ep =
     (if si \<ge> length s then Inr False
      else
        bindE (peek s si) (\<lambda>c.
        bindE (peek p i) (\<lambda>d.
        if d = 46 then Inr True
        else if d = L_ESC then bindE (peek p (i + 1)) (\<lambda>e. Inr (match_class c e))
        else if d = 91 then matchbracketclass p c i (ep - 1)
        else Inr (d = c))))"

text \<open>\<open>%b\<close>: the counter of the code never gets negative, so it is a natural number.\<close>

function balance_loop :: "byte list \<Rightarrow> byte \<Rightarrow> byte \<Rightarrow> nat \<Rightarrow> nat \<Rightarrow> lua_error + nat option" where
  "balance_loop s b e cont si =
     (if si + 1 < length s then
        bindE (peek s (si + 1)) (\<lambda>c.
        if c = e then if cont - 1 = 0 then Inr (Some (si + 2)) else balance_loop s b e (cont - 1) (si + 1)
        else if c = b then balance_loop s b e (cont + 1) (si + 1)
        else balance_loop s b e cont (si + 1))
      else Inr None)"
  by pat_completeness auto

termination by (relation "measure (\<lambda>(s, b, e, cont, si). length s - si)") auto

declare balance_loop.simps [simp del]

definition matchbalance :: "byte list \<Rightarrow> byte list \<Rightarrow> nat \<Rightarrow> nat \<Rightarrow> lua_error + nat option" where
  "matchbalance s p si i =
     (if i + 1 \<ge> length p then Inl (RunError (''malformed pattern (missing arguments to '' @ qt ''%b'' @ '')''))
      else
        bindE (peek s si) (\<lambda>c.
        bindE (peek p i) (\<lambda>b.
        if c \<noteq> b then Inr None
        else bindE (peek p (i + 1)) (\<lambda>e. balance_loop s b e 1 si))))"

section \<open>Captures\<close>

text \<open>\<open>level\<close> captures are in use; the entries above are left from before.\<close>

record MatchState =
  level :: nat
  capture :: "(nat \<times> int) list"

abbreviation CAP_UNFINISHED :: int where "CAP_UNFINISHED \<equiv> - 1"
abbreviation CAP_POSITION :: int where "CAP_POSITION \<equiv> - 2"
abbreviation LUA_MAXCAPTURES :: nat where "LUA_MAXCAPTURES \<equiv> 32"
abbreviation LUAI_MAXCCALLS :: nat where "LUAI_MAXCCALLS \<equiv> 200"

type_synonym match_result = "lua_error + nat option \<times> MatchState"

text \<open>The recursive matcher at a position of the source and of the pattern.\<close>

type_synonym matcher = "nat \<Rightarrow> nat \<Rightarrow> MatchState \<Rightarrow> match_result"

definition check_capture :: "MatchState \<Rightarrow> byte \<Rightarrow> lua_error + nat" where
  "check_capture ms l =
     (let k = uint l - 49 in
      if k < 0 \<or> k \<ge> int (level ms) \<or> snd (capture ms ! nat k) = CAP_UNFINISHED
      then Inl (RunError (''invalid capture index %'' @ [char_of (nat (k + 1) + 48)]))
      else Inr (nat k))"

text \<open>The topmost unfinished capture below a level.\<close>

fun unfinished_below :: "(nat \<times> int) list \<Rightarrow> nat \<Rightarrow> nat option" where
  "unfinished_below cs 0 = None"
| "unfinished_below cs (Suc l) = (if snd (cs ! l) = CAP_UNFINISHED then Some l else unfinished_below cs l)"

definition capture_to_close :: "MatchState \<Rightarrow> lua_error + nat" where
  "capture_to_close ms =
     (case unfinished_below (capture ms) (level ms) of
        Some l \<Rightarrow> Inr l
      | None \<Rightarrow> Inl (RunError ''invalid pattern capture''))"

definition start_capture :: "matcher \<Rightarrow> nat \<Rightarrow> nat \<Rightarrow> int \<Rightarrow> MatchState \<Rightarrow> match_result" where
  "start_capture rec si i what ms =
     (let l = level ms in
      if l \<ge> LUA_MAXCAPTURES then Inl (RunError ''too many captures'')
      else
        bindE (rec si i (ms\<lparr>capture := (capture ms)[l := (si, what)], level := l + 1\<rparr>)) (\<lambda>(res, ms).
        Inr (res, if res = None then ms\<lparr>level := level ms - 1\<rparr> else ms)))"

definition end_capture :: "matcher \<Rightarrow> nat \<Rightarrow> nat \<Rightarrow> MatchState \<Rightarrow> match_result" where
  "end_capture rec si i ms =
     bindE (capture_to_close ms) (\<lambda>l.
     let init = fst (capture ms ! l) in
     bindE (rec si i (ms\<lparr>capture := (capture ms)[l := (init, int si - int init)]\<rparr>)) (\<lambda>(res, ms).
     Inr (res, if res = None then ms\<lparr>capture := (capture ms)[l := (fst (capture ms ! l), CAP_UNFINISHED)]\<rparr> else ms)))"

text \<open>A position capture has a negative length, which is huge as a \<open>size_t\<close>: it never matches.\<close>

definition match_capture :: "byte list \<Rightarrow> MatchState \<Rightarrow> nat \<Rightarrow> byte \<Rightarrow> lua_error + nat option" where
  "match_capture s ms si l =
     bindE (check_capture ms l) (\<lambda>l.
     let (init, len) = capture ms ! l; len = (if len < 0 then len + 2 ^ 64 else len) in
     if int (length s) - int si < len then Inr None
     else if init + nat len > length s then Inl (Undefined ''read past the end'')
     else Inr (if take (nat len) (drop init s) = take (nat len) (drop si s) then Some (si + nat len) else None))"

section \<open>Repetitions\<close>

function count_single :: "byte list \<Rightarrow> byte list \<Rightarrow> nat \<Rightarrow> nat \<Rightarrow> nat \<Rightarrow> nat \<Rightarrow> lua_error + nat" where
  "count_single s p si i ep k =
     bindE (singlematch s p (si + k) i ep) (\<lambda>b. if b then count_single s p si i ep (k + 1) else Inr k)"
  by pat_completeness auto

termination
  by (relation "measure (\<lambda>(s, p, si, i, ep, k). length s - (si + k))") (auto simp: singlematch_def split: if_split_asm)

declare count_single.simps [simp del]

fun max_try :: "matcher \<Rightarrow> nat \<Rightarrow> nat \<Rightarrow> nat \<Rightarrow> MatchState \<Rightarrow> match_result" where
  "max_try rec si ep 0 ms = rec si (ep + 1) ms"
| "max_try rec si ep (Suc k) ms =
     bindE (rec (si + Suc k) (ep + 1) ms) (\<lambda>(res, ms). if res \<noteq> None then Inr (res, ms) else max_try rec si ep k ms)"

definition max_expand :: "matcher \<Rightarrow> byte list \<Rightarrow> byte list \<Rightarrow> nat \<Rightarrow> nat \<Rightarrow> nat \<Rightarrow> MatchState \<Rightarrow> match_result" where
  "max_expand rec s p si i ep ms = bindE (count_single s p si i ep 0) (\<lambda>k. max_try rec si ep k ms)"

function min_expand :: "matcher \<Rightarrow> byte list \<Rightarrow> byte list \<Rightarrow> nat \<Rightarrow> nat \<Rightarrow> nat \<Rightarrow> MatchState \<Rightarrow> match_result" where
  "min_expand rec s p si i ep ms =
     bindE (rec si (ep + 1) ms) (\<lambda>(res, ms).
     if res \<noteq> None then Inr (res, ms)
     else bindE (singlematch s p si i ep) (\<lambda>b. if b then min_expand rec s p (si + 1) i ep ms else Inr (None, ms)))"
  by pat_completeness auto

termination
  by (relation "measure (\<lambda>(rec, s, p, si, i, ep, ms). length s - si)") (auto simp: singlematch_def split: if_split_asm)

declare min_expand.simps [simp del]

section \<open>The matcher\<close>

text \<open>One turn of \<open>match\<close>: it ends with a result, or jumps to \<open>init\<close> with a new position of the source and the pattern.\<close>

datatype turn = Done "nat option" MatchState | Goto nat nat MatchState

abbreviation finish :: "match_result \<Rightarrow> lua_error + turn" where
  "finish m \<equiv> bindE m (\<lambda>(res, ms). Inr (Done res ms))"

text \<open>The label \<open>dflt\<close>: a class and its suffix \<open>c\<close> (\<open>*\<close>, \<open>?\<close>, \<open>-\<close>, \<open>+\<close> or none).\<close>

definition match_suffix :: "matcher \<Rightarrow> byte list \<Rightarrow> byte list \<Rightarrow> nat \<Rightarrow> nat \<Rightarrow> nat \<Rightarrow> bool \<Rightarrow> byte \<Rightarrow> MatchState \<Rightarrow> lua_error + turn" where
  "match_suffix rec s p si i ep b c ms =
     (if \<not> b then
        Inr (if c = 42 \<or> c = 63 \<or> c = 45 then Goto si (ep + 1) ms else Done None ms)
      else if c = 63 then
        bindE (rec (si + 1) (ep + 1) ms) (\<lambda>(res, ms).
        Inr (if res \<noteq> None then Done res ms else Goto si (ep + 1) ms))
      else if c = 43 then finish (max_expand rec s p (si + 1) i ep ms)
      else if c = 42 then finish (max_expand rec s p si i ep ms)
      else if c = 45 then finish (min_expand rec s p si i ep ms)
      else Inr (Goto (si + 1) ep ms))"

definition match_default :: "matcher \<Rightarrow> byte list \<Rightarrow> byte list \<Rightarrow> nat \<Rightarrow> nat \<Rightarrow> MatchState \<Rightarrow> lua_error + turn" where
  "match_default rec s p si i ms =
     bindE (classend p i) (\<lambda>ep.
     bindE (singlematch s p si i ep) (\<lambda>b.
     bindE (peek p ep) (\<lambda>c. match_suffix rec s p si i ep b c ms)))"

definition match_frontier :: "byte list \<Rightarrow> byte list \<Rightarrow> nat \<Rightarrow> nat \<Rightarrow> MatchState \<Rightarrow> lua_error + turn" where
  "match_frontier s p si i ms =
     bindE (peek p i) (\<lambda>c.
     if c \<noteq> 91 then Inl (RunError (''missing '' @ qt ''['' @ '' after '' @ qt ''%f'' @ '' in pattern''))
     else
       bindE (classend p i) (\<lambda>ep.
       bindE (if si = 0 then Inr 0 else peek s (si - 1)) (\<lambda>previous.
       bindE (matchbracketclass p previous i (ep - 1)) (\<lambda>b.
       if b then Inr (Done None ms)
       else
         bindE (peek s si) (\<lambda>c.
         bindE (matchbracketclass p c i (ep - 1)) (\<lambda>b. Inr (if b then Goto si ep ms else Done None ms)))))))"

definition match_turn :: "matcher \<Rightarrow> byte list \<Rightarrow> byte list \<Rightarrow> nat \<Rightarrow> nat \<Rightarrow> MatchState \<Rightarrow> lua_error + turn" where
  "match_turn rec s p si i ms =
     (if i = length p then Inr (Done (Some si) ms)
      else
        bindE (peek p i) (\<lambda>c.
        if c = 40 then
          bindE (peek p (i + 1)) (\<lambda>d.
          finish (if d = 41 then start_capture rec si (i + 2) CAP_POSITION ms
                  else start_capture rec si (i + 1) CAP_UNFINISHED ms))
        else if c = 41 then finish (end_capture rec si (i + 1) ms)
        else if c = 36 \<and> i + 1 = length p then Inr (Done (if si = length s then Some si else None) ms)
        else if c = L_ESC then
          bindE (peek p (i + 1)) (\<lambda>d.
          if d = 98 then
            bindE (matchbalance s p si (i + 2)) (\<lambda>r.
            Inr (case r of Some si \<Rightarrow> Goto si (i + 4) ms | None \<Rightarrow> Done None ms))
          else if d = 102 then match_frontier s p si (i + 2) ms
          else if isdigit d then
            bindE (match_capture s ms si d) (\<lambda>r.
            Inr (case r of Some si \<Rightarrow> Goto si (i + 2) ms | None \<Rightarrow> Done None ms))
          else match_default rec s p si i ms)
        else match_default rec s p si i ms))"

lemma bindE_InrE:
  assumes "bindE m f = Inr y"
  obtains x where "m = Inr x" and "f x = Inr y"
  using assms by (auto simp: bindE_eq_Inr_iff)

lemma peek_Inr: "peek s i = Inr c \<longleftrightarrow> i \<le> length s \<and> c = (if i < length s then s ! i else 0)"
  by (auto simp: peek_def)

lemma class_loop_step:
  "i < length p \<Longrightarrow> class_loop p i =
    (let j = (if p ! i = L_ESC \<and> i + 1 < length p then i + 2 else i + 1) in
     if j < length p \<and> p ! j = 93 then Inr (j + 1) else class_loop p j)"
  by (subst class_loop.simps) (simp add: peek_def Let_def)

lemma class_loop_bounds: "class_loop p i = Inr ep \<Longrightarrow> i < ep \<and> ep \<le> length p"
proof (induction "length p - i" arbitrary: i rule: less_induct)
  case less
  show ?case
  proof (cases "i < length p")
    case True
    define j where "j = (if p ! i = L_ESC \<and> i + 1 < length p then i + 2 else i + 1)"
    have "i < j" "j \<le> length p" "(if j < length p \<and> p ! j = 93 then Inr (j + 1) else class_loop p j) = Inr ep"
      using less.prems class_loop_step [OF True] True unfolding Let_def j_def [symmetric] by (auto simp: j_def)
    moreover have "length p - j < length p - i" using \<open>i < j\<close> True by arith
    ultimately show ?thesis using less.hyps [of j] by (cases "j < length p \<and> p ! j = 93") auto
  next
    case False
    with less.prems show ?thesis by (simp add: class_loop.simps [of p i] peek_def split: if_splits)
  qed
qed

lemma classend_bounds:
  assumes "classend p i = Inr ep" and "i < length p"
  shows "i < ep \<and> ep \<le> length p"
  using assms class_loop_bounds
  by (fastforce simp: classend_def bindE_eq_Inr_iff peek_Inr Let_def split: if_splits)

lemma matchbalance_bounds: "matchbalance s p si i = Inr r \<Longrightarrow> i + 1 < length p"
  by (auto simp: matchbalance_def split: if_splits)

lemma finish_Done [simp]: "finish m \<noteq> Inr (Goto si i ms)"
  by (auto simp: bindE_eq_Inr_iff split: prod.splits)

lemma suffix_progress: "match_suffix rec s p si i ep b c ms = Inr (Goto si' i' ms') \<Longrightarrow> ep \<le> i'"
  unfolding match_suffix_def
  by (auto elim!: bindE_InrE split: if_splits)

lemma default_progress: "match_default rec s p si i ms = Inr (Goto si' i' ms') \<Longrightarrow> i < length p \<Longrightarrow> i < i'"
  by (auto simp: match_default_def elim!: bindE_InrE dest!: suffix_progress classend_bounds)

lemma frontier_progress: "match_frontier s p si i ms = Inr (Goto si' i' ms') \<Longrightarrow> i < length p \<and> i < i'"
  by (auto simp: match_frontier_def bindE_eq_Inr_iff peek_Inr dest!: classend_bounds split: if_splits)

definition char_at :: "byte list \<Rightarrow> nat \<Rightarrow> byte" where
  "char_at p i = (if i < length p then p ! i else 0)"

lemma peek_char_at: "i \<le> length p \<Longrightarrow> peek p i = Inr (char_at p i)"
  by (simp add: peek_def char_at_def)

lemma match_turn_at:
  assumes "i < length p"
  shows "match_turn rec s p si i ms =
    (let c = p ! i; d = char_at p (i + 1) in
     if c = 40 then finish (if d = 41 then start_capture rec si (i + 2) CAP_POSITION ms else start_capture rec si (i + 1) CAP_UNFINISHED ms)
     else if c = 41 then finish (end_capture rec si (i + 1) ms)
     else if c = 36 \<and> i + 1 = length p then Inr (Done (if si = length s then Some si else None) ms)
     else if c = L_ESC then
       if d = 98 then bindE (matchbalance s p si (i + 2)) (\<lambda>r. Inr (case r of Some si \<Rightarrow> Goto si (i + 4) ms | None \<Rightarrow> Done None ms))
       else if d = 102 then match_frontier s p si (i + 2) ms
       else if isdigit d then
         bindE (match_capture s ms si d) (\<lambda>r. Inr (case r of Some si \<Rightarrow> Goto si (i + 2) ms | None \<Rightarrow> Done None ms))
       else match_default rec s p si i ms
     else match_default rec s p si i ms)"
proof -
  have c: "peek p i = Inr (p ! i)" "peek p (i + 1) = Inr (char_at p (i + 1))" and i: "i \<noteq> length p"
    using assms by (simp_all add: peek_char_at) (simp add: char_at_def)
  show ?thesis unfolding match_turn_def c bindE_simps Let_def if_not_P [OF i] ..
qed

lemma turn_progress:
  assumes "match_turn rec s p si i ms = Inr (Goto si' i' ms')"
  shows "i < length p \<and> i < i'"
proof -
  have i: "i < length p" using assms by (auto simp: match_turn_def peek_def split: if_splits)
  show ?thesis
    using assms i default_progress [of rec s p si i ms si' i' ms'] frontier_progress [of s p si "i + 2" ms si' i' ms']
    unfolding match_turn_at [OF i] Let_def
    by (simp only: finish_Done split: if_splits) (auto elim!: bindE_InrE split: option.splits)
qed

function match_init :: "matcher \<Rightarrow> byte list \<Rightarrow> byte list \<Rightarrow> nat \<Rightarrow> nat \<Rightarrow> MatchState \<Rightarrow> match_result" where
  "match_init rec s p si i ms =
     bindE (match_turn rec s p si i ms) (\<lambda>t.
     case t of Done res ms \<Rightarrow> Inr (res, ms) | Goto si i ms \<Rightarrow> match_init rec s p si i ms)"
  by pat_completeness auto

termination
  by (relation "measure (\<lambda>(rec, s, p, si, i, ms). length p - i)") (auto dest: turn_progress)

declare match_init.simps [simp del]

text \<open>The first argument is \<open>matchdepth\<close>.\<close>

fun match :: "nat \<Rightarrow> byte list \<Rightarrow> byte list \<Rightarrow> nat \<Rightarrow> nat \<Rightarrow> MatchState \<Rightarrow> match_result" where
  "match 0 s p si i ms = Inl (RunError ''pattern too complex'')"
| "match (Suc d) s p si i ms = match_init (match d s p) s p si i ms"

definition fresh_state :: MatchState where
  "fresh_state = \<lparr>level = 0, capture = replicate LUA_MAXCAPTURES (0, 0)\<rparr>"

end
