(* ===== verification/PatMatch.thy ===== *)
theory PatMatch
  imports StrMatch
begin

text \<open>
  What the matcher of \<open>StrMatch\<close> computes: patterns as lists of items, the matches of a list of items in the order of
  preference, and the proof that \<open>match\<close> returns the first of them, or its error, and leaves the captures as they were
  when there is none.
\<close>


section \<open>What a pattern means\<close>

text \<open>
  A pattern is a list of items, which the code never builds: it reads the pattern again at every step. \<open>Bad\<close> stands for the
  rest of a malformed pattern; the error is raised only by a match that gets there.
\<close>

datatype item =
    One "byte \<Rightarrow> bool" | Opt "byte \<Rightarrow> bool" | Star "byte \<Rightarrow> bool" | Plus "byte \<Rightarrow> bool" | Minus "byte \<Rightarrow> bool"
  | Open | OpenPos | Close | EndAnchor | Balance byte byte | Frontier "byte \<Rightarrow> bool" | Back byte | Bad lua_error

definition class_of :: "byte list \<Rightarrow> nat \<Rightarrow> nat \<Rightarrow> byte \<Rightarrow> bool" where
  "class_of p i ep c \<longleftrightarrow> singlematch [c] p 0 i ep = Inr True"

text \<open>A class with its suffix; and every item of the pattern, with the position behind it.\<close>

definition parse_single :: "byte list \<Rightarrow> nat \<Rightarrow> item \<times> nat" where
  "parse_single p i =
     (case classend p i of
        Inl e \<Rightarrow> (Bad e, length p)
      | Inr ep \<Rightarrow>
          let cl = class_of p i ep; x = char_at p ep in
          if x = 63 then (Opt cl, ep + 1) else if x = 43 then (Plus cl, ep + 1)
          else if x = 42 then (Star cl, ep + 1) else if x = 45 then (Minus cl, ep + 1) else (One cl, ep))"

definition parse_frontier :: "byte list \<Rightarrow> nat \<Rightarrow> item \<times> nat" where
  "parse_frontier p i =
     (if char_at p i = 91 then
        case classend p i of Inl e \<Rightarrow> (Bad e, length p) | Inr ep \<Rightarrow> (Frontier (class_of p i ep), ep)
      else (Bad (RunError (''missing '' @ qt ''['' @ '' after '' @ qt ''%f'' @ '' in pattern'')), length p))"

definition parse_balance :: "byte list \<Rightarrow> nat \<Rightarrow> item \<times> nat" where
  "parse_balance p i =
     (if i + 1 < length p then (Balance (p ! i) (p ! (i + 1)), i + 2)
      else (Bad (RunError (''malformed pattern (missing arguments to '' @ qt ''%b'' @ '')'')), length p))"

definition parse_item :: "byte list \<Rightarrow> nat \<Rightarrow> item \<times> nat" where
  "parse_item p i =
     (let c = p ! i; d = char_at p (i + 1) in
      if c = 40 then (if d = 41 then (OpenPos, i + 2) else (Open, i + 1))
      else if c = 41 then (Close, i + 1)
      else if c = 36 \<and> i + 1 = length p then (EndAnchor, length p)
      else if c = L_ESC then
        if d = 98 then parse_balance p (i + 2)
        else if d = 102 then parse_frontier p (i + 2)
        else if isdigit d then (Back d, i + 2)
        else parse_single p i
      else parse_single p i)"

lemma char_at_pos: "char_at p i \<noteq> 0 \<Longrightarrow> i < length p"
  by (simp add: char_at_def split: if_splits)

lemma parse_single_progress:
  assumes "i < length p" and "parse_single p i = (it, j)"
  shows "i < j \<and> j \<le> length p"
proof (cases "classend p i")
  case (Inr ep)
  note ep = classend_bounds [OF Inr assms(1)]
  have "char_at p ep \<noteq> 0 \<longrightarrow> ep + 1 \<le> length p" using char_at_pos [of p ep] by auto
  with assms(2) ep show ?thesis by (auto simp: parse_single_def Inr Let_def split: if_splits)
qed (use assms in \<open>simp add: parse_single_def\<close>)

lemma parse_frontier_progress:
  assumes "i \<le> length p" and "parse_frontier p i = (it, j)"
  shows "i \<le> j \<and> j \<le> length p"
proof (cases "char_at p i = 91")
  case True
  then have "i < length p" using char_at_pos [of p i] by simp
  then show ?thesis using assms(2) True classend_bounds [of p i] by (fastforce simp: parse_frontier_def split: sum.splits)
qed (use assms in \<open>simp add: parse_frontier_def\<close>)

lemma parse_balance_progress:
  assumes "i \<le> length p" and "parse_balance p i = (it, j)"
  shows "i \<le> j \<and> j \<le> length p"
  using assms by (auto simp: parse_balance_def split: if_splits)

lemma parse_item_progress:
  assumes "i < length p" and "parse_item p i = (it, j)"
  shows "i < j \<and> j \<le> length p"
proof -
  have esc: "i + 2 \<le> length p" if "char_at p (i + 1) \<noteq> 0" using char_at_pos [OF that] by simp
  have digit: "d \<noteq> 0" if "isdigit d" for d using that by (auto simp: isdigit_def)
  show ?thesis
    using assms parse_single_progress [of i p it j] parse_frontier_progress [of "i + 2" p it j]
      parse_balance_progress [of "i + 2" p it j] esc digit [of "char_at p (i + 1)"]
    by (simp add: parse_item_def Let_def split: if_splits)
qed

function parse :: "byte list \<Rightarrow> nat \<Rightarrow> item list" where
  "parse p i = (if i < length p then (let (it, j) = parse_item p i in it # parse p j) else [])"
  by pat_completeness auto

termination
  by (relation "measure (\<lambda>(p, i). length p - i)") (auto dest: parse_item_progress [OF _ sym])

declare parse.simps [simp del]

type_synonym captured = "(nat \<times> int) list"
type_synonym outcome = "lua_error + nat \<times> captured"

definition fits :: "byte list \<Rightarrow> (byte \<Rightarrow> bool) \<Rightarrow> nat \<Rightarrow> bool" where
  "fits s C si \<longleftrightarrow> si < length s \<and> C (s ! si)"

text \<open>The length of the longest run of characters of a class.\<close>

definition span :: "byte list \<Rightarrow> (byte \<Rightarrow> bool) \<Rightarrow> nat \<Rightarrow> nat" where
  "span s C si = length (takeWhile C (drop si s))"

definition back_reference :: "byte list \<Rightarrow> byte \<Rightarrow> nat \<Rightarrow> captured \<Rightarrow> outcome list" where
  "back_reference s l si caps =
     (let k = uint l - 49 in
      if k < 0 \<or> int (length caps) \<le> k \<or> snd (caps ! nat k) = CAP_UNFINISHED
      then [Inl (RunError (''invalid capture index %'' @ [char_of (nat (k + 1) + 48)]))]
      else
        let (i, len) = caps ! nat k; w = take (nat len) (drop i s) in
        if 0 \<le> len \<and> take (length w) (drop si s) = w then [Inr (si + length w, caps)] else [])"

text \<open>The ways to go on after an item, the preferred one first.\<close>

definition branches :: "byte list \<Rightarrow> item \<Rightarrow> nat \<Rightarrow> captured \<Rightarrow> outcome list" where
  "branches s it si caps =
     (let open_capture = (\<lambda>what. if length caps < LUA_MAXCAPTURES then [Inr (si, caps @ [(si, what)])] else [Inl (RunError ''too many captures'')])
      in case it of
       One C \<Rightarrow> (if fits s C si then [Inr (si + 1, caps)] else [])
     | Opt C \<Rightarrow> (if fits s C si then [Inr (si + 1, caps)] else []) @ [Inr (si, caps)]
     | Star C \<Rightarrow> map (\<lambda>k. Inr (si + k, caps)) (rev [0..<Suc (span s C si)])
     | Plus C \<Rightarrow> (if fits s C si then map (\<lambda>k. Inr (si + 1 + k, caps)) (rev [0..<Suc (span s C (si + 1))]) else [])
     | Minus C \<Rightarrow> map (\<lambda>k. Inr (si + k, caps)) [0..<Suc (span s C si)]
     | Open \<Rightarrow> open_capture CAP_UNFINISHED
     | OpenPos \<Rightarrow> open_capture CAP_POSITION
     | Close \<Rightarrow>
         (case unfinished_below caps (length caps) of
            None \<Rightarrow> [Inl (RunError ''invalid pattern capture'')]
          | Some l \<Rightarrow> [Inr (si, caps[l := (fst (caps ! l), int si - int (fst (caps ! l)))])])
     | EndAnchor \<Rightarrow> (if si = length s then [Inr (si, caps)] else [])
     | Balance b e \<Rightarrow>
         (if char_at s si = b then (case balance_loop s b e 1 si of Inr (Some si) \<Rightarrow> [Inr (si, caps)] | _ \<Rightarrow> []) else [])
     | Frontier C \<Rightarrow> (if \<not> C (if si = 0 then 0 else s ! (si - 1)) \<and> C (char_at s si) then [Inr (si, caps)] else [])
     | Back l \<Rightarrow> back_reference s l si caps
     | Bad e \<Rightarrow> [Inl e])"

text \<open>All the matches of a list of items from a position, in the order of preference.\<close>

fun matches :: "byte list \<Rightarrow> item list \<Rightarrow> nat \<Rightarrow> captured \<Rightarrow> outcome list" where
  "matches s [] si caps = [Inr (si, caps)]"
| "matches s (it # its) si caps =
     concat (map (\<lambda>r. case r of Inl e \<Rightarrow> [Inl e] | Inr (si, caps) \<Rightarrow> matches s its si caps) (branches s it si caps))"

definition first :: "outcome list \<Rightarrow> lua_error + (nat \<times> captured) option" where
  "first rs = (case rs of [] \<Rightarrow> Inr None | Inl e # _ \<Rightarrow> Inl e | Inr x # _ \<Rightarrow> Inr (Some x))"

text \<open>The items for which the code calls \<open>match\<close> again.\<close>

definition nested :: "item \<Rightarrow> bool" where
  "nested it = (case it of Opt C \<Rightarrow> True | Star C \<Rightarrow> True | Plus C \<Rightarrow> True | Minus C \<Rightarrow> True
     | Open \<Rightarrow> True | OpenPos \<Rightarrow> True | Close \<Rightarrow> True | _ \<Rightarrow> False)"

definition depth_needed :: "item list \<Rightarrow> nat" where
  "depth_needed its = length (filter nested its)"

section \<open>The matcher finds the preferred match\<close>

definition state_ok :: "MatchState \<Rightarrow> bool" where
  "state_ok ms \<longleftrightarrow> level ms \<le> LUA_MAXCAPTURES \<and> length (capture ms) = LUA_MAXCAPTURES"

definition captures :: "MatchState \<Rightarrow> captured" where
  "captures ms = take (level ms) (capture ms)"

definition caps_ok :: "byte list \<Rightarrow> nat \<Rightarrow> captured \<Rightarrow> bool" where
  "caps_ok s si caps \<longleftrightarrow>
     si \<le> length s \<and> length s < 2 ^ 63 \<and> (\<forall>(i, len) \<in> set caps. i \<le> si \<and> CAP_POSITION \<le> len \<and> int i + len \<le> int si)"

definition simulates :: "MatchState \<Rightarrow> match_result \<Rightarrow> lua_error + (nat \<times> captured) option \<Rightarrow> bool" where
  "simulates ms m f =
     (case f of
        Inl e \<Rightarrow> m = Inl e
      | Inr None \<Rightarrow> \<exists>ms'. m = Inr (None, ms') \<and> state_ok ms' \<and> captures ms' = captures ms
      | Inr (Some (e, caps)) \<Rightarrow> \<exists>ms'. m = Inr (Some e, ms') \<and> state_ok ms' \<and> captures ms' = caps)"

lemma simulates_simps [simp]:
  "simulates ms m (Inl err) \<longleftrightarrow> m = Inl err"
  "simulates ms m (Inr None) \<longleftrightarrow> (\<exists>ms'. m = Inr (None, ms') \<and> state_ok ms' \<and> captures ms' = captures ms)"
  "simulates ms m (Inr (Some (e, caps))) \<longleftrightarrow> (\<exists>ms'. m = Inr (Some e, ms') \<and> state_ok ms' \<and> captures ms' = caps)"
  by (simp_all add: simulates_def)

lemma first_simps [simp]:
  "first [] = Inr None" "first (Inl err # rs) = Inl err" "first (Inr x # rs) = Inr (Some x)"
  by (simp_all add: first_def)

lemma first_append: "first (xs @ ys) = (if first xs = Inr None then first ys else first xs)"
  by (auto simp: first_def split: list.splits sum.splits)

lemma char_at_single [simp]: "char_at [c] 0 = c"
  by (simp add: char_at_def)

lemma class_total:
  assumes "ec < length p"
  shows "\<exists>b. bracket_loop p c ec sig j = Inr b"
  using assms
  by (induction p c ec sig j rule: bracket_loop.induct) (subst bracket_loop.simps, auto simp: peek_char_at)

lemma bracketclass_total: "ec < length p \<Longrightarrow> i < length p \<Longrightarrow> \<exists>b. matchbracketclass p c i ec = Inr b"
  using class_total by (auto simp: matchbracketclass_def peek_char_at)

lemma single_total:
  assumes "i < length p" and "ep \<le> length p"
  shows "\<exists>b. singlematch [c] p 0 i ep = Inr b"
proof -
  have "ep - 1 < length p" using assms by simp
  then show ?thesis using assms bracketclass_total [of "ep - 1" p i c] by (auto simp: singlematch_def peek_char_at)
qed

lemma singlematch_fits:
  assumes "i < length p" and "ep \<le> length p"
  shows "singlematch s p si i ep = Inr (fits s (class_of p i ep) si)"
proof (cases "si < length s")
  case True
  then have "singlematch s p si i ep = singlematch [s ! si] p 0 i ep" by (simp add: singlematch_def peek_def)
  moreover obtain b where "singlematch [s ! si] p 0 i ep = Inr b" using single_total [OF assms] by blast
  ultimately show ?thesis using True by (simp add: fits_def class_of_def)
next
  case False
  then show ?thesis by (simp add: singlematch_def fits_def)
qed

lemma bracketclass_class:
  assumes "i < length p" and "ep \<le> length p" and "p ! i = 91"
  shows "matchbracketclass p c i (ep - 1) = Inr (class_of p i ep c)"
  using single_total [OF assms(1,2), of c] assms by (auto simp: class_of_def singlematch_def peek_def)

lemma span_step: "span s C si = (if fits s C si then Suc (span s C (si + 1)) else 0)"
  by (cases "si < length s") (auto simp: span_def fits_def Cons_nth_drop_Suc [symmetric])

lemma span_le: "si \<le> length s \<Longrightarrow> si + span s C si \<le> length s"
  using length_takeWhile_le [of C "drop si s"] by (simp add: span_def)

lemma count_single_span:
  assumes "i < length p" and "ep \<le> length p"
  shows "count_single s p si i ep k = Inr (k + span s (class_of p i ep) (si + k))"
proof (induction "length s - (si + k)" arbitrary: k rule: less_induct)
  case less
  show ?case
    using less.hyps [of "k + 1"] span_step [of s "class_of p i ep" "si + k"]
    by (subst count_single.simps) (auto simp: singlematch_fits [OF assms] fits_def)
qed

text \<open>A matcher that is right for patterns that need less than \<open>n\<close> nested calls.\<close>

definition matcher_ok :: "matcher \<Rightarrow> byte list \<Rightarrow> byte list \<Rightarrow> nat \<Rightarrow> bool" where
  "matcher_ok rec s p n \<longleftrightarrow>
     (\<forall>si i ms. state_ok ms \<and> caps_ok s si (captures ms) \<and> i \<le> length p \<and> depth_needed (parse p i) < n \<longrightarrow>
        simulates ms (rec si i ms) (first (matches s (parse p i) si (captures ms))))"

lemma matcher_okD:
  assumes "matcher_ok rec s p n" and "state_ok ms" and "caps_ok s si caps" and "captures ms = caps"
    and "i \<le> length p" and "depth_needed (parse p i) < n"
  shows "simulates ms (rec si i ms) (first (matches s (parse p i) si caps))"
  using assms by (auto simp: matcher_ok_def)

lemma simulates_cases:
  assumes "simulates ms m f"
  obtains (err) err where "f = Inl err" "m = Inl err"
    | (fail) ms' where "f = Inr None" "m = Inr (None, ms')" "state_ok ms'" "captures ms' = captures ms"
    | (found) e ms' where "f = Inr (Some (e, captures ms'))" "m = Inr (Some e, ms')" "state_ok ms'"
  using assms by (auto simp: simulates_def split: sum.splits option.splits)

lemma simulates_cong: "captures ms' = captures ms \<Longrightarrow> simulates ms' m f = simulates ms m f"
  by (simp add: simulates_def split: sum.split option.split)

lemma simulates_or_else:
  assumes "simulates ms m f" and "\<And>ms'. state_ok ms' \<Longrightarrow> captures ms' = captures ms \<Longrightarrow> simulates ms' (k ms') g"
  shows "simulates ms (bindE m (\<lambda>(res, ms). if res \<noteq> None then Inr (res, ms) else k ms)) (if f = Inr None then g else f)"
  using assms(1)
proof (cases rule: simulates_cases)
  case (fail ms')
  have "simulates ms (k ms') g" using assms(2) [OF fail(3,4)] by (simp only: simulates_cong [OF fail(4)])
  then show ?thesis using fail(1,2) by simp
qed simp_all

lemma caps_ok_mono: "caps_ok s si caps \<Longrightarrow> si \<le> si' \<Longrightarrow> si' \<le> length s \<Longrightarrow> caps_ok s si' caps"
  by (fastforce simp: caps_ok_def)

abbreviation tries :: "byte list \<Rightarrow> item list \<Rightarrow> nat \<Rightarrow> captured \<Rightarrow> nat list \<Rightarrow> outcome list" where
  "tries s its si caps ks \<equiv> concat (map (\<lambda>k. matches s its (si + k) caps) ks)"

lemma max_try_first:
  assumes "matcher_ok rec s p n" and "caps_ok s si caps" and "ep + 1 \<le> length p" and "depth_needed (parse p (ep + 1)) < n"
  shows "si + k \<le> length s \<Longrightarrow> state_ok ms \<Longrightarrow> captures ms = caps \<Longrightarrow>
    simulates ms (max_try rec si ep k ms) (first (tries s (parse p (ep + 1)) si caps (rev [0..<Suc k])))"
proof (induction k arbitrary: ms)
  case 0
  then show ?case using matcher_okD [OF assms(1) _ assms(2) _ assms(3,4)] by simp
next
  case (Suc k)
  have "simulates ms (rec (si + Suc k) (ep + 1) ms) (first (matches s (parse p (ep + 1)) (si + Suc k) caps))"
    using Suc.prems by (intro matcher_okD [OF assms(1) _ caps_ok_mono [OF assms(2)] _ assms(3,4)]) simp_all
  moreover have "tries s (parse p (ep + 1)) si caps (rev [0..<Suc (Suc k)]) =
      matches s (parse p (ep + 1)) (si + Suc k) caps @ tries s (parse p (ep + 1)) si caps (rev [0..<Suc k])"
    by simp
  moreover have "simulates ms' (max_try rec si ep k ms') (first (tries s (parse p (ep + 1)) si caps (rev [0..<Suc k])))"
    if "state_ok ms'" "captures ms' = caps" for ms' using Suc.IH [OF _ that] Suc.prems(1) by simp
  ultimately show ?case
    using Suc.prems(3) by (simp only: first_append max_try.simps) (rule simulates_or_else, simp_all)
qed

lemma upt_shift: "[0..<Suc (Suc k)] = 0 # map Suc [0..<Suc k]"
  by (simp add: map_Suc_upt upt_conv_Cons del: upt_Suc)

lemma tries_shift: "tries s its si caps (map Suc ks) = tries s its (si + 1) caps ks"
  by (simp add: comp_def)

lemma min_expand_first:
  assumes "matcher_ok rec s p n" and "ep + 1 \<le> length p" and "depth_needed (parse p (ep + 1)) < n" and "i < length p"
  shows "caps_ok s si caps \<Longrightarrow> state_ok ms \<Longrightarrow> captures ms = caps \<Longrightarrow>
    simulates ms (min_expand rec s p si i ep ms)
      (first (tries s (parse p (ep + 1)) si caps [0..<Suc (span s (class_of p i ep) si)]))"
proof (induction "length s - si" arbitrary: si ms rule: less_induct)
  case less
  let ?C = "class_of p i ep" and ?its = "parse p (ep + 1)"
  have now: "simulates ms (rec si (ep + 1) ms) (first (matches s ?its si caps))"
    by (rule matcher_okD [OF assms(1) less.prems(2,1,3) assms(2,3)])
  have single: "singlematch s p si i ep = Inr (fits s ?C si)" using assms by (intro singlematch_fits) simp_all
  show ?case
  proof (cases "fits s ?C si")
    case True
    then have si: "si < length s" by (simp add: fits_def)
    have later: "simulates ms' (min_expand rec s p (si + 1) i ep ms') (first (tries s ?its (si + 1) caps [0..<Suc (span s ?C (si + 1))]))"
      if "state_ok ms'" "captures ms' = caps" for ms'
      using less.hyps [of "si + 1" ms'] si caps_ok_mono [OF less.prems(1), of "si + 1"] that by simp
    have "[0..<Suc (span s ?C si)] = 0 # map Suc [0..<Suc (span s ?C (si + 1))]"
      using True span_step [of s ?C si] by (simp only: upt_shift if_True)
    then have "tries s ?its si caps [0..<Suc (span s ?C si)] =
        matches s ?its si caps @ tries s ?its (si + 1) caps [0..<Suc (span s ?C (si + 1))]"
      using tries_shift [of s ?its si caps] by (simp only: list.map concat.simps add_0_right)
    moreover have "min_expand rec s p si i ep ms = bindE (rec si (ep + 1) ms) (\<lambda>(res, ms).
        if res \<noteq> None then Inr (res, ms) else min_expand rec s p (si + 1) i ep ms)"
      unfolding min_expand.simps [of rec s p si] single eqTrueI [OF True] bindE_simps if_True ..
    ultimately show ?thesis
      using now later less.prems(3) by (simp only: first_append) (rule simulates_or_else, simp_all)
  next
    case False
    then have t: "tries s ?its si caps [0..<Suc (span s ?C si)] = matches s ?its si caps"
      using span_step [of s ?C si] by simp
    have e: "min_expand rec s p si i ep ms = bindE (rec si (ep + 1) ms) (\<lambda>(res, ms).
        if res \<noteq> None then Inr (res, ms) else Inr (None, ms))"
      unfolding min_expand.simps [of rec s p si] single Eq_FalseI [OF False] bindE_simps if_False ..
    from now show ?thesis unfolding t e by (cases rule: simulates_cases) simp_all
  qed
qed

lemma unfinished_below_cong: "(\<And>i. i < n \<Longrightarrow> cs ! i = ds ! i) \<Longrightarrow> unfinished_below cs n = unfinished_below ds n"
  by (induction n) simp_all

lemma unfinished_below_Some: "unfinished_below cs n = Some l \<Longrightarrow> l < n \<and> snd (cs ! l) = CAP_UNFINISHED"
  by (induction n) (auto split: if_splits)

lemma length_captures: "state_ok ms \<Longrightarrow> length (captures ms) = level ms"
  by (simp add: state_ok_def captures_def)

lemma captures_unfinished: "unfinished_below (captures ms) (level ms) = unfinished_below (capture ms) (level ms)"
  by (rule unfinished_below_cong) (simp add: captures_def)

lemma captures_open:
  assumes "state_ok ms" and "level ms < LUA_MAXCAPTURES" and "ms1 = ms\<lparr>capture := (capture ms)[level ms := x], level := level ms + 1\<rparr>"
  shows "state_ok ms1 \<and> captures ms1 = captures ms @ [x]"
  using assms by (simp add: state_ok_def captures_def take_Suc_conv_app_nth)

lemma captures_drop:
  assumes "state_ok ms'" and "captures ms' = cs @ [x]" and "ms1 = ms'\<lparr>level := level ms' - 1\<rparr>"
  shows "state_ok ms1 \<and> captures ms1 = cs"
proof -
  have l: "level ms' = length cs + 1" using length_captures [OF assms(1)] assms(2) by simp
  then have "take (length cs) (captures ms') = captures ms1" unfolding assms(3) captures_def by simp
  then show ?thesis using assms l by (simp add: state_ok_def)
qed

lemma captures_update:
  assumes "state_ok ms" and "l < level ms" and "ms1 = ms\<lparr>capture := (capture ms)[l := x]\<rparr>"
  shows "state_ok ms1 \<and> captures ms1 = (captures ms)[l := x] \<and> capture ms ! l = captures ms ! l"
  using assms by (simp add: state_ok_def captures_def take_update_swap)

lemma start_capture_simulates:
  assumes "matcher_ok rec s p n" and "state_ok ms" and "caps_ok s si (captures ms)" and "i \<le> length p" and "depth_needed (parse p i) < n"
    and "what = CAP_UNFINISHED \<or> what = CAP_POSITION"
  shows "simulates ms (start_capture rec si i what ms)
    (if length (captures ms) < LUA_MAXCAPTURES then first (matches s (parse p i) si (captures ms @ [(si, what)]))
     else Inl (RunError ''too many captures''))"
proof (cases "level ms < LUA_MAXCAPTURES")
  case True
  define ms1 where "ms1 = ms\<lparr>capture := (capture ms)[level ms := (si, what)], level := level ms + 1\<rparr>"
  note m = captures_open [OF assms(2) True ms1_def]
  have c: "caps_ok s si (captures ms @ [(si, what)])" using assms(3,6) by (auto simp: caps_ok_def)
  have "simulates ms1 (rec si i ms1) (first (matches s (parse p i) si (captures ms @ [(si, what)])))"
    using m by (intro matcher_okD [OF assms(1) _ c _ assms(4,5)]) simp_all
  moreover have e: "start_capture rec si i what ms = bindE (rec si i ms1) (\<lambda>(res, ms).
      Inr (res, if res = None then ms\<lparr>level := level ms - 1\<rparr> else ms))"
    using True by (simp add: start_capture_def ms1_def Let_def)
  moreover have "length (captures ms) < LUA_MAXCAPTURES" using True length_captures [OF assms(2)] by simp
  ultimately show ?thesis unfolding e if_P [OF \<open>length (captures ms) < LUA_MAXCAPTURES\<close>]
  proof (elim simulates_cases)
    fix ms'
    assume f: "first (matches s (parse p i) si (captures ms @ [(si, what)])) = Inr None" "rec si i ms1 = Inr (None, ms')"
      and s: "state_ok ms'" "captures ms' = captures ms1"
    from captures_drop [OF s(1) _ refl] s(2) m
    show "simulates ms (bindE (rec si i ms1) (\<lambda>(res, ms). Inr (res, if res = None then ms\<lparr>level := level ms - 1\<rparr> else ms)))
       (first (matches s (parse p i) si (captures ms @ [(si, what)])))" unfolding f by simp
  qed simp_all
next
  case False
  then show ?thesis using length_captures [OF assms(2)] by (simp add: start_capture_def)
qed

lemma caps_ok_close:
  assumes "caps_ok s si caps" and "l < length caps"
  shows "caps_ok s si (caps[l := (fst (caps ! l), int si - int (fst (caps ! l)))])"
proof -
  have "caps ! l \<in> set caps" using assms(2) by simp
  then show ?thesis
    using assms(1) set_update_subset_insert [of caps l "(fst (caps ! l), int si - int (fst (caps ! l)))"] by (fastforce simp: caps_ok_def)
qed

lemma end_capture_simulates:
  assumes "matcher_ok rec s p n" and "state_ok ms" and "caps_ok s si (captures ms)" and "i \<le> length p" and "depth_needed (parse p i) < n"
  shows "simulates ms (end_capture rec si i ms)
    (case unfinished_below (captures ms) (length (captures ms)) of
       None \<Rightarrow> Inl (RunError ''invalid pattern capture'')
     | Some l \<Rightarrow> first (matches s (parse p i) si ((captures ms)[l := (fst (captures ms ! l), int si - int (fst (captures ms ! l)))])))"
proof (cases "unfinished_below (captures ms) (level ms)")
  case None
  then show ?thesis using length_captures [OF assms(2)]
    by (simp add: end_capture_def capture_to_close_def captures_unfinished)
next
  case (Some l)
  note l = unfinished_below_Some [OF Some]
  define x where "x = (fst (captures ms ! l), int si - int (fst (captures ms ! l)))"
  define ms1 where "ms1 = ms\<lparr>capture := (capture ms)[l := x]\<rparr>"
  note m = captures_update [OF assms(2) _ ms1_def] and len = length_captures [OF assms(2)]
  have c: "caps_ok s si ((captures ms)[l := x])"
    using caps_ok_close [OF assms(3), of l] l len by (simp add: x_def)
  have sim: "simulates ms1 (rec si i ms1) (first (matches s (parse p i) si ((captures ms)[l := x])))"
    using m l by (intro matcher_okD [OF assms(1) _ c _ assms(4,5)]) simp_all
  have e: "end_capture rec si i ms = bindE (rec si i ms1) (\<lambda>(res, ms).
      Inr (res, if res = None then ms\<lparr>capture := (capture ms)[l := (fst (capture ms ! l), CAP_UNFINISHED)]\<rparr> else ms))"
    using Some m l by (simp add: end_capture_def capture_to_close_def captures_unfinished ms1_def x_def Let_def)
  have undo: "state_ok ms2 \<and> captures ms2 = captures ms"
    if "state_ok ms'" "captures ms' = captures ms1" "ms2 = ms'\<lparr>capture := (capture ms')[l := (fst (capture ms' ! l), CAP_UNFINISHED)]\<rparr>" for ms' ms2
  proof -
    have lv: "l < level ms'" using l m len length_captures [OF that(1)] that(2) by simp
    have "(fst (captures ms ! l), CAP_UNFINISHED) = captures ms ! l" using l by (simp add: prod_eq_iff)
    then show ?thesis using captures_update [OF that(1) lv that(3)] that(2) m l len by (simp add: x_def)
  qed
  have u: "unfinished_below (captures ms) (length (captures ms)) = Some l" using Some len by simp
  have c1: "captures ms1 = (captures ms)[l := x]" using m l by blast
  from sim show ?thesis unfolding u option.case x_def [symmetric]
  proof (cases rule: simulates_cases)
    case (fail ms')
    from undo [OF fail(3,4) refl] show "simulates ms (end_capture rec si i ms) (first (matches s (parse p i) si ((captures ms)[l := x])))"
      unfolding e fail(1,2) by simp
  qed (simp_all add: e)
qed

lemma balance_total: "\<exists>r. balance_loop s b e cont si = Inr r \<and> (case r of Some si' \<Rightarrow> si \<le> si' \<and> si' \<le> length s | None \<Rightarrow> True)"
proof (induction s b e cont si rule: balance_loop.induct)
  case (1 s b e cont si)
  then show ?case
    by (subst balance_loop.simps) (force simp: peek_def split: option.splits)
qed


text \<open>What a turn owes to the matches \<open>f\<close> of the pattern from its position.\<close>

definition turn_ok :: "byte list \<Rightarrow> byte list \<Rightarrow> nat \<Rightarrow> MatchState \<Rightarrow> lua_error + turn \<Rightarrow> lua_error + (nat \<times> captured) option \<Rightarrow> bool" where
  "turn_ok s p n ms t f =
     (case t of
        Inl e \<Rightarrow> f = Inl e
      | Inr (Done res ms') \<Rightarrow> simulates ms (Inr (res, ms')) f
      | Inr (Goto si i ms') \<Rightarrow>
          state_ok ms' \<and> captures ms' = captures ms \<and> caps_ok s si (captures ms) \<and> i \<le> length p \<and> depth_needed (parse p i) \<le> n \<and>
          f = first (matches s (parse p i) si (captures ms)))"

lemma turn_ok_simps [simp]:
  "turn_ok s p n ms (Inl err) f \<longleftrightarrow> f = Inl err"
  "turn_ok s p n ms (Inr (Done res ms')) f \<longleftrightarrow> simulates ms (Inr (res, ms')) f"
  "turn_ok s p n ms (Inr (Goto si i ms')) f \<longleftrightarrow>
     state_ok ms' \<and> captures ms' = captures ms \<and> caps_ok s si (captures ms) \<and> i \<le> length p \<and> depth_needed (parse p i) \<le> n \<and>
     f = first (matches s (parse p i) si (captures ms))"
  by (simp_all add: turn_ok_def)

lemma finish_ok: "simulates ms m f \<Longrightarrow> turn_ok s p n ms (finish m) f"
  by (erule simulates_cases) auto

lemma matches_item:
  "matches s (it # its) si caps = concat (map (\<lambda>r. case r of Inl e \<Rightarrow> [Inl e] | Inr (si, caps) \<Rightarrow> matches s its si caps) (branches s it si caps))"
  by simp

lemma depth_needed_Cons: "depth_needed (it # its) = (if nested it then 1 else 0) + depth_needed its"
  by (simp add: depth_needed_def)

text \<open>The contract between a call of \<open>match\<close> and the calls it makes: \<open>rec\<close> is right for patterns that need less depth.\<close>

locale nested_call =
  fixes rec :: matcher and s p :: "byte list" and n :: nat
  assumes rec: "matcher_ok rec s p n"
begin

lemma suffix_ok:
  assumes ms: "state_ok ms" and caps: "caps_ok s si (captures ms)" and i: "i < length p"
    and ep: "classend p i = Inr ep" and single: "parse_single p i = (it, j)"
    and d: "depth_needed (it # parse p j) \<le> n"
  shows "turn_ok s p n ms (match_suffix rec s p si i ep (fits s (class_of p i ep) si) (char_at p ep) ms)
    (first (matches s (it # parse p j) si (captures ms)))"
proof -
  let ?C = "class_of p i ep" and ?c = "char_at p ep"
  have bounds: "i < ep" "ep \<le> length p" using classend_bounds [OF ep i] by simp_all
  have suffix: "ep + 1 \<le> length p" if "?c \<noteq> 0" using char_at_pos [OF that] by simp
  have next_caps: "caps_ok s (si + 1) (captures ms)" if "fits s ?C si"
    using that caps_ok_mono [OF caps, of "si + 1"] by (simp add: fits_def)
  have expand: "simulates ms (max_expand rec s p si' i ep ms) (first (tries s (parse p (ep + 1)) si' (captures ms) (rev [0..<Suc (span s ?C si')])))"
    if "caps_ok s si' (captures ms)" "?c \<noteq> 0" "depth_needed (parse p (ep + 1)) < n" for si'
    using max_try_first [OF rec that(1) suffix [OF that(2)] that(3) _ ms refl, of "span s ?C si'"] span_le [of si' s ?C] that(1)
    by (simp add: max_expand_def count_single_span [OF i bounds(2)] caps_ok_def del: upt_Suc)
  have least: "simulates ms (min_expand rec s p si i ep ms) (first (tries s (parse p (ep + 1)) si (captures ms) [0..<Suc (span s ?C si)]))"
    if "?c \<noteq> 0" "depth_needed (parse p (ep + 1)) < n"
    by (rule min_expand_first [OF rec suffix [OF that(1)] that(2) i caps ms refl])
  consider (opt) "?c = 63" | (plus) "?c = 43" | (star) "?c = 42" | (minus) "?c = 45" | (one) "?c \<notin> {63, 43, 42, 45}" by blast
  then show ?thesis
  proof cases
    case opt
    then have it: "it = Opt ?C" "j = ep + 1" using single ep by (simp_all add: parse_single_def Let_def)
    have dn: "depth_needed (parse p (ep + 1)) < n" using d it by (simp add: depth_needed_Cons nested_def)
    have sim: "simulates ms (rec (si + 1) (ep + 1) ms) (first (matches s (parse p (ep + 1)) (si + 1) (captures ms)))" if "fits s ?C si"
      using suffix opt by (intro matcher_okD [OF rec ms next_caps [OF that] refl _ dn]) simp
    show ?thesis
    proof (cases "fits s ?C si")
      case True
      from sim [OF True] show ?thesis using True opt it dn caps ms suffix
        by (cases rule: simulates_cases) (auto simp: match_suffix_def branches_def first_append)
    next
      case False
      then show ?thesis using opt it dn caps ms suffix by (simp add: match_suffix_def branches_def)
    qed
  next
    case plus
    then have it: "it = Plus ?C" "j = ep + 1" using single ep by (simp_all add: parse_single_def Let_def)
    have dn: "depth_needed (parse p (ep + 1)) < n" using d it by (simp add: depth_needed_Cons nested_def)
    show ?thesis
    proof (cases "fits s ?C si")
      case True
      have "matches s (it # parse p j) si (captures ms) = tries s (parse p (ep + 1)) (si + 1) (captures ms) (rev [0..<Suc (span s ?C (si + 1))])"
        using True by (simp add: it branches_def comp_def del: upt_Suc)
      then show ?thesis using True plus finish_ok [OF expand [OF next_caps [OF True] _ dn]]
        by (simp add: match_suffix_def del: upt_Suc bindE_simps)
    next
      case False
      then show ?thesis using plus it ms by (simp add: match_suffix_def branches_def)
    qed
  next
    case star
    then have it: "it = Star ?C" "j = ep + 1" using single ep by (simp_all add: parse_single_def Let_def)
    have dn: "depth_needed (parse p (ep + 1)) < n" using d it by (simp add: depth_needed_Cons nested_def)
    have m: "matches s (it # parse p j) si (captures ms) = tries s (parse p (ep + 1)) si (captures ms) (rev [0..<Suc (span s ?C si)])"
      by (simp add: it branches_def comp_def del: upt_Suc)
    show ?thesis
    proof (cases "fits s ?C si")
      case True
      then show ?thesis using m star finish_ok [OF expand [OF caps _ dn]]
        by (simp add: match_suffix_def del: upt_Suc bindE_simps)
    next
      case False
      then show ?thesis using m span_step [of s ?C si] star it ms caps dn suffix by (simp add: match_suffix_def)
    qed
  next
    case minus
    then have it: "it = Minus ?C" "j = ep + 1" using single ep by (simp_all add: parse_single_def Let_def)
    have dn: "depth_needed (parse p (ep + 1)) < n" using d it by (simp add: depth_needed_Cons nested_def)
    have m: "matches s (it # parse p j) si (captures ms) = tries s (parse p (ep + 1)) si (captures ms) [0..<Suc (span s ?C si)]"
      by (simp add: it branches_def comp_def del: upt_Suc)
    show ?thesis
    proof (cases "fits s ?C si")
      case True
      then show ?thesis using m minus finish_ok [OF least [OF _ dn]]
        by (simp add: match_suffix_def del: upt_Suc bindE_simps)
    next
      case False
      then show ?thesis using m span_step [of s ?C si] minus it ms caps dn suffix by (simp add: match_suffix_def)
    qed
  next
    case one
    then have it: "it = One ?C" "j = ep" using single ep by (auto simp: parse_single_def Let_def)
    then show ?thesis using one d next_caps ms bounds
      by (simp add: match_suffix_def branches_def depth_needed_Cons nested_def)
  qed
qed

lemma default_ok:
  assumes "state_ok ms" and "caps_ok s si (captures ms)" and i: "i < length p"
    and single: "parse_single p i = (it, j)" and d: "depth_needed (it # parse p j) \<le> n"
  shows "turn_ok s p n ms (match_default rec s p si i ms) (first (matches s (it # parse p j) si (captures ms)))"
proof (cases "classend p i")
  case (Inl err)
  then show ?thesis using single by (auto simp: match_default_def parse_single_def branches_def)
next
  case (Inr ep)
  then have "ep \<le> length p" using classend_bounds [OF _ i] by blast
  then show ?thesis using suffix_ok [OF assms(1-3) Inr single d]
    by (simp add: match_default_def Inr singlematch_fits [OF i] peek_char_at)
qed

lemma frontier_ok:
  assumes ms: "state_ok ms" and caps: "caps_ok s si (captures ms)" and i: "i \<le> length p"
    and front: "parse_frontier p i = (it, j)" and d: "depth_needed (it # parse p j) \<le> n"
  shows "turn_ok s p n ms (match_frontier s p si i ms) (first (matches s (it # parse p j) si (captures ms)))"
proof (cases "char_at p i = 91")
  case True
  then have c: "i < length p" "p ! i = 91" by (cases "i < length p"; simp add: char_at_def)+
  show ?thesis
  proof (cases "classend p i")
    case (Inl err)
    then show ?thesis using front True c by (auto simp: match_frontier_def parse_frontier_def branches_def peek_char_at)
  next
    case (Inr ep)
    then have ep: "i < ep" "ep \<le> length p" using classend_bounds [OF Inr c(1)] by simp_all
    have it: "it = Frontier (class_of p i ep)" "j = ep" using front True Inr by (auto simp: parse_frontier_def)
    have si: "si \<le> length s" using caps by (simp add: caps_ok_def)
    then have prev: "(if si = 0 then Inr 0 else peek s (si - 1)) = Inr (if si = 0 then 0 else s ! (si - 1))"
      using diff_less [of 1 si] by (cases "si = 0") (auto simp: peek_def)
    have at: "peek p i = Inr 91" "peek s si = Inr (char_at s si)" using True i si by (simp_all add: peek_char_at)
    have "match_frontier s p si i ms = Inr (if \<not> class_of p i ep (if si = 0 then 0 else s ! (si - 1)) \<and> class_of p i ep (char_at s si)
        then Goto si ep ms else Done None ms)"
      unfolding match_frontier_def at bindE_simps Inr prev bracketclass_class [OF c(1) ep(2) c(2)] by simp
    then show ?thesis using ms caps d ep(2) by (simp add: it branches_def depth_needed_Cons nested_def del: if_split)
  qed
next
  case False
  then show ?thesis using front i by (auto simp: match_frontier_def parse_frontier_def branches_def peek_char_at)
qed

lemma balance_ok:
  assumes ms: "state_ok ms" and caps: "caps_ok s si (captures ms)" and i: "i \<le> length p"
    and bal: "parse_balance p i = (it, j)" and d: "depth_needed (it # parse p j) \<le> n" and k: "k = i + 2"
  shows "turn_ok s p n ms (bindE (matchbalance s p si i) (\<lambda>r. Inr (case r of Some si \<Rightarrow> Goto si k ms | None \<Rightarrow> Done None ms)))
    (first (matches s (it # parse p j) si (captures ms)))"
proof (cases "i + 1 < length p")
  case True
  then have it: "it = Balance (p ! i) (p ! (i + 1))" "j = i + 2" using bal by (auto simp: parse_balance_def)
  have si: "si \<le> length s" using caps by (simp add: caps_ok_def)
  obtain r where r: "balance_loop s (p ! i) (p ! (i + 1)) 1 si = Inr r" "case r of Some si' \<Rightarrow> si \<le> si' \<and> si' \<le> length s | None \<Rightarrow> True"
    using balance_total by blast
  have m: "matchbalance s p si i = Inr (if char_at s si = p ! i then r else None)"
    using True si r(1) by (simp add: matchbalance_def peek_char_at) (simp add: char_at_def)
  show ?thesis
    using it d ms r True caps_ok_mono [OF caps] unfolding m k
    by (auto simp: branches_def depth_needed_Cons nested_def split: option.splits)
next
  case False
  then show ?thesis using bal by (auto simp: matchbalance_def parse_balance_def branches_def)
qed

lemma backref_ok:
  assumes ms: "state_ok ms" and caps: "caps_ok s si (captures ms)" and j: "j \<le> length p"
    and d: "depth_needed (Back l # parse p j) \<le> n"
  shows "turn_ok s p n ms (bindE (match_capture s ms si l) (\<lambda>r. Inr (case r of Some si \<Rightarrow> Goto si j ms | None \<Rightarrow> Done None ms)))
    (first (matches s (Back l # parse p j) si (captures ms)))"
proof -
  define k where "k = uint l - 49"
  note len = length_captures [OF ms]
  have nth: "capture ms ! nat k = captures ms ! nat k" if "k < int (level ms)" "0 \<le> k"
    using that by (simp add: captures_def)
  show ?thesis
  proof (cases "k < 0 \<or> int (level ms) \<le> k \<or> snd (captures ms ! nat k) = CAP_UNFINISHED")
    case True
    then show ?thesis using nth len
      by (auto simp: match_capture_def check_capture_def branches_def back_reference_def k_def [symmetric] Let_def)
  next
    case False
    obtain init m where c: "captures ms ! nat k = (init, m)" by (cases "captures ms ! nat k")
    then have "(init, m) \<in> set (captures ms)" using False len by (metis nat_less_iff not_le nth_mem)
    then have bounds: "init \<le> si" "- 2 \<le> m" "int init + m \<le> int si" "si \<le> length s" "length s < 2 ^ 63"
      using caps by (auto simp: caps_ok_def)
    have check: "check_capture ms l = Inr (nat k)" using False nth c by (auto simp: check_capture_def k_def [symmetric] Let_def)
    have m1: "m \<noteq> - 1" using False c by simp
    show ?thesis
    proof (cases "m < 0")
      case True
      then have "m = - 2" using bounds m1 by simp
      moreover have "int (length s) < 2 ^ 64 - 2" using bounds(5) by (simp add: nat_less_iff [symmetric])
      ultimately show ?thesis using False c len nth ms bounds
        by (simp add: match_capture_def check branches_def back_reference_def k_def [symmetric] Let_def)
    next
      case pos: False
      define w where "w = take (nat m) (drop init s)"
      have fit: "nat m \<le> length s - init" using bounds pos by linarith
      then have w: "length w = nat m" by (simp add: w_def)
      have "match_capture s ms si l = Inr (if take (nat m) (drop si s) = w then Some (si + nat m) else None)"
      proof (cases "int (length s) - int si < m")
        case True
        then have "length (take (nat m) (drop si s)) \<noteq> length w" using w pos bounds by simp
        then have "take (nat m) (drop si s) \<noteq> w" by blast
        then show ?thesis using True pos c nth False by (simp add: match_capture_def check Let_def)
      next
        case le: False
        have "init + nat m \<le> length s" using bounds pos by linarith
        then show ?thesis using le pos c nth False by (auto simp: match_capture_def check Let_def w_def)
      qed
      moreover have "branches s (Back l) si (captures ms) = (if take (nat m) (drop si s) = w then [Inr (si + nat m, captures ms)] else [])"
        using False c len pos w min_absorb2 [OF fit] by (simp add: branches_def back_reference_def k_def [symmetric] Let_def w_def [symmetric])
      moreover have "si + nat m \<le> length s" if "take (nat m) (drop si s) = w"
        using arg_cong [OF that, of length] w bounds by (simp add: min_def split: if_splits)
      ultimately show ?thesis using ms d j caps_ok_mono [OF caps, of "si + nat m"]
        by (simp add: depth_needed_Cons nested_def)
    qed
  qed
qed

lemma match_turn_ok:
  assumes ms: "state_ok ms" and caps: "caps_ok s si (captures ms)" and i: "i < length p" and d: "depth_needed (parse p i) \<le> n"
  shows "turn_ok s p n ms (match_turn rec s p si i ms) (first (matches s (parse p i) si (captures ms)))"
proof -
  obtain it j where it: "parse_item p i = (it, j)" by (cases "parse_item p i")
  then have pi: "parse p i = it # parse p j" using i by (subst parse.simps) simp
  have j: "j \<le> length p" using parse_item_progress [OF i it] by simp
  have dn: "depth_needed (it # parse p j) \<le> n" using d pi by simp
  let ?c = "p ! i" and ?d = "char_at p (i + 1)"
  have esc: "i + 2 \<le> length p" if "?d \<noteq> 0" using char_at_pos [OF that] by simp
  show ?thesis unfolding pi match_turn_at [OF i] Let_def
  proof (split if_split, intro conjI impI)
    assume c: "?c = 40"
    have lower: "depth_needed (parse p j) < n" using dn it c by (auto simp: parse_item_def depth_needed_Cons nested_def split: if_splits)
    have "simulates ms (if ?d = 41 then start_capture rec si (i + 2) CAP_POSITION ms else start_capture rec si (i + 1) CAP_UNFINISHED ms)
        (first (matches s (it # parse p j) si (captures ms)))"
      using start_capture_simulates [OF rec ms caps j lower, of CAP_POSITION] start_capture_simulates [OF rec ms caps j lower, of CAP_UNFINISHED]
        it c by (auto simp: parse_item_def branches_def split: if_splits)
    then show "turn_ok s p n ms (finish (if ?d = 41 then start_capture rec si (i + 2) CAP_POSITION ms else start_capture rec si (i + 1) CAP_UNFINISHED ms))
        (first (matches s (it # parse p j) si (captures ms)))" by (rule finish_ok)
  next
    assume c40: "?c \<noteq> 40"
    have close: "turn_ok s p n ms (finish (end_capture rec si (i + 1) ms)) (first (matches s (it # parse p j) si (captures ms)))" if "?c = 41"
    proof (rule finish_ok)
      have it': "it = Close" "j = i + 1" using it that by (simp_all add: parse_item_def)
      then have "depth_needed (parse p (i + 1)) < n" using dn by (simp add: depth_needed_Cons nested_def)
      from end_capture_simulates [OF rec ms caps _ this]
      show "simulates ms (end_capture rec si (i + 1) ms) (first (matches s (it # parse p j) si (captures ms)))"
        using i by (simp add: it' branches_def split: option.splits)
    qed
    have anchor: "turn_ok s p n ms (Inr (Done (if si = length s then Some si else None) ms)) (first (matches s (it # parse p j) si (captures ms)))"
      if "?c = 36 \<and> i + 1 = length p"
      using it that ms by (auto simp: parse_item_def branches_def parse.simps)
    have escape: "?c \<noteq> 41" "\<not> (?c = 36 \<and> i + 1 = length p)" if "?c = 37" using that by simp_all
    have item: "parse_item p i = (if ?d = 98 then parse_balance p (i + 2) else if ?d = 102 then parse_frontier p (i + 2)
        else if isdigit ?d then (Back ?d, i + 2) else parse_single p i)" if "?c = 37"
      using that by (simp add: parse_item_def)
    have balance: "turn_ok s p n ms (bindE (matchbalance s p si (i + 2)) (\<lambda>r. Inr (case r of Some si \<Rightarrow> Goto si (i + 4) ms | None \<Rightarrow> Done None ms)))
        (first (matches s (it # parse p j) si (captures ms)))" if "?c = 37" "?d = 98"
      using balance_ok [OF ms caps _ _ dn, of "i + 2" "i + 4"] it item that esc by simp
    have frontier: "turn_ok s p n ms (match_frontier s p si (i + 2) ms) (first (matches s (it # parse p j) si (captures ms)))"
      if "?c = 37" "?d = 102"
      using frontier_ok [OF ms caps _ _ dn, of "i + 2"] it item that esc by simp
    have bref: "turn_ok s p n ms (bindE (match_capture s ms si ?d) (\<lambda>r. Inr (case r of Some si \<Rightarrow> Goto si (i + 2) ms | None \<Rightarrow> Done None ms)))
        (first (matches s (it # parse p j) si (captures ms)))" if "?c = 37" "isdigit ?d" "?d \<noteq> 98" "?d \<noteq> 102"
    proof -
      have it': "it = Back ?d" "j = i + 2" using it item that by simp_all
      show ?thesis using backref_ok [OF ms caps j, of ?d] dn unfolding it' by blast
    qed
    have dflt: "turn_ok s p n ms (match_default rec s p si i ms) (first (matches s (it # parse p j) si (captures ms)))"
      if "parse_item p i = parse_single p i"
      using default_ok [OF ms caps i _ dn] it that by simp
    have plain: "parse_item p i = parse_single p i" if "?c \<noteq> 41" "\<not> (?c = 36 \<and> i + 1 = length p)" "?c \<noteq> 37"
      using c40 that by (auto simp: parse_item_def Let_def)
    show "turn_ok s p n ms (if ?c = 41 then finish (end_capture rec si (i + 1) ms)
       else if ?c = 36 \<and> i + 1 = length p then Inr (Done (if si = length s then Some si else None) ms)
       else if ?c = 37 then
         if ?d = 98 then bindE (matchbalance s p si (i + 2)) (\<lambda>r. Inr (case r of Some si \<Rightarrow> Goto si (i + 4) ms | None \<Rightarrow> Done None ms))
         else if ?d = 102 then match_frontier s p si (i + 2) ms
         else if isdigit ?d then
           bindE (match_capture s ms si ?d) (\<lambda>r. Inr (case r of Some si \<Rightarrow> Goto si (i + 2) ms | None \<Rightarrow> Done None ms))
         else match_default rec s p si i ms
       else match_default rec s p si i ms)
      (first (matches s (it # parse p j) si (captures ms)))"
      using close anchor balance frontier bref dflt plain item by (simp del: bindE_simps matches.simps)
  qed
qed

lemma init_ok:
  "state_ok ms \<Longrightarrow> caps_ok s si (captures ms) \<Longrightarrow> i \<le> length p \<Longrightarrow> depth_needed (parse p i) \<le> n \<Longrightarrow>
     simulates ms (match_init rec s p si i ms) (first (matches s (parse p i) si (captures ms)))"
proof (induction "length p - i" arbitrary: si i ms rule: less_induct)
  case less
  show ?case
  proof (cases "i < length p")
    case True
    note t = match_turn_ok [OF less.prems(1,2) True less.prems(4)]
    show ?thesis
    proof (cases "match_turn rec s p si i ms")
      case (Inl err)
      then show ?thesis using t by (subst match_init.simps) simp
    next
      case (Inr u)
      show ?thesis
      proof (cases u)
        case (Done res ms')
        then show ?thesis using t Inr by (subst match_init.simps) simp
      next
        case (Goto si' i' ms')
        then have "simulates ms' (match_init rec s p si' i' ms') (first (matches s (parse p i') si' (captures ms')))"
          using t Inr turn_progress [of rec s p si i ms si' i' ms'] by (intro less.hyps) auto
        then show ?thesis using t Inr Goto simulates_cong [of ms' ms]
          by (subst match_init.simps) simp
      qed
    qed
  next
    case False
    then have "i = length p" using less.prems(3) by simp
    then show ?thesis using less.prems(1) by (subst match_init.simps) (simp add: match_turn_def parse.simps)
  qed
qed

end

lemma match_ok: "matcher_ok (match d s p) s p d"
proof (induction d)
  case 0
  show ?case by (simp add: matcher_ok_def)
next
  case (Suc d)
  then have "nested_call (match d s p) s p d" by (rule nested_call.intro)
  then show ?case unfolding matcher_ok_def match.simps less_Suc_eq_le by (blast intro: nested_call.init_ok)
qed

interpretation nested: nested_call "match d s p" s p d for d s p
  by unfold_locales (rule match_ok)

end
