(* ===== verification/PatSound.thy ===== *)
theory PatSound
  imports PatMatch
begin

text \<open>
  Consequences for every pattern and every depth: a matcher with less depth gives the same result or raises \<open>pattern too
  complex\<close>, results stay inside the source, and the matcher reads nothing beyond its strings.
\<close>

unbundle bit_operations_syntax

section \<open>More depth never changes a result\<close>

abbreviation too_complex :: lua_error where
  "too_complex \<equiv> RunError ''pattern too complex''"

definition approx :: "lua_error + 'a \<Rightarrow> lua_error + 'a \<Rightarrow> bool" where
  "approx m m' \<longleftrightarrow> m = Inl too_complex \<or> m = m'"

lemma approx_intros:
  "approx m m"
  "approx m m' \<Longrightarrow> (\<And>x. approx (f x) (f' x)) \<Longrightarrow> approx (bindE m f) (bindE m' f')"
  "(b \<Longrightarrow> approx m m') \<Longrightarrow> (\<not> b \<Longrightarrow> approx k k') \<Longrightarrow> approx (if b then m else k) (if b then m' else k')"
  unfolding approx_def by (auto, cases m') auto

lemma approx_split: "approx (f (fst x) (snd x)) (f' (fst x) (snd x)) \<Longrightarrow> approx (case x of (a, b) \<Rightarrow> f a b) (case x of (a, b) \<Rightarrow> f' a b)"
  by (simp add: case_prod_beta)

locale deeper =
  fixes rec rec' :: matcher
  assumes deeper: "approx (rec si i ms) (rec' si i ms)"
begin

lemma max_try_deeper: "approx (max_try rec si ep k ms) (max_try rec' si ep k ms)"
proof (induction k arbitrary: ms)
  case 0
  show ?case by (simp add: deeper)
next
  case (Suc k)
  show ?case unfolding max_try.simps by (intro approx_intros approx_split deeper Suc)
qed

lemma min_expand_deeper: "approx (min_expand rec s p si i ep ms) (min_expand rec' s p si i ep ms)"
proof (induction "length s - si" arbitrary: si ms rule: less_induct)
  case less
  show ?case
  proof (cases "si < length s")
    case True
    then have "approx (min_expand rec s p (si + 1) i ep ms) (min_expand rec' s p (si + 1) i ep ms)" for ms
      by (intro less.hyps) simp
    then show ?thesis
      unfolding min_expand.simps [of _ s p si] by (intro approx_intros approx_split deeper)
  next
    case False
    then have "singlematch s p si i ep = Inr False" by (simp add: singlematch_def)
    then show ?thesis
      unfolding min_expand.simps [of _ s p si] by (simp only: bindE_simps if_False) (intro approx_intros approx_split deeper)
  qed
qed

lemma turn_deeper: "approx (match_turn rec s p si i ms) (match_turn rec' s p si i ms)"
  unfolding match_turn_def match_default_def match_suffix_def max_expand_def start_capture_def end_capture_def Let_def
  by (intro approx_intros approx_split deeper max_try_deeper min_expand_deeper)

lemma init_deeper: "approx (match_init rec s p si i ms) (match_init rec' s p si i ms)"
proof (induction "length p - i" arbitrary: si i ms rule: less_induct)
  case less
  show ?case
  proof (cases "match_turn rec s p si i ms")
    case (Inl err)
    then have "match_init rec s p si i ms = Inl err" by (subst match_init.simps) simp
    moreover have "err = too_complex \<or> match_init rec' s p si i ms = Inl err"
    proof (cases "err = too_complex")
      case False
      then have "match_turn rec' s p si i ms = Inl err" using turn_deeper [of s p si i ms] Inl by (simp add: approx_def)
      then show ?thesis by (subst match_init.simps) simp
    qed simp
    ultimately show ?thesis by (auto simp: approx_def)
  next
    case (Inr t)
    then have t: "match_turn rec' s p si i ms = Inr t" using turn_deeper [of s p si i ms] by (simp add: approx_def)
    show ?thesis
    proof (cases t)
      case (Done res ms')
      then show ?thesis using Inr t by (subst (1 2) match_init.simps) (simp add: approx_intros)
    next
      case (Goto si' i' ms')
      then have "length p - i' < length p - i" using turn_progress Inr by (metis diff_less_mono2)
      from less.hyps [OF this] show ?thesis using Inr t Goto by (subst (1 2) match_init.simps) simp
    qed
  qed
qed

end

lemma match_deeper: "approx (match d s p si i ms) (match (Suc d) s p si i ms)"
proof (induction d arbitrary: si i ms)
  case 0
  show ?case by (simp add: approx_def)
next
  case (Suc d)
  have "deeper (match d s p) (match (Suc d) s p)" by unfold_locales (rule Suc)
  from deeper.init_deeper [OF this] show ?case by simp
qed

interpretation match: deeper "match d s p" "match (Suc d) s p" for d s p
  by unfold_locales (rule match_deeper)

lemma match_deep: "d \<le> d' \<Longrightarrow> approx (match d s p si i ms) (match d' s p si i ms)"
proof (induction rule: dec_induct)
  case (step n)
  then show ?case using match_deeper [of n s p si i ms] by (auto simp: approx_def)
qed (simp add: approx_def)

lemma match_simulates:
  assumes "state_ok ms" and "caps_ok s si (captures ms)" and "i \<le> length p"
  shows "match d s p si i ms = Inl too_complex \<or> simulates ms (match d s p si i ms) (first (matches s (parse p i) si (captures ms)))"
proof -
  define d' where "d' = max d (Suc (depth_needed (parse p i)))"
  have "simulates ms (match d' s p si i ms) (first (matches s (parse p i) si (captures ms)))"
    using assms by (intro matcher_okD [OF match_ok]) (simp_all add: d'_def)
  moreover have "approx (match d s p si i ms) (match d' s p si i ms)" by (rule match_deep) (simp add: d'_def)
  ultimately show ?thesis by (auto simp: approx_def)
qed

section \<open>Matches stay inside the source\<close>

text \<open>An error of the pattern, other than its depth.\<close>

abbreviation pattern_error :: "lua_error \<Rightarrow> bool" where
  "pattern_error e \<equiv> \<exists>msg. e = RunError msg \<and> msg \<noteq> ''pattern too complex''"

definition sound :: "byte list \<Rightarrow> nat \<Rightarrow> outcome \<Rightarrow> bool" where
  "sound s si r = (case r of Inl e \<Rightarrow> pattern_error e | Inr (e, caps) \<Rightarrow> si \<le> e \<and> caps_ok s e caps)"

definition item_ok :: "item \<Rightarrow> bool" where
  "item_ok it = (case it of Bad e \<Rightarrow> pattern_error e | _ \<Rightarrow> True)"

lemma class_loop_error: "i \<le> length p \<Longrightarrow> class_loop p i = Inl e \<Longrightarrow> pattern_error e"
proof (induction "length p - i" arbitrary: i rule: less_induct)
  case less
  show ?case
  proof (cases "i < length p")
    case True
    define j where "j = (if p ! i = L_ESC \<and> i + 1 < length p then i + 2 else i + 1)"
    have "i < j" "j \<le> length p" "(if j < length p \<and> p ! j = 93 then Inr (j + 1) else class_loop p j) = Inl e"
      using less.prems(2) class_loop_step [OF True] True unfolding Let_def j_def [symmetric] by (auto simp: j_def)
    moreover have "length p - j < length p - i" using \<open>i < j\<close> True by arith
    ultimately show ?thesis using less.hyps [of j] by (simp split: if_splits)
  next
    case False
    with less.prems have "i = length p" by simp
    with less.prems(2) show ?thesis by (auto simp add: class_loop.simps [of p "length p"])
  qed
qed

lemma classend_error:
  assumes "i < length p" and "classend p i = Inl e"
  shows "pattern_error e"
proof -
  have "peek p (i + 1) = Inr (char_at p (i + 1))" using assms(1) by (simp add: peek_char_at)
  moreover have "i + 2 \<le> length p" if "char_at p (i + 1) = 94" using char_at_pos [of p "i + 1"] that by simp
  ultimately show ?thesis
    using assms class_loop_error [of "i + 1" p e] class_loop_error [of "i + 2" p e] by (auto simp: classend_def peek_char_at Let_def split: if_splits)
qed

lemma parse_item_ok:
  assumes "i < length p" and "parse_item p i = (it, j)"
  shows "item_ok it"
proof -
  have single: "item_ok it" if "parse_single p i = (it, j)" for it
    using that classend_error [OF assms(1)] by (auto simp: parse_single_def item_ok_def Let_def split: sum.splits if_splits)
  have frontier: "item_ok it" if "parse_frontier p (i + 2) = (it, j)" for it
    using that classend_error [of "i + 2" p] char_at_pos [of p "i + 2"]
    by (auto simp: parse_frontier_def item_ok_def split: sum.splits if_splits)
  have balance: "item_ok it" if "parse_balance p (i + 2) = (it, j)" for it
    using that by (auto simp: parse_balance_def item_ok_def split: if_splits)
  show ?thesis
    using assms(2) single frontier balance by (auto simp: parse_item_def Let_def item_ok_def split: if_splits)
qed

lemma parse_ok: "it \<in> set (parse p i) \<Longrightarrow> item_ok it"
proof (induction "length p - i" arbitrary: i rule: less_induct)
  case less
  then have i: "i < length p" by (subst (asm) (2) parse.simps) (auto split: if_splits)
  obtain it' j where j: "parse_item p i = (it', j)" by (cases "parse_item p i")
  then have "parse p i = it' # parse p j" using i by (subst parse.simps) simp
  moreover have "length p - j < length p - i" using parse_item_progress [OF i j] i by arith
  ultimately show ?case using less.hyps [of j] less.prems parse_item_ok [OF i j] by auto
qed

lemma branches_sound:
  assumes "caps_ok s si caps" and "item_ok it" and "r \<in> set (branches s it si caps)"
  shows "sound s si r"
proof -
  have si: "si \<le> length s" using assms(1) by (simp add: caps_ok_def)
  have later: "caps_ok s (si + k) caps" if "k \<le> span s C si" for k C
    using span_le [OF si, of C] that by (intro caps_ok_mono [OF assms(1)]) simp_all
  have fitted: "caps_ok s (si + 1 + k) caps" if "fits s C si" "k \<le> span s C (si + 1)" for k C
    using that span_le [of "si + 1" s C] by (intro caps_ok_mono [OF assms(1)]) (simp_all add: fits_def)
  have one: "caps_ok s (si + 1) caps" if "fits s C si" for C using fitted [OF that, of 0] by simp
  show ?thesis
  proof (cases it)
    case (Balance b e)
    obtain q where q: "balance_loop s b e 1 si = Inr q" "case q of Some si' \<Rightarrow> si \<le> si' \<and> si' \<le> length s | None \<Rightarrow> True"
      using balance_total by blast
    have br: "branches s it si caps = (if char_at s si = b then (case q of None \<Rightarrow> [] | Some si \<Rightarrow> [Inr (si, caps)]) else [])"
      using q(1) by (simp add: Balance branches_def split: option.split)
    show ?thesis
    proof (cases "char_at s si = b \<and> q \<noteq> None")
      case True
      then obtain si' where "q = Some si'" by blast
      then have "r = Inr (si', caps)" using True br assms(3) by simp
      then show ?thesis using q(2) \<open>q = Some si'\<close> caps_ok_mono [OF assms(1), of si'] by (simp add: sound_def)
    next
      case False
      then have "branches s it si caps = []" using br by auto
      then show ?thesis using assms(3) by simp
    qed
  next
    case (Back l)
    have fit: "caps_ok s (si + length w) caps" if "take (length w) (drop si s) = w" for w
      using arg_cong [OF that, of length] si by (intro caps_ok_mono [OF assms(1)]) (auto simp: min_def split: if_splits)
    show ?thesis using assms(3) Back fit
      by (auto simp: branches_def back_reference_def sound_def Let_def simp del: length_take split: if_splits prod.splits)
  next
    case Close
    then show ?thesis using assms(1,3) unfinished_below_Some [of caps "length caps"] caps_ok_close [of s si caps] by (auto simp: branches_def sound_def split: option.splits)
  next
    case Open
    then show ?thesis using assms(1,3) by (auto simp: branches_def sound_def caps_ok_def split: if_splits)
  next
    case OpenPos
    then show ?thesis using assms(1,3) by (auto simp: branches_def sound_def caps_ok_def split: if_splits)
  qed (use assms later fitted one in \<open>auto simp: branches_def sound_def item_ok_def less_Suc_eq_le simp del: upt_Suc split: if_splits\<close>)
qed

lemma sound_trans: "sound s si' r \<Longrightarrow> si \<le> si' \<Longrightarrow> sound s si r"
  by (auto simp: sound_def split: sum.splits)

lemma matches_sound: "caps_ok s si caps \<Longrightarrow> \<forall>it \<in> set its. item_ok it \<Longrightarrow> r \<in> set (matches s its si caps) \<Longrightarrow> sound s si r"
proof (induction its arbitrary: si caps)
  case Nil
  then show ?case by (simp add: sound_def)
next
  case (Cons it its)
  from Cons.prems(3) obtain x where x: "x \<in> set (branches s it si caps)"
    and r: "r \<in> set (case x of Inl e \<Rightarrow> [Inl e] | Inr (si, caps) \<Rightarrow> matches s its si caps)" by auto
  have sx: "sound s si x" using branches_sound [OF Cons.prems(1) _ x] Cons.prems(2) by simp
  show ?case
  proof (cases x)
    case (Inl e)
    then have "r = Inl e" using r by simp
    then show ?thesis using sx Inl by (simp add: sound_def)
  next
    case (Inr y)
    obtain e caps' where y: "y = (e, caps')" by (cases y)
    then have "r \<in> set (matches s its e caps')" "si \<le> e" "caps_ok s e caps'" using r sx Inr by (simp_all add: sound_def)
    then show ?thesis using Cons.IH [of e caps'] Cons.prems(2) sound_trans by simp
  qed
qed

lemma first_in: "first rs = Inl e \<Longrightarrow> Inl e \<in> set rs" "first rs = Inr (Some x) \<Longrightarrow> Inr x \<in> set rs"
  by (auto simp: first_def split: list.splits sum.splits)

lemma first_safe:
  assumes "caps_ok s si caps"
  shows "first (matches s (parse p i) si caps) = Inl err \<Longrightarrow> pattern_error err"
    and "first (matches s (parse p i) si caps) = Inr (Some x) \<Longrightarrow> sound s si (Inr x)"
proof -
  have "sound s si r" if "r \<in> set (matches s (parse p i) si caps)" for r
    using matches_sound [OF assms _ that] parse_ok by blast
  then show "first (matches s (parse p i) si caps) = Inl err \<Longrightarrow> pattern_error err"
    "first (matches s (parse p i) si caps) = Inr (Some x) \<Longrightarrow> sound s si (Inr x)"
    using first_in by (fastforce simp: sound_def)+
qed

lemma match_outcome:
  assumes "state_ok ms" and "caps_ok s si (captures ms)" and "i \<le> length p"
  shows "case match d s p si i ms of
      Inl e \<Rightarrow> e = too_complex \<or> pattern_error e
    | Inr (None, ms') \<Rightarrow> state_ok ms' \<and> captures ms' = captures ms
    | Inr (Some e, ms') \<Rightarrow> state_ok ms' \<and> si \<le> e \<and> e \<le> length s \<and> caps_ok s e (captures ms')"
  using match_simulates [OF assms, of d]
proof
  assume "simulates ms (match d s p si i ms) (first (matches s (parse p i) si (captures ms)))"
  then show ?thesis
    by (cases rule: simulates_cases) (use first_safe [OF assms(2), of p i] in \<open>auto simp: sound_def caps_ok_def\<close>)
qed simp

text \<open>A state whose captures are all unused.\<close>

lemma fresh_match_ok: "state_ok fresh_state" "captures fresh_state = []" "length s < 2 ^ 63 \<Longrightarrow> si \<le> length s \<Longrightarrow> caps_ok s si (captures fresh_state)"
  by (simp_all add: fresh_state_def state_ok_def captures_def caps_ok_def)

text \<open>Bytes of a literal, for examples.\<close>

definition bytes :: "string \<Rightarrow> byte list" where
  "bytes = map of_char"

lemma example_match: "first (matches (bytes ''xab'') (parse (bytes ''(%a-)b'') 0) 0 []) = Inr (Some (3, [(0, 2)]))"
  by code_simp

section \<open>Properties\<close>

text \<open>C4. Pattern matching returns the match the pattern prefers: \<open>match\<close>, which reads the pattern as it goes and undoes its captures when it
  backtracks, gives the end and the captures of the first of all the matches of the pattern's items (greedy repetitions longest
  first, lazy ones shortest first), or the error met before it; when there is none it leaves the captures as they were.\<close>

theorem match_preferred:
  assumes "state_ok ms" and "caps_ok s si (captures ms)" and "i \<le> length p" and "depth_needed (parse p i) < d"
  shows "simulates ms (match d s p si i ms) (first (matches s (parse p i) si (captures ms)))"
  by (rule matcher_okD [OF match_ok assms(1,2) refl assms(3,4)])

lemma fresh_bytes:
  assumes "length s < 2 ^ 63"
  shows "caps_ok (bytes s) 0 (captures fresh_state)"
  using assms fresh_match_ok(3) [of "bytes s" 0] by (simp add: bytes_def)

lemma match_preferred_witness:
  "\<exists>ms. match 4 (bytes ''xab'') (bytes ''(%a-)b'') 0 0 fresh_state = Inr (Some 3, ms) \<and> captures ms = [(0, 2)]"
proof -
  have "depth_needed (parse (bytes ''(%a-)b'') 0) < 4" by code_simp
  from match_preferred [OF fresh_match_ok(1) fresh_bytes _ this, of "''xab''"]
  show ?thesis by (auto simp: fresh_match_ok(2) example_match)
qed

text \<open>C12. Memory safety and errors of pattern matching: whatever the pattern, started inside the source, \<open>match\<close> reads only inside
  its strings and their terminators (no outcome is undefined), ends at or behind its start and inside the source, with every
  capture in the part matched; it fails only with \<open>pattern too complex\<close> or an error of the pattern, and when it finds nothing the
  captures are as before.\<close>

theorem match_memory_safe:
  assumes "state_ok ms" and "caps_ok s si (captures ms)" and "i \<le> length p"
  shows "case match d s p si i ms of
      Inl e \<Rightarrow> e = too_complex \<or> pattern_error e
    | Inr (None, ms') \<Rightarrow> state_ok ms' \<and> captures ms' = captures ms
    | Inr (Some e, ms') \<Rightarrow> state_ok ms' \<and> si \<le> e \<and> e \<le> length s \<and> caps_ok s e (captures ms')"
  by (rule match_outcome [OF assms])

lemma match_memory_safe_witness:
  "case match 200 (bytes ''x'') (bytes ''%f[%w]%b(%1'') 0 0 fresh_state of
      Inl e \<Rightarrow> e = too_complex \<or> pattern_error e
    | Inr (None, ms') \<Rightarrow> state_ok ms' \<and> captures ms' = captures fresh_state
    | Inr (Some e, ms') \<Rightarrow> state_ok ms' \<and> 0 \<le> e \<and> e \<le> length (bytes ''x'') \<and> caps_ok (bytes ''x'') e (captures ms')"
  by (rule match_memory_safe [OF fresh_match_ok(1) fresh_bytes]) simp_all




end
