(* ===== verification/StrFind.thy ===== *)
theory StrFind
  imports PatSound
begin

text \<open>
  The functions of \<open>string\<close> that search (\<open>VM/src/lstrlib.cpp\<close>): \<open>find\<close>, \<open>match\<close>, \<open>gmatch\<close> and \<open>gsub\<close>, with the search for a plain
  string that \<open>find\<close> uses when the pattern has no special character. What \<open>gsub\<close> asks of the program, the call of a
  function and the access to a table, is a parameter that keeps a state and may fail.
\<close>

unbundle bit_operations_syntax

section \<open>Model\<close>

definition posrelat :: "int \<Rightarrow> nat \<Rightarrow> int" where
  "posrelat pos len = (let pos = (if pos < 0 then pos + (int len + 1) else pos) in if pos \<ge> 0 then pos else 0)"

definition memchr :: "byte list \<Rightarrow> nat \<Rightarrow> byte \<Rightarrow> nat \<Rightarrow> nat option" where
  "memchr s s1 c n = find (\<lambda>k. s ! k = c) [s1..<s1 + n]"

text \<open>\<open>memcmp\<close> of a place in a string with another string, for equality.\<close>

definition memeq :: "byte list \<Rightarrow> nat \<Rightarrow> byte list \<Rightarrow> bool" where
  "memeq s i w \<longleftrightarrow> take (length w) (drop i s) = w"

function lmemfind_loop :: "byte list \<Rightarrow> nat \<Rightarrow> nat \<Rightarrow> byte list \<Rightarrow> nat option" where
  "lmemfind_loop s s1 l1 s2 =
     (if l1 > 0 then
        case memchr s s1 (s2 ! 0) l1 of
          None \<Rightarrow> None
        | Some k \<Rightarrow>
            let init = k + 1 in
            if memeq s init (drop 1 s2) then Some (init - 1) else lmemfind_loop s init (l1 - (init - s1)) s2
      else None)"
  by pat_completeness auto

termination
  by (relation "measure (\<lambda>(s, s1, l1, s2). l1)") (auto simp: memchr_def find_Some_iff)

declare lmemfind_loop.simps [simp del]

definition lmemfind :: "byte list \<Rightarrow> nat \<Rightarrow> nat \<Rightarrow> byte list \<Rightarrow> nat option" where
  "lmemfind s s1 l1 s2 =
     (let l2 = length s2 in
      if l2 = 0 then Some s1
      else if l2 > l1 then None
      else let l2 = l2 - 1 in lmemfind_loop s s1 (l1 - l2) s2)"

definition SPECIALS :: "byte list" where
  "SPECIALS = [94, 36, 42, 43, 63, 46, 40, 91, 37, 45]"

text \<open>The pattern is read as a row of strings that end in a zero byte.\<close>

function nospecials_loop :: "byte list \<Rightarrow> nat \<Rightarrow> bool" where
  "nospecials_loop p at_pos =
     (let w = takeWhile (\<lambda>c. c \<noteq> 0) (drop at_pos p) in
      if \<exists>c \<in> set w. c \<in> set SPECIALS then False
      else let at_pos = at_pos + (length w + 1) in if at_pos \<le> length p then nospecials_loop p at_pos else True)"
  by pat_completeness auto

termination by (relation "measure (\<lambda>(p, k). Suc (length p) - k)") auto

declare nospecials_loop.simps [simp del]

definition nospecials :: "byte list \<Rightarrow> bool" where
  "nospecials p = nospecials_loop p 0"

definition push_onecapture :: "byte list \<Rightarrow> MatchState \<Rightarrow> nat \<Rightarrow> nat \<Rightarrow> nat \<Rightarrow> lua_error + TValue" where
  "push_onecapture s ms i b e =
     (if i \<ge> level ms then
        if i = 0 then Inr (TString (take (e - b) (drop b s))) else Inl (RunError ''invalid capture index'')
      else
        let (init, l) = capture ms ! i in
        if l = CAP_UNFINISHED then Inl (RunError ''unfinished capture'')
        else if l = CAP_POSITION then Inr (lua_pushinteger (int init + 1))
        else Inr (TString (take (nat l) (drop init s))))"

fun push_each :: "byte list \<Rightarrow> MatchState \<Rightarrow> nat list \<Rightarrow> nat \<Rightarrow> nat \<Rightarrow> lua_error + TValue list" where
  "push_each s ms [] b e = Inr []"
| "push_each s ms (i # is) b e =
     bindE (push_onecapture s ms i b e) (\<lambda>v. bindE (push_each s ms is b e) (\<lambda>vs. Inr (v # vs)))"

text \<open>\<open>whole\<close> tells whether there is a whole match to push, \<open>used\<close> is the stack in use.\<close>

definition push_captures :: "byte list \<Rightarrow> MatchState \<Rightarrow> nat \<Rightarrow> bool \<Rightarrow> nat \<Rightarrow> nat \<Rightarrow> lua_error + TValue list" where
  "push_captures s ms used whole b e =
     (let nlevels = (if level ms = 0 \<and> whole then 1 else level ms) in
      bindE (luaL_checkstack used nlevels ''too many captures'') (\<lambda>_. push_each s ms [0..<nlevels] b e))"

text \<open>\<open>reprepstate\<close>: the captures are dropped, what is in their slots stays.\<close>

definition reprepstate :: "MatchState \<Rightarrow> MatchState" where
  "reprepstate ms = ms\<lparr>level := 0\<rparr>"

text \<open>The search of \<open>str_find_aux\<close> from \<open>s1\<close>: the start and the end of the first match, or nothing.\<close>

function str_find_loop :: "byte list \<Rightarrow> byte list \<Rightarrow> bool \<Rightarrow> nat \<Rightarrow> MatchState \<Rightarrow> lua_error + (nat \<times> nat \<times> MatchState) option" where
  "str_find_loop s p anchor s1 ms =
     bindE (match LUAI_MAXCCALLS s p s1 0 (reprepstate ms)) (\<lambda>(res, ms).
     case res of
       Some e \<Rightarrow> Inr (Some (s1, e, ms))
     | None \<Rightarrow> if s1 < length s \<and> \<not> anchor then str_find_loop s p anchor (s1 + 1) ms else Inr None)"
  by pat_completeness auto

termination by (relation "measure (\<lambda>(s, p, anchor, s1, ms). length s - s1)") auto

declare str_find_loop.simps [simp del]

text \<open>The values for a match found; \<open>used\<close> is the number of arguments on the stack.\<close>

definition find_results :: "bool \<Rightarrow> byte list \<Rightarrow> nat \<Rightarrow> (nat \<times> nat \<times> MatchState) option \<Rightarrow> lua_error + TValue list" where
  "find_results finding s used r =
     (case r of
        None \<Rightarrow> Inr [TNil]
      | Some (b, e, ms) \<Rightarrow>
          if finding then
            bindE (push_captures s ms (used + 2) False 0 0) (\<lambda>vs.
            Inr (lua_pushinteger (int b + 1) # lua_pushinteger (int e) # vs))
          else push_captures s ms used True b e)"

definition str_find_aux :: "bool \<Rightarrow> numconv \<Rightarrow> TValue list \<Rightarrow> lua_error + TValue list" where
  "str_find_aux finding cv args =
     bindE (luaL_checklstring cv args 1) (\<lambda>s.
     bindE (luaL_checklstring cv args 2) (\<lambda>p.
     bindE (luaL_optinteger cv args 3 1) (\<lambda>init.
     let init = posrelat init (length s); init = (if init < 1 then 1 else init) in
     if init > int (length s) + 1 then Inr [TNil]
     else
       let s1 = nat init - 1 in
       if finding \<and> ((case arg args 4 of Some v \<Rightarrow> \<not> l_isfalse v | None \<Rightarrow> False) \<or> nospecials p) then
         case lmemfind s s1 (length s - s1) p of
           Some s2 \<Rightarrow> Inr [lua_pushinteger (int s2 + 1), lua_pushinteger (int s2 + int (length p))]
         | None \<Rightarrow> Inr [TNil]
       else
         let anchor = char_at p 0 = 94; p = (if anchor then drop 1 p else p) in
         bindE (str_find_loop s p anchor s1 fresh_state) (find_results finding s (length args)))))"

definition str_find :: "numconv \<Rightarrow> TValue list \<Rightarrow> lua_error + TValue list" where
  "str_find = str_find_aux True"

definition str_match :: "numconv \<Rightarrow> TValue list \<Rightarrow> lua_error + TValue list" where
  "str_match = str_find_aux False"

text \<open>The closure that \<open>gmatch\<close> returns holds the source, the pattern and the place to go on from.\<close>

type_synonym gmatch_closure = "byte list \<times> byte list \<times> nat"

function gmatch_loop :: "byte list \<Rightarrow> byte list \<Rightarrow> nat \<Rightarrow> MatchState \<Rightarrow> lua_error + (nat \<times> nat \<times> MatchState) option" where
  "gmatch_loop s p src ms =
     (if src \<le> length s then
        bindE (match LUAI_MAXCCALLS s p src 0 (reprepstate ms)) (\<lambda>(res, ms).
        case res of
          Some e \<Rightarrow> Inr (Some (src, e, ms))
        | None \<Rightarrow> gmatch_loop s p (src + 1) ms)
      else Inr None)"
  by pat_completeness auto

termination by (relation "measure (\<lambda>(s, p, src, ms). Suc (length s) - src)") auto

declare gmatch_loop.simps [simp del]

definition gmatch_aux :: "nat \<Rightarrow> gmatch_closure \<Rightarrow> lua_error + TValue list \<times> gmatch_closure" where
  "gmatch_aux used cl =
     (let (s, p, start) = cl in
      bindE (gmatch_loop s p start fresh_state) (\<lambda>r.
      case r of
        None \<Rightarrow> Inr ([], cl)
      | Some (src, e, ms) \<Rightarrow>
          let newstart = (if e = src then e + 1 else e) in
          bindE (push_captures s ms used True src e) (\<lambda>vs. Inr (vs, s, p, newstart))))"

definition gmatch :: "numconv \<Rightarrow> TValue list \<Rightarrow> lua_error + gmatch_closure" where
  "gmatch cv args = bindE (luaL_checklstring cv args 1) (\<lambda>s. bindE (luaL_checklstring cv args 2) (\<lambda>p. Inr (s, p, 0)))"

text \<open>What \<open>gsub\<close> asks of the program: calling its third argument, indexing it, and naming the type of a value.\<close>

record 'w gsub_env =
  env_call :: "TValue list \<Rightarrow> 'w \<Rightarrow> lua_error + TValue \<times> 'w"
  env_gettable :: "TValue \<Rightarrow> 'w \<Rightarrow> lua_error + TValue \<times> 'w"
  env_typename :: "TValue \<Rightarrow> string"

definition tostring_bytes :: "numconv \<Rightarrow> TValue \<Rightarrow> byte list option" where
  "tostring_bytes cv v = (case v of TString w \<Rightarrow> Some w | TNumber d \<Rightarrow> Some (luai_num2str cv d) | _ \<Rightarrow> None)"

text \<open>The replacement string \<open>news\<close>, from its position \<open>i\<close>; \<open>b\<close> is the buffer.\<close>

function add_s_loop :: "numconv \<Rightarrow> byte list \<Rightarrow> MatchState \<Rightarrow> byte list \<Rightarrow> nat \<Rightarrow> nat \<Rightarrow> nat \<Rightarrow> byte list \<Rightarrow> lua_error + byte list" where
  "add_s_loop cv news ms s sb se i b =
     (if i < length news then
        bindE (peek news i) (\<lambda>c.
        if c \<noteq> L_ESC then add_s_loop cv news ms s sb se (i + 1) (b @ [c])
        else
          bindE (peek news (i + 1)) (\<lambda>d.
          if \<not> isdigit d then
            if d \<noteq> L_ESC then Inl (RunError (''invalid use of '' @ qt ''%'' @ '' in replacement string''))
            else add_s_loop cv news ms s sb se (i + 2) (b @ [d])
          else if d = 48 then add_s_loop cv news ms s sb se (i + 2) (b @ take (se - sb) (drop sb s))
          else
            bindE (push_onecapture s ms (unat d - 49) sb se) (\<lambda>v.
            add_s_loop cv news ms s sb se (i + 2) (b @ (case tostring_bytes cv v of Some w \<Rightarrow> w | None \<Rightarrow> [])))))
      else Inr b)"
  by pat_completeness auto

termination by (relation "measure (\<lambda>(cv, news, ms, s, sb, se, i, b). length news - i)") auto

declare add_s_loop.simps [simp del]

definition add_value :: "'w gsub_env \<Rightarrow> numconv \<Rightarrow> nat \<Rightarrow> TValue \<Rightarrow> byte list \<Rightarrow> MatchState \<Rightarrow> nat \<Rightarrow> nat \<Rightarrow> byte list \<times> 'w \<Rightarrow>
    lua_error + byte list \<times> 'w" where
  "add_value env cv used repl s ms sb se st =
     (let (b, w) = st;
          add = (\<lambda>(v, w).
            if l_isfalse v then Inr (b @ take (se - sb) (drop sb s), w)
            else
              case tostring_bytes cv v of
                Some t \<Rightarrow> Inr (b @ t, w)
              | None \<Rightarrow> Inl (RunError (''invalid replacement value (a '' @ env_typename env v @ '')'')))
      in case repl of
        TGc LUA_TFUNCTION a \<Rightarrow> bindE (push_captures s ms (used + 1) True sb se) (\<lambda>vs. bindE (env_call env vs w) add)
      | TGc LUA_TTABLE a \<Rightarrow> bindE (push_onecapture s ms 0 sb se) (\<lambda>v. bindE (env_gettable env v w) add)
      | _ \<Rightarrow>
          (case tostring_bytes cv repl of
             Some news \<Rightarrow> bindE (add_s_loop cv news ms s sb se 0 b) (\<lambda>b. Inr (b, w))
           | None \<Rightarrow> Inl (Undefined ''no replacement string'')))"

text \<open>
  Where the loop goes on after looking for a match at \<open>src\<close>, with the buffer and the state of the program, or nothing at the end
  of the source. (A match behind the end would be undefined behaviour; there is none.)
\<close>

definition gsub_next :: "byte list \<Rightarrow> nat \<Rightarrow> nat option \<Rightarrow> byte list \<times> 'w \<Rightarrow> (nat \<times> byte list \<times> 'w) option" where
  "gsub_next s src res st =
     (let (b, w) = st in
      case res of
        Some e \<Rightarrow> if e > src then Some (e, st) else if src < length s then Some (src + 1, b @ [s ! src], w) else None
      | None \<Rightarrow> if src < length s then Some (src + 1, b @ [s ! src], w) else None)"

lemma gsub_next_progress: "gsub_next s src res st = Some (src', st') \<Longrightarrow> src < src'"
  by (auto simp: gsub_next_def split: prod.splits option.splits if_splits)

function gsub_loop :: "(MatchState \<Rightarrow> nat \<Rightarrow> nat \<Rightarrow> byte list \<times> 'w \<Rightarrow> lua_error + byte list \<times> 'w) \<Rightarrow> byte list \<Rightarrow> byte list \<Rightarrow> bool \<Rightarrow> int \<Rightarrow>
    nat \<Rightarrow> nat \<Rightarrow> MatchState \<Rightarrow> byte list \<times> 'w \<Rightarrow> lua_error + nat \<times> nat \<times> byte list \<times> 'w" where
  "gsub_loop add s p anchor max_s src n ms st =
     (if int n < max_s then
        bindE (match LUAI_MAXCCALLS s p src 0 (reprepstate ms)) (\<lambda>(res, ms).
        bindE (case res of None \<Rightarrow> Inr (n, st) | Some e \<Rightarrow> bindE (add ms src e st) (\<lambda>st. Inr (n + 1, st))) (\<lambda>(n, st).
        case gsub_next s src res st of
          None \<Rightarrow> Inr (src, n, st)
        | Some (src', st) \<Rightarrow>
            if src' > length s then Inl (Undefined ''match behind the end'')
            else if anchor then Inr (src', n, st)
            else gsub_loop add s p anchor max_s src' n ms st))
      else Inr (src, n, st))"
  by pat_completeness auto

termination
  by (relation "measure (\<lambda>(add, s, p, anchor, max_s, src, n, ms, st). length s - src)")
    (simp, auto dest: gsub_next_progress)

declare gsub_loop.simps [simp del]

definition str_gsub :: "'w gsub_env \<Rightarrow> numconv \<Rightarrow> TValue list \<Rightarrow> 'w \<Rightarrow> lua_error + TValue list \<times> 'w" where
  "str_gsub env cv args w =
     bindE (luaL_checklstring cv args 1) (\<lambda>s.
     bindE (luaL_checklstring cv args 2) (\<lambda>p.
     bindE (luaL_optinteger cv args 4 (int (length s) + 1)) (\<lambda>max_s.
     let anchor = char_at p 0 = 94 in
     case arg args 3 of
       Some repl \<Rightarrow>
         if (case repl of TNumber d \<Rightarrow> True | TString t \<Rightarrow> True | TGc LUA_TFUNCTION a \<Rightarrow> True | TGc LUA_TTABLE a \<Rightarrow> True | _ \<Rightarrow> False) then
           bindE (gsub_loop (add_value env cv (length args) repl s) s (if anchor then drop 1 p else p) anchor max_s 0 0 fresh_state ([], w))
             (\<lambda>(src, n, b, w). Inr ([TString (b @ drop src s), lua_pushinteger (int n)], w))
         else Inl (TypeError 3 ''string/function/table'')
     | None \<Rightarrow> Inl (TypeError 3 ''string/function/table''))))"

section \<open>Searching for the leftmost match\<close>

definition preferred :: "byte list \<Rightarrow> byte list \<Rightarrow> nat \<Rightarrow> lua_error + (nat \<times> captured) option" where
  "preferred s p k = first (matches s (parse p 0) k [])"

text \<open>The first position with a match or an error.\<close>

definition leftmost :: "byte list \<Rightarrow> byte list \<Rightarrow> nat list \<Rightarrow> lua_error + (nat \<times> nat \<times> captured) option" where
  "leftmost s p ks =
     (case find (\<lambda>k. preferred s p k \<noteq> Inr None) ks of
        None \<Rightarrow> Inr None
      | Some k \<Rightarrow> bindE (preferred s p k) (\<lambda>r. Inr (map_option (\<lambda>(e, caps). (k, e, caps)) r)))"

definition small :: "byte list \<Rightarrow> bool" where
  "small s \<longleftrightarrow> length s < 2 ^ 30"

text \<open>A pattern whose captures and repetitions stay below the depth limit.\<close>

definition shallow :: "byte list \<Rightarrow> bool" where
  "shallow p \<longleftrightarrow> depth_needed (parse p 0) < LUAI_MAXCCALLS"

lemma reprep_ok: "state_ok ms \<Longrightarrow> state_ok (reprepstate ms)" "captures (reprepstate ms) = []"
  by (simp_all add: reprepstate_def state_ok_def captures_def)

lemma caps_ok_Nil: "small s \<Longrightarrow> k \<le> length s \<Longrightarrow> caps_ok s k []"
  by (simp add: small_def caps_ok_def)

lemma match_reprep:
  assumes "small s" and "state_ok ms" and "k \<le> length s"
  shows "simulates (reprepstate ms) (match LUAI_MAXCCALLS s p k 0 (reprepstate ms)) (preferred s p k) \<or>
    \<not> shallow p \<and> match LUAI_MAXCCALLS s p k 0 (reprepstate ms) = Inl too_complex"
proof -
  have c: "caps_ok s k (captures (reprepstate ms))" using caps_ok_Nil [OF assms(1,3)] reprep_ok(2) by simp
  show ?thesis
  proof (cases "shallow p")
    case True
    then show ?thesis
      using matcher_okD [OF match_ok reprep_ok(1) [OF assms(2)] c refl le0] reprep_ok(2) by (simp add: preferred_def shallow_def)
  next
    case False
    then show ?thesis
      using match_simulates [OF reprep_ok(1) [OF assms(2)] c, of 0 p LUAI_MAXCCALLS] reprep_ok(2) by (auto simp: preferred_def)
  qed
qed

definition leftmost_sim :: "lua_error + (nat \<times> nat \<times> MatchState) option \<Rightarrow> lua_error + (nat \<times> nat \<times> captured) option \<Rightarrow> bool" where
  "leftmost_sim r f =
     (case r of
        Inl e \<Rightarrow> f = Inl e
      | Inr None \<Rightarrow> f = Inr None
      | Inr (Some (b, e, ms)) \<Rightarrow> f = Inr (Some (b, e, captures ms)) \<and> state_ok ms)"

lemma leftmost_sim_simps [simp]:
  "leftmost_sim (Inl err) f \<longleftrightarrow> f = Inl err"
  "leftmost_sim (Inr None) f \<longleftrightarrow> f = Inr None"
  "leftmost_sim (Inr (Some (b, e, ms))) f \<longleftrightarrow> f = Inr (Some (b, e, captures ms)) \<and> state_ok ms"
  by (simp_all add: leftmost_sim_def)

lemma leftmost_Nil: "leftmost s p [] = Inr None"
  by (simp add: leftmost_def)

lemma leftmost_Cons:
  "leftmost s p (k # ks) = (case preferred s p k of
      Inl err \<Rightarrow> Inl err | Inr None \<Rightarrow> leftmost s p ks | Inr (Some (e, caps)) \<Rightarrow> Inr (Some (k, e, caps)))"
  by (auto simp: leftmost_def split: sum.split option.split)

text \<open>A search gives the leftmost match; one with a deep pattern may fail instead at the depth limit.\<close>

definition searches :: "byte list \<Rightarrow> lua_error + (nat \<times> nat \<times> MatchState) option \<Rightarrow> lua_error + (nat \<times> nat \<times> captured) option \<Rightarrow> bool" where
  "searches p r f \<longleftrightarrow> leftmost_sim r f \<or> \<not> shallow p \<and> r = Inl too_complex"

lemma searches_sim: "leftmost_sim r f \<Longrightarrow> searches p r f"
  by (simp add: searches_def)

lemma search_step:
  assumes "small s" and "state_ok ms" and "k \<le> length s"
    and "\<And>ms'. state_ok ms' \<Longrightarrow> searches p (go ms') (leftmost s p ks)"
  shows "searches p (bindE (match LUAI_MAXCCALLS s p k 0 (reprepstate ms)) (\<lambda>(res, ms).
      case res of Some e \<Rightarrow> Inr (Some (k, e, ms)) | None \<Rightarrow> go ms)) (leftmost s p (k # ks))"
  using match_reprep [OF assms(1-3), of p]
proof
  assume "simulates (reprepstate ms) (match LUAI_MAXCCALLS s p k 0 (reprepstate ms)) (preferred s p k)"
  then show ?thesis
    using assms(4) by (cases rule: simulates_cases) (simp_all add: leftmost_Cons searches_sim)
qed (simp add: searches_def)

lemma find_loop_leftmost:
  assumes "small s"
  shows "state_ok ms \<Longrightarrow> s1 \<le> length s \<Longrightarrow>
    searches p (str_find_loop s p anchor s1 ms) (leftmost s p (if anchor then [s1] else [s1..<Suc (length s)]))"
proof (induction "length s - s1" arbitrary: s1 ms rule: less_induct)
  case less
  define ks where "ks = (if anchor then [] else [Suc s1..<Suc (length s)])"
  have "(if anchor then [s1] else [s1..<Suc (length s)]) = s1 # ks"
    using less.prems(2) by (simp add: ks_def upt_conv_Cons del: upt_Suc)
  moreover have "searches p (if s1 < length s \<and> \<not> anchor then str_find_loop s p anchor (s1 + 1) ms' else Inr None) (leftmost s p ks)"
    if "state_ok ms'" for ms'
    using less.hyps [of "s1 + 1" ms'] that less.prems(2) by (auto simp: ks_def leftmost_Nil searches_sim simp del: upt_Suc)
  ultimately show ?case
    by (subst str_find_loop.simps) (simp only:, rule search_step [OF assms less.prems])
qed

lemma gmatch_loop_leftmost:
  assumes "small s"
  shows "state_ok ms \<Longrightarrow> searches p (gmatch_loop s p src ms) (leftmost s p [src..<Suc (length s)])"
proof (induction "Suc (length s) - src" arbitrary: src ms rule: less_induct)
  case less
  show ?case
  proof (cases "src \<le> length s")
    case True
    then have "[src..<Suc (length s)] = src # [src + 1..<Suc (length s)]" by (simp add: upt_conv_Cons del: upt_Suc)
    moreover have "searches p (gmatch_loop s p (src + 1) ms') (leftmost s p [src + 1..<Suc (length s)])" if "state_ok ms'" for ms'
      using less.hyps [of "src + 1" ms'] that True by simp
    ultimately show ?thesis
      using True by (subst gmatch_loop.simps) (simp only: if_True, rule search_step [OF assms less.prems])
  next
    case False
    then show ?thesis by (subst gmatch_loop.simps) (simp add: leftmost_Nil searches_sim)
  qed
qed

lemma gmatch_loop_sim:
  "shallow p \<Longrightarrow> small s \<Longrightarrow> state_ok ms \<Longrightarrow> leftmost_sim (gmatch_loop s p src ms) (leftmost s p [src..<Suc (length s)])"
  using gmatch_loop_leftmost [of s ms p src] by (simp add: searches_def)

section \<open>Captures as values\<close>

fun capture_values :: "byte list \<Rightarrow> captured \<Rightarrow> lua_error + TValue list" where
  "capture_values s [] = Inr []"
| "capture_values s ((i, l) # caps) =
     (if l = CAP_UNFINISHED then Inl (RunError ''unfinished capture'')
      else bindE (capture_values s caps) (\<lambda>vs.
        Inr ((if l = CAP_POSITION then lua_pushinteger (int i + 1) else TString (take (nat l) (drop i s))) # vs)))"

lemma capture_nth: "state_ok ms \<Longrightarrow> i < level ms \<Longrightarrow> capture ms ! i = captures ms ! i"
  by (simp add: captures_def)

lemma push_each_captures:
  assumes "state_ok ms"
  shows "n \<le> level ms \<Longrightarrow> push_each s ms [n..<level ms] b e = capture_values s (drop n (captures ms))"
proof (induction "level ms - n" arbitrary: n)
  case 0
  then show ?case using length_captures [OF assms] by simp
next
  case (Suc k)
  then have n: "n < level ms" by simp
  obtain i l where il: "captures ms ! n = (i, l)" by (cases "captures ms ! n")
  have "drop n (captures ms) = (i, l) # drop (Suc n) (captures ms)"
    using n length_captures [OF assms] il by (simp add: Cons_nth_drop_Suc [symmetric])
  then show ?case
    using Suc.hyps(1) [of "Suc n"] Suc.hyps(2) n capture_nth [OF assms n] il
    by (simp add: upt_conv_Cons push_onecapture_def)
qed

lemma push_captures_values:
  assumes "state_ok ms" and "used + LUA_MAXCAPTURES \<le> LUAI_MAXCSTACK"
  shows "push_captures s ms used whole b e =
    (if captures ms = [] \<and> whole then Inr [TString (take (e - b) (drop b s))] else capture_values s (captures ms))"
proof -
  have l: "level ms = length (captures ms)" and "level ms \<le> LUA_MAXCAPTURES"
    using assms(1) length_captures by (simp_all add: state_ok_def)
  then have "luaL_checkstack used (if level ms = 0 \<and> whole then 1 else level ms) ''too many captures'' = Inr ()"
    using assms(2) by (simp add: luaL_checkstack_def)
  then show ?thesis
    using push_each_captures [OF assms(1), of 0] l by (auto simp: push_captures_def push_onecapture_def Let_def)
qed

section \<open>Plain search\<close>

lemma memeq_Cons:
  "s2 \<noteq> [] \<Longrightarrow> k < length s \<Longrightarrow> memeq s k s2 \<longleftrightarrow> s ! k = s2 ! 0 \<and> memeq s (k + 1) (drop 1 s2)"
  by (cases s2) (auto simp: memeq_def Cons_nth_drop_Suc [symmetric])

lemma find_none: "\<forall>x \<in> set xs. \<not> P x \<Longrightarrow> find P xs = None"
  by (simp add: find_None_iff)

lemma find_skip: "\<forall>x \<in> set xs. \<not> P x \<Longrightarrow> find P (xs @ ys) = find P ys"
  by (induction xs) auto

lemma find_split: "find P xs = Some k \<Longrightarrow> \<exists>ys zs. xs = ys @ k # zs \<and> P k \<and> (\<forall>x \<in> set ys. \<not> P x)"
  by (induction xs) (force split: if_splits intro: exI [of _ "_ # _"] exI [of _ "[]"])+

lemma upt_around:
  assumes "[i..<j] = ys @ k # zs"
  shows "i \<le> k \<and> k < j \<and> ys = [i..<k] \<and> zs = [Suc k..<j]"
proof -
  have n: "length ys < j - i" using arg_cong [OF assms, of length] by simp
  have k: "k = i + length ys" using arg_cong [OF assms, of "\<lambda>xs. xs ! length ys"] n by simp
  have "ys = take (length ys) [i..<j]" "zs = drop (Suc (length ys)) [i..<j]" using assms by simp_all
  then show ?thesis using n k by (simp add: take_upt drop_upt)
qed

lemma lmemfind_loop_find:
  assumes "s2 \<noteq> []"
  shows "s1 + l1 \<le> length s \<Longrightarrow> lmemfind_loop s s1 l1 s2 = find (\<lambda>k. memeq s k s2) [s1..<s1 + l1]"
proof (induction l1 arbitrary: s1 rule: less_induct)
  case (less l1)
  show ?case
  proof (cases "memchr s s1 (s2 ! 0) l1")
    case None
    then have "\<forall>k \<in> set [s1..<s1 + l1]. \<not> memeq s k s2"
      using less.prems memeq_Cons [OF assms] unfolding memchr_def find_None_iff by auto
    then have "find (\<lambda>k. memeq s k s2) [s1..<s1 + l1] = None" by (rule find_none)
    then show ?thesis unfolding lmemfind_loop.simps [of s s1] None by simp
  next
    case (Some k)
    from find_split [OF this [unfolded memchr_def]] obtain ys zs where "[s1..<s1 + l1] = ys @ k # zs" and k: "s ! k = s2 ! 0" and no: "\<forall>x \<in> set ys. s ! x \<noteq> s2 ! 0"
      by blast
    note u = upt_around [OF this(1)]
    have s: "[s1..<s1 + l1] = [s1..<k] @ k # [Suc k..<s1 + l1]" using \<open>[s1..<s1 + l1] = _\<close> u by simp
    have skip: "\<forall>x \<in> set [s1..<k]. \<not> memeq s x s2" using no u less.prems memeq_Cons [OF assms] by auto
    have f: "find (\<lambda>k. memeq s k s2) [s1..<s1 + l1] =
        (if memeq s (k + 1) (drop 1 s2) then Some k else find (\<lambda>k. memeq s k s2) [Suc k..<s1 + l1])"
      unfolding s find_skip [OF skip] using k u less.prems memeq_Cons [OF assms, of k s] by simp
    have "lmemfind_loop s (k + 1) (l1 - (k + 1 - s1)) s2 = find (\<lambda>k. memeq s k s2) [Suc k..<s1 + l1]"
    proof -
      have "k + 1 + (l1 - (k + 1 - s1)) = s1 + l1" "l1 - (k + 1 - s1) < l1" using u by arith+
      then show ?thesis using less.IH [of "l1 - (k + 1 - s1)" "k + 1"] less.prems by (simp add: add.commute)
    qed
    moreover have "l1 > 0" using u by simp
    ultimately show ?thesis unfolding f lmemfind_loop.simps [of s s1] Some Let_def by simp
  qed
qed

lemma memeq_length: "memeq s k w \<Longrightarrow> k \<le> length s \<Longrightarrow> k + length w \<le> length s"
proof -
  assume m: "memeq s k w" and k: "k \<le> length s"
  have "length (take (length w) (drop k s)) = length w" using m by (simp only: memeq_def)
  then show ?thesis using k by simp
qed

lemma lmemfind_find:
  assumes "s1 \<le> length s"
  shows "lmemfind s s1 (length s - s1) s2 = find (\<lambda>k. memeq s k s2) [s1..<Suc (length s)]"
proof (cases "s2 = []")
  case True
  then show ?thesis using assms by (simp add: lmemfind_def memeq_def upt_conv_Cons del: upt_Suc)
next
  case ne: False
  show ?thesis
  proof (cases "length s2 \<le> length s - s1")
    case True
    define m where "m = length s - s1 - (length s2 - 1)"
    have l: "[s1..<Suc (length s)] = [s1..<s1 + m] @ [s1 + m..<Suc (length s)]"
      using upt_add_eq_append [of s1 "s1 + m" "Suc (length s) - (s1 + m)"] assms by (simp add: m_def del: upt_Suc)
    have "\<forall>k \<in> set [s1 + m..<Suc (length s)]. \<not> memeq s k s2"
      using memeq_length [of s _ s2] True ne by (fastforce simp: m_def neq_Nil_conv)
    then have "find (\<lambda>k. memeq s k s2) [s1..<Suc (length s)] = find (\<lambda>k. memeq s k s2) [s1..<s1 + m]"
      unfolding l find_append by (auto intro: find_none simp del: upt_Suc split: option.split)
    moreover have "s1 + m \<le> length s" using True ne assms by (auto simp: m_def neq_Nil_conv)
    ultimately show ?thesis using lmemfind_loop_find [OF ne, of s1 m s] True ne by (simp add: lmemfind_def Let_def m_def)
  next
    case False
    then have "\<forall>k \<in> set [s1..<Suc (length s)]. \<not> memeq s k s2" using memeq_length [of s _ s2] by fastforce
    then have "find (\<lambda>k. memeq s k s2) [s1..<Suc (length s)] = None" by (rule find_none)
    then show ?thesis using False ne by (simp add: lmemfind_def)
  qed
qed

lemma nospecials_loop_iff: "nospecials_loop p i \<longleftrightarrow> (\<forall>c \<in> set (drop i p). c \<notin> set SPECIALS)"
proof (induction "Suc (length p) - i" arbitrary: i rule: less_induct)
  case less
  define w where "w = takeWhile (\<lambda>c. c \<noteq> 0) (drop i p)"
  define r where "r = dropWhile (\<lambda>c. c \<noteq> 0) (drop i p)"
  have wr: "drop i p = w @ r" by (simp add: w_def r_def)
  have r: "r = [] \<or> r = 0 # drop (i + (length w + 1)) p"
  proof (cases r)
    case (Cons c r')
    then have "c = 0" using hd_dropWhile [of "\<lambda>c. c \<noteq> 0" "drop i p"] by (simp add: r_def)
    moreover have "drop (length w + 1) (drop i p) = r'" unfolding wr by (simp add: Cons)
    ultimately show ?thesis using Cons by (simp add: add.commute)
  qed simp
  have z: "(0 :: byte) \<notin> set SPECIALS" by (simp add: SPECIALS_def)
  have rec: "(\<forall>c \<in> set r. c \<notin> set SPECIALS) \<longleftrightarrow>
      (if i + (length w + 1) \<le> length p then nospecials_loop p (i + (length w + 1)) else True)"
  proof (cases "i + (length w + 1) \<le> length p")
    case True
    then have "r \<noteq> []" using arg_cong [OF wr, of length] by auto
    then show ?thesis using r z less.hyps [of "i + (length w + 1)"] True by auto
  next
    case False
    then have "r = []" using arg_cong [OF wr, of length] r by auto
    then show ?thesis using False by simp
  qed
  show ?case
    unfolding nospecials_loop.simps [of p i] Let_def w_def [symmetric] if_bool_eq_conj rec [unfolded if_bool_eq_conj, symmetric]
    by (auto simp: wr)
qed

lemma nospecials_iff: "nospecials p \<longleftrightarrow> (\<forall>c \<in> set p. c \<notin> set SPECIALS)"
  by (simp add: nospecials_def nospecials_loop_iff)

section \<open>Patterns without special characters\<close>

definition plain :: "byte list \<Rightarrow> bool" where
  "plain p \<longleftrightarrow> (\<forall>c \<in> set p. c \<notin> set SPECIALS \<and> c \<noteq> 41)"

lemma plain_item:
  assumes "plain p" and i: "i < length p"
  shows "parse_item p i = (One (\<lambda>c. c = p ! i), i + 1)"
proof -
  have "p ! i \<notin> set SPECIALS \<and> p ! i \<noteq> 41" using assms nth_mem [OF i] by (simp add: plain_def)
  then have c: "p ! i \<noteq> 36" "p ! i \<noteq> 46" "p ! i \<noteq> 40" "p ! i \<noteq> 91" "p ! i \<noteq> 37" "p ! i \<noteq> 41"
    by (simp_all add: SPECIALS_def)
  have "char_at p (i + 1) \<notin> set SPECIALS"
    using assms(1) nth_mem [of "i + 1" p] by (cases "i + 1 < length p") (simp_all add: char_at_def plain_def, simp add: SPECIALS_def)
  then have n: "char_at p (i + 1) \<noteq> 63" "char_at p (i + 1) \<noteq> 43" "char_at p (i + 1) \<noteq> 42" "char_at p (i + 1) \<noteq> 45"
    by (simp_all add: SPECIALS_def)
  have "classend p i = Inr (i + 1)" using c i by (simp add: classend_def peek_def)
  moreover have "class_of p i (i + 1) = (\<lambda>c. c = p ! i)"
    using c i by (auto simp: fun_eq_iff class_of_def singlematch_def peek_def)
  ultimately have "parse_single p i = (One (\<lambda>c. c = p ! i), i + 1)"
    using n by (simp add: parse_single_def Let_def)
  then show ?thesis using c by (simp add: parse_item_def Let_def)
qed

lemma plain_parse: "plain p \<Longrightarrow> parse p i = map (\<lambda>x. One (\<lambda>c. c = x)) (drop i p)"
proof (induction "length p - i" arbitrary: i)
  case (Suc n)
  then have i: "i < length p" by simp
  have "parse p (Suc i) = map (\<lambda>x. One (\<lambda>c. c = x)) (drop (Suc i) p)" using Suc by simp
  then show ?case using plain_item [OF Suc.prems i] i by (subst parse.simps) (simp add: Cons_nth_drop_Suc [symmetric])
qed (subst parse.simps, simp)



lemma plain_shallow: "plain p \<Longrightarrow> shallow p"
  by (simp add: shallow_def plain_parse depth_needed_def nested_def filter_map comp_def)




section \<open>What find and match return\<close>

text \<open>The pattern behind its anchor, and the positions where a match may start.\<close>

definition unanchored :: "byte list \<Rightarrow> byte list" where
  "unanchored p = (if char_at p 0 = 94 then drop 1 p else p)"

definition starts :: "byte list \<Rightarrow> byte list \<Rightarrow> nat \<Rightarrow> nat list" where
  "starts s p k = (if char_at p 0 = 94 then [k] else [k..<Suc (length s)])"

definition found :: "bool \<Rightarrow> byte list \<Rightarrow> lua_error + (nat \<times> nat \<times> captured) option \<Rightarrow> lua_error + TValue list" where
  "found finding s r =
     bindE r (\<lambda>m. case m of
         None \<Rightarrow> Inr [TNil]
       | Some (b, e, caps) \<Rightarrow>
           if finding then bindE (capture_values s caps) (\<lambda>vs. Inr (lua_pushinteger (int b + 1) # lua_pushinteger (int e) # vs))
           else if caps = [] then Inr [TString (take (e - b) (drop b s))] else capture_values s caps)"

text \<open>
  The place where a search starts: positions count from 1, negative ones from the end, and a place before the source
  is its start.
\<close>

definition find_start :: "int \<Rightarrow> nat \<Rightarrow> nat" where
  "find_start i n = (if i > 0 then nat i - 1 else if i = 0 then 0 else n - nat (- i))"

lemma find_start_posrelat:
  "(if posrelat i n < 1 then 1 else posrelat i n) = int (find_start i n) + 1"
  by (auto simp: posrelat_def find_start_def Let_def)

text \<open>The first occurrence of a string as text, from a place on.\<close>

definition text_found :: "byte list \<Rightarrow> byte list \<Rightarrow> nat \<Rightarrow> lua_error + TValue list" where
  "text_found s p k =
     (case find (\<lambda>b. take (length p) (drop b s) = p) [k..<Suc (length s)] of
        None \<Rightarrow> Inr [TNil]
      | Some b \<Rightarrow> Inr [lua_pushinteger (int b + 1), lua_pushinteger (int b + int (length p))])"

lemma lmemfind_text:
  assumes "k \<le> length s"
  shows "(case lmemfind s k (length s - k) p of
      Some s2 \<Rightarrow> Inr [lua_pushinteger (int s2 + 1), lua_pushinteger (int s2 + int (length p))] | None \<Rightarrow> Inr [TNil]) = text_found s p k"
  unfolding lmemfind_find [OF assms] text_found_def memeq_def by (simp split: option.split)


text \<open>\<open>find\<close> with the argument \<open>plain\<close>, or with a pattern that has no special character, searches for text.\<close>

definition textual :: "TValue list \<Rightarrow> byte list \<Rightarrow> bool" where
  "textual args p \<longleftrightarrow> (\<exists>v. arg args 4 = Some v \<and> \<not> l_isfalse v) \<or> set p \<inter> set SPECIALS = {}"

lemma find_aux_found:
  assumes "small s" and a: "luaL_checklstring cv args 1 = Inr s" "luaL_checklstring cv args 2 = Inr p" "luaL_optinteger cv args 3 1 = Inr i"
    and k: "k = find_start i (length s)" and stack: "length args + 2 + LUA_MAXCAPTURES \<le> LUAI_MAXCSTACK"
  shows "str_find_aux finding cv args =
      (if length s < k then Inr [TNil]
       else if finding \<and> textual args p then text_found s p k
       else found finding s (leftmost s (unanchored p) (starts s p k))) \<or>
    \<not> shallow (unanchored p) \<and> \<not> (finding \<and> textual args p) \<and> k \<le> length s \<and> str_find_aux finding cv args = Inl too_complex"
proof -
  have t: "finding \<and> ((case arg args 4 of Some v \<Rightarrow> \<not> l_isfalse v | None \<Rightarrow> False) \<or> nospecials p) \<longleftrightarrow> finding \<and> textual args p"
    by (auto simp: textual_def nospecials_iff split: option.splits)
  have k': "(let init = posrelat i (length s); init = (if init < 1 then 1 else init) in f init) = f (int k + 1)" for f :: "int \<Rightarrow> lua_error + TValue list"
    using find_start_posrelat [of i "length s"] by (simp add: k Let_def)
  have n: "nat (int k + 1) = Suc k" by simp
  have run: "str_find_aux finding cv args =
      (if length s < k then Inr [TNil]
       else if finding \<and> textual args p then text_found s p k
       else bindE (str_find_loop s (unanchored p) (char_at p 0 = 94) k fresh_state) (find_results finding s (length args)))"
    unfolding str_find_aux_def a bindE_simps k' t using lmemfind_text [of k s p] n by (simp add: unanchored_def Let_def)
  show ?thesis
  proof (cases "length s < k \<or> finding \<and> textual args p")
    case False
    then have "searches (unanchored p) (str_find_loop s (unanchored p) (char_at p 0 = 94) k fresh_state) (leftmost s (unanchored p) (starts s p k))"
      unfolding starts_def by (intro find_loop_leftmost [OF assms(1) fresh_match_ok(1)]) simp
    then show ?thesis
      using False stack unfolding run
      by (cases "str_find_loop s (unanchored p) (char_at p 0 = 94) k fresh_state")
        (auto simp: searches_def found_def find_results_def push_captures_values split: option.split)
  qed (auto simp: run)
qed

section \<open>Substitution\<close>

text \<open>A replacement that puts back what was matched, or fails with an error allowed by \<open>ok\<close>.\<close>

definition keeps_text :: "byte list \<Rightarrow> (lua_error \<Rightarrow> bool) \<Rightarrow> (MatchState \<Rightarrow> nat \<Rightarrow> nat \<Rightarrow> byte list \<times> 'w \<Rightarrow> lua_error + byte list \<times> 'w) \<Rightarrow> bool" where
  "keeps_text s ok add \<longleftrightarrow>
     (\<forall>ms sb se b w. state_ok ms \<and> sb \<le> se \<and> se \<le> length s \<and> caps_ok s se (captures ms) \<longrightarrow>
        (case add ms sb se (b, w) of Inl e \<Rightarrow> ok e | Inr (b', w') \<Rightarrow> b' = b @ take (se - sb) (drop sb s)))"

lemma match_from_fresh:
  assumes "small s" and "state_ok ms" and "src \<le> length s"
  shows "case match d s p src 0 (reprepstate ms) of
      Inl e \<Rightarrow> e = too_complex \<or> pattern_error e
    | Inr (res, ms') \<Rightarrow> state_ok ms' \<and> (case res of None \<Rightarrow> True | Some e \<Rightarrow> src \<le> e \<and> e \<le> length s \<and> caps_ok s e (captures ms'))"
proof -
  have "caps_ok s src (captures (reprepstate ms))" using caps_ok_Nil [OF assms(1,3)] reprep_ok(2) by simp
  from match_outcome [OF reprep_ok(1) [OF assms(2)] this, of 0 p d] show ?thesis
    by (auto split: option.splits sum.splits)
qed

lemma take_extend: "a \<le> b \<Longrightarrow> take a s @ take (b - a) (drop a s) = take b s"
  by (metis le_add_diff_inverse take_add)

lemma gsub_loop_keeps:
  assumes "small s" and "keeps_text s ok add"
  shows "state_ok ms \<Longrightarrow> src \<le> length s \<Longrightarrow> int n \<le> max 0 max_s \<Longrightarrow> n \<le> src \<Longrightarrow>
    (case gsub_loop add s p anchor max_s src n ms (take src s, w) of
       Inl e \<Rightarrow> e = too_complex \<or> pattern_error e \<or> ok e
     | Inr (src', n', b', w') \<Rightarrow> b' @ drop src' s = s \<and> int n' \<le> max 0 max_s \<and> n' \<le> length s + 1)"
proof (induction "length s - src" arbitrary: src n ms w rule: less_induct)
  case less
  show ?case
  proof (cases "int n < max_s")
    case False
    then show ?thesis using less.prems by (subst gsub_loop.simps) auto
  next
    case n: True
    note o = match_from_fresh [OF assms(1) less.prems(1,2), of LUAI_MAXCCALLS p]
    show ?thesis
    proof (cases "match LUAI_MAXCCALLS s p src 0 (reprepstate ms)")
      case (Inl e)
      then show ?thesis using o n by (subst gsub_loop.simps) auto
    next
      case (Inr r)
      then obtain res ms1 where m: "match LUAI_MAXCCALLS s p src 0 (reprepstate ms) = Inr (res, ms1)" by (cases r) auto
      define st where "st = (case res of None \<Rightarrow> Inr (n, take src s, w) | Some e \<Rightarrow> bindE (add ms1 src e (take src s, w)) (\<lambda>st. Inr (n + 1, st)))"
      have loop: "gsub_loop add s p anchor max_s src n ms (take src s, w) = bindE st (\<lambda>(n, st).
          case gsub_next s src res st of
            None \<Rightarrow> Inr (src, n, st)
          | Some (src', st) \<Rightarrow>
              if src' > length s then Inl (Undefined ''match behind the end'')
              else if anchor then Inr (src', n, st)
              else gsub_loop add s p anchor max_s src' n ms1 st)"
        unfolding gsub_loop.simps [of add s p anchor max_s src n ms] m st_def using n by simp
      have st: "case st of Inl e \<Rightarrow> ok e | Inr (n1, b1, w1) \<Rightarrow> b1 = take (case res of None \<Rightarrow> src | Some e \<Rightarrow> e) s \<and> int n1 \<le> max 0 max_s \<and> n1 \<le> n + 1"
      proof (cases res)
        case None
        then show ?thesis using less.prems(3) by (simp add: st_def)
      next
        case (Some e)
        then have e: "state_ok ms1" "src \<le> e" "e \<le> length s" "caps_ok s e (captures ms1)" using o m by simp_all
        then have "case add ms1 src e (take src s, w) of Inl e \<Rightarrow> ok e | Inr (b', w') \<Rightarrow> b' = take e s"
          using assms(2) take_extend [OF e(2)] unfolding keeps_text_def by metis
        then show ?thesis using Some n by (cases "add ms1 src e (take src s, w)") (auto simp: st_def)
      qed
      show ?thesis
      proof (cases st)
        case (Inl e)
        then show ?thesis using loop st by simp
      next
        case (Inr q)
        then obtain n1 b1 w1 where q: "st = Inr (n1, b1, w1)" by (cases q) auto
        have b1: "b1 = take (case res of None \<Rightarrow> src | Some e \<Rightarrow> e) s" and n1: "int n1 \<le> max 0 max_s" "n1 \<le> src + 1"
          using st q less.prems(4) by simp_all
        show ?thesis
        proof (cases "gsub_next s src res (b1, w1)")
          case None
          then have "src = length s" "res = None \<or> res = Some src"
            using o m less.prems(2) by (auto simp: gsub_next_def split: option.splits if_splits)
          then show ?thesis using loop q None b1 n1 by auto
        next
          case (Some t)
          then obtain src1 b2 w2 where t: "gsub_next s src res (b1, w1) = Some (src1, b2, w2)" by (cases t) auto
          have b2: "b2 = take src1 s" and src1: "src < src1" "src1 \<le> length s"
            using t b1 o m less.prems(2) gsub_next_progress [OF t]
            by (auto simp: gsub_next_def take_Suc_conv_app_nth split: option.splits if_splits)
          then show ?thesis
            using loop q t less.hyps [of src1 ms1 n1 w2] o m n1 by (cases anchor) simp_all
        qed
      qed
    qed
  qed
qed

lemma add_s_whole:
  "add_s_loop cv [37, 48] ms s sb se 0 b = Inr (b @ take (se - sb) (drop sb s))"
  by (subst add_s_loop.simps) (simp add: peek_def isdigit_def add_s_loop.simps [of _ "[37, 48]" _ _ _ _ "Suc (Suc 0)"])

text \<open>
  The replacements that put the match back: the string \<open>%0\<close>, and a function or a table that gives \<open>nil\<close> or \<open>false\<close>.
\<close>

definition puts_back :: "'w gsub_env \<Rightarrow> TValue \<Rightarrow> bool" where
  "puts_back env repl \<longleftrightarrow> repl = TString [37, 48] \<or>
     (\<exists>a. repl = TGc LUA_TFUNCTION a) \<and> (\<forall>vs w v w'. env_call env vs w = Inr (v, w') \<longrightarrow> l_isfalse v) \<or>
     (\<exists>a. repl = TGc LUA_TTABLE a) \<and> (\<forall>k w v w'. env_gettable env k w = Inr (v, w') \<longrightarrow> l_isfalse v)"

definition callback_error :: "'w gsub_env \<Rightarrow> lua_error \<Rightarrow> bool" where
  "callback_error env e \<longleftrightarrow> (\<exists>vs w. env_call env vs w = Inl e) \<or> (\<exists>k w. env_gettable env k w = Inl e)"

abbreviation replace_error :: "'w gsub_env \<Rightarrow> lua_error \<Rightarrow> bool" where
  "replace_error env e \<equiv> e = RunError ''unfinished capture'' \<or> callback_error env e"

lemma capture_values_error: "capture_values s caps = Inl e \<Longrightarrow> e = RunError ''unfinished capture''"
  by (induction s caps rule: capture_values.induct) (auto simp: bindE_eq_Inl_iff split: if_splits)

lemma push_first_error:
  assumes "state_ok ms" and "push_onecapture s ms 0 b e = Inl err"
  shows "err = RunError ''unfinished capture''"
  using assms by (auto simp: push_onecapture_def Let_def split: if_splits prod.splits)

lemma add_value_keeps:
  assumes p: "puts_back env repl" and "used + 1 + LUA_MAXCAPTURES \<le> LUAI_MAXCSTACK"
  shows "keeps_text s (replace_error env) (add_value env cv used repl s)"
  unfolding keeps_text_def
proof (intro allI impI)
  fix ms sb se b w
  assume ms: "state_ok ms \<and> sb \<le> se \<and> se \<le> length s \<and> caps_ok s se (captures ms)"
  consider (whole) "repl = TString [37, 48]"
    | (fn) a where "repl = TGc LUA_TFUNCTION a" "\<And>vs w v w'. env_call env vs w = Inr (v, w') \<Longrightarrow> l_isfalse v"
    | (tab) a where "repl = TGc LUA_TTABLE a" "\<And>k w v w'. env_gettable env k w = Inr (v, w') \<Longrightarrow> l_isfalse v"
    using p unfolding puts_back_def by blast
  then show "case add_value env cv used repl s ms sb se (b, w) of
      Inl e \<Rightarrow> replace_error env e | Inr (b', w') \<Rightarrow> b' = b @ take (se - sb) (drop sb s)"
  proof cases
    case whole
    then show ?thesis by (simp add: add_value_def tostring_bytes_def add_s_whole)
  next
    case fn
    have e: "push_captures s ms (used + 1) True sb se = Inl e \<Longrightarrow> e = RunError ''unfinished capture''" for e
      using push_captures_values [of ms "used + 1" s True sb se] ms assms(2) capture_values_error by (auto split: if_splits)
    show ?thesis
    proof (cases "push_captures s ms (used + 1) True sb se")
      case (Inr vs)
      then show ?thesis using fn by (cases "env_call env vs w") (auto simp: add_value_def callback_error_def)
    qed (use e fn(1) in \<open>simp add: add_value_def\<close>)
  next
    case tab
    show ?thesis
    proof (cases "push_onecapture s ms 0 sb se")
      case (Inr v)
      then show ?thesis using tab by (cases "env_gettable env v w") (auto simp: add_value_def callback_error_def)
    qed (use push_first_error [of ms s sb se] ms tab(1) in \<open>simp add: add_value_def\<close>)
  qed
qed

lemma puts_back_kind:
  "puts_back env repl \<Longrightarrow> (case repl of TNumber d \<Rightarrow> True | TString t \<Rightarrow> True | TGc LUA_TFUNCTION a \<Rightarrow> True | TGc LUA_TTABLE a \<Rightarrow> True | _ \<Rightarrow> False)"
  by (auto simp: puts_back_def)

lemma gsub_keeps:
  assumes "small s" and p: "puts_back env repl"
    and a: "luaL_checklstring cv args 1 = Inr s" "luaL_checklstring cv args 2 = Inr p" "arg args 3 = Some repl"
      "luaL_optinteger cv args 4 (int (length s) + 1) = Inr max_s"
    and stack: "length args + 1 + LUA_MAXCAPTURES \<le> LUAI_MAXCSTACK"
  shows "case str_gsub env cv args w of
      Inl e \<Rightarrow> e = too_complex \<or> pattern_error e \<or> callback_error env e
    | Inr (vs, w') \<Rightarrow> \<exists>n. vs = [TString s, lua_pushinteger (int n)] \<and> int n \<le> max 0 max_s \<and> n \<le> length s + 1"
proof -
  have k: "keeps_text s (replace_error env) (add_value env cv (length args) repl s)"
    by (rule add_value_keeps [OF p stack])
  let ?loop = "gsub_loop (add_value env cv (length args) repl s) s (unanchored p) (char_at p 0 = 94) max_s 0 0 fresh_state (take 0 s, w)"
  have "str_gsub env cv args w = bindE ?loop (\<lambda>(src, n, b, w). Inr ([TString (b @ drop src s), lua_pushinteger (int n)], w))"
    unfolding str_gsub_def a bindE_simps Let_def option.case if_P [OF puts_back_kind [OF p]] by (simp add: unanchored_def)
  moreover have "case ?loop of
       Inl e \<Rightarrow> e = too_complex \<or> pattern_error e \<or> replace_error env e
     | Inr (src', n', b', w') \<Rightarrow> b' @ drop src' s = s \<and> int n' \<le> max 0 max_s \<and> n' \<le> length s + 1"
    by (rule gsub_loop_keeps [OF assms(1) k fresh_match_ok(1)]) simp_all
  ultimately show ?thesis by (cases ?loop) auto
qed

section \<open>Properties\<close>


text \<open>The case without optional arguments.\<close>

lemma find_two:
  assumes "small s" and "shallow (unanchored p)"
  shows "str_match cv [TString s, TString p] = found False s (leftmost s (unanchored p) (starts s p 0))"
    and "\<not> nospecials p \<Longrightarrow> str_find cv [TString s, TString p] = found True s (leftmost s (unanchored p) (starts s p 0))"
  using find_aux_found [OF assms(1), of cv "[TString s, TString p]" p 1 0 False] find_aux_found [OF assms(1), of cv "[TString s, TString p]" p 1 0 True] assms(2)
  by (auto simp: str_find_def str_match_def find_start_def textual_def nospecials_iff arg_def luaL_optinteger_def lua_isnoneornil_def)

lemma small_bytes: "length s < 2 ^ 30 \<Longrightarrow> small (bytes s)"
  by (simp add: small_def bytes_def)


text \<open>A closing parenthesis is a special character of patterns, yet the test for special characters leaves it out: \<open>find\<close> searches for
  it as plain text where \<open>match\<close> raises an error.\<close>

theorem close_paren_plain:
  "str_find cv [TString (bytes ''a)''), TString (bytes '')'')] = Inr [lua_pushinteger 2, lua_pushinteger 2] \<and>
    str_match cv [TString (bytes ''a)''), TString (bytes '')'')] = Inl (RunError ''invalid pattern capture'')"
proof
  have l: "lmemfind (bytes ''a)'') 0 (length (bytes ''a)'') - 0) (bytes '')'') = Some 1" "nospecials (bytes '')'')" "length (bytes '')'') = 1"
    by code_simp+
  show "str_find cv [TString (bytes ''a)''), TString (bytes '')'')] = Inr [lua_pushinteger 2, lua_pushinteger 2]"
    using l by (simp add: str_find_def str_find_aux_def posrelat_def)
  have p: "unanchored (bytes '')'') = bytes '')''" by code_simp
  have "depth_needed (parse (bytes '')'') 0) < LUAI_MAXCCALLS" by code_simp
  then have "str_match cv [TString (bytes ''a)''), TString (bytes '')'')] =
      found False (bytes ''a)'') (leftmost (bytes ''a)'') (bytes '')'') (starts (bytes ''a)'') (bytes '')'') 0))"
    using find_two(1) [of "bytes ''a)''" "bytes '')''" cv, unfolded p] small_bytes by (simp add: shallow_def)
  also have "\<dots> = Inl (RunError ''invalid pattern capture'')" by code_simp
  finally show "str_match cv [TString (bytes ''a)''), TString (bytes '')'')] = Inl (RunError ''invalid pattern capture'')" .
qed

text \<open>C17. \<open>gsub\<close> loses nothing: when every match is replaced by itself, because the replacement is the string \<open>%0\<close> or a function or a
  table that gives \<open>nil\<close> or \<open>false\<close>, the result is the source, whatever the pattern and its empty matches. The count is at most the
  fourth argument and at most one more than the length of the source; it fails only with an error of the pattern or of the
  function or table.\<close>

theorem gsub_keeps_text:
  assumes "small s" and "puts_back env repl"
    and "luaL_checklstring cv args 1 = Inr s" and "luaL_checklstring cv args 2 = Inr p" and "arg args 3 = Some repl"
    and "luaL_optinteger cv args 4 (int (length s) + 1) = Inr max_s" and "length args + 1 + LUA_MAXCAPTURES \<le> LUAI_MAXCSTACK"
  shows "case str_gsub env cv args w of
      Inl e \<Rightarrow> e = too_complex \<or> pattern_error e \<or> callback_error env e
    | Inr (vs, w') \<Rightarrow> \<exists>n. vs = [TString s, lua_pushinteger (int n)] \<and> int n \<le> max 0 max_s \<and> n \<le> length s + 1"
  by (rule gsub_keeps [OF assms])

definition nil_env :: "nat gsub_env" where
  "nil_env = \<lparr>env_call = (\<lambda>vs w. Inr (TNil, w + 1)), env_gettable = (\<lambda>v w. Inr (TNil, w)), env_typename = (\<lambda>v. [])\<rparr>"

text \<open>At most one substitution, with a function.\<close>

lemma gsub_keeps_text_witness:
  "\<exists>n w. str_gsub nil_env no_conv [TString (bytes ''ab''), TString (bytes ''%a''), TGc LUA_TFUNCTION 0, lua_pushinteger 1] 0 =
    Inr ([TString (bytes ''ab''), lua_pushinteger (int n)], w) \<and> n \<le> 1"
proof -
  define s where "s = bytes ''ab''"
  define p where "p = bytes ''%a''"
  let ?args = "[TString s, TString p, TGc LUA_TFUNCTION 0, lua_pushinteger 1]"
  have nn: "lua_pushinteger 1 \<noteq> TNil" by (simp add: lua_pushinteger_def)
  have a: "luaL_checklstring no_conv ?args 1 = Inr s" "luaL_checklstring no_conv ?args 2 = Inr p" "arg ?args 3 = Some (TGc LUA_TFUNCTION 0)"
      "luaL_optinteger no_conv ?args 4 (int (length s) + 1) = Inr 1"
    using nn by (simp_all add: arg_def luaL_optinteger_def lua_isnoneornil_def in_int32_def)
  have stack: "length ?args + 1 + LUA_MAXCAPTURES \<le> LUAI_MAXCSTACK" by simp
  have bk: "puts_back nil_env (TGc LUA_TFUNCTION 0)" by (simp add: puts_back_def nil_env_def l_isfalse_def)
  have small: "small s" unfolding s_def by (rule small_bytes) simp
  obtain x where "str_gsub nil_env no_conv ?args 0 = Inr x"
  proof -
    have "(case gsub_loop (add_value nil_env no_conv 4 (TGc LUA_TFUNCTION 0) s) s p False 1 0 0 fresh_state ([], 0) of
        Inr x \<Rightarrow> True | Inl e \<Rightarrow> False)" unfolding s_def p_def by code_simp
    moreover have "char_at p 0 \<noteq> 94" unfolding p_def by code_simp
    moreover have n: "length ?args = 4" by simp
    ultimately show thesis
      using that unfolding str_gsub_def a bindE_simps Let_def n by (auto simp: bindE_def split: sum.splits)
  qed
  then obtain vs w where r: "str_gsub nil_env no_conv ?args 0 = Inr (vs, w)" by (cases x) auto
  then show ?thesis
    using gsub_keeps_text [OF small bk a stack, of 0] unfolding s_def p_def by auto
qed

lemma leftmost_found:
  assumes "small s" and "\<forall>k \<in> set ks. k \<le> length s" and "leftmost s p ks = Inr (Some (b, e, caps))"
  shows "b \<in> set ks \<and> b \<le> e \<and> e \<le> length s"
  using assms(2,3)
proof (induction ks)
  case (Cons k ks)
  have "sound s k (Inr (e', caps'))" if "preferred s p k = Inr (Some (e', caps'))" for e' caps'
    using first_safe(2) [OF caps_ok_Nil [OF assms(1)]] that Cons.prems(1) by (simp add: preferred_def)
  then show ?case
    using Cons by (auto simp: leftmost_Cons sound_def caps_ok_def split: sum.splits option.splits prod.splits)
qed (simp add: leftmost_Nil)

text \<open>Every call of the function that \<open>gmatch\<close> returns gives the captures (or the whole) of the leftmost match from the place where the
  last one ended, and moves on by at least one character, also when the match is empty; when there is no more match it returns
  nothing. So a loop over the matches ends.\<close>

theorem gmatch_advances:
  assumes "small s" and "shallow p" and "used + LUA_MAXCAPTURES \<le> LUAI_MAXCSTACK" and "start \<le> length s + 1"
  shows "case leftmost s p [start..<Suc (length s)] of
      Inl e \<Rightarrow> gmatch_aux used (s, p, start) = Inl e
    | Inr None \<Rightarrow> gmatch_aux used (s, p, start) = Inr ([], s, p, start)
    | Inr (Some (b, e, caps)) \<Rightarrow>
        \<exists>start'. start < start' \<and> start' \<le> length s + 1 \<and> start \<le> b \<and> start' = max e (b + 1) \<and>
          gmatch_aux used (s, p, start) =
            bindE (if caps = [] then Inr [TString (take (e - b) (drop b s))] else capture_values s caps) (\<lambda>vs. Inr (vs, s, p, start'))"
proof (cases "leftmost s p [start..<Suc (length s)]")
  case (Inl err)
  then show ?thesis
    using gmatch_loop_sim [OF assms(2,1) fresh_match_ok(1), of start]
    by (cases "gmatch_loop s p start fresh_state") (auto simp: gmatch_aux_def leftmost_sim_def split: option.splits)
next
  case (Inr r)
  show ?thesis
  proof (cases r)
    case None
    then show ?thesis
      using Inr gmatch_loop_sim [OF assms(2,1) fresh_match_ok(1), of start]
      by (cases "gmatch_loop s p start fresh_state") (auto simp: gmatch_aux_def leftmost_sim_def split: option.splits)
  next
    case (Some m)
    obtain b e caps where m: "m = (b, e, caps)" by (cases m)
    then obtain ms where ms: "gmatch_loop s p start fresh_state = Inr (Some (b, e, ms))" "captures ms = caps" "state_ok ms"
      using Inr Some gmatch_loop_sim [OF assms(2,1) fresh_match_ok(1), of start]
      by (cases "gmatch_loop s p start fresh_state") (auto simp: leftmost_sim_def split: option.splits)
    have bounds: "start \<le> b" "b \<le> e" "e \<le> length s"
      using leftmost_found [OF assms(1) _ Inr [unfolded Some m]] by (simp_all add: less_Suc_eq_le del: upt_Suc)
    have start': "(if e = b then e + 1 else e) = max e (b + 1)" using bounds by auto
    have "gmatch_aux used (s, p, start) =
        bindE (if caps = [] then Inr [TString (take (e - b) (drop b s))] else capture_values s caps) (\<lambda>vs. Inr (vs, s, p, max e (b + 1)))"
      using ms by (simp add: gmatch_aux_def push_captures_values [OF ms(3) assms(3)] start' [simplified] Let_def)
    then show ?thesis using bounds Inr Some m by (auto simp: max_def)
  qed
qed

lemma gmatch_advances_witness:
  "gmatch_aux 0 (bytes ''ab'', bytes ''%a'', 1) = Inr ([TString (bytes ''b'')], bytes ''ab'', bytes ''%a'', 2)"
proof -
  have l: "leftmost (bytes ''ab'') (bytes ''%a'') [1..<Suc (length (bytes ''ab''))] = Inr (Some (1, 2, []))"
    "depth_needed (parse (bytes ''%a'') 0) < LUAI_MAXCCALLS" "length (bytes ''ab'') = 2" "take 1 (drop 1 (bytes ''ab'')) = bytes ''b''"
    "length (bytes ''b'') = 1" by code_simp+
  then show ?thesis
    using gmatch_advances [OF small_bytes, of "''ab''" "bytes ''%a''" 0 1] by (simp add: shallow_def)
qed

end
