(* ===== verification/StrLib.thy ===== *)
theory StrLib
  imports StrFind "HOL-Library.Sublist"
begin

text \<open>
  The functions of \<open>string\<close> on characters and slices (\<open>VM/src/lstrlib.cpp\<close>): \<open>len\<close>, \<open>sub\<close>, \<open>reverse\<close>, \<open>lower\<close>, \<open>upper\<close>, \<open>rep\<close>, \<open>byte\<close>, \<open>char\<close> and
  \<open>split\<close>, and the quoting of \<open>format\<close>'s \<open>%q\<close>. A string buffer is the list of the bytes written so far.
\<close>

unbundle bit_operations_syntax

section \<open>Model\<close>

definition slice :: "byte list \<Rightarrow> nat \<Rightarrow> nat \<Rightarrow> byte list" where
  "slice s i n = take n (drop i s)"

definition str_len :: "numconv \<Rightarrow> TValue list \<Rightarrow> lua_error + TValue list" where
  "str_len cv args = bindE (luaL_checklstring cv args 1) (\<lambda>s. Inr [lua_pushinteger (int (length s))])"

definition str_sub :: "numconv \<Rightarrow> TValue list \<Rightarrow> lua_error + TValue list" where
  "str_sub cv args =
     bindE (luaL_checklstring cv args 1) (\<lambda>s.
     bindE (luaL_checkinteger cv args 2) (\<lambda>i.
     bindE (luaL_optinteger cv args 3 (- 1)) (\<lambda>j.
     let start = posrelat i (length s); last = posrelat j (length s);
         start = (if start < 1 then 1 else start); last = (if last > int (length s) then int (length s) else last) in
     Inr [TString (if start \<le> last then slice s (nat (start - 1)) (nat (last - start + 1)) else [])])))"

definition str_reverse :: "numconv \<Rightarrow> TValue list \<Rightarrow> lua_error + TValue list" where
  "str_reverse cv args =
     bindE (luaL_checklstring cv args 1) (\<lambda>s. Inr [TString (map (\<lambda>l. s ! l) (rev [0..<length s]))])"

definition str_lower :: "numconv \<Rightarrow> TValue list \<Rightarrow> lua_error + TValue list" where
  "str_lower cv args = bindE (luaL_checklstring cv args 1) (\<lambda>s. Inr [TString (map tolower s)])"

definition str_upper :: "numconv \<Rightarrow> TValue list \<Rightarrow> lua_error + TValue list" where
  "str_upper cv args = bindE (luaL_checklstring cv args 1) (\<lambda>s. Inr [TString (map toupper s)])"

abbreviation MAXSSIZE :: nat where "MAXSSIZE \<equiv> 1073741824"

text \<open>The loop of \<open>rep\<close> copies what is in the buffer behind itself; \<open>left\<close> bytes are to come.\<close>

partial_function (option) rep_loop :: "byte list \<Rightarrow> nat \<Rightarrow> nat \<Rightarrow> byte list option" where
  "rep_loop b left step =
     (if step < left then rep_loop (b @ take step b) (left - step) (step * 2) else Some (b @ take left b))"

definition str_rep :: "numconv \<Rightarrow> TValue list \<Rightarrow> (lua_error + TValue list) option" where
  "str_rep cv args =
     (case bindE (luaL_checklstring cv args 1) (\<lambda>s. bindE (luaL_checkinteger cv args 2) (\<lambda>n. Inr (s, n))) of
        Inl e \<Rightarrow> Some (Inl e)
      | Inr (s, n) \<Rightarrow>
          let l = length s in
          if n \<le> 0 then Some (Inr [TString []])
          else if l > MAXSSIZE div nat n then Some (Inl (RunError ''resulting string too large''))
          else Option.bind (rep_loop (take l s) (l * nat n - l) l) (\<lambda>b. Some (Inr [TString b])))"

definition str_byte :: "numconv \<Rightarrow> TValue list \<Rightarrow> lua_error + TValue list" where
  "str_byte cv args =
     bindE (luaL_checklstring cv args 1) (\<lambda>s.
     bindE (luaL_optinteger cv args 2 1) (\<lambda>i.
     let posi = posrelat i (length s) in
     bindE (luaL_optinteger cv args 3 posi) (\<lambda>j.
     let pose = posrelat j (length s); posi = (if posi \<le> 0 then 1 else posi);
         pose = (if pose > int (length s) then int (length s) else pose) in
     if posi > pose then Inr []
     else
       let n = pose - posi + 1 in
       if posi + n \<le> pose then Inl (RunError ''string slice too long'')
       else
         bindE (luaL_checkstack (length args) (nat n) ''string slice too long'') (\<lambda>_.
         Inr (map (\<lambda>i. lua_pushinteger (uint (s ! (nat (posi + int i - 1))))) [0..<nat n])))))"

fun char_loop :: "numconv \<Rightarrow> TValue list \<Rightarrow> nat list \<Rightarrow> lua_error + byte list" where
  "char_loop cv args [] = Inr []"
| "char_loop cv args (i # is) =
     bindE (luaL_checkinteger cv args i) (\<lambda>c.
     if uint (word_of_int c :: byte) = c then bindE (char_loop cv args is) (\<lambda>b. Inr (word_of_int c # b))
     else Inl (ArgError i ''invalid value''))"

definition str_char :: "numconv \<Rightarrow> TValue list \<Rightarrow> lua_error + TValue list" where
  "str_char cv args = bindE (char_loop cv args [1..<Suc (length args)]) (\<lambda>b. Inr [TString b])"

text \<open>
  \<open>split\<close>: the pieces are stored in a new table at 1, 2 and so on. The bound of the loop is a difference of pointers; a separator
  longer than the text makes it lie before the text, where the code only compares it.
\<close>

function split_loop :: "byte list \<Rightarrow> byte list \<Rightarrow> nat \<Rightarrow> nat \<Rightarrow> byte list list \<Rightarrow> nat \<times> byte list list" where
  "split_loop hay needle spanStart iter t =
     (if int iter \<le> int (length hay) - int (length needle) then
        if memeq hay iter needle then
          let t = t @ [slice hay spanStart (iter - spanStart)]; spanStart = iter + length needle;
              iter = (if length needle > 0 then iter + (length needle - 1) else iter) in
          split_loop hay needle spanStart (iter + 1) t
        else split_loop hay needle spanStart (iter + 1) t
      else (spanStart, t))"
  by pat_completeness auto

termination
  by (relation "measure (\<lambda>(hay, needle, spanStart, iter, t). Suc (length hay) - iter)") auto

declare split_loop.simps [simp del]

definition split :: "byte list \<Rightarrow> byte list \<Rightarrow> byte list list" where
  "split hay needle =
     (let (spanStart, t) = split_loop hay needle 0 (if needle = [] then 1 else 0) [] in
      if length needle > 0 then t @ [slice hay spanStart (length hay - spanStart)] else t)"

definition str_split :: "numconv \<Rightarrow> TValue list \<Rightarrow> lua_error + byte list list" where
  "str_split cv args =
     bindE (luaL_checklstring cv args 1) (\<lambda>hay.
     bindE (if lua_isnoneornil args 2 then Inr [44] else luaL_checklstring cv args 2) (\<lambda>needle.
     Inr (split hay needle)))"

text \<open>\<open>%q\<close>: quotes, backslashes and newlines are escaped, carriage returns and zero bytes written out.\<close>

definition quote_char :: "byte \<Rightarrow> byte list" where
  "quote_char c =
     (if c = 34 \<or> c = 92 \<or> c = 10 then [92, c] else if c = 13 then [92, 114] else if c = 0 then [92, 48, 48, 48] else [c])"

definition addquoted :: "byte list \<Rightarrow> byte list" where
  "addquoted s = [34] @ concat (map quote_char s) @ [34]"

section \<open>Slices\<close>

text \<open>A position counted from the end when it is negative.\<close>

definition from_end :: "int \<Rightarrow> byte list \<Rightarrow> int" where
  "from_end i s = (if i < 0 then i + int (length s) + 1 else i)"

lemma filter_window:
  "filter (\<lambda>k. a \<le> int k \<and> int k \<le> b) [0..<n] = [nat a..<min n (nat (b + 1))]"
proof (induction n)
  case (Suc n)
  show ?case
  proof (cases "a \<le> int n \<and> int n \<le> b")
    case True
    then have "min n (nat (b + 1)) = n" "min (Suc n) (nat (b + 1)) = Suc n" "nat a \<le> n" by auto
    then show ?thesis using True Suc by simp
  next
    case False
    then have "b < int n \<or> int n < a" by auto
    then show ?thesis
    proof
      assume "b < int n"
      then have "min n (nat (b + 1)) = min (Suc n) (nat (b + 1))" by auto
      then show ?thesis using False Suc by simp
    next
      assume "int n < a"
      then have "min n (nat (b + 1)) \<le> nat a" "min (Suc n) (nat (b + 1)) \<le> nat a" by auto
      then show ?thesis using False Suc by simp
    qed
  qed
qed simp

lemma slice_map: "i + n \<le> length s \<Longrightarrow> slice s i n = map (\<lambda>k. s ! k) [i..<i + n]"
  by (rule nth_equalityI) (simp_all add: slice_def)

lemma sub_window:
  assumes "small s"
  shows "(let start = posrelat i (length s); last = posrelat j (length s);
      start = (if start < 1 then 1 else start); last = (if last > int (length s) then int (length s) else last) in
      if start \<le> last then slice s (nat (start - 1)) (nat (last - start + 1)) else [])
    = map (\<lambda>k. s ! k) (filter (\<lambda>k. from_end i s \<le> int k + 1 \<and> int k + 1 \<le> from_end j s) [0..<length s])"
proof -
  define a where "a = max 1 (from_end i s)"
  define b where "b = min (int (length s)) (from_end j s)"
  have a: "(if posrelat i (length s) < 1 then 1 else posrelat i (length s)) = a"
    by (auto simp: posrelat_def from_end_def a_def Let_def)
  define b' where "b' = (if posrelat j (length s) > int (length s) then int (length s) else posrelat j (length s))"
  have b': "b' = max 0 b" by (auto simp: posrelat_def from_end_def b_def b'_def Let_def)
  have "filter (\<lambda>k. from_end i s \<le> int k + 1 \<and> int k + 1 \<le> from_end j s) [0..<length s]
      = filter (\<lambda>k. a - 1 \<le> int k \<and> int k \<le> b - 1) [0..<length s]"
    by (rule filter_cong) (auto simp: a_def b_def)
  also have "\<dots> = [nat (a - 1)..<min (length s) (nat b)]" using filter_window [of "a - 1" "b - 1"] by simp
  finally have f: "filter (\<lambda>k. from_end i s \<le> int k + 1 \<and> int k + 1 \<le> from_end j s) [0..<length s] = [nat (a - 1)..<min (length s) (nat b)]" .
  show ?thesis unfolding Let_def f a b'_def [symmetric]
  proof (cases "a \<le> b'")
    case True
    then have "b' = b" "1 \<le> a" "b \<le> int (length s)" using b' by (auto simp: a_def b_def)
    then have "nat (a - 1) + nat (b' - a + 1) = nat b" "min (length s) (nat b) = nat b" "nat b \<le> length s" using True by auto
    then show "(if a \<le> b' then slice s (nat (a - 1)) (nat (b' - a + 1)) else []) = map (\<lambda>k. s ! k) [nat (a - 1)..<min (length s) (nat b)]"
      using True slice_map [of "nat (a - 1)" "nat (b' - a + 1)" s] by simp
  next
    case False
    then have "min (length s) (nat b) \<le> nat (a - 1)" using b' by (auto simp: a_def b_def)
    then show "(if a \<le> b' then slice s (nat (a - 1)) (nat (b' - a + 1)) else []) = map (\<lambda>k. s ! k) [nat (a - 1)..<min (length s) (nat b)]"
      using False by simp
  qed
qed

section \<open>Repetition\<close>

lemma take_replicate: "m \<le> k \<Longrightarrow> take (m * length s) (concat (replicate k s)) = concat (replicate m s)"
proof (induction m arbitrary: k)
  case (Suc m)
  then obtain k' where "k = Suc k'" by (cases k) auto
  then show ?case using Suc by simp
qed simp

lemma length_concat_replicate: "length (concat (replicate k s)) = k * length s"
  by (induction k) simp_all

lemma replicate_twice: "concat (replicate k s) @ concat (replicate m s) = concat (replicate (k + m) s)"
  by (simp add: replicate_add)

lemma rep_loop_replicate:
  "k > 0 \<Longrightarrow> rep_loop (concat (replicate k s)) (m * length s) (k * length s) = Some (concat (replicate (k + m) s))"
proof (induction m arbitrary: k rule: less_induct)
  case (less m)
  let ?b = "concat (replicate k s)"
  show ?case
  proof (cases "k * length s < m * length s")
    case True
    then have km: "k < m" by simp
    have t: "take (k * length s) ?b = ?b" by (simp add: length_concat_replicate)
    have "rep_loop (?b @ take (k * length s) ?b) (m * length s - k * length s) (k * length s * 2) =
        rep_loop (concat (replicate (k + k) s)) ((m - k) * length s) ((k + k) * length s)"
      unfolding t replicate_twice by (simp add: diff_mult_distrib add_mult_distrib mult_2_right)
    also have "\<dots> = Some (concat (replicate (k + m) s))"
      using less.IH [of "m - k" "k + k"] less.prems km by (simp add: add.assoc)
    finally show ?thesis using True by (subst rep_loop.simps) simp
  next
    case False
    then have "m \<le> k \<or> s = []" by auto
    then have "take (m * length s) ?b = concat (replicate m s)" using take_replicate by auto
    then show ?thesis using replicate_twice [of k s m] unfolding rep_loop.simps [of ?b] if_not_P [OF False] by simp
  qed
qed

lemma str_rep_eq:
  assumes "in_int32 n"
  shows "str_rep cv [TString s, lua_pushinteger n] =
    Some (if n \<le> 0 then Inr [TString []]
      else if length s * nat n > MAXSSIZE then Inl (RunError ''resulting string too large'')
      else Inr [TString (concat (replicate (nat n) s))])"
proof (cases "n \<le> 0 \<or> length s * nat n > MAXSSIZE")
  case True
  then show ?thesis using assms div_less_iff_less_mult [of "nat n" MAXSSIZE "length s"]
    by (auto simp: str_rep_def Let_def)
next
  case False
  then have e: "1 + (nat n - 1) = nat n" "(nat n - 1) * length s = length s * nat n - length s"
    by simp (cases "nat n", simp_all add: mult.commute)
  have "rep_loop (concat (replicate 1 s)) ((nat n - 1) * length s) (1 * length s) = Some (concat (replicate (1 + (nat n - 1)) s))"
    by (rule rep_loop_replicate) simp
  then have "rep_loop s (length s * nat n - length s) (length s) = Some (concat (replicate (nat n) s))"
    unfolding e by simp
  then show ?thesis
    using False assms div_less_iff_less_mult [of "nat n" MAXSSIZE "length s"] by (simp add: str_rep_def Let_def)
qed

section \<open>Bytes\<close>

lemma char_loop_bytes:
  "\<forall>i \<in> set is. arg args i = Some (lua_pushinteger (uint (f i))) \<Longrightarrow> char_loop cv args is = Inr (map f is)"
proof (induction "is")
  case (Cons i "is")
  have "in_int32 (uint (f i))" using uint_bounded [of "f i"] by (simp add: in_int32_def)
  then show ?case using Cons by simp
qed simp

lemma byte_char:
  assumes "length s + 3 \<le> LUAI_MAXCSTACK"
  shows "str_byte cv [TString s, lua_pushinteger 1, lua_pushinteger (- 1)] = Inr (map (\<lambda>c. lua_pushinteger (uint c)) s) \<and>
    str_char cv (map (\<lambda>c. lua_pushinteger (uint c)) s) = Inr [TString s]"
proof
  let ?vs = "map (\<lambda>c. lua_pushinteger (uint c)) s"
  have "map (\<lambda>i. lua_pushinteger (uint (s ! i))) [0..<length s] = ?vs" by (rule nth_equalityI) simp_all
  then show "str_byte cv [TString s, lua_pushinteger 1, lua_pushinteger (- 1)] = Inr ?vs"
    using assms by (simp add: str_byte_def posrelat_def in_int32_def luaL_checkstack_def Let_def)
  have "char_loop cv ?vs [1..<Suc (length ?vs)] = Inr (map (\<lambda>i. s ! (i - 1)) [1..<Suc (length ?vs)])"
    by (rule char_loop_bytes) (auto simp: arg_def simp del: upt_Suc)
  moreover have "map (\<lambda>i. s ! (i - 1)) [1..<Suc (length ?vs)] = s" by (rule nth_equalityI) (simp_all del: upt_Suc)
  ultimately show "str_char cv ?vs = Inr [TString s]" by (simp add: str_char_def del: upt_Suc)
qed

section \<open>Splitting\<close>

fun joined :: "byte list \<Rightarrow> byte list list \<Rightarrow> byte list" where
  "joined sep [] = []"
| "joined sep [w] = w"
| "joined sep (w # ws) = w @ sep @ joined sep ws"

lemma joined_snoc: "joined sep (ws @ [w]) = concat (map (\<lambda>w. w @ sep) ws) @ w"
proof (induction ws)
  case (Cons v ws)
  then show ?case by (cases ws) simp_all
qed simp

lemma memeq_take: "memeq s k w \<Longrightarrow> take (k + length w) s = take k s @ w"
  by (simp add: memeq_def take_add)

lemma sublist_slice:
  assumes "sublist w (slice s a n)" and "a + n \<le> length s"
  shows "\<exists>k. a \<le> k \<and> k + length w \<le> a + n \<and> memeq s k w"
proof -
  obtain ps ss where p: "slice s a n = ps @ w @ ss" using assms(1) by (auto simp: sublist_def)
  have "length ps + length w + length ss = n" using arg_cong [OF p, of length] assms(2) by (simp add: slice_def)
  moreover have "drop a s = slice s a n @ drop (a + n) s" by (metis add.commute append_take_drop_id drop_drop slice_def)
  then have "drop a s = ps @ w @ ss @ drop (a + n) s" using p by simp
  then have "drop (a + length ps) s = w @ ss @ drop (a + n) s" by (metis add.commute append_eq_conv_conj drop_drop)
  then have "memeq s (a + length ps) w" by (simp add: memeq_def)
  ultimately show ?thesis by (intro exI [of _ "a + length ps"]) auto
qed

lemma split_loop_spec:
  assumes "needle \<noteq> []"
  shows "ss \<le> iter \<Longrightarrow> ss \<le> length hay \<Longrightarrow> concat (map (\<lambda>w. w @ needle) t) = take ss hay \<Longrightarrow> \<forall>w \<in> set t. \<not> sublist needle w \<Longrightarrow>
    \<forall>k. ss \<le> k \<and> k < iter \<longrightarrow> \<not> memeq hay k needle \<Longrightarrow> split_loop hay needle ss iter t = (ss', t') \<Longrightarrow>
    ss' \<le> length hay \<and> concat (map (\<lambda>w. w @ needle) t') = take ss' hay \<and> (\<forall>w \<in> set t'. \<not> sublist needle w) \<and>
    (\<forall>k. ss' \<le> k \<and> k + length needle \<le> length hay \<longrightarrow> \<not> memeq hay k needle)"
proof (induction "Suc (length hay) - iter" arbitrary: ss iter t rule: less_induct)
  case less
  show ?case
  proof (cases "int iter \<le> int (length hay) - int (length needle)")
    case in_range: True
    then have fit: "iter + length needle \<le> length hay" by simp
    show ?thesis
    proof (cases "memeq hay iter needle")
      case True
      define piece where "piece = slice hay ss (iter - ss)"
      have np: "\<not> sublist needle piece"
      proof
        assume "sublist needle piece"
        then obtain k where "ss \<le> k" "k + length needle \<le> iter" "memeq hay k needle"
          using sublist_slice [of needle hay ss "iter - ss"] less.prems(1) fit by (auto simp: piece_def)
        moreover from this assms have "k < iter" by (cases needle) simp_all
        ultimately show False using less.prems(5) by blast
      qed
      have tk: "take ss hay @ piece @ needle = take (iter + length needle) hay"
        using take_extend [OF less.prems(1), of hay] memeq_take [OF True] by (simp add: piece_def slice_def flip: append_assoc)
      have eq: "split_loop hay needle (iter + length needle) (iter + length needle) (t @ [piece]) = (ss', t')"
      proof -
        obtain c rest where "needle = c # rest" using assms by (cases needle) simp_all
        then show ?thesis using less.prems(6) in_range True by (subst (asm) split_loop.simps) (simp add: Let_def piece_def)
      qed
      have lt: "Suc (length hay) - (iter + length needle) < Suc (length hay) - iter" using assms fit by (cases needle) simp_all
      have vac: "\<forall>k. iter + length needle \<le> k \<and> k < iter + length needle \<longrightarrow> \<not> memeq hay k needle" by auto
      have cat: "concat (map (\<lambda>w. w @ needle) (t @ [piece])) = take (iter + length needle) hay" using less.prems(3) tk by simp
      have all: "\<forall>w \<in> set (t @ [piece]). \<not> sublist needle w" using less.prems(4) np by simp
      show ?thesis by (rule less.hyps [OF lt le_refl fit cat all vac eq])
    next
      case False
      have eq: "split_loop hay needle ss (iter + 1) t = (ss', t')"
        using less.prems(6) in_range False by (subst (asm) split_loop.simps) simp
      have vac: "\<forall>k. ss \<le> k \<and> k < iter + 1 \<longrightarrow> \<not> memeq hay k needle" using less.prems(5) False by (auto simp: less_Suc_eq)
      have "Suc (length hay) - (iter + 1) < Suc (length hay) - iter" "ss \<le> iter + 1" using fit less.prems(1) by simp_all
      from less.hyps [OF this less.prems(2-4) vac eq] show ?thesis .
    qed
  next
    case False
    then have r: "ss' = ss" "t' = t" using less.prems(6) by (subst (asm) split_loop.simps, simp)+
    have "\<not> memeq hay k needle" if "ss \<le> k" "k + length needle \<le> length hay" for k
      using False that less.prems(5) by force
    then show ?thesis using r less.prems(2-4) by blast
  qed
qed

lemma split_sep:
  assumes "needle \<noteq> []"
  shows "joined needle (split hay needle) = hay \<and> (\<forall>w \<in> set (split hay needle). \<not> sublist needle w)"
proof -
  obtain ss t where l: "split_loop hay needle 0 0 [] = (ss, t)" by (cases "split_loop hay needle 0 0 []")
  note s = split_loop_spec [OF assms _ _ _ _ _ l, simplified]
  define w where "w = slice hay ss (length hay - ss)"
  have "split hay needle = t @ [w]" using assms l by (simp add: split_def w_def)
  moreover have "take ss hay @ w = hay" by (simp add: w_def slice_def)
  moreover have "\<not> sublist needle w"
  proof
    assume "sublist needle w"
    then obtain k where "ss \<le> k" "k + length needle \<le> length hay" "memeq hay k needle"
      using sublist_slice [of needle hay ss "length hay - ss"] s by (auto simp: w_def)
    then show False using s by blast
  qed
  ultimately show ?thesis using s by (auto simp: joined_snoc)
qed

lemma split_chars_loop: "ss + 1 = iter \<Longrightarrow> split_loop hay [] ss iter t = (max ss (length hay), t @ map (\<lambda>c. [c]) (drop ss hay))"
proof (induction "length hay - ss" arbitrary: ss iter t)
  case 0
  then show ?case by (subst split_loop.simps) simp
next
  case (Suc n)
  then have ss: "ss < length hay" by simp
  have "split_loop hay [] iter (iter + 1) (t @ [[hay ! ss]]) = (length hay, (t @ [[hay ! ss]]) @ map (\<lambda>c. [c]) (drop iter hay))"
    using Suc.hyps(1) [of iter "iter + 1" "t @ [[hay ! ss]]"] Suc.hyps(2) Suc.prems ss by auto
  moreover have "drop ss hay = hay ! ss # drop iter hay" using ss Suc.prems by (auto simp: Cons_nth_drop_Suc [symmetric])
  moreover have "slice hay ss (iter - ss) = [hay ! ss]" using ss Suc.prems by (auto simp: slice_def take_Suc_conv_app_nth Cons_nth_drop_Suc [symmetric])
  ultimately show ?case using ss Suc.prems by (subst split_loop.simps) (auto simp: memeq_def Let_def max_def)
qed

lemma split_chars: "split hay [] = map (\<lambda>c. [c]) hay"
  using split_chars_loop [of 0 1 hay "[]"] by (simp add: split_def)

section \<open>Properties\<close>

text \<open>\<open>sub\<close> returns exactly the bytes whose position lies between the two positions given, counted from 1, or from the end when they are
  negative, for all C integers: positions outside the string are no error.\<close>

theorem str_sub_window:
  assumes "small s" and "in_int32 i" and "in_int32 j"
  shows "str_sub cv [TString s, lua_pushinteger i, lua_pushinteger j] =
    Inr [TString (map (\<lambda>k. s ! k) (filter (\<lambda>k. from_end i s \<le> int k + 1 \<and> int k + 1 \<le> from_end j s) [0..<length s]))]"
  using sub_window [OF assms(1), of i j] assms(2,3) by (simp add: str_sub_def Let_def)

lemma str_sub_window_witness:
  "str_sub no_conv [TString (bytes ''hello''), lua_pushinteger (- 4), lua_pushinteger 2147483647] = Inr [TString (bytes ''ello'')]"
proof -
  have "map (\<lambda>k. bytes ''hello'' ! k) (filter (\<lambda>k. from_end (- 4) (bytes ''hello'') \<le> int k + 1 \<and> int k + 1 \<le> from_end 2147483647 (bytes ''hello''))
      [0..<length (bytes ''hello'')]) = bytes ''ello''" by code_simp
  then show ?thesis
    using str_sub_window [OF small_bytes, of "''hello''" "- 4" 2147483647 no_conv] by (simp add: in_int32_def)
qed

text \<open>\<open>rep\<close>, which doubles what it has already written, returns the string repeated the given number of times, and raises an error
  exactly when the result would be longer than \<open>MAXSSIZE\<close>; its loop always ends.\<close>

theorem str_rep_repeats:
  assumes "in_int32 n"
  shows "str_rep cv [TString s, lua_pushinteger n] =
    Some (if n \<le> 0 then Inr [TString []]
      else if length s * nat n > MAXSSIZE then Inl (RunError ''resulting string too large'')
      else Inr [TString (concat (replicate (nat n) s))])"
  by (rule str_rep_eq [OF assms])

lemma str_rep_repeats_witness: "str_rep no_conv [TString (bytes ''ab''), lua_pushinteger 3] = Some (Inr [TString (bytes ''ababab'')])"
proof -
  have "concat (replicate (nat 3) (bytes ''ab'')) = bytes ''ababab''" "length (bytes ''ab'') = 2" by code_simp+
  then show ?thesis using str_rep_repeats [of 3 no_conv "bytes ''ab''"] by (simp add: in_int32_def)
qed

text \<open>\<open>split\<close> loses nothing: joining the pieces with the separator gives the text back, and no piece contains the separator, also when
  occurrences of the separator overlap or it is longer than the text; with an empty separator the pieces are the single bytes.\<close>

theorem split_join:
  "(needle \<noteq> [] \<longrightarrow> joined needle (split hay needle) = hay \<and> (\<forall>w \<in> set (split hay needle). \<not> sublist needle w)) \<and>
    (needle = [] \<longrightarrow> split hay needle = map (\<lambda>c. [c]) hay)"
  using split_sep split_chars by blast

lemma split_join_witness: "joined (bytes ''aa'') (split (bytes ''baaac'') (bytes ''aa'')) = bytes ''baaac''"
  using split_join [of "bytes ''aa''" "bytes ''baaac''"] by (simp add: bytes_def)

text \<open>\<open>char\<close> undoes \<open>byte\<close>: the bytes of a whole string, as many as the stack takes, give the string back.\<close>

theorem byte_char_roundtrip:
  assumes "length s + 3 \<le> LUAI_MAXCSTACK"
  shows "bindE (str_byte cv [TString s, lua_pushinteger 1, lua_pushinteger (- 1)]) (str_char cv) = Inr [TString s]"
  using byte_char [OF assms, of cv] by simp

lemma byte_char_roundtrip_witness:
  "bindE (str_byte no_conv [TString [0, 255, 7], lua_pushinteger 1, lua_pushinteger (- 1)]) (str_char no_conv) = Inr [TString [0, 255, 7]]"
  by (rule byte_char_roundtrip) simp

end
