(* ===== verification/StrPack.thy ===== *)
theory StrPack
  imports StrLib Buffer
begin

text \<open>
  \<open>string.pack\<close>, \<open>packsize\<close> and \<open>unpack\<close> (\<open>VM/src/lstrlib.cpp\<close>) on a little-endian machine. The format is read as a C string, up to its
  first zero byte.
\<close>

unbundle bit_operations_syntax

section \<open>Model\<close>

abbreviation MAXINTSIZE :: nat where "MAXINTSIZE \<equiv> 16"
abbreviation SZINT :: nat where "SZINT \<equiv> 8"
abbreviation MAXALIGN :: nat where "MAXALIGN \<equiv> 8"
abbreviation LUAL_PACKPADBYTE :: byte where "LUAL_PACKPADBYTE \<equiv> 0"

record Header =
  islittle :: bool
  maxalign :: nat

datatype KOption = Kint | Kuint | Kfloat | Kchar | Kstring | Kzstr | Kpadding | Kpaddalign | Knop

definition digit :: "byte \<Rightarrow> bool" where
  "digit c \<longleftrightarrow> 48 \<le> c \<and> c \<le> 57"

lemma digit_pos: "digit (char_at fmt i) \<Longrightarrow> i < length fmt"
  by (rule char_at_pos) (auto simp: digit_def)

text \<open>The loop of \<open>getnum\<close>, at a digit: the value and the position behind it.\<close>

function getnum_loop :: "byte list \<Rightarrow> nat \<Rightarrow> nat \<Rightarrow> nat \<times> nat" where
  "getnum_loop fmt i a =
     (let a = a * 10 + (unat (char_at fmt i) - 48); i = i + 1 in
      if digit (char_at fmt i) \<and> a \<le> 214748363 then getnum_loop fmt i a else (a, i))"
  by pat_completeness auto

termination
  by (relation "measure (\<lambda>(fmt, i, a). length fmt - i)") (use digit_pos in \<open>auto intro: diff_less_mono2 dest: Suc_lessD\<close>)

declare getnum_loop.simps [simp del]

text \<open>\<open>df\<close> is the value when there is no number (\<open>None\<close> is the \<open>-1\<close> of the option \<open>c\<close>).\<close>

definition getnum :: "byte list \<Rightarrow> nat \<Rightarrow> nat option \<Rightarrow> lua_error + nat option \<times> nat" where
  "getnum fmt i df =
     (if \<not> digit (char_at fmt i) then Inr (df, i)
      else
        let (a, i) = getnum_loop fmt i 0 in
        if a > MAXSSIZE \<or> digit (char_at fmt i) then Inl (RunError ''size specifier is too large'')
        else Inr (Some a, i))"

definition getnumlimit :: "byte list \<Rightarrow> nat \<Rightarrow> nat \<Rightarrow> lua_error + nat \<times> nat" where
  "getnumlimit fmt i df =
     bindE (getnum fmt i (Some df)) (\<lambda>(sz, i).
     let sz = the sz in
     if sz > MAXINTSIZE \<or> sz = 0
     then Inl (RunError (''integral size ('' @ show_nat sz @ '') out of limits [1,'' @ show_nat MAXINTSIZE @ '']''))
     else Inr (sz, i))"

definition initheader :: Header where
  "initheader = \<lparr>islittle = True, maxalign = 1\<rparr>"

text \<open>The options that are a single letter and leave the header alone.\<close>

definition fixed_option :: "byte \<Rightarrow> (KOption \<times> nat) option" where
  "fixed_option = map_of
     [(98, Kint, 1), (66, Kuint, 1), (104, Kint, 2), (72, Kuint, 2), (108, Kint, 8), (76, Kuint, 8), (106, Kint, 4), (74, Kuint, 4),
      (84, Kuint, 4), (102, Kfloat, 4), (100, Kfloat, 8), (110, Kfloat, 8), (122, Kzstr, 0), (120, Kpadding, 1), (88, Kpaddalign, 0),
      (32, Knop, 0)]"

definition getoption :: "Header \<Rightarrow> byte list \<Rightarrow> nat \<Rightarrow> lua_error + KOption \<times> nat \<times> Header \<times> nat" where
  "getoption h fmt i =
     (let c = char_at fmt i; i = i + 1 in
      case fixed_option c of
        Some (opt, sz) \<Rightarrow> Inr (opt, sz, h, i)
      | None \<Rightarrow>
          if c = 105 then bindE (getnumlimit fmt i 4) (\<lambda>(sz, i). Inr (Kint, sz, h, i))
          else if c = 73 then bindE (getnumlimit fmt i 4) (\<lambda>(sz, i). Inr (Kuint, sz, h, i))
          else if c = 115 then bindE (getnumlimit fmt i 4) (\<lambda>(sz, i). Inr (Kstring, sz, h, i))
          else if c = 99 then
            bindE (getnum fmt i None) (\<lambda>(sz, i).
            case sz of
              None \<Rightarrow> Inl (RunError (''missing size for format option '' @ qt ''c''))
            | Some sz \<Rightarrow> Inr (Kchar, sz, h, i))
          else if c = 60 then Inr (Knop, 0, h\<lparr>islittle := True\<rparr>, i)
          else if c = 62 then Inr (Knop, 0, h\<lparr>islittle := False\<rparr>, i)
          else if c = 61 then Inr (Knop, 0, h\<lparr>islittle := True\<rparr>, i)
          else if c = 33 then bindE (getnumlimit fmt i MAXALIGN) (\<lambda>(sz, i). Inr (Knop, 0, h\<lparr>maxalign := sz\<rparr>, i))
          else Inl (RunError (''invalid format option '' @ qt [char_of (unat c)])))"

text \<open>What has to be aligned: \<open>X\<close> takes its alignment from the option behind it.\<close>

definition getalign :: "KOption \<Rightarrow> nat \<Rightarrow> Header \<Rightarrow> byte list \<Rightarrow> nat \<Rightarrow> lua_error + nat \<times> Header \<times> nat" where
  "getalign opt sz h fmt i =
     (if opt = Kpaddalign then
        if char_at fmt i = 0 then Inl (ArgError 1 (''invalid next option for option '' @ qt ''X''))
        else
          bindE (getoption h fmt i) (\<lambda>(opt, align, h, i).
          if opt = Kchar \<or> align = 0 then Inl (ArgError 1 (''invalid next option for option '' @ qt ''X''))
          else Inr (align, h, i))
      else Inr (sz, h, i))"

text \<open>The option with its size, the padding before it, the header and the position behind it.\<close>

definition getdetails :: "Header \<Rightarrow> nat \<Rightarrow> byte list \<Rightarrow> nat \<Rightarrow> lua_error + KOption \<times> nat \<times> nat \<times> Header \<times> nat" where
  "getdetails h totalsize fmt i =
     bindE (getoption h fmt i) (\<lambda>(opt, sz, h, i).
     bindE (getalign opt sz h fmt i) (\<lambda>(align, h, i).
     if align \<le> 1 \<or> opt = Kchar then Inr (opt, sz, 0, h, i)
     else
       let align = (if align > maxalign h then maxalign h else align) in
       if align AND (align - 1) \<noteq> 0 then Inl (ArgError 1 ''format asks for alignment not power of 2'')
       else Inr (opt, sz, (align - (totalsize AND (align - 1))) AND (align - 1), h, i)))"

lemma getnum_loop_progress: "getnum_loop fmt i a = (b, j) \<Longrightarrow> i < j"
proof (induction fmt i a rule: getnum_loop.induct)
  case (1 fmt i a)
  then show ?case
    by (subst (asm) (2) getnum_loop.simps) (auto simp: Let_def dest: Suc_lessD split: if_splits)
qed

lemma getnum_progress: "getnum fmt i df = Inr (n, j) \<Longrightarrow> i \<le> j"
  by (auto simp: getnum_def Let_def split: if_splits prod.splits dest: getnum_loop_progress)

lemma getnumlimit_progress: "getnumlimit fmt i df = Inr (n, j) \<Longrightarrow> i \<le> j \<and> 1 \<le> n \<and> n \<le> MAXINTSIZE"
  by (auto simp: getnumlimit_def bindE_eq_Inr_iff Let_def split: if_splits dest: getnum_progress)

lemma getoption_progress:
  assumes "getoption h fmt i = Inr (opt, sz, h', j)"
  shows "i < j"
proof (cases "fixed_option (char_at fmt i)")
  case None
  show ?thesis using assms unfolding getoption_def Let_def None option.case
    by (simp only: split: if_splits) (auto elim!: bindE_InrE dest: getnumlimit_progress getnum_progress split: option.splits)
qed (use assms in \<open>auto simp: getoption_def\<close>)

lemma getalign_progress: "getalign opt sz h fmt i = Inr (align, h', j) \<Longrightarrow> i \<le> j"
  by (auto simp: getalign_def split: if_splits elim!: bindE_InrE dest: getoption_progress)

lemma getdetails_progress:
  assumes "getdetails h t fmt i = Inr (opt, sz, n, h', j)"
  shows "i < j"
proof -
  from assms obtain opt1 sz1 h1 i1 align h2 i2 where "getoption h fmt i = Inr (opt1, sz1, h1, i1)"
    and "getalign opt1 sz1 h1 fmt i1 = Inr (align, h2, i2)" and "j = i2"
    unfolding getdetails_def by (auto simp: Let_def elim!: bindE_InrE split: if_splits prod.splits)
  then show ?thesis using getoption_progress getalign_progress by fastforce
qed

lemma details_measure:
  "char_at fmt i \<noteq> 0 \<Longrightarrow> getdetails h t fmt i = Inr (opt, sz, n, h', j) \<Longrightarrow> length fmt - j < length fmt - i"
  by (drule char_at_pos, drule getdetails_progress) (rule diff_less_mono2)

subsection \<open>Packing\<close>

text \<open>The bytes of an integer from the lowest; beyond its eight bytes the loop shifts in zeros.\<close>

primrec shift_bytes :: "nat \<Rightarrow> u64 \<Rightarrow> byte list" where
  "shift_bytes 0 n = []"
| "shift_bytes (Suc k) n = ucast (n AND 255) # shift_bytes k (drop_bit 8 n)"

definition packint :: "u64 \<Rightarrow> bool \<Rightarrow> nat \<Rightarrow> bool \<Rightarrow> byte list" where
  "packint n little sz neg =
     (let bs = shift_bytes sz n;
          bs = (if neg \<and> sz > SZINT then take SZINT bs @ replicate (sz - SZINT) 255 else bs)
      in if little then bs else rev bs)"

text \<open>The machine is little-endian: the bytes of a value in memory start with the lowest.\<close>

definition copywithendian :: "byte list \<Rightarrow> bool \<Rightarrow> byte list" where
  "copywithendian src little = (if little then src else rev src)"

definition float_type :: "nat \<Rightarrow> fp_type" where
  "float_type sz = (if sz = 4 then fp_float else fp_double)"

definition check_longlong :: "numconv \<Rightarrow> TValue list \<Rightarrow> nat \<Rightarrow> lua_error + int" where
  "check_longlong cv args i =
     bindE (luaL_checknumber cv args i) (\<lambda>d.
     case luai_num2long d of Some n \<Rightarrow> Inr n | None \<Rightarrow> Inl (Undefined ''double to long long''))"

text \<open>The bytes for an option; a string with its length adds the string's length to the total size, not the option's.\<close>

definition pack_value :: "numconv \<Rightarrow> TValue list \<Rightarrow> nat \<Rightarrow> KOption \<Rightarrow> nat \<Rightarrow> bool \<Rightarrow> lua_error + byte list" where
  "pack_value cv args i opt sz little =
     (case opt of
        Kint \<Rightarrow>
          bindE (check_longlong cv args i) (\<lambda>n.
          let lim = (if sz < SZINT then 2 ^ (sz * 8 - 1) else 0) in
          if sz < SZINT \<and> \<not> (- lim \<le> n \<and> n < lim) then Inl (ArgError i ''integer overflow'')
          else Inr (packint (word_of_int n) little sz (n < 0)))
      | Kuint \<Rightarrow>
          bindE (check_longlong cv args i) (\<lambda>n.
          if sz < SZINT \<and> \<not> uint (word_of_int n :: u64) < 2 ^ (sz * 8) then Inl (ArgError i ''unsigned overflow'')
          else Inr (packint (word_of_int n) little sz False))
      | Kfloat \<Rightarrow>
          bindE (luaL_checknumber cv args i) (\<lambda>n. Inr (copywithendian (le_bytes sz (fp_store (float_type sz) n)) little))
      | Kchar \<Rightarrow>
          bindE (luaL_checklstring cv args i) (\<lambda>s.
          if length s > sz then Inl (ArgError i ''string longer than given size'')
          else Inr (s @ replicate (sz - length s) LUAL_PACKPADBYTE))
      | Kstring \<Rightarrow>
          bindE (luaL_checklstring cv args i) (\<lambda>s.
          if \<not> (sz \<ge> 8 \<or> length s < 2 ^ (sz * 8)) then Inl (ArgError i ''string length does not fit in given size'')
          else Inr (packint (of_nat (length s)) little sz False @ s))
      | Kzstr \<Rightarrow>
          bindE (luaL_checklstring cv args i) (\<lambda>s.
          if 0 \<in> set s then Inl (ArgError i ''string contains zeros'') else Inr (s @ [0]))
      | Kpadding \<Rightarrow> Inr [LUAL_PACKPADBYTE]
      | Kpaddalign \<Rightarrow> Inr []
      | Knop \<Rightarrow> Inr [])"

text \<open>The options that take an argument and give a result.\<close>

definition has_value :: "KOption \<Rightarrow> bool" where
  "has_value opt \<longleftrightarrow> opt \<noteq> Kpadding \<and> opt \<noteq> Kpaddalign \<and> opt \<noteq> Knop"

definition extra_size :: "KOption \<Rightarrow> nat \<Rightarrow> nat \<Rightarrow> nat" where
  "extra_size opt sz written = (if opt = Kstring \<or> opt = Kzstr then written - sz else 0)"

function pack_loop :: "numconv \<Rightarrow> TValue list \<Rightarrow> byte list \<Rightarrow> Header \<Rightarrow> nat \<Rightarrow> nat \<Rightarrow> nat \<Rightarrow> byte list \<Rightarrow> lua_error + byte list" where
  "pack_loop cv args fmt h i narg totalsize b =
     (if char_at fmt i \<noteq> 0 then
        bindE (getdetails h totalsize fmt i) (\<lambda>(opt, sz, ntoalign, h, i).
        let narg = (if has_value opt then narg + 1 else narg) in
        bindE (pack_value cv args narg opt sz (islittle h)) (\<lambda>bs.
        pack_loop cv args fmt h i narg (totalsize + ntoalign + sz + extra_size opt sz (length bs))
          (b @ replicate ntoalign LUAL_PACKPADBYTE @ bs)))
      else Inr b)"
  by pat_completeness auto

termination
  by (relation "measure (\<lambda>(cv, args, fmt, h, i, narg, totalsize, b). length fmt - i)")
    (auto intro: details_measure)

declare pack_loop.simps [simp del]

definition str_pack :: "numconv \<Rightarrow> TValue list \<Rightarrow> lua_error + TValue list" where
  "str_pack cv args =
     bindE (luaL_checklstring cv args 1) (\<lambda>fmt.
     bindE (pack_loop cv args fmt initheader 0 1 0 []) (\<lambda>b. Inr [TString b]))"

function packsize_loop :: "byte list \<Rightarrow> Header \<Rightarrow> nat \<Rightarrow> nat \<Rightarrow> lua_error + nat" where
  "packsize_loop fmt h i totalsize =
     (if char_at fmt i \<noteq> 0 then
        bindE (getdetails h totalsize fmt i) (\<lambda>(opt, sz, ntoalign, h, i).
        if opt = Kstring \<or> opt = Kzstr then Inl (ArgError 1 ''variable-length format'')
        else
          let sz = sz + ntoalign in
          if \<not> int totalsize \<le> int MAXSSIZE - int sz then Inl (ArgError 1 ''format result too large'')
          else packsize_loop fmt h i (totalsize + sz))
      else Inr totalsize)"
  by pat_completeness auto

termination
  by (relation "measure (\<lambda>(fmt, h, i, totalsize). length fmt - i)") (auto intro: details_measure)

declare packsize_loop.simps [simp del]

definition str_packsize :: "numconv \<Rightarrow> TValue list \<Rightarrow> lua_error + TValue list" where
  "str_packsize cv args =
     bindE (luaL_checklstring cv args 1) (\<lambda>fmt.
     bindE (packsize_loop fmt initheader 0 0) (\<lambda>n. Inr [lua_pushinteger (int n)]))"

subsection \<open>Unpacking\<close>

definition read_data :: "byte list \<Rightarrow> nat \<Rightarrow> nat \<Rightarrow> lua_error + byte list" where
  "read_data data pos n = (if pos + n \<le> length data then Inr (slice data pos n) else Inl (Undefined ''read past the end''))"

text \<open>The value of bytes given from the lowest: the loop goes from the highest down.\<close>

primrec join_bytes :: "byte list \<Rightarrow> u64" where
  "join_bytes [] = 0"
| "join_bytes (b # bs) = (push_bit 8 (join_bytes bs)) OR ucast b"

definition unpackint :: "byte list \<Rightarrow> bool \<Rightarrow> bool \<Rightarrow> lua_error + u64" where
  "unpackint str little issigned =
     (let sz = length str; bs = (if little then str else rev str); res = join_bytes (take SZINT bs) in
      if sz < SZINT then
        Inr (if issigned then (let mask = push_bit (sz * 8 - 1) 1 in (res XOR mask) - mask) else res)
      else if sz > SZINT then
        let mask = (if \<not> issigned \<or> sint res \<ge> 0 then 0 else 255) in
        if \<exists>b \<in> set (drop SZINT bs). b \<noteq> mask
        then Inl (RunError (show_nat sz @ ''-byte integer does not fit into Lua Integer''))
        else Inr res
      else Inr res)"

text \<open>The value of an option at a position, and the bytes it takes beyond the size of the option.\<close>

definition unpack_value :: "byte list \<Rightarrow> nat \<Rightarrow> KOption \<Rightarrow> nat \<Rightarrow> bool \<Rightarrow> lua_error + TValue list \<times> nat" where
  "unpack_value data pos opt sz little =
     (case opt of
        Kint \<Rightarrow>
          bindE (read_data data pos sz) (\<lambda>bs. bindE (unpackint bs little True) (\<lambda>res. Inr ([TNumber (d_of_int (sint res))], 0)))
      | Kuint \<Rightarrow>
          bindE (read_data data pos sz) (\<lambda>bs. bindE (unpackint bs little False) (\<lambda>res. Inr ([TNumber (d_of_int (uint res))], 0)))
      | Kfloat \<Rightarrow>
          bindE (read_data data pos sz) (\<lambda>bs. Inr ([TNumber (fp_load (float_type sz) (le_nat (copywithendian bs little)))], 0))
      | Kchar \<Rightarrow> bindE (read_data data pos sz) (\<lambda>bs. Inr ([TString bs], 0))
      | Kstring \<Rightarrow>
          bindE (read_data data pos sz) (\<lambda>bs.
          bindE (unpackint bs little False) (\<lambda>res.
          let len = unat res in
          if \<not> len \<le> length data - pos - sz then Inl (ArgError 2 ''data string too short'')
          else bindE (read_data data (pos + sz) len) (\<lambda>s. Inr ([TString s], len))))
      | Kzstr \<Rightarrow>
          let len = length (takeWhile (\<lambda>c. c \<noteq> 0) (drop pos data)) in
          if \<not> pos + len < length data then Inl (ArgError 2 (''unfinished string for format '' @ qt ''z''))
          else bindE (read_data data pos len) (\<lambda>s. Inr ([TString s], len + 1))
      | _ \<Rightarrow> Inr ([], 0))"

function unpack_loop :: "nat \<Rightarrow> byte list \<Rightarrow> byte list \<Rightarrow> Header \<Rightarrow> nat \<Rightarrow> nat \<Rightarrow> TValue list \<Rightarrow> lua_error + TValue list" where
  "unpack_loop used data fmt h i pos vs =
     (if char_at fmt i \<noteq> 0 then
        bindE (getdetails h pos fmt i) (\<lambda>(opt, sz, ntoalign, h, i).
        if \<not> ntoalign + sz \<le> length data - pos then Inl (ArgError 2 ''data string too short'')
        else
          let pos = pos + ntoalign in
          bindE (luaL_checkstack (used + length vs) 2 ''too many results'') (\<lambda>_.
          bindE (unpack_value data pos opt sz (islittle h)) (\<lambda>(v, extra).
          unpack_loop used data fmt h i (pos + extra + sz) (vs @ v))))
      else Inr (vs @ [lua_pushinteger (int pos + 1)]))"
  by pat_completeness auto

termination
  by (relation "measure (\<lambda>(used, data, fmt, h, i, pos, vs). length fmt - i)") (auto intro: details_measure)

declare unpack_loop.simps [simp del]

definition str_unpack :: "numconv \<Rightarrow> TValue list \<Rightarrow> lua_error + TValue list" where
  "str_unpack cv args =
     bindE (luaL_checklstring cv args 1) (\<lambda>fmt.
     bindE (luaL_checklstring cv args 2) (\<lambda>data.
     bindE (luaL_optinteger cv args 3 1) (\<lambda>init.
     let pos = posrelat init (length data) - 1; pos = (if pos < 0 then 0 else pos) in
     if \<not> pos \<le> int (length data) then Inl (ArgError 3 ''initial position out of string'')
     else unpack_loop (length args) data fmt initheader 0 (nat pos) [])))"

section \<open>Integers\<close>

lemma length_shift_bytes [simp]: "length (shift_bytes k n) = k"
  by (induction k arbitrary: n) simp_all

lemma length_packint: "length (packint n little sz neg) = sz"
  by (auto simp: packint_def Let_def)

lemma take_shift_bytes: "m \<le> k \<Longrightarrow> take m (shift_bytes k n) = shift_bytes m n"
proof (induction m arbitrary: k n)
  case (Suc m)
  then show ?case by (cases k) simp_all
qed simp

lemma shift_bytes_zero: "shift_bytes k 0 = replicate k 0"
  by (induction k) simp_all

lemma drop_shift_bytes: "m \<le> k \<Longrightarrow> drop m (shift_bytes k n) = shift_bytes (k - m) (drop_bit (8 * m) n)"
proof (induction m arbitrary: k n)
  case (Suc m)
  then show ?case by (cases k) (simp_all add: drop_bit_drop_bit algebra_simps)
qed simp

lemma drop_bit_64: "drop_bit 64 (n :: u64) = 0"
  by (rule bit_word_eqI) (simp add: bit_drop_bit_eq bit_imp_le_length)

lemma join_shift_bytes: "join_bytes (shift_bytes k n) = take_bit (8 * k) n"
proof (induction k arbitrary: n)
  case (Suc k)
  have "push_bit 8 (take_bit (8 * k) (drop_bit 8 n)) OR ucast (ucast (n AND 255) :: byte) = take_bit (8 * Suc k) n"
  proof (rule bit_word_eqI)
    fix i :: nat
    assume i: "i < LENGTH(64)"
    have m: "bit (255 :: u64) i \<longleftrightarrow> i < 8"
    proof -
      have "(255 :: u64) = mask 8" by (simp add: mask_eq_exp_minus_1)
      moreover have "bit (mask 8 :: u64) i \<longleftrightarrow> i < 8" using i by (simp add: bit_mask_iff)
      ultimately show ?thesis by (simp only:)
    qed
    show "bit (push_bit 8 (take_bit (8 * k) (drop_bit 8 n)) OR ucast (ucast (n AND 255) :: byte)) i = bit (take_bit (8 * Suc k) n) i"
      using i m by (auto simp: bit_simps)
  qed
  then show ?case using Suc by simp
qed simp

lemma pack_bytes_order: "(if little then (if little then bs else rev bs) else rev (if little then bs else rev bs)) = bs"
  by simp

lemma unpack_pack_unsigned:
  assumes "1 \<le> sz"
  shows "unpackint (packint n little sz False) little False = Inr (take_bit (8 * sz) n)"
proof -
  have bs: "(if little then packint n little sz False else rev (packint n little sz False)) = shift_bytes sz n"
    by (simp add: packint_def Let_def)
  show ?thesis
  proof (cases "sz \<le> 8")
    case True
    then show ?thesis unfolding unpackint_def bs length_packint Let_def by (simp add: join_shift_bytes)
  next
    case False
    then have "take_bit (8 * sz) n = n" by (simp add: take_bit_word_eq_self)
    moreover have "take 8 (shift_bytes sz n) = shift_bytes 8 n" "drop 8 (shift_bytes sz n) = replicate (sz - 8) 0"
      using False take_shift_bytes [of 8 sz n] drop_shift_bytes [of 8 sz n] by (simp_all add: drop_bit_64 shift_bytes_zero)
    moreover have "join_bytes (shift_bytes 8 n) = n" by (simp add: join_shift_bytes take_bit_word_eq_self)
    ultimately show ?thesis using False unfolding unpackint_def bs length_packint Let_def by simp
  qed
qed

lemma xor_sign:
  assumes "k < 64"
  shows "((w :: u64) XOR push_bit k 1) - push_bit k 1 = (if bit w k then w - 2 * 2 ^ k else w)"
proof -
  have "w XOR push_bit k 1 = (if bit w k then w - 2 ^ k else w + 2 ^ k)"
    unfolding flip_bit_eq_xor [symmetric] flip_bit_eq_if set_bit_eq unset_bit_eq using assms by simp
  then show ?thesis by (simp add: push_bit_eq_mult)
qed

lemma sign_extend:
  assumes "1 \<le> sz" and "sz < 8" and "- (2 ^ (sz * 8 - 1)) \<le> m" and "m < 2 ^ (sz * 8 - 1)"
  shows "(take_bit (8 * sz) (word_of_int m :: u64) XOR push_bit (sz * 8 - 1) 1) - push_bit (sz * 8 - 1) 1 = word_of_int m"
proof -
  define k where "k = sz * 8 - 1"
  have k: "8 * sz = Suc k" "k < 64" using assms(1,2) by (simp_all add: k_def)
  have t: "take_bit (Suc k) (word_of_int m :: u64) = word_of_int (take_bit (Suc k) m)" by (simp add: take_bit_of_int)
  have b: "bit (take_bit (Suc k) (word_of_int m :: u64)) k \<longleftrightarrow> m < 0"
  proof -
    have "odd (m div 2 ^ k) \<longleftrightarrow> m < 0"
    proof (cases "m < 0")
      case True
      have "(m + 2 ^ k) div 2 ^ k = 0" using True assms(3) by (intro div_pos_pos_trivial) (simp_all add: k_def)
      moreover have "(m + 2 ^ k) div 2 ^ k = m div 2 ^ k + 1" by simp
      ultimately have "m div 2 ^ k = - 1" by simp
      then show ?thesis using True by simp
    next
      case False
      then have "m div 2 ^ k = 0" using assms(4) by (simp add: k_def div_pos_pos_trivial)
      then show ?thesis using False by simp
    qed
    then show ?thesis using k(2) by (simp add: bit_take_bit_iff bit_word_of_int_iff bit_iff_odd [of m])
  qed
  have p: "- (2 ^ k) \<le> m" "m < 2 ^ k" using assms(3,4) by (simp_all add: k_def)
  have "take_bit (Suc k) m = (if m < 0 then m + 2 ^ Suc k else m)"
  proof (cases "m < 0")
    case True
    have "m mod 2 ^ Suc k = (m + 2 ^ Suc k) mod 2 ^ Suc k" by (rule mod_add_self2 [symmetric])
    also have "\<dots> = m + 2 ^ Suc k" by (rule mod_pos_pos_trivial) (use p True in simp_all)
    finally show ?thesis using True by (simp add: take_bit_eq_mod)
  next
    case False
    have "m mod 2 ^ Suc k = m" by (rule mod_pos_pos_trivial) (use p False in simp_all)
    then show ?thesis using False by (simp add: take_bit_eq_mod)
  qed
  then show ?thesis unfolding k_def [symmetric] k(1) xor_sign [OF k(2)] using b by (simp add: t)
qed

lemma unpack_pack_signed:
  assumes "1 \<le> sz" and "in_int64 m" and "sz < 8 \<longrightarrow> - (2 ^ (sz * 8 - 1)) \<le> m \<and> m < 2 ^ (sz * 8 - 1)"
  shows "unpackint (packint (word_of_int m) little sz (m < 0)) little True = Inr (word_of_int m)"
proof -
  let ?n = "word_of_int m :: u64"
  define bs where "bs = (if m < 0 \<and> sz > 8 then take 8 (shift_bytes sz ?n) @ replicate (sz - 8) 255 else shift_bytes sz ?n)"
  have o: "(if little then packint ?n little sz (m < 0) else rev (packint ?n little sz (m < 0))) = bs"
    by (simp add: packint_def Let_def bs_def)
  consider (small) "sz < 8" | (eight) "sz = 8" | (large) "sz > 8" by linarith
  then show ?thesis
  proof cases
    case small
    then have "take 8 bs = shift_bytes sz ?n" by (simp add: bs_def)
    then show ?thesis using small sign_extend [of sz m] assms(1,3)
      unfolding unpackint_def o length_packint Let_def by (simp add: join_shift_bytes)
  next
    case eight
    then have "take 8 bs = shift_bytes 8 ?n" by (simp add: bs_def)
    then show ?thesis using eight unfolding unpackint_def o length_packint Let_def
      by (simp add: join_shift_bytes take_bit_word_eq_self)
  next
    case large
    have t: "take 8 bs = shift_bytes 8 ?n" using large by (simp add: bs_def take_shift_bytes)
    have d: "drop 8 bs = replicate (sz - 8) (if m < 0 then 255 else 0)"
      using large drop_shift_bytes [of 8 sz ?n] by (simp add: bs_def drop_bit_64 shift_bytes_zero)
    have "join_bytes (shift_bytes 8 ?n) = ?n" by (simp add: join_shift_bytes take_bit_word_eq_self)
    moreover have "sint ?n = m" by (rule sint64_of_int [OF assms(2)])
    ultimately show ?thesis using large t d unfolding unpackint_def o length_packint Let_def by auto
  qed
qed

section \<open>Values\<close>

text \<open>What an option gives back for an argument that it packed.\<close>

definition restored :: "numconv \<Rightarrow> TValue list \<Rightarrow> nat \<Rightarrow> KOption \<Rightarrow> nat \<Rightarrow> TValue list" where
  "restored cv args i opt sz =
     (case opt of
        Kint \<Rightarrow> (case check_longlong cv args i of Inr n \<Rightarrow> [TNumber (d_of_int n)] | Inl e \<Rightarrow> [])
      | Kuint \<Rightarrow> (case check_longlong cv args i of Inr n \<Rightarrow> [TNumber (d_of_int (uint (word_of_int n :: u64)))] | Inl e \<Rightarrow> [])
      | Kfloat \<Rightarrow> (case luaL_checknumber cv args i of Inr d \<Rightarrow> [TNumber (fp_load (float_type sz) (fp_store (float_type sz) d))] | Inl e \<Rightarrow> [])
      | Kchar \<Rightarrow> (case luaL_checklstring cv args i of Inr s \<Rightarrow> [TString (s @ replicate (sz - length s) LUAL_PACKPADBYTE)] | Inl e \<Rightarrow> [])
      | Kstring \<Rightarrow> (case luaL_checklstring cv args i of Inr s \<Rightarrow> [TString s] | Inl e \<Rightarrow> [])
      | Kzstr \<Rightarrow> (case luaL_checklstring cv args i of Inr s \<Rightarrow> [TString s] | Inl e \<Rightarrow> [])
      | _ \<Rightarrow> [])"

definition option_ok :: "KOption \<Rightarrow> nat \<Rightarrow> bool" where
  "option_ok opt sz =
     (case opt of
        Kint \<Rightarrow> 1 \<le> sz \<and> sz \<le> 16 | Kuint \<Rightarrow> 1 \<le> sz \<and> sz \<le> 16 | Kstring \<Rightarrow> 1 \<le> sz \<and> sz \<le> 16
      | Kfloat \<Rightarrow> sz = 4 \<or> sz = 8 | Kchar \<Rightarrow> True | Kpadding \<Rightarrow> sz = 1 | _ \<Rightarrow> sz = 0)"

lemma getoption_ok:
  assumes "getoption h fmt i = Inr (opt, sz, h', j)"
  shows "option_ok opt sz"
proof (cases "fixed_option (char_at fmt i)")
  case None
  show ?thesis using assms unfolding getoption_def Let_def None option.case
    by (simp only: split: if_splits)
      (auto elim!: bindE_InrE dest: getnumlimit_progress simp: option_ok_def split: option.splits)
next
  case (Some p)
  then have "p \<in> {(Kint, 1), (Kuint, 1), (Kint, 2), (Kuint, 2), (Kint, 8), (Kuint, 8), (Kint, 4), (Kuint, 4), (Kfloat, 4), (Kfloat, 8),
      (Kzstr, 0), (Kpadding, 1), (Kpaddalign, 0), (Knop, 0)}"
    by (auto simp: fixed_option_def split: if_splits)
  then show ?thesis using assms Some by (auto simp: getoption_def option_ok_def)
qed

lemma getdetails_ok:
  assumes "getdetails h t fmt i = Inr (opt, sz, n, h', j)"
  shows "option_ok opt sz" and "\<exists>n'. getdetails h t' fmt i = Inr (opt, sz, n', h', j)"
proof -
  from assms obtain opt1 sz1 h1 i1 align h2 i2 where 1: "getoption h fmt i = Inr (opt1, sz1, h1, i1)"
    and 2: "getalign opt1 sz1 h1 fmt i1 = Inr (align, h2, i2)"
    and 3: "(if align \<le> 1 \<or> opt1 = Kchar then Inr (opt1, sz1, 0, h2, i2)
     else
       let align = (if align > maxalign h2 then maxalign h2 else align) in
       if align AND (align - 1) \<noteq> 0 then Inl (ArgError 1 ''format asks for alignment not power of 2'')
       else Inr (opt1, sz1, (align - (t AND (align - 1))) AND (align - 1), h2, i2)) = Inr (opt, sz, n, h', j)"
    unfolding getdetails_def by (auto elim!: bindE_InrE split: prod.splits)
  from 3 have "opt1 = opt" "sz1 = sz" by (auto simp: Let_def split: if_splits)
  then show "option_ok opt sz" using getoption_ok [OF 1] by simp
  show "\<exists>n'. getdetails h t' fmt i = Inr (opt, sz, n', h', j)"
    using 3 unfolding getdetails_def 1 bindE_simps prod.case 2 by (auto simp: Let_def split: if_splits)
qed

lemma f32_less: "f32_of_double d < 2 ^ 32"
proof -
  define sign :: nat where "sign = (if d_neg d then 2 ^ 31 else 0)"
  define e where "e = max 1 (d_exp d)"
  have "d_frac d < 2 ^ 52" by (simp add: d_frac_def)
  then have m: "d_mant d < 2 ^ 53" by (simp add: d_mant_def)
  have "round_shift (d_mant d) (926 - e) < 2 ^ 31" if "\<not> 897 \<le> e"
  proof -
    have "d_mant d div 2 ^ (926 - e) \<le> d_mant d div 2 ^ 30" using that by (intro div_le_mono2 power_increasing) simp_all
    moreover have "d_mant d div 2 ^ 30 < 2 ^ 23" using m by (simp add: less_mult_imp_div_less)
    ultimately show ?thesis by (simp add: round_shift_def Let_def)
  qed
  moreover have "d_frac d div 2 ^ 29 mod 2 ^ 22 < 2 ^ 22" by simp
  moreover have "sign \<le> 2 ^ 31" by (simp add: sign_def)
  ultimately show ?thesis unfolding f32_of_double_def Let_def sign_def [symmetric] e_def [symmetric]
    by (auto simp: min_def)
qed

lemma fp_stored: "sz = 4 \<or> sz = 8 \<Longrightarrow> le_nat (le_bytes sz (fp_store (float_type sz) d)) = fp_store (float_type sz) d"
proof -
  have "unat d < 2 ^ LENGTH(64)" by (rule unsigned_less)
  then show "sz = 4 \<or> sz = 8 \<Longrightarrow> ?thesis" using f32_less [of d] by (auto simp: le_nat_le_bytes float_type_def)
qed

lemma read_data_mid: "length pre = pos \<Longrightarrow> length bs = n \<Longrightarrow> read_data (pre @ bs @ post) pos n = Inr bs"
  by (simp add: read_data_def slice_def)

lemma pack_value_length:
  assumes "option_ok opt sz" and "pack_value cv args i opt sz little = Inr bs"
  shows "length bs = sz + extra_size opt sz (length bs)"
  using assms
  by (cases opt) (auto simp: pack_value_def extra_size_def option_ok_def length_packint copywithendian_def Let_def elim!: bindE_InrE split: if_splits)

lemma takeWhile_zero: "0 \<notin> set s \<Longrightarrow> takeWhile (\<lambda>c. c \<noteq> 0) (s @ 0 # r) = (s :: byte list)"
  by (induction s) auto

lemma unpack_packed:
  assumes ok: "option_ok opt sz" and p: "pack_value cv args i opt sz little = Inr bs" and pos: "length pre = pos"
    and small: "length bs < 2 ^ 64"
  shows "unpack_value (pre @ bs @ post) pos opt sz little = Inr (restored cv args i opt sz, extra_size opt sz (length bs))"
proof (cases opt)
  case Kint
  from p obtain n where n: "check_longlong cv args i = Inr n" and r: "sz < 8 \<longrightarrow> - (2 ^ (sz * 8 - 1)) \<le> n \<and> n < 2 ^ (sz * 8 - 1)"
    and bs: "bs = packint (word_of_int n) little sz (n < 0)"
    by (auto simp: pack_value_def Kint Let_def elim!: bindE_InrE split: if_splits)
  have n64: "in_int64 n" using n by (auto simp: check_longlong_def luai_num2long_def elim!: bindE_InrE split: option.splits if_splits)
  have "1 \<le> sz" using ok by (simp add: option_ok_def Kint)
  note u = unpack_pack_signed [OF this n64 r, of little]
  show ?thesis using u bs n read_data_mid [OF pos, of bs sz post] sint64_of_int [OF n64]
    by (simp add: unpack_value_def Kint restored_def extra_size_def length_packint)
next
  case Kuint
  from p obtain n where n: "check_longlong cv args i = Inr n" and r: "sz < 8 \<longrightarrow> uint (word_of_int n :: u64) < 2 ^ (sz * 8)"
    and bs: "bs = packint (word_of_int n) little sz False"
    by (auto simp: pack_value_def Kuint elim!: bindE_InrE split: if_splits)
  have sz: "1 \<le> sz" using ok by (simp add: option_ok_def Kuint)
  have "take_bit (8 * sz) (word_of_int n :: u64) = word_of_int n"
  proof (cases "sz < 8")
    case True
    then have "take_bit (8 * sz) (uint (word_of_int n :: u64)) = uint (word_of_int n :: u64)"
      using r by (simp add: take_bit_int_eq_self_iff mult.commute)
    then show ?thesis by (simp add: word_uint_eq_iff unsigned_take_bit_eq)
  qed (simp add: take_bit_word_eq_self)
  then show ?thesis using unpack_pack_unsigned [OF sz, of "word_of_int n" little] bs n read_data_mid [OF pos, of bs sz post]
    by (simp add: unpack_value_def Kuint restored_def extra_size_def length_packint)
next
  case Kfloat
  then have sz: "sz = 4 \<or> sz = 8" using ok by (simp add: option_ok_def)
  from p obtain d where d: "luaL_checknumber cv args i = Inr d"
    and bs: "bs = copywithendian (le_bytes sz (fp_store (float_type sz) d)) little"
    by (auto simp: pack_value_def Kfloat elim!: bindE_InrE)
  have "copywithendian bs little = le_bytes sz (fp_store (float_type sz) d)" "length bs = sz" by (simp_all add: bs copywithendian_def)
  then show ?thesis using d fp_stored [OF sz] read_data_mid [OF pos, of bs sz post]
    by (simp add: unpack_value_def Kfloat restored_def extra_size_def)
next
  case Kchar
  then obtain s where "luaL_checklstring cv args i = Inr s" "length s \<le> sz" "bs = s @ replicate (sz - length s) 0"
    using p by (auto simp: pack_value_def elim!: bindE_InrE split: if_splits)
  then show ?thesis using read_data_mid [OF pos, of bs sz post]
    by (simp add: unpack_value_def Kchar restored_def extra_size_def)
next
  case Kstring
  then obtain s where s: "luaL_checklstring cv args i = Inr s" and fit: "sz \<ge> 8 \<or> length s < 2 ^ (sz * 8)"
    and bs: "bs = packint (of_nat (length s)) little sz False @ s"
    using p by (auto simp: pack_value_def elim!: bindE_InrE split: if_splits)
  have sz: "1 \<le> sz" using ok by (simp add: option_ok_def Kstring)
  have ls: "length s < 2 ^ 64" using small bs by simp
  have "take_bit (8 * sz) (of_nat (length s) :: u64) = of_nat (length s)"
  proof (cases "sz \<ge> 8")
    case False
    then have "take_bit (8 * sz) (length s) = length s" using fit by (simp add: take_bit_nat_eq_self_iff mult.commute)
    then show ?thesis by (simp add: take_bit_of_nat)
  qed (simp add: take_bit_word_eq_self)
  then have u: "unpackint (packint (of_nat (length s)) little sz False) little False = Inr (of_nat (length s))"
    using unpack_pack_unsigned [OF sz] by simp
  have un: "unat (of_nat (length s) :: u64) = length s" using ls by (simp add: unsigned_of_nat take_bit_nat_eq_self)
  have d1: "read_data (pre @ bs @ post) pos sz = Inr (packint (of_nat (length s)) little sz False)"
    using read_data_mid [OF pos, of "packint (of_nat (length s)) little sz False" sz "s @ post"] by (simp add: bs length_packint)
  have d2: "read_data (pre @ bs @ post) (pos + sz) (length s) = Inr s"
    using read_data_mid [of "pre @ packint (of_nat (length s)) little sz False" "pos + sz" s "length s" post] pos by (simp add: bs length_packint)
  have l: "length s \<le> length (pre @ bs @ post) - pos - sz" using pos by (simp add: bs length_packint)
  show ?thesis using u un d1 d2 l s pos by (simp add: unpack_value_def Kstring restored_def extra_size_def bs length_packint Let_def)
next
  case Kzstr
  then obtain s where s: "luaL_checklstring cv args i = Inr s" "0 \<notin> set s" "bs = s @ [0]"
    using p by (auto simp: pack_value_def elim!: bindE_InrE split: if_splits)
  have w: "takeWhile (\<lambda>c. c \<noteq> 0) (drop pos (pre @ bs @ post)) = s" using pos s takeWhile_zero [of s post] by simp
  have "read_data (pre @ bs @ post) pos (length s) = Inr s" using read_data_mid [OF pos, of s "length s" "0 # post"] s(3) by simp
  then show ?thesis using w s pos ok by (simp add: unpack_value_def Kzstr restored_def extra_size_def option_ok_def Let_def)
qed (use p in \<open>auto simp: unpack_value_def restored_def extra_size_def\<close>)

section \<open>Formats\<close>

text \<open>The values that unpacking gives for the arguments from \<open>narg\<close> on.\<close>

function packed_values :: "numconv \<Rightarrow> TValue list \<Rightarrow> byte list \<Rightarrow> Header \<Rightarrow> nat \<Rightarrow> nat \<Rightarrow> TValue list" where
  "packed_values cv args fmt h i narg =
     (if char_at fmt i \<noteq> 0 then
        case getdetails h 0 fmt i of
          Inl e \<Rightarrow> []
        | Inr (opt, sz, _, h, i) \<Rightarrow>
            let narg = (if has_value opt then narg + 1 else narg) in
            restored cv args narg opt sz @ packed_values cv args fmt h i narg
      else [])"
  by pat_completeness auto

termination
  by (relation "measure (\<lambda>(cv, args, fmt, h, i, narg). length fmt - i)") (auto intro: details_measure)

declare packed_values.simps [simp del]

lemma pack_loop_step:
  assumes "char_at fmt i \<noteq> 0" and "pack_loop cv args fmt h i narg tot b = Inr r"
  obtains opt sz n h1 i1 bs where "getdetails h tot fmt i = Inr (opt, sz, n, h1, i1)"
    and "pack_value cv args (if has_value opt then narg + 1 else narg) opt sz (islittle h1) = Inr bs"
    and "pack_loop cv args fmt h1 i1 (if has_value opt then narg + 1 else narg) (tot + n + sz + extra_size opt sz (length bs))
      (b @ replicate n 0 @ bs) = Inr r"
    and "length bs = sz + extra_size opt sz (length bs)"
proof -
  from assms(2) [unfolded pack_loop.simps [of cv args fmt h i narg tot b] if_P [OF assms(1)]] obtain opt sz n h1 i1 bs where d: "getdetails h tot fmt i = Inr (opt, sz, n, h1, i1)"
    and v: "pack_value cv args (if has_value opt then narg + 1 else narg) opt sz (islittle h1) = Inr bs"
    and l: "pack_loop cv args fmt h1 i1 (if has_value opt then narg + 1 else narg) (tot + n + sz + extra_size opt sz (length bs))
      (b @ replicate n 0 @ bs) = Inr r"
    by (auto simp: bindE_eq_Inr_iff Let_def)
  show thesis by (rule that [OF d v l pack_value_length [OF getdetails_ok(1) [OF d] v]])
qed

lemma pack_loop_prefix: "pack_loop cv args fmt h i narg tot b = Inr r \<Longrightarrow> \<exists>c. r = b @ c"
proof (induction "length fmt - i" arbitrary: h i narg tot b rule: less_induct)
  case less
  show ?case
  proof (cases "char_at fmt i = 0")
    case True
    then show ?thesis using less.prems unfolding pack_loop.simps [of cv args fmt h i narg tot b] by simp
  next
    case False
    obtain opt sz n h1 i1 bs where d: "getdetails h tot fmt i = Inr (opt, sz, n, h1, i1)"
      and l: "pack_loop cv args fmt h1 i1 (if has_value opt then narg + 1 else narg) (tot + n + sz + extra_size opt sz (length bs))
        (b @ replicate n 0 @ bs) = Inr r" by (rule pack_loop_step [OF False less.prems]) (rule that; assumption)
    obtain c where "r = (b @ replicate n 0 @ bs) @ c" using less.hyps [OF details_measure [OF False d] l] by blast
    then have "r = b @ (replicate n 0 @ bs @ c)" by simp
    then show ?thesis by blast
  qed
qed

lemma unpack_loop_packed:
  "pack_loop cv args fmt h i narg (length b) b = Inr r \<Longrightarrow> length r < 2 ^ 64 \<Longrightarrow>
    used + length vs + length (packed_values cv args fmt h i narg) + 2 \<le> LUAI_MAXCSTACK \<Longrightarrow>
    unpack_loop used r fmt h i (length b) vs = Inr (vs @ packed_values cv args fmt h i narg @ [lua_pushinteger (int (length r) + 1)])"
proof (induction "length fmt - i" arbitrary: h i narg b vs rule: less_induct)
  case less
  show ?case
  proof (cases "char_at fmt i = 0")
    case True
    then have "r = b" using less.prems(1) by (subst (asm) pack_loop.simps) simp
    then show ?thesis using True by (subst unpack_loop.simps, subst packed_values.simps) simp
  next
    case False
    define narg' where "narg' opt = (if has_value opt then narg + 1 else narg)" for opt
    obtain opt sz n h1 i1 bs where d: "getdetails h (length b) fmt i = Inr (opt, sz, n, h1, i1)"
      and v0: "pack_value cv args (if has_value opt then narg + 1 else narg) opt sz (islittle h1) = Inr bs"
      and l0: "pack_loop cv args fmt h1 i1 (if has_value opt then narg + 1 else narg) (length b + n + sz + extra_size opt sz (length bs))
        (b @ replicate n 0 @ bs) = Inr r"
      and len: "length bs = sz + extra_size opt sz (length bs)"
      by (rule pack_loop_step [OF False less.prems(1)]) (rule that; assumption)
    note v = v0 [folded narg'_def] and l = l0 [folded narg'_def]
    have l': "pack_loop cv args fmt h1 i1 (narg' opt) (length (b @ replicate n 0 @ bs)) (b @ replicate n 0 @ bs) = Inr r"
      using l len by (simp add: add.assoc)
    obtain c where r: "r = (b @ replicate n 0) @ bs @ c" using pack_loop_prefix [OF l] by auto
    obtain n' where d0: "getdetails h 0 fmt i = Inr (opt, sz, n', h1, i1)" using getdetails_ok(2) [OF d] by blast
    have pv: "packed_values cv args fmt h i narg = restored cv args (narg' opt) opt sz @ packed_values cv args fmt h1 i1 (narg' opt)"
      using False d0 by (subst packed_values.simps) (simp add: narg'_def Let_def)
    have room: "n + sz \<le> length r - length b" using r len by simp
    have u: "unpack_value r (length b + n) opt sz (islittle h1) = Inr (restored cv args (narg' opt) opt sz, extra_size opt sz (length bs))"
      unfolding r using less.prems(2) r by (intro unpack_packed [OF getdetails_ok(1) [OF d] v]) simp_all
    have stack: "luaL_checkstack (used + length vs) 2 ''too many results'' = Inr ()"
      using less.prems(3) by (simp add: luaL_checkstack_def)
    have eq: "length (b @ replicate n 0 @ bs) = length b + n + extra_size opt sz (length bs) + sz" using len by simp
    have "unpack_loop used r fmt h1 i1 (length (b @ replicate n 0 @ bs)) (vs @ restored cv args (narg' opt) opt sz) =
        Inr ((vs @ restored cv args (narg' opt) opt sz) @ packed_values cv args fmt h1 i1 (narg' opt) @ [lua_pushinteger (int (length r) + 1)])"
      using less.prems(2,3) pv by (intro less.hyps [OF details_measure [OF False d] l']) simp_all
    then have rest: "unpack_loop used r fmt h1 i1 (length b + n + extra_size opt sz (length bs) + sz) (vs @ restored cv args (narg' opt) opt sz) =
        Inr ((vs @ restored cv args (narg' opt) opt sz) @ packed_values cv args fmt h1 i1 (narg' opt) @ [lua_pushinteger (int (length r) + 1)])"
      unfolding eq .
    show ?thesis using False d room stack u rest pv unfolding unpack_loop.simps [of used r fmt h i] by simp
  qed
qed

lemma packsize_loop_length:
  "packsize_loop fmt h i (length b) = Inr m \<Longrightarrow> pack_loop cv args fmt h i narg (length b) b = Inr r \<Longrightarrow> length r = m"
proof (induction "length fmt - i" arbitrary: h i narg b rule: less_induct)
  case less
  show ?case
  proof (cases "char_at fmt i = 0")
    case True
    then show ?thesis using less.prems by (subst (asm) pack_loop.simps, subst (asm) packsize_loop.simps) simp
  next
    case False
    obtain opt sz n h1 i1 bs where d: "getdetails h (length b) fmt i = Inr (opt, sz, n, h1, i1)"
      and l: "pack_loop cv args fmt h1 i1 (if has_value opt then narg + 1 else narg) (length b + n + sz + extra_size opt sz (length bs))
        (b @ replicate n 0 @ bs) = Inr r"
      and len: "length bs = sz + extra_size opt sz (length bs)"
      by (rule pack_loop_step [OF False less.prems(2)]) (rule that; assumption)
    have s: "opt \<noteq> Kstring \<and> opt \<noteq> Kzstr \<and> packsize_loop fmt h1 i1 (length b + (sz + n)) = Inr m"
      using less.prems(1) [unfolded packsize_loop.simps [of fmt h i] if_P [OF False] d bindE_simps prod.case Let_def]
      by (simp split: if_splits)
    then have "extra_size opt sz (length bs) = 0" by (simp add: extra_size_def)
    with len have e1: "length b + (sz + n) = length (b @ replicate n 0 @ bs)"
      and e2: "length b + n + sz + extra_size opt sz (length bs) = length (b @ replicate n 0 @ bs)" by simp_all
    show ?thesis using less.hyps [OF details_measure [OF False d] s [THEN conjunct2, THEN conjunct2, unfolded e1] l [unfolded e2]] .
  qed
qed

section \<open>Safety\<close>

lemma num2long_of_int: "\<bar>n\<bar> < 2 ^ 53 \<Longrightarrow> luai_num2long (d_of_int n) = Some n"
  by (auto simp: luai_num2long_def d_of_int_exact in_int64_def)

definition defined :: "lua_error + 'a \<Rightarrow> bool" where
  "defined r \<longleftrightarrow> (\<forall>m. r \<noteq> Inl (Undefined m))"

lemma defined_simps [simp]:
  "defined (Inr x)" "defined (Inl (ArgError i m))" "defined (Inl (RunError m))" "\<not> defined (Inl (Undefined m))"
  by (simp_all add: defined_def)

lemma defined_bindE: "defined r \<Longrightarrow> (\<And>x. r = Inr x \<Longrightarrow> defined (f x)) \<Longrightarrow> defined (bindE r f)"
  by (cases r) (auto simp: defined_def)

lemma defined_getnum: "defined (getnum fmt i df)"
  by (auto simp: getnum_def Let_def split: prod.splits)

lemma defined_getnumlimit: "defined (getnumlimit fmt i df)"
  unfolding getnumlimit_def by (rule defined_bindE [OF defined_getnum]) (auto simp: Let_def)

lemma defined_getoption: "defined (getoption h fmt i)"
proof (cases "fixed_option (char_at fmt i)")
  case None
  have n: "defined (bindE (getnumlimit fmt j df) (\<lambda>(sz, i). Inr (f sz i)))" for j df and f :: "nat \<Rightarrow> nat \<Rightarrow> KOption \<times> nat \<times> Header \<times> nat"
    by (rule defined_bindE [OF defined_getnumlimit]) auto
  have c: "defined (bindE (getnum fmt j None) (\<lambda>(sz, i). case sz of None \<Rightarrow> Inl (RunError m) | Some sz \<Rightarrow> Inr (f sz i)))" for j m
    and f :: "nat \<Rightarrow> nat \<Rightarrow> KOption \<times> nat \<times> Header \<times> nat"
    by (rule defined_bindE [OF defined_getnum]) (auto split: option.splits)
  show ?thesis unfolding getoption_def Let_def None option.case by (simp add: n c)
qed (auto simp: getoption_def)

lemma defined_getalign: "defined (getalign opt sz h fmt i)"
  unfolding getalign_def by (auto intro!: defined_bindE defined_getoption)

lemma defined_getdetails: "defined (getdetails h t fmt i)"
  unfolding getdetails_def
  by (intro defined_bindE defined_getoption) (auto intro!: defined_bindE defined_getalign simp: Let_def split: prod.splits)

lemma defined_unpackint: "defined (unpackint bs little sg)"
  by (simp add: unpackint_def Let_def)

lemma read_data_ok: "pos + n \<le> length data \<Longrightarrow> read_data data pos n = Inr (slice data pos n)"
  by (simp add: read_data_def)

lemma unpack_value_safe:
  assumes "option_ok opt sz" and "pos + sz \<le> length data"
  shows "defined (unpack_value data pos opt sz little)"
    and "unpack_value data pos opt sz little = Inr (v, extra) \<Longrightarrow> pos + extra + sz \<le> length data"
proof -
  have w: "length (takeWhile (\<lambda>c. c \<noteq> 0) (drop pos data)) \<le> length data - pos"
    using length_takeWhile_le [of "\<lambda>c. c \<noteq> 0" "drop pos data"] by simp
  show "defined (unpack_value data pos opt sz little)"
    using assms w
    by (cases opt) (auto simp: unpack_value_def read_data_ok Let_def intro!: defined_bindE defined_unpackint)
  show "unpack_value data pos opt sz little = Inr (v, extra) \<Longrightarrow> pos + extra + sz \<le> length data"
    using assms w
    by (cases opt) (auto simp: unpack_value_def read_data_ok Let_def option_ok_def elim!: bindE_InrE split: if_splits)
qed

lemma defined_checkstack: "defined (luaL_checkstack n k m)"
  by (simp add: luaL_checkstack_def guardE_def)

lemma unpack_loop_safe: "pos \<le> length data \<Longrightarrow> defined (unpack_loop used data fmt h i pos vs)"
proof (induction "length fmt - i" arbitrary: h i pos vs rule: less_induct)
  case less
  show ?case
  proof (cases "char_at fmt i = 0")
    case True
    then show ?thesis unfolding unpack_loop.simps [of used data fmt h i] by simp
  next
    case False
    have "defined (unpack_loop used data fmt h1 i1 (pos + n + extra + sz) (vs @ v))"
      if d: "getdetails h pos fmt i = Inr (opt, sz, n, h1, i1)" and n: "n + sz \<le> length data - pos"
        and v: "unpack_value data (pos + n) opt sz (islittle h1) = Inr (v, extra)" for opt sz n h1 i1 v extra
      using unpack_value_safe(2) [OF getdetails_ok(1) [OF d] _ v] n less.prems
      by (intro less.hyps [OF details_measure [OF False d]]) simp
    moreover have "defined (unpack_value data (pos + n) opt sz little)"
      if d: "getdetails h pos fmt i = Inr (opt, sz, n, h1, i1)" and n: "n + sz \<le> length data - pos" for opt sz n h1 i1 little
      using unpack_value_safe(1) [OF getdetails_ok(1) [OF d]] n less.prems by simp
    ultimately show ?thesis
      unfolding unpack_loop.simps [of used data fmt h i] if_P [OF False]
      by (auto intro!: defined_bindE defined_getdetails defined_checkstack simp: Let_def)
  qed
qed

section \<open>Single steps on given formats\<close>

lemma pack_at:
  assumes "getdetails h tot fmt i = Inr (opt, sz, n, h1, i1)" and "char_at fmt i \<noteq> 0"
    and "pack_value cv args narg1 opt sz (islittle h1) = Inr bs" and "narg1 = (if has_value opt then narg + 1 else narg)"
    and "pack_loop cv args fmt h1 i1 narg1 (tot + n + sz + extra_size opt sz (length bs)) (b @ replicate n 0 @ bs) = r"
  shows "pack_loop cv args fmt h i narg tot b = r"
  using assms unfolding pack_loop.simps [of cv args fmt h i narg tot b] by (simp add: Let_def)

lemma packed_at:
  assumes "getdetails h 0 fmt i = Inr (opt, sz, n, h1, i1)" and "char_at fmt i \<noteq> 0"
    and "restored cv args narg1 opt sz = v" and "narg1 = (if has_value opt then narg + 1 else narg)"
    and "packed_values cv args fmt h1 i1 narg1 = r"
  shows "packed_values cv args fmt h i narg = v @ r"
  using assms unfolding packed_values.simps [of cv args fmt h i narg] by (simp add: Let_def)

lemma packsize_at:
  assumes "getdetails h tot fmt i = Inr (opt, sz, n, h1, i1)" and "char_at fmt i \<noteq> 0"
    and "opt \<noteq> Kstring" "opt \<noteq> Kzstr" and "tot + sz + n \<le> MAXSSIZE" and "packsize_loop fmt h1 i1 (tot + (sz + n)) = r"
  shows "packsize_loop fmt h i tot = r"
  using assms unfolding packsize_loop.simps [of fmt h i tot] by (simp add: Let_def)

section \<open>Properties\<close>

text \<open>C13. \<open>unpack\<close> undoes \<open>pack\<close>: whatever \<open>pack\<close> makes of a format and its values, \<open>unpack\<close> gives the values back for the same format, as
  the options can hold them (integers of 1 to 16 bytes as the doubles of their values, fixed-size strings with their padding), and the
  position after the data; alignment, padding and byte order are undone for every format.\<close>

theorem unpack_pack:
  assumes "str_pack cv (TString fmt # vs) = Inr [TString s]" and "small s"
    and "length (packed_values cv (TString fmt # vs) fmt initheader 0 1) + 4 \<le> LUAI_MAXCSTACK"
  shows "str_unpack cv [TString fmt, TString s] =
    Inr (packed_values cv (TString fmt # vs) fmt initheader 0 1 @ [lua_pushinteger (int (length s) + 1)])"
proof -
  have "pack_loop cv (TString fmt # vs) fmt initheader 0 1 (length []) [] = Inr s"
    using assms(1) by (auto simp: str_pack_def elim!: bindE_InrE)
  from unpack_loop_packed [OF this, of "Suc (Suc 0)" "[]"] show ?thesis
    using assms(2,3) by (simp add: str_unpack_def posrelat_def small_def Let_def)
qed

lemma unpack_pack_witness:
  "str_unpack no_conv [TString (bytes ''b>s2''), TString [254, 0, 2, 97, 98]] =
    Inr [TNumber (d_of_int (- 2)), TString [97, 98], lua_pushinteger 6]"
proof -
  let ?f = "bytes ''b>s2''" and ?H = "\<lparr>islittle = False, maxalign = 1\<rparr>"
  let ?s = "[254, 0, 2, 97, 98] :: byte list"
  let ?args = "[TString ?f, TNumber (d_of_int (- 2)), TString [97, 98]]"
  have c: "char_at ?f 0 = 98" "char_at ?f (Suc 0) = 62" "char_at ?f 2 = 115" "char_at ?f 3 = 50" "char_at ?f 4 = 0" by code_simp+
  have g: "getnum_loop ?f 3 0 = (2, 4)" unfolding getnum_loop.simps [of ?f 3 0] by (simp add: c digit_def)
  have d: "getdetails initheader t ?f 0 = Inr (Kint, 1, 0, initheader, 1)" "getdetails initheader t ?f 1 = Inr (Knop, 0, 0, ?H, 2)"
    "getdetails ?H t ?f 2 = Inr (Kstring, 2, 0, ?H, 4)" for t
    by (simp_all add: getdetails_def getoption_def fixed_option_def getalign_def getnumlimit_def getnum_def g c initheader_def digit_def Let_def)
  have n: "check_longlong no_conv ?args 2 = Inr (- 2)"
    by (simp add: check_longlong_def luaL_checknumber_def arg_def luaV_tonumber_def num2long_of_int)
  have i: "packint (word_of_int (- 2)) True 1 True = [254]" "packint (of_nat (length [97, 98 :: byte])) False 2 False = [0, 2]" by code_simp+
  have v: "pack_value no_conv ?args 2 Kint 1 (islittle initheader) = Inr [254]" "pack_value no_conv ?args 2 Knop 0 (islittle ?H) = Inr []"
    "pack_value no_conv ?args 3 Kstring 2 (islittle ?H) = Inr [0, 2, 97, 98]"
    using i by (simp_all add: pack_value_def n arg_def luaL_checklstring_def initheader_def)
  have "pack_loop no_conv ?args ?f ?H 4 3 5 ?s = Inr ?s" unfolding pack_loop.simps [of _ _ _ ?H 4] by (simp add: c)
  then have "pack_loop no_conv ?args ?f ?H 2 2 1 [254] = Inr ?s"
    by (intro pack_at [OF d(3) _ v(3)]) (simp_all add: c has_value_def extra_size_def, simp_all add: numeral_eq_Suc)
  then have "pack_loop no_conv ?args ?f initheader 1 2 1 [254] = Inr ?s"
    by (intro pack_at [OF d(2) _ v(2)]) (simp_all add: c has_value_def extra_size_def)
  then have "pack_loop no_conv ?args ?f initheader 0 1 0 [] = Inr ?s"
    by (intro pack_at [OF d(1) _ v(1)]) (simp_all add: c has_value_def extra_size_def)
  then have p: "str_pack no_conv ?args = Inr [TString ?s]" by (simp add: str_pack_def)
  have r: "restored no_conv ?args 2 Kint 1 = [TNumber (d_of_int (- 2))]" "restored no_conv ?args 2 Knop 0 = []"
    "restored no_conv ?args 3 Kstring 2 = [TString [97, 98]]"
    by (simp_all add: restored_def n arg_def luaL_checklstring_def)
  have "packed_values no_conv ?args ?f ?H 4 3 = []" unfolding packed_values.simps [of _ _ _ ?H 4] by (simp add: c)
  then have "packed_values no_conv ?args ?f ?H 2 2 = [TString [97, 98]] @ []"
    by (intro packed_at [OF d(3) _ r(3)]) (simp_all add: c has_value_def)
  then have "packed_values no_conv ?args ?f initheader 1 2 = [] @ [TString [97, 98]]"
    by (intro packed_at [OF d(2) _ r(2)]) (simp_all add: c has_value_def)
  then have v: "packed_values no_conv ?args ?f initheader 0 1 = [TNumber (d_of_int (- 2))] @ [TString [97, 98]]"
    by (intro packed_at [OF d(1) _ r(1)]) (simp_all add: c has_value_def)
  have "small ?s" by (simp add: small_def)
  from unpack_pack [OF p this, unfolded v] show ?thesis by simp
qed

text \<open>C39. When a format has a size, \<open>packsize\<close> computes it right: everything \<open>pack\<close> makes with that format has the length that \<open>packsize\<close>
  returns, alignment included.\<close>

theorem packsize_packed:
  assumes "str_packsize cv [TString fmt] = Inr [n]" and "str_pack cv' (TString fmt # vs) = Inr [TString s]"
  shows "n = lua_pushinteger (int (length s))"
proof -
  obtain m where m: "packsize_loop fmt initheader 0 (length ([] :: byte list)) = Inr m" "n = lua_pushinteger (int m)"
    using assms(1) by (auto simp: str_packsize_def elim!: bindE_InrE)
  have "pack_loop cv' (TString fmt # vs) fmt initheader 0 1 (length []) [] = Inr s"
    using assms(2) by (auto simp: str_pack_def elim!: bindE_InrE)
  from packsize_loop_length [OF m(1) this] m(2) show ?thesis by simp
qed

lemma packsize_packed_witness:
  "str_packsize no_conv [TString (bytes ''!bj'')] = Inr [lua_pushinteger 8] \<and>
    lua_pushinteger 8 = lua_pushinteger (int (length [1, 0, 0, 0, 254, 255, 255, (255 :: byte)]))"
proof -
  let ?f = "bytes ''!bj''" and ?H = "\<lparr>islittle = True, maxalign = 8\<rparr>"
  let ?s = "[1, 0, 0, 0, 254, 255, 255, 255] :: byte list"
  let ?args = "[TString ?f, TNumber (d_of_int 1), TNumber (d_of_int (- 2))]"
  have d: "getdetails initheader 0 ?f 0 = Inr (Knop, 0, 0, ?H, 1)" "getdetails ?H 0 ?f 1 = Inr (Kint, 1, 0, ?H, 2)"
    "getdetails ?H 1 ?f 2 = Inr (Kint, 4, 3, ?H, 3)" by code_simp+
  have c: "char_at ?f 0 = 33" "char_at ?f (Suc 0) = 98" "char_at ?f 2 = 106" "char_at ?f 3 = 0" by code_simp+
  have n: "check_longlong no_conv ?args 2 = Inr 1" "check_longlong no_conv ?args 3 = Inr (- 2)"
    by (simp_all add: check_longlong_def luaL_checknumber_def arg_def luaV_tonumber_def num2long_of_int)
  have i: "packint (word_of_int 1) True 1 False = [1]" "packint (word_of_int (- 2)) True 4 True = [254, 255, 255, 255]" by code_simp+
  have v: "pack_value no_conv ?args 1 Knop 0 (islittle ?H) = Inr []" "pack_value no_conv ?args 2 Kint 1 (islittle ?H) = Inr [1]"
    "pack_value no_conv ?args 3 Kint 4 (islittle ?H) = Inr [254, 255, 255, 255]"
    using i by (simp_all add: pack_value_def n)
  have "pack_loop no_conv ?args ?f ?H 3 3 8 ?s = Inr ?s" unfolding pack_loop.simps [of _ _ _ ?H 3] by (simp add: c)
  then have "pack_loop no_conv ?args ?f ?H 2 2 1 [1] = Inr ?s"
    by (intro pack_at [OF d(3) _ v(3)]) (simp_all add: c has_value_def extra_size_def, simp_all add: numeral_eq_Suc)
  then have "pack_loop no_conv ?args ?f ?H 1 1 0 [] = Inr ?s"
    by (intro pack_at [OF d(2) _ v(2)]) (simp_all add: c has_value_def extra_size_def)
  then have "pack_loop no_conv ?args ?f initheader 0 1 0 [] = Inr ?s"
    by (intro pack_at [OF d(1) _ v(1)]) (simp_all add: c has_value_def extra_size_def)
  then have p: "str_pack no_conv ?args = Inr [TString ?s]" by (simp add: str_pack_def)
  have "packsize_loop ?f ?H 3 8 = Inr 8" unfolding packsize_loop.simps [of _ ?H 3] by (simp add: c)
  then have "packsize_loop ?f ?H 2 1 = Inr 8" by (intro packsize_at [OF d(3)]) (simp_all add: c)
  then have "packsize_loop ?f ?H 1 0 = Inr 8" by (intro packsize_at [OF d(2)]) (simp_all add: c)
  then have "packsize_loop ?f initheader 0 0 = Inr 8" by (intro packsize_at [OF d(1)]) (simp_all add: c)
  then have z: "str_packsize no_conv [TString ?f] = Inr [lua_pushinteger 8]" by (simp add: str_packsize_def)
  show ?thesis using z packsize_packed [OF z p] by (rule conjI)
qed

text \<open>C38. \<open>unpack\<close> never reads outside the data, whatever the format, the data and the C integer it starts at: no length that the data
  gives for a string and no alignment takes it past the end without an error.\<close>

theorem unpack_memory_safe:
  assumes "in_int32 init" and "small data"
  shows "str_unpack cv [TString fmt, TString data, lua_pushinteger init] \<noteq> Inl (Undefined m)"
proof -
  have "defined (str_unpack cv [TString fmt, TString data, lua_pushinteger init])"
    using assms unpack_loop_safe by (simp add: str_unpack_def Let_def)
  then show ?thesis by (simp add: defined_def)
qed

lemma unpack_memory_safe_witness:
  "str_unpack no_conv [TString (bytes ''s1''), TString [5, 97], lua_pushinteger 1] \<noteq> Inl (Undefined ''read past the end'')"
proof -
  have "small [5, 97]" by (simp add: small_def)
  then show ?thesis by (intro unpack_memory_safe) (simp_all add: in_int32_def)
qed

end
