(* ===== verification/LexScan.thy ===== *)
theory LexScan
  imports Prelude
begin

text \<open>
  The lexer of \<open>Ast/src/Lexer.cpp\<close>. The buffer is a list of characters; a character with the code 0 ends the text wherever it
  stands. Offsets are numbers, for buffers of less than 4 GB; lines and columns are the 32-bit words of the code.
\<close>

unbundle bit_operations_syntax

section \<open>Lexemes\<close>

type_synonym u32 = "32 word"

record Position =
  pos_line :: u32
  pos_column :: u32

record Location =
  loc_begin :: Position
  loc_end :: Position

text \<open>The reserved words are numbered from \<open>Reserved_BEGIN\<close> on. The code never makes the type \<open>Error\<close> that it declares, so it has no
  constructor here; \<open>Char_END\<close>, \<open>Reserved_BEGIN\<close> and \<open>Reserved_END\<close> are bounds.\<close>

datatype Type =
  Eof | Char char | Equal | LessEqual | GreaterEqual | NotEqual | Dot2 | Dot3 | SkinnyArrow | DoubleColon | FloorDiv
  | InterpStringBegin | InterpStringMid | InterpStringEnd | InterpStringSimple
  | AddAssign | SubAssign | MulAssign | DivAssign | FloorDivAssign | ModAssign | PowAssign | ConcatAssign
  | RawString | QuotedString | Number | Name | Comment | BlockComment | Attribute | AttributeOpen
  | BrokenString | BrokenComment | BrokenUnicode | BrokenInterpDoubleBrace | Reserved nat

text \<open>\<open>data\<close> is the place in the buffer where the text of the lexeme starts.\<close>

record Lexeme =
  lex_type :: Type
  location :: Location
  data :: "nat option"
  length_of :: nat
  name :: "string option"
  codepoint :: u32

text \<open>\<open>Location(begin, length)\<close>.\<close>

definition span :: "Position \<Rightarrow> u32 \<Rightarrow> Location" where
  "span b n = \<lparr>loc_begin = b, loc_end = b\<lparr>pos_column := pos_column b + n\<rparr>\<rparr>"

definition plain_lexeme :: "Location \<Rightarrow> Type \<Rightarrow> Lexeme" where
  "plain_lexeme loc ty = \<lparr>lex_type = ty, location = loc, data = None, length_of = 0, name = None, codepoint = 0\<rparr>"

definition data_lexeme :: "Location \<Rightarrow> Type \<Rightarrow> nat \<Rightarrow> nat \<Rightarrow> Lexeme" where
  "data_lexeme loc ty at_data len = (plain_lexeme loc ty)\<lparr>data := Some at_data, length_of := len\<rparr>"

definition name_lexeme :: "Location \<Rightarrow> Type \<Rightarrow> string option \<Rightarrow> Lexeme" where
  "name_lexeme loc ty n = (plain_lexeme loc ty)\<lparr>name := n\<rparr>"

definition kReserved :: "string list" where
  "kReserved = [''and'', ''break'', ''do'', ''else'', ''elseif'', ''end'', ''false'', ''for'', ''function'', ''if'', ''in'',
     ''local'', ''nil'', ''not'', ''or'', ''repeat'', ''return'', ''then'', ''true'', ''until'', ''while'']"

section \<open>Names\<close>

text \<open>The table gives each name its type; the reserved words are there from the start.\<close>

type_synonym AstNameTable = "string \<rightharpoonup> Type"

definition addStatic :: "AstNameTable \<Rightarrow> string \<Rightarrow> Type \<Rightarrow> AstNameTable" where
  "addStatic t n ty = t(n \<mapsto> ty)"

definition new_names :: AstNameTable where
  "new_names = foldl (\<lambda>t i. addStatic t (kReserved ! i) (Reserved i)) Map.empty [0..<length kReserved]"

definition getOrAddWithType :: "AstNameTable \<Rightarrow> string \<Rightarrow> string \<times> Type \<times> AstNameTable" where
  "getOrAddWithType t n =
     (case t n of
        Some ty \<Rightarrow> (n, ty, t)
      | None \<Rightarrow> let ty = (if n \<noteq> [] \<and> hd n = CHR ''@'' then Attribute else Name) in (n, ty, t(n \<mapsto> ty)))"

definition getWithType :: "AstNameTable \<Rightarrow> string \<Rightarrow> string option \<times> Type" where
  "getWithType t n = (case t n of Some ty \<Rightarrow> (Some n, ty) | None \<Rightarrow> (None, Name))"

definition isReserved :: "string \<Rightarrow> bool" where
  "isReserved word \<longleftrightarrow> (\<exists>i \<in> set [0..<length kReserved]. word = kReserved ! i)"

section \<open>Characters\<close>

abbreviation NUL :: char where "NUL \<equiv> CHR 0x00"
abbreviation CR :: char where "CR \<equiv> CHR 0x0D"
abbreviation LF :: char where "LF \<equiv> CHR 0x0A"

text \<open>Characters are zero-extended here; where \<open>char\<close> is signed, the codes from 128 on become negative and fail the same tests.\<close>

definition isAlpha :: "char \<Rightarrow> bool" where
  "isAlpha ch \<longleftrightarrow> (of_char ch OR 32) - (97 :: u32) < 26"

definition isDigit :: "char \<Rightarrow> bool" where
  "isDigit ch \<longleftrightarrow> of_char ch - (48 :: u32) < 10"

definition isHexDigit :: "char \<Rightarrow> bool" where
  "isHexDigit ch \<longleftrightarrow> of_char ch - (48 :: u32) < 10 \<or> (of_char ch OR 32) - (97 :: u32) < 6"

definition isNewline :: "char \<Rightarrow> bool" where
  "isNewline ch \<longleftrightarrow> ch = LF"

definition isSpace :: "char \<Rightarrow> bool" where
  "isSpace ch \<longleftrightarrow> ch = CHR '' '' \<or> ch = CHR 0x09 \<or> ch = CR \<or> ch = LF \<or> ch = CHR 0x0B \<or> ch = CHR 0x0C"

section \<open>The state\<close>

datatype BraceType = InterpolatedString | Normal

record Lexer =
  buffer :: string
  offset :: nat
  line :: u32
  lineOffset :: u32
  lexeme :: Lexeme
  prevLocation :: Location
  names :: AstNameTable
  skipComments :: bool
  readNames :: bool
  braceStack :: "BraceType list"

text \<open>The stack has its top at the end, like the vector of the code. A location before the first is that of the start.\<close>

definition new_lexer :: "string \<Rightarrow> AstNameTable \<Rightarrow> Position \<Rightarrow> Lexer" where
  "new_lexer buf t start =
     \<lparr>buffer = buf, offset = 0, line = pos_line start, lineOffset = 0 - pos_column start,
      lexeme = plain_lexeme (span start 0) Eof, prevLocation = span \<lparr>pos_line = 0, pos_column = 0\<rparr> 0, names = t,
      skipComments = False, readNames = True, braceStack = []\<rparr>"

definition peekch :: "Lexer \<Rightarrow> char" where
  "peekch L = (if offset L < length (buffer L) then buffer L ! offset L else NUL)"

definition peekch_at :: "Lexer \<Rightarrow> nat \<Rightarrow> char" where
  "peekch_at L k = (if offset L + k < length (buffer L) then buffer L ! (offset L + k) else NUL)"

definition position :: "Lexer \<Rightarrow> Position" where
  "position L = \<lparr>pos_line = line L, pos_column = of_nat (offset L) - lineOffset L\<rparr>"

definition consume :: "Lexer \<Rightarrow> Lexer" where
  "consume L = L\<lparr>offset := offset L + 1\<rparr>"

definition consumeAny :: "Lexer \<Rightarrow> Lexer" where
  "consumeAny L =
     (let L = (if isNewline (peekch L) then L\<lparr>line := line L + 1, lineOffset := of_nat (offset L + 1)\<rparr> else L)
      in L\<lparr>offset := offset L + 1\<rparr>)"

definition here :: "Position \<Rightarrow> Lexer \<Rightarrow> Location" where
  "here start L = \<lparr>loc_begin = start, loc_end = position L\<rparr>"

text \<open>The loops \<open>while (P(peekch())) consume()\<close>; no such test holds for the character 0.\<close>

function consume_while :: "(char \<Rightarrow> bool) \<Rightarrow> Lexer \<Rightarrow> Lexer" where
  "consume_while P L =
     (if offset L < length (buffer L) \<and> P (peekch L) then consume_while P (consume L) else L)"
  by pat_completeness auto

termination
  by (relation "measure (\<lambda>(P, L). length (buffer L) - offset L)") (auto simp: consume_def)

declare consume_while.simps [simp del]

function skip_spaces :: "Lexer \<Rightarrow> Lexer" where
  "skip_spaces L = (if offset L < length (buffer L) \<and> isSpace (peekch L) then skip_spaces (consumeAny L) else L)"
  by pat_completeness auto

termination
  by (relation "measure (\<lambda>L. length (buffer L) - offset L)") (auto simp: consumeAny_def Let_def)

declare skip_spaces.simps [simp del]

section \<open>Comments and strings\<close>

definition line_end :: "char \<Rightarrow> bool" where
  "line_end c \<longleftrightarrow> c = NUL \<or> c = CR \<or> isNewline c"

definition skipLongSeparator :: "Lexer \<Rightarrow> int \<times> Lexer" where
  "skipLongSeparator L =
     (let start = peekch L; L = consume L; M = consume_while (\<lambda>c. c = CHR ''='') L; count = int (offset M - offset L) in
      (if start = peekch M then count else - count - 1, M))"

lemma consume_while_mono:
  "offset L \<le> offset (consume_while P L)" "buffer (consume_while P L) = buffer L"
  by (induction P L rule: consume_while.induct) (subst consume_while.simps, force simp: consume_def)+

lemma consume_while_inside: "offset L \<le> length (buffer L) \<Longrightarrow> offset (consume_while P L) \<le> length (buffer L)"
  by (induction P L rule: consume_while.induct) (subst consume_while.simps, force simp: consume_def)

lemma peekch_inside: "peekch L \<noteq> NUL \<Longrightarrow> offset L < length (buffer L)"
  by (auto simp: peekch_def split: if_splits)

lemma skipLongSeparator_mono: "offset L < offset (snd (skipLongSeparator L))" "buffer (snd (skipLongSeparator L)) = buffer L"
  using consume_while_mono [where L = "consume L" and P = "\<lambda>c. c = CHR ''=''"] by (simp_all add: skipLongSeparator_def Let_def consume_def)

text \<open>The loop of \<open>readLongString\<close>: whether the closing separator was found.\<close>

function long_string_loop :: "int \<Rightarrow> Lexer \<Rightarrow> bool \<times> Lexer" where
  "long_string_loop sep L =
     (if peekch L \<noteq> NUL then
        if peekch L = CHR '']'' then
          let r = skipLongSeparator L in
          if fst r = sep then (True, consume (snd r)) else long_string_loop sep (snd r)
        else long_string_loop sep (consumeAny L)
      else (False, L))"
  by pat_completeness auto

termination
proof (relation "measure (\<lambda>(sep, L). length (buffer L) - offset L)", simp_all, goal_cases)
  case (1 sep L)
  then show ?case using peekch_inside [of L] skipLongSeparator_mono [of L] by (simp add: diff_less_mono2)
next
  case (2 L)
  then show ?case using peekch_inside [of L] by (simp add: consumeAny_def Let_def diff_less_mono2)
qed

declare long_string_loop.simps [simp del]

definition readLongString :: "Position \<Rightarrow> int \<Rightarrow> Type \<Rightarrow> Type \<Rightarrow> Lexer \<Rightarrow> Lexeme \<times> Lexer" where
  "readLongString start sep ok broken L =
     (let L = consume L; startOffset = offset L in
      case long_string_loop sep L of
        (True, M) \<Rightarrow> (data_lexeme (here start M) ok startOffset (offset M - nat sep - 2 - startOffset), M)
      | (False, M) \<Rightarrow> (plain_lexeme (here start M) broken, M))"

definition readCommentBody :: "Lexer \<Rightarrow> Lexeme \<times> Lexer" where
  "readCommentBody L =
     (let start = position L; L = consume (consume L); startOffset = offset L;
          r = (if peekch L = CHR ''['' then skipLongSeparator L else (- 1, L)) in
      if fst r \<ge> 0 then readLongString start (fst r) BlockComment BrokenComment (snd r)
      else
        let M = consume_while (\<lambda>c. \<not> line_end c) (snd r) in
        (data_lexeme (here start M) Comment startOffset (offset M - startOffset), M))"

definition readBackslashInString :: "Lexer \<Rightarrow> Lexer" where
  "readBackslashInString L =
     (let L = consume L; c = peekch L in
      if c = CR then (let L = consume L in if peekch L = LF then consumeAny L else L)
      else if c = NUL then L
      else if c = CHR ''z'' then skip_spaces (consume L)
      else consumeAny L)"

lemma skip_spaces_mono:
  "offset L \<le> offset (skip_spaces L)" "buffer (skip_spaces L) = buffer L"
  by (induction L rule: skip_spaces.induct) (subst skip_spaces.simps, force simp: consumeAny_def Let_def)+

lemma readBackslashInString_mono:
  "offset L < offset (readBackslashInString L)" "buffer (readBackslashInString L) = buffer L"
  using skip_spaces_mono [of "consume (consume L)"]
  by (auto simp: readBackslashInString_def consume_def consumeAny_def Let_def)

definition quoted_char :: "Lexer \<Rightarrow> Lexer" where
  "quoted_char L = (if peekch L = CHR 0x5C then readBackslashInString L else consume L)"

text \<open>The loop of \<open>readQuotedString\<close>: whether the delimiter was found before the end of the line.\<close>

function quoted_loop :: "char \<Rightarrow> Lexer \<Rightarrow> bool \<times> Lexer" where
  "quoted_loop delimiter L =
     (let c = peekch L in
      if c = delimiter then (True, L)
      else if line_end c then (False, L)
      else quoted_loop delimiter (quoted_char L))"
  by pat_completeness auto

termination
proof (relation "measure (\<lambda>(d, L). length (buffer L) - offset L)", simp, goal_cases)
  case (1 d L)
  then have "offset L < length (buffer L)" by (intro peekch_inside) (auto simp: line_end_def)
  then show ?case using readBackslashInString_mono [of L] by (auto simp: quoted_char_def consume_def diff_less_mono2)
qed

declare quoted_loop.simps [simp del]

definition readQuotedString :: "Lexer \<Rightarrow> Lexeme \<times> Lexer" where
  "readQuotedString L =
     (let start = position L; delimiter = peekch L; L = consume L; startOffset = offset L in
      case quoted_loop delimiter L of
        (True, M) \<Rightarrow> let M = consume M in (data_lexeme (here start M) QuotedString startOffset (offset M - startOffset - 1), M)
      | (False, M) \<Rightarrow> (plain_lexeme (here start M) BrokenString, M))"

text \<open>A character or an escape inside of an interpolated string; the brace of \<open>\u{\<close> does not start an expression.\<close>

definition interp_char :: "Lexer \<Rightarrow> Lexer" where
  "interp_char L =
     (if peekch L = CHR 0x5C then
        if peekch_at L 1 = CHR ''u'' \<and> peekch_at L 2 = CHR ''{'' then consume (consume (consume L))
        else readBackslashInString L
      else consume L)"

function interp_loop :: "Position \<Rightarrow> Type \<Rightarrow> Type \<Rightarrow> nat \<Rightarrow> Lexer \<Rightarrow> Lexeme \<times> Lexer" where
  "interp_loop start formatType endType startOffset L =
     (let c = peekch L in
      if c = CHR 0x60 then
        let M = consume L in (data_lexeme (here start M) endType startOffset (offset M - startOffset - 1), M)
      else if line_end c then (plain_lexeme (here start L) BrokenString, L)
      else if c = CHR ''{'' then
        let L = L\<lparr>braceStack := braceStack L @ [InterpolatedString]\<rparr> in
        if peekch_at L 1 = CHR ''{'' then
          (data_lexeme (here start L) BrokenInterpDoubleBrace startOffset (offset L - startOffset), consume (consume L))
        else
          let M = consume L in (data_lexeme (here start M) formatType startOffset (offset M - startOffset - 1), M)
      else
        interp_loop start formatType endType startOffset (interp_char L))"
  by pat_completeness auto

termination
proof (relation "measure (\<lambda>(s, f, e, o1, L). length (buffer L) - offset L)", simp, goal_cases)
  case (1 s f e o1 L)
  then have "offset L < length (buffer L)" by (intro peekch_inside) (auto simp: line_end_def)
  then show ?case using readBackslashInString_mono [of L] by (auto simp: interp_char_def consume_def diff_less_mono2)
qed

declare interp_loop.simps [simp del]

definition readInterpolatedStringSection :: "Position \<Rightarrow> Type \<Rightarrow> Type \<Rightarrow> Lexer \<Rightarrow> Lexeme \<times> Lexer" where
  "readInterpolatedStringSection start formatType endType L = interp_loop start formatType endType (offset L) L"

definition readInterpolatedStringBegin :: "Lexer \<Rightarrow> Lexeme \<times> Lexer" where
  "readInterpolatedStringBegin L =
     (let start = position L in readInterpolatedStringSection start InterpStringBegin InterpStringSimple (consume L))"

section \<open>Numbers, names and broken characters\<close>

definition number_char :: "char \<Rightarrow> bool" where
  "number_char c \<longleftrightarrow> isDigit c \<or> c = CHR ''.'' \<or> c = CHR ''_''"

definition name_char :: "char \<Rightarrow> bool" where
  "name_char c \<longleftrightarrow> isAlpha c \<or> isDigit c \<or> c = CHR ''_''"

definition readNumber :: "Position \<Rightarrow> nat \<Rightarrow> Lexer \<Rightarrow> Lexeme \<times> Lexer" where
  "readNumber start startOffset L =
     (let L = consume_while number_char (consume L);
          L = (if peekch L = CHR ''e'' \<or> peekch L = CHR ''E'' then
                 let L = consume L in if peekch L = CHR ''+'' \<or> peekch L = CHR ''-'' then consume L else L
               else L);
          L = consume_while name_char L
      in (data_lexeme (here start L) Number startOffset (offset L - startOffset), L))"

definition readName :: "Lexer \<Rightarrow> string option \<times> Type \<times> Lexer" where
  "readName L =
     (let startOffset = offset L; L = consume_while name_char (consume L);
          word = take (offset L - startOffset) (drop startOffset (buffer L)) in
      if readNames L then
        let (n, ty, t) = getOrAddWithType (names L) word in (Some n, ty, L\<lparr>names := t\<rparr>)
      else
        let (n, ty) = getWithType (names L) word in (n, ty, L))"

definition code :: "char \<Rightarrow> u32" where
  "code c = of_char c"

text \<open>The number of bytes and the bits that the first byte of a character gives.\<close>

definition utf8_lead :: "u32 \<Rightarrow> (nat \<times> u32) option" where
  "utf8_lead c =
     (if c AND 0x80 = 0 then Some (1, c AND 0x7F)
      else if c AND 0xE0 = 0xC0 then Some (2, c AND 0x1F)
      else if c AND 0xF0 = 0xE0 then Some (3, c AND 0xF)
      else if c AND 0xF8 = 0xF0 then Some (4, c AND 7)
      else None)"

text \<open>The loop of \<open>readUtf8Error\<close> over the continuation bytes: \<open>None\<close> when one of them is missing.\<close>

fun utf8_rest :: "nat \<Rightarrow> u32 \<Rightarrow> Lexer \<Rightarrow> u32 option \<times> Lexer" where
  "utf8_rest 0 cp L = (Some cp, L)"
| "utf8_rest (Suc n) cp L =
     (if code (peekch L) AND 0xC0 \<noteq> 0x80 then (None, L)
      else utf8_rest n (push_bit 6 cp OR (code (peekch L) AND 0x3F)) (consume L))"

definition readUtf8Error :: "Lexer \<Rightarrow> Lexeme \<times> Lexer" where
  "readUtf8Error L =
     (let start = position L; lead = utf8_lead (code (peekch L)); L = consume L in
      case lead of
        None \<Rightarrow> (plain_lexeme (here start L) BrokenUnicode, L)
      | Some (n, cp) \<Rightarrow>
          case utf8_rest (n - 1) cp L of
            (None, M) \<Rightarrow> (plain_lexeme (here start M) BrokenUnicode, M)
          | (Some cp, M) \<Rightarrow> ((plain_lexeme (here start M) BrokenUnicode)\<lparr>codepoint := cp\<rparr>, M))"

section \<open>One lexeme\<close>

text \<open>The cases of one character that \<open>=\<close> may follow: \<open>=\<close>, \<open><\<close>, \<open>>\<close>, \<open>~\<close>, \<open>+\<close>, \<open>*\<close>, \<open>%\<close> and \<open>^\<close>.\<close>

definition with_equal :: "char \<Rightarrow> Type option" where
  "with_equal = map_of [(CHR ''='', Equal), (CHR ''<'', LessEqual), (CHR ''>'', GreaterEqual), (CHR ''~'', NotEqual),
     (CHR ''+'', AddAssign), (CHR ''*'', MulAssign), (CHR ''%'', ModAssign), (CHR ''^'', PowAssign)]"

definition fixed :: "Position \<Rightarrow> nat \<Rightarrow> Type \<Rightarrow> Lexer \<Rightarrow> Lexeme \<times> Lexer" where
  "fixed start n ty L = (plain_lexeme (span start (of_nat n)) ty, (consume ^^ n) L)"

definition read_minus :: "Position \<Rightarrow> Lexer \<Rightarrow> Lexeme \<times> Lexer" where
  "read_minus start L =
     (if peekch_at L 1 = CHR ''>'' then fixed start 2 SkinnyArrow L
      else if peekch_at L 1 = CHR ''='' then fixed start 2 SubAssign L
      else if peekch_at L 1 = CHR ''-'' then readCommentBody L
      else fixed start 1 (Char (CHR ''-'')) L)"

definition read_bracket :: "Position \<Rightarrow> Lexer \<Rightarrow> Lexeme \<times> Lexer" where
  "read_bracket start L =
     (let (sep, M) = skipLongSeparator L in
      if sep \<ge> 0 then readLongString start sep RawString BrokenString M
      else if sep = - 1 then (plain_lexeme (span start 1) (Char (CHR ''['')), M)
      else (plain_lexeme (here start M) BrokenString, M))"

definition read_open_brace :: "Position \<Rightarrow> Lexer \<Rightarrow> Lexeme \<times> Lexer" where
  "read_open_brace start L =
     (let L = consume L; L = (if braceStack L \<noteq> [] then L\<lparr>braceStack := braceStack L @ [Normal]\<rparr> else L)
      in (plain_lexeme (span start 1) (Char (CHR ''{'')), L))"

definition read_close_brace :: "Position \<Rightarrow> Lexer \<Rightarrow> Lexeme \<times> Lexer" where
  "read_close_brace start L =
     (let L = consume L in
      if braceStack L = [] then (plain_lexeme (span start 1) (Char (CHR ''}'')), L)
      else
        let brace = last (braceStack L); L = L\<lparr>braceStack := butlast (braceStack L)\<rparr> in
        if brace \<noteq> InterpolatedString then (plain_lexeme (span start 1) (Char (CHR ''}'')), L)
        else readInterpolatedStringSection start InterpStringMid InterpStringEnd L)"

definition read_dot :: "Position \<Rightarrow> Lexer \<Rightarrow> Lexeme \<times> Lexer" where
  "read_dot start L =
     (let L = consume L in
      if peekch L = CHR ''.'' then
        let L = consume L in
        if peekch L = CHR ''.'' then (plain_lexeme (span start 3) Dot3, consume L)
        else if peekch L = CHR ''='' then (plain_lexeme (span start 3) ConcatAssign, consume L)
        else (plain_lexeme (span start 2) Dot2, L)
      else if isDigit (peekch L) then readNumber start (offset L - 1) L
      else (plain_lexeme (span start 1) (Char (CHR ''.'')), L))"

definition read_slash :: "Position \<Rightarrow> Lexer \<Rightarrow> Lexeme \<times> Lexer" where
  "read_slash start L =
     (let L = consume L in
      if peekch L = CHR ''='' then (plain_lexeme (span start 2) DivAssign, consume L)
      else if peekch L = CHR ''/'' then
        let L = consume L in
        if peekch L = CHR ''='' then (plain_lexeme (span start 3) FloorDivAssign, consume L)
        else (plain_lexeme (span start 2) FloorDiv, L)
      else (plain_lexeme (span start 1) (Char (CHR ''/'')), L))"

definition read_colon :: "Position \<Rightarrow> Lexer \<Rightarrow> Lexeme \<times> Lexer" where
  "read_colon start L =
     (let L = consume L in
      if peekch L = CHR '':'' then (plain_lexeme (span start 2) DoubleColon, consume L)
      else (plain_lexeme (span start 1) (Char (CHR '':'')), L))"

definition read_at :: "Position \<Rightarrow> Lexer \<Rightarrow> Lexeme \<times> Lexer" where
  "read_at start L =
     (if peekch_at L 1 = CHR ''['' then fixed start 2 AttributeOpen L
      else
        let L = consume L in
        if isAlpha (peekch L) \<or> peekch L = CHR ''_'' then
          let (n, _, M) = readName L in (name_lexeme (here start M) Attribute n, M)
        else (name_lexeme (here start L) Attribute (Some []), L))"

definition read_equal :: "Position \<Rightarrow> char \<Rightarrow> Type \<Rightarrow> Lexer \<Rightarrow> Lexeme \<times> Lexer" where
  "read_equal start c ty L =
     (let L = consume L in
      if peekch L = CHR ''='' then (plain_lexeme (span start 2) ty, consume L)
      else (plain_lexeme (span start 1) (Char c), L))"

definition read_other :: "Position \<Rightarrow> Lexer \<Rightarrow> Lexeme \<times> Lexer" where
  "read_other start L =
     (let c = peekch L in
      if isDigit c then readNumber start (offset L) L
      else if isAlpha c \<or> c = CHR ''_'' then
        let (n, ty, M) = readName L in (name_lexeme (here start M) ty n, M)
      else if code c AND 0x80 \<noteq> 0 then readUtf8Error L
      else fixed start 1 (Char c) L)"

text \<open>The characters that always stand alone (\<open>(\<close> to \<open>|\<close> in the code) do what the last default does.\<close>

definition readNext :: "Lexer \<Rightarrow> Lexeme \<times> Lexer" where
  "readNext L =
     (let start = position L; c = peekch L in
      if c = NUL then (plain_lexeme (span start 0) Eof, L)
      else if c = CHR ''-'' then read_minus start L
      else if c = CHR ''['' then read_bracket start L
      else if c = CHR ''{'' then read_open_brace start L
      else if c = CHR ''}'' then read_close_brace start L
      else if c = CHR 0x22 \<or> c = CHR 0x27 then readQuotedString L
      else if c = CHR 0x60 then readInterpolatedStringBegin L
      else if c = CHR ''.'' then read_dot start L
      else if c = CHR ''/'' then read_slash start L
      else if c = CHR '':'' then read_colon start L
      else if c \<in> set ''()];,#?&|'' then fixed start 1 (Char c) L
      else if c = CHR ''@'' then read_at start L
      else case with_equal c of Some ty \<Rightarrow> read_equal start c ty L | None \<Rightarrow> read_other start L)"

section \<open>Movement over the buffer\<close>

text \<open>The position that the text before an offset gives.\<close>

definition advance :: "Position \<Rightarrow> char \<Rightarrow> Position" where
  "advance p c =
     (if isNewline c then \<lparr>pos_line = pos_line p + 1, pos_column = 0\<rparr>
      else \<lparr>pos_line = pos_line p, pos_column = pos_column p + 1\<rparr>)"

definition place :: "string \<Rightarrow> Position \<Rightarrow> nat \<Rightarrow> Position" where
  "place buf start n = foldl advance start (take n buf)"

definition tracked :: "Position \<Rightarrow> Lexer \<Rightarrow> bool" where
  "tracked start L \<longleftrightarrow> offset L \<le> length (buffer L) \<and> place (buffer L) start (offset L) = position L"

text \<open>A part of the lexer goes on in the buffer, never past its end, keeps the position right and leaves alone what only \<open>next\<close> sets.\<close>

definition moved :: "Lexer \<Rightarrow> Lexer \<Rightarrow> bool" where
  "moved L M \<longleftrightarrow>
     buffer M = buffer L \<and> offset L \<le> offset M \<and> (\<forall>start. tracked start L \<longrightarrow> tracked start M) \<and>
     (offset L \<le> length (buffer L) \<longrightarrow> offset M \<le> length (buffer L)) \<and>
     lexeme M = lexeme L \<and> prevLocation M = prevLocation L \<and> skipComments M = skipComments L \<and> readNames M = readNames L"

lemma moved_refl [simp]: "moved L L"
  by (simp add: moved_def)

lemma moved_trans [trans]: "moved L M \<Longrightarrow> moved M N \<Longrightarrow> moved L N"
  by (auto simp: moved_def)

lemma place_Suc: "n < length buf \<Longrightarrow> place buf start (Suc n) = advance (place buf start n) (buf ! n)"
  by (simp add: place_def take_Suc_conv_app_nth)

lemma moved_consume: "peekch L \<noteq> NUL \<Longrightarrow> peekch L \<noteq> LF \<Longrightarrow> moved L (consume L)"
  by (auto simp: moved_def tracked_def consume_def peekch_def place_Suc advance_def isNewline_def position_def algebra_simps
      split: if_splits)

lemma moved_consumeAny: "peekch L \<noteq> NUL \<Longrightarrow> moved L (consumeAny L)"
  by (auto simp: moved_def tracked_def consumeAny_def peekch_def place_Suc advance_def isNewline_def position_def algebra_simps Let_def
      split: if_splits)

lemma offset_consume [simp]: "offset (consume L) = Suc (offset L)" "buffer (consume L) = buffer L" "names (consume L) = names L"
    "braceStack (consume L) = braceStack L"
  by (simp_all add: consume_def)

lemma offset_consumeAny [simp]: "offset (consumeAny L) = Suc (offset L)" "names (consumeAny L) = names L"
    "braceStack (consumeAny L) = braceStack L"
  by (simp_all add: consumeAny_def Let_def)

definition plain_test :: "(char \<Rightarrow> bool) \<Rightarrow> bool" where
  "plain_test P \<longleftrightarrow> \<not> P NUL \<and> \<not> P LF"

lemma moved_consume_while: "plain_test P \<Longrightarrow> moved L (consume_while P L)"
proof (induction P L rule: consume_while.induct)
  case (1 P L)
  show ?case
  proof (cases "offset L < length (buffer L) \<and> P (peekch L)")
    case True
    then have "moved L (consume L)" using 1(2) by (intro moved_consume) (auto simp: plain_test_def)
    then show ?thesis using 1(1) [OF True 1(2)] True by (subst consume_while.simps) (auto intro: moved_trans)
  next
    case False
    then show ?thesis unfolding consume_while.simps [of P L] if_not_P [OF False] by simp
  qed
qed

lemma keeps_consume_while [simp]: "names (consume_while P L) = names L" "braceStack (consume_while P L) = braceStack L"
  by (induction P L rule: consume_while.induct) (subst consume_while.simps, simp)+

lemma consume_while_stops: "offset (consume_while P L) < length (buffer L) \<Longrightarrow> \<not> P (peekch (consume_while P L))"
  by (induction P L rule: consume_while.induct) (subst consume_while.simps, subst (asm) consume_while.simps, simp split: if_splits)

lemma moved_skip_spaces: "moved L (skip_spaces L)"
proof (induction L rule: skip_spaces.induct)
  case (1 L)
  show ?case
  proof (cases "offset L < length (buffer L) \<and> isSpace (peekch L)")
    case True
    then have "moved L (consumeAny L)" by (intro moved_consumeAny) (auto simp: isSpace_def)
    then show ?thesis using 1 [OF True] True by (subst skip_spaces.simps) (auto intro: moved_trans)
  next
    case False
    then show ?thesis unfolding skip_spaces.simps [of L] if_not_P [OF False] by simp
  qed
qed

lemma keeps_skip_spaces [simp]: "names (skip_spaces L) = names L" "braceStack (skip_spaces L) = braceStack L"
  by (induction L rule: skip_spaces.induct) (subst skip_spaces.simps, simp)+

lemma skip_spaces_stops: "\<not> isSpace (peekch (skip_spaces L))"
proof (induction L rule: skip_spaces.induct)
  case (1 L)
  then show ?case by (subst skip_spaces.simps) (auto simp: peekch_def isSpace_def)
qed

lemma plain_tests [simp]: "plain_test (\<lambda>c. c = CHR ''='')" "plain_test (\<lambda>c. \<not> line_end c)" "plain_test number_char" "plain_test name_char"
proof -
  have "\<not> isDigit NUL" "\<not> isDigit LF" "\<not> isAlpha NUL" "\<not> isAlpha LF" by code_simp+
  then show "plain_test number_char" "plain_test name_char" by (simp_all add: plain_test_def number_char_def name_char_def)
qed (simp_all add: plain_test_def line_end_def isNewline_def)

lemma not_LF [simp]: "c \<noteq> LF" if "c = CHR ''='' \<or> c = CHR ''['' \<or> c = CHR '']'' \<or> c = CHR 0x5C \<or> c = CHR ''-''"
  using that by auto

lemma skipLongSeparator_moved: "peekch L \<noteq> NUL \<Longrightarrow> peekch L \<noteq> LF \<Longrightarrow> moved L (snd (skipLongSeparator L))"
  by (auto simp: skipLongSeparator_def Let_def intro: moved_trans [OF moved_consume moved_consume_while])

lemma skipLongSeparator_found: "fst (skipLongSeparator L) \<ge> 0 \<Longrightarrow> peekch (snd (skipLongSeparator L)) = peekch L"
  by (auto simp: skipLongSeparator_def Let_def split: if_splits)

lemma skipLongSeparator_keeps [simp]: "names (snd (skipLongSeparator L)) = names L" "braceStack (snd (skipLongSeparator L)) = braceStack L"
  by (simp_all add: skipLongSeparator_def Let_def)

lemma long_string_moved: "0 \<le> sep \<Longrightarrow> moved L (snd (long_string_loop sep L))"
proof (induction sep L rule: long_string_loop.induct)
  case (1 sep L)
  consider (over) "peekch L = NUL" | (close) "peekch L = CHR '']''" | (char) "peekch L \<noteq> NUL" "peekch L \<noteq> CHR '']''" by blast
  then show ?case
  proof cases
    case over
    then show ?thesis by (simp add: long_string_loop.simps [of sep L])
  next
    case close
    let ?r = "skipLongSeparator L"
    have m: "moved L (snd ?r)" using close by (intro skipLongSeparator_moved) auto
    show ?thesis
    proof (cases "fst ?r = sep")
      case True
      then have "moved (snd ?r) (consume (snd ?r))" using skipLongSeparator_found [of L] 1(3) close by (intro moved_consume) auto
      then show ?thesis using True close m unfolding long_string_loop.simps [of sep L] by (auto simp: Let_def intro: moved_trans)
    next
      case False
      then have "moved (snd ?r) (snd (long_string_loop sep (snd ?r)))" using 1(1) [OF _ close refl False 1(3)] close by simp
      then show ?thesis using False close m unfolding long_string_loop.simps [of sep L] by (auto simp: Let_def intro: moved_trans)
    qed
  next
    case char
    then show ?thesis using 1(2) [OF char 1(3)] moved_consumeAny [OF char(1)] unfolding long_string_loop.simps [of sep L]
      by (auto intro: moved_trans)
  qed
qed

lemma long_string_keeps [simp]:
  "names (snd (long_string_loop sep L)) = names L \<and> braceStack (snd (long_string_loop sep L)) = braceStack L"
proof (induction sep L rule: long_string_loop.induct)
  case (1 sep L)
  then show ?case unfolding long_string_loop.simps [of sep L] by (simp add: Let_def)
qed

text \<open>Words: the reserved words keep their types, and every other name is a \<open>Name\<close>.\<close>

definition names_ok :: "AstNameTable \<Rightarrow> bool" where
  "names_ok t \<longleftrightarrow>
     (\<forall>i < length kReserved. t (kReserved ! i) = Some (Reserved i)) \<and>
     (\<forall>n ty. t n = Some ty \<longrightarrow> n \<in> set kReserved \<or> ty = (if n \<noteq> [] \<and> hd n = CHR ''@'' then Attribute else Name))"

text \<open>A reader of one lexeme moves, and the lexeme lies between where it started and where it stopped.\<close>

definition reads :: "Lexer \<Rightarrow> Lexeme \<times> Lexer \<Rightarrow> bool" where
  "reads L r \<longleftrightarrow> moved L (snd r) \<and> offset L < offset (snd r) \<and> (names_ok (names L) \<longrightarrow> lex_type (fst r) \<noteq> Eof) \<and>
     (location (fst r) = here (position L) (snd r) \<or>
      lex_type (fst r) = BrokenInterpDoubleBrace \<and>
        (\<exists>N. moved L N \<and> location (fst r) = here (position L) N \<and> offset (snd r) = offset N + 2))"

lemma lexeme_simps [simp]:
  "lex_type (plain_lexeme loc ty) = ty" "location (plain_lexeme loc ty) = loc"
  "lex_type (data_lexeme loc ty d n) = ty" "location (data_lexeme loc ty d n) = loc"
  "lex_type (name_lexeme loc ty k) = ty" "location (name_lexeme loc ty k) = loc"
  by (simp_all add: plain_lexeme_def data_lexeme_def name_lexeme_def)

lemma position_consume: "position (consume L) = (position L)\<lparr>pos_column := pos_column (position L) + 1\<rparr>"
  by (simp add: position_def consume_def)

lemma span_here [simp]:
  "here (position L) (consume L) = span (position L) 1"
  "here (position L) (consume (consume L)) = span (position L) 2"
  "here (position L) (consume (consume (consume L))) = span (position L) 3"
  by (simp_all add: here_def span_def position_consume algebra_simps)

lemma readLongString_reads:
  assumes "moved L M" and "offset L < offset M" and "peekch M = CHR ''[''" and "0 \<le> sep" and "ok \<noteq> Eof" and "broken \<noteq> Eof"
  shows "reads L (readLongString (position L) sep ok broken M)"
proof -
  obtain b N where l: "long_string_loop sep (consume M) = (b, N)" by (cases "long_string_loop sep (consume M)")
  then have n: "moved (consume M) N" using long_string_moved [OF assms(4), of "consume M"] by simp
  have "moved M (consume M)" using assms(3) by (intro moved_consume) auto
  then have "moved L N" using n assms(1) by (blast intro: moved_trans)
  then show ?thesis using n assms by (auto simp: reads_def readLongString_def l Let_def moved_def split: bool.split)
qed

lemma readCommentBody_reads:
  assumes "peekch L = CHR ''-''" and "peekch_at L 1 = CHR ''-''"
  shows "reads L (readCommentBody L)"
proof -
  have "peekch (consume L) = peekch_at L 1" by (simp add: peekch_def peekch_at_def)
  then have m: "moved L (consume (consume L))" using assms by (intro moved_trans [OF moved_consume moved_consume]) auto
  let ?M = "consume (consume L)"
  define r where "r = (if peekch ?M = CHR ''['' then skipLongSeparator ?M else (- 1, ?M))"
  have s: "moved ?M (snd r)" using skipLongSeparator_moved [of ?M] by (auto simp: r_def)
  then have r: "moved L (snd r)" "offset L < offset (snd r)" using m by (blast intro: moved_trans) (use s in \<open>simp add: moved_def\<close>)
  show ?thesis
  proof (cases "fst r \<ge> 0")
    case True
    then have "peekch (snd r) = CHR ''[''" using skipLongSeparator_found [of ?M] by (auto simp: r_def split: if_splits)
    then have "reads L (readLongString (position L) (fst r) BlockComment BrokenComment (snd r))"
      using True by (intro readLongString_reads r) simp_all
    then show ?thesis using True by (simp add: readCommentBody_def Let_def r_def [symmetric])
  next
    case False
    let ?N = "consume_while (\<lambda>c. \<not> line_end c) (snd r)"
    have "moved (snd r) ?N" by (simp add: moved_consume_while)
    then have "moved L ?N" "offset L < offset ?N" using r by (blast intro: moved_trans) (use r \<open>moved (snd r) ?N\<close> in \<open>simp add: moved_def\<close>)
    then show ?thesis using False by (simp add: readCommentBody_def Let_def r_def [symmetric] reads_def)
  qed
qed

lemma readBackslashInString_moved: "peekch L = CHR 0x5C \<Longrightarrow> moved L (readBackslashInString L)"
proof -
  assume c: "peekch L = CHR 0x5C"
  let ?M = "consume L"
  have m: "moved L ?M" using c by (intro moved_consume) auto
  have "moved ?M (readBackslashInString L)"
  proof -
    consider (cr) "peekch ?M = CR" | (nul) "peekch ?M = NUL" | (z) "peekch ?M = CHR ''z''"
      | (other) "peekch ?M \<noteq> CR" "peekch ?M \<noteq> NUL" "peekch ?M \<noteq> CHR ''z''" by blast
    then show ?thesis
    proof cases
      case cr
      then have "moved ?M (consume ?M)" by (intro moved_consume) auto
      then show ?thesis using cr moved_consumeAny [of "consume ?M"]
        by (auto simp: readBackslashInString_def Let_def intro: moved_trans)
    next
      case z
      then have "moved ?M (consume ?M)" by (intro moved_consume) auto
      then show ?thesis using z moved_skip_spaces [of "consume ?M"]
        by (auto simp: readBackslashInString_def Let_def intro: moved_trans)
    qed (simp_all add: readBackslashInString_def Let_def moved_consumeAny)
  qed
  then show ?thesis using m by (blast intro: moved_trans)
qed

lemma readBackslashInString_keeps [simp]:
  "names (readBackslashInString L) = names L" "braceStack (readBackslashInString L) = braceStack L"
  by (simp_all add: readBackslashInString_def Let_def)

lemma quoted_char_moved:
  assumes "\<not> line_end (peekch L)"
  shows "moved L (quoted_char L)"
  unfolding quoted_char_def using assms readBackslashInString_moved [of L] moved_consume [of L] by (auto simp: line_end_def isNewline_def)

lemma quoted_moved: "moved L (snd (quoted_loop d L)) \<and> (fst (quoted_loop d L) \<longrightarrow> peekch (snd (quoted_loop d L)) = d)"
proof (induction d L rule: quoted_loop.induct)
  case (1 d L)
  show ?case
  proof (cases "peekch L = d \<or> line_end (peekch L)")
    case True
    then show ?thesis unfolding quoted_loop.simps [of d L] by (auto simp: Let_def)
  next
    case False
    define M where "M = quoted_char L"
    have m: "moved L M" unfolding M_def using False by (intro quoted_char_moved) simp
    have "quoted_loop d L = quoted_loop d M" using False unfolding quoted_loop.simps [of d L] M_def by (simp add: Let_def)
    then show ?thesis using 1 [OF refl, folded M_def] False moved_trans [OF m, of "snd (quoted_loop d M)"] by simp
  qed
qed

lemma quoted_char_keeps [simp]: "names (quoted_char L) = names L" "braceStack (quoted_char L) = braceStack L"
  by (simp_all add: quoted_char_def)

lemma quoted_keeps [simp]: "names (snd (quoted_loop d L)) = names L \<and> braceStack (snd (quoted_loop d L)) = braceStack L"
proof (induction d L rule: quoted_loop.induct)
  case (1 d L)
  then show ?case unfolding quoted_loop.simps [of d L] by (simp add: Let_def)
qed

lemma readQuotedString_reads:
  assumes "peekch L = CHR 0x22 \<or> peekch L = CHR 0x27"
  shows "reads L (readQuotedString L)"
proof -
  have c: "moved L (consume L)" using assms by (intro moved_consume) auto
  obtain b M where q: "quoted_loop (peekch L) (consume L) = (b, M)" by (cases "quoted_loop (peekch L) (consume L)")
  have m: "moved (consume L) M" "b \<Longrightarrow> peekch M = peekch L" using quoted_moved [of "consume L" "peekch L"] q by auto
  have l: "moved L M" using c m(1) by (rule moved_trans)
  have "moved M (consume M)" if b using m(2) [OF that] assms by (intro moved_consume) auto
  then show ?thesis using l m(1) moved_trans [OF l, of "consume M"]
    by (auto simp: reads_def readQuotedString_def q Let_def moved_def split: bool.split)
qed

lemma moved_braces [simp]: "moved L (M\<lparr>braceStack := bs\<rparr>) \<longleftrightarrow> moved L M" "moved (L\<lparr>braceStack := bs\<rparr>) M \<longleftrightarrow> moved L M"
  by (auto simp: moved_def tracked_def position_def)

lemma peekch_braces [simp]: "peekch (L\<lparr>braceStack := bs\<rparr>) = peekch L" "peekch_at (L\<lparr>braceStack := bs\<rparr>) k = peekch_at L k"
    "position (L\<lparr>braceStack := bs\<rparr>) = position L" "consume (L\<lparr>braceStack := bs\<rparr>) = (consume L)\<lparr>braceStack := bs\<rparr>"
  by (simp_all add: peekch_def peekch_at_def position_def consume_def)

lemma here_braces [simp]: "here p (L\<lparr>braceStack := bs\<rparr>) = here p L"
  by (simp add: here_def)

lemma peekch_consume: "peekch (consume L) = peekch_at L 1" "peekch_at (consume L) k = peekch_at L (Suc k)"
  by (simp_all add: peekch_def peekch_at_def)

lemma interp_char_moved:
  assumes "\<not> line_end (peekch L)"
  shows "moved L (interp_char L)"
proof -
  have "moved L (consume (consume (consume L)))" if "peekch L = CHR 0x5C" "peekch_at L 1 = CHR ''u'' \<and> peekch_at L 2 = CHR ''{''"
    using that by (intro moved_trans [OF moved_consume moved_trans [OF moved_consume moved_consume]]) (auto simp: peekch_consume numeral_2_eq_2)
  then show ?thesis using quoted_char_moved [OF assms] by (auto simp: interp_char_def quoted_char_def)
qed

lemma interp_reads:
  "moved K L \<Longrightarrow> offset K < offset L \<Longrightarrow> f \<noteq> Eof \<Longrightarrow> e \<noteq> Eof \<Longrightarrow> start = position K \<Longrightarrow> reads K (interp_loop start f e so L)"
proof (induction start f e so L rule: interp_loop.induct)
  case (1 start f e so L)
  note K = 1(2,3)
  consider (tick) "peekch L = CHR 0x60" | (over) "line_end (peekch L)" "peekch L \<noteq> CHR 0x60" | (brace) "peekch L = CHR ''{''"
    | (char) "peekch L \<noteq> CHR 0x60" "\<not> line_end (peekch L)" "peekch L \<noteq> CHR ''{''" by blast
  then show ?case
  proof cases
    case tick
    have "moved K (consume L)" using tick by (intro moved_trans [OF K(1) moved_consume]) auto
    then show ?thesis using tick K 1(4-6) unfolding interp_loop.simps [of start f e so L] by (simp add: Let_def reads_def)
  next
    case over
    then show ?thesis using K 1(4-6) unfolding interp_loop.simps [of start f e so L] by (simp add: Let_def reads_def)
  next
    case brace
    have one: "moved K (consume L)" using brace by (intro moved_trans [OF K(1) moved_consume]) auto
    have two: "moved K (consume (consume L))" if "peekch_at L 1 = CHR ''{''"
      using that by (intro moved_trans [OF one moved_consume]) (auto simp: peekch_consume)
    have n: "\<not> line_end (CHR ''{'')" by (simp add: line_end_def isNewline_def)
    show ?thesis
    proof (cases "peekch_at L 1 = CHR ''{''")
      case True
      moreover have "\<exists>N. moved K N \<and> here (position K) L = here (position K) N \<and> Suc (Suc (offset L)) = offset N + 2"
        using K(1) by (intro exI [of _ L]) simp
      ultimately show ?thesis using brace n two [OF True] K 1(4-6) unfolding interp_loop.simps [of start f e so L]
        by (simp add: Let_def reads_def)
    next
      case False
      then show ?thesis using brace n one K 1(4-6) unfolding interp_loop.simps [of start f e so L]
        by (simp add: Let_def reads_def here_def)
    qed
  next
    case char
    define M where "M = interp_char L"
    have m: "moved L M" unfolding M_def by (rule interp_char_moved [OF char(2)])
    have "moved K M" "offset K < offset M" using moved_trans [OF K(1) m] K(2) m by (auto simp: moved_def)
    then have "reads K (interp_loop start f e so M)" using 1(1) [OF refl char] 1(4-6) unfolding M_def by simp
    then show ?thesis using char unfolding interp_loop.simps [of start f e so L] M_def by (simp add: Let_def)
  qed
qed

lemma plain_testD: "plain_test P \<Longrightarrow> P c \<Longrightarrow> c \<noteq> NUL \<and> c \<noteq> LF"
  by (auto simp: plain_test_def)

lemma moved_consume_plain: "plain_test P \<Longrightarrow> P (peekch L) \<Longrightarrow> moved L (consume L)"
  using plain_testD [of P "peekch L"] by (simp add: moved_consume)

lemma readNumber_reads:
  assumes "moved K L" and "isDigit (peekch L)"
  shows "reads K (readNumber (position K) so L)"
proof -
  define A where "A = consume_while number_char (consume L)"
  define B where "B = (if peekch A = CHR ''e'' \<or> peekch A = CHR ''E'' then
                 let L = consume A in if peekch L = CHR ''+'' \<or> peekch L = CHR ''-'' then consume L else L else A)"
  define C where "C = consume_while name_char B"
  have "moved L (consume L)" using assms(2) by (intro moved_consume_plain [of number_char]) (simp_all add: number_char_def)
  moreover have "moved (consume L) A" unfolding A_def by (simp add: moved_consume_while)
  moreover have "moved A (consume A)" if "peekch A = CHR ''e'' \<or> peekch A = CHR ''E''"
    using that by (intro moved_consume) auto
  moreover have "moved (consume A) (consume (consume A))" if "peekch (consume A) = CHR ''+'' \<or> peekch (consume A) = CHR ''-''"
    using that by (intro moved_consume) auto
  ultimately have A: "moved K A" "offset K < offset A" and AB: "moved A B"
    using assms(1) moved_trans [of A "consume A"] by (blast intro: moved_trans, auto simp: moved_def B_def Let_def)
  have BC: "moved B C" unfolding C_def by (simp add: moved_consume_while)
  have "moved K C" "offset K < offset C" using A(1) AB BC by (blast intro: moved_trans) (use A(2) AB BC in \<open>simp add: moved_def\<close>)
  moreover have "readNumber (position K) so L = (data_lexeme (here (position K) C) Number so (offset C - so), C)"
    unfolding readNumber_def Let_def C_def B_def A_def ..
  ultimately show ?thesis by (simp add: reads_def)
qed

definition word_type :: "string \<Rightarrow> Type" where
  "word_type w = (case find (\<lambda>i. kReserved ! i = w) [0..<length kReserved] of Some i \<Rightarrow> Reserved i | None \<Rightarrow> Name)"

definition word_at :: "Lexer \<Rightarrow> string" where
  "word_at L = takeWhile name_char (drop (offset L) (buffer L))"

lemma consume_while_eq: "consume_while P L = L\<lparr>offset := offset L + length (takeWhile P (drop (offset L) (buffer L)))\<rparr>"
proof (induction P L rule: consume_while.induct)
  case (1 P L)
  show ?case
  proof (cases "offset L < length (buffer L) \<and> P (peekch L)")
    case True
    then have "drop (offset L) (buffer L) = peekch L # drop (Suc (offset L)) (buffer L)" by (simp add: peekch_def Cons_nth_drop_Suc)
    then show ?thesis using 1 [OF True] True unfolding consume_while.simps [of P L] by (simp add: consume_def)
  next
    case False
    then have "takeWhile P (drop (offset L) (buffer L)) = []"
      by (cases "offset L < length (buffer L)") (auto simp: peekch_def Cons_nth_drop_Suc [symmetric])
    then show ?thesis unfolding consume_while.simps [of P L] if_not_P [OF False] by simp
  qed
qed

lemma word_type_nth: "i < length kReserved \<Longrightarrow> word_type (kReserved ! i) = Reserved i"
proof -
  have "\<forall>i \<in> set [0..<length kReserved]. word_type (kReserved ! i) = Reserved i" by code_simp
  then show "i < length kReserved \<Longrightarrow> ?thesis" by simp
qed

lemma word_type_other: "w \<notin> set kReserved \<Longrightarrow> word_type w = Name"
proof -
  assume "w \<notin> set kReserved"
  then have "find (\<lambda>i. kReserved ! i = w) [0..<length kReserved] = None" by (auto simp: find_None_iff in_set_conv_nth)
  then show ?thesis by (simp add: word_type_def)
qed

lemma word_type_range: "word_type w = Name \<or> (\<exists>i < length kReserved. word_type w = Reserved i)"
  by (cases "w \<in> set kReserved") (auto simp: word_type_other in_set_conv_nth word_type_nth)

lemma names_ok_type:
  assumes "names_ok t" and "t n = Some ty" and "n = [] \<or> hd n \<noteq> CHR ''@''"
  shows "ty = word_type n"
proof (cases "n \<in> set kReserved")
  case True
  then obtain i where "i < length kReserved" "n = kReserved ! i" by (auto simp: in_set_conv_nth)
  then show ?thesis using assms(1,2) by (simp add: names_ok_def word_type_nth)
next
  case False
  then show ?thesis using assms by (auto simp: names_ok_def word_type_other split: if_splits)
qed

lemma getOrAdd_ok:
  assumes "names_ok t" and "n = [] \<or> hd n \<noteq> CHR ''@''"
  obtains t' where "getOrAddWithType t n = (n, word_type n, t')" and "names_ok t'" and "t \<subseteq>\<^sub>m t'" and "t' n = Some (word_type n)"
proof (cases "t n")
  case None
  then have r: "n \<notin> set kReserved" using assms(1) by (auto simp: names_ok_def in_set_conv_nth)
  then have g: "getOrAddWithType t n = (n, word_type n, t(n \<mapsto> Name))"
    using None assms(2) by (auto simp: getOrAddWithType_def word_type_other)
  have "kReserved ! i \<noteq> n" if "i < length kReserved" for i using r that by auto
  then have "names_ok (t(n \<mapsto> Name))" using assms None by (auto simp: names_ok_def)
  moreover have "t \<subseteq>\<^sub>m t(n \<mapsto> Name)" using None by (auto simp: map_le_def)
  ultimately show thesis using that [OF g] r by (simp add: word_type_other)
next
  case (Some ty)
  then show thesis using names_ok_type [OF assms(1) Some assms(2)] by (intro that [of t]) (auto simp: getOrAddWithType_def assms)
qed

lemma new_names_ok: "names_ok new_names"
proof -
  have 1: "\<forall>i \<in> set [0..<length kReserved]. new_names (kReserved ! i) = Some (Reserved i)" by code_simp
  have "dom (foldl (\<lambda>t i. addStatic t (kReserved ! i) (Reserved i)) t xs) \<subseteq> dom t \<union> (\<lambda>i. kReserved ! i) ` set xs" for t xs
    by (induction xs arbitrary: t) (simp, force simp: addStatic_def)
  from this [of Map.empty "[0..<length kReserved]"] have "dom new_names \<subseteq> set kReserved" by (force simp: new_names_def)
  then show ?thesis using 1 by (auto simp: names_ok_def)
qed

lemma readName_word:
  assumes "name_char (peekch L)"
  shows "word_at L \<noteq> []" and "hd (word_at L) \<noteq> CHR ''@''" and "moved L (consume_while name_char (consume L))"
    and "consume_while name_char (consume L) = L\<lparr>offset := offset L + length (word_at L)\<rparr>"
    and "take (length (word_at L)) (drop (offset L) (buffer L)) = word_at L"
proof -
  have nul: "\<not> name_char NUL" "\<not> name_char (CHR ''@'')" by code_simp+
  then have "offset L < length (buffer L)" using assms by (auto simp: peekch_def split: if_splits)
  then have d: "drop (offset L) (buffer L) = peekch L # drop (Suc (offset L)) (buffer L)" by (simp add: peekch_def Cons_nth_drop_Suc)
  have w: "word_at L = peekch L # takeWhile name_char (drop (Suc (offset L)) (buffer L))" unfolding word_at_def d using assms by simp
  then show "word_at L \<noteq> []" "hd (word_at L) \<noteq> CHR ''@''" using assms nul by auto
  show "consume_while name_char (consume L) = L\<lparr>offset := offset L + length (word_at L)\<rparr>"
    unfolding consume_while_eq w by (simp add: consume_def)
  show "moved L (consume_while name_char (consume L))"
    using assms by (intro moved_trans [OF moved_consume_plain [of name_char] moved_consume_while]) simp_all
  show "take (length (word_at L)) (drop (offset L) (buffer L)) = word_at L"
    unfolding word_at_def by (simp add: takeWhile_eq_take [symmetric])
qed

text \<open>\<open>readName\<close> at a word.\<close>

lemma readName_eq:
  assumes "name_char (peekch L)"
  shows "readName L =
    (let M = L\<lparr>offset := offset L + length (word_at L)\<rparr> in
     if readNames L then (Some (word_at L), fst (snd (getOrAddWithType (names L) (word_at L))),
       M\<lparr>names := snd (snd (getOrAddWithType (names L) (word_at L)))\<rparr>)
     else (fst (getWithType (names L) (word_at L)), snd (getWithType (names L) (word_at L)), M))"
  using readName_word(4,5) [OF assms]
  by (auto simp: readName_def Let_def getOrAddWithType_def split: prod.split option.split)

lemma moved_names [simp]: "moved L (M\<lparr>names := t\<rparr>) \<longleftrightarrow> moved L M"
  by (simp add: moved_def tracked_def position_def)

lemma readName_moves:
  assumes "name_char (peekch L)"
  shows "moved L (snd (snd (readName L))) \<and> offset (snd (snd (readName L))) = offset L + length (word_at L) \<and>
    offset L < offset (snd (snd (readName L))) \<and> braceStack (snd (snd (readName L))) = braceStack L"
  using readName_word(1,3) [OF assms] unfolding readName_eq [OF assms] readName_word(4) [OF assms] Let_def by simp

lemma readName_found:
  assumes "names_ok (names L)" and "name_char (peekch L)"
  obtains n ty M where "readName L = (n, ty, M)" and "ty = word_type (word_at L)" and "names_ok (names M)" and "names L \<subseteq>\<^sub>m names M"
    and "readNames L \<longrightarrow> n = Some (word_at L)"
proof (cases "readNames L")
  case True
  obtain t' where "getOrAddWithType (names L) (word_at L) = (word_at L, word_type (word_at L), t')" "names_ok t'" "names L \<subseteq>\<^sub>m t'"
    using getOrAdd_ok [OF assms(1), of "word_at L"] readName_word(2) [OF assms(2)] by blast
  then show thesis using True by (intro that [of "Some (word_at L)" "word_type (word_at L)" "L\<lparr>offset := offset L + length (word_at L), names := t'\<rparr>"]) (simp_all add: readName_eq [OF assms(2)] Let_def)
next
  case False
  have "snd (getWithType (names L) (word_at L)) = word_type (word_at L)"
  proof (cases "names L (word_at L)")
    case None
    then have "word_at L \<notin> set kReserved" using assms(1) by (auto simp: names_ok_def in_set_conv_nth)
    then show ?thesis using None by (simp add: getWithType_def word_type_other)
  next
    case (Some ty)
    then show ?thesis using names_ok_type [OF assms(1) Some] readName_word(2) [OF assms(2)] by (auto simp: getWithType_def)
  qed
  then show thesis using False assms(1)
    by (intro that [of "fst (getWithType (names L) (word_at L))" "word_type (word_at L)" "L\<lparr>offset := offset L + length (word_at L)\<rparr>"]) (simp_all add: readName_eq [OF assms(2)] Let_def)
qed

lemma utf8_rest_moved: "moved L (snd (utf8_rest n cp L))"
proof (induction n arbitrary: cp L)
  case (Suc n)
  have "\<not> (code NUL AND 0xC0 = 0x80)" "\<not> (code LF AND 0xC0 = 0x80)" by code_simp+
  then have "moved L (consume L)" if "code (peekch L) AND 0xC0 = 0x80" using that by (intro moved_consume) auto
  then show ?case using Suc [where L = "consume L"] by (auto intro: moved_trans)
qed simp

lemma utf8_rest_keeps [simp]:
  "names (snd (utf8_rest n cp L)) = names L \<and> braceStack (snd (utf8_rest n cp L)) = braceStack L"
  by (induction n arbitrary: cp L) simp_all

lemma readUtf8Error_reads:
  assumes "peekch L \<noteq> NUL" and "peekch L \<noteq> LF"
  shows "reads L (readUtf8Error L)"
proof -
  have m: "moved L (consume L)" using assms by (rule moved_consume)
  have r: "moved (consume L) M \<and> moved L M \<and> offset L < offset M" if "utf8_rest n cp (consume L) = (x, M)" for n cp x M
    using utf8_rest_moved [of "consume L" n cp] m that by (auto simp: moved_def)
  show ?thesis
    using m r by (auto simp: readUtf8Error_def Let_def reads_def simp del: utf8_rest.simps split: option.splits prod.splits)
qed

text \<open>What a reader leaves: words keep their types, the stack of braces changes by one brace at most, and not at a comment.\<close>

definition braces_step :: "BraceType list \<Rightarrow> BraceType list \<Rightarrow> bool" where
  "braces_step bs bs' \<longleftrightarrow> bs' = bs \<or> (\<exists>b. bs' = bs @ [b]) \<or> (bs \<noteq> [] \<and> bs' = butlast bs)"

definition effects :: "Lexer \<Rightarrow> Lexeme \<times> Lexer \<Rightarrow> bool" where
  "effects L r \<longleftrightarrow> names_ok (names L) \<longrightarrow>
     names_ok (names (snd r)) \<and> names L \<subseteq>\<^sub>m names (snd r) \<and> braces_step (braceStack L) (braceStack (snd r)) \<and>
     (lex_type (fst r) = Comment \<or> lex_type (fst r) = BlockComment \<longrightarrow> braceStack (snd r) = braceStack L)"

lemma effects_same:
  "names (snd r) = names L \<Longrightarrow> braceStack (snd r) = braceStack L \<Longrightarrow> effects L r"
  by (simp add: effects_def braces_step_def)

lemma readLongString_keeps [simp]:
  "names (snd (readLongString start sep ok broken L)) = names L" "braceStack (snd (readLongString start sep ok broken L)) = braceStack L"
proof -
  obtain b M where l: "long_string_loop sep (consume L) = (b, M)" by (cases "long_string_loop sep (consume L)")
  then have "names M = names L" "braceStack M = braceStack L" using long_string_keeps [of sep "consume L"] unfolding l by simp_all
  then show "names (snd (readLongString start sep ok broken L)) = names L" "braceStack (snd (readLongString start sep ok broken L)) = braceStack L"
    by (simp_all add: readLongString_def l Let_def split: bool.split)
qed

lemma readCommentBody_keeps [simp]:
  "names (snd (readCommentBody L)) = names L" "braceStack (snd (readCommentBody L)) = braceStack L"
  by (simp_all add: readCommentBody_def Let_def)

lemma readQuotedString_keeps [simp]:
  "names (snd (readQuotedString L)) = names L" "braceStack (snd (readQuotedString L)) = braceStack L"
proof -
  obtain b M where q: "quoted_loop (peekch L) (consume L) = (b, M)" by (cases "quoted_loop (peekch L) (consume L)")
  then have "names M = names L" "braceStack M = braceStack L" using quoted_keeps [of "peekch L" "consume L"] unfolding q by simp_all
  then show "names (snd (readQuotedString L)) = names L" "braceStack (snd (readQuotedString L)) = braceStack L"
    by (simp_all add: readQuotedString_def q Let_def split: bool.split)
qed

lemma readNumber_keeps [simp]:
  "names (snd (readNumber start so L)) = names L" "braceStack (snd (readNumber start so L)) = braceStack L"
  by (simp_all add: readNumber_def Let_def)

lemma readUtf8Error_keeps [simp]:
  "names (snd (readUtf8Error L)) = names L" "braceStack (snd (readUtf8Error L)) = braceStack L"
proof -
  have "names M = names L" "braceStack M = braceStack L" if "utf8_rest n cp (consume L) = (x, M)" for n cp x M
    using utf8_rest_keeps [of n cp "consume L"] that by simp_all
  then show "names (snd (readUtf8Error L)) = names L" "braceStack (snd (readUtf8Error L)) = braceStack L"
    by (auto simp: readUtf8Error_def Let_def simp del: utf8_rest.simps split: option.splits prod.splits)
qed

lemma interp_char_keeps [simp]: "names (interp_char L) = names L" "braceStack (interp_char L) = braceStack L"
  by (simp_all add: interp_char_def)

lemma interp_keeps:
  "names (snd (interp_loop start f e so L)) = names L \<and>
    (braceStack (snd (interp_loop start f e so L)) = braceStack L \<or>
     braceStack (snd (interp_loop start f e so L)) = braceStack L @ [InterpolatedString])"
proof (induction start f e so L rule: interp_loop.induct)
  case (1 start f e so L)
  show ?case
  proof (cases "peekch L = CHR 0x60 \<or> line_end (peekch L) \<or> peekch L = CHR ''{''")
    case True
    then show ?thesis unfolding interp_loop.simps [of start f e so L] by (auto simp: Let_def)
  next
    case False
    then show ?thesis using 1 [OF refl] unfolding interp_loop.simps [of start f e so L] by (simp add: Let_def)
  qed
qed

lemma interp_type:
  "lex_type (fst (interp_loop start f e so L)) \<in> {e, f, BrokenString, BrokenInterpDoubleBrace}"
proof (induction start f e so L rule: interp_loop.induct)
  case (1 start f e so L)
  show ?case
  proof (cases "peekch L = CHR 0x60 \<or> line_end (peekch L) \<or> peekch L = CHR ''{''")
    case True
    then show ?thesis unfolding interp_loop.simps [of start f e so L] by (auto simp: Let_def)
  next
    case False
    then show ?thesis using 1 [OF refl] unfolding interp_loop.simps [of start f e so L] by (simp add: Let_def)
  qed
qed

section \<open>\<open>readNext\<close>\<close>

definition read_ok :: "Lexer \<Rightarrow> Lexeme \<times> Lexer \<Rightarrow> bool" where
  "read_ok L r \<longleftrightarrow> reads L r \<and> effects L r"

lemma reads_fixed1:
  "peekch L \<noteq> NUL \<Longrightarrow> peekch L \<noteq> LF \<Longrightarrow> ty \<noteq> Eof \<Longrightarrow> reads L (plain_lexeme (span (position L) 1) ty, consume L)"
  by (simp add: reads_def moved_consume)

lemma reads_fixed2:
  assumes "peekch L \<noteq> NUL" "peekch L \<noteq> LF" "peekch (consume L) \<noteq> NUL" "peekch (consume L) \<noteq> LF" "ty \<noteq> Eof"
  shows "reads L (plain_lexeme (span (position L) 2) ty, consume (consume L))"
  using moved_trans [OF moved_consume moved_consume] assms by (simp add: reads_def)

lemma reads_fixed3:
  assumes "peekch L \<noteq> NUL" "peekch L \<noteq> LF" "peekch (consume L) \<noteq> NUL" "peekch (consume L) \<noteq> LF"
    "peekch (consume (consume L)) \<noteq> NUL" "peekch (consume (consume L)) \<noteq> LF" "ty \<noteq> Eof"
  shows "reads L (plain_lexeme (span (position L) 3) ty, consume (consume (consume L)))"
  using moved_trans [OF moved_consume moved_trans [OF moved_consume moved_consume]] assms by (simp add: reads_def)

lemmas fixed_defs = fixed_def numeral_2_eq_2

lemma read_minus_ok: "peekch L = CHR ''-'' \<Longrightarrow> read_ok L (read_minus (position L) L)"
  using reads_fixed1 [of L "Char (CHR ''-'')"] reads_fixed2 [of L SkinnyArrow] reads_fixed2 [of L SubAssign] readCommentBody_reads [of L]
  by (auto simp: read_ok_def read_minus_def fixed_defs peekch_consume intro!: effects_same)

lemma read_bracket_ok:
  assumes "peekch L = CHR ''[''"
  shows "read_ok L (read_bracket (position L) L)"
proof -
  obtain sep M where s: "skipLongSeparator L = (sep, M)" by (cases "skipLongSeparator L")
  have m: "moved L M" "offset L < offset M" "names M = names L" "braceStack M = braceStack L"
    using skipLongSeparator_moved [of L] skipLongSeparator_mono [of L] skipLongSeparator_keeps [of L] assms(1) s by auto
  have "sep = - 1 \<Longrightarrow> M = consume L"
    using s consume_while_eq [of "\<lambda>c. c = CHR ''=''" "consume L"]
    by (auto simp: skipLongSeparator_def Let_def consume_def split: if_splits)
  moreover have "reads L (readLongString (position L) sep RawString BrokenString M)" if "sep \<ge> 0"
    using that m skipLongSeparator_found [of L] s assms(1) by (intro readLongString_reads) auto
  moreover have "reads L (plain_lexeme (here (position L) M) BrokenString, M)" using m by (simp add: reads_def)
  ultimately show ?thesis using m assms reads_fixed1 [of L "Char (CHR ''['')"]
    by (auto simp: read_ok_def read_bracket_def s intro!: effects_same)
qed

lemma braces_push [simp]: "braces_step bs (bs @ [b])" and braces_same [simp]: "braces_step bs bs"
  and braces_pop [simp]: "bs \<noteq> [] \<Longrightarrow> braces_step bs (butlast bs)"
  by (simp_all add: braces_step_def)

lemma read_open_brace_ok: "peekch L = CHR ''{'' \<Longrightarrow> read_ok L (read_open_brace (position L) L)"
  using reads_fixed1 [of L "Char (CHR ''{'')"]
  by (auto simp: read_ok_def read_open_brace_def Let_def reads_def effects_def)

lemma read_close_brace_ok:
  assumes "peekch L = CHR ''}''"
  shows "read_ok L (read_close_brace (position L) L)"
proof -
  have c: "moved L (consume L)" using assms(1) by (intro moved_consume) auto
  show ?thesis
  proof (cases "braceStack L \<noteq> [] \<and> last (braceStack L) = InterpolatedString")
    case True
    let ?M = "(consume L)\<lparr>braceStack := butlast (braceStack L)\<rparr>"
    let ?r = "interp_loop (position L) InterpStringMid InterpStringEnd (offset ?M) ?M"
    have "reads L ?r" using c(1) by (intro interp_reads) simp_all
    moreover have "butlast (braceStack L) @ [InterpolatedString] = braceStack L" using True append_butlast_last_id by metis
    then have "effects L ?r"
      using interp_keeps [of "position L" InterpStringMid InterpStringEnd "offset ?M" ?M] True
        interp_type [of "position L" InterpStringMid InterpStringEnd "offset ?M" ?M]
      by (auto simp: effects_def)
    ultimately show ?thesis using True by (simp add: read_ok_def read_close_brace_def Let_def readInterpolatedStringSection_def)
  next
    case False
    then show ?thesis using c
      by (auto simp: read_ok_def read_close_brace_def Let_def reads_def effects_def)
  qed
qed

lemma read_dot_ok:
  assumes "peekch L = CHR ''.''"
  shows "read_ok L (read_dot (position L) L)"
proof -
  have "reads L (readNumber (position L) (offset (consume L) - 1) (consume L))" if "isDigit (peekch (consume L))"
    using that assms(1) by (intro readNumber_reads moved_consume) auto
  moreover have "reads L (plain_lexeme (span (position L) 3) ty, consume (consume (consume L)))"
    if "peekch (consume L) = CHR ''.''" "peekch (consume (consume L)) = CHR ''.'' \<or> peekch (consume (consume L)) = CHR ''=''" "ty \<noteq> Eof" for ty
    using that assms(1) by (intro reads_fixed3) auto
  moreover have "reads L (plain_lexeme (span (position L) 2) Dot2, consume (consume L))" if "peekch (consume L) = CHR ''.''"
    using that assms(1) by (intro reads_fixed2) auto
  moreover have "reads L (plain_lexeme (span (position L) 1) (Char (CHR ''.'')), consume L)"
    using assms(1) by (intro reads_fixed1) auto
  ultimately show ?thesis
    by (simp add: read_ok_def read_dot_def Let_def effects_same)
qed

lemma read_slash_ok:
  assumes "peekch L = CHR ''/''"
  shows "read_ok L (read_slash (position L) L)"
proof -
  have "reads L (plain_lexeme (span (position L) 3) FloorDivAssign, consume (consume (consume L)))"
    if "peekch (consume L) = CHR ''/''" "peekch (consume (consume L)) = CHR ''=''"
    using that assms(1) by (intro reads_fixed3) auto
  moreover have "reads L (plain_lexeme (span (position L) 2) ty, consume (consume L))"
    if "peekch (consume L) = CHR ''/'' \<or> peekch (consume L) = CHR ''=''" "ty \<noteq> Eof" for ty
    using that assms(1) by (intro reads_fixed2) auto
  moreover have "reads L (plain_lexeme (span (position L) 1) (Char (CHR ''/'')), consume L)"
    using assms(1) by (intro reads_fixed1) auto
  ultimately show ?thesis
    by (simp add: read_ok_def read_slash_def Let_def effects_same)
qed

lemma read_colon_ok:
  assumes "peekch L = CHR '':''"
  shows "read_ok L (read_colon (position L) L)"
proof -
  have "reads L (plain_lexeme (span (position L) 2) DoubleColon, consume (consume L))" if "peekch (consume L) = CHR '':''"
    using that assms(1) by (intro reads_fixed2) auto
  moreover have "reads L (plain_lexeme (span (position L) 1) (Char (CHR '':'')), consume L)"
    using assms(1) by (intro reads_fixed1) auto
  ultimately show ?thesis
    by (auto simp: read_ok_def read_colon_def Let_def intro!: effects_same)
qed

lemma read_equal_ok:
  assumes "peekch L = c" and "c \<noteq> NUL" "c \<noteq> LF" and "ty \<noteq> Eof"
  shows "read_ok L (read_equal (position L) c ty L)"
proof -
  have "reads L (plain_lexeme (span (position L) 2) ty, consume (consume L))" if "peekch (consume L) = CHR ''=''"
    using that assms by (intro reads_fixed2) auto
  moreover have "reads L (plain_lexeme (span (position L) 1) (Char c), consume L)"
    using assms by (intro reads_fixed1) auto
  ultimately show ?thesis
    by (auto simp: read_ok_def read_equal_def Let_def intro!: effects_same)
qed

lemma word_type_not [simp]: "word_type w \<noteq> Eof" "word_type w \<noteq> Comment" "word_type w \<noteq> BlockComment"
  using word_type_range [of w] by auto

lemma readName_ok:
  assumes "moved K L" "names L = names K" "braceStack L = braceStack K" and "name_char (peekch L)"
    and "readName L = (n, ty, M)" and "ty' = ty \<or> ty' = Attribute"
  shows "read_ok K (name_lexeme (here (position K) M) ty' n, M)"
proof -
  have "moved L M" "offset L < offset M" "braceStack M = braceStack L" using readName_moves [OF assms(4), unfolded assms(5) snd_conv] by blast+
  then have m: "moved K M" "offset K < offset M" "braceStack M = braceStack K"
    using assms(1,3) moved_trans [OF assms(1), of M] by (simp_all add: moved_def)
  have "names_ok (names M) \<and> names K \<subseteq>\<^sub>m names M \<and> ty' \<noteq> Eof \<and> ty' \<noteq> Comment \<and> ty' \<noteq> BlockComment" if ok: "names_ok (names K)"
  proof -
    obtain n' ty'' M' where r: "readName L = (n', ty'', M')" "ty'' = word_type (word_at L)" "names_ok (names M')" "names L \<subseteq>\<^sub>m names M'"
      using readName_found [OF _ assms(4)] ok assms(2) by metis
    then have ty: "ty = word_type (word_at L)" "M' = M" using assms(5) by simp_all
    have "ty' \<noteq> Eof" "ty' \<noteq> Comment" "ty' \<noteq> BlockComment" using assms(6) unfolding ty by (elim disjE; simp)+
    then show ?thesis using r(3,4) ty(2) assms(2) by simp
  qed
  then show ?thesis using m by (simp add: read_ok_def reads_def effects_def)
qed

lemma read_at_ok:
  assumes "peekch L = CHR ''@''"
  shows "read_ok L (read_at (position L) L)"
proof -
  have c: "moved L (consume L)" using assms(1) by (intro moved_consume) auto
  have "read_ok L (name_lexeme (here (position L) M) Attribute n, M)"
    if "isAlpha (peekch (consume L)) \<or> peekch (consume L) = CHR ''_''" "readName (consume L) = (n, ty, M)" for n ty M
    using that by (intro readName_ok [OF c]) (auto simp: name_char_def)
  moreover have "reads L (plain_lexeme (span (position L) 2) AttributeOpen, consume (consume L))" if "peekch (consume L) = CHR ''[''"
    using that assms(1) by (intro reads_fixed2) auto
  moreover have "reads L (name_lexeme (here (position L) (consume L)) Attribute (Some []), consume L)" using c by (simp add: reads_def)
  ultimately show ?thesis
    by (auto simp: read_ok_def read_at_def fixed_defs peekch_consume Let_def intro!: effects_same split: prod.splits)
qed

lemma read_other_ok:
  assumes "peekch L \<noteq> NUL" "peekch L \<noteq> LF"
  shows "read_ok L (read_other (position L) L)"
proof -
  have "reads L (readNumber (position L) (offset L) L)" if "isDigit (peekch L)"
    using that by (intro readNumber_reads) auto
  moreover have "read_ok L (name_lexeme (here (position L) M) ty n, M)"
    if "isAlpha (peekch L) \<or> peekch L = CHR ''_''" "readName L = (n, ty, M)" for n ty M
    using that by (intro readName_ok [OF moved_refl]) (auto simp: name_char_def)
  moreover have "reads L (readUtf8Error L)" by (rule readUtf8Error_reads [OF assms])
  moreover have "reads L (plain_lexeme (span (position L) 1) (Char (peekch L)), consume L)"
    using assms by (intro reads_fixed1) auto
  ultimately show ?thesis
    by (auto simp: read_ok_def read_other_def fixed_defs Let_def intro!: effects_same split: prod.splits)
qed

lemma readInterpolatedStringBegin_ok:
  assumes "peekch L = CHR 0x60"
  shows "read_ok L (readInterpolatedStringBegin L)"
proof -
  have "moved L (consume L)" using assms(1) by (intro moved_consume) auto
  then have "reads L (readInterpolatedStringBegin L)"
    by (simp add: readInterpolatedStringBegin_def readInterpolatedStringSection_def interp_reads Let_def)
  then show ?thesis
    using interp_keeps [of "position L" InterpStringBegin InterpStringSimple "offset (consume L)" "consume L"]
      interp_type [of "position L" InterpStringBegin InterpStringSimple "offset (consume L)" "consume L"]
    by (auto simp: read_ok_def effects_def readInterpolatedStringBegin_def readInterpolatedStringSection_def Let_def)
qed

lemma readNext_ok:
  assumes c: "peekch L \<noteq> NUL" "peekch L \<noteq> LF"
  shows "read_ok L (readNext L)"
proof -
  have quoted: "peekch L = CHR 0x22 \<or> peekch L = CHR 0x27 \<Longrightarrow> read_ok L (readQuotedString L)"
    by (simp add: read_ok_def readQuotedString_reads effects_same)
  have one: "read_ok L (fixed (position L) 1 (Char (peekch L)) L)"
    using reads_fixed1 [OF c, of "Char (peekch L)"] by (auto simp: read_ok_def fixed_defs intro!: effects_same)
  have equal: "with_equal (peekch L) = Some ty \<Longrightarrow> read_ok L (read_equal (position L) (peekch L) ty L)" for ty
    by (rule read_equal_ok [OF refl c]) (auto simp: with_equal_def split: if_splits)
  have one': "peekch L = d \<Longrightarrow> read_ok L (fixed (position L) 1 (Char d) L)" for d using one by auto
  have equal': "peekch L = d \<Longrightarrow> with_equal d = Some ty \<Longrightarrow> read_ok L (read_equal (position L) d ty L)" for d ty using equal by simp
  note cases = quoted one one' equal equal' read_minus_ok read_bracket_ok read_open_brace_ok read_close_brace_ok
    readInterpolatedStringBegin_ok read_dot_ok read_slash_ok read_colon_ok read_at_ok
    read_other_ok [OF c]
  show ?thesis
    unfolding readNext_def Let_def using c(1) by (simp add: cases cases [simplified] split: option.split)
qed

section \<open>The stream of lexemes\<close>

definition is_comment :: "Lexeme \<Rightarrow> bool" where
  "is_comment l \<longleftrightarrow> lex_type l = Comment \<or> lex_type l = BlockComment"

text \<open>One round of the loop of \<open>next\<close>.\<close>

definition next_round :: "bool \<Rightarrow> Lexer \<Rightarrow> Lexer" where
  "next_round updatePrevLocation L =
     (let L = skip_spaces L; L = (if updatePrevLocation then L\<lparr>prevLocation := location (lexeme L)\<rparr> else L); (l, M) = readNext L
      in M\<lparr>lexeme := l\<rparr>)"

lemma readNext_eof: "peekch L = NUL \<Longrightarrow> readNext L = (plain_lexeme (span (position L) 0) Eof, L)"
  by (simp add: readNext_def)

lemma peekch_prev [simp]: "peekch (L\<lparr>prevLocation := p\<rparr>) = peekch L" "position (L\<lparr>prevLocation := p\<rparr>) = position L"
  by (simp_all add: peekch_def position_def)

text \<open>A round that does not reach the end of the text leaves less of it.\<close>

lemma next_round_progress:
  assumes "lex_type (lexeme (next_round u L)) \<noteq> Eof"
  shows "offset L < offset (next_round u L) \<and> buffer (next_round u L) = buffer L \<and> offset L < length (buffer L)"
proof -
  define K where "K = (if u then (skip_spaces L)\<lparr>prevLocation := location (lexeme (skip_spaces L))\<rparr> else skip_spaces L)"
  have K: "offset L \<le> offset K" "buffer K = buffer L" "peekch K = peekch (skip_spaces L)"
    using skip_spaces_mono [of L] by (simp_all add: K_def)
  have r: "next_round u L = (case readNext K of (l, M) \<Rightarrow> M\<lparr>lexeme := l\<rparr>)" by (simp add: next_round_def K_def Let_def)
  have "peekch K \<noteq> NUL"
  proof
    assume "peekch K = NUL"
    from r [unfolded readNext_eof [OF this]] have "lex_type (lexeme (next_round u L)) = Eof" by simp
    then show False using assms by simp
  qed
  moreover have "peekch K \<noteq> LF" using skip_spaces_stops [of L] K(3) by (auto simp: isSpace_def)
  ultimately have "reads K (readNext K)" using readNext_ok by (simp add: read_ok_def)
  moreover have "offset K < length (buffer K)" using peekch_inside [OF \<open>peekch K \<noteq> NUL\<close>] .
  ultimately show ?thesis using K r by (auto simp: reads_def moved_def split: prod.splits)
qed

function next_loop :: "bool \<Rightarrow> bool \<Rightarrow> Lexer \<Rightarrow> Lexer" where
  "next_loop skip updatePrevLocation L =
     (let M = next_round updatePrevLocation L in
      if skip \<and> is_comment (lexeme M) then next_loop skip False M else M)"
  by pat_completeness auto

termination
proof (relation "measure (\<lambda>(skip, u, L). length (buffer L) - offset L)", simp, goal_cases)
  case (1 skip u L)
  then show ?case using next_round_progress [of u L] by (auto simp: is_comment_def diff_less_mono2)
qed

declare next_loop.simps [simp del]

definition next_lexeme :: "Lexer \<Rightarrow> Lexer" where
  "next_lexeme L = next_loop (skipComments L) True L"

definition nextline :: "Lexer \<Rightarrow> Lexer" where
  "nextline L = next_lexeme (consume_while (\<lambda>c. \<not> line_end c) L)"

definition lookahead :: "Lexer \<Rightarrow> Lexeme \<times> Lexer" where
  "lookahead L =
     (let size_before = length (braceStack L); brace = (if braceStack L = [] then Normal else last (braceStack L)); M = next_lexeme L;
          bs = braceStack M;
          bs = (if length bs < size_before then bs @ [brace] else if length bs > size_before then butlast bs else bs)
      in (lexeme M, M\<lparr>offset := offset L, line := line L, lineOffset := lineOffset L, lexeme := lexeme L, prevLocation := prevLocation L,
            braceStack := bs\<rparr>))"

definition peekBraceStackTop :: "Lexer \<Rightarrow> BraceType option" where
  "peekBraceStackTop L = (if braceStack L = [] then None else Some (last (braceStack L)))"

definition setSkipComments :: "bool \<Rightarrow> Lexer \<Rightarrow> Lexer" where
  "setSkipComments skip L = L\<lparr>skipComments := skip\<rparr>"

definition setReadNames :: "bool \<Rightarrow> Lexer \<Rightarrow> Lexer" where
  "setReadNames read_names L = L\<lparr>readNames := read_names\<rparr>"

end
