(* ===== verification/LexProps.thy ===== *)
theory LexProps
  imports LexScan
begin

text \<open>
  What the lexer guarantees: every lexeme lies where its location says, the text between lexemes is white space, the end of the text
  is reached, words get their types, and looking ahead changes nothing.
\<close>

section \<open>One round\<close>

lemma tracked_updates [simp]:
  "tracked start (L\<lparr>lexeme := l\<rparr>) = tracked start L" "tracked start (L\<lparr>prevLocation := p\<rparr>) = tracked start L"
  "tracked start (L\<lparr>skipComments := b\<rparr>) = tracked start L" "tracked start (L\<lparr>readNames := b\<rparr>) = tracked start L"
  "tracked start (L\<lparr>braceStack := bs\<rparr>) = tracked start L" "tracked start (L\<lparr>names := t\<rparr>) = tracked start L"
  by (simp_all add: tracked_def position_def)

definition lexeme_at :: "string \<Rightarrow> Position \<Rightarrow> Lexeme \<Rightarrow> nat \<Rightarrow> nat \<Rightarrow> bool" where
  "lexeme_at buf start l i j \<longleftrightarrow>
     loc_begin (location l) = place buf start i \<and>
     (loc_end (location l) = place buf start j \<or>
      lex_type l = BrokenInterpDoubleBrace \<and> loc_end (location l) = place buf start (j - 2))"

text \<open>A round from a tracked lexer: white space up to an offset, then one lexeme from there, or the end of the text.\<close>

definition one_lexeme :: "Position \<Rightarrow> Lexer \<Rightarrow> nat \<Rightarrow> Lexer \<Rightarrow> bool" where
  "one_lexeme start L i M \<longleftrightarrow>
     buffer M = buffer L \<and> tracked start M \<and> names_ok (names M) \<and> offset L \<le> i \<and> i \<le> offset M \<and> offset M \<le> length (buffer L) \<and>
     lexeme_at (buffer L) start (lexeme M) i (offset M) \<and>
     (lex_type (lexeme M) = Eof \<longleftrightarrow> i = offset M) \<and>
     (i = offset M \<longrightarrow> i = length (buffer L) \<or> buffer L ! i = NUL) \<and>
     skipComments M = skipComments L \<and> readNames M = readNames L"

lemma buffer_consumeAny [simp]: "buffer (consumeAny L) = buffer L"
  by (simp add: consumeAny_def Let_def)

lemma skip_spaces_spaces: "offset L \<le> k \<Longrightarrow> k < offset (skip_spaces L) \<Longrightarrow> isSpace (buffer L ! k)"
proof (induction L rule: skip_spaces.induct)
  case (1 L)
  show ?case
  proof (cases "offset L < length (buffer L) \<and> isSpace (peekch L)")
    case True
    then show ?thesis using 1(1) [OF True] 1(2,3) unfolding skip_spaces.simps [of L] if_P [OF True]
      by (cases "offset L = k") (auto simp: peekch_def)
  next
    case False
    then show ?thesis using 1(2,3) unfolding skip_spaces.simps [of L] if_not_P [OF False] by simp
  qed
qed

lemma span_zero: "span p 0 = \<lparr>loc_begin = p, loc_end = p\<rparr>"
  by (simp add: span_def)

lemma next_round_one:
  assumes "tracked start L" and "names_ok (names L)"
  shows "one_lexeme start L (offset (skip_spaces L)) (next_round u L)"
proof -
  define S where "S = skip_spaces L"
  define K where "K = (if u then S\<lparr>prevLocation := location (lexeme S)\<rparr> else S)"
  have "moved L S" unfolding S_def by (rule moved_skip_spaces)
  then have S: "tracked start S" "offset L \<le> offset S" "buffer S = buffer L" "skipComments S = skipComments L" "readNames S = readNames L"
    using assms(1) by (auto simp: moved_def)
  have K: "tracked start K" "offset K = offset S" "buffer K = buffer L" "names K = names L" "position K = position S" "peekch K = peekch S"
    "skipComments K = skipComments L" "readNames K = readNames L"
    using S by (simp_all add: K_def S_def)
  have pl: "place (buffer L) start (offset S) = position S" using S(1,3) by (simp add: tracked_def)
  have len: "offset S \<le> length (buffer L)" using S(1,3) by (simp add: tracked_def)
  have r: "next_round u L = (case readNext K of (l, M) \<Rightarrow> M\<lparr>lexeme := l\<rparr>)" by (simp add: next_round_def K_def S_def Let_def)
  show ?thesis
  proof (cases "peekch K = NUL")
    case True
    then have "offset S = length (buffer L) \<or> buffer L ! offset S = NUL" using len K(2,3) by (auto simp: peekch_def split: if_splits)
    moreover have "next_round u L = K\<lparr>lexeme := plain_lexeme (span (position S) 0) Eof\<rparr>"
      using r [unfolded readNext_eof [OF True]] K(5) by simp
    ultimately show ?thesis
      using K S(2) assms(2) pl len by (simp add: one_lexeme_def lexeme_at_def span_zero S_def)
  next
    case False
    have nl: "peekch K \<noteq> LF" using skip_spaces_stops [of L] K(6) by (auto simp: S_def isSpace_def)
    obtain l M where lM: "readNext K = (l, M)" by (cases "readNext K")
    have "reads K (l, M)" "effects K (l, M)" using readNext_ok [OF False nl] lM by (simp_all add: read_ok_def)
    then have m: "moved K M" "offset K < offset M" "lex_type l \<noteq> Eof" "names_ok (names M)"
      and loc: "location l = here (position K) M \<or>
        lex_type l = BrokenInterpDoubleBrace \<and> (\<exists>N. moved K N \<and> location l = here (position K) N \<and> offset M = offset N + 2)"
      using assms(2) K(4) by (auto simp: reads_def effects_def)
    have t: "tracked start N \<and> buffer N = buffer L \<and> offset N \<le> length (buffer L) \<and> place (buffer L) start (offset N) = position N"
      if "moved K N" for N using that K(1,3) by (auto simp: moved_def tracked_def)
    have "lexeme_at (buffer L) start l (offset S) (offset M)"
      using loc
    proof (elim disjE conjE exE)
      assume "location l = here (position K) M"
      then show ?thesis using t [OF m(1)] pl K(5) by (simp add: lexeme_at_def here_def)
    next
      fix N
      assume "lex_type l = BrokenInterpDoubleBrace" "moved K N" "location l = here (position K) N" "offset M = offset N + 2"
      then show ?thesis using t [of N] pl K(5) by (simp add: lexeme_at_def here_def)
    qed
    then show ?thesis using r lM m t [OF m(1)] K S(2) by (auto simp: one_lexeme_def moved_def S_def)
  qed
qed

section \<open>\<open>next\<close>\<close>

lemma one_lexeme_trans:
  "one_lexeme start L i M \<Longrightarrow> one_lexeme start M j N \<Longrightarrow> one_lexeme start L j N"
  by (auto simp: one_lexeme_def)

lemma next_loop_one:
  assumes "tracked start L" and "names_ok (names L)"
  shows "\<exists>i. one_lexeme start L i (next_loop skip u L)"
  using assms
proof (induction skip u L rule: next_loop.induct)
  case (1 skip u L)
  have o: "one_lexeme start L (offset (skip_spaces L)) (next_round u L)" by (rule next_round_one [OF 1(2,3)])
  show ?case
  proof (cases "skip \<and> is_comment (lexeme (next_round u L))")
    case True
    then obtain j where "one_lexeme start (next_round u L) j (next_loop skip False (next_round u L))"
      using 1(1) [OF refl True] o by (auto simp: one_lexeme_def)
    then show ?thesis using one_lexeme_trans [OF o] True unfolding next_loop.simps [of skip u L] by (auto simp: Let_def)
  next
    case False
    then show ?thesis using o unfolding next_loop.simps [of skip u L] by (auto simp: Let_def)
  qed
qed

lemma next_lexeme_one:
  "tracked start L \<Longrightarrow> names_ok (names L) \<Longrightarrow> \<exists>i. one_lexeme start L i (next_lexeme L)"
  by (simp add: next_lexeme_def next_loop_one)

lemma next_lexeme_exact:
  assumes "tracked start L" and "names_ok (names L)" and "\<not> skipComments L"
  shows "one_lexeme start L (offset (skip_spaces L)) (next_lexeme L)"
  using next_round_one [OF assms(1,2)] assms(3) unfolding next_lexeme_def next_loop.simps [of "skipComments L" True L] by (simp add: Let_def)

text \<open>The stack of braces after \<open>next\<close>: it differs by one brace at most.\<close>

lemma next_loop_effects:
  assumes "names_ok (names L)"
  shows "names_ok (names (next_loop skip u L)) \<and> names L \<subseteq>\<^sub>m names (next_loop skip u L) \<and>
    braces_step (braceStack L) (braceStack (next_loop skip u L))"
  using assms
proof (induction skip u L rule: next_loop.induct)
  case (1 skip u L)
  define K where "K = (let L = skip_spaces L in if u then L\<lparr>prevLocation := location (lexeme L)\<rparr> else L)"
  have K: "names K = names L" "braceStack K = braceStack L" by (simp_all add: K_def Let_def)
  obtain l M where lM: "readNext K = (l, M)" by (cases "readNext K")
  have r: "next_round u L = M\<lparr>lexeme := l\<rparr>" using lM by (simp add: next_round_def K_def Let_def)
  have "effects K (l, M)"
  proof (cases "peekch K = NUL")
    case True
    then show ?thesis using lM readNext_eof [OF True] by (simp add: effects_def)
  next
    case False
    have "peekch K \<noteq> LF" using skip_spaces_stops [of L] by (auto simp: K_def Let_def isSpace_def)
    then show ?thesis using readNext_ok [OF False] lM by (simp add: read_ok_def)
  qed
  then have e: "names_ok (names M)" "names L \<subseteq>\<^sub>m names M" "braces_step (braceStack L) (braceStack M)"
    "is_comment l \<Longrightarrow> braceStack M = braceStack L"
    using 1(2) K by (auto simp: effects_def is_comment_def)
  show ?case
  proof (cases "skip \<and> is_comment (lexeme (next_round u L))")
    case True
    then have "is_comment l" by (simp add: r)
    then show ?thesis using 1(1) [OF refl True] True e r unfolding next_loop.simps [of skip u L]
      by (auto simp: Let_def intro: map_le_trans)
  next
    case False
    then show ?thesis using e r unfolding next_loop.simps [of skip u L] by (auto simp: Let_def)
  qed
qed

lemma braces_restored:
  assumes "braces_step bs bs'"
  shows "(if length bs' < length bs then bs' @ [if bs = [] then Normal else last bs]
          else if length bs' > length bs then butlast bs' else bs') = bs"
  using assms by (cases bs rule: rev_cases) (auto simp: braces_step_def butlast_append)

section \<open>Reachable lexers\<close>

inductive reachable_lexer :: "string \<Rightarrow> AstNameTable \<Rightarrow> Position \<Rightarrow> Lexer \<Rightarrow> bool" for buf t start where
  "reachable_lexer buf t start (new_lexer buf t start)"
| "reachable_lexer buf t start L \<Longrightarrow> reachable_lexer buf t start (next_lexeme L)"
| "reachable_lexer buf t start L \<Longrightarrow> reachable_lexer buf t start (nextline L)"
| "reachable_lexer buf t start L \<Longrightarrow> reachable_lexer buf t start (snd (lookahead L))"
| "reachable_lexer buf t start L \<Longrightarrow> reachable_lexer buf t start (setSkipComments skip L)"
| "reachable_lexer buf t start L \<Longrightarrow> reachable_lexer buf t start (setReadNames b L)"

definition lexer_inv :: "string \<Rightarrow> Position \<Rightarrow> Lexer \<Rightarrow> bool" where
  "lexer_inv buf start L \<longleftrightarrow>
     buffer L = buf \<and> tracked start L \<and> names_ok (names L) \<and> (\<exists>i \<le> offset L. lexeme_at buf start (lexeme L) i (offset L))"

lemma next_lexeme_inv:
  assumes "buffer L = buf" and "tracked start L" and "names_ok (names L)"
  shows "lexer_inv buf start (next_lexeme L)"
proof -
  obtain i where "one_lexeme start L i (next_lexeme L)" using next_lexeme_one [OF assms(2,3)] by blast
  then show ?thesis using assms(1) by (auto simp: lexer_inv_def one_lexeme_def)
qed

lemma lookahead_snd:
  assumes "tracked start L" and "names_ok (names L)"
  shows "snd (lookahead L) = L\<lparr>names := names (next_lexeme L)\<rparr>"
proof -
  obtain i where o: "one_lexeme start L i (next_lexeme L)" using next_lexeme_one [OF assms] by blast
  have "braces_step (braceStack L) (braceStack (next_lexeme L))"
    using next_loop_effects [OF assms(2)] by (simp add: next_lexeme_def)
  note b = braces_restored [OF this]
  show ?thesis using o b by (simp add: lookahead_def Let_def one_lexeme_def)
qed

lemma lexer_inv_reachable:
  assumes "reachable_lexer buf t start L" and "names_ok t"
  shows "lexer_inv buf start L"
  using assms(1)
proof induction
  case 1
  have "place buf start 0 = start" by (simp add: place_def)
  then show ?case using assms(2)
    by (auto simp: lexer_inv_def new_lexer_def tracked_def position_def lexeme_at_def span_zero)
next
  case (2 L)
  then show ?case by (intro next_lexeme_inv) (auto simp: lexer_inv_def)
next
  case (3 L)
  let ?M = "consume_while (\<lambda>c. \<not> line_end c) L"
  have "moved L ?M" by (rule moved_consume_while) simp
  then have "buffer ?M = buf" "tracked start ?M" "names_ok (names ?M)" using 3 by (auto simp: lexer_inv_def moved_def)
  then show ?case unfolding nextline_def by (rule next_lexeme_inv)
next
  case (4 L)
  then have "names_ok (names (next_lexeme L))" using next_loop_effects [of L] by (simp add: lexer_inv_def next_lexeme_def)
  then show ?case using lookahead_snd [of start L] 4 by (auto simp: lexer_inv_def)
qed (auto simp: lexer_inv_def setSkipComments_def setReadNames_def)

section \<open>The table of names does not matter\<close>

text \<open>A lexer reads the same with another table of names that knows the reserved words; \<open>same_but_names\<close> compares the results.\<close>

lemma names_commute [simp]:
  "peekch (L\<lparr>names := t\<rparr>) = peekch L" "peekch_at (L\<lparr>names := t\<rparr>) k = peekch_at L k" "position (L\<lparr>names := t\<rparr>) = position L"
  "here p (L\<lparr>names := t\<rparr>) = here p L" "consume (L\<lparr>names := t\<rparr>) = (consume L)\<lparr>names := t\<rparr>"
  "consumeAny (L\<lparr>names := t\<rparr>) = (consumeAny L)\<lparr>names := t\<rparr>"
  "consume_while P (L\<lparr>names := t\<rparr>) = (consume_while P L)\<lparr>names := t\<rparr>"
  by (simp_all add: peekch_def peekch_at_def position_def here_def consume_def consumeAny_def consume_while_eq Let_def)

lemma names_skip_spaces [simp]: "skip_spaces (L\<lparr>names := t\<rparr>) = (skip_spaces L)\<lparr>names := t\<rparr>"
proof (induction L rule: skip_spaces.induct)
  case (1 L)
  then show ?case unfolding skip_spaces.simps [of L] skip_spaces.simps [of "L\<lparr>names := t\<rparr>"] by simp
qed

lemma names_skipLongSeparator [simp]:
  "skipLongSeparator (L\<lparr>names := t\<rparr>) = (fst (skipLongSeparator L), (snd (skipLongSeparator L))\<lparr>names := t\<rparr>)"
  by (simp add: skipLongSeparator_def Let_def)

lemma names_long_string [simp]:
  "long_string_loop sep (L\<lparr>names := t\<rparr>) = (fst (long_string_loop sep L), (snd (long_string_loop sep L))\<lparr>names := t\<rparr>)"
proof (induction sep L rule: long_string_loop.induct)
  case (1 sep L)
  then show ?case unfolding long_string_loop.simps [of sep L] long_string_loop.simps [of sep "L\<lparr>names := t\<rparr>"] by (simp add: Let_def)
qed

lemma names_readLongString [simp]:
  "readLongString p sep ok br (L\<lparr>names := t\<rparr>) = (fst (readLongString p sep ok br L), (snd (readLongString p sep ok br L))\<lparr>names := t\<rparr>)"
  by (simp add: readLongString_def Let_def split: prod.split bool.split)

lemma names_readCommentBody [simp]:
  "readCommentBody (L\<lparr>names := t\<rparr>) = (fst (readCommentBody L), (snd (readCommentBody L))\<lparr>names := t\<rparr>)"
  by (simp add: readCommentBody_def Let_def)

lemma names_backslash [simp]: "readBackslashInString (L\<lparr>names := t\<rparr>) = (readBackslashInString L)\<lparr>names := t\<rparr>"
  by (simp add: readBackslashInString_def Let_def)

lemma names_quoted_char [simp]: "quoted_char (L\<lparr>names := t\<rparr>) = (quoted_char L)\<lparr>names := t\<rparr>"
  by (simp add: quoted_char_def)

lemma names_quoted [simp]: "quoted_loop d (L\<lparr>names := t\<rparr>) = (fst (quoted_loop d L), (snd (quoted_loop d L))\<lparr>names := t\<rparr>)"
proof (induction d L rule: quoted_loop.induct)
  case (1 d L)
  show ?case using 1 [OF refl] unfolding quoted_loop.simps [of d L] quoted_loop.simps [of d "L\<lparr>names := t\<rparr>"]
    by (simp add: Let_def)
qed

lemma names_readQuotedString [simp]:
  "readQuotedString (L\<lparr>names := t\<rparr>) = (fst (readQuotedString L), (snd (readQuotedString L))\<lparr>names := t\<rparr>)"
  by (simp add: readQuotedString_def Let_def split: prod.split bool.split)

lemma names_interp_char [simp]: "interp_char (L\<lparr>names := t\<rparr>) = (interp_char L)\<lparr>names := t\<rparr>"
  by (simp add: interp_char_def)

lemma names_interp [simp]:
  "interp_loop p f e so (L\<lparr>names := t\<rparr>) = (fst (interp_loop p f e so L), (snd (interp_loop p f e so L))\<lparr>names := t\<rparr>)"
proof (induction p f e so L rule: interp_loop.induct)
  case (1 p f e so L)
  show ?case
  proof (cases "peekch L = CHR 0x60 \<or> line_end (peekch L) \<or> peekch L = CHR ''{''")
    case True
    then show ?thesis unfolding interp_loop.simps [of p f e so L] interp_loop.simps [of p f e so "L\<lparr>names := t\<rparr>"]
      by (auto simp: Let_def here_def position_def)
  next
    case False
    then show ?thesis using 1 [OF refl] unfolding interp_loop.simps [of p f e so L] interp_loop.simps [of p f e so "L\<lparr>names := t\<rparr>"]
      by (simp add: Let_def)
  qed
qed

lemma names_utf8_rest [simp]: "utf8_rest n cp (L\<lparr>names := t\<rparr>) = (fst (utf8_rest n cp L), (snd (utf8_rest n cp L))\<lparr>names := t\<rparr>)"
  by (induction n arbitrary: cp L) simp_all

lemma names_readUtf8Error [simp]:
  "readUtf8Error (L\<lparr>names := t\<rparr>) = (fst (readUtf8Error L), (snd (readUtf8Error L))\<lparr>names := t\<rparr>)"
  by (cases "utf8_lead (code (peekch L))") (auto simp: readUtf8Error_def Let_def simp del: utf8_rest.simps split: option.split prod.split)

lemma names_readNumber [simp]:
  "readNumber p so (L\<lparr>names := t\<rparr>) = (fst (readNumber p so L), (snd (readNumber p so L))\<lparr>names := t\<rparr>)"
  by (simp add: readNumber_def Let_def)

definition same_but_names :: "Lexeme \<times> Lexer \<Rightarrow> Lexeme \<times> Lexer \<Rightarrow> bool" where
  "same_but_names r r' \<longleftrightarrow> fst r' = fst r \<and> (\<exists>t. names_ok t \<and> snd r' = (snd r)\<lparr>names := t\<rparr>)"

lemma same_but_namesI: "names_ok t \<Longrightarrow> r' = (fst r, (snd r)\<lparr>names := t\<rparr>) \<Longrightarrow> same_but_names r r'"
  by (auto simp: same_but_names_def)

lemma readName_same:
  assumes "names_ok (names L)" and "names_ok t" and "readNames L" and "name_char (peekch L)"
    and "readName L = (n, ty, M)" and "readName (L\<lparr>names := t\<rparr>) = (n', ty', M')"
  shows "n' = n \<and> ty' = ty \<and> position M' = position M \<and> same_but_names (l, M) (l, M')"
proof -
  let ?T = "L\<lparr>names := t\<rparr>"
  have w: "word_at ?T = word_at L" by (simp add: word_at_def)
  note h = readName_word(2) [OF assms(4)]
  obtain t1 where 1: "getOrAddWithType (names L) (word_at L) = (word_at L, word_type (word_at L), t1)" "names_ok t1"
    using getOrAdd_ok [OF assms(1), of "word_at L"] h by blast
  obtain t2 where 2: "getOrAddWithType t (word_at L) = (word_at L, word_type (word_at L), t2)" "names_ok t2"
    using getOrAdd_ok [OF assms(2), of "word_at L"] h by blast
  have c: "name_char (peekch ?T)" using assms(4) by simp
  show ?thesis
    using assms(3,5,6) 1 2 unfolding readName_eq [OF assms(4)] readName_eq [OF c] Let_def w
    by (auto simp: same_but_names_def)
qed

lemma readNext_same:
  assumes ok: "names_ok (names L)" "names_ok t" and rn: "readNames L" and c: "peekch L \<noteq> NUL"
  shows "same_but_names (readNext L) (readNext (L\<lparr>names := t\<rparr>))"
proof -
  let ?T = "L\<lparr>names := t\<rparr>"
  note I = same_but_namesI [OF ok(2)]
  have fx: "fixed p n ty ?T = (fst (fixed p n ty L), (snd (fixed p n ty L))\<lparr>names := t\<rparr>)" if "n = 1 \<or> n = 2" for p n ty
    using that by (auto simp: fixed_def numeral_2_eq_2)
  have minus: "same_but_names (read_minus p L) (read_minus p ?T)" for p
    by (rule I) (simp add: read_minus_def fx)
  have bracket: "same_but_names (read_bracket p L) (read_bracket p ?T)" for p
    by (rule I) (simp add: read_bracket_def split: prod.split)
  have e: "(consume L)\<lparr>names := t, braceStack := butlast (braceStack L)\<rparr> = (consume L)\<lparr>braceStack := butlast (braceStack L), names := t\<rparr>"
    by simp
  have braces: "same_but_names (read_open_brace p L) (read_open_brace p ?T)" "same_but_names (read_close_brace p L) (read_close_brace p ?T)" for p
    using names_interp [of p InterpStringMid InterpStringEnd "Suc (offset L)" t "(consume L)\<lparr>braceStack := butlast (braceStack L)\<rparr>"]
    by (rule_tac [1] I, rule_tac [2] I)
      (simp_all add: read_open_brace_def read_close_brace_def readInterpolatedStringSection_def Let_def e del: names_interp)
  have dots: "same_but_names (read_dot p L) (read_dot p ?T)" "same_but_names (read_slash p L) (read_slash p ?T)"
      "same_but_names (read_colon p L) (read_colon p ?T)" for p
    by (rule I, simp add: read_dot_def Let_def) (rule I, simp add: read_slash_def read_colon_def Let_def)+
  have equal: "same_but_names (read_equal p d ty L) (read_equal p d ty ?T)" for p d ty
    by (rule I) (simp add: read_equal_def Let_def)
  have quoted: "same_but_names (readQuotedString L) (readQuotedString ?T)" by (rule I) simp
  have interp: "same_but_names (readInterpolatedStringBegin L) (readInterpolatedStringBegin ?T)"
    by (rule I) (simp add: readInterpolatedStringBegin_def readInterpolatedStringSection_def Let_def)
  have word: "same_but_names (case readName K of (n, ty, M) \<Rightarrow> (name_lexeme (here p M) (f ty) n, M))
      (case readName (K\<lparr>names := t\<rparr>) of (n, ty, M) \<Rightarrow> (name_lexeme (here p M) (f ty) n, M))"
    if "name_char (peekch K)" "names K = names L" "readNames K = readNames L" for p K and f :: "Type \<Rightarrow> Type"
  proof -
    obtain n ty M n' ty' M' where r: "readName K = (n, ty, M)" "readName (K\<lparr>names := t\<rparr>) = (n', ty', M')"
      by (metis prod_cases3)
    have "names_ok (names K)" "readNames K" using that ok(1) rn by simp_all
    from readName_same [OF this(1) ok(2) this(2) that(1) r] show ?thesis
      by (auto simp: r same_but_names_def here_def)
  qed
  have at_name: "same_but_names (read_at p L) (read_at p ?T)" for p
  proof (cases "peekch_at L 1 = CHR ''[''")
    case True
    then show ?thesis by (intro I) (simp add: read_at_def fx)
  next
    case False
    show ?thesis
    proof (cases "isAlpha (peekch (consume L)) \<or> peekch (consume L) = CHR ''_''")
      case True
      then have "name_char (peekch (consume L))" by (auto simp: name_char_def)
      from word [OF this, where f = "\<lambda>_. Attribute" and p = p] show ?thesis
        using True False by (simp add: read_at_def Let_def) (simp add: consume_def)
    qed (use False in \<open>auto simp: read_at_def Let_def intro!: I\<close>)
  qed
  have other: "same_but_names (read_other p L) (read_other p ?T)" for p
  proof (cases "\<not> isDigit (peekch L) \<and> (isAlpha (peekch L) \<or> peekch L = CHR ''_'')")
    case True
    then have "name_char (peekch L)" by (auto simp: name_char_def)
    from word [OF this refl refl, where f = "\<lambda>ty. ty" and p = p] show ?thesis
      using True by (simp add: read_other_def Let_def)
  next
    case False
    then show ?thesis by (intro I) (auto simp: read_other_def Let_def fx)
  qed
  have one: "same_but_names (fixed p 1 ty L) (fixed p 1 ty ?T)" for p ty by (rule I) (simp add: fx)
  note all = minus bracket braces dots equal quoted interp at_name other one
  show ?thesis unfolding readNext_def Let_def using c
    by (simp add: all all [simplified] split: option.split)
qed

lemma names_prev: "L\<lparr>names := t, prevLocation := p\<rparr> = L\<lparr>prevLocation := p, names := t\<rparr>" "L\<lparr>names := t, lexeme := l\<rparr> = L\<lparr>lexeme := l, names := t\<rparr>"
  by simp_all

lemma next_round_same:
  assumes "names_ok (names L)" and "names_ok t" and "readNames L"
  shows "\<exists>t'. names_ok t' \<and> next_round u (L\<lparr>names := t\<rparr>) = (next_round u L)\<lparr>names := t'\<rparr>"
proof -
  define K where "K = (if u then (skip_spaces L)\<lparr>prevLocation := location (lexeme (skip_spaces L))\<rparr> else skip_spaces L)"
  have "moved L (skip_spaces L)" by (rule moved_skip_spaces)
  then have K: "names_ok (names K)" "readNames K" using assms(1,3) by (simp_all add: K_def moved_def)
  have r: "next_round u L = (case readNext K of (l, M) \<Rightarrow> M\<lparr>lexeme := l\<rparr>)" by (simp add: next_round_def K_def Let_def)
  have r': "next_round u (L\<lparr>names := t\<rparr>) = (case readNext (K\<lparr>names := t\<rparr>) of (l, M) \<Rightarrow> M\<lparr>lexeme := l\<rparr>)"
    by (simp add: next_round_def K_def Let_def names_prev)
  have "same_but_names (readNext K) (readNext (K\<lparr>names := t\<rparr>))"
  proof (cases "peekch K = NUL")
    case True
    have "peekch (K\<lparr>names := t\<rparr>) = NUL" using True by simp
    from readNext_eof [OF this] readNext_eof [OF True] show ?thesis using assms(2) by (auto simp: same_but_names_def)
  next
    case False
    then show ?thesis by (rule readNext_same [OF K(1) assms(2) K(2)])
  qed
  then obtain t' where "names_ok t'" "fst (readNext (K\<lparr>names := t\<rparr>)) = fst (readNext K)"
      "snd (readNext (K\<lparr>names := t\<rparr>)) = (snd (readNext K))\<lparr>names := t'\<rparr>"
    unfolding same_but_names_def by blast
  then have "next_round u (L\<lparr>names := t\<rparr>) = (next_round u L)\<lparr>names := t'\<rparr>"
    unfolding r r' case_prod_beta by simp
  then show ?thesis using \<open>names_ok t'\<close> by blast
qed

lemma next_loop_same:
  assumes "names_ok (names L)" and "names_ok t" and "readNames L" and "tracked start L"
  shows "\<exists>t'. next_loop skip u (L\<lparr>names := t\<rparr>) = (next_loop skip u L)\<lparr>names := t'\<rparr>"
  using assms
proof (induction skip u L arbitrary: t rule: next_loop.induct)
  case (1 skip u L)
  obtain t' where t': "names_ok t'" "next_round u (L\<lparr>names := t\<rparr>) = (next_round u L)\<lparr>names := t'\<rparr>"
    using next_round_same [OF 1(2,3,4)] by blast
  show ?case
  proof (cases "skip \<and> is_comment (lexeme (next_round u L))")
    case True
    have "one_lexeme start L (offset (skip_spaces L)) (next_round u L)" by (rule next_round_one [OF 1(5,2)])
    then have "names_ok (names (next_round u L))" "readNames (next_round u L)" "tracked start (next_round u L)"
      using 1(4) by (simp_all add: one_lexeme_def)
    from 1(1) [OF refl True this(1) t'(1) this(2,3)] show ?thesis
      using True t'(2) unfolding next_loop.simps [of skip u L] next_loop.simps [of skip u "L\<lparr>names := t\<rparr>"] by (simp add: Let_def)
  next
    case False
    then show ?thesis
      using t'(2) unfolding next_loop.simps [of skip u L] next_loop.simps [of skip u "L\<lparr>names := t\<rparr>"] by (auto simp: Let_def)
  qed
qed

text \<open>Without reading names, \<open>next\<close> leaves the table alone.\<close>

lemma names_unread:
  assumes "\<not> readNames L"
  shows "names (snd (readNext L)) = names L"
proof -
  have w: "names (snd (snd (readName K))) = names K" if "\<not> readNames K" for K
    using that by (simp add: readName_def Let_def consume_while_eq consume_def split: prod.split)
  have 1: "names (snd (read_at p L)) = names L" for p
    using w [of "consume L"] assms by (auto simp: read_at_def fixed_def numeral_2_eq_2 Let_def consume_def split: prod.split)
  have 2: "names (snd (read_other p L)) = names L" for p
    using w [OF assms] by (auto simp: read_other_def fixed_def Let_def split: prod.split)
  have i: "names (snd (interp_loop p f e so K)) = names K" for p f e so K using interp_keeps by blast
  have 3: "names (snd (read_minus p L)) = names L" "names (snd (read_bracket p L)) = names L" "names (snd (read_open_brace p L)) = names L" for p
    by (simp_all add: read_minus_def fixed_def numeral_2_eq_2 read_bracket_def read_open_brace_def Let_def case_prod_beta)
  have 4: "names (snd (read_close_brace p L)) = names L" "names (snd (readInterpolatedStringBegin L)) = names L" for p
    using i by (simp_all add: read_close_brace_def readInterpolatedStringBegin_def readInterpolatedStringSection_def Let_def)
  have 5: "names (snd (read_dot p L)) = names L" "names (snd (read_slash p L)) = names L" "names (snd (read_colon p L)) = names L"
      "names (snd (read_equal p c ty L)) = names L" "names (snd (fixed p 1 ty L)) = names L" for p c ty
    by (simp_all add: read_dot_def read_slash_def read_colon_def read_equal_def fixed_def Let_def)
  show ?thesis unfolding readNext_def Let_def by (simp add: 1 2 3 4 5 5 [simplified] split: option.split)
qed

lemma next_round_unread:
  assumes "\<not> readNames L"
  shows "names (next_round u L) = names L" and "\<not> readNames (next_round u L)"
proof -
  define K where "K = (if u then (skip_spaces L)\<lparr>prevLocation := location (lexeme (skip_spaces L))\<rparr> else skip_spaces L)"
  have "moved L (skip_spaces L)" by (rule moved_skip_spaces)
  then have K: "\<not> readNames K" "names K = names L" using assms by (simp_all add: K_def moved_def)
  have r: "next_round u L = (snd (readNext K))\<lparr>lexeme := fst (readNext K)\<rparr>" by (simp add: next_round_def K_def Let_def case_prod_beta)
  show "names (next_round u L) = names L" using names_unread [OF K(1)] K(2) r by simp
  show "\<not> readNames (next_round u L)"
  proof (cases "peekch K = NUL")
    case True
    then show ?thesis using K(1) r by (simp add: readNext_eof)
  next
    case False
    have "peekch K \<noteq> LF" using skip_spaces_stops [of L] by (auto simp: K_def isSpace_def)
    then have "moved K (snd (readNext K))" using readNext_ok [OF False] by (simp add: read_ok_def reads_def)
    then show ?thesis using K(1) r by (simp add: moved_def)
  qed
qed

lemma next_loop_unread: "\<not> readNames L \<Longrightarrow> names (next_loop skip u L) = names L"
proof (induction skip u L rule: next_loop.induct)
  case (1 skip u L)
  then show ?case using next_round_unread [OF 1(2)] unfolding next_loop.simps [of skip u L] by (auto simp: Let_def)
qed

lemma lookahead_again:
  assumes "tracked start L" and "names_ok (names L)"
  shows "lexeme (next_lexeme (snd (lookahead L))) = fst (lookahead L)"
proof -
  have f: "fst (lookahead L) = lexeme (next_lexeme L)" by (simp add: lookahead_def Let_def)
  have s: "snd (lookahead L) = L\<lparr>names := names (next_lexeme L)\<rparr>" by (rule lookahead_snd [OF assms])
  show ?thesis
  proof (cases "readNames L")
    case True
    have "names_ok (names (next_lexeme L))" using next_loop_effects [OF assms(2)] by (simp add: next_lexeme_def)
    from next_loop_same [OF assms(2) this True assms(1)] obtain t' where
      "next_loop (skipComments L) True (L\<lparr>names := names (next_lexeme L)\<rparr>) = (next_loop (skipComments L) True L)\<lparr>names := t'\<rparr>"
      by blast
    then show ?thesis unfolding f s next_lexeme_def [of "L\<lparr>names := names (next_lexeme L)\<rparr>"] by (simp add: next_lexeme_def [of L])
  next
    case False
    then have "names (next_lexeme L) = names L" by (simp add: next_lexeme_def next_loop_unread)
    then show ?thesis unfolding f s by simp
  qed
qed

section \<open>The end of the text\<close>

lemma peekch_lexeme [simp]: "peekch (L\<lparr>lexeme := l\<rparr>) = peekch L"
  by (simp add: peekch_def)

lemma next_loop_end: "peekch (skip_spaces L) = NUL \<Longrightarrow> lex_type (lexeme (next_loop skip u L)) = Eof \<and> peekch (skip_spaces (next_loop skip u L)) = NUL"
proof -
  assume e: "peekch (skip_spaces L) = NUL"
  define K where "K = (if u then (skip_spaces L)\<lparr>prevLocation := location (lexeme (skip_spaces L))\<rparr> else skip_spaces L)"
  have "next_round u L = K\<lparr>lexeme := plain_lexeme (span (position K) 0) Eof\<rparr>"
    using e by (simp add: next_round_def K_def readNext_eof Let_def)
  then have r: "next_loop skip u L = K\<lparr>lexeme := plain_lexeme (span (position K) 0) Eof\<rparr>"
    unfolding next_loop.simps [of skip u L] by (simp add: Let_def is_comment_def)
  have p: "peekch (K\<lparr>lexeme := l\<rparr>) = NUL" for l using e by (simp add: K_def)
  then have "skip_spaces (K\<lparr>lexeme := l\<rparr>) = K\<lparr>lexeme := l\<rparr>" for l
    unfolding skip_spaces.simps [of "K\<lparr>lexeme := l\<rparr>"] by (simp add: isSpace_def)
  then show ?thesis using r p by simp
qed

lemma next_lexeme_end:
  "peekch (skip_spaces L) = NUL \<Longrightarrow> lex_type (lexeme (next_lexeme L)) = Eof \<and> peekch (skip_spaces (next_lexeme L)) = NUL"
  unfolding next_lexeme_def by (rule next_loop_end)

lemma eof_stays:
  assumes "tracked start L" and "names_ok (names L)" and "lex_type (lexeme (next_lexeme L)) = Eof"
  shows "lex_type (lexeme ((next_lexeme ^^ Suc n) L)) = Eof"
proof -
  have e: "peekch (skip_spaces (next_lexeme L)) = NUL"
  proof -
    obtain i where o: "one_lexeme start L i (next_lexeme L)" using next_lexeme_one [OF assms(1,2)] by blast
    then have p: "peekch (next_lexeme L) = NUL" using assms(3) by (auto simp: one_lexeme_def peekch_def)
    then have "skip_spaces (next_lexeme L) = next_lexeme L"
      unfolding skip_spaces.simps [of "next_lexeme L"] by (simp add: isSpace_def)
    then show ?thesis using p by simp
  qed
  have "lex_type (lexeme ((next_lexeme ^^ Suc n) L)) = Eof \<and> peekch (skip_spaces ((next_lexeme ^^ Suc n) L)) = NUL"
  proof (induction n)
    case 0
    then show ?case using assms(3) e by simp
  next
    case (Suc n)
    from next_lexeme_end [OF Suc [THEN conjunct2]] show ?case by simp
  qed
  then show ?thesis ..
qed

lemma eof_reached:
  assumes "tracked start L" and "names_ok (names L)"
  shows "\<exists>n \<le> Suc (length (buffer L) - offset L). 0 < n \<and> lex_type (lexeme ((next_lexeme ^^ n) L)) = Eof"
  using assms
proof (induction "length (buffer L) - offset L" arbitrary: L rule: less_induct)
  case less
  obtain i where o: "one_lexeme start L i (next_lexeme L)" using next_lexeme_one [OF less.prems] by blast
  show ?case
  proof (cases "lex_type (lexeme (next_lexeme L)) = Eof")
    case True
    then show ?thesis by (intro exI [of _ 1]) simp
  next
    case False
    then have p: "buffer (next_lexeme L) = buffer L" "offset L < offset (next_lexeme L)" "offset (next_lexeme L) \<le> length (buffer L)"
      "tracked start (next_lexeme L)" "names_ok (names (next_lexeme L))" using o by (auto simp: one_lexeme_def)
    then have d: "length (buffer (next_lexeme L)) - offset (next_lexeme L) < length (buffer L) - offset L" by simp
    from less.hyps [OF d p(4,5)] obtain n where "n \<le> Suc (length (buffer L) - offset (next_lexeme L))"
      "lex_type (lexeme ((next_lexeme ^^ n) (next_lexeme L))) = Eof" using p(1) by auto
    then show ?thesis using d p(1) by (intro exI [of _ "Suc n"]) (auto simp: funpow_swap1)
  qed
qed

section \<open>What a lexeme holds\<close>

definition has_text :: "Type \<Rightarrow> bool" where
  "has_text ty \<longleftrightarrow> ty \<in> {RawString, QuotedString, InterpStringBegin, InterpStringMid, InterpStringEnd, InterpStringSimple,
     BrokenInterpDoubleBrace, Number, Comment, BlockComment}"

definition has_name :: "Type \<Rightarrow> bool" where
  "has_name ty \<longleftrightarrow> ty = Name \<or> ty = Attribute \<or> (\<exists>i < length kReserved. ty = Reserved i)"

text \<open>
  What the types of lexemes say of the other fields, as the assertions of the constructors of \<open>Lexeme\<close>: a text exactly for the
  types with text, a name only for the types with a name (\<open>r\<close> tells whether names are read: if so, each of these has one, if
  not, a reserved word still does), a code point only for a broken character.
\<close>

definition typed :: "bool \<Rightarrow> Lexeme \<Rightarrow> bool" where
  "typed r l \<longleftrightarrow> (data l \<noteq> None \<longleftrightarrow> has_text (lex_type l)) \<and>
     (name l \<noteq> None \<longrightarrow> has_name (lex_type l)) \<and>
     (has_name (lex_type l) \<and> (r \<or> lex_type l \<noteq> Name \<and> lex_type l \<noteq> Attribute) \<longrightarrow> name l \<noteq> None) \<and>
     lex_type l \<noteq> Char NUL \<and> (codepoint l \<noteq> 0 \<longrightarrow> lex_type l = BrokenUnicode)"

lemma typed_plain: "\<not> has_text ty \<Longrightarrow> \<not> has_name ty \<Longrightarrow> ty \<noteq> Char NUL \<Longrightarrow> typed r (plain_lexeme loc ty)"
  and typed_data: "has_text ty \<Longrightarrow> typed r (data_lexeme loc ty d n)"
  and typed_name: "has_name ty \<Longrightarrow> (r \<or> ty \<noteq> Name \<and> ty \<noteq> Attribute \<Longrightarrow> k \<noteq> None) \<Longrightarrow> typed r (name_lexeme loc ty k)"
  by (auto simp: typed_def plain_lexeme_def data_lexeme_def name_lexeme_def has_text_def has_name_def)

lemma typed_long: "has_text ok \<Longrightarrow> \<not> has_text br \<Longrightarrow> \<not> has_name br \<Longrightarrow> br \<noteq> Char NUL \<Longrightarrow> typed r (fst (readLongString p sep ok br L))"
  by (simp add: readLongString_def Let_def typed_data typed_plain split: prod.split bool.split)

lemma typed_comment: "typed r (fst (readCommentBody L))"
  by (simp add: readCommentBody_def Let_def typed_data typed_long has_text_def has_name_def)

lemma typed_quoted: "typed r (fst (readQuotedString L))"
  by (simp add: readQuotedString_def Let_def typed_data typed_plain has_text_def has_name_def split: prod.split bool.split)

lemma typed_interp: "has_text f \<Longrightarrow> has_text e \<Longrightarrow> typed r (fst (interp_loop p f e so L))"
proof (induction p f e so L rule: interp_loop.induct)
  case (1 p f e so L)
  show ?case
  proof (cases "peekch L = CHR 0x60 \<or> line_end (peekch L) \<or> peekch L = CHR ''{''")
    case True
    then show ?thesis using 1(2,3) unfolding interp_loop.simps [of p f e so L]
      by (auto simp: Let_def typed_data typed_plain has_text_def has_name_def)
  next
    case False
    then show ?thesis using 1(1) [OF refl] 1(2,3) unfolding interp_loop.simps [of p f e so L] by (simp add: Let_def)
  qed
qed

lemma typed_utf8: "typed r (fst (readUtf8Error L))"
  by (cases "utf8_lead (code (peekch L))")
    (auto simp: readUtf8Error_def Let_def typed_def plain_lexeme_def has_text_def has_name_def simp del: utf8_rest.simps
      split: option.split prod.split)

lemma word_type_has_name: "has_name (word_type w)"
  using word_type_range [of w] by (auto simp: has_name_def)

lemma readName_name: "readName L = (n, ty, M) \<Longrightarrow> readNames L \<or> ty \<noteq> Name \<Longrightarrow> n \<noteq> None"
  by (auto simp: readName_def getWithType_def consume_while_eq consume_def Let_def split: prod.splits if_splits option.splits)

lemma typed_word:
  assumes "names_ok (names L)" and "name_char (peekch L)" and "readName L = (n, ty, M)"
  shows "typed (readNames L) (name_lexeme loc ty n)"
proof -
  obtain n' ty' M' where "readName L = (n', ty', M')" "ty' = word_type (word_at L)" using readName_found [OF assms(1,2)] by metis
  then show ?thesis using assms(3) word_type_has_name readName_name by (intro typed_name) auto
qed

lemma typed_simps [simp]:
  "typed r (plain_lexeme loc (Char c)) \<longleftrightarrow> c \<noteq> NUL"
  "typed r (name_lexeme loc Attribute k) \<longleftrightarrow> (r \<longrightarrow> k \<noteq> None)"
  by (auto simp: typed_def plain_lexeme_def name_lexeme_def has_text_def has_name_def)

lemma readNext_typed:
  assumes ok: "names_ok (names L)"
  shows "typed (readNames L) (fst (readNext L))"
proof -
  have p: "typed r (plain_lexeme loc ty)" if "ty \<in> {Eof, SkinnyArrow, SubAssign, AttributeOpen, Dot3, ConcatAssign, Dot2, DivAssign, FloorDivAssign,
      FloorDiv, DoubleColon, BrokenString, Equal, LessEqual, GreaterEqual, NotEqual, AddAssign, MulAssign, ModAssign, PowAssign}" for loc ty and r
    using that by (intro typed_plain) (auto simp: has_text_def has_name_def)
  have num: "typed r (fst (readNumber q so K))" for q so K r by (simp add: readNumber_def Let_def typed_data has_text_def)
  have eq: "ty \<in> {Equal, LessEqual, GreaterEqual, NotEqual, AddAssign, MulAssign, ModAssign, PowAssign}" if "with_equal c = Some ty" for c ty
    using that by (auto simp: with_equal_def split: if_splits)
  have 1: "typed r (fst (read_minus q L))" "typed r (fst (read_dot q L))" "typed r (fst (read_slash q L))" "typed r (fst (read_colon q L))"
      "typed r (fst (read_open_brace q L))" for q r
    by (simp_all add: read_minus_def read_dot_def read_slash_def read_colon_def read_open_brace_def fixed_def Let_def p num typed_comment)
  have 2: "typed r (fst (read_bracket q L))" for q r
    by (auto simp: read_bracket_def case_prod_beta p typed_long has_text_def has_name_def)
  have 3: "typed r (fst (read_close_brace q L))" "typed r (fst (readInterpolatedStringBegin L))" for q r
    by (auto simp: read_close_brace_def readInterpolatedStringBegin_def readInterpolatedStringSection_def Let_def typed_interp has_text_def)
  have 4: "typed (readNames L) (fst (read_at q L))" for q
    by (auto simp: read_at_def fixed_def Let_def p consume_def split: prod.split dest: readName_name)
  have 5: "typed (readNames L) (fst (read_other q L))" if "peekch L \<noteq> NUL" for q
  proof (cases "\<not> isDigit (peekch L) \<and> (isAlpha (peekch L) \<or> peekch L = CHR ''_'')")
    case True
    then have "name_char (peekch L)" by (auto simp: name_char_def)
    from typed_word [OF ok this] show ?thesis using True by (simp add: read_other_def Let_def split: prod.split)
  next
    case False
    then show ?thesis using that by (auto simp: read_other_def Let_def num typed_utf8 fixed_def)
  qed
  have 6: "typed r (fst (read_equal q c ty L))" if "with_equal c = Some ty" "c \<noteq> NUL" for q c ty r
    using eq [OF that(1)] that(2) by (auto simp: read_equal_def Let_def p)
  show ?thesis unfolding readNext_def Let_def
    by (simp add: 1 2 3 4 5 6 p typed_quoted fixed_def split: option.split)
qed

lemma typed_next_loop: "names_ok (names L) \<Longrightarrow> tracked start L \<Longrightarrow> typed (readNames L) (lexeme (next_loop skip u L))"
proof (induction skip u L rule: next_loop.induct)
  case (1 skip u L)
  define K where "K = (if u then (skip_spaces L)\<lparr>prevLocation := location (lexeme (skip_spaces L))\<rparr> else skip_spaces L)"
  have rn: "readNames K = readNames L" using moved_skip_spaces [of L] by (simp add: K_def moved_def)
  have "names_ok (names K)" using 1(2) by (simp add: K_def)
  moreover have "next_round u L = (snd (readNext K))\<lparr>lexeme := fst (readNext K)\<rparr>" by (simp add: next_round_def K_def Let_def case_prod_beta)
  ultimately have t: "typed (readNames L) (lexeme (next_round u L))" using readNext_typed [of K] rn by simp
  have "one_lexeme start L (offset (skip_spaces L)) (next_round u L)" by (rule next_round_one [OF 1(3,2)])
  then have "names_ok (names (next_round u L))" "tracked start (next_round u L)" "readNames (next_round u L) = readNames L" by (simp_all add: one_lexeme_def)
  then show ?case using 1(1) [OF refl] t unfolding next_loop.simps [of skip u L] by (auto simp: Let_def)
qed

section \<open>Properties\<close>

text \<open>C15. In every state that calls of \<open>next\<close>, \<open>nextline\<close> and \<open>lookahead\<close> reach, with comments skipped or not, the position is the line and
  column that the text before the offset gives, the offset is inside of the text, and the current lexeme lies exactly where its location
  says (up to the braces of a broken \<open>{{\<close>).\<close>

theorem lexer_positions:
  assumes "reachable_lexer buf t start L" and "names_ok t"
  shows "offset L \<le> length buf \<and> position L = place buf start (offset L) \<and>
    (\<exists>i \<le> offset L. lexeme_at buf start (lexeme L) i (offset L))"
  using lexer_inv_reachable [OF assms] by (auto simp: lexer_inv_def tracked_def)

abbreviation origin :: Position where
  "origin \<equiv> \<lparr>pos_line = 0, pos_column = 0\<rparr>"

lemma lexer_positions_witness:
  "position (next_lexeme (new_lexer ''x = 1'' new_names origin)) = place ''x = 1'' origin (offset (next_lexeme (new_lexer ''x = 1'' new_names origin)))"
proof -
  have "reachable_lexer ''x = 1'' new_names origin (next_lexeme (new_lexer ''x = 1'' new_names origin))"
    by (intro reachable_lexer.intros)
  from lexer_positions [OF this new_names_ok] show ?thesis by simp
qed

lemma eof_at_nul:
  assumes "\<not> skipComments L" and "peekch (skip_spaces L) = NUL"
  shows "lex_type (lexeme (next_lexeme L)) = Eof"
  using assms unfolding next_lexeme_def next_loop.simps [of "skipComments L" True L] by (simp add: next_round_def readNext_eof Let_def)

text \<open>C26. The lexemes cover the text: from a reachable state of a lexer that delivers comments (it does not skip them), \<open>next\<close> skips white
  space only and then takes the lexeme at that place, which is not empty, unless it is \<open>Eof\<close>; and \<open>Eof\<close> it is exactly when the
  place is the end of the text or a zero character.\<close>

theorem lexemes_tile:
  assumes "reachable_lexer buf t start L" and "names_ok t" and "\<not> skipComments L"
  shows "\<exists>i. offset L \<le> i \<and> i \<le> offset (next_lexeme L) \<and> (\<forall>k. offset L \<le> k \<and> k < i \<longrightarrow> isSpace (buf ! k)) \<and>
    lexeme_at buf start (lexeme (next_lexeme L)) i (offset (next_lexeme L)) \<and>
    (lex_type (lexeme (next_lexeme L)) = Eof \<longleftrightarrow> i = offset (next_lexeme L)) \<and>
    (lex_type (lexeme (next_lexeme L)) = Eof \<longleftrightarrow> i = length buf \<or> buf ! i = NUL)"
proof -
  have "tracked start L" "names_ok (names L)" and b: "buffer L = buf"
    using lexer_inv_reachable [OF assms(1,2)] by (simp_all add: lexer_inv_def)
  note o = next_lexeme_exact [OF this(1,2) assms(3)]
  have "lex_type (lexeme (next_lexeme L)) = Eof"
    if "offset (skip_spaces L) = length buf \<or> buf ! offset (skip_spaces L) = NUL"
    using that b skip_spaces_mono [of L] by (intro eof_at_nul [OF assms(3)]) (auto simp: peekch_def)
  moreover have "lex_type (lexeme (next_lexeme L)) = Eof \<longleftrightarrow> offset (skip_spaces L) = offset (next_lexeme L)"
    and "offset (skip_spaces L) = offset (next_lexeme L) \<longrightarrow> offset (skip_spaces L) = length buf \<or> buf ! offset (skip_spaces L) = NUL"
    and "offset L \<le> offset (skip_spaces L)" and "offset (skip_spaces L) \<le> offset (next_lexeme L)"
    and "lexeme_at buf start (lexeme (next_lexeme L)) (offset (skip_spaces L)) (offset (next_lexeme L))"
    using o unfolding one_lexeme_def b by blast+
  moreover have "\<forall>k. offset L \<le> k \<and> k < offset (skip_spaces L) \<longrightarrow> isSpace (buf ! k)"
    using skip_spaces_spaces [of L] b by blast
  ultimately show ?thesis by (intro exI [of _ "offset (skip_spaces L)"]) blast
qed

text \<open>A zero character in the middle of a text ends it.\<close>

lemma lexemes_tile_witness:
  "\<exists>i. (\<forall>k < i. isSpace ([CHR '' '', NUL, CHR ''x''] ! k)) \<and>
    (lex_type (lexeme (next_lexeme (new_lexer [CHR '' '', NUL, CHR ''x''] new_names origin))) = Eof \<longleftrightarrow>
      i = 3 \<or> [CHR '' '', NUL, CHR ''x''] ! i = NUL)"
proof -
  define buf where "buf = [CHR '' '', NUL, CHR ''x'']"
  let ?L = "new_lexer buf new_names origin"
  have n: "\<not> skipComments ?L" "offset ?L = 0" "length buf = 3" by (simp_all add: new_lexer_def buf_def)
  from lexemes_tile [OF reachable_lexer.intros(1) new_names_ok n(1)] obtain i where
    i: "\<forall>k. 0 \<le> k \<and> k < i \<longrightarrow> isSpace (buf ! k)" "lex_type (lexeme (next_lexeme ?L)) = Eof \<longleftrightarrow> i = 3 \<or> buf ! i = NUL"
    unfolding n(2,3) by blast
  have "\<forall>k < i. isSpace (buf ! k)" by (intro allI impI, rule i(1) [rule_format], intro conjI le0)
  then have "(\<forall>k < i. isSpace (buf ! k)) \<and> (lex_type (lexeme (next_lexeme ?L)) = Eof \<longleftrightarrow> i = 3 \<or> buf ! i = NUL)"
    using i(2) by (rule conjI)
  then show ?thesis unfolding buf_def by (rule exI [of _ i])
qed

text \<open>C18. Looking ahead has no effect but on the table of names: offset, line, current lexeme, previous location and the stack of braces are
  as before, whatever was read, and the next call of \<open>next\<close> returns the lexeme that was seen.\<close>

theorem lookahead_pure:
  assumes "reachable_lexer buf t start L" and "names_ok t"
  shows "fst (lookahead L) = lexeme (next_lexeme L) \<and> snd (lookahead L) = L\<lparr>names := names (next_lexeme L)\<rparr> \<and>
    lexeme (next_lexeme (snd (lookahead L))) = fst (lookahead L)"
proof -
  have "tracked start L" "names_ok (names L)" using lexer_inv_reachable [OF assms] by (simp_all add: lexer_inv_def)
  then show ?thesis using lookahead_snd lookahead_again by (simp add: lookahead_def Let_def)
qed

lemma lookahead_pure_witness:
  "lexeme (next_lexeme (snd (lookahead (new_lexer ''{}'' new_names origin)))) = fst (lookahead (new_lexer ''{}'' new_names origin))"
  using lookahead_pure [OF reachable_lexer.intros(1) new_names_ok] by blast

text \<open>C29. The end of the text is reached: from every reachable state at most as many calls of \<open>next\<close> as characters are left, and one more,
  return \<open>Eof\<close>, and from then on every call does.\<close>

theorem lexer_ends:
  assumes "reachable_lexer buf t start L" and "names_ok t"
  shows "\<exists>n. 0 < n \<and> n \<le> Suc (length buf - offset L) \<and> (\<forall>m \<ge> n. lex_type (lexeme ((next_lexeme ^^ m) L)) = Eof)"
proof -
  have L: "tracked start L" "names_ok (names L)" and b: "buffer L = buf"
    using lexer_inv_reachable [OF assms] by (simp_all add: lexer_inv_def)
  obtain n where n: "0 < n" "n \<le> Suc (length buf - offset L)" "lex_type (lexeme ((next_lexeme ^^ n) L)) = Eof"
    using eof_reached [OF L] b by blast
  then obtain k where k: "n = Suc k" by (cases n) auto
  have "tracked start ((next_lexeme ^^ k) L) \<and> names_ok (names ((next_lexeme ^^ k) L))"
  proof (induction k)
    case (Suc k)
    then show ?case using next_lexeme_one [of start "(next_lexeme ^^ k) L"] by (auto simp: one_lexeme_def)
  qed (simp add: L)
  moreover have "lex_type (lexeme (next_lexeme ((next_lexeme ^^ k) L))) = Eof" using n(3) k by simp
  ultimately have e: "lex_type (lexeme ((next_lexeme ^^ Suc j) ((next_lexeme ^^ k) L))) = Eof" for j using eof_stays by blast
  have "lex_type (lexeme ((next_lexeme ^^ m) L)) = Eof" if "m \<ge> n" for m
  proof -
    have "m = Suc (m - n) + k" using that k by simp
    then show ?thesis using e [of "m - n"] by (metis funpow_add comp_apply)
  qed
  then show ?thesis using n(1,2) by blast
qed

lemma lexer_ends_witness:
  "\<exists>n. 0 < n \<and> n \<le> 4 \<and> (\<forall>m \<ge> n. lex_type (lexeme ((next_lexeme ^^ m) (new_lexer ''a+1'' new_names origin))) = Eof)"
  using lexer_ends [OF reachable_lexer.intros(1) [of "''a+1''" new_names origin] new_names_ok] by (simp add: new_lexer_def eval_nat_numeral)

text \<open>C34. Every lexeme has the fields that its type calls for: a text exactly for strings, numbers and comments; a name only for names,
  attributes and reserved words, and each of these has one when names are read (\<open>setReadNames\<close>), a reserved word also when they are
  not; a code point other than 0 only for a broken character; and no lexeme is a plain character of code 0.\<close>

theorem lexeme_typed:
  assumes "reachable_lexer buf t start L" and "names_ok t"
  shows "typed (readNames L) (lexeme (next_lexeme L))"
proof -
  have "tracked start L" "names_ok (names L)" using lexer_inv_reachable [OF assms] by (simp_all add: lexer_inv_def)
  then show ?thesis unfolding next_lexeme_def by (intro typed_next_loop)
qed

lemma lexeme_typed_witness: "typed True (lexeme (next_lexeme (new_lexer ''while'' new_names origin)))"
  using lexeme_typed [OF reachable_lexer.intros(1) [of "''while''" new_names origin] new_names_ok] by (simp add: new_lexer_def)

end
