(* ===== verification/StringUtils.thy ===== *)
theory StringUtils
  imports Prelude
begin

text \<open>
  The string utilities of \<open>Common/src/StringUtils.cpp\<close> that do not print through \<open>vsnprintf\<close>: joining, splitting, stripping, hashing
  and escaping. \<open>%03u\<close> of a byte is \<open>show_nat\<close> padded with zeros.
\<close>

unbundle bit_operations_syntax

section \<open>Model\<close>

text \<open>The copying loop of \<open>joinImpl\<close>, after the first segment.\<close>

fun join_rest :: "string list \<Rightarrow> string \<Rightarrow> string" where
  "join_rest [] delimiter = []"
| "join_rest (s # ss) delimiter = delimiter @ s @ join_rest ss delimiter"

definition joinImpl :: "string list \<Rightarrow> string \<Rightarrow> string" where
  "joinImpl segments delimiter = (case segments of [] \<Rightarrow> [] | s # ss \<Rightarrow> s @ join_rest ss delimiter)"

text \<open>\<open>string_view::find\<close> of a character.\<close>

definition find_char :: "string \<Rightarrow> char \<Rightarrow> nat option" where
  "find_char s c = find (\<lambda>i. s ! i = c) [0..<length s]"

lemma find_char_Some: "find_char s c = Some i \<Longrightarrow> i < length s"
  by (auto simp: find_char_def find_Some_iff)

function split_delimiter :: "string \<Rightarrow> char \<Rightarrow> string list" where
  "split_delimiter s delimiter =
     (if s \<noteq> [] then
        case find_char s delimiter of
          None \<Rightarrow> [s]
        | Some index \<Rightarrow> take index s # split_delimiter (drop (index + 1) s) delimiter
      else [])"
  by pat_completeness auto

termination
  by (relation "measure (\<lambda>(s, d). length s)") (auto dest: find_char_Some)

declare split_delimiter.simps [simp del]

definition startsWith :: "string \<Rightarrow> string \<Rightarrow> bool" where
  "startsWith haystack needle \<longleftrightarrow> length haystack \<ge> length needle \<and> take (length needle) haystack = needle"

definition to_lower :: "char \<Rightarrow> char" where
  "to_lower c = (if (65 :: nat) \<le> of_char c \<and> of_char c \<le> (90 :: nat) then char_of (of_char c + (32 :: nat)) else c)"

definition equalsLower :: "string \<Rightarrow> string \<Rightarrow> bool" where
  "equalsLower lhs rhs \<longleftrightarrow>
     (if length lhs \<noteq> length rhs then False else list_all (\<lambda>i. to_lower (lhs ! i) = to_lower (rhs ! i)) [0..<length lhs])"

text \<open>FNV-1a.\<close>

definition hashRange :: "string \<Rightarrow> 32 word" where
  "hashRange data = foldl (\<lambda>hash c. (hash XOR of_char c) * 16777619) 2166136261 data"

definition isIdentifier :: "string \<Rightarrow> bool" where
  "isIdentifier s \<longleftrightarrow> list_all (\<lambda>c. c \<in> set ''abcdefghijklmnopqrstuvwxyzABCDEFGHIJKLMNOPQRSTUVWXYZ01234567890_'') s"

definition isWhitespace :: "char \<Rightarrow> bool" where
  "isWhitespace c \<longleftrightarrow> c = CHR '' '' \<or> c = CHR 0x0A \<or> c = CHR 0x0D \<or> c = CHR 0x09"

definition strip :: "string \<Rightarrow> string" where
  "strip s = (let s = dropWhile isWhitespace s in rev (dropWhile isWhitespace (rev s)))"

text \<open>\<open>%03u\<close> of a byte.\<close>

definition three_digits :: "char \<Rightarrow> string" where
  "three_digits c = (let s = show_nat (of_char c) in replicate (3 - length s) (CHR ''0'') @ s)"

definition escape_letter :: "char \<Rightarrow> char option" where
  "escape_letter = map_of [(CHR 0x07, CHR ''a''), (CHR 0x08, CHR ''b''), (CHR 0x0C, CHR ''f''), (CHR 0x0A, CHR ''n''), (CHR 0x0D, CHR ''r''),
     (CHR 0x09, CHR ''t''), (CHR 0x0B, CHR ''v''), (CHR 0x27, CHR 0x27), (CHR 0x22, CHR 0x22), (CHR 0x5C, CHR 0x5C)]"

definition escape_char :: "bool \<Rightarrow> char \<Rightarrow> string" where
  "escape_char escapeForInterpString c =
     (if (32 :: nat) \<le> of_char c \<and> c \<noteq> CHR 0x5C \<and> c \<noteq> CHR 0x27 \<and> c \<noteq> CHR 0x22 \<and> c \<noteq> CHR 0x60 \<and> c \<noteq> CHR ''{'' then [c]
      else
        CHR 0x5C #
        (if escapeForInterpString \<and> (c = CHR 0x60 \<or> c = CHR ''{'') then [c]
         else case escape_letter c of Some l \<Rightarrow> [l] | None \<Rightarrow> three_digits c))"

definition escape :: "string \<Rightarrow> bool \<Rightarrow> string" where
  "escape s escapeForInterpString = concat (map (escape_char escapeForInterpString) s)"

section \<open>Joining and splitting\<close>

lemma find_char_split: "find_char s c = Some i \<Longrightarrow> c \<notin> set (take i s) \<and> s = take i s @ c # drop (i + 1) s"
proof -
  assume "find_char s c = Some i"
  then have i: "i < length s" "s ! i = c" "\<forall>j < i. s ! j \<noteq> c" by (auto simp: find_char_def find_Some_iff)
  then have "c \<notin> set (take i s)" by (auto simp: in_set_conv_nth)
  moreover have "s = take i s @ c # drop (i + 1) s" using i id_take_nth_drop [of i s] by simp
  ultimately show ?thesis ..
qed

lemma find_char_None: "find_char s c = None \<longleftrightarrow> c \<notin> set s"
  by (auto simp: find_char_def find_None_iff in_set_conv_nth)

lemma join_pieces: "s = [] \<or> last s \<noteq> d \<Longrightarrow> joinImpl (split_delimiter s d) [d] = s"
proof (induction s d rule: split_delimiter.induct)
  case (1 s d)
  show ?case
  proof (cases "s = [] \<or> d \<notin> set s")
    case True
    then show ?thesis unfolding split_delimiter.simps [of s d] by (auto simp: joinImpl_def find_char_None [symmetric])
  next
    case False
    then obtain i where i: "find_char s d = Some i" using find_char_None [of s d] by auto
    have s: "s = take i s @ d # drop (i + 1) s" using find_char_split [OF i] by blast
    have ne: "drop (i + 1) s \<noteq> []" using 1(2) False s by (metis last_snoc)
    then have l: "last (drop (i + 1) s) \<noteq> d" using 1(2) False by (metis last_drop drop_eq_Nil not_less)
    have "split_delimiter s d = take i s # split_delimiter (drop (i + 1) s) d"
      using False i unfolding split_delimiter.simps [of s d] by simp
    moreover have "split_delimiter (drop (i + 1) s) d \<noteq> []"
      using ne unfolding split_delimiter.simps [of "drop (i + 1) s" d] by (simp split: option.split)
    then obtain w ws where w: "split_delimiter (drop (i + 1) s) d = w # ws" by (cases "split_delimiter (drop (i + 1) s) d") auto
    moreover have "w @ join_rest ws [d] = drop (i + 1) s" using 1(1) [OF _ i] False l w by (simp add: joinImpl_def)
    ultimately show ?thesis using s by (simp add: joinImpl_def)
  qed
qed

lemma pieces_clean: "w \<in> set (split_delimiter s d) \<Longrightarrow> d \<notin> set w"
proof (induction s d rule: split_delimiter.induct)
  case (1 s d)
  show ?case
  proof (cases "find_char s d")
    case None
    then show ?thesis using 1(2) find_char_None [of s d] unfolding split_delimiter.simps [of s d] by (auto split: if_splits)
  next
    case (Some i)
    then show ?thesis using 1 find_char_split [OF Some] unfolding split_delimiter.simps [of s d] by (auto split: if_splits)
  qed
qed

text \<open>Splitting and joining are inverse: the pieces of \<open>split\<close> hold no delimiter, and \<open>join\<close> puts every text together again that does not
  end in the delimiter (whose last, empty piece \<open>split\<close> drops).\<close>

theorem join_split:
  "(s = [] \<or> last s \<noteq> d \<longrightarrow> joinImpl (split_delimiter s d) [d] = s) \<and> (\<forall>w \<in> set (split_delimiter s d). d \<notin> set w)"
  using join_pieces pieces_clean by blast

lemma join_split_witness: "joinImpl (split_delimiter ''a,,b'' (CHR '','')) '','' = ''a,,b''"
  using join_split [of "''a,,b''" "CHR '',''"] by simp

end
