(* ===== verification/LexString.thy ===== *)
theory LexString
  imports LexProps StringUtils
begin

text \<open>
  The texts of string lexemes: \<open>fixupQuotedString\<close> and \<open>fixupMultilineString\<close> of \<open>Ast/src/Lexer.cpp\<close>, which rewrite a text in place,
  against functions that only read it, and the way of a string through \<open>escape\<close>, the lexer and back.
\<close>

section \<open>Model\<close>

definition unescape :: "char \<Rightarrow> char" where
  "unescape = (\<lambda>ch. case map_of [(CHR ''a'', CHR 0x07), (CHR ''b'', CHR 0x08), (CHR ''f'', CHR 0x0C), (CHR ''n'', CHR 0x0A),
     (CHR ''r'', CHR 0x0D), (CHR ''t'', CHR 0x09), (CHR ''v'', CHR 0x0B)] ch of Some c \<Rightarrow> c | None \<Rightarrow> ch)"

definition to_char :: "u32 \<Rightarrow> char" where
  "to_char cp = char_of (unat cp)"

text \<open>The bytes that \<open>toUtf8\<close> writes; none for a code that is too large.\<close>

definition toUtf8 :: "u32 \<Rightarrow> string" where
  "toUtf8 cp =
     (if cp < 0x80 then [to_char cp]
      else if cp < 0x800 then [to_char (0xC0 OR drop_bit 6 cp), to_char (0x80 OR (cp AND 0x3F))]
      else if cp < 0x10000 then
        [to_char (0xE0 OR drop_bit 12 cp), to_char (0x80 OR (drop_bit 6 cp AND 0x3F)), to_char (0x80 OR (cp AND 0x3F))]
      else if cp < 0x110000 then
        [to_char (0xF0 OR drop_bit 18 cp), to_char (0x80 OR (drop_bit 12 cp AND 0x3F)), to_char (0x80 OR (drop_bit 6 cp AND 0x3F)),
         to_char (0x80 OR (cp AND 0x3F))]
      else [])"

text \<open>\<open>data[i]\<close>: the string ends in a zero that may be read.\<close>

definition char_in :: "string \<Rightarrow> nat \<Rightarrow> char" where
  "char_in d i = (if i < length d then d ! i else NUL)"

definition hex_value :: "char \<Rightarrow> u32" where
  "hex_value ch = (if isDigit ch then of_char ch - 48 else (of_char ch OR 32) - 97 + 10)"

text \<open>The loop over the hexadecimal digits of \<open>\u{}\<close>: at most 16 of them, in 32 bits.\<close>

fun unicode_loop :: "nat \<Rightarrow> string \<Rightarrow> nat \<Rightarrow> u32 \<Rightarrow> (u32 \<times> nat) option" where
  "unicode_loop 0 d i cp = Some (cp, i)"
| "unicode_loop (Suc n) d i cp =
     (if i = length d then None
      else if char_in d i = CHR ''}'' then Some (cp, i)
      else if \<not> isHexDigit (char_in d i) then None
      else unicode_loop n d (i + 1) (16 * cp + hex_value (char_in d i)))"

fun decimal_loop :: "nat \<Rightarrow> string \<Rightarrow> nat \<Rightarrow> u32 \<Rightarrow> u32 \<times> nat" where
  "decimal_loop 0 d i cp = (cp, i)"
| "decimal_loop (Suc n) d i cp =
     (if i = length d \<or> \<not> isDigit (char_in d i) then (cp, i)
      else decimal_loop n d (i + 1) (10 * cp + (of_char (char_in d i) - 48)))"

text \<open>
  An escape sequence at the backslash at \<open>i\<close>: the bytes to write and the place behind it, or \<open>None\<close> where the code returns false. In
  the code the newline of \<open>\r\<close> is written before the next character is looked at, which lies behind the place that is written.
\<close>

definition read_hex :: "string \<Rightarrow> nat \<Rightarrow> (string \<times> nat) option" where
  "read_hex d i =
     (if i + 2 > length d then None
      else if \<not> isHexDigit (char_in d i) \<or> \<not> isHexDigit (char_in d (i + 1)) then None
      else Some ([to_char (16 * hex_value (char_in d i) + hex_value (char_in d (i + 1)))], i + 2))"

definition read_unicode :: "string \<Rightarrow> nat \<Rightarrow> (string \<times> nat) option" where
  "read_unicode d i =
     (if i + 3 > length d then None
      else if char_in d i \<noteq> CHR ''{'' then None
      else if char_in d (i + 1) = CHR ''}'' then None
      else
        case unicode_loop 16 d (i + 1) 0 of
          None \<Rightarrow> None
        | Some (cp, i) \<Rightarrow>
            if i = length d \<or> char_in d i \<noteq> CHR ''}'' then None
            else if toUtf8 cp = [] then None
            else Some (toUtf8 cp, i + 1))"

definition read_decimal :: "string \<Rightarrow> nat \<Rightarrow> char \<Rightarrow> (string \<times> nat) option" where
  "read_decimal d i digit =
     (let (cp, i) = decimal_loop 2 d i (of_char digit - 48) in if cp > 255 then None else Some ([to_char cp], i))"

definition skip_blank :: "string \<Rightarrow> nat \<Rightarrow> nat" where
  "skip_blank d i = i + length (takeWhile isSpace (drop i d))"

definition read_escape :: "string \<Rightarrow> nat \<Rightarrow> (string \<times> nat) option" where
  "read_escape d i =
     (if i + 1 = length d then None
      else
        let e = char_in d (i + 1); i = i + 2 in
        if e = LF then Some ([LF], i)
        else if e = CR then Some ([LF], if i < length d \<and> char_in d i = LF then i + 1 else i)
        else if e = NUL then None
        else if e = CHR ''x'' then read_hex d i
        else if e = CHR ''z'' then Some ([], skip_blank d i)
        else if e = CHR ''u'' then read_unicode d i
        else if isDigit e then read_decimal d i e
        else Some ([unescape e], i))"

fun write_at :: "string \<Rightarrow> nat \<Rightarrow> string \<Rightarrow> string" where
  "write_at d w [] = d"
| "write_at d w (c # cs) = write_at (d[w := c]) (w + 1) cs"

lemma length_write_at [simp]: "length (write_at d w cs) = length d"
  by (induction d w cs rule: write_at.induct) simp_all

lemma unicode_loop_progress: "unicode_loop n d i cp = Some (cp', j) \<Longrightarrow> i \<le> j"
  by (induction n d i cp rule: unicode_loop.induct) (auto split: if_splits)

lemma decimal_loop_progress: "decimal_loop n d i cp = (cp', j) \<Longrightarrow> i \<le> j"
  by (induction n d i cp rule: decimal_loop.induct) (auto split: if_splits)

lemma read_escape_progress: "read_escape d i = Some (out, j) \<Longrightarrow> i < j"
  by (auto simp: read_escape_def read_hex_def read_unicode_def read_decimal_def skip_blank_def Let_def
      dest!: unicode_loop_progress decimal_loop_progress split: if_splits option.splits prod.splits)

function fixup_loop :: "string \<Rightarrow> nat \<Rightarrow> nat \<Rightarrow> bool \<times> string \<times> nat" where
  "fixup_loop d i w =
     (if i < length d then
        if char_in d i \<noteq> CHR 0x5C then fixup_loop (d[w := char_in d i]) (i + 1) (w + 1)
        else
          case read_escape d i of
            None \<Rightarrow> (False, d, w)
          | Some (out, j) \<Rightarrow> fixup_loop (write_at d w out) j (w + length out)
      else (True, d, w))"
  by pat_completeness auto

termination
  by (relation "measure (\<lambda>(d, i, w). length d - i)") (auto dest: read_escape_progress)

declare fixup_loop.simps [simp del]

definition fixupQuotedString :: "string \<Rightarrow> bool \<times> string" where
  "fixupQuotedString d =
     (if d = [] \<or> CHR 0x5C \<notin> set d then (True, d)
      else case fixup_loop d 0 0 of (ok, d, w) \<Rightarrow> (ok, if ok then take w d else d))"

text \<open>\<open>fixupMultilineString\<close>: a C string, read up to its zero; the writing position never overtakes the reading one.\<close>

function multiline_loop :: "string \<Rightarrow> nat \<Rightarrow> nat \<Rightarrow> string \<times> nat" where
  "multiline_loop d src dst =
     (if src < length d \<and> char_in d src \<noteq> NUL then
        if char_in d src = CR \<and> char_in d (src + 1) = LF then multiline_loop (d[dst := LF]) (src + 2) (dst + 1)
        else multiline_loop (d[dst := char_in d src]) (src + 1) (dst + 1)
      else (d, dst))"
  by pat_completeness auto

termination
  by (relation "measure (\<lambda>(d, src, dst). length d - src)") auto

declare multiline_loop.simps [simp del]

definition fixupMultilineString :: "string \<Rightarrow> string" where
  "fixupMultilineString d =
     (if d = [] then d
      else
        let src = (if char_in d 0 = CR \<and> char_in d 1 = LF then 2 else if char_in d 0 = LF then 1 else 0);
            (d, dst) = multiline_loop d src 0
        in take dst d)"

text \<open>How the parser takes the text of a lexeme from the buffer.\<close>

definition lexeme_text :: "Lexer \<Rightarrow> string" where
  "lexeme_text L = (case data (lexeme L) of Some d \<Rightarrow> take (length_of (lexeme L)) (drop d (buffer L)) | None \<Rightarrow> [])"

section \<open>In place and not\<close>

text \<open>The value of a text, read without writing.\<close>

function quoted_value :: "string \<Rightarrow> nat \<Rightarrow> string option" where
  "quoted_value d i =
     (if i < length d then
        if char_in d i \<noteq> CHR 0x5C then map_option (Cons (char_in d i)) (quoted_value d (i + 1))
        else case read_escape d i of None \<Rightarrow> None | Some (out, j) \<Rightarrow> map_option (append out) (quoted_value d j)
      else Some [])"
  by pat_completeness auto

termination
  by (relation "measure (\<lambda>(d, i). length d - i)") (auto dest: read_escape_progress)

declare quoted_value.simps [simp del]

definition agree :: "string \<Rightarrow> string \<Rightarrow> nat \<Rightarrow> bool" where
  "agree d e i \<longleftrightarrow> length d = length e \<and> drop i d = drop i e"

lemma agree_drop: "agree d e i \<Longrightarrow> i \<le> k \<Longrightarrow> drop k d = drop k e"
proof -
  assume a: "agree d e i" "i \<le> k"
  have "drop k d = drop (k - i) (drop i d)" "drop k e = drop (k - i) (drop i e)" using a(2) by simp_all
  moreover have "drop i d = drop i e" using a(1) by (simp add: agree_def)
  ultimately show ?thesis by argo
qed

lemma char_in_hd: "char_in d k = (case drop k d of [] \<Rightarrow> NUL | c # _ \<Rightarrow> c)"
  by (cases "k < length d") (simp_all add: char_in_def flip: Cons_nth_drop_Suc)

lemma agree_char: "agree d e i \<Longrightarrow> i \<le> k \<Longrightarrow> char_in d k = char_in e k"
  by (simp add: char_in_hd agree_drop)

lemma agree_later: "agree d e i \<Longrightarrow> i \<le> k \<Longrightarrow> agree d e k"
  using agree_drop [of d e i k] unfolding agree_def [of d e k] by (simp add: agree_def [of d e i])

lemma agree_unicode: "agree d e i \<Longrightarrow> unicode_loop n d i cp = unicode_loop n e i cp"
proof (induction n d i cp rule: unicode_loop.induct)
  case (2 n d i cp)
  then show ?case using agree_char [OF 2(2), of i] agree_later [OF 2(2), of "i + 1"] by (auto simp: agree_def)
qed simp

lemma agree_decimal: "agree d e i \<Longrightarrow> decimal_loop n d i cp = decimal_loop n e i cp"
proof (induction n d i cp rule: decimal_loop.induct)
  case (2 n d i cp)
  then show ?case using agree_char [OF 2(2), of i] agree_later [OF 2(2), of "i + 1"] by (auto simp: agree_def)
qed simp

lemma agree_escape:
  assumes "agree d e i"
  shows "read_escape d i = read_escape e i"
proof -
  have c: "char_in d k = char_in e k" if "i \<le> k" for k by (rule agree_char [OF assms that])
  have l: "length d = length e" using assms by (simp add: agree_def)
  have "agree d e (i + 2)" "agree d e (i + 3)" using agree_later [OF assms] by simp_all
  then have u: "unicode_loop 16 d (i + 3) 0 = unicode_loop 16 e (i + 3) 0" and n: "decimal_loop 2 d (i + 2) x = decimal_loop 2 e (i + 2) x"
    and s: "drop (i + 2) d = drop (i + 2) e" for x
    by (simp_all add: agree_unicode agree_decimal) (simp add: agree_def)
  have h: "read_hex d (i + 2) = read_hex e (i + 2)" by (simp add: read_hex_def c l)
  have "(case unicode_loop 16 e (i + 3) 0 of None \<Rightarrow> None
      | Some (cp, k) \<Rightarrow> if k = length d \<or> char_in d k \<noteq> CHR ''}'' then None else if toUtf8 cp = [] then None else Some (toUtf8 cp, k + 1)) =
    (case unicode_loop 16 e (i + 3) 0 of None \<Rightarrow> None
      | Some (cp, k) \<Rightarrow> if k = length e \<or> char_in e k \<noteq> CHR ''}'' then None else if toUtf8 cp = [] then None else Some (toUtf8 cp, k + 1))"
  proof (cases "unicode_loop 16 e (i + 3) 0")
    case (Some p)
    then show ?thesis using unicode_loop_progress [of 16 e "i + 3" 0 "fst p" "snd p"] c [of "snd p"] l by (cases p) simp
  qed simp
  then have "read_unicode d (i + 2) = read_unicode e (i + 2)"
    unfolding read_unicode_def using c [of "i + 2"] c [of "i + 3"] l u by (simp add: numeral_3_eq_3)
  moreover have "read_decimal d (i + 2) x = read_decimal e (i + 2) x" for x unfolding read_decimal_def n ..
  moreover have "skip_blank d (i + 2) = skip_blank e (i + 2)" unfolding skip_blank_def s ..
  ultimately show ?thesis
    unfolding read_escape_def Let_def using c [of "i + 1"] c [of "i + 2"] h l by simp
qed

lemma toUtf8_length: "length (toUtf8 cp) \<le> 4"
  by (simp add: toUtf8_def)

lemma unicode_loop_bound: "unicode_loop n d i cp = Some (cp', j) \<Longrightarrow> i \<le> length d \<Longrightarrow> j \<le> length d"
  by (induction n d i cp rule: unicode_loop.induct) (auto split: if_splits)

lemma decimal_loop_bound: "decimal_loop n d i cp = (cp', j) \<Longrightarrow> i \<le> length d \<Longrightarrow> j \<le> length d"
  by (induction n d i cp rule: decimal_loop.induct) (auto split: if_splits)

lemma unicode_loop_reads:
  assumes "unicode_loop (Suc n) d i cp = Some (cp', j)" and "char_in d i \<noteq> CHR ''}''"
  shows "i < j"
  using assms unicode_loop_progress [of n d "i + 1"] by (auto split: if_splits dest!: unicode_loop_progress)

lemma skip_blank_bound: "i \<le> length d \<Longrightarrow> i \<le> skip_blank d i \<and> skip_blank d i \<le> length d"
  using length_takeWhile_le [of isSpace "drop i d"] by (simp add: skip_blank_def)

definition fits :: "string \<Rightarrow> nat \<Rightarrow> (string \<times> nat) option \<Rightarrow> bool" where
  "fits d i r \<longleftrightarrow> (case r of None \<Rightarrow> True | Some (out, j) \<Rightarrow> length out \<le> j - i \<and> i < j \<and> j \<le> length d)"

lemma fits_if: "(c \<Longrightarrow> fits d i r) \<Longrightarrow> (\<not> c \<Longrightarrow> fits d i s) \<Longrightarrow> fits d i (if c then r else s)"
  by simp

lemma fits_hex: "fits d i (read_hex d (i + 2))"
  by (simp add: fits_def read_hex_def)

lemma fits_unicode: "fits d i (read_unicode d (i + 2))"
proof (cases "read_unicode d (i + 2)")
  case (Some p)
  obtain out j where p: "read_unicode d (i + 2) = Some (out, j)" using Some by (cases p) simp
  then obtain cp k where k: "unicode_loop 16 d (i + 3) 0 = Some (cp, k)" "out = toUtf8 cp" "j = k + 1" "k \<noteq> length d"
    and g: "i + 5 \<le> length d" "char_in d (i + 3) \<noteq> CHR ''}''"
    unfolding read_unicode_def by (auto simp: numeral_3_eq_3 numeral_2_eq_2 split: if_splits option.splits)
  have "i + 3 < k" using k(1) g(2) unicode_loop_reads [of 15 d "i + 3" 0 cp k] by simp
  moreover have "k \<le> length d" using unicode_loop_bound [OF k(1)] g(1) by simp
  ultimately show ?thesis using p k toUtf8_length [of cp] by (simp add: fits_def)
qed (simp add: fits_def)

lemma fits_decimal: "i + 2 \<le> length d \<Longrightarrow> fits d i (read_decimal d (i + 2) x)"
  using decimal_loop_bound [of 2 d "i + 2"] decimal_loop_progress [of 2 d "i + 2"]
  by (cases "decimal_loop 2 d (i + 2) (of_char x - 48)") (fastforce simp: fits_def read_decimal_def Let_def)

lemma read_escape_fits:
  assumes "i < length d"
  shows "fits d i (read_escape d i)"
  unfolding read_escape_def Let_def using assms fits_hex fits_unicode fits_decimal [of i d] skip_blank_bound [of "i + 2" d]
  by (intro fits_if) (auto simp: fits_def)

lemma read_escape_room:
  "read_escape d i = Some (out, j) \<Longrightarrow> i < length d \<Longrightarrow> length out \<le> j - i \<and> j \<le> length d"
  using read_escape_fits [of i d] by (simp add: fits_def)

lemma write_at_eq: "w + length cs \<le> length d \<Longrightarrow> write_at d w cs = take w d @ cs @ drop (w + length cs) d"
proof (induction d w cs rule: write_at.induct)
  case (2 d w c cs)
  then show ?case by (simp add: upd_conv_take_nth_drop take_Suc_conv_app_nth add.commute)
qed simp

lemma fixup_in_place:
  assumes "agree d e i" and "w \<le> i" and "i \<le> length d"
  shows "case quoted_value e i of
      None \<Rightarrow> \<not> fst (fixup_loop d i w)
    | Some r \<Rightarrow> \<exists>d'. fixup_loop d i w = (True, d', w + length r) \<and> take (w + length r) d' = take w d @ r \<and> w + length r \<le> length d'"
  using assms
proof (induction e i arbitrary: d w rule: quoted_value.induct)
  case (1 e i)
  have l: "length e = length d" using 1(3) by (simp add: agree_def)
  show ?case
  proof (cases "i < length d")
    case False
    then show ?thesis using 1(4,5) l unfolding quoted_value.simps [of e i] fixup_loop.simps [of d i w] by simp
  next
    case inside: True
    have c: "char_in d i = char_in e i" using agree_char [OF 1(3)] by simp
    show ?thesis
    proof (cases "char_in e i = CHR 0x5C")
      case False
      let ?d = "d[w := char_in e i]"
      have a: "agree ?d e (i + 1)" using 1(3,4) inside agree_drop [OF 1(3), of "i + 1"] by (auto simp: agree_def)
      have t: "take (w + 1) ?d = take w d @ [char_in e i]" using 1(4) inside by (simp add: take_Suc_conv_app_nth)
      have step: "fixup_loop d i w = fixup_loop ?d (i + 1) (w + 1)" using inside False c unfolding fixup_loop.simps [of d i w] by simp
      have v: "quoted_value e i = map_option (Cons (char_in e i)) (quoted_value e (i + 1))"
        using inside l False unfolding quoted_value.simps [of e i] by simp
      from 1(1) [OF _ False a, where w = "w + 1"] inside l 1(4) show ?thesis unfolding step v using t
        by (cases "quoted_value e (i + 1)") auto
    next
      case True
      show ?thesis
      proof (cases "read_escape e i")
        case None
        then show ?thesis using inside l True c agree_escape [OF 1(3)]
          unfolding fixup_loop.simps [of d i w] quoted_value.simps [of e i] by simp
      next
        case (Some p)
        obtain out j where p: "read_escape e i = Some (out, j)" using Some by (cases p) simp
        have j: "length out \<le> j - i" "i < j" "j \<le> length d"
          using read_escape_room [OF p] read_escape_progress [OF p] inside l by simp_all
        let ?d = "write_at d w out"
        have wr: "?d = take w d @ out @ drop (w + length out) d" using j 1(4) by (intro write_at_eq) simp
        then have a: "agree ?d e j" using agree_drop [OF 1(3), of j] j 1(4) l by (simp add: agree_def)
        have t: "take (w + length out) ?d = take w d @ out" using wr j 1(4) by simp
        have step: "fixup_loop d i w = fixup_loop ?d j (w + length out)"
          using inside True c p agree_escape [OF 1(3)] unfolding fixup_loop.simps [of d i w] by simp
        have v: "quoted_value e i = map_option (append out) (quoted_value e j)"
          using inside l True p unfolding quoted_value.simps [of e i] by simp
        have "\<not> char_in e i \<noteq> CHR 0x5C" using True by simp
        from 1(2) [OF _ this p refl a, where w = "w + length out"] inside l j 1(4) show ?thesis unfolding step v using t
          by (cases "quoted_value e j") (auto simp: add.assoc)
      qed
    qed
  qed
qed

lemma quoted_value_plain: "CHR 0x5C \<notin> set (drop i d) \<Longrightarrow> quoted_value d i = Some (drop i d)"
proof (induction d i rule: quoted_value.induct)
  case (1 d i)
  show ?case
  proof (cases "i < length d")
    case True
    then have c: "drop i d = char_in d i # drop (i + 1) d" by (simp add: char_in_def Cons_nth_drop_Suc)
    then have "char_in d i \<noteq> CHR 0x5C" "CHR 0x5C \<notin> set (drop (i + 1) d)" using 1(3) by auto
    then show ?thesis using 1(1) [OF True] True unfolding quoted_value.simps [of d i] c by simp
  qed (simp add: quoted_value.simps [of d i])
qed

section \<open>Through escape and back\<close>

lemma char_in_drop: "drop i d = t \<Longrightarrow> char_in d (i + k) = char_in t k"
  by (auto simp: char_in_def)

lemma length_drop_eq: "drop i d = c # t \<Longrightarrow> length d = i + length (c # t)"
  using length_drop [of i d] by (cases "i \<le> length d") simp_all

lemma drop_more: "drop i d = xs @ t \<Longrightarrow> drop (i + length xs) d = t"
  by (metis add.commute append_eq_conv_conj drop_drop)

definition digit_of :: "nat \<Rightarrow> char" where
  "digit_of n = char_of (48 + n)"

lemma digit_table:
  "list_all (\<lambda>k. isDigit (digit_of k) \<and> of_char (digit_of k) - (48 :: u32) = of_nat k \<and>
     list_all (\<lambda>c. digit_of k \<noteq> c) [CHR 0x5C, CR, LF, NUL, CHR ''x'', CHR ''z'', CHR ''u'', CHR 0x22, CHR 0x27, CHR 0x60, CHR ''{''])
   [0..<10]"
  by code_simp

lemma digit_chars:
  assumes "k < 10"
  shows "isDigit (digit_of k)" "of_char (digit_of k) - (48 :: u32) = of_nat k"
    "digit_of k \<notin> {CHR 0x5C, CR, LF, NUL, CHR ''x'', CHR ''z'', CHR ''u'', CHR 0x22, CHR 0x27, CHR 0x60, CHR ''{''}"
  using digit_table assms unfolding list_all_iff by auto

lemma three_digits_eq:
  assumes "of_char c = (n :: nat)"
  shows "three_digits c = [digit_of (n div 100), digit_of (n div 10 mod 10), digit_of (n mod 10)]"
proof -
  have n: "n < 256" using assms nat_of_char_less_256 [of c] by auto
  consider "n < 10" | "10 \<le> n" "n < 100" | "100 \<le> n" by linarith
  then show ?thesis
  proof cases
    case 1
    moreover have "CHR ''0'' = char_of (48 :: nat)" by code_simp
    ultimately show ?thesis using assms
      by (simp add: three_digits_def show_nat_def Let_def digit_of_def digits_rev.simps [of n] numeral_2_eq_2)
  next
    case 2
    moreover from this have "n div 10 < 10" by simp
    moreover have "CHR ''0'' = char_of (48 :: nat)" by code_simp
    ultimately show ?thesis using assms
      by (simp add: three_digits_def show_nat_def Let_def digit_of_def digits_rev.simps [of n] digits_rev.simps [of "n div 10"])
  next
    case 3
    then have "\<not> n div 10 < 10" "n div 10 div 10 < 10" "n div 10 div 10 = n div 100" using n by (auto simp: div_mult2_eq [symmetric])
    then show ?thesis using assms 3
      by (simp add: three_digits_def show_nat_def Let_def digit_of_def digits_rev.simps [of n] digits_rev.simps [of "n div 10"]
          digits_rev.simps [of "n div 100"])
  qed
qed

lemma escape_letters:
  assumes "escape_letter c = Some l"
  shows "unescape l = c" "l \<notin> {LF, CR, NUL, CHR ''x'', CHR ''z'', CHR ''u''}" "\<not> isDigit l"
proof -
  have "list_all (\<lambda>(c, l). unescape l = c \<and> l \<notin> {LF, CR, NUL, CHR ''x'', CHR ''z'', CHR ''u''} \<and> \<not> isDigit l)
    [(CHR 0x07, CHR ''a''), (CHR 0x08, CHR ''b''), (CHR 0x0C, CHR ''f''), (CHR 0x0A, CHR ''n''), (CHR 0x0D, CHR ''r''),
     (CHR 0x09, CHR ''t''), (CHR 0x0B, CHR ''v''), (CHR 0x27, CHR 0x27), (CHR 0x22, CHR 0x22), (CHR 0x5C, CHR 0x5C)]"
    by code_simp
  from bspec [OF this [unfolded list_all_iff] map_of_SomeD [OF assms [unfolded escape_letter_def]]]
  have "unescape l = c \<and> l \<notin> {LF, CR, NUL, CHR ''x'', CHR ''z'', CHR ''u''} \<and> \<not> isDigit l" unfolding case_prod_conv .
  then show "unescape l = c" "l \<notin> {LF, CR, NUL, CHR ''x'', CHR ''z'', CHR ''u''}" "\<not> isDigit l" by blast+
qed

text \<open>What \<open>escape\<close> writes for a character.\<close>

lemma escape_char_cases:
  obtains "escape_char b c = [c]" "c \<notin> {CHR 0x5C, CR, LF, NUL, CHR 0x22, CHR 0x27, CHR 0x60, CHR ''{''}"
  | l where "escape_char b c = [CHR 0x5C, l]" "unescape l = c" "l \<notin> {LF, CR, NUL, CHR ''x'', CHR ''z'', CHR ''u''}" "\<not> isDigit l"
  | n where "n < 256" "of_char c = n" "escape_char b c = [CHR 0x5C, digit_of (n div 100), digit_of (n div 10 mod 10), digit_of (n mod 10)]"
proof -
  consider "(32 :: nat) \<le> of_char c \<and> c \<noteq> CHR 0x5C \<and> c \<noteq> CHR 0x27 \<and> c \<noteq> CHR 0x22 \<and> c \<noteq> CHR 0x60 \<and> c \<noteq> CHR ''{''"
    | "\<not> ((32 :: nat) \<le> of_char c \<and> c \<noteq> CHR 0x5C \<and> c \<noteq> CHR 0x27 \<and> c \<noteq> CHR 0x22 \<and> c \<noteq> CHR 0x60 \<and> c \<noteq> CHR ''{'')"
      "b \<and> (c = CHR 0x60 \<or> c = CHR ''{'')"
    | l where "\<not> ((32 :: nat) \<le> of_char c \<and> c \<noteq> CHR 0x5C \<and> c \<noteq> CHR 0x27 \<and> c \<noteq> CHR 0x22 \<and> c \<noteq> CHR 0x60 \<and> c \<noteq> CHR ''{'')"
      "\<not> (b \<and> (c = CHR 0x60 \<or> c = CHR ''{''))" "escape_letter c = Some l"
    | "\<not> ((32 :: nat) \<le> of_char c \<and> c \<noteq> CHR 0x5C \<and> c \<noteq> CHR 0x27 \<and> c \<noteq> CHR 0x22 \<and> c \<noteq> CHR 0x60 \<and> c \<noteq> CHR ''{'')"
      "\<not> (b \<and> (c = CHR 0x60 \<or> c = CHR ''{''))" "escape_letter c = None"
    by (cases "escape_letter c") blast+
  then show thesis
  proof cases
    case 1
    have "\<not> (32 :: nat) \<le> of_char CR" "\<not> (32 :: nat) \<le> of_char LF" "\<not> (32 :: nat) \<le> of_char NUL" by code_simp+
    then have "c \<noteq> CR" "c \<noteq> LF" "c \<noteq> NUL" using 1 by metis+
    with 1 show thesis using that(1) unfolding escape_char_def if_P [OF 1] by simp
  next
    case 2
    have "list_all (\<lambda>c. unescape c = c \<and> c \<notin> {LF, CR, NUL, CHR ''x'', CHR ''z'', CHR ''u''} \<and> \<not> isDigit c) [CHR 0x60, CHR ''{'']"
      by code_simp
    then have "unescape c = c" "c \<notin> {LF, CR, NUL, CHR ''x'', CHR ''z'', CHR ''u''}" "\<not> isDigit c"
      using 2(2) unfolding list_all_iff by auto
    then show thesis using that(2) [of c] unfolding escape_char_def if_not_P [OF 2(1)] if_P [OF 2(2)] by simp
  next
    case (3 l)
    then show thesis using that(2) [of l] escape_letters [OF 3(3)] unfolding escape_char_def if_not_P [OF 3(1)] if_not_P [OF 3(2)] by simp
  next
    case 4
    then show thesis using that(3) [of "of_char c"] three_digits_eq [OF refl, of c] nat_of_char_less_256 [of c]
      unfolding escape_char_def if_not_P [OF 4(1)] if_not_P [OF 4(2)] by simp
  qed
qed

lemma read_escape_letter:
  assumes "drop i d = CHR 0x5C # l # t" and "l \<notin> {LF, CR, NUL, CHR ''x'', CHR ''z'', CHR ''u''}" and "\<not> isDigit l"
  shows "read_escape d i = Some ([unescape l], i + 2)"
  using assms(2,3) char_in_drop [OF assms(1), of 1] length_drop_eq [OF assms(1)]
  by (simp add: read_escape_def Let_def char_in_def)

lemma read_escape_digits:
  assumes "drop i d = CHR 0x5C # digit_of x # digit_of y # digit_of z # t" and x: "x < 10" and y: "y < 10" and z: "z < 10"
    and n: "100 * x + 10 * y + z = n" "n < 256"
  shows "read_escape d i = Some ([char_of n], i + 4)"
proof -
  have c: "char_in d (i + 1) = digit_of x" "char_in d (i + 2) = digit_of y" "char_in d (i + 3) = digit_of z"
    using char_in_drop [OF assms(1), of 1] char_in_drop [OF assms(1), of 2] char_in_drop [OF assms(1), of 3] by (simp_all add: char_in_def)
  have l: "i + 4 \<le> length d" using length_drop_eq [OF assms(1)] by simp
  have w: "10 * (10 * of_nat x + of_nat y) + of_nat z = (of_nat n :: u32)" using n(1) by (auto simp: algebra_simps)
  have "decimal_loop 2 d (i + 2) (of_char (digit_of x) - 48) = (of_nat n, i + 4)"
    using l c digit_chars [OF x] digit_chars [OF y] digit_chars [OF z] w by (simp add: numeral_2_eq_2 eval_nat_numeral)
  moreover have "unat (of_nat n :: u32) = n" using n(2) by (simp add: unsigned_of_nat take_bit_nat_eq_self)
  moreover from this have "\<not> (of_nat n :: u32) > 255" using n(2) by (simp add: word_less_nat_alt)
  ultimately have "read_decimal d (i + 2) (digit_of x) = Some ([char_of n], i + 4)"
    by (simp add: read_decimal_def to_char_def)
  then show ?thesis using l c digit_chars [OF x] by (simp add: read_escape_def Let_def)
qed

lemma three_places: "100 * (n div 100) + 10 * (n div 10 mod 10) + n mod 10 = (n :: nat)"
proof -
  have "n div 10 div 10 = n div 100" by (simp add: div_mult2_eq [symmetric])
  then show ?thesis using div_mult_mod_eq [of n 10] div_mult_mod_eq [of "n div 10" 10] by linarith
qed

lemma code_char: "of_char c = (n :: nat) \<Longrightarrow> char_of n = c"
  using char_of_char by blast

lemma char_in_at: "drop i d = c # t \<Longrightarrow> i < length d \<and> char_in d i = c"
  using length_drop_eq [of i d c t] by (simp add: char_in_hd)

lemma quoted_value_escape:
  assumes "drop i d = escape s b"
  shows "quoted_value d i = Some s"
  using assms
proof (induction s arbitrary: i)
  case Nil
  then show ?case unfolding quoted_value.simps [of d i] by (simp add: escape_def)
next
  case (Cons c s)
  have e: "drop i d = escape_char b c @ escape s b" using Cons(2) by (simp add: escape_def)
  have v: "quoted_value d (i + length (escape_char b c)) = Some s" by (rule Cons(1) [OF drop_more [OF e]])
  show ?case
  proof (cases b c rule: escape_char_cases)
    case 1
    then have "i < length d" "char_in d i = c" using e length_drop_eq [of i d c] by (auto simp: char_in_hd)
    then show ?thesis using 1 v unfolding quoted_value.simps [of d i] by simp
  next
    case (2 l)
    then have "i < length d" "char_in d i = CHR 0x5C" "read_escape d i = Some ([c], i + 2)"
      using e length_drop_eq [of i d "CHR 0x5C"] read_escape_letter [of i d l] by (auto simp: char_in_hd)
    then show ?thesis using v unfolding quoted_value.simps [of d i] 2(1) by simp
  next
    case (3 n)
    note f = e [unfolded 3(3), simplified append.simps]
    have e4: "length (escape_char b c) = 4" by (simp add: 3(3))
    have "i < length d" "char_in d i = CHR 0x5C" using char_in_at [OF f] by blast+
    moreover have "read_escape d i = Some ([char_of n], i + 4)"
      by (rule read_escape_digits [OF f _ _ _ three_places 3(1)]) (use 3(1) in simp_all)
    moreover have "char_of n = c" by (rule code_char [OF 3(2)])
    moreover have "quoted_value d (i + 4) = Some s" using v unfolding e4 .
    ultimately show ?thesis unfolding quoted_value.simps [of d i] by simp
  qed
qed

text \<open>The loop of \<open>readQuotedString\<close> over the text that is left.\<close>

lemma peekch_drop: "peekch L = (case drop (offset L) (buffer L) of [] \<Rightarrow> NUL | c # _ \<Rightarrow> c)"
  by (cases "offset L < length (buffer L)") (simp_all add: peekch_def flip: Cons_nth_drop_Suc)

lemma rest_consume: "drop (offset L) (buffer L) = c # t \<Longrightarrow> drop (offset (consume L)) (buffer (consume L)) = t"
  using drop_more [of "offset L" "buffer L" "[c]" t] by (simp add: consume_def)

lemma quoted_loop_plain:
  assumes "drop (offset L) (buffer L) = c # t" and "c \<noteq> q" "c \<notin> {CHR 0x5C, CR, LF, NUL}"
  shows "quoted_loop q L = quoted_loop q (consume L)"
  using assms by (subst quoted_loop.simps) (simp add: Let_def peekch_drop line_end_def isNewline_def quoted_char_def)

lemma quoted_loop_letter:
  assumes "drop (offset L) (buffer L) = CHR 0x5C # l # t" and "q \<noteq> CHR 0x5C" and "l \<notin> {CR, LF, NUL, CHR ''z''}"
  shows "quoted_loop q L = quoted_loop q (consume (consume L))"
proof -
  have p: "peekch L = CHR 0x5C" "peekch (consume L) = l" using assms(1) rest_consume [OF assms(1)] by (simp_all add: peekch_drop)
  then have "readBackslashInString L = consume (consume L)"
    using assms(3) by (simp add: readBackslashInString_def Let_def consumeAny_def isNewline_def consume_def)
  then show ?thesis using p assms(2) by (subst quoted_loop.simps) (simp add: Let_def line_end_def isNewline_def quoted_char_def)
qed

lemma quoted_loop_escape:
  assumes "drop (offset L) (buffer L) = escape s b @ q # rest" and "q = CHR 0x22 \<or> q = CHR 0x27"
  shows "\<exists>M. quoted_loop q L = (True, M) \<and> buffer M = buffer L \<and> offset M = offset L + length (escape s b)"
  using assms(1)
proof (induction s arbitrary: L)
  case Nil
  then have "quoted_loop q L = (True, L)" by (subst quoted_loop.simps) (simp add: peekch_drop escape_def)
  then show ?case by (simp add: escape_def)
next
  case (Cons c s)
  let ?t = "escape s b @ q # rest"
  have e: "drop (offset L) (buffer L) = escape_char b c @ ?t" and l: "length (escape (c # s) b) = length (escape_char b c) + length (escape s b)"
    using Cons(2) by (simp_all add: escape_def)
  have reach: ?case if "quoted_loop q L = quoted_loop q M" "drop (offset M) (buffer M) = ?t"
    "buffer M = buffer L" "offset M = offset L + length (escape_char b c)" for M
    using Cons(1) [OF that(2)] that(1,3,4) l by auto
  have q: "q \<noteq> CHR 0x5C" using assms(2) by auto
  show ?case
  proof (cases b c rule: escape_char_cases)
    case 1
    then have "drop (offset L) (buffer L) = c # ?t" "c \<noteq> q" using e assms(2) by auto
    from quoted_loop_plain [OF this] rest_consume [OF this(1)] show ?thesis using 1 by (intro reach [of "consume L"]) (auto simp: consume_def)
  next
    case (2 k)
    then have d: "drop (offset L) (buffer L) = CHR 0x5C # k # ?t" using e by simp
    from quoted_loop_letter [OF this q] rest_consume [OF rest_consume [OF d]] show ?thesis using 2
      by (intro reach [of "consume (consume L)"]) (auto simp: consume_def)
  next
    case (3 n)
    define y z where yz: "y = digit_of (n div 10 mod 10)" "z = digit_of (n mod 10)"
    have d: "drop (offset L) (buffer L) = CHR 0x5C # digit_of (n div 100) # y # z # ?t" using e 3 yz by simp
    have y: "y \<noteq> q" "y \<notin> {CHR 0x5C, CR, LF, NUL}" and z: "z \<noteq> q" "z \<notin> {CHR 0x5C, CR, LF, NUL}"
      using digit_chars(3) [of "n div 10 mod 10"] digit_chars(3) [of "n mod 10"] assms(2) yz by auto
    have x: "digit_of (n div 100) \<notin> {CR, LF, NUL, CHR ''z''}" using digit_chars(3) [of "n div 100"] 3(1) by simp
    note d2 = rest_consume [OF rest_consume [OF d]]
    note d3 = rest_consume [OF d2]
    have "quoted_loop q L = quoted_loop q (consume (consume (consume (consume L))))"
      using quoted_loop_letter [OF d q x] quoted_loop_plain [OF d2 y] quoted_loop_plain [OF d3 z] by simp
    then show ?thesis using rest_consume [OF d3] 3(3) by (intro reach [of "consume (consume (consume (consume L)))"]) (auto simp: consume_def)
  qed
qed

section \<open>Properties\<close>

lemma fixup_value:
  "case quoted_value d 0 of
     None \<Rightarrow> \<not> fst (fixupQuotedString d)
   | Some r \<Rightarrow> fixupQuotedString d = (True, r)"
proof (cases "d = [] \<or> CHR 0x5C \<notin> set d")
  case True
  then show ?thesis using quoted_value_plain [of 0 d] by (auto simp: fixupQuotedString_def)
next
  case False
  have "agree d d 0" by (simp add: agree_def)
  from fixup_in_place [OF this, of 0] show ?thesis using False
    by (auto simp: fixupQuotedString_def split: option.splits prod.splits)
qed

text \<open>C27. \<open>fixupQuotedString\<close> rewrites a text in place while it reads it, and yet does what a function does that reads the text and writes
  elsewhere: the same texts are refused, and the others get the same value, because no escape writes more bytes than it has.\<close>

theorem fixup_in_one_buffer:
  "fst (fixupQuotedString d) = (quoted_value d 0 \<noteq> None) \<and>
   (\<forall>r. quoted_value d 0 = Some r \<longrightarrow> fixupQuotedString d = (True, r))"
  using fixup_value [of d] by (cases "quoted_value d 0") auto

lemma fixup_in_one_buffer_witness: "fixupQuotedString [CHR 0x5C, CHR ''x'', CHR ''4'', CHR ''1''] = (True, ''A'')"
proof -
  have "quoted_value [CHR 0x5C, CHR ''x'', CHR ''4'', CHR ''1''] 0 = Some ''A''" by code_simp
  then show ?thesis using fixup_in_one_buffer [of "[CHR 0x5C, CHR ''x'', CHR ''4'', CHR ''1'']"] by blast
qed

lemma readQuotedString_escape:
  assumes q: "q = CHR 0x22 \<or> q = CHR 0x27" and L: "drop (offset L) (buffer L) = q # escape s b @ q # rest"
  shows "lex_type (fst (readQuotedString L)) = QuotedString \<and> data (fst (readQuotedString L)) = Some (offset L + 1) \<and>
    length_of (fst (readQuotedString L)) = length (escape s b) \<and> buffer (snd (readQuotedString L)) = buffer L"
proof -
  have p: "peekch L = q" using L by (simp add: peekch_drop)
  obtain M where "quoted_loop q (consume L) = (True, M)" "buffer M = buffer L" "offset M = offset L + 1 + length (escape s b)"
    using quoted_loop_escape [OF rest_consume [OF L] q] by (auto simp: consume_def)
  then show ?thesis
    by (simp add: readQuotedString_def Let_def p data_lexeme_def plain_lexeme_def)
qed

text \<open>C16. A string that \<open>escape\<close> has written (with either flag) between quotes is read as one quoted string, whatever follows it, and the lexer's
  and the parser's way through its escapes gives every character of it back.\<close>

theorem escaped_string_read:
  assumes "q = CHR 0x22 \<or> q = CHR 0x27"
  shows "lex_type (lexeme (next_lexeme (new_lexer (q # escape s b @ q # rest) t start))) = QuotedString \<and>
    fixupQuotedString (lexeme_text (next_lexeme (new_lexer (q # escape s b @ q # rest) t start))) = (True, s)"
proof -
  define N where "N = new_lexer (q # escape s b @ q # rest) t start"
  define L where "L = N\<lparr>prevLocation := location (lexeme N)\<rparr>"
  have L: "drop (offset L) (buffer L) = q # escape s b @ q # rest" "offset L = 0" by (simp_all add: L_def N_def new_lexer_def)
  have "peekch N = q" "peekch L = q" using L by (simp_all add: peekch_drop N_def new_lexer_def)
  moreover from this have "\<not> isSpace (peekch N)" "readNext L = readQuotedString L" using assms by (auto simp: isSpace_def readNext_def)
  moreover from this have "skip_spaces N = N" by (subst skip_spaces.simps) simp
  ultimately have r: "next_round True N = (snd (readQuotedString L))\<lparr>lexeme := fst (readQuotedString L)\<rparr>"
    by (simp add: next_round_def Let_def L_def split: prod.splits)
  have "next_lexeme N = next_round True N"
    unfolding next_lexeme_def by (subst next_loop.simps) (simp add: Let_def N_def new_lexer_def)
  moreover have b: "buffer L = q # escape s b @ q # rest" using L by simp
  ultimately have "lex_type (lexeme (next_lexeme N)) = QuotedString \<and> lexeme_text (next_lexeme N) = escape s b"
    using readQuotedString_escape [OF assms L(1)] L(2) by (simp add: r lexeme_text_def b)
  moreover have "quoted_value (escape s b) 0 = Some s" by (rule quoted_value_escape) simp
  then have "fixupQuotedString (escape s b) = (True, s)" using fixup_value [of "escape s b"] by simp
  ultimately show ?thesis unfolding N_def by simp
qed

lemma escaped_string_read_witness:
  "fixupQuotedString (lexeme_text (next_lexeme (new_lexer (CHR 0x22 # escape [CHR 0x22, CHR 0x00, CHR ''7''] False @ CHR 0x22 # '' .. x'')
     new_names origin))) = (True, [CHR 0x22, CHR 0x00, CHR ''7''])"
  using escaped_string_read [OF disjI1 [OF refl], of "[CHR 0x22, CHR 0x00, CHR ''7'']" False "'' .. x''" new_names origin] by blast

text \<open>The escape \<open>\u{}\<close> takes up to 16 digits in 32 bits: \<open>\u{100000041}\<close>, beyond all code points, is read as A.\<close>

lemma unicode_wraps: "fixupQuotedString (CHR 0x5C # ''u{100000041}'') = (True, ''A'')"
  by code_simp


section \<open>Lines\<close>

text \<open>What the parser wants of a long string: each line ends in a newline alone, and the first, empty line is left out.\<close>

fun unix_lines :: "string \<Rightarrow> string" where
  "unix_lines [] = []"
| "unix_lines [c] = [c]"
| "unix_lines (c # d # s) = (if c = CR \<and> d = LF then LF # unix_lines s else c # unix_lines (d # s))"

definition without_first_newline :: "string \<Rightarrow> string" where
  "without_first_newline s = (case s of [] \<Rightarrow> [] | c # t \<Rightarrow> if c = LF then t else s)"

abbreviation c_string :: "string \<Rightarrow> string" where
  "c_string s \<equiv> takeWhile (\<lambda>c. c \<noteq> NUL) s"

lemma unix_lines_Cons: "\<not> (c = CR \<and> s \<noteq> [] \<and> hd s = LF) \<Longrightarrow> unix_lines (c # s) = c # unix_lines s"
  by (cases s) auto

lemma drop_here: "i < length d \<Longrightarrow> drop i d = char_in d i # drop (i + 1) d"
  by (simp add: char_in_def Cons_nth_drop_Suc)

lemma multiline_in_place:
  assumes "agree d e i" and "w \<le> i" and "i \<le> length d"
  shows "\<exists>d'. multiline_loop d i w = (d', w + length (unix_lines (c_string (drop i e)))) \<and>
    take (w + length (unix_lines (c_string (drop i e)))) d' = take w d @ unix_lines (c_string (drop i e))"
  using assms
proof (induction d i w rule: multiline_loop.induct)
  case (1 d i w)
  have l: "length e = length d" using 1(3) by (simp add: agree_def)
  have c: "char_in d k = char_in e k" if "i \<le> k" for k by (rule agree_char [OF 1(3) that])
  show ?case
  proof (cases "i < length d \<and> char_in d i \<noteq> NUL")
    case False
    then have "c_string (drop i e) = []" using drop_here [of i e] l c [of i] by (cases "i < length d") simp_all
    then show ?thesis unfolding multiline_loop.simps [of d i w] if_not_P [OF False] by simp
  next
    case inside: True
    then have e: "drop i e = char_in e i # drop (i + 1) e" using drop_here [of i e] l by simp
    have n: "char_in e i \<noteq> NUL" using inside c [of i] by simp
    show ?thesis
    proof (cases "char_in d i = CR \<and> char_in d (i + 1) = LF")
      case True
      let ?d = "d[w := LF]"
      have i: "i + 1 < length d" using True by (auto simp: char_in_def split: if_splits)
      have a: "agree ?d e (i + 2)" using agree_drop [OF 1(3), of "i + 2"] l 1(4) by (simp add: agree_def)
      have t: "take (w + 1) ?d = take w d @ [LF]" using 1(4) inside by (simp add: take_Suc_conv_app_nth)
      have "drop i e = CR # LF # drop (i + 2) e"
        using e drop_here [of "i + 1" e] i l True c [of i] c [of "i + 1"] by simp
      then have r: "unix_lines (c_string (drop i e)) = LF # unix_lines (c_string (drop (i + 2) e))" by simp
      have step: "multiline_loop d i w = multiline_loop ?d (i + 2) (w + 1)"
        unfolding multiline_loop.simps [of d i w] if_P [OF inside] if_P [OF True] ..
      from 1(1) [OF inside True a] i 1(4) show ?thesis unfolding step r using t by auto
    next
      case False
      let ?d = "d[w := char_in d i]"
      have a: "agree ?d e (i + 1)" using agree_drop [OF 1(3), of "i + 1"] l 1(4) by (simp add: agree_def)
      have t: "take (w + 1) ?d = take w d @ [char_in e i]" using 1(4) inside c [of i] by (simp add: take_Suc_conv_app_nth)
      have "\<not> (char_in e i = CR \<and> c_string (drop (i + 1) e) \<noteq> [] \<and> hd (c_string (drop (i + 1) e)) = LF)"
        using False c [of i] c [of "i + 1"] drop_here [of "i + 1" e] by (cases "i + 1 < length e") auto
      from unix_lines_Cons [OF this] have r: "unix_lines (c_string (drop i e)) = char_in e i # unix_lines (c_string (drop (i + 1) e))"
        using n by (simp add: e)
      have step: "multiline_loop d i w = multiline_loop ?d (i + 1) (w + 1)"
        unfolding multiline_loop.simps [of d i w] if_P [OF inside] if_not_P [OF False] ..
      from 1(2) [OF inside False a] inside 1(4) show ?thesis unfolding step r using t by auto
    qed
  qed
qed

text \<open>\<open>fixupMultilineString\<close>, which also writes over the text it reads, ends each line in a newline alone and leaves out the first
  line if it is empty; a zero character ends the text.\<close>

theorem multiline_lines: "fixupMultilineString d = without_first_newline (unix_lines (c_string d))"
proof (cases "d = []")
  case False
  define i where "i = (if char_in d 0 = CR \<and> char_in d 1 = LF then 2 else if char_in d 0 = LF then 1 else 0 :: nat)"
  have i: "i \<le> length d" by (cases d; cases "tl d") (auto simp: i_def char_in_def split: if_splits)
  have "agree d d i" by (simp add: agree_def)
  from multiline_in_place [OF this le0 i] have f: "fixupMultilineString d = unix_lines (c_string (drop i d))"
    using False by (auto simp: fixupMultilineString_def Let_def i_def split: prod.splits)
  obtain c s where d: "d = c # s" using False by (cases d) auto
  show ?thesis
  proof (cases s)
    case Nil
    then show ?thesis using f d by (auto simp: i_def char_in_def without_first_newline_def)
  next
    case (Cons c' s')
    then show ?thesis using f d by (auto simp: i_def char_in_def without_first_newline_def)
  qed
qed (simp add: fixupMultilineString_def without_first_newline_def)

text \<open>A comment that starts with \<open>//=\<close> is not the lexeme that the reader of \<open>.luaurc\<close> skips.\<close>

lemma comment_lexeme:
  "lex_type (lexeme (next_lexeme (new_lexer ''//= x'' new_names \<lparr>pos_line = 0, pos_column = 0\<rparr>))) = FloorDivAssign"
  by code_simp

end
