(* ===== verification/LexText.thy ===== *)
theory LexText
  imports LexString
begin

text \<open>
  The lexer on a text that is known: what one call of \<open>next\<close> does at white space, punctuation, strings, words and \<open>//\<close>, given what the
  rest of the buffer looks like.
\<close>

section \<open>One call of next\<close>

abbreviation rest_of :: "Lexer \<Rightarrow> string" where
  "rest_of L \<equiv> drop (offset L) (buffer L)"

text \<open>Outside of interpolated strings, with comments delivered.\<close>

definition ready :: "Lexer \<Rightarrow> bool" where
  "ready L \<longleftrightarrow> braceStack L = [] \<and> \<not> skipComments L \<and> names_ok (names L)"

lemma ready_updates [simp]:
  "ready (L\<lparr>prevLocation := p\<rparr>) = ready L" "ready (L\<lparr>lexeme := l\<rparr>) = ready L" "ready (consume L) = ready L" "ready (consumeAny L) = ready L"
  by (simp_all add: ready_def consume_def consumeAny_def Let_def)

definition next_here :: "Lexer \<Rightarrow> Lexer" where
  "next_here L = (case readNext (L\<lparr>prevLocation := location (lexeme L)\<rparr>) of (l, M) \<Rightarrow> M\<lparr>lexeme := l\<rparr>)"

lemma next_round_ready: "ready L \<Longrightarrow> next_lexeme L = next_round True L"
  unfolding next_lexeme_def next_loop.simps [of "skipComments L" True L] by (simp add: ready_def Let_def)

definition peek :: "string \<Rightarrow> char" where
  "peek r = (case r of [] \<Rightarrow> NUL | c # _ \<Rightarrow> c)"

lemma peek_simps [simp]: "peek [] = NUL" "peek (c # r) = c"
  by (simp_all add: peek_def)

lemma peekch_rest: "peekch L = peek (rest_of L)"
  by (simp add: peekch_drop peek_def)

lemma peek_eq: "rest_of L = r \<Longrightarrow> peekch L = peek r"
  by (simp only: peekch_rest)

lemma rest_inside: "rest_of L = c # r \<Longrightarrow> offset L < length (buffer L)"
  by (cases "offset L < length (buffer L)") simp_all

lemma rest_consumeAny: "rest_of L = c # r \<Longrightarrow> rest_of (consumeAny L) = r"
  using rest_consume [of L c r] by (simp add: consume_def consumeAny_def Let_def)

lemma rest_prev [simp]: "rest_of (L\<lparr>prevLocation := p\<rparr>) = rest_of L" "rest_of (L\<lparr>lexeme := l\<rparr>) = rest_of L"
  by simp_all

lemma next_at_space:
  assumes "ready L" and "rest_of L = c # r" and "isSpace c"
  shows "next_lexeme L = next_lexeme (consumeAny L)"
proof -
  have "skip_spaces L = skip_spaces (consumeAny L)"
    using assms(2,3) rest_inside [OF assms(2)] by (subst skip_spaces.simps) (simp add: peekch_rest)
  then show ?thesis using assms(1) by (simp add: next_round_ready next_round_def)
qed

lemma next_at_lexeme:
  assumes "ready L" and "rest_of L = [] \<or> \<not> isSpace (hd (rest_of L))"
  shows "next_lexeme L = next_here L"
proof -
  have "skip_spaces L = L"
    using assms(2) by (subst skip_spaces.simps) (cases "rest_of L"; simp add: peekch_rest)
  then show ?thesis using assms(1) by (simp add: next_round_ready next_round_def next_here_def Let_def)
qed

lemma next_at_end:
  assumes "ready L" and "rest_of L = []"
  shows "lex_type (lexeme (next_lexeme L)) = Eof"
  using assms by (simp add: next_at_lexeme next_here_def readNext_def peekch_rest)

section \<open>Punctuation\<close>

text \<open>What \<open>next\<close> gives at a lexeme: the lexeme, and a lexer behind it.\<close>

definition gives :: "Lexer \<Rightarrow> Type \<Rightarrow> string \<Rightarrow> string \<Rightarrow> bool" where
  "gives L ty t r \<longleftrightarrow>
     (let M = next_lexeme L in
      ready M \<and> buffer M = buffer L \<and> rest_of M = r \<and> lex_type (lexeme M) = ty \<and> lexeme_text M = t)"

lemma givesI:
  assumes "ready L" and "rest_of L = c # s" and "\<not> isSpace c"
    and "readNext (L\<lparr>prevLocation := location (lexeme L)\<rparr>) = (l, M)"
    and "ready M" "buffer M = buffer L" "rest_of M = r" "lex_type l = ty" "lexeme_text (M\<lparr>lexeme := l\<rparr>) = t"
  shows "gives L ty t r"
  using assms by (simp add: gives_def Let_def next_at_lexeme next_here_def)

lemma gives_plain:
  assumes "ready L" and "rest_of L = c # s" and "\<not> isSpace c"
    and "readNext (L\<lparr>prevLocation := location (lexeme L)\<rparr>) = (plain_lexeme loc ty, M)"
    and "ready M" "buffer M = buffer L" "rest_of M = r"
  shows "gives L ty [] r"
  by (rule givesI [OF assms]) (simp_all add: lexeme_text_def plain_lexeme_def)

lemma gives_one:
  assumes "ready L" and "rest_of L = c # r" and "c \<in> {CHR '','', CHR '']'', CHR ''{'', CHR ''}''}"
  shows "gives L (Char c) [] r"
proof -
  let ?K = "L\<lparr>prevLocation := location (lexeme L)\<rparr>"
  have "peekch ?K = c" "braceStack ?K = []" using assms by (simp_all add: peekch_rest ready_def)
  then have n: "readNext ?K = (plain_lexeme (span (position ?K) 1) (Char c), consume ?K)"
    using assms(3) by (auto simp: readNext_def fixed_def read_open_brace_def read_close_brace_def Let_def)
  have "\<not> isSpace c" using assms(3) by (auto simp: isSpace_def)
  then show ?thesis using assms(1) rest_consume [of ?K c r] assms(2) by (intro gives_plain [OF assms(1,2) _ n]) simp_all
qed

lemma gives_colon:
  assumes "ready L" and "rest_of L = CHR '':'' # r" and "peek r \<noteq> CHR '':''"
  shows "gives L (Char (CHR '':'')) [] r"
proof -
  let ?K = "L\<lparr>prevLocation := location (lexeme L)\<rparr>"
  have k: "rest_of ?K = CHR '':'' # r" using assms(2) by simp
  have "peekch ?K = CHR '':''" "peekch (consume ?K) \<noteq> CHR '':''"
    using assms(3) by (simp_all only: peek_eq [OF k] peek_eq [OF rest_consume [OF k]] peek_simps) simp_all
  then have n: "readNext ?K = (plain_lexeme (span (position ?K) 1) (Char (CHR '':'')), consume ?K)"
    by (simp add: readNext_def read_colon_def Let_def)
  show ?thesis using assms(1) rest_consume [OF k] by (intro gives_plain [OF assms(1,2) _ n]) (simp_all add: isSpace_def)
qed

lemma consume_while_none: "\<not> P (peekch L) \<Longrightarrow> consume_while P L = L"
  by (subst consume_while.simps) simp

lemma gives_bracket:
  assumes "ready L" and "rest_of L = CHR ''['' # r" and "peek r \<notin> {CHR ''['', CHR ''=''}"
  shows "gives L (Char (CHR ''['')) [] r"
proof -
  let ?K = "L\<lparr>prevLocation := location (lexeme L)\<rparr>"
  have k: "rest_of ?K = CHR ''['' # r" using assms(2) by simp
  have p: "peekch ?K = CHR ''[''" "peekch (consume ?K) \<noteq> CHR ''[''" "peekch (consume ?K) \<noteq> CHR ''=''"
    using assms(3) by (simp_all only: peek_eq [OF k] peek_eq [OF rest_consume [OF k]] peek_simps) simp_all
  moreover from this have "consume_while (\<lambda>c. c = CHR ''='') (consume ?K) = consume ?K" by (intro consume_while_none) simp
  ultimately have "skipLongSeparator ?K = (- 1, consume ?K)" by (simp add: skipLongSeparator_def Let_def)
  then have n: "readNext ?K = (plain_lexeme (span (position ?K) 1) (Char (CHR ''['')), consume ?K)"
    using p by (simp add: readNext_def read_bracket_def Let_def)
  show ?thesis using assms(1) rest_consume [OF k] by (intro gives_plain [OF assms(1,2) _ n]) (simp_all add: isSpace_def)
qed

lemma gives_slashes:
  assumes "ready L" and "rest_of L = CHR ''/'' # CHR ''/'' # r" and "peek r \<noteq> CHR ''=''"
  shows "gives L FloorDiv [] r"
proof -
  let ?K = "L\<lparr>prevLocation := location (lexeme L)\<rparr>"
  have k: "rest_of ?K = CHR ''/'' # CHR ''/'' # r" using assms(2) by simp
  note k2 = rest_consume [OF k]
  have p: "peekch ?K = CHR ''/''" "peekch (consume ?K) = CHR ''/''" "peekch (consume (consume ?K)) \<noteq> CHR ''=''"
    using assms(3) by (simp_all only: peek_eq [OF k] peek_eq [OF k2] peek_eq [OF rest_consume [OF k2]] peek_simps) simp_all
  then have n: "readNext ?K = (plain_lexeme (span (position ?K) 2) FloorDiv, consume (consume ?K))"
    by (simp add: readNext_def read_slash_def Let_def)
  show ?thesis using assms(1) rest_consume [OF k2] by (intro gives_plain [OF assms(1,2) _ n]) (simp_all add: isSpace_def)
qed

section \<open>Strings, words and comments\<close>

text \<open>A text without quotes, backslashes and ends of lines stands for itself between quotes.\<close>

definition simple_text :: "char \<Rightarrow> string \<Rightarrow> bool" where
  "simple_text q s \<longleftrightarrow> (q = CHR 0x22 \<or> q = CHR 0x27) \<and> (\<forall>c \<in> set s. c \<noteq> q \<and> c \<notin> {CHR 0x5C, CR, LF, NUL})"

lemma quoted_loop_simple:
  assumes "rest_of L = s @ q # r" and "simple_text q s"
  shows "\<exists>M. quoted_loop q L = (True, M) \<and> M = L\<lparr>offset := offset L + length s\<rparr>"
  using assms
proof (induction s arbitrary: L)
  case Nil
  then have "peekch L = q" using peek_eq [of L "q # r"] by simp
  then have "quoted_loop q L = (True, L)" by (subst quoted_loop.simps) simp
  then show ?case by simp
next
  case (Cons c s)
  have e: "rest_of L = c # s @ q # r" using Cons(2) by simp
  have "simple_text q s" using Cons(3) by (simp add: simple_text_def)
  from Cons(1) [OF rest_consume [OF e] this] quoted_loop_plain [OF e] Cons(3) show ?case by (auto simp: simple_text_def consume_def)
qed

lemma gives_string:
  assumes "ready L" and "rest_of L = q # s @ q # r" and "simple_text q s"
  shows "gives L QuotedString s r"
proof -
  let ?K = "L\<lparr>prevLocation := location (lexeme L)\<rparr>"
  have k: "rest_of ?K = q # s @ q # r" using assms(2) by simp
  have q: "q = CHR 0x22 \<or> q = CHR 0x27" using assms(3) by (simp add: simple_text_def)
  have p: "peekch ?K = q" using peek_eq [OF k] by simp
  let ?M = "(consume ?K)\<lparr>offset := offset (consume ?K) + length s\<rparr>"
  have l: "quoted_loop q (consume ?K) = (True, ?M)" using quoted_loop_simple [OF rest_consume [OF k] assms(3)] by simp
  have rq: "readNext ?K = readQuotedString ?K" using p q by (auto simp: readNext_def)
  obtain loc where n: "readNext ?K = (data_lexeme loc QuotedString (offset L + 1) (length s), consume ?M)"
    unfolding rq readQuotedString_def Let_def p l by (simp add: consume_def)
  have t: "take (length s) (drop (offset L + 1) (buffer L)) = s" using rest_consume [OF assms(2)] by (simp add: consume_def)
  have "rest_of ?M = q # r" using drop_more [OF rest_consume [OF k]] by simp
  from rest_consume [OF this] have "rest_of (consume ?M) = r" .
  moreover have "ready (consume ?M)" using assms(1) by (simp add: ready_def consume_def)
  ultimately show ?thesis using t q
    by (intro givesI [OF assms(1,2) _ n]) (auto simp: isSpace_def lexeme_text_def data_lexeme_def plain_lexeme_def)
qed

lemma takeWhile_word: "list_all P s \<Longrightarrow> \<not> P (peek r) \<or> r = [] \<Longrightarrow> takeWhile P (s @ r) = s"
  by (induction s) (auto simp: peek_def takeWhile_eq_Nil_iff split: list.splits)

lemma gives_word:
  assumes "ready L" and "rest_of L = w @ r" and "w = kReserved ! i" and "i < length kReserved" and "\<not> name_char (peek r)"
  shows "gives L (Reserved i) [] r"
proof -
  let ?K = "L\<lparr>prevLocation := location (lexeme L)\<rparr>"
  have "list_all (\<lambda>w. w \<noteq> [] \<and> list_all name_char w \<and> isAlpha (hd w) \<and> \<not> isSpace (hd w) \<and> \<not> isDigit (hd w) \<and> with_equal (hd w) = None \<and>
    list_all (\<lambda>c. hd w \<noteq> c) (NUL # ''-[{}./:@()];,#?&|'' @ [CHR 0x22, CHR 0x27, CHR 0x60])) kReserved"
    by code_simp
  then have "w \<noteq> [] \<and> list_all name_char w \<and> isAlpha (hd w) \<and> \<not> isSpace (hd w) \<and> \<not> isDigit (hd w) \<and> with_equal (hd w) = None \<and>
    list_all (\<lambda>c. hd w \<noteq> c) (NUL # ''-[{}./:@()];,#?&|'' @ [CHR 0x22, CHR 0x27, CHR 0x60])"
    using assms(3,4) by (simp add: list_all_length)
  then obtain c v where w: "w = c # v" "list_all name_char w" "isAlpha c" "\<not> isSpace c" "\<not> isDigit c" "with_equal c = None"
    "list_all (\<lambda>d. c \<noteq> d) (NUL # ''-[{}./:@()];,#?&|'' @ [CHR 0x22, CHR 0x27, CHR 0x60])" by (cases w) auto
  have k: "rest_of ?K = c # v @ r" using assms(2) w(1) by simp
  have p: "peekch ?K = c" using peek_eq [OF k] by simp
  have nc: "name_char c" using w(1,2) by simp
  have at: "word_at ?K = w" unfolding word_at_def k using takeWhile_word [OF w(2)] assms(5) w(1) by simp
  have ok: "names_ok (names ?K)" "name_char (peekch ?K)" unfolding p using assms(1) nc by (simp_all add: ready_def)
  obtain n ty M where r: "readName ?K = (n, ty, M)" "ty = word_type (word_at ?K)" "names_ok (names M)" by (rule readName_found [OF ok])
  have ty: "ty = Reserved i" using r(2) assms(3,4) unfolding at by (simp add: word_type_nth)
  have "readNext ?K = read_other (position ?K) ?K" using w(6,7) p by (simp add: readNext_def)
  then obtain loc where n: "readNext ?K = (name_lexeme loc (Reserved i) n, M)" using p w(3,5) r(1) ty by (simp add: read_other_def)
  have "M = snd (snd (readName ?K))" using r by simp
  moreover have "buffer (snd (snd (readName ?K))) = buffer L \<and> offset (snd (snd (readName ?K))) = offset L + length w \<and>
      braceStack (snd (snd (readName ?K))) = braceStack L \<and> skipComments (snd (snd (readName ?K))) = skipComments L"
    using readName_eq [of ?K] nc p at by (simp add: Let_def split: prod.splits)
  ultimately have m: "buffer M = buffer L" "offset M = offset L + length w" "braceStack M = braceStack L" "skipComments M = skipComments L" by simp_all
  have "rest_of M = r" using drop_more [OF assms(2)] m by simp
  then show ?thesis using assms(1) r(3) m w(1,4) assms(2)
    by (intro givesI [of L c "v @ r" "name_lexeme loc (Reserved i) n" M]) (simp_all add: n ready_def lexeme_text_def name_lexeme_def plain_lexeme_def)
qed

lemma nextline_text:
  assumes "ready L" and "rest_of L = s @ r" and "\<forall>c \<in> set s. c \<notin> {NUL, CR, LF}" and "peek r \<in> {NUL, CR, LF}"
  shows "\<exists>M. nextline L = next_lexeme M \<and> ready M \<and> buffer M = buffer L \<and> rest_of M = r"
proof -
  let ?M = "consume_while (\<lambda>c. \<not> line_end c) L"
  have "takeWhile (\<lambda>c. \<not> line_end c) (s @ r) = s"
    by (rule takeWhile_word) (use assms(3,4) in \<open>auto simp: list_all_iff line_end_def isNewline_def\<close>)
  then have m: "?M = L\<lparr>offset := offset L + length s\<rparr>" using consume_while_eq [of "\<lambda>c. \<not> line_end c" L] assms(2) by simp
  have "rest_of ?M = r" using drop_more [OF assms(2)] m by simp
  moreover have "ready ?M" "buffer ?M = buffer L" using assms(1) m by (simp_all add: ready_def)
  ultimately show ?thesis by (auto simp: nextline_def)
qed

end
