(* ===== verification/LexShow.thy ===== *)
theory LexShow
  imports LexText
begin

text \<open>
  What the code says about a lexeme: \<open>Lexeme::toString\<close> for messages, and the depth and the quotes that the syntax tree records. The code
  reads them back from the buffer, behind the text of the lexeme.
\<close>

section \<open>Model\<close>

text \<open>\<open>%x\<close>.\<close>

function hex_rev :: "nat \<Rightarrow> string" where
  "hex_rev n =
     char_of (if n mod 16 < 10 then 48 + n mod 16 else 87 + n mod 16) # (if n < 16 then [] else hex_rev (n div 16))"
  by pat_completeness auto

termination by (relation "measure id") auto

declare hex_rev.simps [simp del]

definition show_hex :: "nat \<Rightarrow> string" where
  "show_hex n = rev (hex_rev n)"

definition in_quotes :: "string \<Rightarrow> string" where
  "in_quotes s = CHR 0x27 # s @ [CHR 0x27]"

text \<open>\<open>length\<close> characters from \<open>data\<close> on.\<close>

definition data_text :: "string \<Rightarrow> Lexeme \<Rightarrow> string option" where
  "data_text buf l = map_option (\<lambda>d. take (length_of l) (drop d buf)) (data l)"

definition text_between :: "string \<Rightarrow> string option \<Rightarrow> string \<Rightarrow> string \<Rightarrow> string" where
  "text_between before t after missing = (case t of Some s \<Rightarrow> before @ s @ after | None \<Rightarrow> missing)"

text \<open>\<open>findConfusable\<close> is a table of characters that look alike.\<close>

definition toString :: "(u32 \<Rightarrow> string option) \<Rightarrow> string \<Rightarrow> Lexeme \<Rightarrow> string" where
  "toString findConfusable buf l =
     (let t = data_text buf l; dq = [CHR 0x22]; sq = [CHR 0x27]; bq = [CHR 0x60] in
      case lex_type l of
        Eof \<Rightarrow> ''<eof>''
      | Equal \<Rightarrow> in_quotes ''==''
      | LessEqual \<Rightarrow> in_quotes ''<=''
      | GreaterEqual \<Rightarrow> in_quotes ''>=''
      | NotEqual \<Rightarrow> in_quotes ''~=''
      | Dot2 \<Rightarrow> in_quotes ''..''
      | Dot3 \<Rightarrow> in_quotes ''...''
      | SkinnyArrow \<Rightarrow> in_quotes ''->''
      | DoubleColon \<Rightarrow> in_quotes ''::''
      | FloorDiv \<Rightarrow> in_quotes ''//''
      | AddAssign \<Rightarrow> in_quotes ''+=''
      | SubAssign \<Rightarrow> in_quotes ''-=''
      | MulAssign \<Rightarrow> in_quotes ''*=''
      | DivAssign \<Rightarrow> in_quotes ''/=''
      | FloorDivAssign \<Rightarrow> in_quotes ''//=''
      | ModAssign \<Rightarrow> in_quotes ''%=''
      | PowAssign \<Rightarrow> in_quotes ''^=''
      | ConcatAssign \<Rightarrow> in_quotes ''..=''
      | RawString \<Rightarrow> text_between dq t dq ''string''
      | QuotedString \<Rightarrow> text_between dq t dq ''string''
      | InterpStringBegin \<Rightarrow> text_between bq t ''{'' ''the beginning of an interpolated string''
      | InterpStringMid \<Rightarrow> text_between ''}'' t ''{'' ''the middle of an interpolated string''
      | InterpStringEnd \<Rightarrow> text_between ''}'' t bq ''the end of an interpolated string''
      | InterpStringSimple \<Rightarrow> text_between bq t bq ''interpolated string''
      | Number \<Rightarrow> text_between sq t sq ''number''
      | Name \<Rightarrow> text_between sq (name l) sq ''identifier''
      | Comment \<Rightarrow> ''comment''
      | Attribute \<Rightarrow> text_between sq (name l) sq ''attribute''
      | AttributeOpen \<Rightarrow> in_quotes ''@[''
      | BrokenString \<Rightarrow> ''malformed string''
      | BrokenComment \<Rightarrow> ''unfinished comment''
      | BrokenInterpDoubleBrace \<Rightarrow> in_quotes ''{{'' @ '', which is invalid (did you mean '' @ in_quotes (CHR 0x5C # ''{'') @ ''?)''
      | BrokenUnicode \<Rightarrow>
          if codepoint l \<noteq> 0 then
            case findConfusable (codepoint l) of
              Some confusable \<Rightarrow>
                ''Unicode character U+'' @ show_hex (unat (codepoint l)) @ '' (did you mean '' @ in_quotes confusable @ ''?)''
            | None \<Rightarrow> ''Unicode character U+'' @ show_hex (unat (codepoint l))
          else ''invalid UTF-8 sequence''
      | Char c \<Rightarrow> in_quotes [c]
      | Reserved i \<Rightarrow> in_quotes (kReserved ! i)
      | BlockComment \<Rightarrow> ''<unknown>'')"

text \<open>\<open>getBlockDepth\<close> counts the characters from behind the first closing bracket to the second; a read outside of the buffer is \<open>None\<close>.\<close>

function block_depth_loop :: "string \<Rightarrow> nat \<Rightarrow> nat \<Rightarrow> nat option" where
  "block_depth_loop buf i depth =
     (if i + depth < length buf then
        if buf ! (i + depth) \<noteq> CHR '']'' then block_depth_loop buf i (depth + 1) else Some (depth - 1)
      else None)"
  by pat_completeness auto

termination by (relation "measure (\<lambda>(buf, i, depth). length buf - (i + depth))") auto

declare block_depth_loop.simps [simp del]

definition getBlockDepth :: "string \<Rightarrow> Lexeme \<Rightarrow> nat option" where
  "getBlockDepth buf l = (case data l of Some d \<Rightarrow> block_depth_loop buf (d + length_of l) 1 | None \<Rightarrow> None)"

datatype QuoteStyle = Single | Double

definition getQuoteStyle :: "string \<Rightarrow> Lexeme \<Rightarrow> QuoteStyle option" where
  "getQuoteStyle buf l =
     (case data l of
        None \<Rightarrow> None
      | Some d \<Rightarrow>
          let i = d + length_of l in
          if i < length buf then if buf ! i = CHR 0x27 then Some Single else Some Double else None)"

section \<open>Separators\<close>

definition separator :: "char \<Rightarrow> nat \<Rightarrow> string" where
  "separator c d = c # replicate d (CHR ''='') @ [c]"

lemma length_separator [simp]: "length (separator c d) = d + 2"
  by (simp add: separator_def)

lemma takeWhile_replicate: "takeWhile (\<lambda>c. c = x) t = replicate (length (takeWhile (\<lambda>c. c = x) t)) x"
  by (induction t) auto

lemma skipLongSeparator_text:
  assumes "skipLongSeparator L = (int d, M)" and "peekch L = c" and "c \<noteq> NUL"
  shows "\<exists>t. rest_of L = separator c d @ t \<and> M = L\<lparr>offset := offset L + d + 1\<rparr>"
proof -
  obtain t where t: "rest_of L = c # t" using assms(2,3) by (cases "rest_of L") (auto simp: peekch_rest)
  let ?n = "length (takeWhile (\<lambda>c. c = CHR ''='') t)"
  have w: "consume_while (\<lambda>c. c = CHR ''='') (consume L) = L\<lparr>offset := offset L + 1 + ?n\<rparr>"
    using consume_while_eq [of "\<lambda>c. c = CHR ''=''" "consume L"] rest_consume [OF t] by (simp add: consume_def)
  have "d = ?n" and M: "M = L\<lparr>offset := offset L + d + 1\<rparr>" and p: "peekch M = c"
    using assms(1,2) by (auto simp: skipLongSeparator_def Let_def w split: if_splits)
  have "drop (offset L + 1) (buffer L) = t" using rest_consume [OF t] by (simp add: consume_def)
  moreover have "drop d (drop (offset L + 1) (buffer L)) = rest_of M" by (simp add: M ac_simps)
  ultimately have "rest_of M = drop ?n t" unfolding \<open>d = ?n\<close> by (simp only:)
  then obtain t' where "drop ?n t = c # t'" using p assms(3) by (cases "drop ?n t") (auto simp: peekch_rest)
  then have "t = replicate d (CHR ''='') @ c # t'"
    using takeWhile_replicate [of "CHR ''=''" t] append_take_drop_id [of ?n t] takeWhile_eq_take [of "\<lambda>c. c = CHR ''=''" t] \<open>d = ?n\<close> by simp
  then show ?thesis using t M by (auto simp: separator_def)
qed

lemma long_string_found:
  assumes "long_string_loop (int d) L = (True, N)"
  shows "\<exists>p. offset L \<le> p \<and> offset N = p + d + 2 \<and> buffer N = buffer L \<and> take (d + 2) (drop p (buffer L)) = separator (CHR '']'') d"
  using assms
proof (induction "int d" L rule: long_string_loop.induct)
  case (1 L)
  consider "peekch L = NUL" | "peekch L = CHR '']''" | "peekch L \<noteq> NUL" "peekch L \<noteq> CHR '']''" by blast
  then show ?case
  proof cases
    case 1
    then show ?thesis using "1.prems" unfolding long_string_loop.simps [of "int d" L] by simp
  next
    case 2
    obtain x M where s: "skipLongSeparator L = (x, M)" by (cases "skipLongSeparator L")
    then have m: "offset L < offset M" "buffer M = buffer L" using skipLongSeparator_mono [of L] by simp_all
    show ?thesis
    proof (cases "x = int d")
      case True
      then obtain t where t: "rest_of L = separator (CHR '']'') d @ t" "M = L\<lparr>offset := offset L + d + 1\<rparr>"
        using skipLongSeparator_text [of L d M] s 2 by auto
      have "N = consume M" using "1.prems" 2 s True unfolding long_string_loop.simps [of "int d" L] by simp
      then show ?thesis using t by (intro exI [of _ "offset L"]) (simp add: consume_def)
    next
      case False
      then have "long_string_loop (int d) M = (True, N)" using "1.prems" 2 s unfolding long_string_loop.simps [of "int d" L] by simp
      then obtain p where "offset M \<le> p" "offset N = p + d + 2" "buffer N = buffer M" "take (d + 2) (drop p (buffer M)) = separator (CHR '']'') d"
        using "1.hyps"(1) [OF _ 2 refl] False s 2 by auto
      then show ?thesis using m by (intro exI [of _ p]) simp
    qed
  next
    case 3
    then have "long_string_loop (int d) (consumeAny L) = (True, N)" using "1.prems" unfolding long_string_loop.simps [of "int d" L] by simp
    then show ?thesis using "1.hyps"(2) [OF 3] by auto
  qed
qed

text \<open>The places of the quotes and separators around a text.\<close>

definition delimited :: "string \<Rightarrow> Lexeme \<Rightarrow> bool" where
  "delimited buf l \<longleftrightarrow>
     (\<forall>p. data l = Some p \<longrightarrow>
        (lex_type l = RawString \<or> lex_type l = BlockComment \<longrightarrow>
           (\<exists>d. d + 2 \<le> p \<and> take (d + 2) (drop (p - (d + 2)) buf) = separator (CHR ''['') d \<and>
              take (d + 2) (drop (p + length_of l) buf) = separator (CHR '']'') d)) \<and>
        (lex_type l = QuotedString \<longrightarrow>
           (\<exists>q \<in> {CHR 0x22, CHR 0x27}. 1 \<le> p \<and> p + length_of l < length buf \<and> buf ! (p - 1) = q \<and> buf ! (p + length_of l) = q)))"

lemma delimited_plain [simp]: "delimited buf (plain_lexeme loc ty)" "delimited buf (name_lexeme loc ty n)"
  by (simp_all add: delimited_def plain_lexeme_def name_lexeme_def)

lemma delimited_data: "ty \<notin> {RawString, BlockComment, QuotedString} \<Longrightarrow> delimited buf (data_lexeme loc ty p n)"
  by (simp add: delimited_def data_lexeme_def plain_lexeme_def)

lemma delimited_long:
  assumes "skipLongSeparator L = (sep, M)" and "sep \<ge> 0" and "peekch L = CHR ''[''" and "ok = RawString \<or> ok = BlockComment"
  shows "delimited (buffer L) (fst (readLongString start sep ok br M))"
proof -
  obtain d where d: "sep = int d" using assms(2) nonneg_int_cases by blast
  obtain t where t: "rest_of L = separator (CHR ''['') d @ t" "M = L\<lparr>offset := offset L + d + 1\<rparr>"
    using skipLongSeparator_text [OF assms(1) [unfolded d] assms(3)] by auto
  obtain b N where l: "long_string_loop sep (consume M) = (b, N)" by (cases "long_string_loop sep (consume M)")
  show ?thesis
  proof (cases b)
    case True
    then obtain p where p: "offset (consume M) \<le> p" "offset N = p + d + 2" "buffer N = buffer L"
        "take (d + 2) (drop p (buffer L)) = separator (CHR '']'') d"
      using long_string_found [of d "consume M" N] l d t(2) by (auto simp: consume_def)
    have r: "fst (readLongString start sep ok br M) = data_lexeme (here start N) ok (offset L + d + 2) (p - (offset L + d + 2))"
      using p(2) True l d t(2) by (simp add: readLongString_def Let_def)
    have "take (d + 2) (rest_of L) = separator (CHR ''['') d" using t(1) by simp
    then show ?thesis using p assms(4) t(2) unfolding r
      by (auto simp: delimited_def data_lexeme_def plain_lexeme_def intro!: exI [of _ d])
  next
    case False
    then show ?thesis using l by (simp add: readLongString_def Let_def)
  qed
qed

lemma delimited_comment: "delimited (buffer L) (fst (readCommentBody L))"
proof -
  let ?K = "consume (consume L)"
  obtain sep M where s: "skipLongSeparator ?K = (sep, M)" by (cases "skipLongSeparator ?K")
  then show ?thesis using delimited_long [OF s, of BlockComment]
    by (simp add: readCommentBody_def Let_def delimited_data)
qed

lemma quoted_loop_moves: "quoted_loop q L = (b, M) \<Longrightarrow> buffer M = buffer L \<and> offset L \<le> offset M \<and> (b \<longrightarrow> peekch M = q)"
proof (induction q L rule: quoted_loop.induct)
  case (1 q L)
  have m: "buffer (quoted_char L) = buffer L" "offset L \<le> offset (quoted_char L)"
    using readBackslashInString_mono [of L] by (simp_all add: quoted_char_def)
  show ?case
  proof (cases "peekch L = q \<or> line_end (peekch L)")
    case True
    then show ?thesis using 1(2) unfolding quoted_loop.simps [of q L] by (auto simp: Let_def split: if_splits)
  next
    case False
    then have "quoted_loop q (quoted_char L) = (b, M)" using 1(2) unfolding quoted_loop.simps [of q L] by (simp add: Let_def)
    from 1(1) [OF refl _ _ this] False m show ?thesis by auto
  qed
qed

lemma delimited_quoted:
  assumes "peekch L = CHR 0x22 \<or> peekch L = CHR 0x27"
  shows "delimited (buffer L) (fst (readQuotedString L))"
proof -
  have "peekch L \<noteq> NUL" using assms by auto
  then have i: "offset L < length (buffer L)" by (rule peekch_inside)
  then have b: "buffer L ! offset L = peekch L" by (simp add: peekch_def)
  obtain f M where l: "quoted_loop (peekch L) (consume L) = (f, M)" by (cases "quoted_loop (peekch L) (consume L)")
  from quoted_loop_moves [OF this] have m: "buffer M = buffer L" "Suc (offset L) \<le> offset M" "f \<Longrightarrow> peekch M = peekch L"
    unfolding offset_consume by blast+
  show ?thesis
  proof (cases f)
    case True
    then have "peekch M \<noteq> NUL" using m(3) assms by auto
    then have e: "offset M < length (buffer L)" using peekch_inside [of M] m(1) by simp
    then have q: "buffer L ! offset M = peekch L" using m(1) m(3) [OF True] by (simp add: peekch_def)
    have "fst (readQuotedString L) = data_lexeme (here (position L) (consume M)) QuotedString (Suc (offset L)) (offset M - Suc (offset L))"
      using True l by (simp add: readQuotedString_def Let_def)
    moreover have "Suc (offset L) + (offset M - Suc (offset L)) = offset M" using m(2) by simp
    ultimately show ?thesis using b e q assms by (simp add: delimited_def data_lexeme_def plain_lexeme_def)
  next
    case False
    then show ?thesis using l by (simp add: readQuotedString_def Let_def)
  qed
qed

lemma delimited_interp:
  "f \<notin> {RawString, BlockComment, QuotedString} \<Longrightarrow> e \<notin> {RawString, BlockComment, QuotedString} \<Longrightarrow>
    delimited buf (fst (interp_loop p f e so L))"
proof (induction p f e so L rule: interp_loop.induct)
  case (1 p f e so L)
  show ?case
  proof (cases "peekch L = CHR 0x60 \<or> line_end (peekch L) \<or> peekch L = CHR ''{''")
    case True
    then show ?thesis using 1(2,3) unfolding interp_loop.simps [of p f e so L] by (auto simp: Let_def delimited_data)
  next
    case False
    then show ?thesis using 1(1) [OF refl] 1(2,3) unfolding interp_loop.simps [of p f e so L] by (simp add: Let_def)
  qed
qed

lemma delimited_utf8: "delimited buf (fst (readUtf8Error L))"
  by (cases "utf8_lead (code (peekch L))")
    (auto simp: readUtf8Error_def Let_def delimited_def plain_lexeme_def simp del: utf8_rest.simps split: option.split prod.split)

lemma readNext_delimited: "delimited (buffer L) (fst (readNext L))"
proof -
  have num: "delimited buf (fst (readNumber q so K))" for buf q so K by (simp add: readNumber_def Let_def delimited_data)
  have 1: "delimited buf (fst (read_dot q L))" "delimited buf (fst (read_slash q L))" "delimited buf (fst (read_colon q L))"
      "delimited buf (fst (read_open_brace q L))" "delimited buf (fst (read_equal q c ty L))" "delimited buf (fst (fixed q n ty L))" for buf q c ty n
    by (simp_all add: read_dot_def read_slash_def read_colon_def read_open_brace_def read_equal_def fixed_def Let_def num)
  have 2: "delimited (buffer L) (fst (read_minus q L))" for q by (simp add: read_minus_def 1 delimited_comment)
  have 3: "delimited (buffer L) (fst (read_bracket q L))" if "peekch L = CHR ''[''" for q
    using delimited_long [OF _ _ that, of "fst (skipLongSeparator L)" "snd (skipLongSeparator L)" RawString]
    by (simp add: read_bracket_def case_prod_beta)
  have 4: "delimited buf (fst (read_close_brace q L))" "delimited buf (fst (readInterpolatedStringBegin L))" for buf q
    by (simp_all add: read_close_brace_def readInterpolatedStringBegin_def readInterpolatedStringSection_def Let_def delimited_interp)
  have 5: "delimited buf (fst (read_at q L))" "delimited buf (fst (read_other q L))" for buf q
    by (simp_all add: read_at_def read_other_def Let_def 1 num delimited_utf8 split: prod.split)
  show ?thesis unfolding readNext_def Let_def by (simp add: 1 2 3 4 5 delimited_quoted split: option.split)
qed

lemma delimited_next_round: "delimited (buffer L) (lexeme (next_round u L))"
proof -
  define K where "K = (if u then (skip_spaces L)\<lparr>prevLocation := location (lexeme (skip_spaces L))\<rparr> else skip_spaces L)"
  have "buffer K = buffer L" using skip_spaces_mono [of L] by (simp add: K_def)
  moreover have "lexeme (next_round u L) = fst (readNext K)" by (simp add: next_round_def K_def Let_def case_prod_beta)
  ultimately show ?thesis using readNext_delimited [of K] by simp
qed

lemma delimited_next_loop: "names_ok (names L) \<Longrightarrow> tracked start L \<Longrightarrow> delimited (buffer L) (lexeme (next_loop skip u L))"
proof (induction skip u L rule: next_loop.induct)
  case (1 skip u L)
  have "one_lexeme start L (offset (skip_spaces L)) (next_round u L)" by (rule next_round_one [OF 1(3,2)])
  then have "names_ok (names (next_round u L))" "tracked start (next_round u L)" "buffer (next_round u L) = buffer L"
    by (simp_all add: one_lexeme_def)
  then show ?case using 1(1) [OF refl] delimited_next_round [of L u] unfolding next_loop.simps [of skip u L] by (auto simp: Let_def)
qed

lemma block_depth_loop_skip:
  assumes "\<And>k. k < n \<Longrightarrow> i + depth + k < length buf \<and> buf ! (i + depth + k) \<noteq> CHR '']''"
    and "i + depth + n < length buf" and "buf ! (i + depth + n) = CHR '']''"
  shows "block_depth_loop buf i depth = Some (depth + n - 1)"
  using assms
proof (induction n arbitrary: depth)
  case 0
  then show ?case by (subst block_depth_loop.simps) simp
next
  case (Suc n)
  have "i + depth + 0 < length buf \<and> buf ! (i + depth + 0) \<noteq> CHR '']''" by (rule Suc(2)) simp
  moreover have "block_depth_loop buf i (depth + 1) = Some (depth + 1 + n - 1)"
  proof (rule Suc(1))
    show "i + (depth + 1) + k < length buf \<and> buf ! (i + (depth + 1) + k) \<noteq> CHR '']''" if "k < n" for k
      using Suc(2) [of "Suc k"] that by simp
  qed (use Suc(3,4) in simp_all)
  ultimately show ?case by (subst block_depth_loop.simps) simp
qed

lemma nth_of_take_drop: "take n (drop p s) = t \<Longrightarrow> k < length t \<Longrightarrow> p + k < length s \<and> s ! (p + k) = t ! k"
  by auto

lemma block_depth_separator:
  assumes "data l = Some p" and "take (d + 2) (drop (p + length_of l) buf) = separator (CHR '']'') d"
  shows "getBlockDepth buf l = Some d"
proof -
  have n: "p + length_of l + k < length buf \<and> buf ! (p + length_of l + k) = separator (CHR '']'') d ! k" if "k < d + 2" for k
    using nth_of_take_drop [OF assms(2)] that by simp
  have "separator (CHR '']'') d ! Suc k = CHR ''=''" if "k < d" for k using that by (simp add: separator_def nth_append)
  then have "block_depth_loop buf (p + length_of l) 1 = Some (1 + d - 1)"
    using n [of "Suc _"] n [of "Suc d"] by (intro block_depth_loop_skip) (simp_all add: separator_def nth_append)
  then show ?thesis using assms(1) by (simp add: getBlockDepth_def)
qed

section \<open>Properties\<close>

text \<open>C32. What is read back from behind the text of a lexeme lies inside of the buffer and is right: the depth of a raw string or block
  comment is that of the separators on both sides of it, and the quotes of a quoted string are those around it.\<close>

theorem lexeme_delimiters:
  assumes "reachable_lexer buf t start L" and "names_ok t" and "data (lexeme (next_lexeme L)) = Some p"
  shows "(lex_type (lexeme (next_lexeme L)) \<in> {RawString, BlockComment} \<longrightarrow>
      (\<exists>d. getBlockDepth buf (lexeme (next_lexeme L)) = Some d \<and> d + 2 \<le> p \<and>
         take (d + 2) (drop (p - (d + 2)) buf) = separator (CHR ''['') d \<and>
         take (d + 2) (drop (p + length_of (lexeme (next_lexeme L))) buf) = separator (CHR '']'') d)) \<and>
    (lex_type (lexeme (next_lexeme L)) = QuotedString \<longrightarrow>
      (\<exists>q. getQuoteStyle buf (lexeme (next_lexeme L)) = Some q \<and> 1 \<le> p \<and>
         buf ! (p - 1) = (if q = Single then CHR 0x27 else CHR 0x22) \<and>
         buf ! (p + length_of (lexeme (next_lexeme L))) = (if q = Single then CHR 0x27 else CHR 0x22)))"
proof -
  let ?l = "lexeme (next_lexeme L)"
  have "tracked start L" "names_ok (names L)" "buffer L = buf"
    using lexer_inv_reachable [OF assms(1,2)] by (simp_all add: lexer_inv_def)
  then have d: "delimited buf ?l" unfolding next_lexeme_def using delimited_next_loop by blast
  have block: "\<exists>d. getBlockDepth buf ?l = Some d \<and> d + 2 \<le> p \<and> take (d + 2) (drop (p - (d + 2)) buf) = separator (CHR ''['') d \<and>
      take (d + 2) (drop (p + length_of ?l) buf) = separator (CHR '']'') d" if "lex_type ?l \<in> {RawString, BlockComment}"
    using d assms(3) that block_depth_separator [OF assms(3)] unfolding delimited_def by blast
  have "\<exists>q \<in> {CHR 0x22, CHR 0x27}. 1 \<le> p \<and> p + length_of ?l < length buf \<and> buf ! (p - 1) = q \<and> buf ! (p + length_of ?l) = q"
    if "lex_type ?l = QuotedString"
    using d assms(3) that unfolding delimited_def by blast
  then have "\<exists>q. getQuoteStyle buf ?l = Some q \<and> 1 \<le> p \<and> buf ! (p - 1) = (if q = Single then CHR 0x27 else CHR 0x22) \<and>
      buf ! (p + length_of ?l) = (if q = Single then CHR 0x27 else CHR 0x22)" if "lex_type ?l = QuotedString"
    using that assms(3) by (auto simp: getQuoteStyle_def Let_def)
  then show ?thesis using block by blast
qed

lemma lexeme_delimiters_witness:
  "getBlockDepth ''[=[a]]=]'' (lexeme (next_lexeme (new_lexer ''[=[a]]=]'' new_names origin))) = Some 1"
proof -
  let ?l = "lexeme (next_lexeme (new_lexer ''[=[a]]=]'' new_names origin))"
  have l: "data ?l = Some 3" "lex_type ?l = RawString" by code_simp+
  from lexeme_delimiters [OF reachable_lexer.intros(1) new_names_ok l(1)] l(2)
  obtain d where d: "getBlockDepth ''[=[a]]=]'' ?l = Some d" "d + 2 \<le> 3" "take (d + 2) (drop (3 - (d + 2)) ''[=[a]]=]'') = separator (CHR ''['') d"
    by auto
  then have "d = 0 \<or> d = 1" by auto
  then show ?thesis using d by (auto simp: separator_def)
qed

end
