(* ===== verification/JsonLex.thy ===== *)
theory JsonLex
  imports LexShow
begin

text \<open>
  The lexer as \<open>Config/src/Config.cpp\<close> uses it, with the comments that start with \<open>//\<close> skipped, and the lexemes it gives for a text
  of punctuation, strings and words between white space and comments.
\<close>

section \<open>Model\<close>

text \<open>What is left to read, and nothing at \<open>Eof\<close>.\<close>

definition lexemes_left :: "Lexer \<Rightarrow> nat" where
  "lexemes_left L = (if lex_type (lexeme L) = Eof then 0 else Suc (length (buffer L) - offset L))"

lemma next_loop_progress:
  "lex_type (lexeme (next_loop skip u L)) \<noteq> Eof \<Longrightarrow>
    offset L < offset (next_loop skip u L) \<and> buffer (next_loop skip u L) = buffer L \<and> offset L < length (buffer L)"
proof (induction skip u L rule: next_loop.induct)
  case (1 skip u L)
  show ?case
  proof (cases "skip \<and> is_comment (lexeme (next_round u L))")
    case True
    then have "lex_type (lexeme (next_round u L)) \<noteq> Eof" by (auto simp: is_comment_def)
    moreover have n: "next_loop skip u L = next_loop skip False (next_round u L)"
      using True unfolding next_loop.simps [of skip u L] by (simp add: Let_def)
    ultimately show ?thesis using 1(1) [OF refl True] 1(2) next_round_progress [of u L] unfolding n by auto
  next
    case False
    have "next_loop skip u L = next_round u L" unfolding next_loop.simps [of skip u L] Let_def if_not_P [OF False] ..
    then show ?thesis using 1(2) next_round_progress [of u L] by simp
  qed
qed

lemma next_lexeme_left:
  assumes "lex_type (lexeme L) \<noteq> Eof" and "offset L \<le> offset K" and "buffer K = buffer L"
  shows "lexemes_left (next_lexeme K) < lexemes_left L"
  using assms next_loop_progress [of "skipComments K" True K]
  by (cases "lex_type (lexeme (next_lexeme K)) = Eof") (auto simp: lexemes_left_def next_lexeme_def intro!: diff_less_mono2)

lemma nextline_left: "lex_type (lexeme L) \<noteq> Eof \<Longrightarrow> lexemes_left (nextline L) < lexemes_left L"
  unfolding nextline_def by (intro next_lexeme_left) (simp_all add: consume_while_mono)

text \<open>The loop of \<open>next\<close> in \<open>Config.cpp\<close>.\<close>

function skip_slashes :: "Lexer \<Rightarrow> Lexer" where
  "skip_slashes L = (if lex_type (lexeme L) = FloorDiv then skip_slashes (nextline L) else L)"
  by pat_completeness auto

termination by (relation "measure lexemes_left") (auto intro: nextline_left)

declare skip_slashes.simps [simp del]

definition json_next :: "Lexer \<Rightarrow> Lexer" where
  "json_next L = skip_slashes (next_lexeme L)"

lemma skip_slashes_left: "lexemes_left (skip_slashes L) \<le> lexemes_left L"
proof (induction L rule: skip_slashes.induct)
  case (1 L)
  then show ?case using nextline_left [of L] unfolding skip_slashes.simps [of L] by auto
qed

lemma json_next_left: "lex_type (lexeme L) \<noteq> Eof \<Longrightarrow> lexemes_left (json_next L) < lexemes_left L"
  using next_lexeme_left [of L L] skip_slashes_left [of "next_lexeme L"] by (simp add: json_next_def)

text \<open>The lexer at each lexeme up to \<open>Eof\<close>, and at \<open>Eof\<close>.\<close>

function json_states :: "Lexer \<Rightarrow> Lexer list" where
  "json_states L = (if lex_type (lexeme L) = Eof then [] else L # json_states (json_next L))"
  by pat_completeness auto

termination by (relation "measure lexemes_left") (auto intro: json_next_left)

declare json_states.simps [simp del]

function json_end :: "Lexer \<Rightarrow> Lexer" where
  "json_end L = (if lex_type (lexeme L) = Eof then L else json_end (json_next L))"
  by pat_completeness auto

termination by (relation "measure lexemes_left") (auto intro: json_next_left)

declare json_end.simps [simp del]

definition json_start :: "string \<Rightarrow> Lexer" where
  "json_start contents = json_next (new_lexer contents new_names origin)"

section \<open>Texts\<close>

text \<open>What may stand between two lexemes: white space and comments, each up to the end of its line.\<close>

inductive gap :: "string \<Rightarrow> bool" where
  "gap []"
| "isSpace c \<Longrightarrow> gap g \<Longrightarrow> gap (c # g)"
| "\<forall>c \<in> set s. c \<notin> {NUL, CR, LF} \<Longrightarrow> peek s \<noteq> CHR ''='' \<Longrightarrow> e \<in> {CR, LF} \<Longrightarrow> gap g \<Longrightarrow> gap (''//'' @ s @ e # g)"

datatype token = Punct char | Quoted string | Word nat

fun spells :: "token \<Rightarrow> string \<Rightarrow> bool" where
  "spells (Punct c) w \<longleftrightarrow> c \<in> set ''{}[]:,'' \<and> w = [c]"
| "spells (Quoted s) w \<longleftrightarrow> (\<exists>q. simple_text q s \<and> w = q # s @ [q])"
| "spells (Word i) w \<longleftrightarrow> i < length kReserved \<and> w = kReserved ! i"

text \<open>What may follow a lexeme without a gap.\<close>

fun may_follow :: "token \<Rightarrow> string \<Rightarrow> bool" where
  "may_follow (Punct c) r \<longleftrightarrow> (c = CHR '':'' \<longrightarrow> peek r \<noteq> CHR '':'') \<and> (c = CHR ''['' \<longrightarrow> peek r \<notin> {CHR ''['', CHR ''=''})"
| "may_follow (Quoted s) r \<longleftrightarrow> True"
| "may_follow (Word i) r \<longleftrightarrow> \<not> name_char (peek r)"

inductive written :: "token list \<Rightarrow> string \<Rightarrow> bool" where
  "gap g \<Longrightarrow> written [] g"
| "gap g \<Longrightarrow> spells t w \<Longrightarrow> may_follow t r \<Longrightarrow> written ts r \<Longrightarrow> written (t # ts) (g @ w @ r)"

fun token_type :: "token \<Rightarrow> Type" where
  "token_type (Punct c) = Char c"
| "token_type (Quoted s) = QuotedString"
| "token_type (Word i) = Reserved i"

fun token_text :: "token \<Rightarrow> string" where
  "token_text (Quoted s) = s"
| "token_text (Punct c) = []"
| "token_text (Word i) = []"

section \<open>The lexemes of a text\<close>

lemma gives_token:
  assumes "ready L" and "rest_of L = w @ r" and "spells t w" and "may_follow t r"
  shows "gives L (token_type t) (token_text t) r"
proof (cases t)
  case (Punct c)
  then have c: "rest_of L = c # r" "c \<in> {CHR '','', CHR '']'', CHR ''{'', CHR ''}''} \<or> c = CHR '':'' \<or> c = CHR ''[''"
    using assms(2,3) by auto
  then show ?thesis using gives_one [OF assms(1) c(1)] gives_colon [OF assms(1), of r] gives_bracket [OF assms(1), of r] assms(4) Punct
    by auto
next
  case (Quoted s)
  then obtain q where "simple_text q s" "w = q # s @ [q]" using assms(3) by auto
  then show ?thesis using gives_string [OF assms(1), of q s r] assms(2) Quoted by simp
next
  case (Word i)
  then show ?thesis using gives_word [OF assms(1,2), of i] assms(3,4) by simp
qed

text \<open>White space and comments before a lexeme make no difference.\<close>

lemma json_next_gap:
  assumes "gap g" and "ready L" and "rest_of L = g @ t"
  shows "\<exists>M. ready M \<and> buffer M = buffer L \<and> rest_of M = t \<and> json_next L = json_next M"
  using assms
proof (induction arbitrary: L rule: gap.induct)
  case 1
  then show ?case by auto
next
  case (2 c g)
  then have e: "rest_of L = c # g @ t" by simp
  obtain M where "ready M" "buffer M = buffer (consumeAny L)" "rest_of M = t" "json_next (consumeAny L) = json_next M"
    using 2(3) [of "consumeAny L"] 2(4) rest_consumeAny [OF e] by auto
  moreover have "json_next L = json_next (consumeAny L)" unfolding json_next_def next_at_space [OF 2(4) e 2(1)] ..
  ultimately show ?case by auto
next
  case (3 s e g)
  let ?r = "s @ e # g @ t"
  have d: "rest_of L = CHR ''/'' # CHR ''/'' # ?r" using 3(7) by simp
  have "peek ?r \<noteq> CHR ''=''" using 3(2,3) by (cases s) auto
  from gives_slashes [OF 3(6) d this] obtain N where N: "N = next_lexeme L" "ready N" "buffer N = buffer L" "rest_of N = ?r" "lex_type (lexeme N) = FloorDiv"
    by (auto simp: gives_def Let_def)
  have "peek (e # g @ t) \<in> {NUL, CR, LF}" using 3(3) by auto
  from nextline_text [OF N(2,4) 3(1) this] obtain K where K: "nextline N = next_lexeme K" "ready K" "buffer K = buffer N" "rest_of K = e # g @ t" by blast
  have "json_next L = skip_slashes (nextline N)" using N(1,5) unfolding json_next_def skip_slashes.simps [of "next_lexeme L"] by simp
  then have l: "json_next L = json_next K" by (simp add: K(1) json_next_def)
  have "isSpace e" using 3(3) by (auto simp: isSpace_def)
  from next_at_space [OF K(2,4) this] have k: "json_next K = json_next (consumeAny K)" by (simp add: json_next_def)
  obtain M where "ready M" "buffer M = buffer (consumeAny K)" "rest_of M = t" "json_next (consumeAny K) = json_next M"
    using 3(5) [of "consumeAny K"] K(2) rest_consumeAny [OF K(4)] by auto
  then show ?case using l k K(3) N(3) by auto
qed

lemma json_next_token:
  assumes "ready L" and "rest_of L = g @ w @ r" and "gap g" and "spells t w" and "may_follow t r"
  shows "ready (json_next L) \<and> buffer (json_next L) = buffer L \<and> rest_of (json_next L) = r \<and>
    lex_type (lexeme (json_next L)) = token_type t \<and> lexeme_text (json_next L) = token_text t"
proof -
  obtain M where M: "ready M" "buffer M = buffer L" "rest_of M = w @ r" "json_next L = json_next M"
    using json_next_gap [OF assms(3,1,2)] by blast
  have g: "gives M (token_type t) (token_text t) r" by (rule gives_token [OF M(1,3) assms(4,5)])
  then have "lex_type (lexeme (next_lexeme M)) \<noteq> FloorDiv" by (cases t) (auto simp: gives_def Let_def)
  then have "json_next M = next_lexeme M" unfolding json_next_def skip_slashes.simps [of "next_lexeme M"] by simp
  then show ?thesis using g M by (auto simp: gives_def Let_def)
qed

lemma json_next_end:
  assumes "ready L" and "rest_of L = g" and "gap g"
  shows "lex_type (lexeme (json_next L)) = Eof"
proof -
  obtain M where M: "ready M" "rest_of M = []" "json_next L = json_next M"
    using json_next_gap [OF assms(3,1), of "[]"] assms(2) by auto
  have "lex_type (lexeme (next_lexeme M)) = Eof" by (rule next_at_end [OF M(1,2)])
  then show ?thesis using M(3) unfolding json_next_def skip_slashes.simps [of "next_lexeme M"] by simp
qed

lemma json_states_written:
  assumes "written ts r" and "ready L" and "rest_of L = r"
  shows "map (\<lambda>M. (lex_type (lexeme M), lexeme_text M)) (json_states (json_next L)) = map (\<lambda>t. (token_type t, token_text t)) ts"
  using assms
proof (induction arbitrary: L rule: written.induct)
  case (1 g)
  then show ?case using json_next_end [OF 1(2,3,1)] by (subst json_states.simps) simp
next
  case (2 g t w r ts)
  note n = json_next_token [OF 2(6,7,1,2,3)]
  then have r: "ready (json_next L)" "rest_of (json_next L) = r" by blast+
  have "token_type t \<noteq> Eof" by (cases t) auto
  then show ?case using n 2(5) [OF r] by (subst json_states.simps) simp
qed

lemma ready_new [simp]: "ready (new_lexer s new_names p)" "rest_of (new_lexer s new_names p) = s"
  by (simp_all add: ready_def new_lexer_def new_names_ok)

end
