(* ===== verification/ConfigText.thy ===== *)
theory ConfigText
  imports JsonLex Config
begin

text \<open>
  The reader of \<open>.luaurc\<close> on text: the parser of \<open>Config\<close> over the lexer of \<open>LexScan\<close>. The parser sees a list of lexemes; the lexer does not
  depend on the parser, so all lexemes can be taken at once, and both views agree at each step.
\<close>

section \<open>The lexemes of the parser\<close>

text \<open>\<open>false\<close> and \<open>true\<close> are the reserved words 6 and 18.\<close>

definition config_type :: "Type \<Rightarrow> lexeme_type" where
  "config_type ty =
     (case ty of
        Char c \<Rightarrow> LChar c
      | Type.QuotedString \<Rightarrow> lexeme_type.QuotedString
      | Reserved i \<Rightarrow> if i = 18 then ReservedTrue else if i = 6 then ReservedFalse else OtherLexeme
      | Type.Eof \<Rightarrow> lexeme_type.Eof
      | _ \<Rightarrow> OtherLexeme)"

definition start_line :: "LexScan.Lexer \<Rightarrow> nat" where
  "start_line L = unat (pos_line (loc_begin (location (lexeme L))))"

definition config_lexeme :: "(32 word \<Rightarrow> string option) \<Rightarrow> LexScan.Lexer \<Rightarrow> Config.Lexeme" where
  "config_lexeme confusable L =
     \<lparr>lex_type = config_type (LexScan.lex_type (lexeme L)), lex_data = lexeme_text L, lex_line = start_line L,
      lex_shown = toString confusable (buffer L) (lexeme L)\<rparr>"

definition config_lexer :: "(32 word \<Rightarrow> string option) \<Rightarrow> LexScan.Lexer \<Rightarrow> Config.Lexer" where
  "config_lexer confusable L = (map (config_lexeme confusable) (json_states L), start_line (json_end L))"

definition json_lexer :: "(32 word \<Rightarrow> string option) \<Rightarrow> string \<Rightarrow> Config.Lexer" where
  "json_lexer confusable contents = config_lexer confusable (json_start contents)"

section \<open>The list and the lexer\<close>

text \<open>At \<open>Eof\<close> behind a call of \<open>next\<close> the lexer stands at the end of the text.\<close>

definition at_end :: "LexScan.Lexer \<Rightarrow> bool" where
  "at_end L \<longleftrightarrow> peekch L = NUL \<and> loc_begin (location (lexeme L)) = position L \<and> data (lexeme L) = None"

definition sound :: "Position \<Rightarrow> LexScan.Lexer \<Rightarrow> bool" where
  "sound start L \<longleftrightarrow> tracked start L \<and> names_ok (names L)"

lemma sound_next: "sound start L \<Longrightarrow> sound start (LexScan.next_lexeme L)"
  using next_lexeme_one [of start L] by (auto simp: sound_def one_lexeme_def)

lemma sound_line: "sound start L \<Longrightarrow> sound start (consume_while (\<lambda>c. \<not> line_end c) L)"
  using moved_consume_while [of "\<lambda>c. \<not> line_end c" L] by (auto simp: sound_def moved_def)

lemma next_at_end_state:
  assumes "sound start L" and "LexScan.lex_type (lexeme (LexScan.next_lexeme L)) = Type.Eof"
  shows "at_end (LexScan.next_lexeme L)"
proof -
  let ?M = "LexScan.next_lexeme L"
  obtain i where o: "one_lexeme start L i ?M" using next_lexeme_one [of start L] assms(1) by (auto simp: sound_def)
  then have i: "i = offset ?M" "place (buffer ?M) start (offset ?M) = position ?M" "buffer ?M = buffer L"
    using assms(2) by (auto simp: one_lexeme_def tracked_def)
  moreover have "peekch ?M = NUL" using o i by (auto simp: one_lexeme_def peekch_def)
  moreover have "typed (readNames L) (lexeme ?M)" using typed_next_loop [of L start "skipComments L" True] assms(1)
    by (simp add: LexScan.next_lexeme_def sound_def)
  then have "data (lexeme ?M) = None" using assms(2) by (auto simp: typed_def has_text_def)
  ultimately show ?thesis using o by (auto simp: at_end_def one_lexeme_def lexeme_at_def)
qed

lemma skip_slashes_sound:
  "sound start L \<Longrightarrow> (LexScan.lex_type (lexeme L) = Type.Eof \<longrightarrow> at_end L) \<Longrightarrow>
    sound start (skip_slashes L) \<and> (LexScan.lex_type (lexeme (skip_slashes L)) = Type.Eof \<longrightarrow> at_end (skip_slashes L))"
proof (induction L rule: skip_slashes.induct)
  case (1 L)
  show ?case
  proof (cases "LexScan.lex_type (lexeme L) = FloorDiv")
    case True
    have "sound start (nextline L)" "LexScan.lex_type (lexeme (nextline L)) = Type.Eof \<longrightarrow> at_end (nextline L)"
      unfolding nextline_def using sound_line [OF 1(2)] sound_next next_at_end_state by blast+
    then show ?thesis using 1(1) [OF True] True unfolding skip_slashes.simps [of L] by simp
  next
    case False
    then show ?thesis using 1(2,3) unfolding skip_slashes.simps [of L] by simp
  qed
qed

lemma json_next_sound:
  assumes "sound start L"
  shows "sound start (json_next L)" "LexScan.lex_type (lexeme (json_next L)) = Type.Eof \<Longrightarrow> at_end (json_next L)"
  using skip_slashes_sound [OF sound_next [OF assms]] next_at_end_state [OF assms] unfolding json_next_def by blast+

lemma at_end_next:
  assumes "at_end L"
  shows "LexScan.lex_type (lexeme (json_next L)) = Type.Eof \<and> start_line (json_next L) = start_line L"
proof -
  have p: "peekch (skip_spaces L) = NUL" and s: "skip_spaces L = L"
    using assms by (subst skip_spaces.simps; simp add: at_end_def isSpace_def)+
  have "next_loop b True L = (L\<lparr>prevLocation := location (lexeme L)\<rparr>)\<lparr>lexeme := plain_lexeme (span (position L) 0) Type.Eof\<rparr>" for b
    using p s unfolding next_loop.simps [of b True L] by (simp add: Let_def next_round_def readNext_eof is_comment_def plain_lexeme_def)
  then have "LexScan.next_lexeme L = (L\<lparr>prevLocation := location (lexeme L)\<rparr>)\<lparr>lexeme := plain_lexeme (span (position L) 0) Type.Eof\<rparr>"
    unfolding LexScan.next_lexeme_def .
  then show ?thesis using assms unfolding json_next_def skip_slashes.simps [of "LexScan.next_lexeme L"]
    by (simp add: plain_lexeme_def span_def start_line_def at_end_def)
qed

lemma config_type_eof: "config_type ty = lexeme_type.Eof \<longleftrightarrow> ty = Type.Eof"
  by (auto simp: config_type_def split: Type.splits if_splits)

text \<open>The list of lexemes that the parser of configuration files works on is the lexer: its head is the current lexeme, with the text that
  messages show, and going on in the list is calling \<open>next\<close> and skipping comments, also at the end, where \<open>Eof\<close> stays.\<close>

theorem config_lexer_simulates:
  assumes "reachable_lexer buf t start L" and "names_ok t"
  shows "current (config_lexer confusable (json_next L)) = config_lexeme confusable (json_next L) \<and>
    Config.next_lexeme (config_lexer confusable (json_next L)) = config_lexer confusable (json_next (json_next L))"
proof -
  let ?M = "json_next L"
  have "sound start L" using lexer_inv_reachable [OF assms] by (simp add: sound_def lexer_inv_def)
  note m = json_next_sound [OF this]
  show ?thesis
  proof (cases "LexScan.lex_type (lexeme ?M) = Type.Eof")
    case True
    note n = at_end_next [OF m(2) [OF True]]
    have "current (config_lexer confusable ?M) = config_lexeme confusable ?M"
      using True m(2) by (simp add: config_lexer_def json_states.simps [of ?M] json_end.simps [of ?M] config_lexeme_def config_type_def
          lexeme_text_def toString_def at_end_def)
    moreover have "config_lexer confusable (json_next ?M) = ([], start_line ?M)"
      using n by (simp add: config_lexer_def json_states.simps [of "json_next ?M"] json_end.simps [of "json_next ?M"])
    ultimately show ?thesis using True by (simp add: config_lexer_def json_states.simps [of ?M] json_end.simps [of ?M])
  next
    case False
    then show ?thesis by (simp add: config_lexer_def json_states.simps [of ?M] json_end.simps [of ?M])
  qed
qed

lemma config_lexer_simulates_witness:
  "current (config_lexer (\<lambda>cp. None) (json_start ''{}'')) = config_lexeme (\<lambda>cp. None) (json_start ''{}'')"
  using config_lexer_simulates [OF reachable_lexer.intros(1) [of "''{}''" new_names origin] new_names_ok] unfolding json_start_def by blast

section \<open>Documents as text\<close>

definition same_lexeme :: "Config.Lexeme \<Rightarrow> Config.Lexeme \<Rightarrow> bool" where
  "same_lexeme u v \<longleftrightarrow> Config.lex_type u = Config.lex_type v \<and> (Config.lex_type u = lexeme_type.QuotedString \<longrightarrow> lex_data u = lex_data v)"

lemma same_lexeme_shape:
  "same_lexeme u v \<Longrightarrow> is_char c u \<Longrightarrow> is_char c v" "same_lexeme u v \<Longrightarrow> is_string s u \<Longrightarrow> is_string s v"
  by (simp_all add: same_lexeme_def is_char_def is_string_def)

lemma lexed_elems_same: "lexed_elems ss us \<Longrightarrow> list_all2 same_lexeme us vs \<Longrightarrow> lexed_elems ss vs"
  by (induction arbitrary: vs rule: lexed_elems.induct)
    (auto simp: list_all2_Cons1 intro: lexed_elems.intros dest: same_lexeme_shape)

lemma lexed_same:
  "lexed d us \<Longrightarrow> list_all2 same_lexeme us vs \<Longrightarrow> lexed d vs"
  "lexed_fields fs us \<Longrightarrow> list_all2 same_lexeme us vs \<Longrightarrow> lexed_fields fs vs"
proof (induction arbitrary: vs and vs rule: lexed_lexed_fields.inducts)
  case (1 s t)
  then show ?case by (auto simp: list_all2_Cons1 intro: lexed_lexed_fields.intros dest: same_lexeme_shape)
next
  case (2 t b)
  then show ?case by (auto simp: list_all2_Cons1 same_lexeme_def intro: lexed_lexed_fields.intros)
next
  case (3 l ss ts r)
  then show ?case
    by (auto simp: list_all2_Cons1 list_all2_append1 intro!: lexed_lexed_fields.intros(3) dest: same_lexeme_shape lexed_elems_same)
next
  case (4 l fs ts r)
  then show ?case
    by (auto simp: list_all2_Cons1 list_all2_append1 intro!: lexed_lexed_fields.intros(4) dest: same_lexeme_shape)
next
  case 5
  then show ?case by (auto intro: lexed_lexed_fields.intros)
next
  case (6 k t col v ts)
  then show ?case by (auto simp: list_all2_Cons1 intro!: lexed_lexed_fields.intros(6) dest: same_lexeme_shape)
next
  case (7 k t col v ts c fs us)
  then show ?case
    by (auto simp: list_all2_Cons1 list_all2_append1 intro!: lexed_lexed_fields.intros(7) dest: same_lexeme_shape)
qed

text \<open>The text of a lexeme of a document.\<close>

definition token_of :: "Config.Lexeme \<Rightarrow> token" where
  "token_of u =
     (case Config.lex_type u of
        LChar c \<Rightarrow> Punct c
      | lexeme_type.QuotedString \<Rightarrow> Quoted (lex_data u)
      | ReservedTrue \<Rightarrow> Word 18
      | _ \<Rightarrow> Word 6)"

definition json_shape :: "Config.Lexeme \<Rightarrow> bool" where
  "json_shape u \<longleftrightarrow> Config.lex_type u \<noteq> lexeme_type.Eof \<and> Config.lex_type u \<noteq> OtherLexeme"

lemma json_shapes [intro]:
  "is_char c u \<Longrightarrow> json_shape u" "is_string s u \<Longrightarrow> json_shape u"
  "Config.lex_type u = (if b then ReservedTrue else ReservedFalse) \<Longrightarrow> json_shape u"
  by (auto simp: json_shape_def is_char_def is_string_def)

lemma lexed_elems_shapes: "lexed_elems ss us \<Longrightarrow> list_all json_shape us"
  by (induction rule: lexed_elems.induct) auto

lemma lexed_shapes: "lexed d us \<Longrightarrow> list_all json_shape us" "lexed_fields fs us \<Longrightarrow> list_all json_shape us"
  by (induction rule: lexed_lexed_fields.inducts) (auto dest: lexed_elems_shapes)

lemma same_as_token:
  assumes "json_shape u" and "LexScan.lex_type (lexeme M) = token_type (token_of u)" and "lexeme_text M = token_text (token_of u)"
  shows "same_lexeme u (config_lexeme confusable M)"
  using assms by (cases "Config.lex_type u") (simp_all add: same_lexeme_def config_lexeme_def json_shape_def token_of_def config_type_def)

lemma same_as_tokens:
  "list_all json_shape us \<Longrightarrow>
    map (\<lambda>M. (LexScan.lex_type (lexeme M), lexeme_text M)) Ms = map (\<lambda>t. (token_type t, token_text t)) (map token_of us) \<Longrightarrow>
    list_all2 same_lexeme us (map (config_lexeme confusable) Ms)"
proof (induction us arbitrary: Ms)
  case (Cons u us)
  then obtain M Ms' where "Ms = M # Ms'" by (cases Ms) auto
  then show ?case using Cons same_as_token [of u M] by auto
qed simp

text \<open>C28. A configuration file is read as it is written: on every text of a document, with white space and comments where they may stand,
  either kind of quotes and trailing commas, lexer and parser give the options the values of the document in order, each under its keys, up to the
  first error.\<close>

theorem config_text_read:
  assumes "lexed (JObj fs) us" and "written (map token_of us) contents"
  shows "parseConfig (json_lexer confusable) contents options config = run_action (config_action options) (leaves [] (JObj fs)) config"
proof -
  have "map (\<lambda>M. (LexScan.lex_type (lexeme M), lexeme_text M)) (json_states (json_start contents)) =
      map (\<lambda>t. (token_type t, token_text t)) (map token_of us)"
    unfolding json_start_def by (rule json_states_written [OF assms(2)]) simp_all
  from same_as_tokens [OF lexed_shapes(1) [OF assms(1)] this] lexed_same(1) [OF assms(1)]
  have "lexed (JObj fs) (fst (json_lexer confusable contents))" by (simp add: json_lexer_def config_lexer_def)
  then obtain ts n where "json_lexer confusable contents = (ts, n)" "lexed (JObj fs) ts" by (cases "json_lexer confusable contents") simp
  then show ?thesis using parseJson_document by (simp add: parseConfig_def)
qed

lemma written_step: "gap g \<Longrightarrow> spells t w \<Longrightarrow> may_follow t r \<Longrightarrow> written ts r \<Longrightarrow> txt = g @ w @ r \<Longrightarrow> written (t # ts) txt"
  by (simp add: written.intros(2))

lemma example_written:
  "written [Punct (CHR ''{''), Quoted ''globals'', Punct (CHR '':''), Punct (CHR ''[''), Quoted ''a'', Punct (CHR '']''), Punct (CHR ''}'')]
    (''{//c'' @ CHR 0x0A # CHR 0x22 # ''globals'' @ CHR 0x22 # '': ['' @ CHR 0x27 # CHR ''a'' # CHR 0x27 # '']} '')"
proof -
  have s: "gap ['' '' ! 0]" "gap []" by (auto intro!: gap.intros simp: isSpace_def)
  have c: "gap (''//'' @ ''c'' @ CHR 0x0A # [])" by (rule gap.intros) (simp_all add: gap.intros)
  have 1: "written [Punct (CHR ''}'')] ''} ''"
    by (rule written_step [OF s(2), where w = "''}''" and r = "'' ''"]) (use s(1) in \<open>simp_all add: written.intros(1)\<close>)
  have 2: "written [Punct (CHR '']''), Punct (CHR ''}'')] '']} ''"
    by (rule written_step [OF s(2) _ _ 1, where w = "'']''"]) simp_all
  have 3: "written [Quoted ''a'', Punct (CHR '']''), Punct (CHR ''}'')] (CHR 0x27 # CHR ''a'' # CHR 0x27 # '']} '')"
    by (rule written_step [OF s(2) _ _ 2, where w = "[CHR 0x27, CHR ''a'', CHR 0x27]"]) (simp_all add: simple_text_def)
  have 4: "written [Punct (CHR ''[''), Quoted ''a'', Punct (CHR '']''), Punct (CHR ''}'')] ('' ['' @ CHR 0x27 # CHR ''a'' # CHR 0x27 # '']} '')"
    by (rule written_step [OF s(1) _ _ 3, where w = "''[''"]) simp_all
  have 5: "written [Punct (CHR '':''), Punct (CHR ''[''), Quoted ''a'', Punct (CHR '']''), Punct (CHR ''}'')]
      ('': ['' @ CHR 0x27 # CHR ''a'' # CHR 0x27 # '']} '')"
    by (rule written_step [OF s(2) _ _ 4, where w = "'':''"]) simp_all
  have 6: "written [Quoted ''globals'', Punct (CHR '':''), Punct (CHR ''[''), Quoted ''a'', Punct (CHR '']''), Punct (CHR ''}'')]
      (''//c'' @ CHR 0x0A # CHR 0x22 # ''globals'' @ CHR 0x22 # '': ['' @ CHR 0x27 # CHR ''a'' # CHR 0x27 # '']} '')"
    by (rule written_step [OF c _ _ 5, where w = "CHR 0x22 # ''globals'' @ [CHR 0x22]"]) (simp_all add: simple_text_def)
  show ?thesis by (rule written_step [OF s(2) _ _ 6, where w = "''{''"]) simp_all
qed

lemma config_text_read_witness:
  "parseConfig (json_lexer (\<lambda>cp. None))
     (''{//c'' @ CHR 0x0A # CHR 0x22 # ''globals'' @ CHR 0x22 # '': ['' @ CHR 0x27 # CHR ''a'' # CHR 0x27 # '']} '')
     \<lparr>opt_compat = False, aliasOptions = None\<rparr> new_config = (None, new_config\<lparr>globals := [''a'']\<rparr>)"
proof -
  have lex: "is_char x (char_lex x)" "is_string s (string_lex s)" for x s
    by (simp_all add: is_char_def is_string_def char_lex_def string_lex_def)
  let ?arr = "char_lex (CHR ''['') # [string_lex ''a''] @ [char_lex (CHR '']'')]"
  let ?us = "char_lex (CHR ''{'') # (string_lex ''globals'' # char_lex (CHR '':'') # ?arr) @ [char_lex (CHR ''}'')]"
  have "lexed (JArr [''a'']) ?arr" by (intro lexed_lexed_fields.intros lexed_elems.intros lex)
  then have "lexed_fields [(''globals'', JArr [''a''])] (string_lex ''globals'' # char_lex (CHR '':'') # ?arr)"
    by (intro lexed_lexed_fields.intros(6) lex)
  then have d: "lexed (JObj [(''globals'', JArr [''a''])]) ?us" by (intro lexed_lexed_fields.intros(4) lex)
  have t: "map token_of ?us = [Punct (CHR ''{''), Quoted ''globals'', Punct (CHR '':''), Punct (CHR ''[''), Quoted ''a'', Punct (CHR '']''),
      Punct (CHR ''}'')]"
    by (simp add: token_of_def char_lex_def string_lex_def)
  have "run_action (config_action \<lparr>opt_compat = False, aliasOptions = None\<rparr>) (leaves [] (JObj [(''globals'', JArr [''a''])])) new_config =
      (None, new_config\<lparr>globals := [''a'']\<rparr>)"
    by (simp add: config_action_def new_config_def)
  then show ?thesis using config_text_read [OF d, unfolded t, OF example_written] by simp
qed

end
