(* ===== verification/ConfigRun.thy ===== *)
theory ConfigRun
  imports Config TableApi
begin

text \<open>
  The conversion of the table that a \<open>.config.luau\<close> returns (\<open>serializeTable\<close> of \<open>Config/src/LuauConfig.cpp\<close>): it reads every
  entry once; it comes back when the tables do not contain each other in a cycle, and never with a table when they do.
\<close>

text \<open>The loop as a fold over the entries in the order of \<open>lua_next\<close>.\<close>

fun serialize_entries ::
    "ConfigVM \<Rightarrow> (nat \<Rightarrow> config_error + ConfigTable) \<Rightarrow> (TValue \<times> TValue) list \<Rightarrow> ConfigTable \<Rightarrow> config_error + ConfigTable" where
  "serialize_entries vm nested [] tab = Inr tab"
| "serialize_entries vm nested ((k, v) # kvs) tab =
     (case config_key k of
        None \<Rightarrow> Inl (Message ''configuration table keys must be strings or numbers'')
      | Some ck \<Rightarrow>
          bindE (serialize_value vm nested ck v) (\<lambda>cv.
          if ck = KStr [] then Inl EmptyKey else serialize_entries vm nested kvs (AList.update ck cv tab)))"

lemma serialize_loop_entries:
  "traverse n t key = Inr kvs \<Longrightarrow> serialize_loop vm nested t n key tab = serialize_entries vm nested kvs tab"
proof (induction n arbitrary: key kvs tab)
  case (Suc n)
  obtain r where r: "luaH_next t key = Inr r" using Suc.prems by (cases "luaH_next t key") auto
  show ?case
  proof (cases r)
    case None
    then show ?thesis using Suc.prems r by simp
  next
    case (Some kv)
    then obtain kvs' where "traverse n t (fst kv) = Inr kvs'" "kvs = kv # kvs'" using Suc.prems r by (auto simp: bindE_eq_Inr_iff)
    then show ?thesis using Suc.IH [of "fst kv" kvs'] r Some by (cases kv) (auto split: option.split intro!: arg_cong2 [of _ _ _ _ bindE])
  qed
qed simp

lemma serializeTable_entries:
  assumes "wf_table (h ! a)"
  shows "serializeTable vm h (Suc depth) a =
    bindE (serialize_entries vm (serializeTable vm h depth) (all_entries (h ! a)) []) (\<lambda>tab. Inr (vm_order vm tab))"
proof -
  have n: "length (all_entries (h ! a)) \<le> positions (h ! a)"
    unfolding all_entries_def by (rule order_trans [OF length_filter_le]) simp
  have "traverse (positions (h ! a) + 1) (h ! a) TNil = Inr (all_entries (h ! a))"
    using traverse_from [OF assms, of TNil 0 "positions (h ! a) + 1"] n by (simp add: findindex_def all_entries_def)
  from serialize_loop_entries [OF this] show ?thesis by (simp add: positions_def)
qed

text \<open>Table \<open>b\<close> is a value of table \<open>a\<close>.\<close>

definition contains :: "LuaTable list \<Rightarrow> nat \<Rightarrow> nat \<Rightarrow> bool" where
  "contains h a b \<longleftrightarrow> (\<exists>k. (k, TGc LUA_TTABLE b) \<in> set (live (h ! a)))"

lemma serialize_value_cases:
  assumes "serialize_value vm nested ck v = r"
  obtains (tab) a where "v = TGc LUA_TTABLE a" and "r = bindE (nested a) (\<lambda>tab. Inr (CTab tab))"
    | (leaf) "\<And>a. v \<noteq> TGc LUA_TTABLE a" and "r \<noteq> Inl NoReturn"
  using assms by (cases v) (auto simp: serialize_value_def split: lua_gctype.splits)

lemma serialize_entries_ends:
  assumes "\<And>k b. (k, TGc LUA_TTABLE b) \<in> set kvs \<Longrightarrow> nested b \<noteq> Inl NoReturn"
  shows "serialize_entries vm nested kvs tab \<noteq> Inl NoReturn"
  using assms
proof (induction kvs arbitrary: tab)
  case (Cons kv kvs)
  obtain k v where kv: "kv = (k, v)" by (cases kv)
  have rest: "serialize_entries vm nested kvs tab' \<noteq> Inl NoReturn" for tab'
    by (rule Cons.IH) (use Cons.prems in auto)
  have "serialize_value vm nested ck v \<noteq> Inl NoReturn" for ck
    using Cons.prems kv by (cases rule: serialize_value_cases [OF refl [of "serialize_value vm nested ck v"]]) (auto simp: bindE_eq_Inl_iff)
  then show ?case using rest kv by (auto simp: bindE_eq_Inl_iff split: option.splits)
qed simp

lemma serialize_entries_nested:
  assumes "serialize_entries vm nested kvs tab = Inr tab'" and "(k, TGc LUA_TTABLE b) \<in> set kvs"
  shows "\<exists>tab''. nested b = Inr tab''"
  using assms
proof (induction kvs arbitrary: tab)
  case (Cons kv kvs)
  obtain k' v where kv: "kv = (k', v)" by (cases kv)
  from Cons.prems(1) obtain ck cv where c: "serialize_value vm nested ck v = Inr cv"
    "serialize_entries vm nested kvs (AList.update ck cv tab) = Inr tab'"
    unfolding kv by (auto simp: bindE_eq_Inr_iff split: option.splits if_splits)
  show ?case
  proof (cases "(k, TGc LUA_TTABLE b) = kv")
    case True
    then show ?thesis using c(1) kv by (auto simp: serialize_value_def bindE_eq_Inr_iff)
  qed (use Cons.IH [OF c(2)] Cons.prems(2) in simp)
qed simp

text \<open>
  The conversion ends when a rank decreases from every table to the tables in it and the C stack has room for as
  many nested calls as the rank; it never ends with a table when each table of a set contains another of the set,
  however large the stack is.
\<close>

lemma serializeTable_ends:
  assumes wf: "\<And>a. a < length h \<Longrightarrow> wf_table (h ! a)"
    and rank: "\<And>a b. a < length h \<Longrightarrow> contains h a b \<Longrightarrow> b < length h \<and> r b < r a"
  shows "a < length h \<Longrightarrow> r a < depth \<Longrightarrow> serializeTable vm h depth a \<noteq> Inl NoReturn"
proof (induction depth arbitrary: a)
  case (Suc depth)
  have "serializeTable vm h depth b \<noteq> Inl NoReturn" if "(k, TGc LUA_TTABLE b) \<in> set (all_entries (h ! a))" for k b
  proof -
    have "contains h a b" using that all_entries_live [OF wf [OF Suc.prems(1)]] by (auto simp: contains_def)
    then show ?thesis using rank [OF Suc.prems(1)] Suc by fastforce
  qed
  then show ?case unfolding serializeTable_entries [OF wf [OF Suc.prems(1)]]
    using serialize_entries_ends by (auto simp: bindE_eq_Inl_iff)
qed simp

lemma serializeTable_cycle:
  assumes "\<And>a. a \<in> S \<Longrightarrow> wf_table (h ! a) \<and> (\<exists>b \<in> S. contains h a b)"
  shows "a \<in> S \<Longrightarrow> serializeTable vm h depth a \<noteq> Inr tab"
proof (induction depth arbitrary: a tab)
  case (Suc depth)
  note wf = assms [OF Suc.prems, THEN conjunct1]
  obtain b where b: "b \<in> S" "contains h a b" using assms [OF Suc.prems] by blast
  then obtain k where "(k, TGc LUA_TTABLE b) \<in> set (all_entries (h ! a))" using all_entries_live [OF wf] by (auto simp: contains_def)
  then show ?case
    using serialize_entries_nested [of vm "serializeTable vm h depth" "all_entries (h ! a)" "[]" _ k b] Suc.IH [OF b(1)]
    unfolding serializeTable_entries [OF wf] bindE_eq_Inr_iff by blast
qed simp

text \<open>A table that holds itself: the calls nest until the stack is gone, however large it is.\<close>

definition self_table :: LuaTable where
  "self_table = empty_table\<lparr>array := [TGc LUA_TTABLE 0]\<rparr>"

lemma self_table_overflows: "serializeTable vm [self_table] depth 0 = Inl NoReturn"
proof (induction depth)
  case (Suc depth)
  have "luaH_next self_table TNil = Inr (Some (TNumber (d_of_int 1), TGc LUA_TTABLE 0))"
    by (simp add: self_table_def empty_table_def luaH_next_def findindex_def)
  then show ?case using Suc by (simp add: config_key_def serialize_value_def)
qed simp

text \<open>A table with an empty key: \<open>return {[""] = true}\<close>.\<close>

definition empty_key_table :: LuaTable where
  "empty_key_table = empty_table\<lparr>node := [\<lparr>gval = TBoolean True, gkey = TString [], gnext = 0\<rparr>], node_dummy := False\<rparr>"

lemma empty_key_fails: "serializeTable vm [empty_key_table] (Suc depth) 0 = Inl EmptyKey"
  by (simp add: empty_key_table_def empty_table_def luaH_next_def findindex_def config_key_def serialize_value_def c_string_def sizenode_def)

text \<open>A file that fails with an error object that is a table, as \<open>error({})\<close> does, makes a string from a null pointer.\<close>

lemma error_object_null:
  "vm_run vm source = Failed (TGc LUA_TTABLE a) \<Longrightarrow> extractLuauConfig vm source opts config = (Some NullString, config)"
  by (simp add: extractLuauConfig_def extractConfig_def)

end
